(* ===== verification/Prelude.thy ===== *)
theory Prelude
  imports Main "HOL-Library.AList"
begin

text \<open>
  Shared vocabulary of the development: how a thrown exception, an out-of-range array read,
  \<open>String.prototype.substring\<close>, \<open>Array.prototype.splice\<close> and the 32-bit conversions of
  JavaScript are written in HOL, with the generic lemmas the component theories use.

  JavaScript numbers that the sources use as line numbers, columns, offsets, lengths and
  indices are \<open>int\<close>: all of them are integers far below \<open>2 ^ 53\<close>, where doubles are exact.
  Where the source narrows a number to 32 bits the narrowing is written out
  (\<open>toInt32\<close> for \<open>x | 0\<close>, \<open>uint32\<close> for a store into a \<open>Uint32Array\<close>).
  A string is its list of UTF-16 code units.
\<close>

named_theorems result_simps \<open>evaluation of the error monad\<close>
named_theorems segment_simps \<open>cutting and joining segments of a list\<close>

type_synonym jsstring = "nat list"

subsection \<open>Errors as values\<close>

text \<open>
  \<open>Inl\<close> is a throw. \<open>BugIndicatingError\<close> is the class of
  \<^verbatim>\<open>vs/base/common/errors.ts\<close>; \<open>JsError\<close> stands for \<open>new Error(..)\<close>, \<open>RangeError\<close> for the
  exception of the typed-array methods.
\<close>

datatype js_error = BugIndicatingError | JsError | RangeError

type_synonym 'a result = "js_error + 'a"

fun bindR :: "'a result \<Rightarrow> ('a \<Rightarrow> 'b result) \<Rightarrow> 'b result" where
  "bindR (Inl e) f = Inl e"
| "bindR (Inr x) f = f x"

fun mapR :: "('a \<Rightarrow> 'b result) \<Rightarrow> 'a list \<Rightarrow> 'b list result" where
  "mapR f [] = Inr []"
| "mapR f (x # xs) = bindR (f x) (\<lambda>y. bindR (mapR f xs) (\<lambda>ys. Inr (y # ys)))"

lemma bindR_eq_Inr [result_simps]:
  "bindR x f = Inr y \<longleftrightarrow> (\<exists>a. x = Inr a \<and> f a = Inr y)"
  by (cases x) auto

lemma bindR_Inr_right [simp]: "bindR x Inr = x"
  by (cases x) auto

lemma bindR_assoc: "bindR (bindR x f) g = bindR x (\<lambda>a. bindR (f a) g)"
  by (cases x) auto

lemma bindR_ex:
  "\<exists>a. m = Inr a \<and> P a \<Longrightarrow> (\<And>a. P a \<Longrightarrow> \<exists>b. f a = Inr b \<and> Q b) \<Longrightarrow> \<exists>b. bindR m f = Inr b \<and> Q b"
  by auto

lemma mapR_total: "(\<And>x. x \<in> set xs \<Longrightarrow> f x = Inr (g x)) \<Longrightarrow> mapR f xs = Inr (map g xs)"
  by (induction xs) auto

subsection \<open>Array reads\<close>

text \<open>\<open>a[i]\<close>: \<open>None\<close> is JavaScript's \<open>undefined\<close>.\<close>

definition js_at :: "'a list \<Rightarrow> int \<Rightarrow> 'a option" where
  "js_at xs i = (if 0 \<le> i \<and> i < int (length xs) then Some (xs ! nat i) else None)"

lemma js_at_in: "0 \<le> i \<Longrightarrow> i < int (length xs) \<Longrightarrow> js_at xs i = Some (xs ! nat i)"
  by (simp add: js_at_def)

lemma js_at_nat: "i < length xs \<Longrightarrow> js_at xs (int i) = Some (xs ! i)"
  by (simp add: js_at_def)

lemma js_at_out [simp]: "i < 0 \<or> int (length xs) \<le> i \<Longrightarrow> js_at xs i = None"
  by (auto simp: js_at_def)

lemma js_at_eq_None: "js_at xs i = None \<longleftrightarrow> i < 0 \<or> int (length xs) \<le> i"
  by (auto simp: js_at_def)

lemma js_at_eq_Some: "js_at xs i = Some x \<longleftrightarrow> 0 \<le> i \<and> i < int (length xs) \<and> x = xs ! nat i"
  by (auto simp: js_at_def)

subsection \<open>Substrings\<close>

text \<open>
  \<open>s.substring(a, b)\<close>: both arguments are clamped to \<open>[0, s.length]\<close> and swapped when the
  first is the larger.
\<close>

definition js_substring :: "'a list \<Rightarrow> int \<Rightarrow> int \<Rightarrow> 'a list" where
  "js_substring s a b =
     (let n = int (length s);
          a' = min (max a 0) n;
          b' = min (max b 0) n
      in take (nat (max a' b' - min a' b')) (drop (nat (min a' b')) s))"

text \<open>\<open>s.substring(a)\<close>.\<close>

definition js_substring_from :: "'a list \<Rightarrow> int \<Rightarrow> 'a list" where
  "js_substring_from s a = js_substring s a (int (length s))"

lemma js_substring_valid:
  "0 \<le> a \<Longrightarrow> a \<le> b \<Longrightarrow> b \<le> int (length s) \<Longrightarrow>
   js_substring s a b = take (nat b - nat a) (drop (nat a) s)"
  by (simp add: js_substring_def Let_def nat_diff_distrib)

lemma js_substring_from_valid:
  "0 \<le> a \<Longrightarrow> a \<le> int (length s) \<Longrightarrow> js_substring_from s a = drop (nat a) s"
  by (simp add: js_substring_from_def js_substring_valid)

lemma js_substring_empty [simp]: "js_substring s a a = []"
  by (simp add: js_substring_def Let_def)

lemma length_js_substring [segment_simps]:
  "0 \<le> a \<Longrightarrow> a \<le> b \<Longrightarrow> b \<le> int (length s) \<Longrightarrow> int (length (js_substring s a b)) = b - a"
  by (simp add: js_substring_valid)

lemma js_substring_all [simp]: "js_substring s 0 (int (length s)) = s"
  by (simp add: js_substring_valid)

lemma js_substring_append [segment_simps]:
  assumes "0 \<le> a" "a \<le> b" "b \<le> c" "c \<le> int (length s)"
  shows "js_substring s a b @ js_substring s b c = js_substring s a c"
proof -
  have eq: "nat c - nat a = (nat b - nat a) + (nat c - nat b)"
    and b: "nat b - nat a + nat a = nat b" using assms by auto
  have "drop (nat b - nat a) (drop (nat a) s) = drop (nat b) s"
    by (simp only: drop_drop b)
  then have "take (nat c - nat a) (drop (nat a) s) =
      take (nat b - nat a) (drop (nat a) s) @ take (nat c - nat b) (drop (nat b) s)"
    by (simp only: eq take_add)
  then show ?thesis
    using assms by (simp add: js_substring_valid)
qed

lemma js_substring_from_append [segment_simps]:
  "0 \<le> a \<Longrightarrow> a \<le> b \<Longrightarrow> b \<le> int (length s) \<Longrightarrow>
   js_substring s a b @ js_substring_from s b = js_substring_from s a"
  unfolding js_substring_from_def by (rule js_substring_append) auto

lemma js_substring_of_append_left:
  "0 \<le> a \<Longrightarrow> a \<le> b \<Longrightarrow> b \<le> int (length s) \<Longrightarrow> js_substring (s @ u) a b = js_substring s a b"
  by (simp add: js_substring_valid)

lemma js_substring_of_append_right:
  "int (length s) \<le> a \<Longrightarrow> a \<le> b \<Longrightarrow> b \<le> int (length s) + int (length u) \<Longrightarrow>
   js_substring (s @ u) a b = js_substring u (a - int (length s)) (b - int (length s))"
  by (simp add: js_substring_valid nat_diff_distrib)

lemma js_substring_drop:
  "0 \<le> a \<Longrightarrow> a \<le> b \<Longrightarrow> 0 \<le> q \<Longrightarrow> q + b \<le> int (length s) \<Longrightarrow>
   js_substring (drop (nat q) s) a b = js_substring s (q + a) (q + b)"
  by (simp add: js_substring_valid nat_add_distrib add.commute)

lemma js_substring_from_eq_append:
  assumes "js_substring_from t q = A @ B" "0 \<le> q" "q \<le> int (length t)" "a = int (length A)"
  shows "q + a \<le> int (length t)"
    and "js_substring t q (q + a) = A"
    and "js_substring_from t (q + a) = B"
proof -
  have d: "drop (nat q) t = A @ B" using assms by (simp add: js_substring_from_valid)
  then have "length t - nat q = length A + length B" by (metis length_append length_drop)
  then show le: "q + a \<le> int (length t)" using assms by linarith
  have "nat (q + a) - nat q = length A" using assms by simp
  then show "js_substring t q (q + a) = A" using assms le d by (simp add: js_substring_valid)
  have "drop (nat (q + a)) t = drop (length A) (drop (nat q) t)"
    using assms by (simp add: nat_add_distrib add.commute)
  then show "js_substring_from t (q + a) = B" using d assms le by (simp add: js_substring_from_valid)
qed

lemma length_js_substring_from:
  "0 \<le> a \<Longrightarrow> a \<le> int (length s) \<Longrightarrow> int (length (js_substring_from s a)) = int (length s) - a"
  by (simp add: js_substring_from_valid)

lemma js_substring_nth:
  assumes "js_substring t a b = js_substring s a' b'" "0 \<le> a" "a \<le> b" "b \<le> int (length t)"
    "0 \<le> a'" "a' \<le> b'" "b' \<le> int (length s)" "0 \<le> k" "k < b - a"
  shows "t ! nat (a + k) = s ! nat (a' + k)"
proof -
  have e: "take (nat b - nat a) (drop (nat a) t) = take (nat b' - nat a') (drop (nat a') s)"
    using assms(1-7) by (simp add: js_substring_valid)
  from arg_cong[OF e, of length] have "nat b - nat a = nat b' - nat a'" using assms by auto
  moreover have "nat k < nat b - nat a" using assms(2,3,8,9) by linarith
  ultimately have "nat k < nat b - nat a" "nat k < nat b' - nat a'" by simp_all
  with arg_cong[OF e, of "\<lambda>l. l ! nat k"] show ?thesis
    using assms by (simp add: nat_add_distrib)
qed

subsection \<open>Array slices, prefix scans and splicing\<close>

text \<open>\<open>arr.slice(a, b)\<close>: negative arguments count from the end.\<close>

definition js_slice :: "'a list \<Rightarrow> int \<Rightarrow> int \<Rightarrow> 'a list" where
  "js_slice xs a b =
     (let n = int (length xs);
          a' = (if a < 0 then max (n + a) 0 else min a n);
          b' = (if b < 0 then max (n + b) 0 else min b n)
      in take (nat (b' - a')) (drop (nat a') xs))"

lemma js_slice_valid:
  "0 \<le> a \<Longrightarrow> a \<le> b \<Longrightarrow> b \<le> int (length xs) \<Longrightarrow>
   js_slice xs a b = take (nat b - nat a) (drop (nat a) xs)"
  by (simp add: js_slice_def Let_def nat_diff_distrib)

text \<open>The counter after \<open>let i = 0; while (i < xs.length && p(xs[i])) { i++; }\<close>.\<close>

fun countWhile :: "('a \<Rightarrow> bool) \<Rightarrow> 'a list \<Rightarrow> int" where
  "countWhile p [] = 0"
| "countWhile p (x # xs) = (if p x then 1 + countWhile p xs else 0)"

lemma countWhile_eq: "countWhile p xs = int (length (takeWhile p xs))"
  by (induction xs) auto

lemma drop_countWhile [simp]: "drop (nat (countWhile p xs)) xs = dropWhile p xs"
  by (simp add: countWhile_eq dropWhile_eq_drop)

lemma take_countWhile [simp]: "take (nat (countWhile p xs)) xs = takeWhile p xs"
  by (simp add: countWhile_eq takeWhile_eq_take[symmetric])

text \<open>
  \<open>arr.splice(start, deleteCount, ...items)\<close> for \<open>0 \<le> start \<le> arr.length\<close> and
  \<open>0 \<le> deleteCount\<close>, the only way the sources call it. The result is the array afterwards.
\<close>

definition js_splice :: "'a list \<Rightarrow> int \<Rightarrow> int \<Rightarrow> 'a list \<Rightarrow> 'a list" where
  "js_splice xs start count items =
     take (nat start) xs @ items @ drop (nat start + nat count) xs"

lemma set_js_splice: "set (js_splice xs i n ys) \<subseteq> set xs \<union> set ys"
  unfolding js_splice_def by (auto dest: in_set_takeD in_set_dropD)

subsection \<open>32-bit conversions\<close>

text \<open>\<open>x | 0\<close>: reduction to a signed 32-bit value.\<close>

definition toInt32 :: "int \<Rightarrow> int" where
  "toInt32 x = (x + 2 ^ 31) mod 2 ^ 32 - 2 ^ 31"

lemma toInt32_id: "- (2 ^ 31) \<le> x \<Longrightarrow> x < 2 ^ 31 \<Longrightarrow> toInt32 x = x"
  by (simp add: toInt32_def)

lemma toInt32_bounds: "- (2 ^ 31) \<le> toInt32 x \<and> toInt32 x < 2 ^ 31"
  by (simp add: toInt32_def)

text \<open>A store into a \<open>Uint32Array\<close>: reduction modulo \<open>2 ^ 32\<close>.\<close>

definition uint32 :: "int \<Rightarrow> int" where
  "uint32 x = x mod 2 ^ 32"

lemma uint32_id: "0 \<le> x \<Longrightarrow> x < 2 ^ 32 \<Longrightarrow> uint32 x = x"
  by (simp add: uint32_def)

lemma uint32_bounds: "0 \<le> uint32 x \<and> uint32 x < 2 ^ 32"
  by (simp add: uint32_def)

subsection \<open>Association lists\<close>

text \<open>A JavaScript \<open>Map\<close> is an association list in the order of insertion.\<close>

lemma set_update_subset: "set (AList.update k v xs) \<subseteq> insert (k, v) (set xs)"
  by (induction xs) auto

lemma set_delete_subset: "set (AList.delete k xs) \<subseteq> set xs"
  by (auto simp: AList.delete_eq)

lemma keys_update: "fst ` set (AList.update k v xs) = insert k (fst ` set xs)"
  using dom_update[of k v xs] by simp

lemma keys_delete: "fst ` set (AList.delete k xs) = fst ` set xs - {k}"
  by (force simp: AList.delete_eq)

end
