(* ===== verification/Comparators.thy ===== *)
theory Comparators
  imports Prelude
begin

text \<open>
  The comparator section of \<^verbatim>\<open>src/vs/base/common/arrays.ts\<close>: \<open>CompareResult\<close>, the
  comparator combinators, and the contract every comparison function of the development is
  shown to obey (the locale \<open>comparator\<close>).
\<close>

subsection \<open>The contract of a comparator\<close>

text \<open>
  \<^verbatim>\<open>Comparator<T>\<close> of \<^verbatim>\<open>vs/base/common/arrays.ts\<close>: a number that is negative, zero or positive.
  The laws a comparison function has to obey for the sorting and searching code to make sense.
\<close>

locale comparator =
  fixes cmp :: "'a \<Rightarrow> 'a \<Rightarrow> int"
  assumes cmp_antisym: "sgn (cmp a b) = - sgn (cmp b a)"
    and cmp_trans: "cmp a b \<le> 0 \<Longrightarrow> cmp b c \<le> 0 \<Longrightarrow> cmp a c \<le> 0"
begin

lemma cmp_refl: "cmp a a = 0"
proof -
  have "sgn (cmp a a) = - sgn (cmp a a)" by (rule cmp_antisym)
  then have "sgn (cmp a a) = 0" by linarith
  then show ?thesis by (simp add: sgn_0_0)
qed

lemma cmp_pos_iff: "0 < cmp a b \<longleftrightarrow> cmp b a < 0"
  using cmp_antisym[of a b] by (auto simp: sgn_if split: if_splits)

lemma cmp_neg_iff: "cmp a b < 0 \<longleftrightarrow> 0 < cmp b a"
  using cmp_pos_iff[of b a] by simp

lemma cmp_total: "cmp a b \<le> 0 \<or> cmp b a \<le> 0"
  using cmp_pos_iff[of a b] by linarith

lemma cmp_trans_less: "cmp a b < 0 \<Longrightarrow> cmp b c \<le> 0 \<Longrightarrow> cmp a c < 0"
  using cmp_trans[of b c a] cmp_pos_iff[of b a] cmp_pos_iff[of c a] cmp_neg_iff[of a b]
  by (metis linorder_not_le order_less_imp_le)

lemma cmp_trans_le_less: "cmp a b \<le> 0 \<Longrightarrow> cmp b c < 0 \<Longrightarrow> cmp a c < 0"
  using cmp_trans[of c a b] cmp_neg_iff[of a c] cmp_neg_iff[of b c]
  by (metis linorder_not_le order_less_imp_le)

end

subsection \<open>Comparator combinators\<close>

definition CompareResult_isLessThan :: "int \<Rightarrow> bool" where
  "CompareResult_isLessThan r \<longleftrightarrow> r < 0"

definition CompareResult_isLessThanOrEqual :: "int \<Rightarrow> bool" where
  "CompareResult_isLessThanOrEqual r \<longleftrightarrow> r \<le> 0"

definition CompareResult_isGreaterThan :: "int \<Rightarrow> bool" where
  "CompareResult_isGreaterThan r \<longleftrightarrow> r > 0"

definition CompareResult_isNeitherLessOrGreaterThan :: "int \<Rightarrow> bool" where
  "CompareResult_isNeitherLessOrGreaterThan r \<longleftrightarrow> r = 0"

definition compareBy :: "('a \<Rightarrow> 'b) \<Rightarrow> ('b \<Rightarrow> 'b \<Rightarrow> int) \<Rightarrow> 'a \<Rightarrow> 'a \<Rightarrow> int" where
  "compareBy selector cmp = (\<lambda>a b. cmp (selector a) (selector b))"

fun tieBreakComparators :: "('a \<Rightarrow> 'a \<Rightarrow> int) list \<Rightarrow> 'a \<Rightarrow> 'a \<Rightarrow> int" where
  "tieBreakComparators [] a b = 0"
| "tieBreakComparators (c # cs) a b =
     (let result = c a b
      in if \<not> CompareResult_isNeitherLessOrGreaterThan result then result
         else tieBreakComparators cs a b)"

definition numberComparator :: "int \<Rightarrow> int \<Rightarrow> int" where
  "numberComparator a b = a - b"

definition booleanComparator :: "bool \<Rightarrow> bool \<Rightarrow> int" where
  "booleanComparator a b = numberComparator (if a then 1 else 0) (if b then 1 else 0)"

definition reverseOrder :: "('a \<Rightarrow> 'a \<Rightarrow> int) \<Rightarrow> 'a \<Rightarrow> 'a \<Rightarrow> int" where
  "reverseOrder cmp = (\<lambda>a b. - cmp a b)"

definition compareUndefinedSmallest ::
    "('a \<Rightarrow> 'a \<Rightarrow> int) \<Rightarrow> 'a option \<Rightarrow> 'a option \<Rightarrow> int" where
  "compareUndefinedSmallest cmp a b =
     (case a of
        None \<Rightarrow> (case b of None \<Rightarrow> 0 | Some _ \<Rightarrow> - 1)
      | Some x \<Rightarrow> (case b of None \<Rightarrow> 1 | Some y \<Rightarrow> cmp x y))"

subsection \<open>The combinators keep the contract\<close>

interpretation number_cmp: comparator numberComparator
  by unfold_locales (auto simp: numberComparator_def sgn_if)

interpretation boolean_cmp: comparator booleanComparator
  by unfold_locales (auto simp: booleanComparator_def numberComparator_def sgn_if)

lemma comparator_compareBy:
  assumes "comparator cmp" shows "comparator (compareBy f cmp)"
proof unfold_locales
  fix a b show "sgn (compareBy f cmp a b) = - sgn (compareBy f cmp b a)"
    unfolding compareBy_def by (rule comparator.cmp_antisym[OF assms])
next
  fix a b c assume "compareBy f cmp a b \<le> 0" "compareBy f cmp b c \<le> 0"
  then show "compareBy f cmp a c \<le> 0"
    unfolding compareBy_def by (rule comparator.cmp_trans[OF assms])
qed

lemma comparator_reverseOrder:
  assumes "comparator cmp" shows "comparator (reverseOrder cmp)"
proof unfold_locales
  fix a b show "sgn (reverseOrder cmp a b) = - sgn (reverseOrder cmp b a)"
    using comparator.cmp_antisym[OF assms, of a b] by (simp add: reverseOrder_def)
next
  fix a b c assume "reverseOrder cmp a b \<le> 0" "reverseOrder cmp b c \<le> 0"
  then have "cmp b a \<le> 0" "cmp c b \<le> 0"
    using comparator.cmp_pos_iff[OF assms] by (auto simp: reverseOrder_def not_less[symmetric])
  then have "cmp c a \<le> 0" by (metis comparator.cmp_trans[OF assms])
  then show "reverseOrder cmp a c \<le> 0"
    using comparator.cmp_pos_iff[OF assms, of c a] by (simp add: reverseOrder_def)
qed

lemma comparator_tieBreak_step:
  assumes "comparator c" and "comparator d"
  shows "comparator (\<lambda>a b. if c a b \<noteq> 0 then c a b else d a b)"
proof unfold_locales
  fix a b
  show "sgn (if c a b \<noteq> 0 then c a b else d a b) = - sgn (if c b a \<noteq> 0 then c b a else d b a)"
    using comparator.cmp_antisym[OF assms(1), of a b] comparator.cmp_antisym[OF assms(2), of a b]
    by (auto simp: sgn_if split: if_splits)
next
  fix x y z
  assume xy: "(if c x y \<noteq> 0 then c x y else d x y) \<le> 0"
    and yz: "(if c y z \<noteq> 0 then c y z else d y z) \<le> 0"
  then have le: "c x y \<le> 0" "c y z \<le> 0" by (auto split: if_splits)
  show "(if c x z \<noteq> 0 then c x z else d x z) \<le> 0"
  proof (cases "c x y < 0 \<or> c y z < 0")
    case True
    then have "c x z < 0"
      using le comparator.cmp_trans_less[OF assms(1)] comparator.cmp_trans_le_less[OF assms(1)]
      by blast
    then show ?thesis by simp
  next
    case False
    then have "d x y \<le> 0" "d y z \<le> 0" using le xy yz by auto
    then have "d x z \<le> 0" by (rule comparator.cmp_trans[OF assms(2)])
    with comparator.cmp_trans[OF assms(1) le] show ?thesis by auto
  qed
qed

lemma comparator_const_zero: "comparator (\<lambda>a b. 0)"
  by unfold_locales auto

lemma comparator_tieBreakComparators:
  "\<forall>c \<in> set cs. comparator c \<Longrightarrow> comparator (tieBreakComparators cs)"
proof (induction cs)
  case Nil
  have "tieBreakComparators [] = (\<lambda>a b. 0)" by (intro ext) simp
  then show ?case by (simp add: comparator_const_zero)
next
  case (Cons c cs)
  have "tieBreakComparators (c # cs) = (\<lambda>a b. if c a b \<noteq> 0 then c a b else tieBreakComparators cs a b)"
    by (intro ext) (simp add: CompareResult_isNeitherLessOrGreaterThan_def)
  moreover have "comparator (\<lambda>a b. if c a b \<noteq> 0 then c a b else tieBreakComparators cs a b)"
    using Cons by (intro comparator_tieBreak_step) auto
  ultimately show ?case by (simp only:)
qed

lemma comparator_compareUndefinedSmallest:
  assumes "comparator cmp" shows "comparator (compareUndefinedSmallest cmp)"
proof unfold_locales
  fix a b
  show "sgn (compareUndefinedSmallest cmp a b) = - sgn (compareUndefinedSmallest cmp b a)"
    using comparator.cmp_antisym[OF assms, of "the a" "the b"]
    by (auto simp: compareUndefinedSmallest_def split: option.splits)
next
  fix a b c
  assume "compareUndefinedSmallest cmp a b \<le> 0" "compareUndefinedSmallest cmp b c \<le> 0"
  then show "compareUndefinedSmallest cmp a c \<le> 0"
    using comparator.cmp_trans[OF assms, of "the a" "the b" "the c"]
    by (auto simp: compareUndefinedSmallest_def split: option.splits)
qed

text \<open>
  Every way the library builds a comparator from comparators that obey the contract
  (selecting a key, breaking ties with a list of comparators, reversing, treating \<open>undefined\<close>
  as the smallest value) yields a comparator that obeys the contract again, and a tie-breaking
  comparator orders two items by the first component that distinguishes them.
\<close>

theorem comparator_combinators_lawful:
  assumes "comparator cmp" and "\<forall>c \<in> set cs. comparator c"
  shows "comparator (compareBy selector cmp)" and "comparator (reverseOrder cmp)"
    and "comparator (tieBreakComparators cs)" and "comparator (compareUndefinedSmallest cmp)"
    and "tieBreakComparators cs a b =
           (case find (\<lambda>c. c a b \<noteq> 0) cs of None \<Rightarrow> 0 | Some c \<Rightarrow> c a b)"
proof -
  show "tieBreakComparators cs a b =
      (case find (\<lambda>c. c a b \<noteq> 0) cs of None \<Rightarrow> 0 | Some c \<Rightarrow> c a b)"
    by (induction cs) (auto simp: CompareResult_isNeitherLessOrGreaterThan_def)
qed (use assms comparator_compareBy comparator_reverseOrder comparator_tieBreakComparators
      comparator_compareUndefinedSmallest in auto)

theorem comparator_combinators_lawful_witness:
  "comparator (tieBreakComparators [compareBy fst numberComparator, compareBy snd numberComparator]) \<and>
   tieBreakComparators [compareBy fst numberComparator, compareBy snd numberComparator]
     (1::int, 5::int) (1, 3) = 2"
proof -
  have c: "comparator numberComparator" by unfold_locales
  have cs: "\<forall>c \<in> set [compareBy fst numberComparator, compareBy snd numberComparator :: int \<times> int \<Rightarrow> _].
      comparator c"
    using c by (simp add: comparator_compareBy)
  show ?thesis
    using comparator_combinators_lawful(3)[OF c cs] comparator_combinators_lawful(5)[OF c cs, of "(1, 5)" "(1, 3)"]
    by (simp add: compareBy_def numberComparator_def)
qed

end
