(* ===== verification/ArraysFind.thy ===== *)
theory ArraysFind
  imports Comparators
begin

text \<open>
  \<^verbatim>\<open>src/vs/base/common/arraysFind.ts\<close>: linear and binary searches over arrays.
  An array is a list; an index is an \<open>int\<close>; a predicate is applied to \<open>array[k]\<close>, which is
  \<open>None\<close> (\<open>undefined\<close>) for an index outside the array. Optional parameters with a default
  are passed explicitly by the callers.
\<close>

subsection \<open>Linear searches\<close>

function findLastIdx_loop :: "'a list \<Rightarrow> ('a option \<Rightarrow> int \<Rightarrow> bool) \<Rightarrow> int \<Rightarrow> int" where
  "findLastIdx_loop arr p i =
     (if i < 0 then - 1
      else if p (js_at arr i) i then i
      else findLastIdx_loop arr p (i - 1))"
  by pat_completeness auto
termination
  by (relation "measure (\<lambda>(arr, p, i). nat (i + 1))") auto

declare findLastIdx_loop.simps [simp del]

definition findLastIdx :: "'a list \<Rightarrow> ('a option \<Rightarrow> int \<Rightarrow> bool) \<Rightarrow> int \<Rightarrow> int" where
  "findLastIdx arr p fromIndex = findLastIdx_loop arr p fromIndex"

definition findLast :: "'a list \<Rightarrow> ('a option \<Rightarrow> int \<Rightarrow> bool) \<Rightarrow> int \<Rightarrow> 'a option" where
  "findLast arr p fromIndex =
     (let idx = findLastIdx arr p fromIndex
      in if idx = - 1 then None else js_at arr idx)"

function findFirstIdx :: "'a list \<Rightarrow> ('a option \<Rightarrow> int \<Rightarrow> bool) \<Rightarrow> int \<Rightarrow> int" where
  "findFirstIdx arr p i =
     (if i < int (length arr)
      then (if p (js_at arr i) i then i else findFirstIdx arr p (i + 1))
      else - 1)"
  by pat_completeness auto
termination
  by (relation "measure (\<lambda>(arr, p, i). nat (int (length arr) - i))") auto

declare findFirstIdx.simps [simp del]

definition findFirst :: "'a list \<Rightarrow> ('a option \<Rightarrow> int \<Rightarrow> bool) \<Rightarrow> int \<Rightarrow> 'a option" where
  "findFirst arr p fromIndex =
     (let idx = findFirstIdx arr p fromIndex
      in if idx = - 1 then None else js_at arr idx)"

fun mapFindFirst :: "'a list \<Rightarrow> ('a \<Rightarrow> 'b option) \<Rightarrow> 'b option" where
  "mapFindFirst [] f = None"
| "mapFindFirst (v # vs) f = (case f v of Some m \<Rightarrow> Some m | None \<Rightarrow> mapFindFirst vs f)"

subsection \<open>Binary searches\<close>

text \<open>The \<open>while (i < j)\<close> loop of \<open>findLastIdxMonotonous\<close>; it leaves the final \<open>i\<close>.\<close>

function findLastIdxMonotonous_loop :: "'a list \<Rightarrow> ('a option \<Rightarrow> bool) \<Rightarrow> int \<Rightarrow> int \<Rightarrow> int" where
  "findLastIdxMonotonous_loop arr p i j =
     (if i < j
      then (let k = (i + j) div 2
            in if p (js_at arr k) then findLastIdxMonotonous_loop arr p (k + 1) j
               else findLastIdxMonotonous_loop arr p i k)
      else i)"
  by pat_completeness auto
termination
  by (relation "measure (\<lambda>(arr, p, i, j). nat (j - i))") auto

declare findLastIdxMonotonous_loop.simps [simp del]

definition findLastIdxMonotonous :: "'a list \<Rightarrow> ('a option \<Rightarrow> bool) \<Rightarrow> int \<Rightarrow> int \<Rightarrow> int" where
  "findLastIdxMonotonous arr p startIdx endIdxEx =
     findLastIdxMonotonous_loop arr p startIdx endIdxEx - 1"

definition findLastMonotonous :: "'a list \<Rightarrow> ('a option \<Rightarrow> bool) \<Rightarrow> 'a option" where
  "findLastMonotonous arr p =
     (let idx = findLastIdxMonotonous arr p 0 (int (length arr))
      in if idx = - 1 then None else js_at arr idx)"

function findFirstIdxMonotonousOrArrLen :: "'a list \<Rightarrow> ('a option \<Rightarrow> bool) \<Rightarrow> int \<Rightarrow> int \<Rightarrow> int" where
  "findFirstIdxMonotonousOrArrLen arr p i j =
     (if i < j
      then (let k = (i + j) div 2
            in if p (js_at arr k) then findFirstIdxMonotonousOrArrLen arr p i k
               else findFirstIdxMonotonousOrArrLen arr p (k + 1) j)
      else i)"
  by pat_completeness auto
termination
  by (relation "measure (\<lambda>(arr, p, i, j). nat (j - i))") auto

declare findFirstIdxMonotonousOrArrLen.simps [simp del]

definition findFirstMonotonous :: "'a list \<Rightarrow> ('a option \<Rightarrow> bool) \<Rightarrow> 'a option" where
  "findFirstMonotonous arr p =
     (let idx = findFirstIdxMonotonousOrArrLen arr p 0 (int (length arr))
      in if idx = int (length arr) then None else js_at arr idx)"

definition findFirstIdxMonotonous :: "'a list \<Rightarrow> ('a option \<Rightarrow> bool) \<Rightarrow> int \<Rightarrow> int \<Rightarrow> int" where
  "findFirstIdxMonotonous arr p startIdx endIdxEx =
     (let idx = findFirstIdxMonotonousOrArrLen arr p startIdx endIdxEx
      in if idx = int (length arr) then - 1 else idx)"

text \<open>
  \<open>MonotonousArray\<close>: the array, the index where the previous search stopped and the previous
  predicate, which is only recorded when the static flag \<open>assertInvariants\<close> is set.
\<close>

record 'a monotonous_array =
  ma_array :: "'a list"
  ma_findLastMonotonousLastIdx :: int
  ma_prevFindLastPredicate :: "('a option \<Rightarrow> bool) option"

definition MonotonousArray_new :: "'a list \<Rightarrow> 'a monotonous_array" where
  "MonotonousArray_new arr =
     \<lparr>ma_array = arr, ma_findLastMonotonousLastIdx = 0, ma_prevFindLastPredicate = None\<rparr>"

definition MonotonousArray_findLastMonotonous ::
    "bool \<Rightarrow> ('a option \<Rightarrow> bool) \<Rightarrow> 'a monotonous_array \<Rightarrow> ('a option \<times> 'a monotonous_array) result" where
  "MonotonousArray_findLastMonotonous assertInvariants p m =
     (if assertInvariants \<and>
         (case ma_prevFindLastPredicate m of None \<Rightarrow> False
          | Some q \<Rightarrow> (\<exists>item \<in> set (ma_array m). q (Some item) \<and> \<not> p (Some item)))
      then Inl JsError
      else
        (let m1 = (if assertInvariants then m\<lparr>ma_prevFindLastPredicate := Some p\<rparr> else m);
             idx = findLastIdxMonotonous (ma_array m) p (ma_findLastMonotonousLastIdx m)
                     (int (length (ma_array m)));
             m2 = m1\<lparr>ma_findLastMonotonousLastIdx := idx + 1\<rparr>
         in Inr (if idx = - 1 then None else js_at (ma_array m) idx, m2)))"

subsection \<open>Extremal elements\<close>

fun findFirstMax :: "'a list \<Rightarrow> ('a \<Rightarrow> 'a \<Rightarrow> int) \<Rightarrow> 'a option" where
  "findFirstMax [] cmp = None"
| "findFirstMax (x # xs) cmp = Some (foldl (\<lambda>m item. if cmp item m > 0 then item else m) x xs)"

fun findLastMax :: "'a list \<Rightarrow> ('a \<Rightarrow> 'a \<Rightarrow> int) \<Rightarrow> 'a option" where
  "findLastMax [] cmp = None"
| "findLastMax (x # xs) cmp = Some (foldl (\<lambda>m item. if cmp item m \<ge> 0 then item else m) x xs)"

definition findFirstMin :: "'a list \<Rightarrow> ('a \<Rightarrow> 'a \<Rightarrow> int) \<Rightarrow> 'a option" where
  "findFirstMin arr cmp = findFirstMax arr (\<lambda>a b. - cmp a b)"

definition findMaxIdx :: "'a list \<Rightarrow> ('a \<Rightarrow> 'a \<Rightarrow> int) \<Rightarrow> int" where
  "findMaxIdx arr cmp =
     (if arr = [] then - 1
      else int (foldl (\<lambda>maxIdx i. if cmp (arr ! i) (arr ! maxIdx) > 0 then i else maxIdx)
                  0 [1..<length arr]))"

subsection \<open>What the binary searches return\<close>

text \<open>\<open>[true, .., true, false, .., false]\<close> on the index interval \<open>[i, j)\<close>.\<close>

definition monotonous :: "'a list \<Rightarrow> ('a option \<Rightarrow> bool) \<Rightarrow> int \<Rightarrow> int \<Rightarrow> bool" where
  "monotonous arr p i j \<longleftrightarrow>
     (\<forall>k l. i \<le> k \<and> k \<le> l \<and> l < j \<and> p (js_at arr l) \<longrightarrow> p (js_at arr k))"

lemma monotonous_sub: "monotonous arr p i j \<Longrightarrow> i \<le> i' \<Longrightarrow> j' \<le> j \<Longrightarrow> monotonous arr p i' j'"
  unfolding monotonous_def by (meson order_trans order_less_le_trans)

lemma findLastIdxMonotonous_loop_spec:
  assumes "monotonous arr p i j" "i \<le> j"
  shows "i \<le> findLastIdxMonotonous_loop arr p i j \<and> findLastIdxMonotonous_loop arr p i j \<le> j \<and>
         (\<forall>k. i \<le> k \<and> k < findLastIdxMonotonous_loop arr p i j \<longrightarrow> p (js_at arr k)) \<and>
         (\<forall>k. findLastIdxMonotonous_loop arr p i j \<le> k \<and> k < j \<longrightarrow> \<not> p (js_at arr k))"
  using assms
proof (induction arr p i j rule: findLastIdxMonotonous_loop.induct)
  case (1 arr p i j)
  show ?case
  proof (cases "i < j")
    case False
    then have "findLastIdxMonotonous_loop arr p i j = i"
      by (simp add: findLastIdxMonotonous_loop.simps[of arr p i j])
    with "1.prems" False show ?thesis by auto
  next
    case True
    define k where "k = (i + j) div 2"
    have k: "i \<le> k" "k < j" using True by (auto simp: k_def)
    show ?thesis
    proof (cases "p (js_at arr k)")
      case True
      have below: "\<forall>l. i \<le> l \<and> l \<le> k \<longrightarrow> p (js_at arr l)"
        using "1.prems"(1) True k by (auto simp: monotonous_def)
      have "monotonous arr p (k + 1) j" using "1.prems"(1) k by (auto elim: monotonous_sub)
      from "1.IH"(1)[OF \<open>i < j\<close> k_def True this] k below True \<open>i < j\<close> show ?thesis
        by (simp add: findLastIdxMonotonous_loop.simps[of arr p i j] Let_def flip: k_def)
           (metis linorder_not_le zless_imp_add1_zle order_trans)
    next
      case False
      have above: "\<forall>l. k \<le> l \<and> l < j \<longrightarrow> \<not> p (js_at arr l)"
        using "1.prems"(1) False k by (auto simp: monotonous_def)
      have "monotonous arr p i k" using "1.prems"(1) k by (auto elim: monotonous_sub)
      from "1.IH"(2)[OF \<open>i < j\<close> k_def False this] k above False \<open>i < j\<close> show ?thesis
        by (simp add: findLastIdxMonotonous_loop.simps[of arr p i j] Let_def flip: k_def)
           (metis linorder_not_le)
    qed
  qed
qed

lemma findFirst_loop_dual:
  "findFirstIdxMonotonousOrArrLen arr p i j = findLastIdxMonotonous_loop arr (\<lambda>x. \<not> p x) i j"
proof (induction arr p i j rule: findFirstIdxMonotonousOrArrLen.induct)
  case (1 arr p i j)
  then show ?case
    by (simp add: findFirstIdxMonotonousOrArrLen.simps[of arr p i j]
        findLastIdxMonotonous_loop.simps[of arr _ i j] Let_def)
qed

text \<open>The split point is determined by its defining property.\<close>

lemma findLastIdxMonotonous_loop_eqI:
  assumes "i \<le> r" "r \<le> j"
    and "\<And>k. i \<le> k \<Longrightarrow> k < r \<Longrightarrow> p (js_at arr k)"
    and "\<And>k. r \<le> k \<Longrightarrow> k < j \<Longrightarrow> \<not> p (js_at arr k)"
  shows "findLastIdxMonotonous_loop arr p i j = r"
proof -
  have "monotonous arr p i j"
    unfolding monotonous_def using assms(3,4) by (meson linorder_not_le order_le_less_trans)
  note spec = findLastIdxMonotonous_loop_spec[OF this order_trans[OF assms(1,2)]]
  let ?r = "findLastIdxMonotonous_loop arr p i j"
  have "\<not> ?r < r" using assms(3)[of ?r] spec assms(2) by force
  moreover have "\<not> r < ?r" using assms(4)[of r] spec assms(1) by force
  ultimately show ?thesis by simp
qed

lemma findFirstIdxMonotonousOrArrLen_eqI:
  assumes "i \<le> r" "r \<le> j"
    and "\<And>k. i \<le> k \<Longrightarrow> k < r \<Longrightarrow> \<not> p (js_at arr k)"
    and "\<And>k. r \<le> k \<Longrightarrow> k < j \<Longrightarrow> p (js_at arr k)"
  shows "findFirstIdxMonotonousOrArrLen arr p i j = r"
  unfolding findFirst_loop_dual using assms by (intro findLastIdxMonotonous_loop_eqI) auto

text \<open>
  A predicate on array elements as the predicate on \<open>array[k]\<close> that the searches take; they
  only read indices inside the array. When the array is a block of elements that satisfy it
  followed by a block that does not (or the other way round) the split point is the index
  between the blocks.
\<close>

definition on_elem :: "('a \<Rightarrow> bool) \<Rightarrow> 'a option \<Rightarrow> bool" where
  "on_elem p x = (case x of None \<Rightarrow> False | Some v \<Rightarrow> p v)"

lemma on_elem_js_at:
  "0 \<le> k \<Longrightarrow> k < int (length xs) \<Longrightarrow> on_elem p (js_at xs k) \<longleftrightarrow> p (xs ! nat k)"
  by (simp add: on_elem_def js_at_in)

lemma nth_blocks:
  assumes "0 \<le> k" "k < int (length (A @ B))"
  shows "if k < int (length A) then (A @ B) ! nat k \<in> set A else (A @ B) ! nat k \<in> set B"
  using assms by (auto simp: nth_append nat_less_iff)

lemma findLast_on_elem_blocks:
  assumes "xs = A @ B" "\<forall>a\<in>set A. p a" "\<forall>b\<in>set B. \<not> p b"
  shows "findLastIdxMonotonous xs (on_elem p) 0 (int (length xs)) = int (length A) - 1"
proof -
  have "findLastIdxMonotonous_loop xs (on_elem p) 0 (int (length xs)) = int (length A)"
  proof (rule findLastIdxMonotonous_loop_eqI)
    fix k assume k: "0 \<le> k" "k < int (length A)"
    then show "on_elem p (js_at xs k)"
      using nth_blocks[of k A B] assms by (simp add: on_elem_js_at)
  next
    fix k assume k: "int (length A) \<le> k" "k < int (length xs)"
    then show "\<not> on_elem p (js_at xs k)"
      using nth_blocks[of k A B] assms by (simp add: on_elem_js_at)
  qed (use assms(1) in auto)
  then show ?thesis by (simp add: findLastIdxMonotonous_def)
qed

lemma findFirst_on_elem_blocks:
  assumes "xs = A @ B" "\<forall>a\<in>set A. \<not> p a" "\<forall>b\<in>set B. p b"
  shows "findFirstIdxMonotonousOrArrLen xs (on_elem p) 0 (int (length xs)) = int (length A)"
proof (rule findFirstIdxMonotonousOrArrLen_eqI)
  fix k assume k: "0 \<le> k" "k < int (length A)"
  then show "\<not> on_elem p (js_at xs k)"
    using nth_blocks[of k A B] assms by (simp add: on_elem_js_at)
next
  fix k assume k: "int (length A) \<le> k" "k < int (length xs)"
  then show "on_elem p (js_at xs k)"
    using nth_blocks[of k A B] assms by (simp add: on_elem_js_at)
qed (use assms(1) in auto)

lemma findLastMonotonous_on_elem_blocks:
  assumes "xs = A @ B" "\<forall>a\<in>set A. p a" "\<forall>b\<in>set B. \<not> p b"
  shows "findLastMonotonous xs (on_elem p) = (if A = [] then None else Some (last A))"
proof -
  have "js_at xs (int (length A) - 1) = Some (last A)" if "A \<noteq> []"
    using assms(1) that by (cases A rule: rev_cases) (auto simp: js_at_def nth_append)
  then show ?thesis
    by (auto simp: findLastMonotonous_def Let_def findLast_on_elem_blocks[OF assms] simp del: One_nat_def)
qed

lemma findLastIdx_loop_eqI:
  assumes "- 1 \<le> r" "r \<le> i"
    and "0 \<le> r \<Longrightarrow> p (js_at arr r) r"
    and "\<And>k. r < k \<Longrightarrow> k \<le> i \<Longrightarrow> \<not> p (js_at arr k) k"
  shows "findLastIdx_loop arr p i = r"
  using assms
proof (induction arr p i rule: findLastIdx_loop.induct)
  case (1 arr p i)
  consider "i < 0" | "0 \<le> i" "r = i" | "0 \<le> i" "r < i" using "1.prems"(2) by linarith
  then show ?case
  proof cases
    case 1
    with "1.prems"(1,2) show ?thesis by (simp add: findLastIdx_loop.simps[of arr p i])
  next
    case 2
    with "1.prems"(3) show ?thesis by (simp add: findLastIdx_loop.simps[of arr p i])
  next
    case 3
    have nopi: "\<not> p (js_at arr i) i" using "1.prems"(4) 3 by blast
    have "findLastIdx_loop arr p (i - 1) = r"
      using "1.IH" "1.prems" 3 nopi by force
    with 3 nopi show ?thesis by (simp add: findLastIdx_loop.simps[of arr p i])
  qed
qed

text \<open>
  A binary search that starts at an index below which the predicate is known to hold returns
  what the linear search from the end returns.
\<close>

lemma binary_eq_linear:
  assumes mono: "monotonous arr p 0 (int (length arr))"
    and s: "0 \<le> s" "s \<le> int (length arr)"
    and below: "\<And>k. 0 \<le> k \<Longrightarrow> k < s \<Longrightarrow> p (js_at arr k)"
  shows "findLastIdxMonotonous arr p s (int (length arr)) =
         findLastIdx arr (\<lambda>x _. p x) (int (length arr) - 1)"
proof -
  let ?r = "findLastIdxMonotonous_loop arr p s (int (length arr))"
  have "monotonous arr p s (int (length arr))" using mono s by (auto elim: monotonous_sub)
  note spec = findLastIdxMonotonous_loop_spec[OF this s(2)]
  have "findLastIdx_loop arr (\<lambda>x _. p x) (int (length arr) - 1) = ?r - 1"
  proof (rule findLastIdx_loop_eqI)
    show "- 1 \<le> ?r - 1" "?r - 1 \<le> int (length arr) - 1" using spec s by auto
    show "p (js_at arr (?r - 1))" if "0 \<le> ?r - 1"
      using spec below[of "?r - 1"] that by (cases "?r - 1 < s") auto
    show "\<not> p (js_at arr k)" if "?r - 1 < k" "k \<le> int (length arr) - 1" for k
      using spec that by auto
  qed
  then show ?thesis by (simp add: findLastIdxMonotonous_def findLastIdx_def)
qed

subsection \<open>Properties\<close>

text \<open>
  On an interval of indices where the predicate is \<open>[true, .., true, false, .., false]\<close>,
  the binary search \<open>findLastIdxMonotonous\<close> stays in the interval and returns the last index
  that satisfies the predicate (\<open>startIdx - 1\<close> when there is none), and
  \<open>findFirstIdxMonotonousOrArrLen\<close> of the complement returns the index after it.
\<close>

theorem findLastIdxMonotonous_correct:
  assumes "monotonous arr p startIdx endIdxEx" and "startIdx \<le> endIdxEx"
  shows "let r = findLastIdxMonotonous arr p startIdx endIdxEx in
         startIdx - 1 \<le> r \<and> r < endIdxEx \<and>
         (\<forall>k. startIdx \<le> k \<and> k < endIdxEx \<longrightarrow> (p (js_at arr k) \<longleftrightarrow> k \<le> r)) \<and>
         findFirstIdxMonotonousOrArrLen arr (\<lambda>x. \<not> p x) startIdx endIdxEx = r + 1"
  using findLastIdxMonotonous_loop_spec[OF assms]
  by (auto simp: Let_def findLastIdxMonotonous_def findFirst_loop_dual) (meson linorder_not_le)

theorem findLastIdxMonotonous_correct_witness:
  "findLastIdxMonotonous [2, 4, 6, 9::int] (\<lambda>x. case x of Some v \<Rightarrow> v < 7 | None \<Rightarrow> False) 0 4 = 2"
proof -
  let ?p = "\<lambda>x. case x of Some v \<Rightarrow> v < (7::int) | None \<Rightarrow> False"
  let ?a = "[2, 4, 6, 9::int]"
  have p: "?p (js_at ?a k) \<longleftrightarrow> 0 \<le> k \<and> k \<le> 2" for k
  proof -
    consider "k < 0 \<or> 4 \<le> k" | "k = 0" | "k = 1" | "k = 2" | "k = 3" by linarith
    then show ?thesis by cases (auto simp: js_at_def)
  qed
  have "monotonous ?a ?p 0 4" unfolding monotonous_def p by auto
  from findLastIdxMonotonous_correct[OF this] have
    r: "- 1 \<le> findLastIdxMonotonous ?a ?p 0 4" "findLastIdxMonotonous ?a ?p 0 4 < 4"
    and all: "\<forall>k. 0 \<le> k \<and> k < 4 \<longrightarrow> (?p (js_at ?a k) \<longleftrightarrow> k \<le> findLastIdxMonotonous ?a ?p 0 4)"
    by (simp_all add: Let_def)
  from all[rule_format, of 2] all[rule_format, of 3] show ?thesis unfolding p by linarith
qed

text \<open>
  A sequence of queries to one \<open>MonotonousArray\<close>, stopping at the first throw.
\<close>

fun MonotonousArray_queries ::
    "bool \<Rightarrow> ('a option \<Rightarrow> bool) list \<Rightarrow> 'a monotonous_array \<Rightarrow> 'a option list result" where
  "MonotonousArray_queries asrt [] m = Inr []"
| "MonotonousArray_queries asrt (p # ps) m =
     bindR (MonotonousArray_findLastMonotonous asrt p m)
       (\<lambda>(r, m'). bindR (MonotonousArray_queries asrt ps m') (\<lambda>rs. Inr (r # rs)))"

abbreviation weaker_on :: "'a list \<Rightarrow> ('a option \<Rightarrow> bool) \<Rightarrow> ('a option \<Rightarrow> bool) \<Rightarrow> bool" where
  "weaker_on arr p q \<equiv> \<forall>x \<in> set arr. p (Some x) \<longrightarrow> q (Some x)"

lemma MonotonousArray_queries_spec:
  assumes "sorted_wrt (weaker_on arr) ps" "\<forall>p \<in> set ps. monotonous arr p 0 (int (length arr))"
    and "ma_array m = arr" "0 \<le> ma_findLastMonotonousLastIdx m"
    and "ma_findLastMonotonousLastIdx m \<le> int (length arr)"
    and "\<forall>p \<in> set ps. \<forall>k. 0 \<le> k \<and> k < ma_findLastMonotonousLastIdx m \<longrightarrow> p (js_at arr k)"
    and "\<forall>q. ma_prevFindLastPredicate m = Some q \<longrightarrow> (\<forall>p \<in> set ps. weaker_on arr q p)"
  shows "MonotonousArray_queries asrt ps m =
         Inr (map (\<lambda>p. findLast arr (\<lambda>x _. p x) (int (length arr) - 1)) ps)"
  using assms
proof (induction ps arbitrary: m)
  case (Cons p ps)
  let ?n = "int (length arr)"
  let ?idx = "findLastIdxMonotonous arr p (ma_findLastMonotonousLastIdx m) ?n"
  define m1 where "m1 = (if asrt then m\<lparr>ma_prevFindLastPredicate := Some p\<rparr> else m)"
  define m2 where "m2 = m1\<lparr>ma_findLastMonotonousLastIdx := ?idx + 1\<rparr>"
  have eq: "?idx = findLastIdx arr (\<lambda>x _. p x) (?n - 1)"
    using Cons.prems by (intro binary_eq_linear) auto
  have mono: "monotonous arr p (ma_findLastMonotonousLastIdx m) ?n"
    using Cons.prems by (auto elim: monotonous_sub)
  note spec = findLastIdxMonotonous_loop_spec[OF mono Cons.prems(5)]
  have step: "MonotonousArray_findLastMonotonous asrt p m =
      Inr (findLast arr (\<lambda>x _. p x) (?n - 1), m2)"
    using Cons.prems(3,7)
    by (auto simp: MonotonousArray_findLastMonotonous_def m1_def m2_def Let_def findLast_def eq
        split: option.splits)
  have below: "p' (js_at arr k)" if "p' \<in> set ps" "0 \<le> k" "k < ?idx + 1" for p' k
  proof -
    have "p (js_at arr k)"
      using that spec Cons.prems(6)
      by (cases "k < ma_findLastMonotonousLastIdx m") (auto simp: findLastIdxMonotonous_def)
    moreover have "k < ?n" using that spec by (simp add: findLastIdxMonotonous_def)
    ultimately show ?thesis using Cons.prems(1) that by (auto simp: js_at_in nat_less_iff)
  qed
  have "MonotonousArray_queries asrt ps m2 =
      Inr (map (\<lambda>p. findLast arr (\<lambda>x _. p x) (?n - 1)) ps)"
  proof (rule Cons.IH)
    show "0 \<le> ma_findLastMonotonousLastIdx m2" "ma_findLastMonotonousLastIdx m2 \<le> ?n"
      using spec Cons.prems(4) by (auto simp: m2_def findLastIdxMonotonous_def)
    show "\<forall>p' \<in> set ps. \<forall>k. 0 \<le> k \<and> k < ma_findLastMonotonousLastIdx m2 \<longrightarrow> p' (js_at arr k)"
      using below by (auto simp: m2_def)
    show "\<forall>q. ma_prevFindLastPredicate m2 = Some q \<longrightarrow> (\<forall>p \<in> set ps. weaker_on arr q p)"
      using Cons.prems(1,7) by (auto simp: m2_def m1_def split: if_splits)
  qed (use Cons.prems in \<open>auto simp: m2_def m1_def\<close>)
  with step show ?case by simp
qed simp

text \<open>
  \<open>MonotonousArray\<close> is an optimisation: for every sequence of monotonous predicates that get
  weaker and weaker it never throws, and every answer is the one the linear search from the end
  gives, although each search starts where the previous one stopped.
\<close>

theorem MonotonousArray_queries_eq_linear:
  assumes "sorted_wrt (weaker_on arr) ps"
    and "\<forall>p \<in> set ps. monotonous arr p 0 (int (length arr))"
  shows "MonotonousArray_queries asrt ps (MonotonousArray_new arr) =
         Inr (map (\<lambda>p. findLast arr (\<lambda>x _. p x) (int (length arr) - 1)) ps)"
  using assms by (intro MonotonousArray_queries_spec) (auto simp: MonotonousArray_new_def)

theorem MonotonousArray_queries_eq_linear_witness:
  "MonotonousArray_queries True [\<lambda>x. x = Some (1::int), \<lambda>x. x \<noteq> None] (MonotonousArray_new [1, 5]) =
   Inr [findLast [1, 5] (\<lambda>x _. x = Some 1) 1, findLast [1, 5] (\<lambda>x _. x \<noteq> None) 1]"
proof -
  have a: "sorted_wrt (weaker_on [1, 5]) [\<lambda>x. x = Some (1::int), \<lambda>x. x \<noteq> None]" by simp
  have b: "\<forall>p \<in> set [\<lambda>x. x = Some (1::int), \<lambda>x. x \<noteq> None].
      monotonous [1, 5] p 0 (int (length [1, 5::int]))"
    by (auto simp: monotonous_def js_at_def nth_Cons' split: if_splits)
  from MonotonousArray_queries_eq_linear[OF a b, of True] show ?thesis by simp
qed

subsection \<open>Extremal elements under a lawful comparator\<close>

abbreviation maxIdx_upto :: "'a list \<Rightarrow> ('a \<Rightarrow> 'a \<Rightarrow> int) \<Rightarrow> nat \<Rightarrow> nat" where
  "maxIdx_upto arr cmp k \<equiv>
     foldl (\<lambda>maxIdx i. if cmp (arr ! i) (arr ! maxIdx) > 0 then i else maxIdx) 0 [1..<k]"

context comparator
begin

lemma maxIdx_upto_spec:
  "0 < k \<Longrightarrow> maxIdx_upto arr cmp k < k \<and>
     (\<forall>i<k. cmp (arr ! i) (arr ! maxIdx_upto arr cmp k) \<le> 0) \<and>
     (\<forall>i<maxIdx_upto arr cmp k. cmp (arr ! i) (arr ! maxIdx_upto arr cmp k) < 0)"
proof (induction k)
  case (Suc k)
  show ?case
  proof (cases "k = 0")
    case True
    then show ?thesis by (simp add: cmp_refl)
  next
    case False
    let ?m = "maxIdx_upto arr cmp k"
    have IH: "?m < k" "\<And>i. i < k \<Longrightarrow> cmp (arr ! i) (arr ! ?m) \<le> 0"
      "\<And>i. i < ?m \<Longrightarrow> cmp (arr ! i) (arr ! ?m) < 0" using Suc False by auto
    have upd: "maxIdx_upto arr cmp (Suc k) = (if cmp (arr ! k) (arr ! ?m) > 0 then k else ?m)"
      using False by simp
    show ?thesis
    proof (cases "cmp (arr ! k) (arr ! ?m) > 0")
      case True
      then have "cmp (arr ! i) (arr ! k) < 0" if "i < k" for i
        using IH(2)[OF that] cmp_pos_iff cmp_trans_le_less by blast
      with True upd show ?thesis by (auto simp: less_Suc_eq cmp_refl intro: order_less_imp_le)
    next
      case False
      with IH upd show ?thesis by (auto simp: less_Suc_eq)
    qed
  qed
qed simp

end

lemma foldl_max_nth:
  "n \<le> length xs \<Longrightarrow>
   foldl (\<lambda>m item. if cmp item m > (0::int) then item else m) x (take n xs) =
   (x # xs) ! maxIdx_upto (x # xs) cmp (Suc n)"
  by (induction n) (auto simp: take_Suc_conv_app_nth)

text \<open>
  With a comparator that is antisymmetric and transitive, \<open>findFirstMax\<close> returns an element
  at least as great as every other, \<open>findMaxIdx\<close> returns its index, and every earlier element is
  strictly smaller: it is the first maximum.
\<close>

theorem findFirstMax_is_first_maximum:
  assumes "comparator cmp" and "arr \<noteq> []"
  shows "\<exists>i<length arr. findMaxIdx arr cmp = int i \<and> findFirstMax arr cmp = Some (arr ! i) \<and>
           (\<forall>x\<in>set arr. cmp x (arr ! i) \<le> 0) \<and> (\<forall>k<i. cmp (arr ! k) (arr ! i) < 0)"
proof -
  obtain x xs where arr: "arr = x # xs" using assms(2) by (cases arr) auto
  let ?i = "maxIdx_upto arr cmp (length arr)"
  have spec: "?i < length arr" "\<forall>i<length arr. cmp (arr ! i) (arr ! ?i) \<le> 0"
      "\<forall>i<?i. cmp (arr ! i) (arr ! ?i) < 0"
    using comparator.maxIdx_upto_spec[OF assms(1), of "length arr" arr] assms(2) by auto
  have "findFirstMax arr cmp = Some (arr ! ?i)"
    using foldl_max_nth[of "length xs" xs cmp x] arr by simp
  moreover have "findMaxIdx arr cmp = int ?i" using assms(2) by (simp add: findMaxIdx_def)
  ultimately show ?thesis using spec by (auto simp: in_set_conv_nth)
qed

theorem findFirstMax_is_first_maximum_witness:
  "findFirstMax [3, 8, 1, 8] numberComparator = Some 8 \<and>
   findMaxIdx [3, 8, 1, 8] numberComparator = 1"
proof -
  have c: "comparator numberComparator" by unfold_locales
  obtain i where i: "i < 4" "findMaxIdx [3, 8, 1, 8] numberComparator = int i"
    "findFirstMax [3, 8, 1, 8] numberComparator = Some ([3, 8, 1, 8] ! i)"
    "\<forall>x\<in>set [3, 8, 1, 8]. numberComparator x ([3, 8, 1, 8] ! i) \<le> 0"
    "\<forall>k<i. numberComparator ([3, 8, 1, 8] ! k) ([3, 8, 1, 8] ! i) < 0"
    using findFirstMax_is_first_maximum[OF c, of "[3, 8, 1, 8]"] by auto
  have "i \<in> {0, 1, 2, 3}" using i(1) by auto
  then have "i = 1" using i(4) i(5)[rule_format, of 1] by (auto simp: numberComparator_def)
  with i show ?thesis by simp
qed

end
