(* ===== verification/SortedArrays.thy ===== *)
theory SortedArrays
  imports ArraysFind
begin

text \<open>
  The sorting and searching half of \<^verbatim>\<open>vs/base/common/arrays.ts\<close>: \<open>binarySearch\<close>, \<open>top\<close>, \<open>groupBy\<close>,
  \<open>groupAdjacentBy\<close>, \<open>sortedDiff\<close> with \<open>delta\<close>, and \<open>Permutation\<close>, over any comparator that
  obeys the contract of the locale \<open>comparator\<close>.
\<close>

subsection \<open>Array.prototype.sort\<close>

text \<open>
  \<open>arr.sort(compare)\<close> is stable. For a lawful comparator stability fixes the result, so insertion
  sort stands for the engine's algorithm: each element goes before the first one greater than it.
\<close>

fun insert_sorted :: "('a \<Rightarrow> 'a \<Rightarrow> int) \<Rightarrow> 'a \<Rightarrow> 'a list \<Rightarrow> 'a list" where
  "insert_sorted cmp x [] = [x]"
| "insert_sorted cmp x (e # es) = (if cmp x e < 0 then x # e # es else e # insert_sorted cmp x es)"

definition js_sort :: "('a \<Rightarrow> 'a \<Rightarrow> int) \<Rightarrow> 'a list \<Rightarrow> 'a list" where
  "js_sort cmp xs = foldl (\<lambda>acc x. insert_sorted cmp x acc) [] xs"

subsection \<open>Binary search\<close>

text \<open>
  \<open>((low + high) / 2) | 0\<close> is the integer quotient: both bounds are at least 0 and the collections
  have fewer than \<open>2 ^ 31\<close> elements.
\<close>

function binarySearch2_loop :: "(int \<Rightarrow> int) \<Rightarrow> int \<Rightarrow> int \<Rightarrow> int" where
  "binarySearch2_loop compareToKey low high =
     (if low \<le> high then
        let mid = (low + high) div 2; comp = compareToKey mid
        in if comp < 0 then binarySearch2_loop compareToKey (mid + 1) high
           else if comp > 0 then binarySearch2_loop compareToKey low (mid - 1)
           else mid
      else - (low + 1))"
  by pat_completeness auto
termination
  by (relation "measure (\<lambda>(c, low, high). nat (high - low + 1))") auto

declare binarySearch2_loop.simps [simp del]

definition binarySearch2 :: "int \<Rightarrow> (int \<Rightarrow> int) \<Rightarrow> int" where
  "binarySearch2 len compareToKey = binarySearch2_loop compareToKey 0 (len - 1)"

definition binarySearch :: "'a list \<Rightarrow> 'a \<Rightarrow> ('a \<Rightarrow> 'a \<Rightarrow> int) \<Rightarrow> int" where
  "binarySearch array key cmp = binarySearch2 (int (length array)) (\<lambda>i. cmp (array ! nat i) key)"

subsection \<open>The first elements of the sorted array\<close>

definition topStep_body :: "('a \<Rightarrow> 'a \<Rightarrow> int) \<Rightarrow> 'a \<Rightarrow> 'a list \<Rightarrow> 'a list" where
  "topStep_body compare element result =
     (if compare element (last result) < 0 then
        let result = butlast result;
            j = findFirstIdxMonotonousOrArrLen result (on_elem (\<lambda>e. compare element e < 0)) 0 (int (length result))
        in js_splice result j 0 [element]
      else result)"

definition topStep :: "'a list \<Rightarrow> ('a \<Rightarrow> 'a \<Rightarrow> int) \<Rightarrow> 'a list \<Rightarrow> nat \<Rightarrow> nat \<Rightarrow> 'a list" where
  "topStep array compare result i m = foldl (\<lambda>result i. topStep_body compare (array ! i) result) result [i..<m]"

definition arrays_top :: "'a list \<Rightarrow> ('a \<Rightarrow> 'a \<Rightarrow> int) \<Rightarrow> nat \<Rightarrow> 'a list" where
  "arrays_top array compare n =
     (if n = 0 then []
      else topStep array compare (js_sort compare (take n array)) n (length array))"

subsection \<open>Groups\<close>

text \<open>The groups are kept with the one in work first and its elements in order.\<close>

fun groupBy_loop :: "('a \<Rightarrow> 'a \<Rightarrow> int) \<Rightarrow> 'a list \<Rightarrow> 'a list list \<Rightarrow> 'a list list" where
  "groupBy_loop compare [] result = rev result"
| "groupBy_loop compare (element # rest) [] = groupBy_loop compare rest [[element]]"
| "groupBy_loop compare (element # rest) (currentGroup # result) =
     (if compare (hd currentGroup) element \<noteq> 0 then groupBy_loop compare rest ([element] # currentGroup # result)
      else groupBy_loop compare rest ((currentGroup @ [element]) # result))"

definition groupBy :: "'a list \<Rightarrow> ('a \<Rightarrow> 'a \<Rightarrow> int) \<Rightarrow> 'a list list" where
  "groupBy data compare = groupBy_loop compare (js_sort compare data) []"

text \<open>
  The generator yields the groups one after the other; \<open>prev\<close> is the variable \<open>last\<close>, \<open>None\<close> is
  \<open>undefined\<close>. Items are not \<open>undefined\<close>.
\<close>

fun groupAdjacentBy_loop :: "('a \<Rightarrow> 'a \<Rightarrow> bool) \<Rightarrow> 'a list \<Rightarrow> 'a list option \<Rightarrow> 'a option \<Rightarrow> 'a list list" where
  "groupAdjacentBy_loop shouldBeGrouped [] currentGroup prev =
     (case currentGroup of Some g \<Rightarrow> [g] | None \<Rightarrow> [])"
| "groupAdjacentBy_loop shouldBeGrouped (item # items) currentGroup prev =
     (case (prev, currentGroup) of
        (Some l, Some g) \<Rightarrow>
          (if shouldBeGrouped l item then groupAdjacentBy_loop shouldBeGrouped items (Some (g @ [item])) (Some item)
           else g # groupAdjacentBy_loop shouldBeGrouped items (Some [item]) (Some item))
      | (_, Some g) \<Rightarrow> g # groupAdjacentBy_loop shouldBeGrouped items (Some [item]) (Some item)
      | (_, None) \<Rightarrow> groupAdjacentBy_loop shouldBeGrouped items (Some [item]) (Some item))"

definition groupAdjacentBy :: "'a list \<Rightarrow> ('a \<Rightarrow> 'a \<Rightarrow> bool) \<Rightarrow> 'a list list" where
  "groupAdjacentBy items shouldBeGrouped = groupAdjacentBy_loop shouldBeGrouped items None None"

subsection \<open>Differences of sorted arrays\<close>

record 'a array_splice =
  sp_start :: int
  sp_deleteCount :: int
  sp_toInsert :: "'a list"

text \<open>The splice pushed last is the head of \<open>result\<close>.\<close>

fun pushSplice :: "'a array_splice list \<Rightarrow> int \<Rightarrow> int \<Rightarrow> 'a list \<Rightarrow> 'a array_splice list" where
  "pushSplice result start deleteCount toInsert =
     (if deleteCount = 0 \<and> toInsert = [] then result
      else (case result of
              latest # rest \<Rightarrow>
                (if sp_start latest + sp_deleteCount latest = start
                 then latest\<lparr>sp_deleteCount := sp_deleteCount latest + deleteCount,
                             sp_toInsert := sp_toInsert latest @ toInsert\<rparr> # rest
                 else \<lparr>sp_start = start, sp_deleteCount = deleteCount, sp_toInsert = toInsert\<rparr> # result)
            | [] \<Rightarrow> [\<lparr>sp_start = start, sp_deleteCount = deleteCount, sp_toInsert = toInsert\<rparr>]))"

declare pushSplice.simps [simp del]

text \<open>The loop on the elements from \<open>beforeIdx\<close> and \<open>afterIdx\<close> on.\<close>

fun sortedDiff_loop :: "('a \<Rightarrow> 'a \<Rightarrow> int) \<Rightarrow> int \<Rightarrow> 'a list \<Rightarrow> 'a list \<Rightarrow> 'a array_splice list \<Rightarrow> 'a array_splice list" where
  "sortedDiff_loop compare beforeIdx [] as result = pushSplice result beforeIdx 0 as"
| "sortedDiff_loop compare beforeIdx (b # bs) [] result = pushSplice result beforeIdx (int (length (b # bs))) []"
| "sortedDiff_loop compare beforeIdx (b # bs) (a # as) result =
     (let n = compare b a
      in if n = 0 then sortedDiff_loop compare (beforeIdx + 1) bs as result
         else if n < 0 then sortedDiff_loop compare (beforeIdx + 1) bs (a # as) (pushSplice result beforeIdx 1 [])
         else sortedDiff_loop compare beforeIdx (b # bs) as (pushSplice result beforeIdx 0 [a]))"

definition sortedDiff :: "'a list \<Rightarrow> 'a list \<Rightarrow> ('a \<Rightarrow> 'a \<Rightarrow> int) \<Rightarrow> 'a array_splice list" where
  "sortedDiff before after compare = rev (sortedDiff_loop compare 0 before after [])"

definition arrays_delta :: "'a list \<Rightarrow> 'a list \<Rightarrow> ('a \<Rightarrow> 'a \<Rightarrow> int) \<Rightarrow> 'a list \<times> 'a list" where
  "arrays_delta before after compare =
     (let splices = sortedDiff before after compare
      in (concat (map (\<lambda>s. js_slice before (sp_start s) (sp_start s + sp_deleteCount s)) splices),
          concat (map sp_toInsert splices)))"

subsection \<open>Permutations\<close>

record permutation =
  perm_indexMap :: "nat list"

definition createSortPermutation :: "'a list \<Rightarrow> ('a \<Rightarrow> 'a \<Rightarrow> int) \<Rightarrow> permutation" where
  "createSortPermutation arr compareFn =
     \<lparr>perm_indexMap = js_sort (\<lambda>index1 index2. compareFn (arr ! index1) (arr ! index2)) [0..<length arr]\<rparr>"

text \<open>\<open>None\<close> is the \<open>undefined\<close> of an index out of range.\<close>

definition Permutation_apply :: "permutation \<Rightarrow> 'a list \<Rightarrow> 'a option list" where
  "Permutation_apply p arr =
     map (\<lambda>index. case js_at (perm_indexMap p) (int index) of None \<Rightarrow> None | Some k \<Rightarrow> js_at arr (int k)) [0..<length arr]"

text \<open>The stores of \<open>inverse\<close> are in range: the index map is a permutation of the indices.\<close>

definition Permutation_inverse :: "permutation \<Rightarrow> permutation" where
  "Permutation_inverse p =
     \<lparr>perm_indexMap = foldl (\<lambda>inverseIndexMap i. inverseIndexMap[perm_indexMap p ! i := i])
        (perm_indexMap p) [0..<length (perm_indexMap p)]\<rparr>"

section \<open>Sorting\<close>

lemma set_insert_sorted [simp]: "set (insert_sorted cmp x xs) = insert x (set xs)"
  by (induction xs) auto

lemma length_insert_sorted [simp]: "length (insert_sorted cmp x xs) = Suc (length xs)"
  by (induction xs) auto

lemma insert_sorted_map:
  "insert_sorted cmp (f x) (map f xs) = map f (insert_sorted (\<lambda>a b. cmp (f a) (f b)) x xs)"
  by (induction xs) auto

lemma insert_sorted_snoc: "cmp x l < 0 \<Longrightarrow> insert_sorted cmp x (xs @ [l]) = insert_sorted cmp x xs @ [l]"
  by (induction xs) auto

lemma insert_sorted_end: "\<forall>e \<in> set xs. \<not> cmp x e < 0 \<Longrightarrow> insert_sorted cmp x xs = xs @ [x]"
  by (induction xs) auto

lemma insert_sorted_split:
  "insert_sorted cmp x xs = takeWhile (\<lambda>e. \<not> cmp x e < 0) xs @ x # dropWhile (\<lambda>e. \<not> cmp x e < 0) xs"
  by (induction xs) auto

lemma take_insert_sorted:
  "n \<le> length xs \<Longrightarrow> take n (insert_sorted cmp x xs) = take n (insert_sorted cmp x (take n xs))"
proof (induction xs arbitrary: n)
  case (Cons e es)
  then show ?case by (cases n) (auto simp: take_Cons split: nat.splits)
qed auto

lemma js_sort_snoc: "js_sort cmp (xs @ [x]) = insert_sorted cmp x (js_sort cmp xs)"
  by (simp add: js_sort_def)

lemma js_sort_Nil [simp]: "js_sort cmp [] = []"
  by (simp add: js_sort_def)

lemma length_js_sort [simp]: "length (js_sort cmp xs) = length xs"
  by (induction xs rule: rev_induct) (auto simp: js_sort_snoc)

lemma set_js_sort [simp]: "set (js_sort cmp xs) = set xs"
  by (induction xs rule: rev_induct) (auto simp: js_sort_snoc)

lemma js_sort_map: "js_sort cmp (map f xs) = map f (js_sort (\<lambda>a b. cmp (f a) (f b)) xs)"
  by (induction xs rule: rev_induct) (auto simp: js_sort_snoc insert_sorted_map)

lemma distinct_js_sort [simp]: "distinct (js_sort cmp xs) = distinct xs"
  by (metis card_distinct distinct_card length_js_sort set_js_sort)

abbreviation sorted_by :: "('a \<Rightarrow> 'a \<Rightarrow> int) \<Rightarrow> 'a list \<Rightarrow> bool" where
  "sorted_by cmp xs \<equiv> sorted_wrt (\<lambda>a b. cmp a b \<le> 0) xs"

context comparator
begin

lemma sorted_insert: "sorted_by cmp xs \<Longrightarrow> sorted_by cmp (insert_sorted cmp x xs)"
proof (induction xs)
  case (Cons e es)
  show ?case
  proof (cases "cmp x e < 0")
    case True
    then show ?thesis using Cons.prems cmp_trans[of x e] by auto
  next
    case False
    then have "cmp e x \<le> 0" using cmp_neg_iff[of x e] by linarith
    then show ?thesis using False Cons by auto
  qed
qed auto

lemma sorted_js_sort: "sorted_by cmp (js_sort cmp xs)"
  by (induction xs rule: rev_induct) (auto simp: js_sort_snoc sorted_insert)

lemma split_point:
  assumes "sorted_by cmp xs"
  shows "\<forall>e \<in> set (dropWhile (\<lambda>e. \<not> cmp x e < 0) xs). cmp x e < 0"
proof (cases "dropWhile (\<lambda>e. \<not> cmp x e < 0) xs")
  case (Cons d ds)
  have "cmp x d < 0" using Cons by (metis dropWhile_eq_Cons_conv)
  moreover have "sorted_by cmp (d # ds)"
    unfolding Cons[symmetric] dropWhile_eq_drop by (rule sorted_wrt_drop[OF assms])
  ultimately show ?thesis using cmp_trans_less[of x d] by (auto simp: Cons)
qed (simp only: list.set ball_empty)

lemma topStep_body_eq:
  assumes "sorted_by cmp r" "r \<noteq> []"
  shows "topStep_body cmp x r = take (length r) (insert_sorted cmp x r)"
proof (cases "cmp x (last r) < 0")
  case True
  have so: "sorted_by cmp (butlast r)" using assms(1) by (simp add: butlast_conv_take sorted_wrt_take)
  let ?B = "butlast r" and ?p = "\<lambda>e. cmp x e < 0"
  let ?A = "takeWhile (\<lambda>e. \<not> ?p e) ?B" and ?D = "dropWhile (\<lambda>e. \<not> ?p e) ?B"
  have AD: "?B = ?A @ ?D" by (rule takeWhile_dropWhile_id[symmetric])
  have "findFirstIdxMonotonousOrArrLen ?B (on_elem ?p) 0 (int (length ?B)) = int (length ?A)"
    by (rule findFirst_on_elem_blocks[OF AD _ split_point[OF so]]) (blast dest: set_takeWhileD)
  moreover have "js_splice ?B (int (length ?A)) 0 [x] = ?A @ x # ?D"
    by (simp add: js_splice_def takeWhile_eq_take[symmetric] dropWhile_eq_drop[symmetric])
  ultimately have "topStep_body cmp x r = insert_sorted cmp x ?B"
    using True by (simp only: topStep_body_def Let_def insert_sorted_split[of cmp x ?B] if_True)
  moreover have "insert_sorted cmp x r = insert_sorted cmp x ?B @ [last r]"
    using insert_sorted_snoc[of cmp x "last r" ?B] True assms(2) by simp
  ultimately show ?thesis using assms(2) by simp
next
  case False
  have "cmp e x \<le> 0" if "e \<in> set r" for e
  proof -
    have "cmp (last r) x \<le> 0" using False cmp_neg_iff[of x "last r"] by linarith
    moreover have "cmp e (last r) \<le> 0"
      using that assms cmp_refl by (cases r rule: rev_cases) (auto simp: sorted_wrt_append)
    ultimately show ?thesis using cmp_trans by blast
  qed
  then have "\<forall>e \<in> set r. \<not> cmp x e < 0" using cmp_neg_iff[of x] by (auto simp: not_less)
  then show ?thesis using False by (simp add: topStep_body_def insert_sorted_end)
qed

lemma topStep_eq:
  assumes "n \<le> k" "0 < n" "k \<le> length array"
  shows "topStep array cmp (js_sort cmp (take n array)) n k = take n (js_sort cmp (take k array))"
  using assms
proof (induction k rule: dec_induct)
  case base
  then show ?case by (simp add: topStep_def)
next
  case (step k)
  let ?S = "js_sort cmp (take k array)"
  have IH: "topStep array cmp (js_sort cmp (take n array)) n k = take n ?S" using step by simp
  have top: "topStep array cmp (js_sort cmp (take n array)) n (Suc k) = topStep_body cmp (array ! k) (take n ?S)"
    using step(1) IH by (simp add: topStep_def)
  have len: "length (take n ?S) = n" using step by simp
  then have ne: "take n ?S \<noteq> []" using step.prems(1) by (metis list.size(3) less_irrefl)
  have "topStep_body cmp (array ! k) (take n ?S) = take n (insert_sorted cmp (array ! k) (take n ?S))"
    using topStep_body_eq[OF sorted_wrt_take[OF sorted_js_sort] ne, of "array ! k"] unfolding len .
  also have "\<dots> = take n (js_sort cmp (take (Suc k) array))"
    using step take_insert_sorted[of n ?S cmp "array ! k"]
    by (simp add: take_Suc_conv_app_nth js_sort_snoc)
  finally show ?case using top by simp
qed

end

text \<open>
  \<open>top(array, compare, n)\<close>, which looks at each element once and keeps only \<open>n\<close> of them, returns
  the first \<open>n\<close> elements of the array sorted with a stable sort.
\<close>

theorem top_eq_sorted_prefix:
  assumes "comparator cmp"
  shows "arrays_top array cmp n = take n (js_sort cmp array)"
proof (cases "n = 0 \<or> length array \<le> n")
  case True
  then show ?thesis by (auto simp: arrays_top_def topStep_def)
next
  case False
  then show ?thesis using comparator.topStep_eq[OF assms, of n "length array" array] by (simp add: arrays_top_def)
qed

theorem top_eq_sorted_prefix_witness:
  "arrays_top [5, 2, 8, 1, 2 :: int] numberComparator 3 = [1, 2, 2]"
  using top_eq_sorted_prefix[OF number_cmp.comparator_axioms, of "[5, 2, 8, 1, 2]" 3]
  by (simp add: js_sort_def numberComparator_def)

section \<open>Binary search\<close>

text \<open>
  The collection is sorted: elements below the key come first, then the ones equal to it, then
  the greater ones.
\<close>

definition key_ordered :: "int \<Rightarrow> (int \<Rightarrow> int) \<Rightarrow> bool" where
  "key_ordered len c = (\<forall>i j. 0 \<le> i \<and> i \<le> j \<and> j < len \<longrightarrow> sgn (c i) \<le> sgn (c j))"

text \<open>What the documentation promises of the result.\<close>

definition search_result :: "int \<Rightarrow> (int \<Rightarrow> int) \<Rightarrow> int \<Rightarrow> bool" where
  "search_result len c r =
     (if 0 \<le> r then r < len \<and> c r = 0
      else (\<exists>n. r = - (n + 1) \<and> 0 \<le> n \<and> n \<le> len \<and>
             (\<forall>i. 0 \<le> i \<and> i < n \<longrightarrow> c i < 0) \<and> (\<forall>i. n \<le> i \<and> i < len \<longrightarrow> 0 < c i)))"

lemma binarySearch2_loop_correct:
  assumes "key_ordered len c" "0 \<le> low" "low \<le> high + 1" "high < len"
    and "\<forall>i. 0 \<le> i \<and> i < low \<longrightarrow> c i < 0" "\<forall>i. high < i \<and> i < len \<longrightarrow> 0 < c i"
  shows "search_result len c (binarySearch2_loop c low high)"
  using assms
proof (induction c low high rule: binarySearch2_loop.induct)
  case (1 c low high)
  show ?case
  proof (cases "low \<le> high")
    case False
    then have "low = high + 1" using "1.prems"(3) by simp
    then show ?thesis using "1.prems" False
      by (subst binarySearch2_loop.simps) (auto simp: search_result_def intro!: exI[of _ low])
  next
    case le: True
    let ?m = "(low + high) div 2"
    have m: "0 \<le> ?m" "?m \<le> high" "low \<le> ?m" "?m < len" using le "1.prems"(2,4) by auto
    consider (lt) "c ?m < 0" | (gt) "0 < c ?m" | (eq) "c ?m = 0" by linarith
    then show ?thesis
    proof cases
      case lt
      have "\<forall>i. 0 \<le> i \<and> i < ?m + 1 \<longrightarrow> c i < 0"
      proof (intro allI impI)
        fix i assume "0 \<le> i \<and> i < ?m + 1"
        then have "sgn (c i) \<le> sgn (c ?m)" using "1.prems"(1) m by (simp add: key_ordered_def)
        then show "c i < 0" using lt by (auto simp: sgn_if split: if_splits)
      qed
      then show ?thesis
        using "1.IH"(1)[OF le refl refl lt "1.prems"(1)] "1.prems"(4,6) m le lt
        by (subst binarySearch2_loop.simps) (simp add: Let_def)
    next
      case gt
      have "\<forall>i. ?m - 1 < i \<and> i < len \<longrightarrow> 0 < c i"
      proof (intro allI impI)
        fix i assume "?m - 1 < i \<and> i < len"
        then have "sgn (c ?m) \<le> sgn (c i)" using "1.prems"(1) m by (simp add: key_ordered_def)
        then show "0 < c i" using gt by (auto simp: sgn_if split: if_splits)
      qed
      moreover have "binarySearch2_loop c low high = binarySearch2_loop c low (?m - 1)"
        using le gt by (subst binarySearch2_loop.simps) (simp add: Let_def)
      ultimately show ?thesis
        using "1.IH"(2)[OF le refl refl _ gt "1.prems"(1,2)] gt "1.prems"(5) m by simp
    next
      case eq
      then show ?thesis using le m by (subst binarySearch2_loop.simps) (simp add: Let_def search_result_def)
    qed
  qed
qed

text \<open>
  \<open>binarySearch\<close> in a sorted array returns the index of an element equal to the key, or
  \<open>-(n + 1)\<close> where all elements before index \<open>n\<close> are less than the key and all others greater.
\<close>

theorem binarySearch_correct:
  assumes "comparator cmp" "sorted_by cmp array"
  shows "search_result (int (length array)) (\<lambda>i. cmp (array ! nat i) key) (binarySearch array key cmp)"
proof -
  let ?c = "\<lambda>i. cmp (array ! nat i) key"
  have "key_ordered (int (length array)) ?c"
    unfolding key_ordered_def
  proof (intro allI impI)
    fix i j :: int assume ij: "0 \<le> i \<and> i \<le> j \<and> j < int (length array)"
    have "cmp (array ! nat i) (array ! nat j) \<le> 0"
    proof (cases "i = j")
      case False
      then have "nat i < nat j" "nat j < length array" using ij by auto
      then show ?thesis using assms(2) by (simp add: sorted_wrt_iff_nth_less)
    qed (simp add: comparator.cmp_refl[OF assms(1)])
    then have "?c j \<le> 0 \<longrightarrow> ?c i \<le> 0" "?c j < 0 \<longrightarrow> ?c i < 0"
      using comparator.cmp_trans[OF assms(1), of "array ! nat i" "array ! nat j" key]
        comparator.cmp_trans_le_less[OF assms(1), of "array ! nat i" "array ! nat j" key]
      by auto
    then show "sgn (?c i) \<le> sgn (?c j)" by (auto simp: sgn_if)
  qed
  then show ?thesis
    unfolding binarySearch_def binarySearch2_def by (rule binarySearch2_loop_correct) auto
qed

theorem binarySearch_correct_witness:
  "search_result 4 (\<lambda>i. numberComparator ([1, 4, 6, 9] ! nat i) 5) (binarySearch [1, 4, 6, 9] 5 numberComparator)"
  using binarySearch_correct[OF number_cmp.comparator_axioms, of "[1, 4, 6, 9]" 5] by (simp add: numberComparator_def)

section \<open>Groups\<close>

lemma groupBy_loop_concat: "concat (groupBy_loop cmp xs gs) = concat (rev gs) @ xs"
  by (induction cmp xs gs rule: groupBy_loop.induct) auto

text \<open>Groups of equal elements, in the reverse order.\<close>

definition good_groups :: "('a \<Rightarrow> 'a \<Rightarrow> int) \<Rightarrow> 'a list list \<Rightarrow> bool" where
  "good_groups cmp gs \<longleftrightarrow>
     (\<forall>g \<in> set gs. g \<noteq> [] \<and> (\<forall>x \<in> set g. cmp (hd g) x = 0)) \<and> sorted_wrt (\<lambda>g h. cmp (hd h) (hd g) < 0) gs"

lemma groupBy_loop_good:
  assumes "comparator cmp" "good_groups cmp gs" "sorted_by cmp xs" "\<forall>g \<in> set gs. \<forall>x \<in> set xs. cmp (hd g) x \<le> 0"
  shows "good_groups cmp (rev (groupBy_loop cmp xs gs))"
  using assms
proof (induction cmp xs gs rule: groupBy_loop.induct)
  case (1 cmp gs)
  then show ?case by simp
next
  case (2 cmp x xs)
  have "good_groups cmp [[x]]" using comparator.cmp_refl[OF "2.prems"(1)] by (simp add: good_groups_def)
  then show ?case using "2.IH"[OF "2.prems"(1)] "2.prems" by simp
next
  case (3 cmp x xs g gs)
  note c = "3.prems"(1)
  show ?case
  proof (cases "cmp (hd g) x = 0")
    case True
    then have "good_groups cmp ((g @ [x]) # gs)" using "3.prems"(2) by (auto simp: good_groups_def)
    moreover have "g \<noteq> []" using "3.prems"(2) by (simp add: good_groups_def)
    ultimately show ?thesis using "3.IH"(2)[OF _ c] True "3.prems" by simp
  next
    case False
    then have lt: "cmp (hd g) x < 0" using "3.prems"(4) by (simp add: less_le)
    have "good_groups cmp ([x] # g # gs)"
      using "3.prems"(2) lt comparator.cmp_refl[OF c] comparator.cmp_trans_less[OF c, of _ "hd g" x]
      by (auto simp: good_groups_def)
    then show ?thesis using "3.IH"(1)[OF False c] False "3.prems" by simp
  qed
qed

text \<open>
  \<open>groupBy\<close> returns the classes of equal elements of the array: non-empty groups, every element
  of a group equal to its first one, the groups in strictly increasing order, and their
  concatenation the stably sorted array.
\<close>

theorem groupBy_classes:
  assumes "comparator cmp"
  shows "concat (groupBy data cmp) = js_sort cmp data \<and>
    (\<forall>g \<in> set (groupBy data cmp). g \<noteq> [] \<and> (\<forall>x \<in> set g. cmp (hd g) x = 0)) \<and>
    sorted_wrt (\<lambda>g h. cmp (hd g) (hd h) < 0) (groupBy data cmp)"
proof -
  have "good_groups cmp (rev (groupBy data cmp))"
    unfolding groupBy_def using comparator.sorted_js_sort[OF assms]
    by (intro groupBy_loop_good[OF assms]) (auto simp: good_groups_def)
  then show ?thesis
    by (simp add: good_groups_def sorted_wrt_rev groupBy_def groupBy_loop_concat)
qed

theorem groupBy_classes_witness:
  "concat (groupBy [3, 1, 3, 2 :: int] numberComparator) = [1, 2, 3, 3]"
  using groupBy_classes[OF number_cmp.comparator_axioms, of "[3, 1, 3, 2]"]
  by (simp add: js_sort_def numberComparator_def)

lemma groupAdjacentBy_loop_groups:
  assumes "g \<noteq> []" "\<forall>k. Suc k < length g \<longrightarrow> p (g ! k) (g ! Suc k)"
  shows "concat (groupAdjacentBy_loop p xs (Some g) (Some (last g))) = g @ xs \<and>
    (\<forall>h \<in> set (groupAdjacentBy_loop p xs (Some g) (Some (last g))).
       h \<noteq> [] \<and> (\<forall>k. Suc k < length h \<longrightarrow> p (h ! k) (h ! Suc k))) \<and>
    hd (hd (groupAdjacentBy_loop p xs (Some g) (Some (last g)))) = hd g \<and>
    groupAdjacentBy_loop p xs (Some g) (Some (last g)) \<noteq> [] \<and>
    (\<forall>k. Suc k < length (groupAdjacentBy_loop p xs (Some g) (Some (last g))) \<longrightarrow>
       \<not> p (last (groupAdjacentBy_loop p xs (Some g) (Some (last g)) ! k))
           (hd (groupAdjacentBy_loop p xs (Some g) (Some (last g)) ! Suc k)))"
  using assms
proof (induction xs arbitrary: g)
  case Nil
  then show ?case by simp
next
  case (Cons x xs)
  show ?case
  proof (cases "p (last g) x")
    case True
    have "\<forall>k. Suc k < length (g @ [x]) \<longrightarrow> p ((g @ [x]) ! k) ((g @ [x]) ! Suc k)"
      using Cons.prems True by (auto simp: nth_append last_conv_nth less_Suc_eq)
        (metis One_nat_def diff_Suc_1 less_antisym)+
    then show ?thesis using Cons.IH[of "g @ [x]"] True Cons.prems(1) by simp
  next
    case False
    note IH = Cons.IH[of "[x]", simplified]
    let ?r = "groupAdjacentBy_loop p xs (Some [x]) (Some x)"
    have "\<not> p (last ((g # ?r) ! k)) (hd ((g # ?r) ! Suc k))" if "Suc k < length (g # ?r)" for k
      using IH False that by (cases k) (auto simp: hd_conv_nth)
    then show ?thesis using IH False Cons.prems by auto
  qed
qed

lemma groupAdjacentBy_Cons:
  "groupAdjacentBy (x # xs) p = groupAdjacentBy_loop p xs (Some [x]) (Some (last [x]))"
  by (simp add: groupAdjacentBy_def)

text \<open>
  \<open>groupAdjacentBy\<close> cuts the items into non-empty groups, in order: two neighbours are in the
  same group exactly when \<open>shouldBeGrouped\<close> says so.
\<close>

theorem groupAdjacentBy_groups:
  "concat (groupAdjacentBy items p) = items \<and>
   (\<forall>h \<in> set (groupAdjacentBy items p). h \<noteq> [] \<and> (\<forall>k. Suc k < length h \<longrightarrow> p (h ! k) (h ! Suc k))) \<and>
   (\<forall>k. Suc k < length (groupAdjacentBy items p) \<longrightarrow>
      \<not> p (last (groupAdjacentBy items p ! k)) (hd (groupAdjacentBy items p ! Suc k)))"
proof (cases items)
  case Nil
  then show ?thesis by (simp add: groupAdjacentBy_def)
next
  case (Cons x xs)
  then show ?thesis using groupAdjacentBy_loop_groups[of "[x]" p xs] unfolding Cons groupAdjacentBy_Cons by simp
qed

section \<open>Differences of sorted arrays\<close>

text \<open>Applying splices, the last one first so that the positions of the others stay valid.\<close>

definition apply_splice :: "'a array_splice \<Rightarrow> 'a list \<Rightarrow> 'a list" where
  "apply_splice s xs = js_splice xs (sp_start s) (sp_deleteCount s) (sp_toInsert s)"

definition apply_splices :: "'a array_splice list \<Rightarrow> 'a list \<Rightarrow> 'a list" where
  "apply_splices ss xs = foldr apply_splice ss xs"

text \<open>
  Splices in the order they are pushed, the latest first, all within the first \<open>k\<close> elements: no
  two touch, and none is empty.
\<close>

fun splices_ok :: "'a array_splice list \<Rightarrow> int \<Rightarrow> bool" where
  "splices_ok [] k = (0 \<le> k)"
| "splices_ok (s # ss) k =
     (0 \<le> sp_start s \<and> 0 \<le> sp_deleteCount s \<and> sp_start s + sp_deleteCount s \<le> k \<and>
      (sp_deleteCount s \<noteq> 0 \<or> sp_toInsert s \<noteq> []) \<and>
      (case ss of [] \<Rightarrow> True | t # _ \<Rightarrow> sp_start t + sp_deleteCount t < sp_start s) \<and>
      splices_ok ss (sp_start s))"

primrec apply_latest :: "'a array_splice list \<Rightarrow> 'a list \<Rightarrow> 'a list" where
  "apply_latest [] xs = xs"
| "apply_latest (s # r) xs = apply_latest r (apply_splice s xs)"

lemma apply_splices_latest: "apply_splices (rev r) xs = apply_latest r xs"
  by (induction r arbitrary: xs) (auto simp: apply_splices_def)

lemma length_take_int [simp]: "0 \<le> k \<Longrightarrow> k \<le> int (length xs) \<Longrightarrow> int (length (take (nat k) xs)) = k"
  by simp

lemma splices_ok_mono: "splices_ok r k \<Longrightarrow> k \<le> k' \<Longrightarrow> splices_ok r k'"
  by (cases r) auto

lemma splices_ok_nonneg: "splices_ok r k \<Longrightarrow> 0 \<le> k"
  by (induction r k rule: splices_ok.induct) auto

lemma apply_splice_prefix:
  assumes "0 \<le> sp_start s" "0 \<le> sp_deleteCount s" "sp_start s + sp_deleteCount s \<le> int (length xs)"
  shows "apply_splice s (xs @ ys) = apply_splice s xs @ ys"
  using assms by (simp add: apply_splice_def js_splice_def)

lemma length_apply_splice:
  "0 \<le> sp_start s \<Longrightarrow> sp_start s \<le> int (length xs) \<Longrightarrow> sp_start s \<le> int (length (apply_splice s xs))"
  unfolding apply_splice_def js_splice_def length_append of_nat_add
  by (subst length_take_int) auto

lemma apply_splice_take:
  assumes "0 \<le> sp_start s" "0 \<le> sp_deleteCount s" "sp_start s + sp_deleteCount s = k"
  shows "apply_splice s (take (nat k) B) = take (nat (sp_start s)) B @ sp_toInsert s"
proof -
  have "nat k = nat (sp_start s) + nat (sp_deleteCount s)" using assms by simp
  then show ?thesis by (simp add: apply_splice_def js_splice_def)
qed

lemma apply_latest_append:
  "splices_ok r (int (length xs)) \<Longrightarrow> apply_latest r (xs @ ys) = apply_latest r xs @ ys"
proof (induction r arbitrary: xs)
  case (Cons s r)
  have ok: "splices_ok r (sp_start s)" "0 \<le> sp_start s" "0 \<le> sp_deleteCount s"
    "sp_start s + sp_deleteCount s \<le> int (length xs)"
    using Cons.prems by auto
  have "splices_ok r (int (length (apply_splice s xs)))"
    by (rule splices_ok_mono[OF ok(1) length_apply_splice]) (use ok in linarith)+
  then show ?case using Cons.IH ok by (simp add: apply_splice_prefix)
qed simp

text \<open>What a push adds: the elements it inserts, after what the earlier splices make of the prefix.\<close>

lemma pushSplice_apply:
  assumes "splices_ok r k" "0 \<le> d" "k + d \<le> int (length B)"
  shows "splices_ok (pushSplice r k d ins) (k + d) \<and>
    apply_latest (pushSplice r k d ins) (take (nat (k + d)) B) = apply_latest r (take (nat k) B) @ ins"
proof (cases "d = 0 \<and> ins = []")
  case True
  then show ?thesis using assms by (simp add: pushSplice.simps)
next
  case new: False
  note k = splices_ok_nonneg[OF assms(1)]
  let ?s = "\<lparr>sp_start = k, sp_deleteCount = d, sp_toInsert = ins\<rparr>"
  have fresh: "apply_latest (?s # r) (take (nat (k + d)) B) = apply_latest r (take (nat k) B) @ ins"
  proof -
    have "splices_ok r (int (length (take (nat k) B)))" using assms k by (subst length_take_int) auto
    moreover have "apply_splice ?s (take (nat (k + d)) B) = take (nat k) B @ ins"
      using assms k apply_splice_take[of ?s "k + d" B] by simp
    ultimately show ?thesis by (simp add: apply_latest_append)
  qed
  show ?thesis
  proof (cases r)
    case Nil
    then show ?thesis using fresh new assms k by (simp add: pushSplice.simps)
  next
    case (Cons t r')
    show ?thesis
    proof (cases "sp_start t + sp_deleteCount t = k")
      case False
      then have "pushSplice r k d ins = ?s # r" using new by (simp add: Cons pushSplice.simps)
      then show ?thesis using fresh new assms k False by (auto simp: Cons)
    next
      case True
      let ?t = "t\<lparr>sp_deleteCount := sp_deleteCount t + d, sp_toInsert := sp_toInsert t @ ins\<rparr>"
      have eq: "pushSplice r k d ins = ?t # r'" using new True by (simp add: Cons pushSplice.simps)
      have t: "0 \<le> sp_start t" "0 \<le> sp_deleteCount t" "splices_ok r' (sp_start t)"
        using assms(1) by (auto simp: Cons)
      let ?p = "take (nat (sp_start t)) B"
      have old: "apply_splice t (take (nat k) B) = ?p @ sp_toInsert t"
        "apply_splice ?t (take (nat (k + d)) B) = (?p @ sp_toInsert t) @ ins"
        using t assms(2) True apply_splice_take[of t k B] apply_splice_take[of ?t "k + d" B] by simp_all
      have "splices_ok r' (int (length (?p @ sp_toInsert t)))"
        using t assms(2,3) True by (intro splices_ok_mono[OF t(3)]) auto
      then have "apply_latest (?t # r') (take (nat (k + d)) B) = apply_latest r (take (nat k) B) @ ins"
        by (simp add: Cons old apply_latest_append del: append_assoc)
      moreover have "splices_ok (?t # r') (k + d)"
        using assms(1,2) True unfolding Cons splices_ok.simps by (cases r') auto
      ultimately show ?thesis unfolding eq by blast
    qed
  qed
qed

lemma apply_latest_keep:
  assumes "splices_ok r k" "k < int (length B)"
  shows "apply_latest r (take (nat (k + 1)) B) = apply_latest r (take (nat k) B) @ [B ! nat k]"
proof -
  have "take (nat (k + 1)) B = take (nat k) B @ [B ! nat k]"
    using assms splices_ok_nonneg[OF assms(1)] by (simp add: nat_add_distrib take_Suc_conv_app_nth)
  moreover have "splices_ok r (int (length (take (nat k) B)))"
    using assms splices_ok_nonneg[OF assms(1)] by (subst length_take_int) auto
  ultimately show ?thesis by (simp add: apply_latest_append)
qed

text \<open>
  The loop from the elements \<open>bs\<close> of \<open>before\<close> on: what the splices make of \<open>before\<close> is what they
  make of the part already seen, followed by the rest of \<open>after\<close>, up to elements that
  compare equal.
\<close>

abbreviation alike :: "('a \<Rightarrow> 'a \<Rightarrow> int) \<Rightarrow> 'a list \<Rightarrow> 'a list \<Rightarrow> bool" where
  "alike cmp \<equiv> list_all2 (\<lambda>x y. x = y \<or> cmp x y = 0)"

lemma alike_refl: "alike cmp xs xs"
  by (simp add: list_all2_refl)

lemma sortedDiff_loop_apply:
  assumes "splices_ok r k" "k \<le> int (length B)" "drop (nat k) B = bs"
    "alike cmp (apply_latest r (take (nat k) B)) A"
  shows "splices_ok (sortedDiff_loop cmp k bs as r) (int (length B)) \<and>
    alike cmp (apply_latest (sortedDiff_loop cmp k bs as r) B) (A @ as)"
  using assms
proof (induction cmp k bs as r arbitrary: A rule: sortedDiff_loop.induct)
  case (1 cmp k as r)
  then have k: "k = int (length B)" using splices_ok_nonneg[OF "1.prems"(1)] by auto
  then show ?case
    using pushSplice_apply[OF "1.prems"(1), of 0 B as] "1.prems"(4)
    by (auto intro!: list_all2_appendI alike_refl)
next
  case (2 cmp k b bs r)
  have "length (b # bs) = length B - nat k" using "2.prems"(3) by (metis length_drop)
  then have k: "k + int (length (b # bs)) = int (length B)"
    using "2.prems"(2) splices_ok_nonneg[OF "2.prems"(1)] by linarith
  show ?case
    using pushSplice_apply[OF "2.prems"(1), of "int (length (b # bs))" B "[]"] "2.prems"(4)
    unfolding sortedDiff_loop.simps k by simp
next
  case (3 cmp k b bs a as r)
  note nn = splices_ok_nonneg[OF "3.prems"(1)]
  have "nat k < length B" using "3.prems"(3) by (metis drop_all leI list.distinct(1))
  then have k: "k + 1 \<le> int (length B)" and b: "B ! nat k = b" and rest: "drop (nat (k + 1)) B = bs"
    using nn "3.prems"(3) by (auto simp: nth_via_drop nat_add_distrib drop_Suc tl_drop[symmetric])
  consider (eq) "cmp b a = 0" | (lt) "cmp b a < 0" | (gt) "0 < cmp b a" by linarith
  then show ?case
  proof cases
    case eq
    have "alike cmp (apply_latest r (take (nat (k + 1)) B)) (A @ [a])"
      using apply_latest_keep[OF "3.prems"(1), of B] k b eq "3.prems"(4)
      by (auto intro!: list_all2_appendI)
    then show ?thesis
      using "3.IH"(1)[OF refl eq _ k rest, of "A @ [a]"] splices_ok_mono[OF "3.prems"(1), of "k + 1"] eq by simp
  next
    case lt
    have "splices_ok (pushSplice r k 1 []) (k + 1) \<and>
        apply_latest (pushSplice r k 1 []) (take (nat (k + 1)) B) = apply_latest r (take (nat k) B)"
      using pushSplice_apply[OF "3.prems"(1) _ k, of "[]"] by simp
    then show ?thesis using "3.IH"(2)[OF refl _ lt _ k rest, of A] lt "3.prems"(4) by simp
  next
    case gt
    have p: "splices_ok (pushSplice r k 0 [a]) k \<and>
        apply_latest (pushSplice r k 0 [a]) (take (nat k) B) = apply_latest r (take (nat k) B) @ [a]"
      using pushSplice_apply[OF "3.prems"(1), of 0 B "[a]"] k by simp
    then have "alike cmp (apply_latest (pushSplice r k 0 [a]) (take (nat k) B)) (A @ [a])"
      using "3.prems"(4) by (auto intro!: list_all2_appendI)
    then show ?thesis using "3.IH"(3)[OF refl _ _ _ "3.prems"(2,3), of "A @ [a]"] gt p by simp
  qed
qed

text \<open>
  The splices of \<open>sortedDiff(before, after)\<close> turn \<open>before\<close> into \<open>after\<close>, up to elements that
  compare equal. They are in order, do not touch, are not empty and lie inside \<open>before\<close>.
\<close>

theorem sortedDiff_correct:
  "alike cmp (apply_splices (sortedDiff before after cmp) before) after \<and>
   splices_ok (rev (sortedDiff before after cmp)) (int (length before))"
  using sortedDiff_loop_apply[of "[]" 0 before before cmp "[]" after]
  by (simp add: sortedDiff_def apply_splices_latest)

text \<open>The elements a list of splices deletes, and the ones it inserts.\<close>

definition deleted :: "'a list \<Rightarrow> 'a array_splice list \<Rightarrow> 'a list" where
  "deleted B ss = concat (map (\<lambda>s. js_slice B (sp_start s) (sp_start s + sp_deleteCount s)) ss)"

lemma js_slice_join:
  "0 \<le> a \<Longrightarrow> a \<le> b \<Longrightarrow> b \<le> c \<Longrightarrow> c \<le> int (length B) \<Longrightarrow> js_slice B a b @ js_slice B b c = js_slice B a c"
  using js_substring_append[of a b c B] by (simp add: js_slice_valid js_substring_valid)

lemma js_slice_empty [simp]: "js_slice B a a = []"
  by (simp add: js_slice_def Let_def)

lemma pushSplice_deleted:
  assumes "splices_ok r k" "0 \<le> d" "k + d \<le> int (length B)"
  shows "deleted B (rev (pushSplice r k d ins)) = deleted B (rev r) @ js_slice B k (k + d) \<and>
    concat (map sp_toInsert (rev (pushSplice r k d ins))) = concat (map sp_toInsert (rev r)) @ ins"
proof (cases "\<exists>t r'. r = t # r' \<and> sp_start t + sp_deleteCount t = k \<and> \<not> (d = 0 \<and> ins = [])")
  case True
  then obtain t r' where r: "r = t # r'" "sp_start t + sp_deleteCount t = k" "\<not> (d = 0 \<and> ins = [])" by blast
  have "js_slice B (sp_start t) k @ js_slice B k (k + d) = js_slice B (sp_start t) (k + d)"
    using assms r(2) by (intro js_slice_join) (auto simp: r(1))
  then show ?thesis using r by (auto simp: pushSplice.simps deleted_def add.assoc)
next
  case False
  then show ?thesis by (auto simp: pushSplice.simps deleted_def split: list.splits)
qed

definition missing :: "('a \<Rightarrow> 'a \<Rightarrow> int) \<Rightarrow> 'a list \<Rightarrow> 'a \<Rightarrow> bool" where
  "missing cmp ys x = (\<forall>y \<in> set ys. cmp x y \<noteq> 0 \<and> cmp y x \<noteq> 0)"

abbreviation strictly_sorted :: "('a \<Rightarrow> 'a \<Rightarrow> int) \<Rightarrow> 'a list \<Rightarrow> bool" where
  "strictly_sorted cmp xs \<equiv> sorted_wrt (\<lambda>a b. cmp a b < 0) xs"

context comparator
begin

lemma cmp_zero_sym: "cmp a b = 0 \<longleftrightarrow> cmp b a = 0"
  using cmp_pos_iff[of a b] cmp_neg_iff[of a b] by linarith

lemma missing_below: "cmp x y < 0 \<Longrightarrow> strictly_sorted cmp (y # ys) \<Longrightarrow> missing cmp (y # ys) x"
proof -
  assume xy: "cmp x y < 0" and so: "strictly_sorted cmp (y # ys)"
  have "cmp x z < 0" if "z \<in> set (y # ys)" for z
    using that xy so cmp_trans_less[of x y z] by (auto simp: less_imp_le)
  then show ?thesis using cmp_pos_iff by (force simp: missing_def)
qed

lemma missing_Cons:
  "missing cmp (y # ys) x \<longleftrightarrow> cmp x y \<noteq> 0 \<and> missing cmp ys x"
  using cmp_pos_iff[of x y] cmp_neg_iff[of x y] by (auto simp: missing_def)

lemma missing_drop_equal:
  assumes "strictly_sorted cmp (b # bs)" "cmp b a = 0" "x \<in> set bs"
  shows "missing cmp (a # as) x = missing cmp as x"
proof -
  have "cmp b x < 0" using assms by simp
  moreover have "cmp a b = 0" using assms(2) cmp_pos_iff[of a b] cmp_neg_iff[of a b] by linarith
  ultimately have "cmp a x < 0" using cmp_trans_le_less[of a b x] by simp
  then show ?thesis using cmp_pos_iff[of x a] by (simp add: missing_Cons)
qed

lemma missing_drop_below:
  assumes "cmp a b < 0" "strictly_sorted cmp (b # bs)" "x \<in> set (b # bs)"
  shows "missing cmp (a # as) x = missing cmp as x"
proof -
  have "cmp a x < 0" using assms cmp_trans_less[of a b x] by auto
  then show ?thesis using cmp_pos_iff[of x a] by (simp add: missing_Cons)
qed

end

lemma sortedDiff_loop_delta:
  assumes "comparator cmp" "splices_ok r k" "k \<le> int (length B)" "drop (nat k) B = bs"
    "strictly_sorted cmp bs" "strictly_sorted cmp as"
  shows "deleted B (rev (sortedDiff_loop cmp k bs as r)) = deleted B (rev r) @ filter (missing cmp as) bs \<and>
    concat (map sp_toInsert (rev (sortedDiff_loop cmp k bs as r))) =
      concat (map sp_toInsert (rev r)) @ filter (missing cmp bs) as"
  using assms
proof (induction cmp k bs as r rule: sortedDiff_loop.induct)
  case (1 cmp k as r)
  then show ?case using pushSplice_deleted[OF "1.prems"(2), of 0 B as] by (simp add: missing_def)
next
  case (2 cmp k b bs r)
  note nn = splices_ok_nonneg[OF "2.prems"(2)]
  have len: "length (b # bs) = length B - nat k" using "2.prems"(4) by (metis length_drop)
  then have k: "k + int (length (b # bs)) = int (length B)" using "2.prems"(3) nn by linarith
  have "js_slice B k (int (length B)) = b # bs"
    using "2.prems"(3,4) nn len by (simp add: js_slice_valid)
  then show ?case
    using pushSplice_deleted[OF "2.prems"(2), of "int (length (b # bs))" B "[]"]
    unfolding sortedDiff_loop.simps k by (simp add: missing_def)
next
  case (3 cmp k b bs a as r)
  note c = "3.prems"(1) and nn = splices_ok_nonneg[OF "3.prems"(2)]
  have "nat k < length B" using "3.prems"(4) by (metis drop_all leI list.distinct(1))
  then have k: "k + 1 \<le> int (length B)" and b: "B ! nat k = b" and rest: "drop (nat (k + 1)) B = bs"
    using nn "3.prems"(4) by (auto simp: nth_via_drop nat_add_distrib drop_Suc tl_drop[symmetric])
  have tails: "strictly_sorted cmp bs" "strictly_sorted cmp as" using "3.prems"(5,6) by auto
  have sl: "js_slice B k (k + 1) = [b]"
    using nn k "3.prems"(4) by (simp add: js_slice_valid nat_add_distrib)
  consider (eq) "cmp b a = 0" | (lt) "cmp b a < 0" | (gt) "0 < cmp b a" by linarith
  then show ?case
  proof cases
    case eq
    have ab: "cmp a b = 0" using eq comparator.cmp_pos_iff[OF c, of a b] comparator.cmp_neg_iff[OF c, of a b] by linarith
    have "filter (missing cmp (a # as)) bs = filter (missing cmp as) bs"
      by (rule filter_cong[OF refl]) (rule comparator.missing_drop_equal[OF c "3.prems"(5) eq])
    then have "filter (missing cmp (a # as)) (b # bs) = filter (missing cmp as) bs"
      using eq by (simp add: comparator.missing_Cons[OF c, of a as b])
    moreover have "filter (missing cmp (b # bs)) as = filter (missing cmp bs) as"
      by (rule filter_cong[OF refl]) (rule comparator.missing_drop_equal[OF c "3.prems"(6) ab])
    then have "filter (missing cmp (b # bs)) (a # as) = filter (missing cmp bs) as"
      using ab by (simp add: comparator.missing_Cons[OF c, of b bs a])
    ultimately show ?thesis
      using "3.IH"(1)[OF refl eq c _ k rest tails] splices_ok_mono[OF "3.prems"(2), of "k + 1"] eq by simp
  next
    case lt
    note p = pushSplice_apply[OF "3.prems"(2) _ k, of "[]"] pushSplice_deleted[OF "3.prems"(2) _ k, of "[]"]
    have "filter (missing cmp (a # as)) (b # bs) = b # filter (missing cmp (a # as)) bs"
      using comparator.missing_below[OF c lt "3.prems"(6)] by simp
    moreover have "filter (missing cmp (b # bs)) (a # as) = filter (missing cmp bs) (a # as)"
      using comparator.missing_drop_below[OF c lt "3.prems"(6)] by (intro filter_cong) auto
    ultimately show ?thesis using "3.IH"(2)[OF refl _ lt c _ k rest tails(1) "3.prems"(6)] p lt sl by simp
  next
    case gt
    then have lt: "cmp a b < 0" using comparator.cmp_pos_iff[OF c] by blast
    have p: "splices_ok (pushSplice r k 0 [a]) k"
      "deleted B (rev (pushSplice r k 0 [a])) = deleted B (rev r)"
      "concat (map sp_toInsert (rev (pushSplice r k 0 [a]))) = concat (map sp_toInsert (rev r)) @ [a]"
      using pushSplice_apply[OF "3.prems"(2), of 0 B "[a]"] pushSplice_deleted[OF "3.prems"(2), of 0 B "[a]"] k
      by simp_all
    have "filter (missing cmp (b # bs)) (a # as) = a # filter (missing cmp (b # bs)) as"
      using comparator.missing_below[OF c lt "3.prems"(5)] by simp
    moreover have "filter (missing cmp (a # as)) (b # bs) = filter (missing cmp as) (b # bs)"
      using comparator.missing_drop_below[OF c lt "3.prems"(5)] by (intro filter_cong) auto
    ultimately show ?thesis using "3.IH"(3)[OF refl _ _ c p(1) "3.prems"(3,4,5) tails(2)] gt p by simp
  qed
qed

text \<open>
  \<open>delta\<close> of two strictly sorted arrays: \<open>removed\<close> is the elements of \<open>before\<close> with no equal in
  \<open>after\<close> and \<open>added\<close> those of \<open>after\<close> with no equal in \<open>before\<close>, both in order.
\<close>

theorem delta_correct:
  assumes "comparator cmp" "strictly_sorted cmp before" "strictly_sorted cmp after"
  shows "arrays_delta before after cmp =
    (filter (\<lambda>x. \<forall>y \<in> set after. cmp x y \<noteq> 0) before, filter (\<lambda>x. \<forall>y \<in> set before. cmp x y \<noteq> 0) after)"
proof -
  have m: "missing cmp ys = (\<lambda>x. \<forall>y \<in> set ys. cmp x y \<noteq> 0)" for ys
    using comparator.cmp_zero_sym[OF assms(1)] by (auto simp: missing_def fun_eq_iff)
  show ?thesis
    using sortedDiff_loop_delta[OF assms(1), of "[]" 0 before before after] assms(2,3)
    by (simp add: arrays_delta_def sortedDiff_def deleted_def m Let_def)
qed

theorem delta_correct_witness:
  "arrays_delta [1, 3, 4 :: int] [2, 3, 7] numberComparator = ([1, 4], [2, 7])"
  using delta_correct[OF number_cmp.comparator_axioms, of "[1, 3, 4]" "[2, 3, 7]"]
  by (simp add: numberComparator_def)

section \<open>Permutations\<close>

definition is_permutation :: "permutation \<Rightarrow> nat \<Rightarrow> bool" where
  "is_permutation p n = (distinct (perm_indexMap p) \<and> set (perm_indexMap p) = {..<n})"

lemma is_permutation_length: "is_permutation p n \<Longrightarrow> length (perm_indexMap p) = n"
  by (metis is_permutation_def card_lessThan distinct_card)

lemma Permutation_apply_eq:
  assumes "is_permutation p (length arr)"
  shows "Permutation_apply p arr = map (\<lambda>k. Some (arr ! k)) (perm_indexMap p)"
proof (rule nth_equalityI)
  note l = is_permutation_length[OF assms]
  show "length (Permutation_apply p arr) = length (map (\<lambda>k. Some (arr ! k)) (perm_indexMap p))"
    by (simp add: Permutation_apply_def l)
  fix i assume i: "i < length (Permutation_apply p arr)"
  then have il: "i < length arr" by (simp add: Permutation_apply_def)
  then have "perm_indexMap p ! i \<in> set (perm_indexMap p)" using l by (intro nth_mem) simp
  then have "perm_indexMap p ! i < length arr" using assms by (simp add: is_permutation_def)
  then show "Permutation_apply p arr ! i = map (\<lambda>k. Some (arr ! k)) (perm_indexMap p) ! i"
    using il l by (simp add: Permutation_apply_def js_at_nat)
qed

lemma inverse_stores:
  assumes "distinct m" "\<forall>k \<in> set m. k < length iv" "n \<le> length m" "i < n"
  shows "foldl (\<lambda>iv i. iv[m ! i := i]) iv [0..<n] ! (m ! i) = i"
  using assms
proof (induction n)
  case (Suc n)
  have len: "length (foldl (\<lambda>iv i. iv[m ! i := i]) iv [0..<n]) = length iv" for n by (induction n) auto
  show ?case
  proof (cases "i = n")
    case True
    then show ?thesis using Suc.prems len[of n] by simp
  next
    case False
    then have "m ! i \<noteq> m ! n" using Suc.prems by (simp add: nth_eq_iff_index_eq)
    then show ?thesis using Suc False by simp
  qed
qed simp

lemma Permutation_inverse_nth:
  assumes "is_permutation p n" "i < n"
  shows "perm_indexMap (Permutation_inverse p) ! (perm_indexMap p ! i) = i"
  using assms is_permutation_length[OF assms(1)]
  by (auto simp: Permutation_inverse_def is_permutation_def intro!: inverse_stores)

lemma length_inverse [simp]: "length (perm_indexMap (Permutation_inverse p)) = length (perm_indexMap p)"
proof -
  have "length (foldl (\<lambda>iv i. iv[f i := i]) m is) = length m" for f :: "nat \<Rightarrow> nat" and m :: "nat list" and "is"
    by (induction "is" arbitrary: m) auto
  then show ?thesis by (simp add: Permutation_inverse_def)
qed

lemma is_permutation_inverse:
  assumes "is_permutation p n"
  shows "is_permutation (Permutation_inverse p) n"
proof -
  note l = is_permutation_length[OF assms]
  have "{..<n} \<subseteq> set (perm_indexMap (Permutation_inverse p))"
  proof
    fix i assume i: "i \<in> {..<n}"
    then have "perm_indexMap p ! i < n" using assms l by (metis is_permutation_def lessThan_iff nth_mem)
    then show "i \<in> set (perm_indexMap (Permutation_inverse p))"
      using Permutation_inverse_nth[OF assms, of i] i l by (metis lessThan_iff length_inverse nth_mem)
  qed
  moreover have "card (set (perm_indexMap (Permutation_inverse p))) \<le> n"
    using card_length[of "perm_indexMap (Permutation_inverse p)"] l by simp
  ultimately have "{..<n} = set (perm_indexMap (Permutation_inverse p))"
    by (intro card_seteq) auto
  then show ?thesis unfolding is_permutation_def using l by (metis card_distinct card_lessThan length_inverse)
qed

lemma is_permutation_sort: "is_permutation (createSortPermutation arr cmp) (length arr)"
  by (auto simp: is_permutation_def createSortPermutation_def)

text \<open>
  The permutation \<open>createSortPermutation\<close> makes of an array sorts it, stably, and its inverse
  brings every array of that length back into its order.
\<close>

theorem sort_permutation_correct:
  "Permutation_apply (createSortPermutation arr cmp) arr = map Some (js_sort cmp arr) \<and>
   (let p = createSortPermutation arr cmp
    in Permutation_apply (Permutation_inverse p) (map the (Permutation_apply p arr)) = map Some arr)"
proof -
  let ?p = "createSortPermutation arr cmp"
  note p = is_permutation_sort[of arr cmp] and l = is_permutation_length[OF is_permutation_sort[of arr cmp]]
  have "js_sort cmp (map (\<lambda>k. arr ! k) [0..<length arr]) = map (\<lambda>k. arr ! k) (perm_indexMap ?p)"
    by (simp add: js_sort_map createSortPermutation_def)
  then have s: "js_sort cmp arr = map (\<lambda>k. arr ! k) (perm_indexMap ?p)" by (simp add: map_nth)
  have 1: "Permutation_apply ?p arr = map Some (js_sort cmp arr)"
    by (simp add: Permutation_apply_eq[OF p] s)
  let ?q = "Permutation_inverse ?p"
  have pq: "perm_indexMap ?p ! (perm_indexMap ?q ! k) = k" if k: "k < length arr" for k
  proof -
    have "k \<in> set (perm_indexMap ?p)" using k p by (simp add: is_permutation_def)
    then obtain i where i: "i < length arr" "k = perm_indexMap ?p ! i" using l by (metis in_set_conv_nth)
    then show ?thesis using Permutation_inverse_nth[OF p i(1)] by simp
  qed
  have "Permutation_apply ?q (js_sort cmp arr) = map (\<lambda>k. Some (js_sort cmp arr ! k)) (perm_indexMap ?q)"
    using is_permutation_inverse[OF p] by (intro Permutation_apply_eq) simp
  also have "\<dots> = map Some arr"
  proof (rule nth_equalityI)
    show "length (map (\<lambda>k. Some (js_sort cmp arr ! k)) (perm_indexMap ?q)) = length (map Some arr)" using l by simp
    fix i assume "i < length (map (\<lambda>k. Some (js_sort cmp arr ! k)) (perm_indexMap ?q))"
    then have i: "i < length arr" using l by simp
    have "perm_indexMap ?q ! i < length arr"
      using is_permutation_inverse[OF p] i l by (metis is_permutation_def lessThan_iff length_inverse nth_mem)
    then show "map (\<lambda>k. Some (js_sort cmp arr ! k)) (perm_indexMap ?q) ! i = map Some arr ! i"
      using i l pq[OF i] by (simp add: s)
  qed
  finally show ?thesis using 1 by (simp add: Let_def comp_def)
qed

end
