(* ===== verification/ArrayUtils.thy ===== *)
theory ArrayUtils
  imports Prelude "HOL-Library.Multiset" "HOL-Library.Sublist"
begin

text \<open>
  The other half of \<^verbatim>\<open>vs/base/common/arrays.ts\<close>: the small array helpers, the loops behind
  \<open>insertInto\<close> and \<open>splice\<close>, and the double-ended \<open>ArrayQueue\<close>. An array that is
  changed in place is an argument and part of the result.
\<close>

subsection \<open>Small helpers\<close>

definition arrays_tail :: "'a list \<Rightarrow> ('a list \<times> 'a) result" where
  "arrays_tail arr =
     (if length arr = 0 then Inl JsError
      else Inr (js_slice arr 0 (int (length arr) - 1), arr ! (length arr - 1)))"

primrec equals_loop :: "('a \<Rightarrow> 'a \<Rightarrow> bool) \<Rightarrow> 'a list \<Rightarrow> 'a list \<Rightarrow> nat list \<Rightarrow> bool" where
  "equals_loop itemEquals one other [] = True"
| "equals_loop itemEquals one other (i # is) =
     (if \<not> itemEquals (one ! i) (other ! i) then False else equals_loop itemEquals one other is)"

text \<open>
  \<open>same\<close> is the outcome of \<open>one === other\<close>, the identity of the two arrays; \<open>None\<close> is
  \<open>undefined\<close>.
\<close>

definition arrays_equals :: "bool \<Rightarrow> 'a list option \<Rightarrow> 'a list option \<Rightarrow> ('a \<Rightarrow> 'a \<Rightarrow> bool) \<Rightarrow> bool" where
  "arrays_equals same one other itemEquals =
     (if same then True
      else (case (one, other) of
              (Some xs, Some ys) \<Rightarrow>
                (if length xs \<noteq> length ys then False else equals_loop itemEquals xs ys [0..<length xs])
            | _ \<Rightarrow> False))"

definition removeFastWithoutKeepingOrder :: "'a list \<Rightarrow> nat \<Rightarrow> 'a list" where
  "removeFastWithoutKeepingOrder array index =
     (let lst = length array - 1;
          array = (if index < lst then array[index := array ! lst] else array)
      in butlast array)"

text \<open>\<open>!!e\<close> of an element is the parameter \<open>truthy\<close>.\<close>

definition coalesce :: "('a \<Rightarrow> bool) \<Rightarrow> 'a list \<Rightarrow> 'a list" where
  "coalesce truthy array = filter truthy array"

primrec coalesceInPlace_loop :: "('a \<Rightarrow> bool) \<Rightarrow> nat list \<Rightarrow> 'a list \<Rightarrow> nat \<Rightarrow> 'a list \<times> nat" where
  "coalesceInPlace_loop truthy [] array to = (array, to)"
| "coalesceInPlace_loop truthy (i # is) array to =
     (if truthy (array ! i) then coalesceInPlace_loop truthy is (array[to := array ! i]) (to + 1)
      else coalesceInPlace_loop truthy is array to)"

definition coalesceInPlace :: "('a \<Rightarrow> bool) \<Rightarrow> 'a list \<Rightarrow> 'a list" where
  "coalesceInPlace truthy array =
     (let (array, to) = coalesceInPlace_loop truthy [0..<length array] array 0 in take to array)"

text \<open>The closure of \<open>uniqueFilter\<close>, also the callback of \<open>distinct\<close>: it keeps the keys seen so far.\<close>

definition uniqueFilter :: "('a \<Rightarrow> 'k) \<Rightarrow> 'a \<Rightarrow> 'k set \<Rightarrow> bool \<times> 'k set" where
  "uniqueFilter keyFn element seen =
     (let key = keyFn element in if key \<in> seen then (False, seen) else (True, insert key seen))"

fun distinct_loop :: "('a \<Rightarrow> 'k) \<Rightarrow> 'a list \<Rightarrow> 'k set \<Rightarrow> 'a list" where
  "distinct_loop keyFn [] seen = []"
| "distinct_loop keyFn (e # es) seen =
     (let (keep, seen') = uniqueFilter keyFn e seen
      in if keep then e # distinct_loop keyFn es seen' else distinct_loop keyFn es seen')"

definition arrays_distinct :: "'a list \<Rightarrow> ('a \<Rightarrow> 'k) \<Rightarrow> 'a list" where
  "arrays_distinct array keyFn = distinct_loop keyFn array {}"

function arrays_commonPrefixLength_loop :: "('a \<Rightarrow> 'a \<Rightarrow> bool) \<Rightarrow> 'a list \<Rightarrow> 'a list \<Rightarrow> nat \<Rightarrow> nat \<Rightarrow> nat" where
  "arrays_commonPrefixLength_loop eq one other i result =
     (if i < min (length one) (length other) \<and> eq (one ! i) (other ! i)
      then arrays_commonPrefixLength_loop eq one other (i + 1) (result + 1)
      else result)"
  by pat_completeness auto
termination
  by (relation "measure (\<lambda>(eq, one, other, i, result). length one - i)") auto

declare arrays_commonPrefixLength_loop.simps [simp del]

definition arrays_commonPrefixLength :: "'a list \<Rightarrow> 'a list \<Rightarrow> ('a \<Rightarrow> 'a \<Rightarrow> bool) \<Rightarrow> nat" where
  "arrays_commonPrefixLength one other eq = arrays_commonPrefixLength_loop eq one other 0 0"

text \<open>\<open>range(to)\<close> and \<open>range(from, to)\<close>: the second argument is \<open>None\<close> when it is left out.\<close>

function range_up :: "int \<Rightarrow> int \<Rightarrow> int list" where
  "range_up i to = (if i < to then i # range_up (i + 1) to else [])"
  by pat_completeness auto
termination
  by (relation "measure (\<lambda>(i, to). nat (to - i))") auto

function range_down :: "int \<Rightarrow> int \<Rightarrow> int list" where
  "range_down i to = (if i > to then i # range_down (i - 1) to else [])"
  by pat_completeness auto
termination
  by (relation "measure (\<lambda>(i, to). nat (i - to))") auto

declare range_up.simps [simp del] range_down.simps [simp del]

definition arrays_range :: "int \<Rightarrow> int option \<Rightarrow> int list" where
  "arrays_range arg to =
     (let (start, stop) = (case to of Some t \<Rightarrow> (arg, t) | None \<Rightarrow> (0, arg))
      in if start \<le> stop then range_up start stop else range_down start stop)"

text \<open>\<open>array.indexOf(element)\<close>.\<close>

fun indexOf :: "'a list \<Rightarrow> 'a \<Rightarrow> int" where
  "indexOf [] v = - 1"
| "indexOf (x # xs) v = (if x = v then 0 else (let k = indexOf xs v in if k = - 1 then - 1 else k + 1))"

definition arrays_remove :: "'a list \<Rightarrow> 'a \<Rightarrow> 'a list \<times> 'a option" where
  "arrays_remove array element =
     (let index = indexOf array element
      in if index > - 1 then (js_splice array index 1 [], Some element) else (array, None))"

definition pushToStart :: "'a list \<Rightarrow> 'a \<Rightarrow> 'a list" where
  "pushToStart arr value =
     (let index = indexOf arr value
      in if index > - 1 then value # js_splice arr index 1 [] else arr)"

definition pushToEnd :: "'a list \<Rightarrow> 'a \<Rightarrow> 'a list" where
  "pushToEnd arr value =
     (let index = indexOf arr value
      in if index > - 1 then js_splice arr index 1 [] @ [value] else arr)"

primrec mapFilter_loop :: "('a \<Rightarrow> 'b option) \<Rightarrow> 'a list \<Rightarrow> 'b list \<Rightarrow> 'b list" where
  "mapFilter_loop fn [] result = result"
| "mapFilter_loop fn (item # items) result =
     (let mapped = fn item
      in mapFilter_loop fn items (case mapped of Some m \<Rightarrow> result @ [m] | None \<Rightarrow> result))"

definition mapFilter :: "'a list \<Rightarrow> ('a \<Rightarrow> 'b option) \<Rightarrow> 'b list" where
  "mapFilter array fn = mapFilter_loop fn array []"

subsection \<open>insertInto and splice\<close>

definition getActualStartIndex :: "'a list \<Rightarrow> int \<Rightarrow> int" where
  "getActualStartIndex array start =
     (if start < 0 then max (start + int (length array)) 0 else min start (int (length array)))"

text \<open>
  \<open>array.length = n\<close> makes holes, \<open>None\<close> here. The first loop runs down from \<open>originalLength - 1\<close>
  to \<open>startIdx\<close>.
\<close>

function insertInto_move :: "nat \<Rightarrow> int \<Rightarrow> int \<Rightarrow> 'a option list \<Rightarrow> 'a option list" where
  "insertInto_move newItemsLength startIdx i array =
     (if i \<ge> startIdx
      then insertInto_move newItemsLength startIdx (i - 1) (array[nat i + newItemsLength := array ! nat i])
      else array)"
  by pat_completeness auto
termination
  by (relation "measure (\<lambda>(n, s, i, a). nat (i - s + 1))") auto

declare insertInto_move.simps [simp del]

primrec insertInto_store :: "'a list \<Rightarrow> nat \<Rightarrow> 'a option list \<Rightarrow> 'a option list" where
  "insertInto_store [] k array = array"
| "insertInto_store (x # xs) k array = insertInto_store xs (k + 1) (array[k := Some x])"

definition insertInto :: "'a list \<Rightarrow> int \<Rightarrow> 'a list \<Rightarrow> 'a option list" where
  "insertInto array start newItems =
     (let startIdx = getActualStartIndex array start;
          originalLength = length array;
          newItemsLength = length newItems;
          arr = map Some array @ replicate newItemsLength None;
          arr = insertInto_move newItemsLength startIdx (int originalLength - 1) arr
      in insertInto_store newItems (nat startIdx) arr)"

text \<open>
  \<open>array.splice(start, deleteCount)\<close> and \<open>array.splice(start, deleteCount, ...items)\<close> of the language,
  for any arguments: the array afterwards and the deleted elements.
\<close>

definition native_splice :: "'a list \<Rightarrow> int \<Rightarrow> int \<Rightarrow> 'a list \<Rightarrow> 'a list \<times> 'a list" where
  "native_splice array start deleteCount items =
     (let s = (if start < 0 then max (int (length array) + start) 0 else min start (int (length array)));
          d = min (max deleteCount 0) (int (length array) - s)
      in (take (nat s) array @ items @ drop (nat (s + d)) array, take (nat d) (drop (nat s) array)))"

definition arrays_splice :: "'a list \<Rightarrow> int \<Rightarrow> int \<Rightarrow> 'a list \<Rightarrow> 'a option list \<times> 'a list" where
  "arrays_splice array start deleteCount newItems =
     (let index = getActualStartIndex array start;
          (array, deletedItems) = native_splice array index deleteCount []
      in (insertInto array index newItems, deletedItems))"

subsection \<open>ArrayQueue\<close>

record 'a array_queue =
  aq_items :: "'a list"
  aq_firstIdx :: int
  aq_lastIdx :: int

definition ArrayQueue_new :: "'a list \<Rightarrow> 'a array_queue" where
  "ArrayQueue_new items = \<lparr>aq_items = items, aq_firstIdx = 0, aq_lastIdx = int (length items) - 1\<rparr>"

definition ArrayQueue_length :: "'a array_queue \<Rightarrow> int" where
  "ArrayQueue_length q = aq_lastIdx q - aq_firstIdx q + 1"

function takeWhile_loop :: "('a \<Rightarrow> bool) \<Rightarrow> 'a list \<Rightarrow> int \<Rightarrow> int \<Rightarrow> int" where
  "takeWhile_loop predicate items lastIdx startIdx =
     (if startIdx \<le> lastIdx \<and> predicate (items ! nat startIdx)
      then takeWhile_loop predicate items lastIdx (startIdx + 1) else startIdx)"
  by pat_completeness auto
termination
  by (relation "measure (\<lambda>(p, xs, l, s). nat (l - s + 1))") auto

function takeFromEndWhile_loop :: "('a \<Rightarrow> bool) \<Rightarrow> 'a list \<Rightarrow> int \<Rightarrow> int \<Rightarrow> int" where
  "takeFromEndWhile_loop predicate items firstIdx endIdx =
     (if endIdx \<ge> firstIdx \<and> predicate (items ! nat endIdx)
      then takeFromEndWhile_loop predicate items firstIdx (endIdx - 1) else endIdx)"
  by pat_completeness auto
termination
  by (relation "measure (\<lambda>(p, xs, f, e). nat (e - f + 1))") auto

declare takeWhile_loop.simps [simp del] takeFromEndWhile_loop.simps [simp del]

definition ArrayQueue_takeWhile :: "('a \<Rightarrow> bool) \<Rightarrow> 'a array_queue \<Rightarrow> 'a list option \<times> 'a array_queue" where
  "ArrayQueue_takeWhile predicate q =
     (let startIdx = takeWhile_loop predicate (aq_items q) (aq_lastIdx q) (aq_firstIdx q)
      in (if startIdx = aq_firstIdx q then None else Some (js_slice (aq_items q) (aq_firstIdx q) startIdx),
          q\<lparr>aq_firstIdx := startIdx\<rparr>))"

definition ArrayQueue_takeFromEndWhile :: "('a \<Rightarrow> bool) \<Rightarrow> 'a array_queue \<Rightarrow> 'a list option \<times> 'a array_queue" where
  "ArrayQueue_takeFromEndWhile predicate q =
     (let endIdx = takeFromEndWhile_loop predicate (aq_items q) (aq_firstIdx q) (aq_lastIdx q)
      in (if endIdx = aq_lastIdx q then None else Some (js_slice (aq_items q) (endIdx + 1) (aq_lastIdx q + 1)),
          q\<lparr>aq_lastIdx := endIdx\<rparr>))"

definition ArrayQueue_peek :: "'a array_queue \<Rightarrow> 'a option" where
  "ArrayQueue_peek q = (if ArrayQueue_length q = 0 then None else js_at (aq_items q) (aq_firstIdx q))"

definition ArrayQueue_peekLast :: "'a array_queue \<Rightarrow> 'a option" where
  "ArrayQueue_peekLast q = (if ArrayQueue_length q = 0 then None else js_at (aq_items q) (aq_lastIdx q))"

definition ArrayQueue_dequeue :: "'a array_queue \<Rightarrow> 'a option \<times> 'a array_queue" where
  "ArrayQueue_dequeue q = (js_at (aq_items q) (aq_firstIdx q), q\<lparr>aq_firstIdx := aq_firstIdx q + 1\<rparr>)"

definition ArrayQueue_removeLast :: "'a array_queue \<Rightarrow> 'a option \<times> 'a array_queue" where
  "ArrayQueue_removeLast q = (js_at (aq_items q) (aq_lastIdx q), q\<lparr>aq_lastIdx := aq_lastIdx q - 1\<rparr>)"

definition ArrayQueue_takeCount :: "int \<Rightarrow> 'a array_queue \<Rightarrow> 'a list \<times> 'a array_queue" where
  "ArrayQueue_takeCount n q =
     (js_slice (aq_items q) (aq_firstIdx q) (aq_firstIdx q + n), q\<lparr>aq_firstIdx := aq_firstIdx q + n\<rparr>)"

section \<open>The queue is a double-ended queue of its elements\<close>

definition queue_of :: "'a array_queue \<Rightarrow> 'a list" where
  "queue_of q = take (nat (ArrayQueue_length q)) (drop (nat (aq_firstIdx q)) (aq_items q))"

definition queue_wf :: "'a array_queue \<Rightarrow> bool" where
  "queue_wf q = (0 \<le> aq_firstIdx q \<and> aq_firstIdx q \<le> aq_lastIdx q + 1 \<and> aq_lastIdx q < int (length (aq_items q)))"

text \<open>A queue seen as the consumed front, the elements and the consumed end.\<close>

definition queue_parts :: "'a array_queue \<Rightarrow> 'a list \<Rightarrow> 'a list \<Rightarrow> 'a list \<Rightarrow> bool" where
  "queue_parts q pre mid post =
     (aq_items q = pre @ mid @ post \<and> aq_firstIdx q = int (length pre) \<and>
      aq_lastIdx q = int (length pre) + int (length mid) - 1)"

lemma queue_wf_parts:
  assumes "queue_wf q"
  shows "\<exists>pre post. queue_parts q pre (queue_of q) post"
proof -
  let ?f = "nat (aq_firstIdx q)" and ?n = "nat (ArrayQueue_length q)" and ?xs = "aq_items q"
  have "?f + ?n \<le> length ?xs" using assms by (auto simp: queue_wf_def ArrayQueue_length_def)
  then have "queue_parts q (take ?f ?xs) (queue_of q) (drop (?f + ?n) ?xs)"
    using assms append_take_drop_id[of ?n "drop ?f ?xs"]
    by (auto simp: queue_parts_def queue_of_def queue_wf_def ArrayQueue_length_def min_def add.commute)
  then show ?thesis by blast
qed

lemma queue_parts_wf: "queue_parts q pre mid post \<Longrightarrow> queue_wf q \<and> queue_of q = mid"
  by (auto simp: queue_parts_def queue_wf_def queue_of_def ArrayQueue_length_def)

lemma takeWhile_loop_parts:
  "takeWhile_loop p (pre @ mid @ post) (int (length pre) + int (length mid) - 1) (int (length pre)) =
     int (length pre) + int (length (takeWhile p mid))"
proof (induction mid arbitrary: pre)
  case Nil
  then show ?case by (subst takeWhile_loop.simps) simp
next
  case (Cons x mid)
  show ?case
    using Cons[of "pre @ [x]"] by (subst takeWhile_loop.simps) (simp add: nth_append algebra_simps)
qed

lemma takeFromEndWhile_loop_parts:
  "takeFromEndWhile_loop p (pre @ mid @ post) (int (length pre)) (int (length pre) + int (length mid) - 1) =
     int (length pre) + int (length mid) - 1 - int (length (takeWhile p (rev mid)))"
proof (induction mid arbitrary: post rule: rev_induct)
  case Nil
  then show ?case by (subst takeFromEndWhile_loop.simps) simp
next
  case (snoc x mid)
  have "(pre @ mid @ x # post) ! nat (int (length pre) + int (length mid)) = x"
    by (simp add: nth_append nat_add_distrib)
  then show ?case
    using snoc[of "x # post"] by (subst takeFromEndWhile_loop.simps) (simp add: algebra_simps)
qed

lemma takeWhile_parts:
  assumes "queue_parts q pre mid post"
  shows "fst (ArrayQueue_takeWhile p q) = (if takeWhile p mid = [] then None else Some (takeWhile p mid))"
    and "queue_parts (snd (ArrayQueue_takeWhile p q)) (pre @ takeWhile p mid) (dropWhile p mid) post"
proof -
  have len: "int (length mid) = int (length (takeWhile p mid)) + int (length (dropWhile p mid))"
    by (metis length_append of_nat_add takeWhile_dropWhile_id)
  have "js_slice (pre @ mid @ post) (int (length pre)) (int (length pre) + int (length (takeWhile p mid))) = takeWhile p mid"
    using len by (subst js_slice_valid) (auto simp: takeWhile_eq_take[symmetric] nat_add_distrib)
  moreover have loop: "takeWhile_loop p (aq_items q) (aq_lastIdx q) (aq_firstIdx q) =
      int (length pre) + int (length (takeWhile p mid))"
    using assms takeWhile_loop_parts[of p pre mid post] by (simp only: queue_parts_def)
  ultimately show "fst (ArrayQueue_takeWhile p q) = (if takeWhile p mid = [] then None else Some (takeWhile p mid))"
    using assms unfolding ArrayQueue_takeWhile_def Let_def loop by (simp add: queue_parts_def)
  show "queue_parts (snd (ArrayQueue_takeWhile p q)) (pre @ takeWhile p mid) (dropWhile p mid) post"
    using assms len unfolding ArrayQueue_takeWhile_def Let_def loop by (simp add: queue_parts_def)
qed

lemma takeFromEndWhile_parts:
  assumes "queue_parts q pre mid post"
  shows "fst (ArrayQueue_takeFromEndWhile p q) =
      (if takeWhile p (rev mid) = [] then None else Some (rev (takeWhile p (rev mid))))"
    and "queue_parts (snd (ArrayQueue_takeFromEndWhile p q)) pre (rev (dropWhile p (rev mid)))
      (rev (takeWhile p (rev mid)) @ post)"
proof -
  let ?t = "rev (takeWhile p (rev mid))" and ?d = "rev (dropWhile p (rev mid))"
  have mid: "mid = ?d @ ?t" by (metis rev_append rev_rev_ident takeWhile_dropWhile_id)
  then have len: "int (length mid) = int (length ?t) + int (length ?d)"
    by (metis length_append of_nat_add add.commute)
  have "js_slice (pre @ mid @ post) (int (length pre) + int (length ?d)) (int (length pre) + int (length mid)) = ?t"
    using len by (subst mid, subst js_slice_valid) (auto simp: nat_add_distrib)
  moreover have loop: "takeFromEndWhile_loop p (aq_items q) (aq_firstIdx q) (aq_lastIdx q) =
      int (length pre) + int (length ?d) - 1"
    using assms takeFromEndWhile_loop_parts[of p pre mid post] len by (simp add: queue_parts_def)
  ultimately show "fst (ArrayQueue_takeFromEndWhile p q) =
      (if takeWhile p (rev mid) = [] then None else Some ?t)"
    using assms len unfolding ArrayQueue_takeFromEndWhile_def Let_def loop by (auto simp: queue_parts_def)
  show "queue_parts (snd (ArrayQueue_takeFromEndWhile p q)) pre ?d (?t @ post)"
    using assms mid unfolding ArrayQueue_takeFromEndWhile_def Let_def loop by (simp add: queue_parts_def)
qed

lemma ends_parts:
  assumes "queue_parts q pre mid post"
  shows "ArrayQueue_peek q = (if mid = [] then None else Some (hd mid))"
    and "ArrayQueue_peekLast q = (if mid = [] then None else Some (last mid))"
    and "mid \<noteq> [] \<Longrightarrow> fst (ArrayQueue_dequeue q) = Some (hd mid)"
    and "mid \<noteq> [] \<Longrightarrow> queue_parts (snd (ArrayQueue_dequeue q)) (pre @ [hd mid]) (tl mid) post"
    and "mid \<noteq> [] \<Longrightarrow> fst (ArrayQueue_removeLast q) = Some (last mid)"
    and "mid \<noteq> [] \<Longrightarrow> queue_parts (snd (ArrayQueue_removeLast q)) pre (butlast mid) (last mid # post)"
proof -
  have first: "mid \<noteq> [] \<Longrightarrow> js_at (aq_items q) (aq_firstIdx q) = Some (hd mid)"
    using assms by (cases mid) (auto simp: queue_parts_def js_at_def nth_append)
  have final: "mid \<noteq> [] \<Longrightarrow> js_at (aq_items q) (aq_lastIdx q) = Some (last mid)"
    using assms by (cases mid rule: rev_cases) (auto simp: queue_parts_def js_at_def nth_append nat_add_distrib)
  show "ArrayQueue_peek q = (if mid = [] then None else Some (hd mid))"
    "ArrayQueue_peekLast q = (if mid = [] then None else Some (last mid))"
    using first final assms
    by (auto simp: ArrayQueue_peek_def ArrayQueue_peekLast_def ArrayQueue_length_def queue_parts_def)
  show "mid \<noteq> [] \<Longrightarrow> fst (ArrayQueue_dequeue q) = Some (hd mid)"
    "mid \<noteq> [] \<Longrightarrow> fst (ArrayQueue_removeLast q) = Some (last mid)"
    using first final by (auto simp: ArrayQueue_dequeue_def ArrayQueue_removeLast_def)
  show "mid \<noteq> [] \<Longrightarrow> queue_parts (snd (ArrayQueue_dequeue q)) (pre @ [hd mid]) (tl mid) post"
    using assms by (cases mid) (auto simp: ArrayQueue_dequeue_def queue_parts_def)
  show "mid \<noteq> [] \<Longrightarrow> queue_parts (snd (ArrayQueue_removeLast q)) pre (butlast mid) (last mid # post)"
    using assms by (cases mid rule: rev_cases) (auto simp: ArrayQueue_removeLast_def queue_parts_def)
qed

lemma takeCount_parts:
  assumes "queue_parts q pre mid post" "n \<le> length mid"
  shows "fst (ArrayQueue_takeCount (int n) q) = take n mid"
    and "queue_parts (snd (ArrayQueue_takeCount (int n) q)) (pre @ take n mid) (drop n mid) post"
proof -
  have "js_slice (pre @ mid @ post) (int (length pre)) (int (length pre) + int n) = take n mid"
    using assms(2) by (subst js_slice_valid) (auto simp: nat_add_distrib)
  then show "fst (ArrayQueue_takeCount (int n) q) = take n mid"
    using assms by (auto simp: ArrayQueue_takeCount_def queue_parts_def)
  show "queue_parts (snd (ArrayQueue_takeCount (int n) q)) (pre @ take n mid) (drop n mid) post"
    using assms append_take_drop_id[of n mid]
    by (auto simp: ArrayQueue_takeCount_def queue_parts_def simp del: append_take_drop_id)
qed

text \<open>
  C39. \<open>ArrayQueue\<close> implements a double-ended queue: the elements between the two indices are a
  list on which each method acts as its documentation says. \<open>dequeue\<close> and \<open>removeLast\<close> need a
  non-empty queue and \<open>takeCount\<close> at most as many elements as there are.
\<close>

theorem ArrayQueue_refines_deque:
  assumes "queue_wf q"
  shows "let xs = queue_of q; (r1, q1) = ArrayQueue_takeWhile p q; (r2, q2) = ArrayQueue_takeFromEndWhile p q
    in ArrayQueue_length q = int (length xs) \<and>
       r1 = (if takeWhile p xs = [] then None else Some (takeWhile p xs)) \<and>
       queue_wf q1 \<and> queue_of q1 = dropWhile p xs \<and>
       r2 = (if takeWhile p (rev xs) = [] then None else Some (rev (takeWhile p (rev xs)))) \<and>
       queue_wf q2 \<and> queue_of q2 = rev (dropWhile p (rev xs)) \<and>
       ArrayQueue_peek q = (if xs = [] then None else Some (hd xs)) \<and>
       ArrayQueue_peekLast q = (if xs = [] then None else Some (last xs)) \<and>
       (xs \<noteq> [] \<longrightarrow>
          fst (ArrayQueue_dequeue q) = Some (hd xs) \<and>
          queue_wf (snd (ArrayQueue_dequeue q)) \<and> queue_of (snd (ArrayQueue_dequeue q)) = tl xs \<and>
          fst (ArrayQueue_removeLast q) = Some (last xs) \<and>
          queue_wf (snd (ArrayQueue_removeLast q)) \<and> queue_of (snd (ArrayQueue_removeLast q)) = butlast xs) \<and>
       (\<forall>n \<le> length xs. fst (ArrayQueue_takeCount (int n) q) = take n xs \<and>
          queue_wf (snd (ArrayQueue_takeCount (int n) q)) \<and>
          queue_of (snd (ArrayQueue_takeCount (int n) q)) = drop n xs)"
proof -
  obtain pre post where parts: "queue_parts q pre (queue_of q) post" using queue_wf_parts[OF assms] by blast
  have len: "ArrayQueue_length q = int (length (queue_of q))"
    using parts by (simp add: queue_parts_def ArrayQueue_length_def)
  note tw = takeWhile_parts(1)[OF parts, of p] queue_parts_wf[OF takeWhile_parts(2)[OF parts, of p]]
  note te = takeFromEndWhile_parts(1)[OF parts, of p] queue_parts_wf[OF takeFromEndWhile_parts(2)[OF parts, of p]]
  note ends = ends_parts(1,2,3,5)[OF parts] queue_parts_wf[OF ends_parts(4)[OF parts]]
    queue_parts_wf[OF ends_parts(6)[OF parts]]
  note tc = takeCount_parts(1)[OF parts] queue_parts_wf[OF takeCount_parts(2)[OF parts]]
  show ?thesis
    unfolding Let_def case_prod_beta using len tw te ends tc by simp
qed

theorem ArrayQueue_refines_deque_witness:
  "queue_of (snd (ArrayQueue_takeWhile (\<lambda>x. x < 3) (ArrayQueue_new [1, 2, 5, 1 :: int]))) = [5, 1]"
proof -
  have wf: "queue_wf (ArrayQueue_new [1, 2, 5, 1 :: int])" by (simp add: queue_wf_def ArrayQueue_new_def)
  have "queue_of (ArrayQueue_new [1, 2, 5, 1 :: int]) = [1, 2, 5, 1]"
    by (simp add: queue_of_def ArrayQueue_new_def ArrayQueue_length_def)
  then show ?thesis
    using ArrayQueue_refines_deque[OF wf, of "\<lambda>x. x < 3"] by (simp add: Let_def case_prod_beta)
qed

text \<open>
  \<open>takeCount\<close> does not look at \<open>lastIdx\<close>: after \<open>removeLast\<close> has consumed the last element,
  \<open>takeCount\<close> of the original length still returns it, and the length becomes -1.
\<close>

theorem ArrayQueue_takeCount_ignores_end:
  "let q = snd (ArrayQueue_removeLast (ArrayQueue_new (xs @ [x])))
   in queue_of q = xs \<and>
      fst (ArrayQueue_takeCount (int (length xs) + 1) q) = xs @ [x] \<and>
      ArrayQueue_length (snd (ArrayQueue_takeCount (int (length xs) + 1) q)) = - 1"
  by (simp add: ArrayQueue_removeLast_def ArrayQueue_new_def ArrayQueue_takeCount_def ArrayQueue_length_def
      queue_of_def Let_def js_slice_valid nat_add_distrib)

section \<open>splice\<close>

lemma insertInto_move_step:
  assumes "s \<le> int k" "length xs = Suc k"
  shows "insertInto_move n s (int k) (map Some xs @ H @ R) =
    insertInto_move n s (int k - 1) ((map Some xs @ H @ R)[k + n := Some (last xs)])"
proof -
  have "xs \<noteq> []" using assms by auto
  then have "(map Some xs @ H @ R) ! k = Some (last xs)"
    using assms by (auto simp: nth_append last_conv_nth)
  then show ?thesis using assms(1) by (subst insertInto_move.simps) simp
qed

text \<open>
  The move, from \<open>xs @ H @ R\<close> with \<open>n\<close> slots in \<open>H\<close>: the tail \<open>t\<close> of \<open>xs\<close> goes up by \<open>n\<close> and
  some \<open>n\<close> slots stay in between.
\<close>

lemma insertInto_move_gap:
  assumes "length H = n"
  shows "\<exists>H'. length H' = n \<and>
    insertInto_move n (int (length a)) (int (length a + length t) - 1) (map Some (a @ t) @ H @ R) =
    map Some a @ H' @ map Some t @ R"
  using assms
proof (induction t arbitrary: H R rule: rev_induct)
  case Nil
  then show ?case by (subst insertInto_move.simps) auto
next
  case (snoc x t)
  let ?A = "map Some (a @ t) @ (Some x # H) @ R"
  have upd: "?A[length a + length t + n := Some x] = map Some (a @ t) @ (take n (Some x # H)) @ Some x # R"
  proof (cases H rule: rev_cases)
    case Nil
    then show ?thesis using snoc.prems by (simp add: list_update_append)
  next
    case (snoc H0 h)
    then have "n = Suc (length H0)" using snoc.prems \<open>length H = n\<close> by simp
    then show ?thesis using snoc by (simp add: list_update_append)
  qed
  have "insertInto_move n (int (length a)) (int (length a + length (t @ [x])) - 1) (map Some (a @ t @ [x]) @ H @ R) =
      insertInto_move n (int (length a)) (int (length a + length t) - 1)
        (map Some (a @ t) @ take n (Some x # H) @ Some x # R)"
    using insertInto_move_step[of "int (length a)" "length a + length t" "a @ t @ [x]" n H R] upd by simp
  then show ?case
    using snoc.IH[of "take n (Some x # H)" "Some x # R"] snoc.prems by (simp add: min_def)
qed

lemma insertInto_store_gap:
  "length H = length xs \<Longrightarrow>
   insertInto_store xs (length a) (a @ H @ R) = a @ map Some xs @ R"
proof (induction xs arbitrary: a H)
  case (Cons x xs)
  then obtain h H' where "H = h # H'" by (cases H) auto
  then show ?case using Cons.IH[of H' "a @ [Some x]"] Cons.prems by simp
qed simp

lemma insertInto_eq:
  "insertInto array start items =
     map Some (take (nat (getActualStartIndex array start)) array @ items @ drop (nat (getActualStartIndex array start)) array)"
proof -
  let ?s = "getActualStartIndex array start"
  have s: "0 \<le> ?s" "?s \<le> int (length array)" by (auto simp: getActualStartIndex_def)
  let ?a = "take (nat ?s) array" and ?t = "drop (nat ?s) array"
  have "int (length ?a) = ?s" "int (length ?a + length ?t) - 1 = int (length array) - 1" using s by auto
  then obtain H where H: "length H = length items"
    "insertInto_move (length items) ?s (int (length array) - 1) (map Some array @ replicate (length items) None) =
       map Some ?a @ H @ map Some ?t"
    using insertInto_move_gap[of "replicate (length items) None" "length items" ?a ?t "[]"] by auto
  have "nat ?s = length (map Some ?a)" using s by simp
  then show ?thesis
    using insertInto_store_gap[OF H(1), of "map Some ?a" "map Some ?t"] unfolding insertInto_def Let_def H(2) by simp
qed

lemma insertInto_at:
  assumes "n \<le> length xs"
  shows "insertInto (take n xs @ ys) (int n) items = map Some (take n xs @ items @ ys)"
proof -
  have "getActualStartIndex (take n xs @ ys) (int n) = int n"
    using assms by (simp add: getActualStartIndex_def)
  then show ?thesis using assms by (simp add: insertInto_eq)
qed

text \<open>
  \<open>splice\<close>, written without spreading its arguments, has the effect of the native
  \<open>array.splice(start, deleteCount, ...newItems)\<close> for every start, negative and too large ones
  included, and every count: the same array, without holes, and the same deleted elements.
\<close>

theorem splice_eq_native:
  "arrays_splice array start deleteCount newItems =
     (let (array', deletedItems) = native_splice array start deleteCount newItems
      in (map Some array', deletedItems))"
proof -
  let ?s = "getActualStartIndex array start"
  have s: "0 \<le> ?s" "?s \<le> int (length array)" by (auto simp: getActualStartIndex_def)
  let ?d = "min (max deleteCount 0) (int (length array) - ?s)"
  have norm: "(if start < 0 then max (int (length array) + start) 0 else min start (int (length array))) = ?s"
    by (simp add: getActualStartIndex_def add.commute)
  have norm2: "(if ?s < 0 then max (int (length array) + ?s) 0 else min ?s (int (length array))) = ?s"
    using s by simp
  obtain n where n: "?s = int n" "n \<le> length array"
    using s by (metis nonneg_int_cases of_nat_le_iff)
  have "insertInto (take (nat ?s) array @ [] @ drop (nat (?s + ?d)) array) ?s newItems =
      map Some (take (nat ?s) array @ newItems @ drop (nat (?s + ?d)) array)"
    unfolding n(1) using insertInto_at[OF n(2), of "drop (nat (int n + min (max deleteCount 0) (int (length array) - int n))) array" newItems]
    by simp
  then show ?thesis
    by (simp only: arrays_splice_def native_splice_def Let_def norm norm2 prod.case)
qed

section \<open>The small helpers against their library counterparts\<close>

lemma coalesceInPlace_loop_eq:
  assumes "to \<le> i" "i + n \<le> length array"
  shows "let (array', to') = coalesceInPlace_loop truthy [i..<i + n] array to
     in take to' array' = take to array @ filter truthy (take n (drop i array))"
  using assms
proof (induction n arbitrary: i to array)
  case 0
  then show ?case by simp
next
  case (Suc n)
  then have i: "i < length array" "[i..<i + Suc n] = i # [Suc i..<Suc i + n]" by (auto simp: upt_conv_Cons)
  have d: "take (Suc n) (drop i array) = array ! i # take n (drop (Suc i) array)"
    using i(1) by (simp add: Cons_nth_drop_Suc[symmetric])
  show ?case
  proof (cases "truthy (array ! i)")
    case True
    let ?a = "array[to := array ! i]"
    have "take (Suc to) ?a = take to array @ [array ! i]"
      using Suc.prems i(1) by (simp add: take_Suc_conv_app_nth)
    moreover have "drop (Suc i) ?a = drop (Suc i) array" using Suc.prems by simp
    ultimately show ?thesis
      using Suc.IH[of "Suc to" "Suc i" ?a] Suc.prems True unfolding i(2) d by simp
  next
    case False
    then show ?thesis using Suc.IH[of to "Suc i" array] Suc.prems unfolding i(2) d by simp
  qed
qed

lemma coalesceInPlace_eq: "coalesceInPlace truthy array = coalesce truthy array"
  using coalesceInPlace_loop_eq[of 0 0 "length array" array truthy]
  by (simp add: coalesceInPlace_def coalesce_def case_prod_beta Let_def)

lemma distinct_loop_Cons:
  "distinct_loop f (e # es) seen =
     (if f e \<in> seen then distinct_loop f es seen else e # distinct_loop f es (insert (f e) seen))"
  by (simp add: uniqueFilter_def Let_def)

lemma distinct_loop_props:
  "subseq (distinct_loop f xs seen) xs \<and> distinct (map f (distinct_loop f xs seen)) \<and>
   f ` set (distinct_loop f xs seen) = f ` set xs - seen"
proof (induction xs arbitrary: seen)
  case (Cons e es)
  have "f e \<notin> f ` set (distinct_loop f es (insert (f e) seen))" using Cons[of "insert (f e) seen"] by auto
  then show ?case
    using Cons[of seen] Cons[of "insert (f e) seen"] unfolding distinct_loop_Cons by auto
qed simp

lemma distinct_loop_first:
  "x \<in> set (distinct_loop f xs seen) \<Longrightarrow> \<exists>pre post. xs = pre @ x # post \<and> f x \<notin> f ` set pre \<and> f x \<notin> seen"
proof (induction xs arbitrary: seen)
  case (Cons e es)
  have later: "\<exists>pre post. e # es = pre @ x # post \<and> f x \<notin> f ` set pre \<and> f x \<notin> seen"
    if t: "x \<in> set (distinct_loop f es sn)" "f e \<in> sn" "seen \<subseteq> sn" for sn
  proof -
    obtain pre post where "es = pre @ x # post" "f x \<notin> f ` set pre" "f x \<notin> sn" using Cons.IH[OF t(1)] by blast
    then have "e # es = (e # pre) @ x # post \<and> f x \<notin> f ` set (e # pre) \<and> f x \<notin> seen" using t(2,3) by auto
    then show ?thesis by blast
  qed
  consider "f e \<in> seen" | "f e \<notin> seen" "x = e" | "f e \<notin> seen" "x \<in> set (distinct_loop f es (insert (f e) seen))"
    using Cons.prems by (auto simp: distinct_loop_Cons simp del: distinct_loop.simps split: if_splits)
  then show ?case
  proof cases
    case 1
    then show ?thesis using Cons.prems later[of seen] by (simp add: distinct_loop_Cons del: distinct_loop.simps)
  next
    case 2
    then have "e # es = [] @ x # es \<and> f x \<notin> f ` set [] \<and> f x \<notin> seen" by simp
    then show ?thesis by blast
  next
    case 3
    then show ?thesis using later[of "insert (f e) seen"] by auto
  qed
qed simp

lemma arrays_commonPrefixLength_loop_eq:
  "i \<le> length one \<Longrightarrow> i \<le> length other \<Longrightarrow>
   arrays_commonPrefixLength_loop eq one other i n =
     n + length (takeWhile (\<lambda>(x, y). eq x y) (zip (drop i one) (drop i other)))"
proof (induction eq one other i n rule: arrays_commonPrefixLength_loop.induct)
  case (1 eq one other i n)
  show ?case
  proof (cases "i < min (length one) (length other)")
    case True
    then have "zip (drop i one) (drop i other) = (one ! i, other ! i) # zip (drop (Suc i) one) (drop (Suc i) other)"
      by (simp add: Cons_nth_drop_Suc[symmetric])
    then show ?thesis using "1.IH" True by (subst arrays_commonPrefixLength_loop.simps) auto
  next
    case False
    then have "zip (drop i one) (drop i other) = []" using "1.prems" by auto
    then show ?thesis using False by (subst arrays_commonPrefixLength_loop.simps) auto
  qed
qed

lemma equals_loop_iff: "equals_loop eq xs ys is = (\<forall>i \<in> set is. eq (xs ! i) (ys ! i))"
  by (induction "is") auto

lemma indexOf_props:
  "(v \<in> set xs \<longrightarrow> 0 \<le> indexOf xs v \<and> js_splice xs (indexOf xs v) 1 [] = remove1 v xs) \<and>
   (v \<notin> set xs \<longrightarrow> indexOf xs v = - 1)"
proof (induction xs)
  case (Cons x xs)
  then show ?case by (auto simp: js_splice_def Let_def nat_add_distrib)
qed simp

lemma mapFilter_loop_eq: "mapFilter_loop fn xs r = r @ List.map_filter fn xs"
  by (induction xs arbitrary: r) (auto simp: map_filter_simps split: option.splits)

lemma range_up_eq: "range_up a b = [a..b - 1]"
  by (induction a b rule: range_up.induct) (subst range_up.simps, auto simp: upto_rec1)

lemma range_down_eq: "range_down a b = rev [b + 1..a]"
  by (induction a b rule: range_down.induct) (subst range_down.simps, auto simp: upto_rec2)

lemma removeFast_mset:
  "i < length xs \<Longrightarrow> mset (removeFastWithoutKeepingOrder xs i) = mset xs - {#xs ! i#}"
proof (cases xs rule: rev_cases)
  case (snoc ys y)
  assume i: "i < length xs"
  show ?thesis
  proof (cases "i < length ys")
    case True
    then show ?thesis
      by (simp add: snoc removeFastWithoutKeepingOrder_def Let_def list_update_append nth_append mset_update)
  next
    case False
    then have "i = length ys" using i snoc by simp
    then show ?thesis by (simp add: snoc removeFastWithoutKeepingOrder_def Let_def)
  qed
qed simp

text \<open>
  \<open>distinct\<close> keeps the first element of every key, in order: the keys of the result are
  distinct, all keys of the array are there, the result is a subsequence, and before a kept element no element
  has its key.
\<close>

theorem distinct_keeps_first:
  "subseq (arrays_distinct xs f) xs \<and> distinct (map f (arrays_distinct xs f)) \<and>
   f ` set (arrays_distinct xs f) = f ` set xs \<and>
   (\<forall>x \<in> set (arrays_distinct xs f). \<exists>pre post. xs = pre @ x # post \<and> f x \<notin> f ` set pre)"
  using distinct_loop_props[of f xs "{}"] distinct_loop_first[of _ f xs "{}"] by (auto simp: arrays_distinct_def)

text \<open>
  The helpers agree with their mathematical counterparts: the in-place \<open>coalesce\<close> with the
  copying one, element-wise equality of arrays, the length of the common prefix, removal of the first
  occurrence, the two moves of an element to an end, ranges in both directions.
\<close>

theorem array_helpers_correct:
  "coalesceInPlace truthy xs = coalesce truthy xs \<and>
   arrays_equals False (Some xs) (Some ys) eq = list_all2 eq xs ys \<and>
   arrays_commonPrefixLength xs ys eq = length (takeWhile (\<lambda>(x, y). eq x y) (zip xs ys)) \<and>
   arrays_remove xs v = (remove1 v xs, if v \<in> set xs then Some v else None) \<and>
   pushToStart xs v = (if v \<in> set xs then v # remove1 v xs else xs) \<and>
   pushToEnd xs v = (if v \<in> set xs then remove1 v xs @ [v] else xs) \<and>
   mapFilter xs fn = List.map_filter fn xs \<and>
   arrays_range a (Some b) = (if a \<le> b then [a..b - 1] else rev [b + 1..a])"
proof -
  have "arrays_equals False (Some xs) (Some ys) eq = list_all2 eq xs ys"
    by (auto simp: arrays_equals_def equals_loop_iff list_all2_conv_all_nth)
  moreover have "arrays_commonPrefixLength xs ys eq = length (takeWhile (\<lambda>(x, y). eq x y) (zip xs ys))"
    by (simp add: arrays_commonPrefixLength_def arrays_commonPrefixLength_loop_eq)
  moreover have "arrays_remove xs v = (remove1 v xs, if v \<in> set xs then Some v else None)"
    "pushToStart xs v = (if v \<in> set xs then v # remove1 v xs else xs)"
    "pushToEnd xs v = (if v \<in> set xs then remove1 v xs @ [v] else xs)"
    using indexOf_props[of v xs]
    by (auto simp: arrays_remove_def pushToStart_def pushToEnd_def Let_def remove1_idem)
  moreover have "arrays_range a (Some b) = (if a \<le> b then [a..b - 1] else rev [b + 1..a])"
    by (simp add: arrays_range_def range_up_eq range_down_eq)
  ultimately show ?thesis by (simp add: coalesceInPlace_eq mapFilter_def mapFilter_loop_eq)
qed
end
