(* ===== verification/Position.thy ===== *)
theory Position
  imports Comparators
begin

text \<open>
  \<^verbatim>\<open>src/vs/editor/common/core/position.ts\<close>: a position in the editor, a 1-based line number and
  a 1-based column. \<open>toString\<close> is not modelled.
\<close>

named_theorems position_simps \<open>positions as pairs in the lexicographic order\<close>

record position =
  lineNumber :: int
  column :: int

definition Position_new :: "int \<Rightarrow> int \<Rightarrow> position" where
  "Position_new l c = \<lparr>lineNumber = l, column = c\<rparr>"

text \<open>The optional parameters default to the fields of the receiver.\<close>

definition Position_with :: "position \<Rightarrow> int option \<Rightarrow> int option \<Rightarrow> position" where
  "Position_with this newLineNumber newColumn =
     (let l = (case newLineNumber of None \<Rightarrow> lineNumber this | Some v \<Rightarrow> v);
          c = (case newColumn of None \<Rightarrow> column this | Some v \<Rightarrow> v)
      in if l = lineNumber this \<and> c = column this then this else Position_new l c)"

definition Position_delta :: "position \<Rightarrow> int \<Rightarrow> int \<Rightarrow> position" where
  "Position_delta this deltaLineNumber deltaColumn =
     Position_with this (Some (max 1 (lineNumber this + deltaLineNumber)))
       (Some (max 1 (column this + deltaColumn)))"

definition Position_equals :: "position option \<Rightarrow> position option \<Rightarrow> bool" where
  "Position_equals a b =
     (case (a, b) of
        (None, None) \<Rightarrow> True
      | (Some p, Some q) \<Rightarrow> lineNumber p = lineNumber q \<and> column p = column q
      | _ \<Rightarrow> False)"

definition Position_isBefore :: "position \<Rightarrow> position \<Rightarrow> bool" where
  "Position_isBefore a b =
     (if lineNumber a < lineNumber b then True
      else if lineNumber b < lineNumber a then False
      else column a < column b)"

definition Position_isBeforeOrEqual :: "position \<Rightarrow> position \<Rightarrow> bool" where
  "Position_isBeforeOrEqual a b =
     (if lineNumber a < lineNumber b then True
      else if lineNumber b < lineNumber a then False
      else column a \<le> column b)"

definition Position_compare :: "position \<Rightarrow> position \<Rightarrow> int" where
  "Position_compare a b =
     (let aLineNumber = toInt32 (lineNumber a); bLineNumber = toInt32 (lineNumber b)
      in if aLineNumber = bLineNumber
         then (let aColumn = toInt32 (column a); bColumn = toInt32 (column b) in aColumn - bColumn)
         else aLineNumber - bLineNumber)"

definition Position_clone :: "position \<Rightarrow> position" where
  "Position_clone this = Position_new (lineNumber this) (column this)"

definition Position_lift :: "position \<Rightarrow> position" where
  "Position_lift pos = Position_new (lineNumber pos) (column pos)"

definition Position_toJSON :: "position \<Rightarrow> position" where
  "Position_toJSON this = \<lparr>lineNumber = lineNumber this, column = column this\<rparr>"

subsection \<open>Positions are linearly ordered\<close>

text \<open>
  The lexicographic order, as an instance of \<open>linorder\<close>, so that the order lemmas of the
  library apply to positions.
\<close>

instantiation position_ext :: (linorder) linorder
begin

definition less_eq_position_ext :: "'a position_scheme \<Rightarrow> 'a position_scheme \<Rightarrow> bool" where
  "less_eq_position_ext a b \<longleftrightarrow>
     lineNumber a < lineNumber b \<or>
     (lineNumber a = lineNumber b \<and>
       (column a < column b \<or> (column a = column b \<and> position.more a \<le> position.more b)))"

definition less_position_ext :: "'a position_scheme \<Rightarrow> 'a position_scheme \<Rightarrow> bool" where
  "less_position_ext a b \<longleftrightarrow> a \<le> b \<and> \<not> b \<le> (a :: 'a position_scheme)"

instance
proof
  fix x y :: "'a position_scheme"
  assume "x \<le> y" "y \<le> x"
  then have "lineNumber x = lineNumber y" "column x = column y" "position.more x = position.more y"
    by (auto simp: less_eq_position_ext_def)
  then show "x = y" by (rule position.equality)
qed (auto simp: less_eq_position_ext_def less_position_ext_def)

end

lemma position_le_iff [position_simps]:
  "(a :: position) \<le> b \<longleftrightarrow>
   lineNumber a < lineNumber b \<or> (lineNumber a = lineNumber b \<and> column a \<le> column b)"
  by (auto simp: less_eq_position_ext_def)

lemma position_less_iff [position_simps]:
  "(a :: position) < b \<longleftrightarrow>
   lineNumber a < lineNumber b \<or> (lineNumber a = lineNumber b \<and> column a < column b)"
  by (auto simp: less_position_ext_def less_eq_position_ext_def)

lemma position_eq_iff [position_simps]:
  "(a :: position) = b \<longleftrightarrow> lineNumber a = lineNumber b \<and> column a = column b"
  by (cases a; cases b) auto

lemma Position_new_sel [simp]:
  "lineNumber (Position_new l c) = l" "column (Position_new l c) = c"
  by (auto simp: Position_new_def)

lemma Position_with_sel:
  "lineNumber (Position_with p l c) = (case l of None \<Rightarrow> lineNumber p | Some v \<Rightarrow> v)"
  "column (Position_with p l c) = (case c of None \<Rightarrow> column p | Some v \<Rightarrow> v)"
  by (auto simp: Position_with_def Let_def split: option.splits)

interpretation position_cmp: comparator Position_compare
  by unfold_locales (auto simp: Position_compare_def Let_def sgn_if split: if_splits)

definition position_int32 :: "position \<Rightarrow> bool" where
  "position_int32 p \<longleftrightarrow> 0 \<le> lineNumber p \<and> lineNumber p < 2 ^ 31 \<and> 0 \<le> column p \<and> column p < 2 ^ 31"

text \<open>
  \<open>isBefore\<close>, \<open>isBeforeOrEqual\<close> and \<open>equals\<close> are the strict order, the order and the
  equality of one linear order on positions, and \<open>compare\<close>, which first narrows its arguments
  to 32 bits, agrees with that order for every position that fits.
\<close>

theorem Position_order_agrees:
  assumes "position_int32 a" and "position_int32 b"
  shows "Position_isBefore a b \<longleftrightarrow> a < b"
    and "Position_isBeforeOrEqual a b \<longleftrightarrow> a \<le> b"
    and "Position_equals (Some a) (Some b) \<longleftrightarrow> a = b"
    and "Position_compare a b < 0 \<longleftrightarrow> a < b"
    and "Position_compare a b = 0 \<longleftrightarrow> a = b"
  using assms toInt32_id[of "lineNumber a"] toInt32_id[of "lineNumber b"]
    toInt32_id[of "column a"] toInt32_id[of "column b"]
  by (auto simp: Position_isBefore_def Position_isBeforeOrEqual_def Position_equals_def
      Position_compare_def Let_def position_int32_def position_simps)

theorem Position_order_agrees_witness:
  "Position_compare (Position_new 3 7) (Position_new 4 1) < 0"
proof -
  have "position_int32 (Position_new 3 7)" "position_int32 (Position_new 4 1)"
    by (simp_all add: position_int32_def)
  from Position_order_agrees(4)[OF this] show ?thesis by (simp add: position_simps)
qed

text \<open>
  Outside that range the narrowing is visible: a line number of \<open>2 ^ 32 + 1\<close> compares equal to
  line 1.
\<close>

lemma Position_compare_wraps:
  "Position_compare (Position_new (2 ^ 32 + 1) 5) (Position_new 1 5) = 0"
  by (simp add: Position_compare_def toInt32_def)

lemma Position_delta_valid:
  "1 \<le> lineNumber (Position_delta p dl dc) \<and> 1 \<le> column (Position_delta p dl dc)"
  by (simp add: Position_delta_def Position_with_sel)

end
