(* ===== verification/TextRange.thy ===== *)
theory TextRange
  imports Position
begin

text \<open>
  \<^verbatim>\<open>src/vs/editor/common/core/range.ts\<close>: the class \<open>Range\<close>, a pair of positions that the
  constructor keeps in order. One record stands for the interface \<open>IRange\<close>, whose values
  need not be ordered, and the class \<open>Range\<close>, whose values are (\<open>range_wf\<close>).
  An instance method that only calls the static method of the same name is that definition.
  \<open>toString\<close> and the runtime type test \<open>isIRange\<close> are not modelled.
\<close>

named_theorems range_simps \<open>range operations as conditions on line numbers and columns\<close>

record range =
  startLineNumber :: int
  startColumn :: int
  endLineNumber :: int
  endColumn :: int

definition Range_new :: "int \<Rightarrow> int \<Rightarrow> int \<Rightarrow> int \<Rightarrow> range" where
  "Range_new sl sc el ec =
     (if sl > el \<or> (sl = el \<and> sc > ec)
      then \<lparr>startLineNumber = el, startColumn = ec, endLineNumber = sl, endColumn = sc\<rparr>
      else \<lparr>startLineNumber = sl, startColumn = sc, endLineNumber = el, endColumn = ec\<rparr>)"

definition Range_isEmpty :: "range \<Rightarrow> bool" where
  "Range_isEmpty r \<longleftrightarrow> startLineNumber r = endLineNumber r \<and> startColumn r = endColumn r"

definition Range_containsPosition :: "range \<Rightarrow> position \<Rightarrow> bool" where
  "Range_containsPosition r p =
     (if lineNumber p < startLineNumber r \<or> lineNumber p > endLineNumber r then False
      else if lineNumber p = startLineNumber r \<and> column p < startColumn r then False
      else if lineNumber p = endLineNumber r \<and> column p > endColumn r then False
      else True)"

definition Range_strictContainsPosition :: "range \<Rightarrow> position \<Rightarrow> bool" where
  "Range_strictContainsPosition r p =
     (if lineNumber p < startLineNumber r \<or> lineNumber p > endLineNumber r then False
      else if lineNumber p = startLineNumber r \<and> column p \<le> startColumn r then False
      else if lineNumber p = endLineNumber r \<and> column p \<ge> endColumn r then False
      else True)"

definition Range_containsRange :: "range \<Rightarrow> range \<Rightarrow> bool" where
  "Range_containsRange r other =
     (if startLineNumber other < startLineNumber r \<or> endLineNumber other < startLineNumber r then False
      else if startLineNumber other > endLineNumber r \<or> endLineNumber other > endLineNumber r then False
      else if startLineNumber other = startLineNumber r \<and> startColumn other < startColumn r then False
      else if endLineNumber other = endLineNumber r \<and> endColumn other > endColumn r then False
      else True)"

definition Range_strictContainsRange :: "range \<Rightarrow> range \<Rightarrow> bool" where
  "Range_strictContainsRange r other =
     (if startLineNumber other < startLineNumber r \<or> endLineNumber other < startLineNumber r then False
      else if startLineNumber other > endLineNumber r \<or> endLineNumber other > endLineNumber r then False
      else if startLineNumber other = startLineNumber r \<and> startColumn other \<le> startColumn r then False
      else if endLineNumber other = endLineNumber r \<and> endColumn other \<ge> endColumn r then False
      else True)"

definition Range_plusRange :: "range \<Rightarrow> range \<Rightarrow> range" where
  "Range_plusRange a b =
     (let (sl, sc) =
            (if startLineNumber b < startLineNumber a then (startLineNumber b, startColumn b)
             else if startLineNumber b = startLineNumber a
             then (startLineNumber b, min (startColumn b) (startColumn a))
             else (startLineNumber a, startColumn a));
          (el, ec) =
            (if endLineNumber b > endLineNumber a then (endLineNumber b, endColumn b)
             else if endLineNumber b = endLineNumber a
             then (endLineNumber b, max (endColumn b) (endColumn a))
             else (endLineNumber a, endColumn a))
      in Range_new sl sc el ec)"

definition Range_intersectRanges :: "range \<Rightarrow> range \<Rightarrow> range option" where
  "Range_intersectRanges a b =
     (let (sl, sc) =
            (if startLineNumber a < startLineNumber b then (startLineNumber b, startColumn b)
             else if startLineNumber a = startLineNumber b
             then (startLineNumber a, max (startColumn a) (startColumn b))
             else (startLineNumber a, startColumn a));
          (el, ec) =
            (if endLineNumber a > endLineNumber b then (endLineNumber b, endColumn b)
             else if endLineNumber a = endLineNumber b
             then (endLineNumber a, min (endColumn a) (endColumn b))
             else (endLineNumber a, endColumn a))
      in if sl > el then None
         else if sl = el \<and> sc > ec then None
         else Some (Range_new sl sc el ec))"

definition Range_equalsRange :: "range option \<Rightarrow> range option \<Rightarrow> bool" where
  "Range_equalsRange a b =
     (case (a, b) of
        (None, None) \<Rightarrow> True
      | (Some r, Some s) \<Rightarrow>
          startLineNumber r = startLineNumber s \<and> startColumn r = startColumn s \<and>
          endLineNumber r = endLineNumber s \<and> endColumn r = endColumn s
      | _ \<Rightarrow> False)"

definition Range_getEndPosition :: "range \<Rightarrow> position" where
  "Range_getEndPosition r = Position_new (endLineNumber r) (endColumn r)"

definition Range_getStartPosition :: "range \<Rightarrow> position" where
  "Range_getStartPosition r = Position_new (startLineNumber r) (startColumn r)"

definition Range_setEndPosition :: "range \<Rightarrow> int \<Rightarrow> int \<Rightarrow> range" where
  "Range_setEndPosition this el ec = Range_new (startLineNumber this) (startColumn this) el ec"

definition Range_setStartPosition :: "range \<Rightarrow> int \<Rightarrow> int \<Rightarrow> range" where
  "Range_setStartPosition this sl sc = Range_new sl sc (endLineNumber this) (endColumn this)"

definition Range_collapseToStart :: "range \<Rightarrow> range" where
  "Range_collapseToStart r =
     Range_new (startLineNumber r) (startColumn r) (startLineNumber r) (startColumn r)"

definition Range_collapseToEnd :: "range \<Rightarrow> range" where
  "Range_collapseToEnd r =
     Range_new (endLineNumber r) (endColumn r) (endLineNumber r) (endColumn r)"

definition Range_delta :: "range \<Rightarrow> int \<Rightarrow> range" where
  "Range_delta this lineCount =
     Range_new (startLineNumber this + lineCount) (startColumn this)
       (endLineNumber this + lineCount) (endColumn this)"

definition Range_isSingleLine :: "range \<Rightarrow> bool" where
  "Range_isSingleLine this \<longleftrightarrow> startLineNumber this = endLineNumber this"

text \<open>\<open>end\<close> defaults to \<open>start\<close>.\<close>

definition Range_fromPositions :: "position \<Rightarrow> position option \<Rightarrow> range" where
  "Range_fromPositions start endPos =
     (let e = (case endPos of None \<Rightarrow> start | Some e \<Rightarrow> e)
      in Range_new (lineNumber start) (column start) (lineNumber e) (column e))"

definition Range_lift :: "range option \<Rightarrow> range option" where
  "Range_lift r =
     (case r of None \<Rightarrow> None
      | Some r \<Rightarrow> Some (Range_new (startLineNumber r) (startColumn r) (endLineNumber r) (endColumn r)))"

definition Range_areIntersectingOrTouching :: "range \<Rightarrow> range \<Rightarrow> bool" where
  "Range_areIntersectingOrTouching a b =
     (if endLineNumber a < startLineNumber b \<or>
         (endLineNumber a = startLineNumber b \<and> endColumn a < startColumn b) then False
      else if endLineNumber b < startLineNumber a \<or>
         (endLineNumber b = startLineNumber a \<and> endColumn b < startColumn a) then False
      else True)"

definition Range_areIntersecting :: "range \<Rightarrow> range \<Rightarrow> bool" where
  "Range_areIntersecting a b =
     (if endLineNumber a < startLineNumber b \<or>
         (endLineNumber a = startLineNumber b \<and> endColumn a \<le> startColumn b) then False
      else if endLineNumber b < startLineNumber a \<or>
         (endLineNumber b = startLineNumber a \<and> endColumn b \<le> startColumn a) then False
      else True)"

definition Range_areOnlyIntersecting :: "range \<Rightarrow> range \<Rightarrow> bool" where
  "Range_areOnlyIntersecting a b =
     (if endLineNumber a < startLineNumber b - 1 \<or>
         (endLineNumber a = startLineNumber b \<and> endColumn a < startColumn b - 1) then False
      else if endLineNumber b < startLineNumber a - 1 \<or>
         (endLineNumber b = startLineNumber a \<and> endColumn b < startColumn a - 1) then False
      else True)"

definition Range_compareRangesUsingStarts :: "range option \<Rightarrow> range option \<Rightarrow> int" where
  "Range_compareRangesUsingStarts a b =
     (case (a, b) of
        (Some a, Some b) \<Rightarrow>
          (if toInt32 (startLineNumber a) = toInt32 (startLineNumber b)
           then (if toInt32 (startColumn a) = toInt32 (startColumn b)
                 then (if toInt32 (endLineNumber a) = toInt32 (endLineNumber b)
                       then toInt32 (endColumn a) - toInt32 (endColumn b)
                       else toInt32 (endLineNumber a) - toInt32 (endLineNumber b))
                 else toInt32 (startColumn a) - toInt32 (startColumn b))
           else toInt32 (startLineNumber a) - toInt32 (startLineNumber b))
      | _ \<Rightarrow> (case a of None \<Rightarrow> 0 | Some _ \<Rightarrow> 1) - (case b of None \<Rightarrow> 0 | Some _ \<Rightarrow> 1))"

definition Range_compareRangesUsingEnds :: "range \<Rightarrow> range \<Rightarrow> int" where
  "Range_compareRangesUsingEnds a b =
     (if endLineNumber a = endLineNumber b
      then (if endColumn a = endColumn b
            then (if startLineNumber a = startLineNumber b
                  then startColumn a - startColumn b
                  else startLineNumber a - startLineNumber b)
            else endColumn a - endColumn b)
      else endLineNumber a - endLineNumber b)"

definition Range_spansMultipleLines :: "range \<Rightarrow> bool" where
  "Range_spansMultipleLines r \<longleftrightarrow> endLineNumber r > startLineNumber r"

subsection \<open>The class invariant\<close>

abbreviation rstart :: "range \<Rightarrow> position" where "rstart \<equiv> Range_getStartPosition"
abbreviation rend :: "range \<Rightarrow> position" where "rend \<equiv> Range_getEndPosition"

definition range_wf :: "range \<Rightarrow> bool" where
  "range_wf r \<longleftrightarrow> rstart r \<le> rend r"

lemma range_wf_iff [range_simps]:
  "range_wf r \<longleftrightarrow> startLineNumber r < endLineNumber r \<or>
     (startLineNumber r = endLineNumber r \<and> startColumn r \<le> endColumn r)"
  by (simp add: range_wf_def position_simps Range_getStartPosition_def Range_getEndPosition_def)

lemma range_ends [position_simps]:
  "lineNumber (rstart r) = startLineNumber r" "column (rstart r) = startColumn r"
  "lineNumber (rend r) = endLineNumber r" "column (rend r) = endColumn r"
  by (auto simp: Range_getStartPosition_def Range_getEndPosition_def)

lemma range_eqI: "rstart a = rstart b \<Longrightarrow> rend a = rend b \<Longrightarrow> (a :: range) = b"
  by (cases a; cases b) (simp add: position_simps)

text \<open>The constructor takes its two positions in either order.\<close>

lemma Range_new_ends:
  "rstart (Range_new sl sc el ec) = min (Position_new sl sc) (Position_new el ec)"
  "rend (Range_new sl sc el ec) = max (Position_new sl sc) (Position_new el ec)"
  by (auto simp: Range_new_def min_def max_def position_simps Range_getStartPosition_def
      Range_getEndPosition_def)

lemma Range_new_wf [simp]: "range_wf (Range_new sl sc el ec)"
  by (auto simp: range_wf_iff Range_new_def)

lemma Range_new_id:
  "range_wf r \<Longrightarrow> Range_new (startLineNumber r) (startColumn r) (endLineNumber r) (endColumn r) = r"
  by (auto simp: range_simps Range_new_def)

text \<open>Membership and containment are the order on positions.\<close>

lemma containsPosition_iff:
  "Range_containsPosition r p \<longleftrightarrow> rstart r \<le> p \<and> p \<le> rend r"
  by (auto simp: Range_containsPosition_def position_simps)

lemma strictContainsPosition_iff:
  "Range_strictContainsPosition r p \<longleftrightarrow> rstart r < p \<and> p < rend r"
  by (auto simp: Range_strictContainsPosition_def position_simps)

lemma containsRange_iff:
  "range_wf other \<Longrightarrow> Range_containsRange r other \<longleftrightarrow> rstart r \<le> rstart other \<and> rend other \<le> rend r"
  by (auto simp: Range_containsRange_def position_simps range_simps)

lemma strictContainsRange_iff:
  "range_wf other \<Longrightarrow> Range_strictContainsRange r other \<longleftrightarrow> rstart r < rstart other \<and> rend other < rend r"
  by (auto simp: Range_strictContainsRange_def position_simps range_simps)

lemma Range_new_of_le:
  "Position_new sl sc \<le> Position_new el ec \<Longrightarrow>
   Range_new sl sc el ec = \<lparr>startLineNumber = sl, startColumn = sc, endLineNumber = el, endColumn = ec\<rparr>"
  by (auto simp: Range_new_def position_simps)

text \<open>The case analyses on line numbers and columns pick the smaller or the larger position.\<close>

lemma pick_min:
  "(if l2 < l1 then (l2, c2) else if l2 = l1 then (l2, min c2 c1) else (l1, c1)) =
   (lineNumber (min (Position_new l1 c1) (Position_new l2 c2)),
    column (min (Position_new l1 c1) (Position_new l2 c2)))"
  by (simp add: min_def position_simps)

lemma pick_max:
  "(if l2 > l1 then (l2, c2) else if l2 = l1 then (l2, max c2 c1) else (l1, c1)) =
   (lineNumber (max (Position_new l1 c1) (Position_new l2 c2)),
    column (max (Position_new l1 c1) (Position_new l2 c2)))"
  by (simp add: max_def position_simps)

lemma Position_new_sels [simp]: "Position_new (lineNumber p) (column p) = p"
  by (simp add: position_simps)

lemma plusRange_eq:
  "Range_plusRange a b =
    (let s = min (rstart a) (rstart b); e = max (rend a) (rend b)
     in Range_new (lineNumber s) (column s) (lineNumber e) (column e))"
  by (simp add: Range_plusRange_def pick_min pick_max Let_def
      Range_getStartPosition_def Range_getEndPosition_def)

lemma intersectRanges_eq:
  "Range_intersectRanges a b =
    (let s = max (rstart a) (rstart b); e = min (rend a) (rend b)
     in if s \<le> e then Some (Range_new (lineNumber s) (column s) (lineNumber e) (column e)) else None)"
proof -
  have max: "(if startLineNumber a < startLineNumber b then (startLineNumber b, startColumn b)
      else if startLineNumber a = startLineNumber b
      then (startLineNumber a, max (startColumn a) (startColumn b))
      else (startLineNumber a, startColumn a)) =
      (lineNumber (max (rstart a) (rstart b)), column (max (rstart a) (rstart b)))"
    by (simp add: max_def position_simps)
  have min: "(if endLineNumber a > endLineNumber b then (endLineNumber b, endColumn b)
      else if endLineNumber a = endLineNumber b
      then (endLineNumber a, min (endColumn a) (endColumn b))
      else (endLineNumber a, endColumn a)) =
      (lineNumber (min (rend a) (rend b)), column (min (rend a) (rend b)))"
    by (simp add: min_def position_simps)
  show ?thesis
    unfolding Range_intersectRanges_def max min Let_def prod.case
    by (simp add: position_le_iff not_less)
qed

lemma Range_of_ends:
  assumes "s \<le> e"
  shows "rstart (Range_new (lineNumber s) (column s) (lineNumber e) (column e)) = s"
    and "rend (Range_new (lineNumber s) (column s) (lineNumber e) (column e)) = e"
  using assms by (simp_all add: Range_new_ends min_def max_def)

lemma plusRange_ends:
  assumes "range_wf a" "range_wf b"
  shows "rstart (Range_plusRange a b) = min (rstart a) (rstart b)"
    and "rend (Range_plusRange a b) = max (rend a) (rend b)"
proof -
  have "min (rstart a) (rstart b) \<le> max (rend a) (rend b)"
    using assms by (simp add: range_wf_def min.coboundedI1 le_max_iff_disj)
  from Range_of_ends[OF this]
  show "rstart (Range_plusRange a b) = min (rstart a) (rstart b)"
    and "rend (Range_plusRange a b) = max (rend a) (rend b)"
    by (simp_all add: plusRange_eq Let_def)
qed

lemma areIntersectingOrTouching_iff:
  "Range_areIntersectingOrTouching a b \<longleftrightarrow> rstart b \<le> rend a \<and> rstart a \<le> rend b"
  by (auto simp: Range_areIntersectingOrTouching_def position_simps)

lemma areIntersecting_iff:
  "Range_areIntersecting a b \<longleftrightarrow> rstart b < rend a \<and> rstart a < rend b"
  by (auto simp: Range_areIntersecting_def position_simps)

interpretation range_ends_cmp: comparator Range_compareRangesUsingEnds
  by unfold_locales (auto simp: Range_compareRangesUsingEnds_def sgn_if split: if_splits)

text \<open>
  \<open>compareRangesUsingStarts\<close> is four 32-bit number comparators tried in turn, with a missing
  range before every range.
\<close>

lemma compareRangesUsingStarts_eq:
  "Range_compareRangesUsingStarts =
   compareUndefinedSmallest (tieBreakComparators
     [compareBy (\<lambda>r. toInt32 (startLineNumber r)) numberComparator,
      compareBy (\<lambda>r. toInt32 (startColumn r)) numberComparator,
      compareBy (\<lambda>r. toInt32 (endLineNumber r)) numberComparator,
      compareBy (\<lambda>r. toInt32 (endColumn r)) numberComparator])"
  by (intro ext)
    (simp add: Range_compareRangesUsingStarts_def compareUndefinedSmallest_def compareBy_def
      numberComparator_def CompareResult_isNeitherLessOrGreaterThan_def Let_def split: option.split)

interpretation range_starts_cmp: comparator Range_compareRangesUsingStarts
  unfolding compareRangesUsingStarts_eq
  by (intro comparator_compareUndefinedSmallest comparator_tieBreakComparators ballI)
     (auto intro: comparator_compareBy number_cmp.comparator_axioms)

subsection \<open>Properties\<close>

text \<open>
  For ordered ranges, \<open>intersectRanges\<close> returns exactly the positions that both ranges
  contain, as an ordered range; it returns \<open>null\<close> precisely when \<open>areIntersectingOrTouching\<close> is
  false, that is when no position is in both.
\<close>

theorem intersectRanges_is_intersection:
  assumes "range_wf a" and "range_wf b"
  shows "(case Range_intersectRanges a b of
            None \<Rightarrow> \<not> Range_areIntersectingOrTouching a b \<and>
                    (\<forall>p. \<not> (Range_containsPosition a p \<and> Range_containsPosition b p))
          | Some r \<Rightarrow> range_wf r \<and> Range_areIntersectingOrTouching a b \<and>
                    (\<forall>p. Range_containsPosition r p \<longleftrightarrow>
                         Range_containsPosition a p \<and> Range_containsPosition b p))"
proof (cases "max (rstart a) (rstart b) \<le> min (rend a) (rend b)")
  case True
  from Range_of_ends[OF True] True show ?thesis
    by (simp add: intersectRanges_eq containsPosition_iff areIntersectingOrTouching_iff Let_def) auto
next
  case False
  have "\<not> (rstart b \<le> rend a \<and> rstart a \<le> rend b)" using False assms by (auto simp: range_wf_def)
  with False show ?thesis
    by (auto simp: intersectRanges_eq containsPosition_iff areIntersectingOrTouching_iff Let_def)
qed

theorem intersectRanges_is_intersection_witness:
  "Range_intersectRanges (Range_new 1 1 3 4) (Range_new 2 5 9 1) = Some (Range_new 2 5 3 4) \<and>
   Range_areIntersectingOrTouching (Range_new 1 1 3 4) (Range_new 2 5 9 1)"
proof -
  have r: "Range_intersectRanges (Range_new 1 1 3 4) (Range_new 2 5 9 1) = Some (Range_new 2 5 3 4)"
    by (simp add: Range_intersectRanges_def Range_new_def)
  show ?thesis
    using intersectRanges_is_intersection[OF Range_new_wf[of 1 1 3 4] Range_new_wf[of 2 5 9 1]]
    by (simp add: r)
qed

text \<open>
  \<open>plusRange\<close> is the least upper bound of two ordered ranges under \<open>containsRange\<close>: it
  contains both, and every range that contains both contains it. \<open>containsRange\<close> itself is
  inclusion of the sets of positions.
\<close>

theorem plusRange_is_least_upper_bound:
  assumes "range_wf a" and "range_wf b"
  shows "Range_containsRange (Range_plusRange a b) a" and "Range_containsRange (Range_plusRange a b) b"
    and "Range_containsRange c a \<Longrightarrow> Range_containsRange c b \<Longrightarrow> Range_containsRange c (Range_plusRange a b)"
    and "Range_containsRange c a \<longleftrightarrow> (\<forall>p. Range_containsPosition a p \<longrightarrow> Range_containsPosition c p)"
proof -
  have wf: "range_wf (Range_plusRange a b)" by (simp add: plusRange_eq Let_def)
  show "Range_containsRange (Range_plusRange a b) a" "Range_containsRange (Range_plusRange a b) b"
    using assms by (simp_all add: containsRange_iff plusRange_ends)
  show "Range_containsRange c (Range_plusRange a b)"
    if "Range_containsRange c a" "Range_containsRange c b"
    using that assms by (simp add: containsRange_iff[OF wf] containsRange_iff plusRange_ends)
  show "Range_containsRange c a \<longleftrightarrow> (\<forall>p. Range_containsPosition a p \<longrightarrow> Range_containsPosition c p)"
    using assms by (auto simp: containsRange_iff containsPosition_iff range_wf_def)
qed

theorem plusRange_is_least_upper_bound_witness:
  "Range_containsRange (Range_plusRange (Range_new 2 1 2 9) (Range_new 4 1 4 2)) (Range_new 2 1 2 9) \<and>
   Range_containsRange (Range_new 1 1 9 9) (Range_plusRange (Range_new 2 1 2 9) (Range_new 4 1 4 2))"
proof -
  have w: "range_wf (Range_new 2 1 2 9)" "range_wf (Range_new 4 1 4 2)" by simp_all
  have c: "Range_containsRange (Range_new 1 1 9 9) (Range_new 2 1 2 9)"
    "Range_containsRange (Range_new 1 1 9 9) (Range_new 4 1 4 2)"
    by (simp_all add: Range_containsRange_def Range_new_def)
  from plusRange_is_least_upper_bound(1)[OF w] plusRange_is_least_upper_bound(3)[OF w c]
  show ?thesis by simp
qed

text \<open>
  Two ordered ranges of which one ends where the other starts touch, so
  \<open>areIntersectingOrTouching\<close> and \<open>areOnlyIntersecting\<close> hold and \<open>areIntersecting\<close> does not;
  \<open>areIntersecting\<close> holds exactly when each range starts strictly before the other ends.
  (The comment on \<open>areIntersecting\<close> says it returns true for touching ranges, the one on
  \<open>areOnlyIntersecting\<close> that the ranges do not touch at all.)
\<close>

theorem touching_ranges:
  assumes "range_wf a" and "range_wf b" and "rend a = rstart b"
  shows "Range_areIntersectingOrTouching a b" and "Range_areOnlyIntersecting a b"
    and "\<not> Range_areIntersecting a b"
    and "Range_areIntersecting a c \<longleftrightarrow> rstart c < rend a \<and> rstart a < rend c"
proof -
  have eqs: "endLineNumber a = startLineNumber b" "endColumn a = startColumn b"
    using assms(3) by (simp_all add: position_simps)
  show "Range_areOnlyIntersecting a b"
    using assms(1,2) unfolding Range_areOnlyIntersecting_def range_wf_iff eqs if_bool_eq_disj by auto
  have "rstart a \<le> rstart b" "rstart b \<le> rend b" using assms by (simp_all add: range_wf_def)
  then show "Range_areIntersectingOrTouching a b" "\<not> Range_areIntersecting a b"
    unfolding areIntersectingOrTouching_iff areIntersecting_iff assms(3) by auto
qed (rule areIntersecting_iff)

theorem touching_ranges_witness:
  "\<not> Range_areIntersecting (Range_new 1 1 2 4) (Range_new 2 4 3 1) \<and>
   Range_areOnlyIntersecting (Range_new 1 1 2 4) (Range_new 2 4 3 1)"
proof -
  have "rend (Range_new 1 1 2 4) = rstart (Range_new 2 4 3 1)"
    by (simp add: Range_new_def Range_getStartPosition_def Range_getEndPosition_def)
  from touching_ranges(2,3)[OF Range_new_wf Range_new_wf this] show ?thesis by simp
qed

end
