(* ===== verification/TextSelection.thy ===== *)
theory TextSelection
  imports TextRange
begin

text \<open>
  \<^verbatim>\<open>src/vs/editor/common/core/selection.ts\<close>: \<open>Selection extends Range\<close>, a range with an
  orientation. The record extends the record of ranges as the class extends the class:
  the constructor stores the ordered range and, beside it, the two positions as given.
\<close>

datatype SelectionDirection = LTR | RTL

record selection = range +
  selectionStartLineNumber :: int
  selectionStartColumn :: int
  positionLineNumber :: int
  positionColumn :: int

text \<open>The range part of a selection.\<close>

definition sel_range :: "selection \<Rightarrow> range" where
  "sel_range s = range.truncate s"

definition Selection_new :: "int \<Rightarrow> int \<Rightarrow> int \<Rightarrow> int \<Rightarrow> selection" where
  "Selection_new sl sc pl pc =
     range.extend (Range_new sl sc pl pc)
       \<lparr>selectionStartLineNumber = sl, selectionStartColumn = sc,
        positionLineNumber = pl, positionColumn = pc\<rparr>"

definition Selection_selectionsEqual :: "selection \<Rightarrow> selection \<Rightarrow> bool" where
  "Selection_selectionsEqual a b \<longleftrightarrow>
     selectionStartLineNumber a = selectionStartLineNumber b \<and>
     selectionStartColumn a = selectionStartColumn b \<and>
     positionLineNumber a = positionLineNumber b \<and>
     positionColumn a = positionColumn b"

definition Selection_getDirection :: "selection \<Rightarrow> SelectionDirection" where
  "Selection_getDirection this =
     (if selectionStartLineNumber this = startLineNumber this \<and>
         selectionStartColumn this = startColumn this then LTR else RTL)"

definition Selection_setEndPosition :: "selection \<Rightarrow> int \<Rightarrow> int \<Rightarrow> selection" where
  "Selection_setEndPosition this el ec =
     (if Selection_getDirection this = LTR
      then Selection_new (startLineNumber this) (startColumn this) el ec
      else Selection_new el ec (startLineNumber this) (startColumn this))"

definition Selection_getPosition :: "selection \<Rightarrow> position" where
  "Selection_getPosition this = Position_new (positionLineNumber this) (positionColumn this)"

definition Selection_getSelectionStart :: "selection \<Rightarrow> position" where
  "Selection_getSelectionStart this =
     Position_new (selectionStartLineNumber this) (selectionStartColumn this)"

definition Selection_setStartPosition :: "selection \<Rightarrow> int \<Rightarrow> int \<Rightarrow> selection" where
  "Selection_setStartPosition this sl sc =
     (if Selection_getDirection this = LTR
      then Selection_new sl sc (endLineNumber this) (endColumn this)
      else Selection_new (endLineNumber this) (endColumn this) sl sc)"

definition Selection_fromPositions :: "position \<Rightarrow> position option \<Rightarrow> selection" where
  "Selection_fromPositions start endPos =
     (let e = (case endPos of None \<Rightarrow> start | Some e \<Rightarrow> e)
      in Selection_new (lineNumber start) (column start) (lineNumber e) (column e))"

definition Selection_fromRange :: "range \<Rightarrow> SelectionDirection \<Rightarrow> selection" where
  "Selection_fromRange r direction =
     (if direction = LTR
      then Selection_new (startLineNumber r) (startColumn r) (endLineNumber r) (endColumn r)
      else Selection_new (endLineNumber r) (endColumn r) (startLineNumber r) (startColumn r))"

definition Selection_liftSelection :: "selection \<Rightarrow> selection" where
  "Selection_liftSelection sel =
     Selection_new (selectionStartLineNumber sel) (selectionStartColumn sel)
       (positionLineNumber sel) (positionColumn sel)"

text \<open>\<open>None\<close> is a missing array.\<close>

fun selectionsArrEqual_loop :: "selection list \<Rightarrow> selection list \<Rightarrow> bool" where
  "selectionsArrEqual_loop (x # xs) (y # ys) =
     (if \<not> Selection_selectionsEqual x y then False else selectionsArrEqual_loop xs ys)"
| "selectionsArrEqual_loop _ _ = True"

definition Selection_selectionsArrEqual :: "selection list option \<Rightarrow> selection list option \<Rightarrow> bool" where
  "Selection_selectionsArrEqual a b =
     (case (a, b) of
        (Some _, None) \<Rightarrow> False
      | (None, Some _) \<Rightarrow> False
      | (None, None) \<Rightarrow> True
      | (Some xs, Some ys) \<Rightarrow>
          if length xs \<noteq> length ys then False else selectionsArrEqual_loop xs ys)"

definition Selection_createWithDirection ::
    "int \<Rightarrow> int \<Rightarrow> int \<Rightarrow> int \<Rightarrow> SelectionDirection \<Rightarrow> selection" where
  "Selection_createWithDirection sl sc el ec direction =
     (if direction = LTR then Selection_new sl sc el ec else Selection_new el ec sl sc)"

subsection \<open>The class invariant\<close>

text \<open>
  A value of the class: its range part is the ordered range of its two positions.
\<close>

definition selection_wf :: "selection \<Rightarrow> bool" where
  "selection_wf s \<longleftrightarrow> sel_range s =
     Range_new (selectionStartLineNumber s) (selectionStartColumn s)
       (positionLineNumber s) (positionColumn s)"

lemma Selection_new_sels [simp]:
  "selectionStartLineNumber (Selection_new sl sc pl pc) = sl"
  "selectionStartColumn (Selection_new sl sc pl pc) = sc"
  "positionLineNumber (Selection_new sl sc pl pc) = pl"
  "positionColumn (Selection_new sl sc pl pc) = pc"
  "sel_range (Selection_new sl sc pl pc) = Range_new sl sc pl pc"
  by (simp_all add: Selection_new_def sel_range_def range.defs)

lemma sel_range_sels [simp]:
  "startLineNumber (sel_range s) = startLineNumber s" "startColumn (sel_range s) = startColumn s"
  "endLineNumber (sel_range s) = endLineNumber s" "endColumn (sel_range s) = endColumn s"
  by (simp_all add: sel_range_def range.defs)

lemma Selection_new_range_sels:
  "startLineNumber (Selection_new sl sc pl pc) = startLineNumber (Range_new sl sc pl pc)"
  "startColumn (Selection_new sl sc pl pc) = startColumn (Range_new sl sc pl pc)"
  "endLineNumber (Selection_new sl sc pl pc) = endLineNumber (Range_new sl sc pl pc)"
  "endColumn (Selection_new sl sc pl pc) = endColumn (Range_new sl sc pl pc)"
  by (simp_all flip: sel_range_sels)

lemma Selection_new_wf [simp]: "selection_wf (Selection_new sl sc pl pc)"
  by (simp add: selection_wf_def)

lemma getDirection_new:
  "Selection_getDirection (Selection_new sl sc pl pc) =
     (if Position_new sl sc \<le> Position_new pl pc then LTR else RTL)"
  by (auto simp: Selection_getDirection_def Selection_new_range_sels Range_new_def position_simps)

lemma selection_eqI:
  assumes "selection_wf s" "selection_wf t" "Selection_selectionsEqual s t"
  shows "s = t"
proof -
  have "sel_range s = sel_range t"
    using assms by (simp add: selection_wf_def Selection_selectionsEqual_def)
  then have "startLineNumber s = startLineNumber t" "startColumn s = startColumn t"
    "endLineNumber s = endLineNumber t" "endColumn s = endColumn t"
    by (metis sel_range_sels)+
  then show ?thesis
    using assms(3) by (cases s; cases t) (simp add: Selection_selectionsEqual_def)
qed

lemma selectionsArrEqual_loop_iff:
  "length xs = length ys \<Longrightarrow>
   selectionsArrEqual_loop xs ys \<longleftrightarrow> list_all2 Selection_selectionsEqual xs ys"
  by (induction xs ys rule: list_induct2) auto

subsection \<open>Properties\<close>

text \<open>
  A selection and its range with a direction determine each other: building a selection from
  an ordered range and a direction keeps the range, gives back the direction unless the range is
  empty (an empty selection is LTR), and rebuilding any selection from its range part and its
  direction returns it.
\<close>

theorem selection_range_direction_roundtrip:
  assumes "range_wf r" and "selection_wf s"
  shows "sel_range (Selection_fromRange r d) = r \<and>
    Selection_getDirection (Selection_fromRange r d) = (if Range_isEmpty r then LTR else d) \<and>
    Selection_fromRange (sel_range s) (Selection_getDirection s) = s"
proof (intro conjI)
  show "sel_range (Selection_fromRange r d) = r"
    using assms(1) by (auto simp: Selection_fromRange_def Range_new_def range_simps)
  show "Selection_getDirection (Selection_fromRange r d) = (if Range_isEmpty r then LTR else d)"
    using assms(1)
    by (cases d) (auto simp: Selection_fromRange_def getDirection_new range_simps Range_isEmpty_def position_simps)
  show "Selection_fromRange (sel_range s) (Selection_getDirection s) = s"
  proof (rule selection_eqI)
    let ?sl = "selectionStartLineNumber s" and ?sc = "selectionStartColumn s"
    let ?r = "Range_new ?sl ?sc (positionLineNumber s) (positionColumn s)"
    have r: "startLineNumber s = startLineNumber ?r" "startColumn s = startColumn ?r"
      "endLineNumber s = endLineNumber ?r" "endColumn s = endColumn ?r"
      using assms(2) unfolding selection_wf_def by (metis sel_range_sels)+
    show "Selection_selectionsEqual (Selection_fromRange (sel_range s) (Selection_getDirection s)) s"
      by (auto simp: Selection_selectionsEqual_def Selection_fromRange_def Selection_getDirection_def
          r Range_new_def split: if_splits)
  qed (auto simp: assms Selection_fromRange_def)
qed

theorem selection_range_direction_roundtrip_witness:
  "Selection_getDirection (Selection_fromRange (Range_new 1 2 3 4) RTL) = RTL \<and>
   Selection_fromRange (sel_range (Selection_new 5 1 2 1)) (Selection_getDirection (Selection_new 5 1 2 1)) =
     Selection_new 5 1 2 1"
proof -
  have ne: "\<not> Range_isEmpty (Range_new 1 2 3 4)" by (simp add: Range_isEmpty_def Range_new_def)
  show ?thesis
    using selection_range_direction_roundtrip[OF Range_new_wf[of 1 2 3 4] Selection_new_wf[of 5 1 2 1], of RTL] ne
    by simp
qed

end
