(* ===== verification/IntervalSets.thy ===== *)
theory IntervalSets
  imports Prelude
begin

text \<open>
  What \<open>OffsetRangeSet\<close> and \<open>LineRangeSet\<close> have in common: a list of half-open intervals that
  is sorted and in which no two intervals touch, standing for a set of integers. The theory
  states that contract (the locale \<open>interval_set\<close>), proves once what follows from it, and
  gives the lemmas on such lists the two implementations need.
\<close>

named_theorems interval_simps \<open>normalized interval lists and the points they stand for\<close>

definition points :: "('r \<Rightarrow> int) \<Rightarrow> ('r \<Rightarrow> int) \<Rightarrow> 'r list \<Rightarrow> int set" where
  "points lo hi xs = (\<Union>r\<in>set xs. {lo r..<hi r})"

definition normalized :: "('r \<Rightarrow> int) \<Rightarrow> ('r \<Rightarrow> int) \<Rightarrow> 'r list \<Rightarrow> bool" where
  "normalized lo hi xs \<longleftrightarrow>
     (\<forall>r\<in>set xs. lo r \<le> hi r) \<and> sorted_wrt (\<lambda>a b. hi a < lo b) xs"

lemma points_simps [simp, interval_simps]:
  "points lo hi [] = {}"
  "points lo hi (r # xs) = {lo r..<hi r} \<union> points lo hi xs"
  "points lo hi (xs @ ys) = points lo hi xs \<union> points lo hi ys"
  by (auto simp: points_def)

lemma normalized_Nil [simp]: "normalized lo hi []"
  by (simp add: normalized_def)

lemma normalized_Cons [simp]:
  "normalized lo hi (r # xs) \<longleftrightarrow> lo r \<le> hi r \<and> (\<forall>b\<in>set xs. hi r < lo b) \<and> normalized lo hi xs"
  by (auto simp: normalized_def)

lemma normalized_append:
  "normalized lo hi (xs @ ys) \<longleftrightarrow>
   normalized lo hi xs \<and> normalized lo hi ys \<and> (\<forall>a\<in>set xs. \<forall>b\<in>set ys. hi a < lo b)"
  by (auto simp: normalized_def sorted_wrt_append)

lemma normalized_bounds:
  assumes "normalized lo hi B" "B \<noteq> []" "b \<in> set B"
  shows "lo (hd B) \<le> lo b \<and> hi b \<le> hi (last B)"
proof
  obtain x B' where "B = x # B'" using assms(2) by (cases B) auto
  then show "lo (hd B) \<le> lo b" using assms(1,3) by fastforce
  obtain z B'' where "B = B'' @ [z]" using assms(2) by (cases B rule: rev_cases) auto
  then show "hi b \<le> hi (last B)" using assms(1,3) by (fastforce simp: normalized_append)
qed

text \<open>
  Replacing the block of intervals that touch \<open>r\<close> by the hull of the block and \<open>r\<close>.
\<close>

lemma points_hull:
  assumes B: "normalized lo hi B" "B \<noteq> []" and r: "lo r \<le> hi r"
    and touch: "\<forall>b\<in>set B. lo r \<le> hi b \<and> lo b \<le> hi r"
  shows "{min (lo r) (lo (hd B))..<max (hi r) (hi (last B))} = {lo r..<hi r} \<union> points lo hi B"
proof
  show "{lo r..<hi r} \<union> points lo hi B \<subseteq> {min (lo r) (lo (hd B))..<max (hi r) (hi (last B))}"
    using normalized_bounds[OF B] by (fastforce simp: points_def)
  show "{min (lo r) (lo (hd B))..<max (hi r) (hi (last B))} \<subseteq> {lo r..<hi r} \<union> points lo hi B"
  proof
    fix x assume x: "x \<in> {min (lo r) (lo (hd B))..<max (hi r) (hi (last B))}"
    have "x \<in> {lo r..<hi r} \<or> x \<in> {lo (hd B)..<hi (hd B)} \<or> x \<in> {lo (last B)..<hi (last B)}"
      using x touch B(2) by (auto simp: min_def max_def split: if_splits) (meson hd_in_set last_in_set linorder_not_le order_trans order_less_le_trans)+
    then show "x \<in> {lo r..<hi r} \<union> points lo hi B"
      using B(2) by (auto simp: points_def)
  qed
qed

lemma merge_block:
  assumes "normalized lo hi (A @ B @ C)" "B \<noteq> []" "lo r \<le> hi r"
    and "\<forall>a\<in>set A. hi a < lo r" "\<forall>b\<in>set B. lo r \<le> hi b \<and> lo b \<le> hi r" "\<forall>c\<in>set C. hi r < lo c"
    and n: "lo n = min (lo r) (lo (hd B))" "hi n = max (hi r) (hi (last B))"
  shows "normalized lo hi (A @ [n] @ C)"
    and "points lo hi (A @ [n] @ C) = points lo hi (A @ B @ C) \<union> {lo r..<hi r}"
proof -
  have "hd B \<in> set B" "last B \<in> set B" using assms(2) by auto
  then show "normalized lo hi (A @ [n] @ C)"
    using assms by (auto simp: normalized_append)
  have "normalized lo hi B" using assms(1) by (simp add: normalized_append)
  from points_hull[OF this assms(2,3,5)] n
  show "points lo hi (A @ [n] @ C) = points lo hi (A @ B @ C) \<union> {lo r..<hi r}" by auto
qed

lemma insert_block:
  assumes "normalized lo hi (A @ C)" "lo r \<le> hi r"
    and "\<forall>a\<in>set A. hi a < lo r" "\<forall>c\<in>set C. hi r < lo c"
  shows "normalized lo hi (A @ [r] @ C)"
    and "points lo hi (A @ [r] @ C) = points lo hi (A @ C) \<union> {lo r..<hi r}"
  using assms by (auto simp: normalized_append)

text \<open>The three blocks of a normalized list relative to \<open>r\<close>: before, touching, after.\<close>

lemma takeWhile_dropWhile_blocks:
  fixes lo hi :: "'r \<Rightarrow> int" and l h :: int and xs :: "'r list"
  assumes "normalized lo hi xs"
  defines "A \<equiv> takeWhile (\<lambda>b. hi b < l) xs"
  defines "R \<equiv> dropWhile (\<lambda>b. hi b < l) xs"
  defines "B \<equiv> takeWhile (\<lambda>b. lo b \<le> h) R"
  defines "C \<equiv> dropWhile (\<lambda>b. lo b \<le> h) R"
  shows "xs = A @ B @ C" and "\<forall>a\<in>set A. hi a < l"
    and "\<forall>b\<in>set B. l \<le> hi b \<and> lo b \<le> h" and "\<forall>c\<in>set C. l \<le> hi c \<and> h < lo c"
proof -
  show xs: "xs = A @ B @ C" by (simp add: A_def B_def C_def R_def)
  show "\<forall>a\<in>set A. hi a < l" by (auto simp: A_def dest: set_takeWhileD)
  have nR: "normalized lo hi R"
    using assms(1) normalized_append[of lo hi A R] by (simp add: A_def R_def)
  have R: "\<forall>b\<in>set R. l \<le> hi b"
  proof (cases R)
    case (Cons x R')
    then have "\<not> hi x < l" using hd_dropWhile[of "\<lambda>b. hi b < l" xs] by (simp add: R_def)
    moreover have "hi x < lo b \<and> lo b \<le> hi b" if "b \<in> set R'" for b
      using nR Cons that by (simp add: normalized_def)
    ultimately show ?thesis using Cons by force
  qed simp
  have RBC: "R = B @ C" by (simp add: B_def C_def)
  have subs: "set B \<subseteq> set R" "set C \<subseteq> set R" unfolding RBC by auto
  have "\<forall>b\<in>set B. lo b \<le> h" unfolding B_def by (auto dest: set_takeWhileD)
  then show "\<forall>b\<in>set B. l \<le> hi b \<and> lo b \<le> h" using R subs by blast
  have nC: "normalized lo hi C" using nR RBC by (simp add: normalized_append)
  have "\<forall>c\<in>set C. h < lo c"
  proof (cases C)
    case (Cons x C')
    then have "h < lo x" using hd_dropWhile[of "\<lambda>b. lo b \<le> h" R] by (simp add: C_def)
    then show ?thesis using nC Cons by fastforce
  qed simp
  then show "\<forall>c\<in>set C. l \<le> hi c \<and> h < lo c" using R subs by blast
qed

text \<open>Splicing a block, and the first and last element of a block.\<close>

lemma splice_blocks:
  assumes "xs = A @ B @ C"
  shows "js_splice xs (int (length A)) (int (length B)) ys = A @ ys @ C"
  using assms by (simp add: js_splice_def)

lemma blocks_nth:
  assumes "xs = A @ B @ C" "B \<noteq> []"
  shows "xs ! length A = hd B" and "xs ! (length A + length B - 1) = last B"
proof -
  obtain b B' where B: "B = b # B'" using assms(2) by (cases B) auto
  then show "xs ! length A = hd B" using assms(1) by simp
  have "xs ! (length A + length B - 1) = (B @ C) ! (length B - 1)"
    using assms(1) B by (simp add: nth_append)
  also have "\<dots> = B ! (length B - 1)" using B by (subst nth_append) simp
  finally show "xs ! (length A + length B - 1) = last B" using assms(2) by (simp add: last_conv_nth)
qed

text \<open>
  A list of non-empty, non-touching intervals is determined by the points it stands for.
\<close>

lemma normalized_canonical:
  assumes "normalized lo hi xs" "normalized lo hi ys"
    and "\<forall>r\<in>set xs. lo r < hi r" "\<forall>r\<in>set ys. lo r < hi r"
    and "points lo hi xs = points lo hi ys"
  shows "map (\<lambda>r. (lo r, hi r)) xs = map (\<lambda>r. (lo r, hi r)) ys"
  using assms
proof (induction xs arbitrary: ys)
  case Nil
  then show ?case by (cases ys) (auto simp: set_eq_iff)
next
  case (Cons x xs)
  obtain y ys' where ys: "ys = y # ys'" using Cons.prems by (cases ys) (auto simp: set_eq_iff)
  have px: "\<forall>p\<in>points lo hi xs. hi x < p" and py: "\<forall>p\<in>points lo hi ys'. hi y < p"
    using Cons.prems ys by (auto simp: points_def)
  have eq: "{lo x..<hi x} \<union> points lo hi xs = {lo y..<hi y} \<union> points lo hi ys'"
    using Cons.prems(5) ys by simp
  have "lo x < hi x" "lo y < hi y" using Cons.prems ys by auto
  have mem: "p \<in> {lo x..<hi x} \<union> points lo hi xs \<longleftrightarrow> p \<in> {lo y..<hi y} \<union> points lo hi ys'" for p
    using eq by blast
  have lo: "lo x = lo y"
    using mem[of "lo x"] mem[of "lo y"] px py \<open>lo x < hi x\<close> \<open>lo y < hi y\<close> by fastforce
  have hi: "hi x = hi y"
    using mem[of "hi x"] mem[of "hi y"] px py \<open>lo x < hi x\<close> \<open>lo y < hi y\<close> lo by fastforce
  have "points lo hi xs = points lo hi ys'"
    using eq px py lo hi by (auto simp: set_eq_iff) (metis order_less_asym)+
  with Cons ys lo hi show ?case by auto
qed

subsection \<open>The contract\<close>

text \<open>
  An interval set: a state that carries a normalized list, and an operation that adds one
  interval, may throw in principle, and returns normally with the union.
\<close>

locale interval_set =
  fixes lo :: "'r \<Rightarrow> int" and hi :: "'r \<Rightarrow> int"
    and ranges :: "'s \<Rightarrow> 'r list" and add :: "'r \<Rightarrow> 's \<Rightarrow> 's result"
  assumes add_ok: "normalized lo hi (ranges s) \<Longrightarrow> lo r \<le> hi r \<Longrightarrow>
      \<exists>s'. add r s = Inr s' \<and> normalized lo hi (ranges s') \<and>
           points lo hi (ranges s') = points lo hi (ranges s) \<union> {lo r..<hi r}"
begin

lemma add_all:
  assumes "normalized lo hi (ranges s)" "\<forall>r\<in>set rs. lo r \<le> hi r"
  shows "\<exists>s'. foldl (\<lambda>acc r. bindR acc (add r)) (Inr s) rs = Inr s' \<and>
           normalized lo hi (ranges s') \<and>
           points lo hi (ranges s') = points lo hi (ranges s) \<union> points lo hi rs"
  using assms
proof (induction rs arbitrary: s)
  case (Cons r rs)
  obtain s1 where s1: "add r s = Inr s1" "normalized lo hi (ranges s1)"
    "points lo hi (ranges s1) = points lo hi (ranges s) \<union> {lo r..<hi r}"
    using add_ok[OF Cons.prems(1), of r] Cons.prems(2) by auto
  from Cons.IH[OF s1(2)] Cons.prems(2) s1 show ?case by (auto simp: Un_assoc)
qed simp

lemma add_order_irrelevant:
  assumes "normalized lo hi (ranges s)" "\<forall>r\<in>set rs. lo r \<le> hi r" "set rs = set rs'"
    and "foldl (\<lambda>acc r. bindR acc (add r)) (Inr s) rs = Inr s1"
    and "foldl (\<lambda>acc r. bindR acc (add r)) (Inr s) rs' = Inr s2"
  shows "points lo hi (ranges s1) = points lo hi (ranges s2)"
  using add_all[OF assms(1), of rs] add_all[OF assms(1), of rs'] assms by (auto simp: points_def)

end

end
