(* ===== verification/OffsetRanges.thy ===== *)
theory OffsetRanges
  imports IntervalSets
begin

text \<open>
  \<^verbatim>\<open>src/vs/editor/common/core/ranges/offsetRange.ts\<close>: \<open>OffsetRange\<close>, a half-open range of
  offsets whose constructor throws when the bounds are out of order, and \<open>OffsetRangeSet\<close>.
  Every operation that calls the constructor returns a \<open>result\<close>. \<open>toString\<close> and \<open>forEach\<close>
  (a loop over a callback with no result) are not modelled.
\<close>

record offset_range =
  or_start :: int
  or_endExclusive :: int

definition OffsetRange_new :: "int \<Rightarrow> int \<Rightarrow> offset_range result" where
  "OffsetRange_new s e =
     (if s > e then Inl BugIndicatingError else Inr \<lparr>or_start = s, or_endExclusive = e\<rparr>)"

definition OffsetRange_fromTo :: "int \<Rightarrow> int \<Rightarrow> offset_range result" where
  "OffsetRange_fromTo s e = OffsetRange_new s e"

definition OffsetRange_equals :: "offset_range \<Rightarrow> offset_range \<Rightarrow> bool" where
  "OffsetRange_equals r1 r2 \<longleftrightarrow> or_start r1 = or_start r2 \<and> or_endExclusive r1 = or_endExclusive r2"

text \<open>The array is changed in place; the result is the array afterwards.\<close>

definition OffsetRange_addRange :: "offset_range \<Rightarrow> offset_range list \<Rightarrow> offset_range list result" where
  "OffsetRange_addRange r sortedRanges =
     (let i = countWhile (\<lambda>s. or_endExclusive s < or_start r) sortedRanges;
          j = i + countWhile (\<lambda>s. or_start s \<le> or_endExclusive r) (drop (nat i) sortedRanges)
      in if i = j then Inr (js_splice sortedRanges i 0 [r])
         else
           (let s = min (or_start r) (or_start (sortedRanges ! nat i));
                e = max (or_endExclusive r) (or_endExclusive (sortedRanges ! nat (j - 1)))
            in bindR (OffsetRange_new s e) (\<lambda>n. Inr (js_splice sortedRanges i (j - i) [n]))))"

definition OffsetRange_tryCreate :: "int \<Rightarrow> int \<Rightarrow> offset_range option result" where
  "OffsetRange_tryCreate s e =
     (if s > e then Inr None else bindR (OffsetRange_new s e) (\<lambda>r. Inr (Some r)))"

definition OffsetRange_ofLength :: "int \<Rightarrow> offset_range result" where
  "OffsetRange_ofLength len = OffsetRange_new 0 len"

definition OffsetRange_ofStartAndLength :: "int \<Rightarrow> int \<Rightarrow> offset_range result" where
  "OffsetRange_ofStartAndLength s len = OffsetRange_new s (s + len)"

definition OffsetRange_emptyAt :: "int \<Rightarrow> offset_range result" where
  "OffsetRange_emptyAt offset = OffsetRange_new offset offset"

definition OffsetRange_isEmpty :: "offset_range \<Rightarrow> bool" where
  "OffsetRange_isEmpty this \<longleftrightarrow> or_start this = or_endExclusive this"

definition OffsetRange_delta :: "offset_range \<Rightarrow> int \<Rightarrow> offset_range result" where
  "OffsetRange_delta this offset = OffsetRange_new (or_start this + offset) (or_endExclusive this + offset)"

definition OffsetRange_deltaStart :: "offset_range \<Rightarrow> int \<Rightarrow> offset_range result" where
  "OffsetRange_deltaStart this offset = OffsetRange_new (or_start this + offset) (or_endExclusive this)"

definition OffsetRange_deltaEnd :: "offset_range \<Rightarrow> int \<Rightarrow> offset_range result" where
  "OffsetRange_deltaEnd this offset = OffsetRange_new (or_start this) (or_endExclusive this + offset)"

definition OffsetRange_length :: "offset_range \<Rightarrow> int" where
  "OffsetRange_length this = or_endExclusive this - or_start this"

definition OffsetRange_containsRange :: "offset_range \<Rightarrow> offset_range \<Rightarrow> bool" where
  "OffsetRange_containsRange this other \<longleftrightarrow>
     or_start this \<le> or_start other \<and> or_endExclusive other \<le> or_endExclusive this"

definition OffsetRange_contains :: "offset_range \<Rightarrow> int \<Rightarrow> bool" where
  "OffsetRange_contains this offset \<longleftrightarrow> or_start this \<le> offset \<and> offset < or_endExclusive this"

definition OffsetRange_join :: "offset_range \<Rightarrow> offset_range \<Rightarrow> offset_range result" where
  "OffsetRange_join this other =
     OffsetRange_new (min (or_start this) (or_start other)) (max (or_endExclusive this) (or_endExclusive other))"

definition OffsetRange_intersect :: "offset_range \<Rightarrow> offset_range \<Rightarrow> offset_range option result" where
  "OffsetRange_intersect this other =
     (let s = max (or_start this) (or_start other);
          e = min (or_endExclusive this) (or_endExclusive other)
      in if s \<le> e then bindR (OffsetRange_new s e) (\<lambda>r. Inr (Some r)) else Inr None)"

definition OffsetRange_intersectionLength :: "offset_range \<Rightarrow> offset_range \<Rightarrow> int" where
  "OffsetRange_intersectionLength this r =
     (let s = max (or_start this) (or_start r);
          e = min (or_endExclusive this) (or_endExclusive r)
      in max 0 (e - s))"

definition OffsetRange_intersects :: "offset_range \<Rightarrow> offset_range \<Rightarrow> bool" where
  "OffsetRange_intersects this other =
     (let s = max (or_start this) (or_start other);
          e = min (or_endExclusive this) (or_endExclusive other)
      in s < e)"

definition OffsetRange_intersectsOrTouches :: "offset_range \<Rightarrow> offset_range \<Rightarrow> bool" where
  "OffsetRange_intersectsOrTouches this other =
     (let s = max (or_start this) (or_start other);
          e = min (or_endExclusive this) (or_endExclusive other)
      in s \<le> e)"

definition OffsetRange_isBefore :: "offset_range \<Rightarrow> offset_range \<Rightarrow> bool" where
  "OffsetRange_isBefore this other \<longleftrightarrow> or_endExclusive this \<le> or_start other"

definition OffsetRange_isAfter :: "offset_range \<Rightarrow> offset_range \<Rightarrow> bool" where
  "OffsetRange_isAfter this other \<longleftrightarrow> or_start this \<ge> or_endExclusive other"

definition OffsetRange_slice :: "offset_range \<Rightarrow> 'a list \<Rightarrow> 'a list" where
  "OffsetRange_slice this arr = js_slice arr (or_start this) (or_endExclusive this)"

definition OffsetRange_substring :: "offset_range \<Rightarrow> 'a list \<Rightarrow> 'a list" where
  "OffsetRange_substring this str = js_substring str (or_start this) (or_endExclusive this)"

definition OffsetRange_clip :: "offset_range \<Rightarrow> int \<Rightarrow> int result" where
  "OffsetRange_clip this v =
     (if OffsetRange_isEmpty this then Inl BugIndicatingError
      else Inr (max (or_start this) (min (or_endExclusive this - 1) v)))"

text \<open>Both remainders are of non-negative numbers, where \<open>%\<close> is \<open>mod\<close>.\<close>

definition OffsetRange_clipCyclic :: "offset_range \<Rightarrow> int \<Rightarrow> int result" where
  "OffsetRange_clipCyclic this v =
     (if OffsetRange_isEmpty this then Inl BugIndicatingError
      else if v < or_start this
      then Inr (or_endExclusive this - (or_start this - v) mod OffsetRange_length this)
      else if v \<ge> or_endExclusive this
      then Inr (or_start this + (v - or_start this) mod OffsetRange_length this)
      else Inr v)"

definition OffsetRange_map :: "offset_range \<Rightarrow> (int \<Rightarrow> 'a) \<Rightarrow> 'a list" where
  "OffsetRange_map this f = map f [or_start this..or_endExclusive this - 1]"

definition OffsetRange_joinRightTouching :: "offset_range \<Rightarrow> offset_range \<Rightarrow> offset_range result" where
  "OffsetRange_joinRightTouching this r =
     (if or_endExclusive this \<noteq> or_start r then Inl BugIndicatingError
      else OffsetRange_new (or_start this) (or_endExclusive r))"

definition OffsetRange_withMargin :: "offset_range \<Rightarrow> int \<Rightarrow> int option \<Rightarrow> offset_range result" where
  "OffsetRange_withMargin this marginStart marginEnd =
     (let me = (case marginEnd of None \<Rightarrow> marginStart | Some m \<Rightarrow> m)
      in OffsetRange_new (or_start this - marginStart) (or_endExclusive this + me))"

subsection \<open>OffsetRangeSet\<close>

record offset_range_set =
  ors_sortedRanges :: "offset_range list"

definition OffsetRangeSet_new :: offset_range_set where
  "OffsetRangeSet_new = \<lparr>ors_sortedRanges = []\<rparr>"

definition OffsetRangeSet_addRange :: "offset_range \<Rightarrow> offset_range_set \<Rightarrow> offset_range_set result" where
  "OffsetRangeSet_addRange r this =
     (let sortedRanges = ors_sortedRanges this;
          i = countWhile (\<lambda>s. or_endExclusive s < or_start r) sortedRanges;
          j = i + countWhile (\<lambda>s. or_start s \<le> or_endExclusive r) (drop (nat i) sortedRanges)
      in if i = j then Inr (this\<lparr>ors_sortedRanges := js_splice sortedRanges i 0 [r]\<rparr>)
         else
           (let s = min (or_start r) (or_start (sortedRanges ! nat i));
                e = max (or_endExclusive r) (or_endExclusive (sortedRanges ! nat (j - 1)))
            in bindR (OffsetRange_new s e)
                 (\<lambda>n. Inr (this\<lparr>ors_sortedRanges := js_splice sortedRanges i (j - i) [n]\<rparr>))))"

definition OffsetRangeSet_intersectsStrict :: "offset_range_set \<Rightarrow> offset_range \<Rightarrow> bool" where
  "OffsetRangeSet_intersectsStrict this other =
     (let xs = ors_sortedRanges this;
          i = countWhile (\<lambda>s. or_endExclusive s \<le> or_start other) xs
      in i < int (length xs) \<and> or_start (xs ! nat i) < or_endExclusive other)"

fun intersectWithRange_loop ::
    "offset_range \<Rightarrow> offset_range list \<Rightarrow> offset_range_set \<Rightarrow> offset_range_set result" where
  "intersectWithRange_loop other [] acc = Inr acc"
| "intersectWithRange_loop other (r # rs) acc =
     bindR (OffsetRange_intersect r other)
       (\<lambda>i. case i of
          None \<Rightarrow> intersectWithRange_loop other rs acc
        | Some x \<Rightarrow> bindR (OffsetRangeSet_addRange x acc) (intersectWithRange_loop other rs))"

definition OffsetRangeSet_intersectWithRange ::
    "offset_range_set \<Rightarrow> offset_range \<Rightarrow> offset_range_set result" where
  "OffsetRangeSet_intersectWithRange this other =
     intersectWithRange_loop other (ors_sortedRanges this) OffsetRangeSet_new"

definition OffsetRangeSet_length :: "offset_range_set \<Rightarrow> int" where
  "OffsetRangeSet_length this = foldl (\<lambda>prev cur. prev + OffsetRange_length cur) 0 (ors_sortedRanges this)"

definition OffsetRangeSet_intersectWithRangeLength :: "offset_range_set \<Rightarrow> offset_range \<Rightarrow> int result" where
  "OffsetRangeSet_intersectWithRangeLength this other =
     bindR (OffsetRangeSet_intersectWithRange this other) (\<lambda>s. Inr (OffsetRangeSet_length s))"

subsection \<open>Ranges as sets of offsets\<close>

abbreviation offset_wf :: "offset_range \<Rightarrow> bool" where
  "offset_wf r \<equiv> or_start r \<le> or_endExclusive r"

abbreviation offset_points :: "offset_range list \<Rightarrow> int set" where
  "offset_points \<equiv> points or_start or_endExclusive"

abbreviation offset_normalized :: "offset_range list \<Rightarrow> bool" where
  "offset_normalized \<equiv> normalized or_start or_endExclusive"

lemma OffsetRange_new_Inr [simp]:
  "s \<le> e \<Longrightarrow> OffsetRange_new s e = Inr \<lparr>or_start = s, or_endExclusive = e\<rparr>"
  by (simp add: OffsetRange_new_def)

lemma OffsetRange_new_eq_Inr [simp]:
  "OffsetRange_new s e = Inr r \<longleftrightarrow> s \<le> e \<and> r = \<lparr>or_start = s, or_endExclusive = e\<rparr>"
  by (auto simp: OffsetRange_new_def)

lemma offset_range_eqI:
  "or_start a = or_start b \<Longrightarrow> or_endExclusive a = or_endExclusive b \<Longrightarrow> (a :: offset_range) = b"
  by (cases a; cases b) simp

lemma intersect_eq:
  "OffsetRange_intersect a b =
     Inr (let s = max (or_start a) (or_start b); e = min (or_endExclusive a) (or_endExclusive b)
          in if s \<le> e then Some \<lparr>or_start = s, or_endExclusive = e\<rparr> else None)"
  by (simp add: OffsetRange_intersect_def Let_def)

text \<open>\<open>OffsetRangeSet.addRange\<close> is the static \<open>OffsetRange.addRange\<close> on the stored array.\<close>

lemma addRange_set_eq:
  "OffsetRangeSet_addRange r s =
     bindR (OffsetRange_addRange r (ors_sortedRanges s)) (\<lambda>xs. Inr (s\<lparr>ors_sortedRanges := xs\<rparr>))"
  by (simp add: OffsetRangeSet_addRange_def OffsetRange_addRange_def Let_def bindR_assoc)

text \<open>The two index loops cut the array into the ranges before, touching and after \<open>r\<close>.\<close>

lemma addRange_ok:
  assumes n: "offset_normalized xs" and r: "offset_wf r"
  shows "\<exists>ys. OffsetRange_addRange r xs = Inr ys \<and> offset_normalized ys \<and>
           offset_points ys = offset_points xs \<union> {or_start r..<or_endExclusive r}"
proof -
  define A where "A = takeWhile (\<lambda>s. or_endExclusive s < or_start r) xs"
  define R where "R = dropWhile (\<lambda>s. or_endExclusive s < or_start r) xs"
  define B where "B = takeWhile (\<lambda>s. or_start s \<le> or_endExclusive r) R"
  define C where "C = dropWhile (\<lambda>s. or_start s \<le> or_endExclusive r) R"
  note blocks =
    takeWhile_dropWhile_blocks(1)[OF n, of "or_start r" "or_endExclusive r", folded A_def R_def, folded B_def C_def]
    takeWhile_dropWhile_blocks(2)[OF n, of "or_start r", folded A_def]
    takeWhile_dropWhile_blocks(3)[OF n, of "or_endExclusive r" "or_start r", folded R_def, folded B_def]
    takeWhile_dropWhile_blocks(4)[OF n, of "or_endExclusive r" "or_start r", folded R_def, folded C_def]
  have i: "countWhile (\<lambda>s. or_endExclusive s < or_start r) xs = int (length A)"
    by (simp add: countWhile_eq A_def)
  have R: "drop (length A) xs = R" by (simp add: A_def R_def dropWhile_eq_drop)
  have j: "countWhile (\<lambda>s. or_start s \<le> or_endExclusive r) R = int (length B)"
    by (simp add: countWhile_eq B_def)
  show ?thesis
  proof (cases "B = []")
    case True
    have xs: "xs = A @ [] @ C" using blocks(1) True by simp
    have "OffsetRange_addRange r xs = Inr (A @ [r] @ C)"
      using splice_blocks[OF xs, of "[r]"] True
      by (simp add: OffsetRange_addRange_def Let_def i R j)
    with insert_block[of or_start or_endExclusive A C r] xs n r blocks(2,4) show ?thesis by auto
  next
    case False
    let ?n = "\<lparr>or_start = min (or_start r) (or_start (hd B)),
               or_endExclusive = max (or_endExclusive r) (or_endExclusive (last B))\<rparr>"
    note ends = blocks_nth[OF blocks(1) False]
    have idx: "nat (int (length A) + int (length B) - 1) = length A + length B - 1"
      using False by (cases B) auto
    have "OffsetRange_addRange r xs = Inr (A @ [?n] @ C)"
      using splice_blocks[OF blocks(1), of "[?n]"] False r
      by (simp add: OffsetRange_addRange_def Let_def i R j ends(1) ends(2)[simplified] idx)
    moreover have "offset_normalized (A @ [?n] @ C)"
      and "offset_points (A @ [?n] @ C) = offset_points (A @ B @ C) \<union> {or_start r..<or_endExclusive r}"
      using merge_block[of or_start or_endExclusive A B C r ?n] n blocks False r by auto
    ultimately show ?thesis using blocks(1) by auto
  qed
qed

interpretation offset_set: interval_set or_start or_endExclusive ors_sortedRanges OffsetRangeSet_addRange
proof
  fix s :: offset_range_set and r
  assume "offset_normalized (ors_sortedRanges s)" "offset_wf r"
  from addRange_ok[OF this] show "\<exists>s'. OffsetRangeSet_addRange r s = Inr s' \<and>
      offset_normalized (ors_sortedRanges s') \<and>
      offset_points (ors_sortedRanges s') = offset_points (ors_sortedRanges s) \<union> {or_start r..<or_endExclusive r}"
    by (auto simp: addRange_set_eq)
qed

subsection \<open>Intersections and lengths of sets\<close>

lemma intersect_points:
  "\<exists>i. OffsetRange_intersect a b = Inr i \<and>
     (case i of None \<Rightarrow> {} | Some x \<Rightarrow> {or_start x..<or_endExclusive x}) =
       {or_start a..<or_endExclusive a} \<inter> {or_start b..<or_endExclusive b} \<and>
     (\<forall>x. i = Some x \<longrightarrow> offset_wf x)"
  by (auto simp: intersect_eq Let_def)

lemma intersectWithRange_loop_ok:
  assumes "offset_normalized (ors_sortedRanges acc)"
  shows "\<exists>s. intersectWithRange_loop other rs acc = Inr s \<and> offset_normalized (ors_sortedRanges s) \<and>
     offset_points (ors_sortedRanges s) =
       offset_points (ors_sortedRanges acc) \<union>
       (offset_points rs \<inter> {or_start other..<or_endExclusive other})"
  using assms
proof (induction rs arbitrary: acc)
  case (Cons r rs)
  obtain i where i: "OffsetRange_intersect r other = Inr i"
    "(case i of None \<Rightarrow> {} | Some x \<Rightarrow> {or_start x..<or_endExclusive x}) =
       {or_start r..<or_endExclusive r} \<inter> {or_start other..<or_endExclusive other}"
    "\<forall>x. i = Some x \<longrightarrow> offset_wf x"
    using intersect_points by blast
  show ?case
  proof (cases i)
    case None
    with i(1,2) Cons.IH[OF Cons.prems] show ?thesis by (auto simp: Int_Un_distrib2)
  next
    case (Some x)
    then obtain acc' where acc': "OffsetRangeSet_addRange x acc = Inr acc'"
      "offset_normalized (ors_sortedRanges acc')"
      "offset_points (ors_sortedRanges acc') =
         offset_points (ors_sortedRanges acc) \<union> {or_start x..<or_endExclusive x}"
      using offset_set.add_ok[OF Cons.prems, of x] i(3) by blast
    from Cons.IH[OF acc'(2)] i(1,2) Some acc' show ?thesis
      by (auto simp: Int_Un_distrib2 Un_assoc)
  qed
qed simp

lemma foldl_length_add:
  "foldl (\<lambda>prev cur. prev + OffsetRange_length cur) n xs = n + (\<Sum>r\<leftarrow>xs. OffsetRange_length r)"
  by (induction xs arbitrary: n) auto

lemma finite_points [simp]: "finite (points lo hi xs)"
  by (simp add: points_def)

lemma length_eq_card:
  assumes "offset_normalized xs"
  shows "(\<Sum>r\<leftarrow>xs. OffsetRange_length r) = int (card (offset_points xs))"
  using assms
proof (induction xs)
  case (Cons r xs)
  have "{or_start r..<or_endExclusive r} \<inter> offset_points xs = {}"
    using Cons.prems by (fastforce simp: points_def)
  with Cons show ?case by (simp add: card_Un_disjoint OffsetRange_length_def)
qed simp

lemma intersectsStrict_iff:
  assumes "offset_normalized xs"
  shows "OffsetRangeSet_intersectsStrict \<lparr>ors_sortedRanges = xs\<rparr> other \<longleftrightarrow>
    (\<exists>s\<in>set xs. or_start other < or_endExclusive s \<and> or_start s < or_endExclusive other)"
  using assms
proof (induction xs)
  case (Cons x xs)
  show ?case
  proof (cases "or_endExclusive x \<le> or_start other")
    case True
    have nat: "nat (1 + countWhile p (xs::offset_range list)) = Suc (nat (countWhile p xs))" for p
      by (simp add: countWhile_eq nat_add_distrib)
    from True Cons show ?thesis
      by (auto simp: OffsetRangeSet_intersectsStrict_def Let_def nat)
  next
    case False
    with Cons.prems show ?thesis
      by (auto simp: OffsetRangeSet_intersectsStrict_def)
  qed
qed (simp add: OffsetRangeSet_intersectsStrict_def)

subsection \<open>Properties\<close>

text \<open>
  Refinement of \<open>OffsetRangeSet\<close> to a set of offsets: adding any sequence of ranges to
  the empty set never throws, leaves the stored array sorted with no two ranges touching or
  overlapping, and the array stands for exactly the union of the ranges added.
\<close>

theorem OffsetRangeSet_is_union:
  assumes "\<forall>r\<in>set rs. offset_wf r"
  shows "\<exists>s. foldl (\<lambda>acc r. bindR acc (OffsetRangeSet_addRange r)) (Inr OffsetRangeSet_new) rs = Inr s \<and>
     normalized or_start or_endExclusive (ors_sortedRanges s) \<and>
     points or_start or_endExclusive (ors_sortedRanges s) =
       (\<Union>r\<in>set rs. {x. OffsetRange_contains r x})"
proof -
  have "offset_normalized (ors_sortedRanges OffsetRangeSet_new)" by (simp add: OffsetRangeSet_new_def)
  note all = offset_set.add_all[OF this assms]
  have "offset_points rs = (\<Union>r\<in>set rs. {x. OffsetRange_contains r x})"
    by (auto simp: points_def OffsetRange_contains_def)
  with all show ?thesis by (simp add: OffsetRangeSet_new_def)
qed

theorem OffsetRangeSet_is_union_witness:
  "\<exists>s. foldl (\<lambda>acc r. bindR acc (OffsetRangeSet_addRange r)) (Inr OffsetRangeSet_new)
       [\<lparr>or_start = 5, or_endExclusive = 7\<rparr>, \<lparr>or_start = 0, or_endExclusive = 2\<rparr>,
        \<lparr>or_start = 2, or_endExclusive = 5\<rparr>] = Inr s \<and>
     points or_start or_endExclusive (ors_sortedRanges s) = {0..<7}"
proof -
  let ?rs = "[\<lparr>or_start = 5, or_endExclusive = 7\<rparr>, \<lparr>or_start = 0, or_endExclusive = 2\<rparr>,
        \<lparr>or_start = 2, or_endExclusive = 5\<rparr>]"
  have "\<forall>r\<in>set ?rs. offset_wf r" by simp
  note ex = OffsetRangeSet_is_union[OF this]
  have "(\<Union>r\<in>set ?rs. {x. OffsetRange_contains r x}) = {0..<7}"
    by (auto simp: OffsetRange_contains_def)
  with ex show ?thesis by auto
qed

text \<open>
  On a normalized set, \<open>intersectWithRange\<close> never throws and yields a normalized set
  standing for the intersection, \<open>length\<close> and \<open>intersectWithRangeLength\<close> count the offsets of
  the set and of the intersection, and \<open>intersectsStrict\<close> tells whether some stored range
  and the argument overlap.
\<close>

theorem OffsetRangeSet_intersection:
  assumes "normalized or_start or_endExclusive (ors_sortedRanges this)"
  shows "\<exists>s. OffsetRangeSet_intersectWithRange this other = Inr s \<and>
     normalized or_start or_endExclusive (ors_sortedRanges s) \<and>
     points or_start or_endExclusive (ors_sortedRanges s) =
       points or_start or_endExclusive (ors_sortedRanges this) \<inter> {x. OffsetRange_contains other x} \<and>
     OffsetRangeSet_length this = int (card (points or_start or_endExclusive (ors_sortedRanges this))) \<and>
     OffsetRangeSet_intersectWithRangeLength this other =
       Inr (int (card (points or_start or_endExclusive (ors_sortedRanges this) \<inter>
                       {x. OffsetRange_contains other x}))) \<and>
     (OffsetRangeSet_intersectsStrict this other \<longleftrightarrow>
       (\<exists>s\<in>set (ors_sortedRanges this). or_start other < or_endExclusive s \<and> or_start s < or_endExclusive other))"
proof -
  have len: "OffsetRangeSet_length s = int (card (offset_points (ors_sortedRanges s)))"
    if "offset_normalized (ors_sortedRanges s)" for s
    using length_eq_card[OF that] by (simp add: OffsetRangeSet_length_def foldl_length_add)
  have o: "{or_start other..<or_endExclusive other} = {x. OffsetRange_contains other x}"
    by (auto simp: OffsetRange_contains_def)
  have e: "offset_normalized (ors_sortedRanges OffsetRangeSet_new)"
    "offset_points (ors_sortedRanges OffsetRangeSet_new) = {}"
    by (simp_all add: OffsetRangeSet_new_def)
  obtain s where s: "OffsetRangeSet_intersectWithRange this other = Inr s"
    "offset_normalized (ors_sortedRanges s)"
    "offset_points (ors_sortedRanges s) =
       offset_points (ors_sortedRanges this) \<inter> {x. OffsetRange_contains other x}"
    using intersectWithRange_loop_ok[OF e(1), of other "ors_sortedRanges this"]
    by (auto simp: OffsetRangeSet_intersectWithRange_def e(2) o)
  have "OffsetRangeSet_intersectsStrict this other =
      OffsetRangeSet_intersectsStrict \<lparr>ors_sortedRanges = ors_sortedRanges this\<rparr> other"
    by (simp add: OffsetRangeSet_intersectsStrict_def)
  with s len[OF assms] len[OF s(2)] intersectsStrict_iff[OF assms, of other] show ?thesis
    by (simp add: OffsetRangeSet_intersectWithRangeLength_def)
qed

theorem OffsetRangeSet_intersection_witness:
  "OffsetRangeSet_intersectWithRangeLength
     \<lparr>ors_sortedRanges = [\<lparr>or_start = 0, or_endExclusive = 4\<rparr>, \<lparr>or_start = 6, or_endExclusive = 9\<rparr>]\<rparr>
     \<lparr>or_start = 3, or_endExclusive = 8\<rparr> = Inr 3"
proof -
  let ?s = "\<lparr>ors_sortedRanges = [\<lparr>or_start = 0, or_endExclusive = 4\<rparr>, \<lparr>or_start = 6, or_endExclusive = 9\<rparr>]\<rparr>"
  let ?o = "\<lparr>or_start = 3, or_endExclusive = 8\<rparr>"
  have "normalized or_start or_endExclusive (ors_sortedRanges ?s)" by simp
  from OffsetRangeSet_intersection[OF this, of ?o]
  have len: "OffsetRangeSet_intersectWithRangeLength ?s ?o =
      Inr (int (card (offset_points (ors_sortedRanges ?s) \<inter> {x. OffsetRange_contains ?o x})))"
    by blast
  have "offset_points (ors_sortedRanges ?s) \<inter> {x. OffsetRange_contains ?o x} = {3, 6, 7}"
    by (auto simp: OffsetRange_contains_def)
  then show ?thesis unfolding len by simp
qed

text \<open>
  \<open>clipCyclic\<close> on a non-empty range returns a value congruent to the argument modulo the
  length of the range. The value lies in the range exactly when the argument is not a
  positive multiple of the length below \<open>start\<close>: in that case the code returns
  \<open>endExclusive\<close>, which the range does not contain.
\<close>

theorem OffsetRange_clipCyclic_range:
  assumes "offset_wf this" and "\<not> OffsetRange_isEmpty this"
  shows "\<exists>x. OffsetRange_clipCyclic this v = Inr x \<and>
     OffsetRange_length this dvd x - v \<and>
     (OffsetRange_contains this x \<longleftrightarrow>
        \<not> (v < or_start this \<and> OffsetRange_length this dvd or_start this - v)) \<and>
     (v < or_start this \<and> OffsetRange_length this dvd or_start this - v \<longrightarrow> x = or_endExclusive this)"
proof -
  define n where "n = OffsetRange_length this"
  have n: "0 < n" "or_endExclusive this = or_start this + n"
    using assms by (auto simp: n_def OffsetRange_length_def OffsetRange_isEmpty_def)
  have ne: "\<not> OffsetRange_isEmpty this" by fact
  consider "v < or_start this" | "v \<ge> or_endExclusive this" | "or_start this \<le> v" "v < or_endExclusive this"
    by linarith
  then show ?thesis
  proof cases
    case 1
    let ?m = "(or_start this - v) mod n"
    have m: "0 \<le> ?m" "?m < n" using n by simp_all
    have "n dvd (or_start this - v) - ?m" by (rule dvd_minus_mod)
    then have "n dvd n + ((or_start this - v) - ?m)" by simp
    then have dvd: "n dvd or_start this + n - ?m - v" by (simp add: algebra_simps)
    show ?thesis
      using 1 ne n m dvd
      by (auto simp: OffsetRange_clipCyclic_def OffsetRange_contains_def mod_eq_0_iff_dvd simp flip: n_def)
         (metis dvd_eq_mod_eq_0 order_less_le)+
  next
    case 2
    let ?m = "(v - or_start this) mod n"
    have m: "0 \<le> ?m" "?m < n" using n by simp_all
    have "n dvd (v - or_start this) - ?m" by (rule dvd_minus_mod)
    then have "n dvd - ((v - or_start this) - ?m)" by (simp only: dvd_minus_iff)
    then have dvd: "n dvd or_start this + ?m - v" by (simp add: algebra_simps)
    show ?thesis
      using 2 ne n m dvd
      by (auto simp: OffsetRange_clipCyclic_def OffsetRange_contains_def simp flip: n_def)
  next
    case 3
    then show ?thesis using ne n
      by (auto simp: OffsetRange_clipCyclic_def OffsetRange_contains_def)
  qed
qed

theorem OffsetRange_clipCyclic_range_witness:
  "OffsetRange_clipCyclic \<lparr>or_start = 0, or_endExclusive = 5\<rparr> (- 5) = Inr 5 \<and>
   \<not> OffsetRange_contains \<lparr>or_start = 0, or_endExclusive = 5\<rparr> 5"
proof -
  let ?r = "\<lparr>or_start = 0, or_endExclusive = 5\<rparr>"
  have "offset_wf ?r" "\<not> OffsetRange_isEmpty ?r" by (simp_all add: OffsetRange_isEmpty_def)
  from OffsetRange_clipCyclic_range[OF this, of "- 5"] show ?thesis
    by (auto simp: OffsetRange_length_def)
qed

end
