(* ===== verification/LineRanges.thy ===== *)
theory LineRanges
  imports ArraysFind TextRange OffsetRanges
begin

text \<open>
  \<^verbatim>\<open>src/vs/editor/common/core/ranges/lineRange.ts\<close>: \<open>LineRange\<close>, a half-open range of 1-based
  line numbers, and \<open>LineRangeSet\<close>, which keeps its ranges sorted and apart and finds its
  place in them with the binary searches of \<open>ArraysFind\<close>. \<open>toString\<close> and \<open>forEach\<close> (a loop
  over a callback with no result) are not modelled.
\<close>

record line_range =
  lr_startLineNumber :: int
  lr_endLineNumberExclusive :: int

definition LineRange_new :: "int \<Rightarrow> int \<Rightarrow> line_range result" where
  "LineRange_new s e =
     (if s > e then Inl BugIndicatingError
      else Inr \<lparr>lr_startLineNumber = s, lr_endLineNumberExclusive = e\<rparr>)"

definition LineRange_ofLength :: "int \<Rightarrow> int \<Rightarrow> line_range result" where
  "LineRange_ofLength s len = LineRange_new s (s + len)"

definition LineRange_fromRange :: "range \<Rightarrow> line_range result" where
  "LineRange_fromRange r = LineRange_new (startLineNumber r) (endLineNumber r)"

definition LineRange_fromRangeInclusive :: "range \<Rightarrow> line_range result" where
  "LineRange_fromRangeInclusive r = LineRange_new (startLineNumber r) (endLineNumber r + 1)"

definition LineRange_compareByStart :: "line_range \<Rightarrow> line_range \<Rightarrow> int" where
  "LineRange_compareByStart = compareBy lr_startLineNumber numberComparator"

definition LineRange_subtract :: "line_range \<Rightarrow> line_range option \<Rightarrow> line_range list result" where
  "LineRange_subtract a b' =
     (case b' of
        None \<Rightarrow> Inr [a]
      | Some b \<Rightarrow>
          (if lr_startLineNumber a < lr_startLineNumber b \<and>
              lr_endLineNumberExclusive b < lr_endLineNumberExclusive a
           then bindR (LineRange_new (lr_startLineNumber a) (lr_startLineNumber b)) (\<lambda>x.
                bindR (LineRange_new (lr_endLineNumberExclusive b) (lr_endLineNumberExclusive a)) (\<lambda>y.
                Inr [x, y]))
           else if lr_startLineNumber b \<le> lr_startLineNumber a \<and>
              lr_endLineNumberExclusive a \<le> lr_endLineNumberExclusive b
           then Inr []
           else if lr_endLineNumberExclusive b < lr_endLineNumberExclusive a
           then bindR (LineRange_new (max (lr_endLineNumberExclusive b) (lr_startLineNumber a))
                         (lr_endLineNumberExclusive a)) (\<lambda>x. Inr [x])
           else bindR (LineRange_new (lr_startLineNumber a)
                         (min (lr_startLineNumber b) (lr_endLineNumberExclusive a))) (\<lambda>x. Inr [x])))"

fun LineRange_join_static :: "line_range list \<Rightarrow> line_range result" where
  "LineRange_join_static [] = Inl BugIndicatingError"
| "LineRange_join_static (r # rs) =
     LineRange_new (foldl (\<lambda>m x. min m (lr_startLineNumber x)) (lr_startLineNumber r) rs)
                   (foldl (\<lambda>m x. max m (lr_endLineNumberExclusive x)) (lr_endLineNumberExclusive r) rs)"

definition LineRange_deserialize :: "int \<times> int \<Rightarrow> line_range result" where
  "LineRange_deserialize p = LineRange_new (fst p) (snd p)"

definition LineRange_contains :: "line_range \<Rightarrow> int \<Rightarrow> bool" where
  "LineRange_contains this n \<longleftrightarrow> lr_startLineNumber this \<le> n \<and> n < lr_endLineNumberExclusive this"

definition LineRange_containsRange :: "line_range \<Rightarrow> line_range \<Rightarrow> bool" where
  "LineRange_containsRange this r \<longleftrightarrow>
     lr_startLineNumber this \<le> lr_startLineNumber r \<and>
     lr_endLineNumberExclusive r \<le> lr_endLineNumberExclusive this"

definition LineRange_isEmpty :: "line_range \<Rightarrow> bool" where
  "LineRange_isEmpty this \<longleftrightarrow> lr_startLineNumber this = lr_endLineNumberExclusive this"

definition LineRange_delta :: "line_range \<Rightarrow> int \<Rightarrow> line_range result" where
  "LineRange_delta this offset =
     LineRange_new (lr_startLineNumber this + offset) (lr_endLineNumberExclusive this + offset)"

definition LineRange_deltaLength :: "line_range \<Rightarrow> int \<Rightarrow> line_range result" where
  "LineRange_deltaLength this offset =
     LineRange_new (lr_startLineNumber this) (lr_endLineNumberExclusive this + offset)"

definition LineRange_length :: "line_range \<Rightarrow> int" where
  "LineRange_length this = lr_endLineNumberExclusive this - lr_startLineNumber this"

definition LineRange_join :: "line_range \<Rightarrow> line_range \<Rightarrow> line_range result" where
  "LineRange_join this other =
     LineRange_new (min (lr_startLineNumber this) (lr_startLineNumber other))
       (max (lr_endLineNumberExclusive this) (lr_endLineNumberExclusive other))"

definition LineRange_intersect :: "line_range \<Rightarrow> line_range \<Rightarrow> line_range option result" where
  "LineRange_intersect this other =
     (let s = max (lr_startLineNumber this) (lr_startLineNumber other);
          e = min (lr_endLineNumberExclusive this) (lr_endLineNumberExclusive other)
      in if s \<le> e then bindR (LineRange_new s e) (\<lambda>r. Inr (Some r)) else Inr None)"

definition LineRange_intersectsStrict :: "line_range \<Rightarrow> line_range \<Rightarrow> bool" where
  "LineRange_intersectsStrict this other \<longleftrightarrow>
     lr_startLineNumber this < lr_endLineNumberExclusive other \<and>
     lr_startLineNumber other < lr_endLineNumberExclusive this"

definition LineRange_intersectsOrTouches :: "line_range \<Rightarrow> line_range \<Rightarrow> bool" where
  "LineRange_intersectsOrTouches this other \<longleftrightarrow>
     lr_startLineNumber this \<le> lr_endLineNumberExclusive other \<and>
     lr_startLineNumber other \<le> lr_endLineNumberExclusive this"

definition LineRange_equals :: "line_range \<Rightarrow> line_range \<Rightarrow> bool" where
  "LineRange_equals this b \<longleftrightarrow>
     lr_startLineNumber this = lr_startLineNumber b \<and>
     lr_endLineNumberExclusive this = lr_endLineNumberExclusive b"

text \<open>\<open>2 ^ 53 - 1\<close> is \<open>Number.MAX_SAFE_INTEGER\<close>.\<close>

definition LineRange_toInclusiveRange :: "line_range \<Rightarrow> range option" where
  "LineRange_toInclusiveRange this =
     (if LineRange_isEmpty this then None
      else Some (Range_new (lr_startLineNumber this) 1 (lr_endLineNumberExclusive this - 1) (2 ^ 53 - 1)))"

definition LineRange_toExclusiveRange :: "line_range \<Rightarrow> range" where
  "LineRange_toExclusiveRange this =
     Range_new (lr_startLineNumber this) 1 (lr_endLineNumberExclusive this) 1"

definition LineRange_mapToLineArray :: "line_range \<Rightarrow> (int \<Rightarrow> 'a) \<Rightarrow> 'a list" where
  "LineRange_mapToLineArray this f = map f [lr_startLineNumber this..lr_endLineNumberExclusive this - 1]"

definition LineRange_serialize :: "line_range \<Rightarrow> int \<times> int" where
  "LineRange_serialize this = (lr_startLineNumber this, lr_endLineNumberExclusive this)"

definition LineRange_toOffsetRange :: "line_range \<Rightarrow> offset_range result" where
  "LineRange_toOffsetRange this =
     OffsetRange_new (lr_startLineNumber this - 1) (lr_endLineNumberExclusive this - 1)"

definition LineRange_distanceToRange :: "line_range \<Rightarrow> line_range \<Rightarrow> int" where
  "LineRange_distanceToRange this other =
     (if lr_endLineNumberExclusive this \<le> lr_startLineNumber other
      then lr_startLineNumber other - lr_endLineNumberExclusive this
      else if lr_endLineNumberExclusive other \<le> lr_startLineNumber this
      then lr_startLineNumber this - lr_endLineNumberExclusive other
      else 0)"

definition LineRange_distanceToLine :: "line_range \<Rightarrow> int \<Rightarrow> int" where
  "LineRange_distanceToLine this n =
     (if LineRange_contains this n then 0
      else if n < lr_startLineNumber this then lr_startLineNumber this - n
      else n - lr_endLineNumberExclusive this)"

definition LineRange_addMargin :: "line_range \<Rightarrow> int \<Rightarrow> int \<Rightarrow> line_range result" where
  "LineRange_addMargin this marginTop marginBottom =
     LineRange_new (lr_startLineNumber this - marginTop) (lr_endLineNumberExclusive this + marginBottom)"

subsection \<open>LineRangeSet\<close>

record line_range_set =
  lrs_normalizedRanges :: "line_range list"

definition LineRangeSet_new :: "line_range list \<Rightarrow> line_range_set" where
  "LineRangeSet_new rs = \<lparr>lrs_normalizedRanges = rs\<rparr>"

text \<open>The index of the first range that touches \<open>r\<close> or is after it, and one past the last
  range that touches \<open>r\<close> or is before it.\<close>

definition joinRangeStartIdx :: "line_range list \<Rightarrow> line_range \<Rightarrow> int" where
  "joinRangeStartIdx xs r =
     findFirstIdxMonotonousOrArrLen xs (on_elem (\<lambda>x. lr_endLineNumberExclusive x \<ge> lr_startLineNumber r))
       0 (int (length xs))"

definition joinRangeEndIdxExclusive :: "line_range list \<Rightarrow> line_range \<Rightarrow> int" where
  "joinRangeEndIdxExclusive xs r =
     findLastIdxMonotonous xs (on_elem (\<lambda>x. lr_startLineNumber x \<le> lr_endLineNumberExclusive r))
       0 (int (length xs)) + 1"

definition LineRangeSet_addRange :: "line_range \<Rightarrow> line_range_set \<Rightarrow> line_range_set result" where
  "LineRangeSet_addRange r this =
     (if LineRange_length r = 0 then Inr this
      else
        (let xs = lrs_normalizedRanges this;
             s = joinRangeStartIdx xs r;
             e = joinRangeEndIdxExclusive xs r
         in if s = e then Inr (this\<lparr>lrs_normalizedRanges := js_splice xs s 0 [r]\<rparr>)
            else if s = e - 1
            then bindR (LineRange_join (xs ! nat s) r) (\<lambda>j.
                 Inr (this\<lparr>lrs_normalizedRanges := xs[nat s := j]\<rparr>))
            else bindR (LineRange_join (xs ! nat s) (xs ! nat (e - 1))) (\<lambda>j0.
                 bindR (LineRange_join j0 r) (\<lambda>j.
                 Inr (this\<lparr>lrs_normalizedRanges := js_splice xs s (e - s) [j]\<rparr>)))))"

definition LineRangeSet_contains :: "line_range_set \<Rightarrow> int \<Rightarrow> bool" where
  "LineRangeSet_contains this n =
     (case findLastMonotonous (lrs_normalizedRanges this) (on_elem (\<lambda>r. lr_startLineNumber r \<le> n)) of
        None \<Rightarrow> False
      | Some r \<Rightarrow> lr_endLineNumberExclusive r > n)"

definition LineRangeSet_intersects :: "line_range_set \<Rightarrow> line_range \<Rightarrow> bool" where
  "LineRangeSet_intersects this r' =
     (case findLastMonotonous (lrs_normalizedRanges this)
             (on_elem (\<lambda>r. lr_startLineNumber r < lr_endLineNumberExclusive r')) of
        None \<Rightarrow> False
      | Some r \<Rightarrow> lr_endLineNumberExclusive r > lr_startLineNumber r')"

text \<open>One iteration of \<open>getUnion\<close> after \<open>next\<close> is chosen: the new \<open>current\<close> and \<open>result\<close>.\<close>

definition getUnion_step ::
    "line_range option \<Rightarrow> line_range list \<Rightarrow> line_range \<Rightarrow> (line_range option \<times> line_range list) result" where
  "getUnion_step current result nxt =
     (case current of
        None \<Rightarrow> Inr (Some nxt, result)
      | Some c \<Rightarrow>
          (if lr_endLineNumberExclusive c \<ge> lr_startLineNumber nxt
           then bindR (LineRange_new (lr_startLineNumber c)
                         (max (lr_endLineNumberExclusive c) (lr_endLineNumberExclusive nxt)))
                  (\<lambda>c'. Inr (Some c', result))
           else Inr (Some nxt, result @ [c])))"

fun getUnion_loop ::
    "line_range list \<Rightarrow> line_range list \<Rightarrow> line_range option \<times> line_range list
     \<Rightarrow> (line_range option \<times> line_range list) result" where
  "getUnion_loop [] [] st = Inr st"
| "getUnion_loop (x # xs) (y # ys) st =
     (if lr_startLineNumber x < lr_startLineNumber y
      then bindR (getUnion_step (fst st) (snd st) x) (getUnion_loop xs (y # ys))
      else bindR (getUnion_step (fst st) (snd st) y) (getUnion_loop (x # xs) ys))"
| "getUnion_loop (x # xs) [] st = bindR (getUnion_step (fst st) (snd st) x) (getUnion_loop xs [])"
| "getUnion_loop [] (y # ys) st = bindR (getUnion_step (fst st) (snd st) y) (getUnion_loop [] ys)"

definition LineRangeSet_getUnion :: "line_range_set \<Rightarrow> line_range_set \<Rightarrow> line_range_set result" where
  "LineRangeSet_getUnion this other =
     (if lrs_normalizedRanges this = [] then Inr other
      else if lrs_normalizedRanges other = [] then Inr this
      else bindR (getUnion_loop (lrs_normalizedRanges this) (lrs_normalizedRanges other) (None, []))
             (\<lambda>(current, result).
                Inr (LineRangeSet_new (case current of None \<Rightarrow> result | Some c \<Rightarrow> result @ [c]))))"

definition LineRange_joinMany :: "line_range list list \<Rightarrow> line_range list result" where
  "LineRange_joinMany lineRanges =
     (case lineRanges of
        [] \<Rightarrow> Inr []
      | l # ls \<Rightarrow>
          bindR (foldl (\<lambda>acc x. bindR acc (\<lambda>s. LineRangeSet_getUnion s (LineRangeSet_new x)))
                   (Inr (LineRangeSet_new l)) ls)
            (\<lambda>s. Inr (lrs_normalizedRanges s)))"

fun subtractFrom_loop :: "line_range list \<Rightarrow> int \<Rightarrow> line_range list \<Rightarrow> (int \<times> line_range list) result" where
  "subtractFrom_loop [] start result = Inr (start, result)"
| "subtractFrom_loop (r # rs) start result =
     (if lr_startLineNumber r > start
      then bindR (LineRange_new start (lr_startLineNumber r))
             (\<lambda>x. subtractFrom_loop rs (lr_endLineNumberExclusive r) (result @ [x]))
      else subtractFrom_loop rs (lr_endLineNumberExclusive r) result)"

definition LineRangeSet_subtractFrom :: "line_range_set \<Rightarrow> line_range \<Rightarrow> line_range_set result" where
  "LineRangeSet_subtractFrom this r' =
     (let xs = lrs_normalizedRanges this;
          s = joinRangeStartIdx xs r';
          e = joinRangeEndIdxExclusive xs r'
      in if s = e then Inr (LineRangeSet_new [r'])
         else bindR (subtractFrom_loop (js_slice xs s e) (lr_startLineNumber r') []) (\<lambda>(start, result).
           if start < lr_endLineNumberExclusive r'
           then bindR (LineRange_new start (lr_endLineNumberExclusive r'))
                  (\<lambda>x. Inr (LineRangeSet_new (result @ [x])))
           else Inr (LineRangeSet_new result)))"

fun getIntersection_loop :: "line_range list \<Rightarrow> line_range list \<Rightarrow> line_range list \<Rightarrow> line_range list result" where
  "getIntersection_loop (r1 # xs) (r2 # ys) result =
     bindR (LineRange_intersect r1 r2) (\<lambda>i.
       let result' = (case i of None \<Rightarrow> result
                      | Some x \<Rightarrow> if \<not> LineRange_isEmpty x then result @ [x] else result)
       in if lr_endLineNumberExclusive r1 < lr_endLineNumberExclusive r2
          then getIntersection_loop xs (r2 # ys) result'
          else getIntersection_loop (r1 # xs) ys result')"
| "getIntersection_loop _ _ result = Inr result"

definition LineRangeSet_getIntersection :: "line_range_set \<Rightarrow> line_range_set \<Rightarrow> line_range_set result" where
  "LineRangeSet_getIntersection this other =
     bindR (getIntersection_loop (lrs_normalizedRanges this) (lrs_normalizedRanges other) [])
       (\<lambda>result. Inr (LineRangeSet_new result))"

definition LineRangeSet_getWithDelta :: "line_range_set \<Rightarrow> int \<Rightarrow> line_range_set result" where
  "LineRangeSet_getWithDelta this v =
     bindR (mapR (\<lambda>r. LineRange_delta r v) (lrs_normalizedRanges this)) (\<lambda>rs. Inr (LineRangeSet_new rs))"

subsection \<open>Ranges as sets of lines\<close>

abbreviation line_wf :: "line_range \<Rightarrow> bool" where
  "line_wf r \<equiv> lr_startLineNumber r \<le> lr_endLineNumberExclusive r"

abbreviation lines_in :: "line_range \<Rightarrow> int set" where
  "lines_in r \<equiv> {lr_startLineNumber r..<lr_endLineNumberExclusive r}"

abbreviation line_points :: "line_range list \<Rightarrow> int set" where
  "line_points \<equiv> points lr_startLineNumber lr_endLineNumberExclusive"

abbreviation line_normalized :: "line_range list \<Rightarrow> bool" where
  "line_normalized \<equiv> normalized lr_startLineNumber lr_endLineNumberExclusive"

text \<open>The representation invariant documented at the constructor, with no empty range.\<close>

definition lines_inv :: "line_range list \<Rightarrow> bool" where
  "lines_inv xs \<longleftrightarrow> normalized lr_startLineNumber lr_endLineNumberExclusive xs \<and>
     (\<forall>r\<in>set xs. lr_startLineNumber r < lr_endLineNumberExclusive r)"

definition LineRangeSet_inv :: "line_range_set \<Rightarrow> bool" where
  "LineRangeSet_inv s \<longleftrightarrow> lines_inv (lrs_normalizedRanges s)"

definition LineRangeSet_lines :: "line_range_set \<Rightarrow> int set" where
  "LineRangeSet_lines s = line_points (lrs_normalizedRanges s)"

lemma LineRange_new_Inr [simp]:
  "s \<le> e \<Longrightarrow> LineRange_new s e = Inr \<lparr>lr_startLineNumber = s, lr_endLineNumberExclusive = e\<rparr>"
  by (simp add: LineRange_new_def)

lemma LineRange_new_eq_Inr [simp]:
  "LineRange_new s e = Inr r \<longleftrightarrow> s \<le> e \<and> r = \<lparr>lr_startLineNumber = s, lr_endLineNumberExclusive = e\<rparr>"
  by (auto simp: LineRange_new_def)

lemma LineRangeSet_new_ranges [simp]: "lrs_normalizedRanges (LineRangeSet_new xs) = xs"
  by (simp add: LineRangeSet_new_def)

text \<open>The binary searches find the block of ranges that touch \<open>r\<close>.\<close>

lemma joinRange_idx:
  assumes "xs = A @ B @ C" "line_wf r"
    and "\<forall>a\<in>set A. lr_endLineNumberExclusive a < lr_startLineNumber r \<and> line_wf a"
    and "\<forall>b\<in>set B. lr_startLineNumber r \<le> lr_endLineNumberExclusive b \<and>
                    lr_startLineNumber b \<le> lr_endLineNumberExclusive r"
    and "\<forall>c\<in>set C. lr_startLineNumber r \<le> lr_endLineNumberExclusive c \<and>
                    lr_endLineNumberExclusive r < lr_startLineNumber c"
  shows "joinRangeStartIdx xs r = int (length A)"
    and "joinRangeEndIdxExclusive xs r = int (length A) + int (length B)"
proof -
  show "joinRangeStartIdx xs r = int (length A)"
    unfolding joinRangeStartIdx_def
    by (rule findFirst_on_elem_blocks[of xs A "B @ C"]) (use assms in \<open>auto simp: not_le\<close>)
  have "findLastIdxMonotonous xs (on_elem (\<lambda>x. lr_startLineNumber x \<le> lr_endLineNumberExclusive r))
      0 (int (length xs)) = int (length (A @ B)) - 1"
    by (rule findLast_on_elem_blocks[of xs "A @ B" C]) (use assms in force)+
  then show "joinRangeEndIdxExclusive xs r = int (length A) + int (length B)"
    by (simp add: joinRangeEndIdxExclusive_def)
qed

lemma joinRange_blocks:
  assumes n: "line_normalized xs" and r: "line_wf r"
  obtains A B C where "xs = A @ B @ C"
    and "\<forall>a\<in>set A. lr_endLineNumberExclusive a < lr_startLineNumber r"
    and "\<forall>b\<in>set B. lr_startLineNumber r \<le> lr_endLineNumberExclusive b \<and>
                    lr_startLineNumber b \<le> lr_endLineNumberExclusive r"
    and "\<forall>c\<in>set C. lr_endLineNumberExclusive r < lr_startLineNumber c"
    and "joinRangeStartIdx xs r = int (length A)"
    and "joinRangeEndIdxExclusive xs r = int (length A) + int (length B)"
proof -
  define A where "A = takeWhile (\<lambda>s. lr_endLineNumberExclusive s < lr_startLineNumber r) xs"
  define R where "R = dropWhile (\<lambda>s. lr_endLineNumberExclusive s < lr_startLineNumber r) xs"
  define B where "B = takeWhile (\<lambda>s. lr_startLineNumber s \<le> lr_endLineNumberExclusive r) R"
  define C where "C = dropWhile (\<lambda>s. lr_startLineNumber s \<le> lr_endLineNumberExclusive r) R"
  note blocks = takeWhile_dropWhile_blocks[OF n]
  have 1: "xs = A @ B @ C" unfolding A_def B_def C_def R_def by (rule blocks(1))
  have 2: "\<forall>a\<in>set A. lr_endLineNumberExclusive a < lr_startLineNumber r"
    unfolding A_def by (rule blocks(2))
  have 3: "\<forall>b\<in>set B. lr_startLineNumber r \<le> lr_endLineNumberExclusive b \<and>
                    lr_startLineNumber b \<le> lr_endLineNumberExclusive r"
    unfolding B_def R_def by (rule blocks(3))
  have 4: "\<forall>c\<in>set C. lr_startLineNumber r \<le> lr_endLineNumberExclusive c \<and>
                    lr_endLineNumberExclusive r < lr_startLineNumber c"
    unfolding C_def R_def by (rule blocks(4))
  have "\<forall>a\<in>set A. lr_endLineNumberExclusive a < lr_startLineNumber r \<and> line_wf a"
    using 2 n 1 by (auto simp: normalized_append normalized_def)
  from joinRange_idx[OF 1 r this 3 4] 1 2 3 4 show thesis by (intro that) auto
qed

lemma line_join_eq:
  "line_wf a \<Longrightarrow> line_wf b \<Longrightarrow> LineRange_join a b = Inr
     \<lparr>lr_startLineNumber = min (lr_startLineNumber a) (lr_startLineNumber b),
      lr_endLineNumberExclusive = max (lr_endLineNumberExclusive a) (lr_endLineNumberExclusive b)\<rparr>"
  by (simp add: LineRange_join_def)

text \<open>The three branches of \<open>addRange\<close> do the same thing: replace the block by its hull.\<close>

lemma addRange_hull:
  assumes xs: "lrs_normalizedRanges s = A @ B @ C" and n: "line_normalized (A @ B @ C)"
    and r: "lr_startLineNumber r < lr_endLineNumberExclusive r" and ne: "B \<noteq> []"
    and idx: "joinRangeStartIdx (A @ B @ C) r = int (length A)"
             "joinRangeEndIdxExclusive (A @ B @ C) r = int (length A) + int (length B)"
  shows "LineRangeSet_addRange r s = Inr (LineRangeSet_new (A @ [
      \<lparr>lr_startLineNumber = min (lr_startLineNumber r) (lr_startLineNumber (hd B)),
       lr_endLineNumberExclusive = max (lr_endLineNumberExclusive r) (lr_endLineNumberExclusive (last B))\<rparr>] @ C))"
proof -
  have nB: "line_normalized B" using n by (simp add: normalized_append)
  have wf: "line_wf b" if "b \<in> set B" for b using nB that by (simp add: normalized_def)
  note ends = blocks_nth[OF refl ne, of A C]
  have idx': "nat (int (length A) + int (length B) - 1) = length A + length B - 1"
    using ne by (cases B) auto
  show ?thesis
  proof (cases "length B = 1")
    case True
    then obtain b where B: "B = [b]" by (cases B) auto
    with wf[of b] r xs idx show ?thesis
      by (simp add: LineRangeSet_addRange_def LineRange_length_def Let_def LineRangeSet_new_def
          list_update_append line_join_eq min.commute max.commute)
  next
    case False
    have hb: "hd B \<in> set B" "last B \<in> set B" using ne by auto
    have hull: "min (lr_startLineNumber (last B)) (lr_startLineNumber (hd B)) = lr_startLineNumber (hd B)"
      "max (lr_endLineNumberExclusive (last B)) (lr_endLineNumberExclusive (hd B)) = lr_endLineNumberExclusive (last B)"
      using normalized_bounds[OF nB ne hb(1)] normalized_bounds[OF nB ne hb(2)] by simp_all
    have le: "lr_startLineNumber (hd B) \<le> lr_endLineNumberExclusive (last B)"
      using normalized_bounds[OF nB ne hb(1)] wf[OF hb(1)] by simp
    have "int (length A) \<noteq> int (length A) + int (length B) - 1" using False by simp
    then show ?thesis
      using ne r xs idx le hb splice_blocks[OF refl, of A B C]
      by (simp add: LineRangeSet_addRange_def LineRange_length_def Let_def LineRangeSet_new_def
          ends(1) ends(2)[simplified] idx' wf line_join_eq hull min.commute max.commute)
  qed
qed

lemma line_addRange_ok:
  assumes n: "line_normalized (lrs_normalizedRanges s)" and r: "line_wf r"
  shows "\<exists>s'. LineRangeSet_addRange r s = Inr s' \<and> line_normalized (lrs_normalizedRanges s') \<and>
           line_points (lrs_normalizedRanges s') = line_points (lrs_normalizedRanges s) \<union> lines_in r \<and>
           (\<forall>x\<in>set (lrs_normalizedRanges s').
              x \<in> set (lrs_normalizedRanges s) \<or> lr_startLineNumber x < lr_endLineNumberExclusive x)"
proof (cases "lr_startLineNumber r = lr_endLineNumberExclusive r")
  case True
  then show ?thesis using n by (simp add: LineRangeSet_addRange_def LineRange_length_def)
next
  case False
  then have r': "lr_startLineNumber r < lr_endLineNumberExclusive r" using r by simp
  obtain A B C where b: "lrs_normalizedRanges s = A @ B @ C"
    "\<forall>a\<in>set A. lr_endLineNumberExclusive a < lr_startLineNumber r"
    "\<forall>b\<in>set B. lr_startLineNumber r \<le> lr_endLineNumberExclusive b \<and>
                lr_startLineNumber b \<le> lr_endLineNumberExclusive r"
    "\<forall>c\<in>set C. lr_endLineNumberExclusive r < lr_startLineNumber c"
    and idx: "joinRangeStartIdx (lrs_normalizedRanges s) r = int (length A)"
    "joinRangeEndIdxExclusive (lrs_normalizedRanges s) r = int (length A) + int (length B)"
    by (rule joinRange_blocks[OF n r])
  note n' = n[unfolded b(1)] and idx' = idx[unfolded b(1)]
  show ?thesis
  proof (cases "B = []")
    case True
    have "LineRangeSet_addRange r s = Inr (LineRangeSet_new (A @ [r] @ C))"
      using r' b(1) idx' True
      by (simp add: LineRangeSet_addRange_def LineRange_length_def LineRangeSet_new_def js_splice_def)
    with insert_block[of lr_startLineNumber lr_endLineNumberExclusive A C r] n' r r' b True
    show ?thesis by auto
  next
    case False
    let ?n = "\<lparr>lr_startLineNumber = min (lr_startLineNumber r) (lr_startLineNumber (hd B)),
       lr_endLineNumberExclusive = max (lr_endLineNumberExclusive r) (lr_endLineNumberExclusive (last B))\<rparr>"
    have "line_normalized (A @ [?n] @ C)"
      and "line_points (A @ [?n] @ C) = line_points (A @ B @ C) \<union> lines_in r"
      using merge_block[of lr_startLineNumber lr_endLineNumberExclusive A B C r ?n] n' False r b by auto
    moreover have "lr_startLineNumber ?n < lr_endLineNumberExclusive ?n" using r' by simp
    ultimately show ?thesis
      using addRange_hull[OF b(1) n' r' False idx'] b(1) by auto
  qed
qed

interpretation line_set: interval_set lr_startLineNumber lr_endLineNumberExclusive
  lrs_normalizedRanges LineRangeSet_addRange
  by unfold_locales (use line_addRange_ok in blast)

subsection \<open>Union, difference and intersection\<close>

lemma lines_inv_simps [simp]:
  "lines_inv []"
  "lines_inv (x # xs) \<longleftrightarrow> lr_startLineNumber x < lr_endLineNumberExclusive x \<and>
     (\<forall>b\<in>set xs. lr_endLineNumberExclusive x < lr_startLineNumber b) \<and> lines_inv xs"
  "lines_inv (xs @ ys) \<longleftrightarrow> lines_inv xs \<and> lines_inv ys \<and>
     (\<forall>a\<in>set xs. \<forall>b\<in>set ys. lr_endLineNumberExclusive a < lr_startLineNumber b)"
  by (auto simp: lines_inv_def normalized_append)

lemma getUnion_step_ok:
  assumes "lines_inv (res @ [c])" "lr_startLineNumber n < lr_endLineNumberExclusive n"
    and "lr_startLineNumber c \<le> lr_startLineNumber n"
  shows "\<exists>c' res'. getUnion_step (Some c) res n = Inr (Some c', res') \<and> lines_inv (res' @ [c']) \<and>
     lr_startLineNumber c' \<le> lr_startLineNumber n \<and>
     line_points (res' @ [c']) = line_points (res @ [c]) \<union> lines_in n"
proof (cases "lr_endLineNumberExclusive c \<ge> lr_startLineNumber n")
  case True
  with assms show ?thesis by (auto simp: getUnion_step_def ivl_disj_un)
next
  case False
  with assms have "\<forall>a\<in>set res. lr_endLineNumberExclusive a < lr_startLineNumber n" by force
  with assms False show ?thesis by (auto simp: getUnion_step_def)
qed

lemma getUnion_next:
  assumes "xs \<noteq> [] \<or> ys \<noteq> []" "lines_inv xs" "lines_inv ys"
    and "\<forall>x\<in>set xs \<union> set ys. lr_startLineNumber c \<le> lr_startLineNumber x"
  obtains n xs' ys' where
    "\<And>st. getUnion_loop xs ys st = bindR (getUnion_step (fst st) (snd st) n) (getUnion_loop xs' ys')"
    and "length xs + length ys = Suc (length xs' + length ys')" and "lines_inv xs'" and "lines_inv ys'"
    and "lr_startLineNumber n < lr_endLineNumberExclusive n" and "lr_startLineNumber c \<le> lr_startLineNumber n"
    and "\<forall>x\<in>set xs' \<union> set ys'. lr_startLineNumber n \<le> lr_startLineNumber x"
    and "line_points xs \<union> line_points ys = lines_in n \<union> line_points xs' \<union> line_points ys'"
proof -
  have hd_min: "\<forall>b\<in>set zs. lr_startLineNumber z \<le> lr_startLineNumber b" if "lines_inv (z # zs)" for z zs
    using that by fastforce
  consider (left) x xs' where "xs = x # xs'" "ys = [] \<or> lr_startLineNumber x < lr_startLineNumber (hd ys)"
    | (right) y ys' where "ys = y # ys'" "xs = [] \<or> lr_startLineNumber y \<le> lr_startLineNumber (hd xs)"
    using assms(1) by (cases xs; cases ys) fastforce+
  then show thesis
  proof cases
    case left
    have "\<forall>b\<in>set xs' \<union> set ys. lr_startLineNumber x \<le> lr_startLineNumber b"
      using left assms(2,3) hd_min[of x xs'] hd_min[of "hd ys" "tl ys"] by (cases ys) force+
    moreover have "getUnion_loop xs ys st = bindR (getUnion_step (fst st) (snd st) x) (getUnion_loop xs' ys)" for st
      using left by (cases ys) auto
    ultimately show thesis using left assms by (intro that[of x xs' ys]) auto
  next
    case right
    have "\<forall>b\<in>set xs \<union> set ys'. lr_startLineNumber y \<le> lr_startLineNumber b"
      using right assms(2,3) hd_min[of y ys'] hd_min[of "hd xs" "tl xs"] by (cases xs) force+
    moreover have "getUnion_loop xs ys st = bindR (getUnion_step (fst st) (snd st) y) (getUnion_loop xs ys')" for st
      using right by (cases xs) auto
    ultimately show thesis using right assms by (intro that[of y xs ys']) auto
  qed
qed

lemma getUnion_loop_ok:
  assumes "lines_inv (res @ [c])" "lines_inv xs" "lines_inv ys"
    and "\<forall>x\<in>set xs \<union> set ys. lr_startLineNumber c \<le> lr_startLineNumber x"
  shows "\<exists>c' res'. getUnion_loop xs ys (Some c, res) = Inr (Some c', res') \<and> lines_inv (res' @ [c']) \<and>
     line_points (res' @ [c']) = line_points (res @ [c]) \<union> line_points xs \<union> line_points ys"
  using assms
proof (induction "length xs + length ys" arbitrary: xs ys c res)
  case 0
  then show ?case by simp
next
  case (Suc k)
  have "xs \<noteq> [] \<or> ys \<noteq> []" using Suc.hyps(2) by auto
  from getUnion_next[OF this Suc.prems(2-4)] Suc.hyps(2) obtain n xs' ys' where step:
      "\<And>st. getUnion_loop xs ys st = bindR (getUnion_step (fst st) (snd st) n) (getUnion_loop xs' ys')"
      "Suc k = Suc (length xs' + length ys')" "lines_inv xs'" "lines_inv ys'"
      "lr_startLineNumber n < lr_endLineNumberExclusive n" "lr_startLineNumber c \<le> lr_startLineNumber n"
      "\<forall>x\<in>set xs' \<union> set ys'. lr_startLineNumber n \<le> lr_startLineNumber x"
      "line_points xs \<union> line_points ys = lines_in n \<union> line_points xs' \<union> line_points ys'"
    by (metis (no_types))
  obtain c1 res1 where c1: "getUnion_step (Some c) res n = Inr (Some c1, res1)" "lines_inv (res1 @ [c1])"
      "lr_startLineNumber c1 \<le> lr_startLineNumber n"
      "line_points (res1 @ [c1]) = line_points (res @ [c]) \<union> lines_in n"
    using getUnion_step_ok[OF Suc.prems(1) step(5,6)] by blast
  have "\<forall>x\<in>set xs' \<union> set ys'. lr_startLineNumber c1 \<le> lr_startLineNumber x"
    using c1(3) step(7) by force
  from Suc.hyps(1)[OF Suc_inject[OF step(2)] c1(2) step(3,4) this] obtain c' res' where
      "getUnion_loop xs' ys' (Some c1, res1) = Inr (Some c', res')" "lines_inv (res' @ [c'])"
      "line_points (res' @ [c']) = line_points (res1 @ [c1]) \<union> line_points xs' \<union> line_points ys'"
    by blast
  with step(1)[of "(Some c, res)"] c1(1,4) step(8) show ?case by (auto simp: Un_assoc)
qed

lemma getUnion_ok:
  assumes "LineRangeSet_inv a" "LineRangeSet_inv b"
  shows "\<exists>s. LineRangeSet_getUnion a b = Inr s \<and> LineRangeSet_inv s \<and>
     LineRangeSet_lines s = LineRangeSet_lines a \<union> LineRangeSet_lines b"
proof (cases "lrs_normalizedRanges a = [] \<or> lrs_normalizedRanges b = []")
  case True
  with assms show ?thesis by (auto simp: LineRangeSet_getUnion_def LineRangeSet_lines_def)
next
  case False
  let ?xs = "lrs_normalizedRanges a" and ?ys = "lrs_normalizedRanges b"
  define m where "m = min (lr_startLineNumber (hd ?xs)) (lr_startLineNumber (hd ?ys))"
  let ?c = "\<lparr>lr_startLineNumber = m, lr_endLineNumberExclusive = m\<rparr>"
  have inv: "lines_inv ?xs" "lines_inv ?ys" using assms by (auto simp: LineRangeSet_inv_def)
  have "\<forall>x\<in>set ?xs \<union> set ?ys. lr_startLineNumber ?c \<le> lr_startLineNumber x"
    using False inv normalized_bounds[of lr_startLineNumber lr_endLineNumberExclusive ?xs]
      normalized_bounds[of lr_startLineNumber lr_endLineNumberExclusive ?ys]
    by (fastforce simp: m_def lines_inv_def min_le_iff_disj)
  from getUnion_next[OF _ inv this] False obtain n xs' ys' where step:
      "\<And>st. getUnion_loop ?xs ?ys st = bindR (getUnion_step (fst st) (snd st) n) (getUnion_loop xs' ys')"
      "lines_inv xs'" "lines_inv ys'" "lr_startLineNumber n < lr_endLineNumberExclusive n"
      "\<forall>x\<in>set xs' \<union> set ys'. lr_startLineNumber n \<le> lr_startLineNumber x"
      "line_points ?xs \<union> line_points ?ys = lines_in n \<union> line_points xs' \<union> line_points ys'"
    by (metis (no_types))
  have "lines_inv ([] @ [n])" using step(4) by simp
  from getUnion_loop_ok[OF this step(2,3,5)] step(1)[of "(None, [])"] step(6) False show ?thesis
    by (auto simp: LineRangeSet_getUnion_def LineRangeSet_lines_def LineRangeSet_inv_def getUnion_step_def Un_assoc)
qed

lemma subtractFrom_loop_ok:
  assumes "lines_inv B" "\<forall>b\<in>set B. start \<le> lr_endLineNumberExclusive b" "lines_inv res"
    and "\<forall>x\<in>set res. lr_endLineNumberExclusive x < start"
  shows "\<exists>res'. subtractFrom_loop B start res =
       Inr (if B = [] then start else lr_endLineNumberExclusive (last B), res') \<and> lines_inv res' \<and>
     (\<forall>x\<in>set res'. lr_endLineNumberExclusive x < (if B = [] then start else lr_endLineNumberExclusive (last B))) \<and>
     line_points res' = line_points res \<union>
       ({start..<if B = [] then start else lr_endLineNumberExclusive (last B)} - line_points B)"
  using assms
proof (induction B arbitrary: start res)
  case (Cons b B)
  define st where "st = (if B = [] then lr_endLineNumberExclusive b else lr_endLineNumberExclusive (last B))"
  define res1 where "res1 = (if lr_startLineNumber b > start
    then res @ [\<lparr>lr_startLineNumber = start, lr_endLineNumberExclusive = lr_startLineNumber b\<rparr>] else res)"
  have loop: "subtractFrom_loop (b # B) start res = subtractFrom_loop B (lr_endLineNumberExclusive b) res1"
    by (simp add: res1_def)
  have b: "lr_startLineNumber b < lr_endLineNumberExclusive b" "start \<le> lr_endLineNumberExclusive b"
    "lines_inv B" "\<forall>x\<in>set B. lr_endLineNumberExclusive b < lr_startLineNumber x" using Cons.prems by auto
  have B: "\<forall>x\<in>set B. lr_endLineNumberExclusive b \<le> lr_endLineNumberExclusive x"
    using b(3,4) by (fastforce simp: lines_inv_def)
  have r1: "lines_inv res1" "\<forall>x\<in>set res1. lr_endLineNumberExclusive x < lr_endLineNumberExclusive b"
    using Cons.prems b by (auto simp: res1_def)
  have le: "lr_endLineNumberExclusive b \<le> st" using B by (simp add: st_def)
  have p1: "line_points res1 = line_points res \<union> {start..<lr_startLineNumber b}" by (auto simp: res1_def)
  have pB: "\<forall>x\<in>line_points B. lr_endLineNumberExclusive b < x" using b(4) by (auto simp: points_def)
  obtain res' where res': "subtractFrom_loop B (lr_endLineNumberExclusive b) res1 = Inr (st, res')" "lines_inv res'"
      "\<forall>x\<in>set res'. lr_endLineNumberExclusive x < st"
      "line_points res' = line_points res1 \<union> ({lr_endLineNumberExclusive b..<st} - line_points B)"
    using Cons.IH[OF b(3) B r1] unfolding st_def by blast
  have "x \<in> {start..<lr_startLineNumber b} \<union> ({lr_endLineNumberExclusive b..<st} - line_points B) \<longleftrightarrow>
      x \<in> {start..<st} - line_points (b # B)" for x
    using pB le b(1,2) by (cases "x \<in> line_points B") (force, auto)
  then have "line_points res' = line_points res \<union> ({start..<st} - line_points (b # B))"
    unfolding res'(4) p1 by blast
  with loop res'(1-3) show ?case
    unfolding st_def by (cases "B = []") (simp_all del: subtractFrom_loop.simps points_simps lines_inv_simps)
qed simp

lemma subtractFrom_ok:
  assumes "LineRangeSet_inv this" "line_wf r"
  shows "\<exists>s. LineRangeSet_subtractFrom this r = Inr s \<and>
     (lr_startLineNumber r < lr_endLineNumberExclusive r \<longrightarrow> LineRangeSet_inv s) \<and>
     LineRangeSet_lines s = lines_in r - LineRangeSet_lines this"
proof -
  let ?xs = "lrs_normalizedRanges this"
  have inv: "lines_inv ?xs" and n: "line_normalized ?xs"
    using assms by (auto simp: LineRangeSet_inv_def lines_inv_def)
  obtain A B C where b: "?xs = A @ B @ C"
    "\<forall>a\<in>set A. lr_endLineNumberExclusive a < lr_startLineNumber r"
    "\<forall>b\<in>set B. lr_startLineNumber r \<le> lr_endLineNumberExclusive b \<and>
                lr_startLineNumber b \<le> lr_endLineNumberExclusive r"
    "\<forall>c\<in>set C. lr_endLineNumberExclusive r < lr_startLineNumber c"
    and idx: "joinRangeStartIdx ?xs r = int (length A)"
    "joinRangeEndIdxExclusive ?xs r = int (length A) + int (length B)"
    by (rule joinRange_blocks[OF n assms(2)])
  have "lines_in r \<inter> (line_points A \<union> line_points C) = {}"
    using b(2,4) by (fastforce simp: points_def)
  then have pts: "lines_in r - line_points ?xs = lines_in r - line_points B" by (auto simp: b(1))
  show ?thesis
  proof (cases "B = []")
    case True
    then show ?thesis using idx pts
      by (auto simp: LineRangeSet_subtractFrom_def LineRangeSet_lines_def LineRangeSet_inv_def)
  next
    case False
    let ?e = "lr_endLineNumberExclusive (last B)"
    have sl: "js_slice ?xs (int (length A)) (int (length A) + int (length B)) = B"
      by (simp add: b(1) js_slice_valid)
    have B: "lines_inv B" "\<forall>x\<in>set B. lr_startLineNumber r \<le> lr_endLineNumberExclusive x"
      using inv b(1,3) by auto
    from subtractFrom_loop_ok[OF B, of "[]"] False obtain res where
      res: "subtractFrom_loop B (lr_startLineNumber r) [] = Inr (?e, res)" "lines_inv res"
      "\<forall>x\<in>set res. lr_endLineNumberExclusive x < ?e"
      "line_points res = {lr_startLineNumber r..<?e} - line_points B"
      by auto
    have lB: "lr_startLineNumber (last B) \<le> lr_endLineNumberExclusive r" "lr_startLineNumber r \<le> ?e"
      "lines_in (last B) \<subseteq> line_points B"
      using b(3) last_in_set[OF False] by (blast, blast, force simp: points_def)
    have small: "x < ?e" if x: "x \<in> line_points B" for x
    proof -
      obtain b where "b \<in> set B" "x < lr_endLineNumberExclusive b" using x by (auto simp: points_def)
      with normalized_bounds[of lr_startLineNumber lr_endLineNumberExclusive B b] B(1) False
      show ?thesis by (force simp: lines_inv_def)
    qed
    show ?thesis
    proof (cases "?e < lr_endLineNumberExclusive r")
      case True
      have "line_points res \<union> {?e..<lr_endLineNumberExclusive r} = lines_in r - line_points B"
        unfolding res(4) using lB(2) True small by force
      with True False idx sl res pts show ?thesis
        by (auto simp: LineRangeSet_subtractFrom_def LineRangeSet_lines_def LineRangeSet_inv_def)
    next
      case False
      then have "{lr_endLineNumberExclusive r..<?e} \<subseteq> line_points B" using lB by auto
      then have "line_points res = lines_in r - line_points B"
        unfolding res(4) using False by (auto simp: subset_iff not_less)
      with False \<open>B \<noteq> []\<close> idx sl res pts show ?thesis
        by (auto simp: LineRangeSet_subtractFrom_def LineRangeSet_lines_def LineRangeSet_inv_def)
    qed
  qed
qed

lemma line_intersect_eq:
  "LineRange_intersect a b =
     Inr (let s = max (lr_startLineNumber a) (lr_startLineNumber b);
              e = min (lr_endLineNumberExclusive a) (lr_endLineNumberExclusive b)
          in if s \<le> e then Some \<lparr>lr_startLineNumber = s, lr_endLineNumberExclusive = e\<rparr> else None)"
  by (simp add: LineRange_intersect_def Let_def)

lemma getIntersection_loop_ok:
  assumes "lines_inv xs" "lines_inv ys" "lines_inv res"
    and "\<forall>x\<in>set res. \<forall>a\<in>set xs. \<forall>b\<in>set ys.
           lr_endLineNumberExclusive x < max (lr_startLineNumber a) (lr_startLineNumber b)"
  shows "\<exists>res'. getIntersection_loop xs ys res = Inr res' \<and> lines_inv res' \<and>
     line_points res' = line_points res \<union> (line_points xs \<inter> line_points ys)"
  using assms
proof (induction xs ys res rule: getIntersection_loop.induct)
  case (1 r1 xs r2 ys res)
  define s where "s = max (lr_startLineNumber r1) (lr_startLineNumber r2)"
  define e where "e = min (lr_endLineNumberExclusive r1) (lr_endLineNumberExclusive r2)"
  define res1 where "res1 = (if s < e then res @ [\<lparr>lr_startLineNumber = s, lr_endLineNumberExclusive = e\<rparr>] else res)"
  define i where "i = (if s \<le> e then Some \<lparr>lr_startLineNumber = s, lr_endLineNumberExclusive = e\<rparr> else None)"
  have i: "LineRange_intersect r1 r2 = Inr i" by (simp add: line_intersect_eq Let_def s_def e_def i_def)
  have push: "(case i of None \<Rightarrow> res | Some x \<Rightarrow> if \<not> LineRange_isEmpty x then res @ [x] else res) = res1"
    by (auto simp: i_def res1_def LineRange_isEmpty_def)
  have inv1: "lines_inv res1" using "1.prems" by (auto simp: res1_def s_def)
  have p1: "line_points res1 = line_points res \<union> (lines_in r1 \<inter> lines_in r2)"
    by (auto simp: res1_def s_def e_def)
  have far1: "\<forall>x\<in>line_points xs. lr_endLineNumberExclusive r1 < x"
    and far2: "\<forall>x\<in>line_points ys. lr_endLineNumberExclusive r2 < x"
    using "1.prems"(1,2) by (auto simp: points_def)
  show ?case
  proof (cases "lr_endLineNumberExclusive r1 < lr_endLineNumberExclusive r2")
    case True
    have "\<forall>x\<in>set res1. \<forall>a\<in>set xs. \<forall>b\<in>set (r2 # ys).
           lr_endLineNumberExclusive x < max (lr_startLineNumber a) (lr_startLineNumber b)"
      using "1.prems"(1,4) by (auto simp: res1_def e_def)
    from "1.IH"(1)[OF push[symmetric] True _ "1.prems"(2) inv1 this] "1.prems"(1)
    obtain res' where "getIntersection_loop xs (r2 # ys) res1 = Inr res'" "lines_inv res'"
      "line_points res' = line_points res1 \<union> (line_points xs \<inter> line_points (r2 # ys))" by auto
    moreover have "lines_in r1 \<inter> line_points ys = {}" using far2 True by fastforce
    ultimately show ?thesis using i push True p1 by (auto simp: Let_def)
  next
    case False
    have "\<forall>x\<in>set res1. \<forall>a\<in>set (r1 # xs). \<forall>b\<in>set ys.
           lr_endLineNumberExclusive x < max (lr_startLineNumber a) (lr_startLineNumber b)"
      using "1.prems"(2,4) by (auto simp: res1_def e_def)
    from "1.IH"(2)[OF push[symmetric] False "1.prems"(1) _ inv1 this] "1.prems"(2)
    obtain res' where "getIntersection_loop (r1 # xs) ys res1 = Inr res'" "lines_inv res'"
      "line_points res' = line_points res1 \<union> (line_points (r1 # xs) \<inter> line_points ys)" by auto
    moreover have "lines_in r2 \<inter> line_points xs = {}" using far1 False by fastforce
    ultimately show ?thesis using i push False p1 by (auto simp: Let_def)
  qed
qed auto

text \<open>The last range that starts before a line has the largest end of those that do.\<close>

lemma findLast_start_before:
  assumes "line_normalized xs"
  shows "(case findLastMonotonous xs (on_elem (\<lambda>r. lr_startLineNumber r < t)) of
            None \<Rightarrow> False | Some r \<Rightarrow> lr_endLineNumberExclusive r > k) \<longleftrightarrow>
         (\<exists>r\<in>set xs. lr_startLineNumber r < t \<and> lr_endLineNumberExclusive r > k)"
proof -
  let ?A = "takeWhile (\<lambda>r. lr_startLineNumber r < t) xs" and ?B = "dropWhile (\<lambda>r. lr_startLineNumber r < t) xs"
  have xs: "xs = ?A @ ?B" by simp
  have nA: "line_normalized ?A" and nB: "line_normalized ?B"
    using assms normalized_append[of lr_startLineNumber lr_endLineNumberExclusive ?A ?B] by simp_all
  have A: "\<forall>a\<in>set ?A. lr_startLineNumber a < t" by (auto dest: set_takeWhileD)
  have B: "\<forall>b\<in>set ?B. \<not> lr_startLineNumber b < t"
  proof (cases ?B)
    case Nil
    show ?thesis unfolding Nil by simp
  next
    case (Cons x B')
    then have "\<not> lr_startLineNumber x < t" using hd_dropWhile[of "\<lambda>r. lr_startLineNumber r < t" xs] by simp
    with nB Cons show ?thesis by fastforce
  qed
  note found = findLastMonotonous_on_elem_blocks[OF xs A B]
  have "(\<exists>r\<in>set xs. lr_startLineNumber r < t \<and> lr_endLineNumberExclusive r > k) \<longleftrightarrow>
      (\<exists>r\<in>set ?A. lr_endLineNumberExclusive r > k)"
    using A B by (subst xs, unfold set_append) blast
  also have "\<dots> \<longleftrightarrow> ?A \<noteq> [] \<and> lr_endLineNumberExclusive (last ?A) > k"
    using normalized_bounds[OF nA] last_in_set[of ?A] by force
  finally show ?thesis by (simp add: found)
qed

lemma LineRangeSet_intersects_iff:
  "LineRangeSet_inv s \<Longrightarrow>
   LineRangeSet_intersects s r \<longleftrightarrow> (\<exists>x\<in>set (lrs_normalizedRanges s). LineRange_intersectsStrict x r)"
  using findLast_start_before[of "lrs_normalizedRanges s" "lr_startLineNumber r" "lr_endLineNumberExclusive r"]
  by (auto simp: LineRangeSet_intersects_def LineRangeSet_inv_def lines_inv_def LineRange_intersectsStrict_def)

lemma LineRangeSet_contains_iff:
  "LineRangeSet_inv s \<Longrightarrow> LineRangeSet_contains s n \<longleftrightarrow> n \<in> LineRangeSet_lines s"
  using findLast_start_before[of "lrs_normalizedRanges s" n "n + 1"]
  by (auto simp: LineRangeSet_contains_def LineRangeSet_inv_def lines_inv_def LineRangeSet_lines_def
      points_def)

lemma getWithDelta_ok:
  assumes "LineRangeSet_inv s"
  shows "\<exists>s'. LineRangeSet_getWithDelta s d = Inr s' \<and> LineRangeSet_inv s' \<and>
     LineRangeSet_lines s' = (\<lambda>n. n + d) ` LineRangeSet_lines s"
proof -
  let ?f = "\<lambda>r. \<lparr>lr_startLineNumber = lr_startLineNumber r + d,
    lr_endLineNumberExclusive = lr_endLineNumberExclusive r + d\<rparr>"
  have wf: "lr_startLineNumber r \<le> lr_endLineNumberExclusive r" if "r \<in> set (lrs_normalizedRanges s)" for r
    using assms that by (auto simp: LineRangeSet_inv_def lines_inv_def)
  then have m: "mapR (\<lambda>r. LineRange_delta r d) (lrs_normalizedRanges s) = Inr (map ?f (lrs_normalizedRanges s))"
    by (intro mapR_total) (simp add: LineRange_delta_def)
  have inv: "lines_inv xs \<Longrightarrow> lines_inv (map ?f xs)" for xs by (induction xs) auto
  have "line_points (map ?f xs) = (\<lambda>n. n + d) ` line_points xs" for xs
    by (induction xs) (auto simp: image_Un)
  with m inv assms show ?thesis
    by (auto simp: LineRangeSet_getWithDelta_def LineRangeSet_inv_def LineRangeSet_lines_def)
qed

lemma LineRange_subtract_ok:
  assumes "line_wf a" "line_wf b"
  shows "\<exists>rs. LineRange_subtract a (Some b) = Inr rs \<and> (\<forall>r\<in>set rs. line_wf r) \<and>
     line_points rs = lines_in a - lines_in b"
  using assms unfolding LineRange_subtract_def
  by (cases "lr_startLineNumber a < lr_startLineNumber b \<and> lr_endLineNumberExclusive b < lr_endLineNumberExclusive a";
      cases "lr_startLineNumber b \<le> lr_startLineNumber a \<and> lr_endLineNumberExclusive a \<le> lr_endLineNumberExclusive b";
      cases "lr_endLineNumberExclusive b < lr_endLineNumberExclusive a")
     (auto simp: not_le not_less)

lemma line_addRange_inv:
  assumes "LineRangeSet_inv s" "line_wf r"
  shows "\<exists>s'. LineRangeSet_addRange r s = Inr s' \<and> LineRangeSet_inv s' \<and>
           LineRangeSet_lines s' = LineRangeSet_lines s \<union> lines_in r"
  using line_addRange_ok[of s r] assms
  by (auto simp: LineRangeSet_inv_def lines_inv_def LineRangeSet_lines_def)

lemma line_addRange_all_inv:
  assumes "LineRangeSet_inv s" "\<forall>r\<in>set rs. line_wf r"
  shows "\<exists>s'. foldl (\<lambda>acc r. bindR acc (LineRangeSet_addRange r)) (Inr s) rs = Inr s' \<and> LineRangeSet_inv s'"
  using assms
proof (induction rs arbitrary: s)
  case (Cons r rs)
  then obtain s1 where "LineRangeSet_addRange r s = Inr s1" "LineRangeSet_inv s1"
    using line_addRange_inv[of s r] by auto
  with Cons show ?case by simp
qed simp

text \<open>The invariant makes the representation canonical.\<close>

lemma LineRangeSet_canonical:
  assumes "LineRangeSet_inv a" "LineRangeSet_inv b" "LineRangeSet_lines a = LineRangeSet_lines b"
  shows "a = b"
proof -
  have "map (\<lambda>r. (lr_startLineNumber r, lr_endLineNumberExclusive r)) (lrs_normalizedRanges a) =
        map (\<lambda>r. (lr_startLineNumber r, lr_endLineNumberExclusive r)) (lrs_normalizedRanges b)"
    using assms by (intro normalized_canonical) (auto simp: LineRangeSet_inv_def lines_inv_def LineRangeSet_lines_def)
  moreover have "inj (\<lambda>r :: line_range. (lr_startLineNumber r, lr_endLineNumberExclusive r))"
    by (auto intro: injI)
  ultimately have "lrs_normalizedRanges a = lrs_normalizedRanges b" by (metis inj_map_eq_map)
  then show ?thesis by simp
qed

subsection \<open>Properties\<close>

text \<open>
  C4. \<open>LineRangeSet.addRange\<close>, with its binary searches and its three ways of replacing a
  block: adding any sequence of line ranges to a set that satisfies the documented
  representation invariant never throws, keeps the invariant (sorted, no two ranges touching,
  none empty), and \<open>contains\<close> on the result answers membership in the union.
\<close>

theorem LineRangeSet_addRange_union:
  assumes "LineRangeSet_inv s" and "\<forall>r\<in>set rs. lr_startLineNumber r \<le> lr_endLineNumberExclusive r"
  shows "\<exists>s'. foldl (\<lambda>acc r. bindR acc (LineRangeSet_addRange r)) (Inr s) rs = Inr s' \<and>
     LineRangeSet_inv s' \<and>
     (\<forall>n. LineRangeSet_contains s' n \<longleftrightarrow>
        LineRangeSet_contains s n \<or> (\<exists>r\<in>set rs. LineRange_contains r n))"
proof -
  have n: "line_normalized (lrs_normalizedRanges s)"
    using assms(1) by (simp add: LineRangeSet_inv_def lines_inv_def)
  obtain s' where s': "foldl (\<lambda>acc r. bindR acc (LineRangeSet_addRange r)) (Inr s) rs = Inr s'" "LineRangeSet_inv s'"
    using line_addRange_all_inv[OF assms] by blast
  moreover have "LineRangeSet_lines s' = LineRangeSet_lines s \<union> line_points rs"
    using line_set.add_all[OF n assms(2)] s'(1) by (auto simp: LineRangeSet_lines_def)
  then have "n \<in> LineRangeSet_lines s' \<longleftrightarrow> n \<in> LineRangeSet_lines s \<or> (\<exists>r\<in>set rs. LineRange_contains r n)" for n
    by (auto simp: points_def LineRange_contains_def)
  ultimately show ?thesis
    using LineRangeSet_contains_iff[OF assms(1)] LineRangeSet_contains_iff[OF s'(2)] by auto
qed

theorem LineRangeSet_addRange_union_witness:
  "\<exists>s'. foldl (\<lambda>acc r. bindR acc (LineRangeSet_addRange r))
        (Inr (LineRangeSet_new [\<lparr>lr_startLineNumber = 1, lr_endLineNumberExclusive = 3\<rparr>]))
        [\<lparr>lr_startLineNumber = 7, lr_endLineNumberExclusive = 9\<rparr>,
         \<lparr>lr_startLineNumber = 3, lr_endLineNumberExclusive = 7\<rparr>] = Inr s' \<and> LineRangeSet_contains s' 8"
proof -
  let ?s = "LineRangeSet_new [\<lparr>lr_startLineNumber = 1, lr_endLineNumberExclusive = 3\<rparr>]"
  let ?rs = "[\<lparr>lr_startLineNumber = 7, lr_endLineNumberExclusive = 9\<rparr>,
         \<lparr>lr_startLineNumber = 3, lr_endLineNumberExclusive = 7\<rparr>]"
  have "LineRangeSet_inv ?s" "\<forall>r\<in>set ?rs. lr_startLineNumber r \<le> lr_endLineNumberExclusive r"
    by (simp_all add: LineRangeSet_inv_def)
  from LineRangeSet_addRange_union[OF this] obtain s' where
    s': "foldl (\<lambda>acc r. bindR acc (LineRangeSet_addRange r)) (Inr ?s) ?rs = Inr s'"
    "\<forall>n. LineRangeSet_contains s' n \<longleftrightarrow> LineRangeSet_contains ?s n \<or> (\<exists>r\<in>set ?rs. LineRange_contains r n)"
    by blast
  then have "LineRangeSet_contains s' 8" by (simp add: LineRange_contains_def)
  with s'(1) show ?thesis by blast
qed

text \<open>
  C36. The merge loops of \<open>LineRangeSet\<close>: on sets that satisfy the invariant, \<open>getUnion\<close>,
  \<open>getIntersection\<close> and \<open>subtractFrom\<close> (of a non-empty range) never throw, their results
  satisfy the invariant, and stand for the union, the intersection and the difference of the
  sets of lines; \<open>intersects\<close> tells whether some stored range overlaps the argument.
\<close>

theorem LineRangeSet_set_operations:
  assumes "LineRangeSet_inv a" and "LineRangeSet_inv b"
    and "lr_startLineNumber r < lr_endLineNumberExclusive r"
  shows "\<exists>u i d.
     LineRangeSet_getUnion a b = Inr u \<and> LineRangeSet_inv u \<and>
     LineRangeSet_lines u = LineRangeSet_lines a \<union> LineRangeSet_lines b \<and>
     LineRangeSet_getIntersection a b = Inr i \<and> LineRangeSet_inv i \<and>
     LineRangeSet_lines i = LineRangeSet_lines a \<inter> LineRangeSet_lines b \<and>
     LineRangeSet_subtractFrom a r = Inr d \<and> LineRangeSet_inv d \<and>
     LineRangeSet_lines d = {n. LineRange_contains r n} - LineRangeSet_lines a \<and>
     (LineRangeSet_intersects a r \<longleftrightarrow> LineRangeSet_lines a \<inter> {n. LineRange_contains r n} \<noteq> {})"
proof -
  have r: "{n. LineRange_contains r n} = lines_in r" by (auto simp: LineRange_contains_def)
  obtain u where u: "LineRangeSet_getUnion a b = Inr u" "LineRangeSet_inv u"
    "LineRangeSet_lines u = LineRangeSet_lines a \<union> LineRangeSet_lines b"
    using getUnion_ok[OF assms(1,2)] by blast
  obtain i where i: "LineRangeSet_getIntersection a b = Inr i" "LineRangeSet_inv i"
    "LineRangeSet_lines i = LineRangeSet_lines a \<inter> LineRangeSet_lines b"
    using getIntersection_loop_ok[of "lrs_normalizedRanges a" "lrs_normalizedRanges b" "[]"] assms(1,2)
    by (auto simp: LineRangeSet_inv_def LineRangeSet_getIntersection_def LineRangeSet_lines_def)
  obtain d where d: "LineRangeSet_subtractFrom a r = Inr d" "LineRangeSet_inv d"
    "LineRangeSet_lines d = lines_in r - LineRangeSet_lines a"
    using subtractFrom_ok[OF assms(1), of r] assms(3) by auto
  have overlap: "lines_in x \<inter> lines_in r \<noteq> {} \<longleftrightarrow> LineRange_intersectsStrict x r"
    if "x \<in> set (lrs_normalizedRanges a)" for x
  proof -
    have "lr_startLineNumber x < lr_endLineNumberExclusive x"
      using assms(1) that by (simp add: LineRangeSet_inv_def lines_inv_def)
    then have "LineRange_intersectsStrict x r \<Longrightarrow>
        max (lr_startLineNumber x) (lr_startLineNumber r) \<in> lines_in x \<inter> lines_in r"
      using assms(3) by (auto simp: LineRange_intersectsStrict_def)
    then show ?thesis by (auto simp: LineRange_intersectsStrict_def)
  qed
  have "LineRangeSet_lines a \<inter> lines_in r \<noteq> {} \<longleftrightarrow>
      (\<exists>x\<in>set (lrs_normalizedRanges a). lines_in x \<inter> lines_in r \<noteq> {})"
    unfolding LineRangeSet_lines_def points_def by blast
  then have "LineRangeSet_intersects a r \<longleftrightarrow> LineRangeSet_lines a \<inter> lines_in r \<noteq> {}"
    using overlap LineRangeSet_intersects_iff[OF assms(1), of r] by blast
  with u i d show ?thesis unfolding r by blast
qed

theorem LineRangeSet_set_operations_witness:
  "\<exists>d. LineRangeSet_subtractFrom (LineRangeSet_new [\<lparr>lr_startLineNumber = 3, lr_endLineNumberExclusive = 5\<rparr>])
          \<lparr>lr_startLineNumber = 1, lr_endLineNumberExclusive = 9\<rparr> = Inr d \<and>
        LineRangeSet_lines d = {1, 2, 5, 6, 7, 8}"
proof -
  let ?a = "LineRangeSet_new [\<lparr>lr_startLineNumber = 3, lr_endLineNumberExclusive = 5\<rparr>]"
  let ?r = "\<lparr>lr_startLineNumber = 1, lr_endLineNumberExclusive = 9\<rparr>"
  have "LineRangeSet_inv ?a" "lr_startLineNumber ?r < lr_endLineNumberExclusive ?r"
    by (simp_all add: LineRangeSet_inv_def)
  from LineRangeSet_set_operations[OF this(1) this(1) this(2)] obtain d where
    "LineRangeSet_subtractFrom ?a ?r = Inr d"
    "LineRangeSet_lines d = {n. LineRange_contains ?r n} - LineRangeSet_lines ?a" by blast
  moreover have "{n. LineRange_contains ?r n} - LineRangeSet_lines ?a = {1, 2, 5, 6, 7, 8}"
    by (auto simp: LineRange_contains_def LineRangeSet_lines_def)
  ultimately show ?thesis by auto
qed

text \<open>
  The representation is canonical, so the results do not depend on how they are
  computed: \<open>getUnion\<close> is commutative as a value, and it equals adding the ranges of one set
  to the other one by one.
\<close>

theorem LineRangeSet_union_canonical:
  assumes "LineRangeSet_inv a" and "LineRangeSet_inv b"
  shows "LineRangeSet_getUnion a b = LineRangeSet_getUnion b a \<and>
     LineRangeSet_getUnion a b =
       foldl (\<lambda>acc r. bindR acc (LineRangeSet_addRange r)) (Inr a) (lrs_normalizedRanges b)"
proof -
  obtain u v where u: "LineRangeSet_getUnion a b = Inr u" "LineRangeSet_inv u"
      "LineRangeSet_lines u = LineRangeSet_lines a \<union> LineRangeSet_lines b"
    and v: "LineRangeSet_getUnion b a = Inr v" "LineRangeSet_inv v"
      "LineRangeSet_lines v = LineRangeSet_lines b \<union> LineRangeSet_lines a"
    using getUnion_ok assms by meson
  have wf: "\<forall>r\<in>set (lrs_normalizedRanges b). line_wf r" and n: "line_normalized (lrs_normalizedRanges a)"
    using assms by (auto simp: LineRangeSet_inv_def lines_inv_def)
  obtain w where w: "foldl (\<lambda>acc r. bindR acc (LineRangeSet_addRange r)) (Inr a) (lrs_normalizedRanges b) = Inr w"
      "LineRangeSet_inv w"
    using line_addRange_all_inv[OF assms(1) wf] by blast
  have "LineRangeSet_lines w = LineRangeSet_lines a \<union> LineRangeSet_lines b"
    using line_set.add_all[OF n wf] w(1) by (auto simp: LineRangeSet_lines_def)
  with u v w show ?thesis
    using LineRangeSet_canonical[OF u(2) v(2)] LineRangeSet_canonical[OF u(2) w(2)] by (simp add: Un_commute)
qed

theorem LineRangeSet_union_canonical_witness:
  "LineRangeSet_getUnion (LineRangeSet_new [\<lparr>lr_startLineNumber = 1, lr_endLineNumberExclusive = 3\<rparr>])
     (LineRangeSet_new [\<lparr>lr_startLineNumber = 2, lr_endLineNumberExclusive = 5\<rparr>]) =
   LineRangeSet_getUnion (LineRangeSet_new [\<lparr>lr_startLineNumber = 2, lr_endLineNumberExclusive = 5\<rparr>])
     (LineRangeSet_new [\<lparr>lr_startLineNumber = 1, lr_endLineNumberExclusive = 3\<rparr>])"
  using LineRangeSet_union_canonical[of
      "LineRangeSet_new [\<lparr>lr_startLineNumber = 1, lr_endLineNumberExclusive = 3\<rparr>]"
      "LineRangeSet_new [\<lparr>lr_startLineNumber = 2, lr_endLineNumberExclusive = 5\<rparr>]"]
  by (simp add: LineRangeSet_inv_def)

text \<open>
  \<open>distanceToLine\<close> is zero exactly on the lines of the range and on the first line after
  it, \<open>endLineNumberExclusive\<close>, which the range does not contain; on later lines it is one
  less than the distance to the last line of the range.
\<close>

theorem LineRange_distanceToLine_zero:
  assumes "lr_startLineNumber r \<le> lr_endLineNumberExclusive r"
  shows "(LineRange_distanceToLine r n = 0 \<longleftrightarrow>
            LineRange_contains r n \<or> n = lr_endLineNumberExclusive r) \<and>
         \<not> LineRange_contains r (lr_endLineNumberExclusive r) \<and>
         (n \<ge> lr_endLineNumberExclusive r \<longrightarrow>
            LineRange_distanceToLine r n = (n - (lr_endLineNumberExclusive r - 1)) - 1) \<and>
         LineRange_distanceToLine r n \<ge> 0"
  using assms by (auto simp: LineRange_distanceToLine_def LineRange_contains_def)

theorem LineRange_distanceToLine_zero_witness:
  "LineRange_distanceToLine \<lparr>lr_startLineNumber = 2, lr_endLineNumberExclusive = 4\<rparr> 4 = 0"
  using LineRange_distanceToLine_zero[of "\<lparr>lr_startLineNumber = 2, lr_endLineNumberExclusive = 4\<rparr>" 4]
  by simp

end
