(* ===== verification/BaseEdits.thy ===== *)
theory BaseEdits
  imports OffsetRanges
begin

text \<open>
  \<^verbatim>\<open>src/vs/editor/common/core/edits/edit.ts\<close>: \<open>BaseEdit\<close>, a sorted list of disjoint replacements
  that are applied at once, generic in the class of replacements.

  The abstract methods of \<open>BaseReplacement\<close> are a record of functions, \<open>repl_ops\<close>, the first
  argument of every operation of \<open>BaseEdit\<close>; each concrete replacement class is a value of
  that record. \<open>_createNew\<close> is, in every subclass, the constructor. \<open>toString\<close> is not
  modelled.

  What the code relies on of a replacement class is the locale \<open>replacement\<close>: a replacement
  stands for a list of elements (\<open>sem\<close>: the characters of the new text, or as many units as
  the new length), \<open>slice\<close> takes a part of it and \<open>tryJoinTouching\<close> concatenates. The lemmas
  on \<open>normalize\<close>, \<open>compose\<close>, \<open>decomposeSplit\<close> and the offset maps are proved once in it.
\<close>

record 'r repl_ops =
  ro_replaceRange :: "'r \<Rightarrow> offset_range"
  ro_getNewLength :: "'r \<Rightarrow> int"
  ro_tryJoinTouching :: "'r \<Rightarrow> 'r \<Rightarrow> 'r option result"
  ro_slice :: "'r \<Rightarrow> offset_range \<Rightarrow> offset_range \<Rightarrow> 'r"
  ro_equals :: "'r \<Rightarrow> 'r \<Rightarrow> bool"

record 'r base_edit =
  replacements :: "'r list"

abbreviation rstart :: "'r repl_ops \<Rightarrow> 'r \<Rightarrow> int" where
  "rstart ops r \<equiv> or_start (ro_replaceRange ops r)"

abbreviation rend :: "'r repl_ops \<Rightarrow> 'r \<Rightarrow> int" where
  "rend ops r \<equiv> or_endExclusive (ro_replaceRange ops r)"

abbreviation rlen :: "'r repl_ops \<Rightarrow> 'r \<Rightarrow> int" where
  "rlen ops r \<equiv> OffsetRange_length (ro_replaceRange ops r)"

subsection \<open>BaseReplacement\<close>

definition BaseReplacement_delta :: "'r repl_ops \<Rightarrow> 'r \<Rightarrow> int \<Rightarrow> 'r result" where
  "BaseReplacement_delta ops this offset =
     bindR (OffsetRange_delta (ro_replaceRange ops this) offset) (\<lambda>range.
     bindR (OffsetRange_new 0 (ro_getNewLength ops this)) (\<lambda>inner.
     Inr (ro_slice ops this range inner)))"

definition BaseReplacement_getLengthDelta :: "'r repl_ops \<Rightarrow> 'r \<Rightarrow> int" where
  "BaseReplacement_getLengthDelta ops this = ro_getNewLength ops this - rlen ops this"

definition BaseReplacement_isEmpty :: "'r repl_ops \<Rightarrow> 'r \<Rightarrow> bool" where
  "BaseReplacement_isEmpty ops this \<longleftrightarrow> ro_getNewLength ops this = 0 \<and> rlen ops this = 0"

definition BaseReplacement_getRangeAfterReplace :: "'r repl_ops \<Rightarrow> 'r \<Rightarrow> offset_range result" where
  "BaseReplacement_getRangeAfterReplace ops this =
     OffsetRange_new (rstart ops this) (rstart ops this + ro_getNewLength ops this)"

subsection \<open>BaseEdit\<close>

fun BaseEdit_sorted :: "'r repl_ops \<Rightarrow> int \<Rightarrow> 'r list \<Rightarrow> bool" where
  "BaseEdit_sorted ops lastEndEx [] = True"
| "BaseEdit_sorted ops lastEndEx (r # rs) =
     (if \<not> rstart ops r \<ge> lastEndEx then False else BaseEdit_sorted ops (rend ops r) rs)"

definition BaseEdit_new :: "'r repl_ops \<Rightarrow> 'r list \<Rightarrow> 'r base_edit result" where
  "BaseEdit_new ops rs =
     (if BaseEdit_sorted ops (- 1) rs then Inr \<lparr>replacements = rs\<rparr> else Inl BugIndicatingError)"

definition BaseEdit_equals :: "'r repl_ops \<Rightarrow> 'r base_edit \<Rightarrow> 'r base_edit \<Rightarrow> bool" where
  "BaseEdit_equals ops this other =
     (if length (replacements this) \<noteq> length (replacements other) then False
      else list_all2 (ro_equals ops) (replacements this) (replacements other))"

text \<open>The loop of \<open>normalize\<close>; \<open>lastR\<close> is \<open>lastReplacement\<close>, \<open>acc\<close> is \<open>newReplacements\<close>.\<close>

fun normalize_loop :: "'r repl_ops \<Rightarrow> 'r list \<Rightarrow> 'r option \<Rightarrow> 'r list \<Rightarrow> 'r list result" where
  "normalize_loop ops [] lastR acc = Inr (case lastR of None \<Rightarrow> acc | Some l \<Rightarrow> acc @ [l])"
| "normalize_loop ops (r # rs) lastR acc =
     (if ro_getNewLength ops r = 0 \<and> rlen ops r = 0 then normalize_loop ops rs lastR acc
      else
        bindR (case lastR of
                 None \<Rightarrow> Inr None
               | Some l \<Rightarrow> if rend ops l = rstart ops r then ro_tryJoinTouching ops l r else Inr None)
          (\<lambda>joined. case joined of
             Some j \<Rightarrow> normalize_loop ops rs (Some j) acc
           | None \<Rightarrow> normalize_loop ops rs (Some r)
                       (case lastR of None \<Rightarrow> acc | Some l \<Rightarrow> acc @ [l])))"

definition BaseEdit_normalize :: "'r repl_ops \<Rightarrow> 'r base_edit \<Rightarrow> 'r base_edit result" where
  "BaseEdit_normalize ops this =
     bindR (normalize_loop ops (replacements this) None []) (BaseEdit_new ops)"

definition BaseEdit_isEmpty :: "'r base_edit \<Rightarrow> bool" where
  "BaseEdit_isEmpty this \<longleftrightarrow> replacements this = []"

text \<open>
  \<open>compose\<close>. Its first inner loop copies replacements of the first edit that end before
  \<open>r2\<close>; its second one collects those that touch or overlap \<open>r2\<close>. The state of the outer
  loop is \<open>edit1Queue\<close>, \<open>edit1ToEdit2\<close> and \<open>result\<close>.
\<close>

fun compose_copy ::
    "'r repl_ops \<Rightarrow> int \<Rightarrow> 'r list \<Rightarrow> int \<Rightarrow> 'r list \<Rightarrow> 'r list \<times> int \<times> 'r list" where
  "compose_copy ops r2Start [] d result = ([], d, result)"
| "compose_copy ops r2Start (r1 # queue) d result =
     (if rstart ops r1 + d + ro_getNewLength ops r1 \<ge> r2Start then (r1 # queue, d, result)
      else compose_copy ops r2Start queue (d + (ro_getNewLength ops r1 - rlen ops r1)) (result @ [r1]))"

fun compose_collect ::
    "'r repl_ops \<Rightarrow> int \<Rightarrow> 'r list \<Rightarrow> int \<Rightarrow> 'r option \<Rightarrow> 'r option
     \<Rightarrow> 'r list \<times> int \<times> 'r option \<times> 'r option" where
  "compose_collect ops r2End [] d firstI lastI = ([], d, firstI, lastI)"
| "compose_collect ops r2End (r1 # queue) d firstI lastI =
     (if rstart ops r1 + d > r2End then (r1 # queue, d, firstI, lastI)
      else compose_collect ops r2End queue (d + (ro_getNewLength ops r1 - rlen ops r1))
             (case firstI of None \<Rightarrow> Some r1 | Some f \<Rightarrow> Some f) (Some r1))"

definition compose_prefix :: "'r repl_ops \<Rightarrow> 'r \<Rightarrow> int \<Rightarrow> int \<Rightarrow> 'r list \<Rightarrow> 'r list result" where
  "compose_prefix ops firstI newReplaceRangeStart prefixLength result =
     (if prefixLength > 0
      then bindR (OffsetRange_emptyAt newReplaceRangeStart) (\<lambda>range.
           bindR (OffsetRange_new 0 prefixLength) (\<lambda>inner.
           Inr (result @ [ro_slice ops firstI range inner])))
      else Inr result)"

definition compose_suffix ::
    "'r repl_ops \<Rightarrow> 'r \<Rightarrow> int \<Rightarrow> 'r list \<Rightarrow> int \<Rightarrow> ('r list \<times> int) result" where
  "compose_suffix ops lastI suffixLength queue d =
     (if suffixLength > 0
      then bindR (OffsetRange_ofStartAndLength (rend ops lastI) 0) (\<lambda>range.
           bindR (OffsetRange_new (ro_getNewLength ops lastI - suffixLength) (ro_getNewLength ops lastI)) (\<lambda>inner.
           let e = ro_slice ops lastI range inner
           in Inr (e # queue, d - (ro_getNewLength ops e - rlen ops e))))
      else Inr (queue, d))"

definition compose_step ::
    "'r repl_ops \<Rightarrow> 'r \<Rightarrow> 'r list \<Rightarrow> int \<Rightarrow> 'r list \<Rightarrow> ('r list \<times> int \<times> 'r list) result" where
  "compose_step ops r2 queue0 d0 result0 =
     (case compose_copy ops (rstart ops r2) queue0 d0 result0 of (queue1, d1, result1) \<Rightarrow>
      case compose_collect ops (rend ops r2) queue1 d1 None None of (queue2, d2, firstI, lastI) \<Rightarrow>
        (case firstI of
           None \<Rightarrow> bindR (BaseReplacement_delta ops r2 (- d2)) (\<lambda>x. Inr (queue2, d2, result1 @ [x]))
         | Some f \<Rightarrow>
             (let newReplaceRangeStart = min (rstart ops f) (rstart ops r2 - d1);
                  prefixLength = rstart ops r2 - (rstart ops f + d1)
              in bindR (compose_prefix ops f newReplaceRangeStart prefixLength result1) (\<lambda>result2.
                 case lastI of
                   None \<Rightarrow> Inl BugIndicatingError
                 | Some l \<Rightarrow>
                     bindR (compose_suffix ops l (rend ops l + d2 - rend ops r2) queue2 d2) (\<lambda>(queue3, d3).
                     bindR (OffsetRange_new newReplaceRangeStart (rend ops r2 - d3)) (\<lambda>newReplaceRange.
                     bindR (OffsetRange_new 0 (ro_getNewLength ops r2)) (\<lambda>inner.
                     Inr (queue3, d3, result2 @ [ro_slice ops r2 newReplaceRange inner]))))))))"

fun compose_loop :: "'r repl_ops \<Rightarrow> 'r list \<Rightarrow> 'r list \<Rightarrow> int \<Rightarrow> 'r list \<Rightarrow> 'r list result" where
  "compose_loop ops [] queue d result = Inr (result @ queue)"
| "compose_loop ops (r2 # rs2) queue d result =
     bindR (compose_step ops r2 queue d result)
       (\<lambda>(queue', d', result'). compose_loop ops rs2 queue' d' result')"

definition BaseEdit_compose :: "'r repl_ops \<Rightarrow> 'r base_edit \<Rightarrow> 'r base_edit \<Rightarrow> 'r base_edit result" where
  "BaseEdit_compose ops this other =
     bindR (BaseEdit_normalize ops this) (\<lambda>edits1.
     bindR (BaseEdit_normalize ops other) (\<lambda>edits2.
     if BaseEdit_isEmpty edits1 then Inr edits2
     else if BaseEdit_isEmpty edits2 then Inr edits1
     else bindR (compose_loop ops (replacements edits2) (replacements edits1) 0 []) (\<lambda>result.
          bindR (BaseEdit_new ops result) (BaseEdit_normalize ops))))"

fun decomposeSplit_loop ::
    "'r repl_ops \<Rightarrow> ('r \<Rightarrow> bool) \<Rightarrow> 'r list \<Rightarrow> int \<Rightarrow> 'r list \<Rightarrow> 'r list \<Rightarrow> ('r list \<times> 'r list) result" where
  "decomposeSplit_loop ops shouldBeInE1 [] e2delta e1 e2 = Inr (e1, e2)"
| "decomposeSplit_loop ops shouldBeInE1 (r # rs) e2delta e1 e2 =
     (if shouldBeInE1 r
      then decomposeSplit_loop ops shouldBeInE1 rs
             (e2delta + (ro_getNewLength ops r - rlen ops r)) (e1 @ [r]) e2
      else bindR (OffsetRange_delta (ro_replaceRange ops r) e2delta) (\<lambda>range.
           bindR (OffsetRange_new 0 (ro_getNewLength ops r)) (\<lambda>inner.
           decomposeSplit_loop ops shouldBeInE1 rs e2delta e1 (e2 @ [ro_slice ops r range inner]))))"

definition BaseEdit_decomposeSplit ::
    "'r repl_ops \<Rightarrow> 'r base_edit \<Rightarrow> ('r \<Rightarrow> bool) \<Rightarrow> ('r base_edit \<times> 'r base_edit) result" where
  "BaseEdit_decomposeSplit ops this shouldBeInE1 =
     bindR (decomposeSplit_loop ops shouldBeInE1 (replacements this) 0 [] []) (\<lambda>(e1, e2).
     bindR (BaseEdit_new ops e1) (\<lambda>x. bindR (BaseEdit_new ops e2) (\<lambda>y. Inr (x, y))))"

fun getNewRanges_loop :: "'r repl_ops \<Rightarrow> 'r list \<Rightarrow> int \<Rightarrow> offset_range list result" where
  "getNewRanges_loop ops [] offset = Inr []"
| "getNewRanges_loop ops (e # es) offset =
     bindR (OffsetRange_ofStartAndLength (rstart ops e + offset) (ro_getNewLength ops e)) (\<lambda>r.
     bindR (getNewRanges_loop ops es (offset + BaseReplacement_getLengthDelta ops e)) (\<lambda>rs.
     Inr (r # rs)))"

definition BaseEdit_getNewRanges :: "'r repl_ops \<Rightarrow> 'r base_edit \<Rightarrow> offset_range list result" where
  "BaseEdit_getNewRanges ops this = getNewRanges_loop ops (replacements this) 0"

definition BaseEdit_getJoinedReplaceRange :: "'r repl_ops \<Rightarrow> 'r base_edit \<Rightarrow> offset_range option result" where
  "BaseEdit_getJoinedReplaceRange ops this =
     (if replacements this = [] then Inr None
      else bindR (OffsetRange_join (ro_replaceRange ops (hd (replacements this)))
                    (ro_replaceRange ops (last (replacements this)))) (\<lambda>r. Inr (Some r)))"

definition BaseEdit_getLengthDelta :: "'r repl_ops \<Rightarrow> 'r base_edit \<Rightarrow> int" where
  "BaseEdit_getLengthDelta ops this =
     foldl (\<lambda>acc cur. acc + BaseReplacement_getLengthDelta ops cur) 0 (replacements this)"

definition BaseEdit_getNewDataLength :: "'r repl_ops \<Rightarrow> 'r base_edit \<Rightarrow> int \<Rightarrow> int" where
  "BaseEdit_getNewDataLength ops this dataLength = dataLength + BaseEdit_getLengthDelta ops this"

fun applyToOffset_loop :: "'r repl_ops \<Rightarrow> 'r list \<Rightarrow> int \<Rightarrow> int \<Rightarrow> int" where
  "applyToOffset_loop ops [] originalOffset acc = originalOffset + acc"
| "applyToOffset_loop ops (r # rs) originalOffset acc =
     (if rstart ops r \<le> originalOffset
      then (if originalOffset < rend ops r then rstart ops r + acc
            else applyToOffset_loop ops rs originalOffset (acc + (ro_getNewLength ops r - rlen ops r)))
      else originalOffset + acc)"

definition BaseEdit_applyToOffset :: "'r repl_ops \<Rightarrow> 'r base_edit \<Rightarrow> int \<Rightarrow> int" where
  "BaseEdit_applyToOffset ops this originalOffset = applyToOffset_loop ops (replacements this) originalOffset 0"

definition BaseEdit_applyToOffsetRange :: "'r repl_ops \<Rightarrow> 'r base_edit \<Rightarrow> offset_range \<Rightarrow> offset_range result" where
  "BaseEdit_applyToOffsetRange ops this originalRange =
     OffsetRange_new (BaseEdit_applyToOffset ops this (or_start originalRange))
       (BaseEdit_applyToOffset ops this (or_endExclusive originalRange))"

fun applyInverseToOffset_loop :: "'r repl_ops \<Rightarrow> 'r list \<Rightarrow> int \<Rightarrow> int \<Rightarrow> int" where
  "applyInverseToOffset_loop ops [] post acc = post - acc"
| "applyInverseToOffset_loop ops (r # rs) post acc =
     (if rstart ops r \<le> post - acc
      then (if post - acc < rstart ops r + ro_getNewLength ops r then rstart ops r
            else applyInverseToOffset_loop ops rs post (acc + (ro_getNewLength ops r - rlen ops r)))
      else post - acc)"

definition BaseEdit_applyInverseToOffset :: "'r repl_ops \<Rightarrow> 'r base_edit \<Rightarrow> int \<Rightarrow> int" where
  "BaseEdit_applyInverseToOffset ops this post = applyInverseToOffset_loop ops (replacements this) post 0"

fun applyToOffsetOrUndefined_loop :: "'r repl_ops \<Rightarrow> 'r list \<Rightarrow> int \<Rightarrow> int \<Rightarrow> int option" where
  "applyToOffsetOrUndefined_loop ops [] originalOffset acc = Some (originalOffset + acc)"
| "applyToOffsetOrUndefined_loop ops (r # rs) originalOffset acc =
     (if rstart ops r \<le> originalOffset
      then (if originalOffset < rend ops r then None
            else applyToOffsetOrUndefined_loop ops rs originalOffset (acc + (ro_getNewLength ops r - rlen ops r)))
      else Some (originalOffset + acc))"

definition BaseEdit_applyToOffsetOrUndefined :: "'r repl_ops \<Rightarrow> 'r base_edit \<Rightarrow> int \<Rightarrow> int option" where
  "BaseEdit_applyToOffsetOrUndefined ops this originalOffset =
     applyToOffsetOrUndefined_loop ops (replacements this) originalOffset 0"

definition BaseEdit_applyToOffsetRangeOrUndefined ::
    "'r repl_ops \<Rightarrow> 'r base_edit \<Rightarrow> offset_range \<Rightarrow> offset_range option result" where
  "BaseEdit_applyToOffsetRangeOrUndefined ops this originalRange =
     (case BaseEdit_applyToOffsetOrUndefined ops this (or_start originalRange) of
        None \<Rightarrow> Inr None
      | Some s \<Rightarrow>
          (case BaseEdit_applyToOffsetOrUndefined ops this (or_endExclusive originalRange) of
             None \<Rightarrow> Inr None
           | Some e \<Rightarrow> bindR (OffsetRange_new s e) (\<lambda>r. Inr (Some r))))"

text \<open>
  The loop of \<open>inverse\<close>, which \<open>StringEdit\<close>, \<open>ArrayEdit\<close> and \<open>LengthEdit\<close> repeat: \<open>mk\<close> is the
  constructor of their replacements and \<open>getOriginalSlice\<close> the replaced part of the original.
\<close>

fun inverse_loop ::
    "'r repl_ops \<Rightarrow> (offset_range \<Rightarrow> 'x \<Rightarrow> 'r) \<Rightarrow> (int \<Rightarrow> int \<Rightarrow> 'x) \<Rightarrow> 'r list \<Rightarrow> int \<Rightarrow> 'r list result" where
  "inverse_loop ops mk getOriginalSlice [] offset = Inr []"
| "inverse_loop ops mk getOriginalSlice (e # es) offset =
     bindR (OffsetRange_ofStartAndLength (rstart ops e + offset) (ro_getNewLength ops e)) (\<lambda>r.
     bindR (inverse_loop ops mk getOriginalSlice es (offset + (ro_getNewLength ops e - rlen ops e))) (\<lambda>rs.
     Inr (mk r (getOriginalSlice (rstart ops e) (rend ops e)) # rs)))"

subsection \<open>What an edit does\<close>

text \<open>
  The effect of a list of replacements on the part of \<open>s\<close> from offset \<open>p\<close> on, and the
  condition that the replacements are sorted, disjoint and inside the data.
\<close>

fun applyFrom :: "'r repl_ops \<Rightarrow> ('r \<Rightarrow> 'c list) \<Rightarrow> 'c list \<Rightarrow> int \<Rightarrow> 'r list \<Rightarrow> 'c list" where
  "applyFrom ops sem s p [] = js_substring_from s p"
| "applyFrom ops sem s p (r # rs) =
     js_substring s p (rstart ops r) @ sem r @ applyFrom ops sem s (rend ops r) rs"

fun fits :: "'r repl_ops \<Rightarrow> ('r \<Rightarrow> bool) \<Rightarrow> int \<Rightarrow> int \<Rightarrow> 'r list \<Rightarrow> bool" where
  "fits ops valid p n [] \<longleftrightarrow> p \<le> n"
| "fits ops valid p n (r # rs) \<longleftrightarrow>
     valid r \<and> p \<le> rstart ops r \<and> rstart ops r \<le> rend ops r \<and> fits ops valid (rend ops r) n rs"

lemma fits_le: "fits ops valid p n rs \<Longrightarrow> p \<le> n"
  by (induction rs arbitrary: p) force+

lemma fits_sub: "fits ops valid p n rs \<Longrightarrow> p' \<le> p \<Longrightarrow> fits ops valid p' n rs"
  by (cases rs) auto

lemma fits_from: "fits ops valid p n rs \<Longrightarrow> (if rs = [] then p' \<le> n else p' \<le> rstart ops (hd rs)) \<Longrightarrow>
    fits ops valid p' n rs"
  by (cases rs) auto

lemma fits_append:
  "fits ops valid p n (xs @ ys) \<longleftrightarrow>
   (\<exists>m. fits ops valid p m xs \<and> m \<le> (if ys = [] then n else rstart ops (hd ys)) \<and> fits ops valid m n ys)"
proof (induction xs arbitrary: p)
  case Nil
  show ?case by (cases ys) (auto intro: order_trans)
qed auto

lemma fits_valid: "fits ops valid p n rs \<Longrightarrow> r \<in> set rs \<Longrightarrow> valid r"
  by (induction rs arbitrary: p) auto

text \<open>Text before the first replacement can be split off.\<close>

lemma applyFrom_split:
  assumes "fits ops valid p n rs" "fits ops valid p' n rs" "0 \<le> p" "p \<le> p'" "n = int (length s)"
  shows "applyFrom ops sem s p rs = js_substring s p p' @ applyFrom ops sem s p' rs"
proof (cases rs)
  case Nil
  with assms show ?thesis by (simp add: js_substring_from_append)
next
  case (Cons r rs')
  have "rend ops r \<le> n" using assms(1) Cons by (auto dest: fits_le)
  with assms Cons show ?thesis by (simp add: js_substring_append flip: append_assoc)
qed

lemma sorted_of_fits: "fits ops valid p n rs \<Longrightarrow> l \<le> p \<Longrightarrow> BaseEdit_sorted ops l rs"
  by (induction rs arbitrary: p l) auto

lemma BaseEdit_new_fits:
  "fits ops valid p n rs \<Longrightarrow> 0 \<le> p \<Longrightarrow> BaseEdit_new ops rs = Inr \<lparr>replacements = rs\<rparr>"
  using sorted_of_fits[of ops valid p n rs "- 1"] unfolding BaseEdit_new_def by simp

lemma fits_filter: "fits ops valid p n rs \<Longrightarrow> fits ops valid p n (filter P rs)"
proof (induction rs arbitrary: p)
  case (Cons r rs)
  then have "fits ops valid (rend ops r) n (filter P rs)" by simp
  with Cons.prems show ?case by (auto elim: fits_sub)
qed simp

text \<open>
  \<open>emits\<close>: the replacements \<open>out\<close> lead from offset \<open>p\<close> of \<open>s\<close> to offset \<open>p'\<close> and produce
  the text \<open>U\<close> on the way, whatever follows.

  \<open>link\<close>: offset \<open>p\<close> of \<open>s\<close> corresponds to offset \<open>p + d\<close> of the edited text \<open>t\<close>, and the
  rest of \<open>t\<close> is what the pending replacements \<open>Q\<close> make of the rest of \<open>s\<close>. It is the loop
  invariant of \<open>compose\<close>, of the inverse and of the rebase.
\<close>

definition emits ::
    "'r repl_ops \<Rightarrow> ('r \<Rightarrow> 'c list) \<Rightarrow> ('r \<Rightarrow> bool) \<Rightarrow> 'c list \<Rightarrow> int \<Rightarrow> 'r list \<Rightarrow> int \<Rightarrow> 'c list \<Rightarrow> bool" where
  "emits ops sem valid s p out p' U \<longleftrightarrow>
     (\<forall>xs. fits ops valid p' (int (length s)) xs \<longrightarrow>
        fits ops valid p (int (length s)) (out @ xs) \<and>
        applyFrom ops sem s p (out @ xs) = U @ applyFrom ops sem s p' xs)"

definition link ::
    "'r repl_ops \<Rightarrow> ('r \<Rightarrow> 'c list) \<Rightarrow> ('r \<Rightarrow> bool) \<Rightarrow> 'c list \<Rightarrow> 'c list \<Rightarrow> int \<Rightarrow> int \<Rightarrow> 'r list \<Rightarrow> bool" where
  "link ops sem valid s t p d Q \<longleftrightarrow>
     fits ops valid p (int (length s)) Q \<and> 0 \<le> p \<and> 0 \<le> p + d \<and> p + d \<le> int (length t) \<and>
     js_substring_from t (p + d) = applyFrom ops sem s p Q"

lemma emits_append:
  "emits ops sem valid s p a p' U \<Longrightarrow> emits ops sem valid s p' b p'' V \<Longrightarrow>
   emits ops sem valid s p (a @ b) p'' (U @ V)"
  by (simp add: emits_def)

lemma emits_nothing:
  "0 \<le> p \<Longrightarrow> p \<le> p' \<Longrightarrow> emits ops sem valid s p [] p' (js_substring s p p')"
  unfolding emits_def by (auto intro: fits_sub applyFrom_split)

lemma emits_one:
  "valid r \<Longrightarrow> p \<le> rstart ops r \<Longrightarrow> rstart ops r \<le> rend ops r \<Longrightarrow>
   emits ops sem valid s p [r] (rend ops r) (js_substring s p (rstart ops r) @ sem r)"
  by (simp add: emits_def)

lemma emits_apply:
  "emits ops sem valid s p out p' U \<Longrightarrow> fits ops valid p' (int (length s)) xs \<Longrightarrow>
   fits ops valid p (int (length s)) (out @ xs) \<and>
   applyFrom ops sem s p (out @ xs) = U @ applyFrom ops sem s p' xs"
  by (simp add: emits_def)

lemma link_shift:
  assumes "link ops sem valid s t p d Q" "p \<le> p'" "fits ops valid p' (int (length s)) Q"
  shows "link ops sem valid s t p' d Q" and "js_substring t (p + d) (p' + d) = js_substring s p p'"
proof -
  have p: "0 \<le> p" "0 \<le> p + d" "p + d \<le> int (length t)" "p' \<le> int (length s)"
    using assms(1) fits_le[OF assms(3)] by (auto simp: link_def)
  have "js_substring_from t (p + d) = js_substring s p p' @ applyFrom ops sem s p' Q"
    using assms applyFrom_split[of ops valid p _ Q p' s sem] by (simp add: link_def)
  note cut = js_substring_from_eq_append[OF this p(2,3), of "p' - p"]
  have len: "p' - p = int (length (js_substring s p p'))"
    using p assms(2) by (simp add: length_js_substring)
  show "link ops sem valid s t p' d Q" using cut[OF len] p assms by (auto simp: link_def algebra_simps)
  show "js_substring t (p + d) (p' + d) = js_substring s p p'"
    using cut(2)[OF len] by (simp add: algebra_simps)
qed

text \<open>When nothing is pending, offsets up to the end of \<open>t\<close> correspond to offsets in \<open>s\<close>.\<close>

lemma link_end:
  assumes "link ops sem valid s t p d []" "q \<le> int (length t)"
  shows "q - d \<le> int (length s)"
proof -
  have l: "p \<le> int (length s)" "0 \<le> p" "0 \<le> p + d" "p + d \<le> int (length t)"
    "js_substring_from t (p + d) = js_substring_from s p"
    using assms(1) by (auto simp: link_def)
  have "int (length t) - (p + d) = int (length s) - p"
    using length_js_substring_from[OF l(3,4)] length_js_substring_from[OF l(2,1)] l(5) by simp
  with assms(2) show ?thesis by linarith
qed

lemma link_from:
  assumes "link ops sem valid s t p d Q" "q \<le> int (length t)" "Q = [] \<or> q \<le> rstart ops (hd Q) + d"
  shows "fits ops valid (q - d) (int (length s)) Q"
proof (cases Q)
  case Nil
  with assms link_end[of ops sem valid s t p d q] show ?thesis by simp
next
  case (Cons r Q')
  with assms show ?thesis by (simp add: link_def)
qed

subsection \<open>The contract of a replacement class\<close>

locale replacement =
  fixes ops :: "'r repl_ops" and sem :: "'r \<Rightarrow> 'c list" and valid :: "'r \<Rightarrow> bool"
  assumes newLength_sem: "valid r \<Longrightarrow> ro_getNewLength ops r = int (length (sem r))"
    and slice_sem: "valid r \<Longrightarrow> 0 \<le> a \<Longrightarrow> a \<le> b \<Longrightarrow> b \<le> ro_getNewLength ops r \<Longrightarrow> offset_wf rg \<Longrightarrow>
      valid (ro_slice ops r rg \<lparr>or_start = a, or_endExclusive = b\<rparr>) \<and>
      ro_replaceRange ops (ro_slice ops r rg \<lparr>or_start = a, or_endExclusive = b\<rparr>) = rg \<and>
      sem (ro_slice ops r rg \<lparr>or_start = a, or_endExclusive = b\<rparr>) = js_substring (sem r) a b"
    and join_sem: "valid r \<Longrightarrow> valid r' \<Longrightarrow> offset_wf (ro_replaceRange ops r) \<Longrightarrow>
      offset_wf (ro_replaceRange ops r') \<Longrightarrow> rend ops r = rstart ops r' \<Longrightarrow>
      \<exists>j. ro_tryJoinTouching ops r r' = Inr j \<and>
        (\<forall>x. j = Some x \<longrightarrow> valid x \<and> sem x = sem r @ sem r' \<and>
           ro_replaceRange ops x = \<lparr>or_start = rstart ops r, or_endExclusive = rend ops r'\<rparr>)"
begin

abbreviation app :: "'c list \<Rightarrow> int \<Rightarrow> 'r list \<Rightarrow> 'c list" where
  "app \<equiv> applyFrom ops sem"

abbreviation fit :: "int \<Rightarrow> int \<Rightarrow> 'r list \<Rightarrow> bool" where
  "fit \<equiv> fits ops valid"

lemma newLength_nonneg: "valid r \<Longrightarrow> 0 \<le> ro_getNewLength ops r"
  by (simp add: newLength_sem)

lemma slice_all:
  assumes "valid r" "offset_wf rg"
  shows "valid (ro_slice ops r rg \<lparr>or_start = 0, or_endExclusive = ro_getNewLength ops r\<rparr>)"
    and "ro_replaceRange ops (ro_slice ops r rg \<lparr>or_start = 0, or_endExclusive = ro_getNewLength ops r\<rparr>) = rg"
    and "sem (ro_slice ops r rg \<lparr>or_start = 0, or_endExclusive = ro_getNewLength ops r\<rparr>) = sem r"
  using slice_sem[OF assms(1), of 0 "ro_getNewLength ops r" rg] assms(2) newLength_sem[OF assms(1)] by auto

lemma slice_all_length [simp]:
  assumes "valid r" "offset_wf rg"
  shows "ro_getNewLength ops (ro_slice ops r rg \<lparr>or_start = 0, or_endExclusive = ro_getNewLength ops r\<rparr>)
     = ro_getNewLength ops r"
  using slice_all[OF assms] assms(1) by (simp add: newLength_sem)

paragraph \<open>normalize\<close>

lemma app_skip_empty:
  assumes "fit p n (r # rs)" "ro_getNewLength ops r = 0" "rlen ops r = 0" "0 \<le> p" "n = int (length s)"
  shows "fit p n rs \<and> app s p (r # rs) = app s p rs"
proof -
  have e: "rend ops r = rstart ops r" using assms(3) by (simp add: OffsetRange_length_def)
  have f: "fit (rstart ops r) n rs" using assms(1) e by simp
  then have f': "fit p n rs" using assms(1) by (auto elim: fits_sub)
  have "sem r = []" using assms(1,2) newLength_sem[of r] by simp
  with applyFrom_split[OF f' f assms(4) _ assms(5), of sem] e f' assms(1) show ?thesis by simp
qed

lemma app_skip_second:
  assumes "fit p n (l # r # rs)" "ro_getNewLength ops r = 0" "rlen ops r = 0" "0 \<le> p" "n = int (length s)"
  shows "fit p n (l # rs) \<and> app s p (l # r # rs) = app s p (l # rs)"
  using app_skip_empty[of "rend ops l" n r rs s] assms by auto

lemma app_join:
  assumes "fit p n (l # r # rs)" "rend ops l = rstart ops r" "valid j" "sem j = sem l @ sem r"
    "ro_replaceRange ops j = \<lparr>or_start = rstart ops l, or_endExclusive = rend ops r\<rparr>"
  shows "fit p n (j # rs) \<and> app s p (l # r # rs) = app s p (j # rs)"
  using assms by auto

lemma normalize_loop_ok:
  assumes "fit p n ((case lastR of None \<Rightarrow> [] | Some l \<Rightarrow> [l]) @ rs)" "0 \<le> p"
  shows "\<exists>res. normalize_loop ops rs lastR acc = Inr (acc @ res) \<and> fit p n res \<and>
     (\<forall>s. n = int (length s) \<longrightarrow>
        app s p res = app s p ((case lastR of None \<Rightarrow> [] | Some l \<Rightarrow> [l]) @ rs))"
  using assms
proof (induction rs arbitrary: p lastR acc)
  case Nil
  then show ?case by (cases lastR) auto
next
  case (Cons r rs)
  show ?case
  proof (cases "ro_getNewLength ops r = 0 \<and> rlen ops r = 0")
    case True
    obtain s0 :: "'c list" where s0: "n = int (length s0)"
      using fits_le[OF Cons.prems(1)] Cons.prems(2) by (metis Ex_list_of_length int_nat_eq nat_0_le order_trans)
    have fit': "fit p n ((case lastR of None \<Rightarrow> [] | Some l \<Rightarrow> [l]) @ rs)"
      using app_skip_empty[of p n r rs s0] app_skip_second[of p n _ r rs s0] Cons.prems True s0
      by (cases lastR) auto
    have eq: "app s p ((case lastR of None \<Rightarrow> [] | Some l \<Rightarrow> [l]) @ r # rs) =
        app s p ((case lastR of None \<Rightarrow> [] | Some l \<Rightarrow> [l]) @ rs)" if "n = int (length s)" for s
      using app_skip_empty[of p n r rs s] app_skip_second[of p n _ r rs s] Cons.prems True that
      by (cases lastR) auto
    from Cons.IH[OF fit' Cons.prems(2), of acc] eq True show ?thesis by auto
  next
    case False
    show ?thesis
    proof (cases lastR)
      case None
      from Cons.IH[of p "Some r" acc] Cons.prems None False show ?thesis by auto
    next
      case (Some l)
      have l: "valid l" "valid r" "offset_wf (ro_replaceRange ops l)" "offset_wf (ro_replaceRange ops r)"
        "p \<le> rstart ops l" "fit (rend ops l) n (r # rs)"
        using Cons.prems Some by auto
      have push: "\<exists>res. normalize_loop ops rs (Some r) (acc @ [l]) = Inr (acc @ res) \<and> fit p n res \<and>
          (\<forall>s. n = int (length s) \<longrightarrow> app s p res = app s p (l # r # rs))"
      proof -
        have "0 \<le> rend ops l" using l Cons.prems(2) by linarith
        with Cons.IH[of "rend ops l" "Some r" "acc @ [l]"] l(6) obtain res where
          "normalize_loop ops rs (Some r) (acc @ [l]) = Inr (acc @ l # res)" "fit (rend ops l) n res"
          "\<forall>s. n = int (length s) \<longrightarrow> app s (rend ops l) res = app s (rend ops l) (r # rs)"
          by auto
        with l show ?thesis by (intro exI[of _ "l # res"]) auto
      qed
      show ?thesis
      proof (cases "rend ops l = rstart ops r")
        case True
        from join_sem[OF l(1-4) True] obtain j where j: "ro_tryJoinTouching ops l r = Inr j"
          "\<And>x. j = Some x \<Longrightarrow> valid x \<and> sem x = sem l @ sem r \<and>
             ro_replaceRange ops x = \<lparr>or_start = rstart ops l, or_endExclusive = rend ops r\<rparr>" by blast
        show ?thesis
        proof (cases j)
          case None
          with push j(1) True False Some show ?thesis by auto
        next
          case (Some x)
          note x = j(2)[OF this]
          have "fit p n (x # rs)" "\<And>s. app s p (l # r # rs) = app s p (x # rs)"
            using app_join[of p n l r rs x] Cons.prems \<open>lastR = Some l\<close> True x by auto
          with Cons.IH[of p "Some x" acc] Cons.prems(2) j(1) True False Some \<open>lastR = Some l\<close>
          show ?thesis by auto
        qed
      next
        case False
        with push \<open>\<not> (ro_getNewLength ops r = 0 \<and> rlen ops r = 0)\<close> Some show ?thesis by auto
      qed
    qed
  qed
qed

lemma normalize_ok:
  assumes "fit 0 n (replacements e)"
  shows "\<exists>e'. BaseEdit_normalize ops e = Inr e' \<and> fit 0 n (replacements e') \<and>
     (\<forall>s. n = int (length s) \<longrightarrow> app s 0 (replacements e') = app s 0 (replacements e))"
proof -
  obtain res where "normalize_loop ops (replacements e) None [] = Inr res" "fit 0 n res"
    "\<forall>s. n = int (length s) \<longrightarrow> app s 0 res = app s 0 (replacements e)"
    using normalize_loop_ok[of 0 n None "replacements e" "[]"] assms by auto
  then show ?thesis by (auto simp: BaseEdit_normalize_def BaseEdit_new_fits)
qed

paragraph \<open>compose\<close>

abbreviation lnk :: "'c list \<Rightarrow> 'c list \<Rightarrow> int \<Rightarrow> int \<Rightarrow> 'r list \<Rightarrow> bool" where
  "lnk \<equiv> link ops sem valid"

abbreviation emit :: "'c list \<Rightarrow> int \<Rightarrow> 'r list \<Rightarrow> int \<Rightarrow> 'c list \<Rightarrow> bool" where
  "emit \<equiv> emits ops sem valid"

lemma link_pop:
  assumes "lnk s t p d (r # Q)"
  shows "lnk s t (rend ops r) (d + (ro_getNewLength ops r - rlen ops r)) Q"
    and "js_substring t (p + d) (rstart ops r + d + ro_getNewLength ops r) = js_substring s p (rstart ops r) @ sem r"
    and "js_substring_from t (rstart ops r + d) = sem r @ app s (rend ops r) Q"
proof -
  have r: "valid r" "p \<le> rstart ops r" "rstart ops r \<le> rend ops r" "fit (rend ops r) (int (length s)) Q"
    and p: "0 \<le> p" "0 \<le> p + d" "p + d \<le> int (length t)"
    using assms by (auto simp: link_def)
  have "rstart ops r \<le> int (length s)" using r(3) fits_le[OF r(4)] by linarith
  then have len: "int (length (js_substring s p (rstart ops r))) = rstart ops r - p"
    using r p by (simp add: length_js_substring)
  have nl: "ro_getNewLength ops r = int (length (sem r))" using r(1) by (rule newLength_sem)
  have t: "js_substring_from t (p + d) = js_substring s p (rstart ops r) @ sem r @ app s (rend ops r) Q"
    using assms by (simp add: link_def)
  note c1 = js_substring_from_eq_append[OF t p(2,3) len[symmetric]]
  show "js_substring_from t (rstart ops r + d) = sem r @ app s (rend ops r) Q"
    using c1(3) by (simp add: algebra_simps)
  note c2 = js_substring_from_eq_append[OF t[folded append_assoc] p(2,3),
      of "rstart ops r - p + ro_getNewLength ops r"]
  have len2: "rstart ops r - p + ro_getNewLength ops r = int (length (js_substring s p (rstart ops r) @ sem r))"
    using len nl by simp
  have eq: "p + d + (rstart ops r - p + ro_getNewLength ops r) = rstart ops r + d + ro_getNewLength ops r"
    "rend ops r + (d + (ro_getNewLength ops r - rlen ops r)) = rstart ops r + d + ro_getNewLength ops r"
    by (simp_all add: OffsetRange_length_def)
  have c3: "rstart ops r + d + ro_getNewLength ops r \<le> int (length t)"
    "js_substring t (p + d) (rstart ops r + d + ro_getNewLength ops r) = js_substring s p (rstart ops r) @ sem r"
    "js_substring_from t (rstart ops r + d + ro_getNewLength ops r) = app s (rend ops r) Q"
    using c2[OF len2] unfolding eq(1) by blast+
  then show "js_substring t (p + d) (rstart ops r + d + ro_getNewLength ops r) = js_substring s p (rstart ops r) @ sem r"
    by blast
  show "lnk s t (rend ops r) (d + (ro_getNewLength ops r - rlen ops r)) Q"
    using c3 r p nl unfolding link_def eq(2) by auto
qed

lemma compose_copy_ok:
  assumes "lnk s t p d Q" "p + d \<le> b" "b \<le> int (length t)"
  shows "\<exists>Q' d' p' cp. compose_copy ops b Q d res = (Q', d', res @ cp) \<and> lnk s t p' d' Q' \<and>
     p + d \<le> p' + d' \<and> p' + d' \<le> b \<and> emit s p cp p' (js_substring t (p + d) (p' + d')) \<and>
     (Q' = [] \<or> b \<le> rstart ops (hd Q') + d' + ro_getNewLength ops (hd Q'))"
  using assms
proof (induction Q arbitrary: p d res)
  case Nil
  then show ?case using emits_nothing[of p p ops sem valid s] by (auto simp: link_def)
next
  case (Cons r Q)
  show ?case
  proof (cases "rstart ops r + d + ro_getNewLength ops r \<ge> b")
    case True
    then show ?thesis using Cons.prems emits_nothing[of p p ops sem valid s]
      by (intro exI[of _ "r # Q"] exI[of _ d] exI[of _ p] exI[of _ "[]"]) (auto simp: link_def)
  next
    case False
    define d1 where "d1 = d + (ro_getNewLength ops r - rlen ops r)"
    define p1 where "p1 = rend ops r"
    have r: "valid r" "p \<le> rstart ops r" "rstart ops r \<le> rend ops r"
      using Cons.prems(1) by (auto simp: link_def)
    have eq: "p1 + d1 = rstart ops r + d + ro_getNewLength ops r"
      by (simp add: p1_def d1_def OffsetRange_length_def)
    have l1: "lnk s t p1 d1 Q" "js_substring t (p + d) (p1 + d1) = js_substring s p (rstart ops r) @ sem r"
      using link_pop[OF Cons.prems(1)] unfolding eq by (auto simp: p1_def d1_def)
    have le: "p + d \<le> p1 + d1" using eq r(2) newLength_nonneg[OF r(1)] by linarith
    from Cons.IH[OF l1(1) _ Cons.prems(3), of "res @ [r]"] False eq obtain Q' d' p' cp where
      IH: "compose_copy ops b Q d1 (res @ [r]) = (Q', d', res @ [r] @ cp)" "lnk s t p' d' Q'"
      "p1 + d1 \<le> p' + d'" "p' + d' \<le> b" "emit s p1 cp p' (js_substring t (p1 + d1) (p' + d'))"
      "Q' = [] \<or> b \<le> rstart ops (hd Q') + d' + ro_getNewLength ops (hd Q')" by auto
    have "emit s p [r] (rend ops r) (js_substring s p (rstart ops r) @ sem r)"
      using r by (rule emits_one)
    then have "emit s p [r] p1 (js_substring t (p + d) (p1 + d1))" unfolding l1(2) by (simp only: p1_def)
    from emits_append[OF this IH(5)] le IH(3,4) Cons.prems(1,3)
    have "emit s p ([r] @ cp) p' (js_substring t (p + d) (p' + d'))"
      by (simp add: js_substring_append link_def)
    with IH le False show ?thesis
      by (intro exI[of _ Q'] exI[of _ d'] exI[of _ p'] exI[of _ "[r] @ cp"]) (auto simp: d1_def)
  qed
qed

text \<open>The last replacement collected starts, in \<open>t\<close>, no later than \<open>r2\<close> ends.\<close>

lemma compose_collect_ok:
  assumes "lnk s t p d (r # Q)" "rstart ops r + d \<le> b"
  shows "\<exists>Q' d' l. compose_collect ops b (r # Q) d f l0 =
       (Q', d', (case f of None \<Rightarrow> Some r | Some x \<Rightarrow> Some x), Some l) \<and>
     valid l \<and> rstart ops r \<le> rend ops l \<and> lnk s t (rend ops l) d' Q' \<and>
     rend ops l + d' - ro_getNewLength ops l \<le> b \<and>
     rstart ops r + d \<le> rend ops l + d' - ro_getNewLength ops l \<and>
     js_substring_from t (rend ops l + d' - ro_getNewLength ops l) = sem l @ app s (rend ops l) Q' \<and>
     (Q' = [] \<or> b < rstart ops (hd Q') + d')"
  using assms
proof (induction Q arbitrary: p d r f l0)
  case Nil
  have r: "valid r" "rstart ops r \<le> rend ops r" using Nil.prems(1) by (auto simp: link_def)
  define d1 where "d1 = d + (ro_getNewLength ops r - rlen ops r)"
  have eq: "rend ops r + d1 - ro_getNewLength ops r = rstart ops r + d"
    by (simp add: OffsetRange_length_def d1_def)
  have "compose_collect ops b [r] d f l0 = ([], d1, (case f of None \<Rightarrow> Some r | Some x \<Rightarrow> Some x), Some r)"
    using Nil.prems(2) by (simp add: d1_def)
  with link_pop(1,3)[OF Nil.prems(1), folded d1_def] r Nil.prems(2) eq show ?case
    by (intro exI[of _ "[]"] exI[of _ d1] exI[of _ r]) auto
next
  case (Cons r' Q)
  define d1 where "d1 = d + (ro_getNewLength ops r - rlen ops r)"
  have r: "valid r" "rstart ops r \<le> rend ops r" using Cons.prems(1) by (auto simp: link_def)
  have eq: "rend ops r + d1 - ro_getNewLength ops r = rstart ops r + d"
    by (simp add: OffsetRange_length_def d1_def)
  note pop = link_pop(1,3)[OF Cons.prems(1), folded d1_def]
  have head: "compose_collect ops b (r # r' # Q) d f l0 =
      compose_collect ops b (r' # Q) d1 (Some (case f of None \<Rightarrow> r | Some x \<Rightarrow> x)) (Some r)"
    using Cons.prems(2) by (cases f) (simp_all add: d1_def)
  have f': "(case f of None \<Rightarrow> Some r | Some x \<Rightarrow> Some x) = Some (case f of None \<Rightarrow> r | Some x \<Rightarrow> x)"
    by (cases f) simp_all
  show ?case
  proof (cases "rstart ops r' + d1 \<le> b")
    case False
    then have "compose_collect ops b (r' # Q) d1 (Some (case f of None \<Rightarrow> r | Some x \<Rightarrow> x)) (Some r) =
        (r' # Q, d1, Some (case f of None \<Rightarrow> r | Some x \<Rightarrow> x), Some r)" by simp
    with head f' pop r Cons.prems(2) eq False show ?thesis
      by (intro exI[of _ "r' # Q"] exI[of _ d1] exI[of _ r]) auto
  next
    case True
    have "rend ops r \<le> rstart ops r'" using pop(1) by (simp add: link_def)
    moreover have "rstart ops r + d \<le> rstart ops r' + d1"
      using \<open>rend ops r \<le> rstart ops r'\<close> eq newLength_nonneg[OF r(1)] by linarith
    ultimately show ?thesis
      using Cons.IH[OF pop(1) True, of "Some (case f of None \<Rightarrow> r | Some x \<Rightarrow> x)" "Some r"] r head f' by force
  qed
qed

lemma compose_suffix_ok:
  assumes l: "valid l" "rend ops l + d - ro_getNewLength ops l \<le> b"
      "0 \<le> rend ops l + d - ro_getNewLength ops l"
      "js_substring_from t (rend ops l + d - ro_getNewLength ops l) = sem l @ app s (rend ops l) Q"
    and link: "lnk s t (rend ops l) d Q" and b: "b \<le> int (length t)"
    and Q: "Q = [] \<or> b < rstart ops (hd Q) + d"
  shows "\<exists>Q' d'. compose_suffix ops l (rend ops l + d - b) Q d = Inr (Q', d') \<and>
     rend ops l \<le> b - d' \<and> lnk s t (b - d') d' Q'"
proof (cases "rend ops l + d - b > 0")
  case False
  have "fit (b - d) (int (length s)) Q" using link_from[OF link b] Q by auto
  then have "lnk s t (b - d) d Q" using link_shift(1)[OF link] False by simp
  with False show ?thesis by (simp add: compose_suffix_def)
next
  case True
  define m where "m = rend ops l + d - b"
  have m: "0 < m" "m \<le> ro_getNewLength ops l" using True l(2) by (auto simp: m_def)
  define e where "e = ro_slice ops l \<lparr>or_start = rend ops l, or_endExclusive = rend ops l\<rparr>
      \<lparr>or_start = ro_getNewLength ops l - m, or_endExclusive = ro_getNewLength ops l\<rparr>"
  have e: "valid e" "ro_replaceRange ops e = \<lparr>or_start = rend ops l, or_endExclusive = rend ops l\<rparr>"
    "sem e = js_substring (sem l) (ro_getNewLength ops l - m) (ro_getNewLength ops l)"
    using slice_sem[OF l(1), of "ro_getNewLength ops l - m" "ro_getNewLength ops l"] m by (auto simp: e_def)
  have nl: "ro_getNewLength ops l = int (length (sem l))" by (rule newLength_sem[OF l(1)])
  have len_e: "ro_getNewLength ops e = m"
    using newLength_sem[OF e(1)] e(3) m nl by (simp add: length_js_substring)
  have cut: "sem l = js_substring (sem l) 0 (ro_getNewLength ops l - m) @ sem e"
    unfolding e(3) using m nl js_substring_append[of 0 "ro_getNewLength ops l - m" "ro_getNewLength ops l" "sem l"]
    by simp
  have t: "js_substring_from t (rend ops l + d - ro_getNewLength ops l) =
      js_substring (sem l) 0 (ro_getNewLength ops l - m) @ (sem e @ app s (rend ops l) Q)"
    using l(4) cut by simp
  have "js_substring_from t b = sem e @ app s (rend ops l) Q"
    using js_substring_from_eq_append(3)[OF t l(3), of "ro_getNewLength ops l - m"] m nl l(2) b
    by (simp add: length_js_substring m_def)
  moreover have "fit (rend ops l) (int (length s)) Q" "0 \<le> rend ops l" using link by (auto simp: link_def)
  ultimately have "lnk s t (rend ops l) (d - m) (e # Q)"
    using e(1,2) b l(2,3) m by (simp add: link_def m_def)
  moreover have "compose_suffix ops l m Q d = Inr (e # Q, d - m)"
    using m len_e e(2) by (simp add: compose_suffix_def OffsetRange_ofStartAndLength_def e_def OffsetRange_length_def Let_def)
  moreover have "b - (d - m) = rend ops l" by (simp add: m_def)
  ultimately show ?thesis by (auto simp: m_def[symmetric] intro!: exI[of _ "e # Q"])
qed

lemma compose_prefix_ok:
  assumes f: "lnk s t p d (f # Q)" and a: "p + d \<le> a" "a \<le> rstart ops f + d + ro_getNewLength ops f"
      "a \<le> int (length t)"
  shows "\<exists>pre. compose_prefix ops f (min (rstart ops f) (a - d)) (a - (rstart ops f + d)) res = Inr (res @ pre) \<and>
     p \<le> min (rstart ops f) (a - d) \<and>
     emit s p pre (min (rstart ops f) (a - d)) (js_substring t (p + d) a)"
proof -
  have v: "valid f" "p \<le> rstart ops f" "rstart ops f \<le> rend ops f" and p: "0 \<le> p" "0 \<le> p + d"
    using f by (auto simp: link_def)
  show ?thesis
  proof (cases "a - (rstart ops f + d) > 0")
    case False
    then have m: "min (rstart ops f) (a - d) = a - d" by simp
    have "fit (a - d) (int (length s)) (f # Q)" using f False by (simp add: link_def)
    then have "js_substring t (p + d) a = js_substring s p (a - d)"
      using link_shift(2)[OF f, of "a - d"] a(1) by simp
    with False m a(1) p emits_nothing[of p "a - d" ops sem valid s] show ?thesis
      by (intro exI[of _ "[]"]) (simp add: compose_prefix_def)
  next
    case True
    define k where "k = a - (rstart ops f + d)"
    have k: "0 < k" "k \<le> ro_getNewLength ops f" using True a by (auto simp: k_def)
    have m: "min (rstart ops f) (a - d) = rstart ops f" using True by simp
    define x where "x = ro_slice ops f \<lparr>or_start = rstart ops f, or_endExclusive = rstart ops f\<rparr>
        \<lparr>or_start = 0, or_endExclusive = k\<rparr>"
    have x: "valid x" "ro_replaceRange ops x = \<lparr>or_start = rstart ops f, or_endExclusive = rstart ops f\<rparr>"
      "sem x = js_substring (sem f) 0 k"
      using slice_sem[OF v(1), of 0 k] k by (auto simp: x_def)
    have nl: "ro_getNewLength ops f = int (length (sem f))" by (rule newLength_sem[OF v(1)])
    have "fit (rstart ops f) (int (length s)) (f # Q)" using f by (simp add: link_def)
    note sh = link_shift[OF f v(2) this]
    have sl: "rstart ops f + d \<le> int (length t)" "0 \<le> rstart ops f + d" using sh(1) by (auto simp: link_def)
    have "js_substring_from t (rstart ops f + d) =
        js_substring (sem f) 0 k @ (js_substring (sem f) k (ro_getNewLength ops f) @ app s (rend ops f) Q)"
      using link_pop(3)[OF f] k nl js_substring_append[of 0 k "ro_getNewLength ops f" "sem f"]
      by (simp flip: append_assoc)
    from js_substring_from_eq_append(2)[OF this sl(2,1), of k] k nl
    have "js_substring t (rstart ops f + d) a = sem x" by (simp add: length_js_substring x(3) k_def)
    moreover have "js_substring t (p + d) a =
        js_substring t (p + d) (rstart ops f + d) @ js_substring t (rstart ops f + d) a"
      using p v(2) True a(3) by (intro js_substring_append[symmetric]) auto
    ultimately have "js_substring t (p + d) a = js_substring s p (rstart ops x) @ sem x" using sh(2) x(2) by simp
    then have "emit s p [x] (rstart ops f) (js_substring t (p + d) a)"
      using emits_one[of valid x p ops sem s] x v(2) by simp
    moreover have "compose_prefix ops f (rstart ops f) k res = Inr (res @ [x])"
      using k by (simp add: compose_prefix_def OffsetRange_emptyAt_def x_def)
    ultimately show ?thesis using m v(2) by (auto simp: k_def[symmetric])
  qed
qed

lemma compose_step_ok:
  assumes link: "lnk s t p d Q" and r2: "fit (p + d) (int (length t)) (r2 # R2)"
  shows "\<exists>Q' d' out. compose_step ops r2 Q d res = Inr (Q', d', res @ out) \<and>
     lnk s t (rend ops r2 - d') d' Q' \<and>
     emit s p out (rend ops r2 - d') (js_substring t (p + d) (rstart ops r2) @ sem r2)"
proof -
  have v: "valid r2" "p + d \<le> rstart ops r2" "rstart ops r2 \<le> rend ops r2" "rend ops r2 \<le> int (length t)"
    using r2 by (auto dest: fits_le)
  have p: "0 \<le> p" "0 \<le> p + d" "p + d \<le> int (length t)" using link by (auto simp: link_def)
  have nl: "0 \<le> ro_getNewLength ops r2" by (rule newLength_nonneg[OF v(1)])
  obtain Q1 d1 p1 cp where copy: "compose_copy ops (rstart ops r2) Q d res = (Q1, d1, res @ cp)"
      "lnk s t p1 d1 Q1" "p + d \<le> p1 + d1" "p1 + d1 \<le> rstart ops r2"
      "emit s p cp p1 (js_substring t (p + d) (p1 + d1))"
      "Q1 = [] \<or> rstart ops r2 \<le> rstart ops (hd Q1) + d1 + ro_getNewLength ops (hd Q1)"
    using compose_copy_ok[OF link v(2), of res] v by auto
  have join: "emit s p (cp @ x) p' (js_substring t (p + d) (rstart ops r2) @ sem r2)"
    if "emit s p1 x p' (js_substring t (p1 + d1) (rstart ops r2) @ sem r2)" for x p'
  proof -
    have "js_substring t (p + d) (p1 + d1) @ js_substring t (p1 + d1) (rstart ops r2) =
        js_substring t (p + d) (rstart ops r2)"
      using copy(3,4) p v by (intro js_substring_append) auto
    with emits_append[OF copy(5) that] show ?thesis by (simp flip: append_assoc)
  qed
  show ?thesis
  proof (cases "Q1 = [] \<or> rend ops r2 < rstart ops (hd Q1) + d1")
    case True
    let ?rg = "\<lparr>or_start = rstart ops r2 - d1, or_endExclusive = rend ops r2 - d1\<rparr>"
    let ?x = "ro_slice ops r2 ?rg \<lparr>or_start = 0, or_endExclusive = ro_getNewLength ops r2\<rparr>"
    have coll: "compose_collect ops (rend ops r2) Q1 d1 None None = (Q1, d1, None, None)"
      using True by (cases Q1) auto
    have delta: "BaseReplacement_delta ops r2 (- d1) = Inr ?x"
      using v(3) nl by (simp add: BaseReplacement_delta_def OffsetRange_delta_def)
    have x: "valid ?x" "ro_replaceRange ops ?x = ?rg" "sem ?x = sem r2" using slice_all[OF v(1), of ?rg] v(3) by auto
    have fit1: "fit (rend ops r2 - d1) (int (length s)) Q1" using link_from[OF copy(2) v(4)] True by auto
    then have fit0: "fit (rstart ops r2 - d1) (int (length s)) Q1" using v(3) by (auto elim: fits_sub)
    have "js_substring t (p1 + d1) (rstart ops r2) = js_substring s p1 (rstart ops r2 - d1)"
      using link_shift(2)[OF copy(2) _ fit0] copy(4) by simp
    then have "emit s p1 [?x] (rend ops r2 - d1) (js_substring t (p1 + d1) (rstart ops r2) @ sem r2)"
      using emits_one[of valid ?x p1 ops sem s] x copy(4) v(3) by simp
    moreover have "lnk s t (rend ops r2 - d1) d1 Q1"
      using link_shift(1)[OF copy(2) _ fit1] copy(4) v(3) by simp
    moreover have "compose_step ops r2 Q d res = Inr (Q1, d1, res @ cp @ [?x])"
      by (simp add: compose_step_def copy(1) coll delta)
    ultimately show ?thesis using join by blast
  next
    case False
    then obtain f Q1' where Q1: "Q1 = f # Q1'" "rstart ops f + d1 \<le> rend ops r2" by (cases Q1) auto
    note link1 = copy(2)[unfolded Q1(1)]
    obtain Q2 d2 l where coll: "compose_collect ops (rend ops r2) (f # Q1') d1 None None = (Q2, d2, Some f, Some l)"
      "valid l" "rstart ops f \<le> rend ops l" "lnk s t (rend ops l) d2 Q2"
      "rend ops l + d2 - ro_getNewLength ops l \<le> rend ops r2"
      "rstart ops f + d1 \<le> rend ops l + d2 - ro_getNewLength ops l"
      "js_substring_from t (rend ops l + d2 - ro_getNewLength ops l) = sem l @ app s (rend ops l) Q2"
      "Q2 = [] \<or> rend ops r2 < rstart ops (hd Q2) + d2"
      using compose_collect_ok[OF link1 Q1(2), of None None] by auto
    have "0 \<le> rstart ops f + d1" using link1 by (auto simp: link_def)
    then have pos: "0 \<le> rend ops l + d2 - ro_getNewLength ops l" using coll(6) by simp
    obtain Q3 d3 where suf: "compose_suffix ops l (rend ops l + d2 - rend ops r2) Q2 d2 = Inr (Q3, d3)"
      "rend ops l \<le> rend ops r2 - d3" "lnk s t (rend ops r2 - d3) d3 Q3"
      using compose_suffix_ok[OF coll(2,5) pos coll(7,4) v(4) coll(8)] by blast
    have "rstart ops r2 \<le> int (length t)" using v by simp
    from compose_prefix_ok[OF link1 copy(4) _ this, where res = "res @ cp"] copy(6) Q1(1) obtain pre where
      pre: "compose_prefix ops f (min (rstart ops f) (rstart ops r2 - d1)) (rstart ops r2 - (rstart ops f + d1)) (res @ cp)
          = Inr (res @ cp @ pre)" "p1 \<le> min (rstart ops f) (rstart ops r2 - d1)"
      "emit s p1 pre (min (rstart ops f) (rstart ops r2 - d1)) (js_substring t (p1 + d1) (rstart ops r2))"
      by auto
    define ns where "ns = min (rstart ops f) (rstart ops r2 - d1)"
    let ?rg = "\<lparr>or_start = ns, or_endExclusive = rend ops r2 - d3\<rparr>"
    let ?x = "ro_slice ops r2 ?rg \<lparr>or_start = 0, or_endExclusive = ro_getNewLength ops r2\<rparr>"
    have ns: "ns \<le> rend ops r2 - d3" using coll(3) suf(2) by (simp add: ns_def)
    have x: "valid ?x" "ro_replaceRange ops ?x = ?rg" "sem ?x = sem r2" using slice_all[OF v(1), of ?rg] ns by auto
    have "emit s ns [?x] (rend ops r2 - d3) (sem r2)"
      using emits_one[of valid ?x ns ops sem s] x ns by simp
    from emits_append[OF pre(3)[folded ns_def] this]
    have "emit s p1 (pre @ [?x]) (rend ops r2 - d3) (js_substring t (p1 + d1) (rstart ops r2) @ sem r2)" .
    moreover have "compose_step ops r2 Q d res = Inr (Q3, d3, res @ cp @ pre @ [?x])"
      using ns nl pre(1) suf(1)
      by (simp add: compose_step_def copy(1) Q1(1) coll(1) Let_def flip: ns_def del: compose_collect.simps)
    ultimately show ?thesis using join suf(3) by blast
  qed
qed

lemma compose_loop_ok:
  assumes "lnk s t p d Q" "fit (p + d) (int (length t)) R2"
  shows "\<exists>out. compose_loop ops R2 Q d res = Inr (res @ out) \<and>
     fit p (int (length s)) out \<and> app s p out = app t (p + d) R2"
  using assms
proof (induction R2 arbitrary: p d Q res)
  case Nil
  then show ?case by (auto simp: link_def)
next
  case (Cons r2 R2)
  obtain Q' d' out where step: "compose_step ops r2 Q d res = Inr (Q', d', res @ out)"
     "lnk s t (rend ops r2 - d') d' Q'"
     "emit s p out (rend ops r2 - d') (js_substring t (p + d) (rstart ops r2) @ sem r2)"
    using compose_step_ok[OF Cons.prems] by blast
  have "fit (rend ops r2 - d' + d') (int (length t)) R2" using Cons.prems(2) by simp
  from Cons.IH[OF step(2) this, of "res @ out"] obtain out' where
    "compose_loop ops R2 Q' d' (res @ out) = Inr (res @ out @ out')"
    "fit (rend ops r2 - d') (int (length s)) out'" "app s (rend ops r2 - d') out' = app t (rend ops r2) R2"
    by auto
  with emits_apply[OF step(3), of out'] step(1) show ?case by auto
qed

lemma compose_ok:
  assumes e1: "fit 0 (int (length s)) (replacements e1)"
    and e2: "fit 0 (int (length (app s 0 (replacements e1)))) (replacements e2)"
  shows "\<exists>e. BaseEdit_compose ops e1 e2 = Inr e \<and> fit 0 (int (length s)) (replacements e) \<and>
     app s 0 (replacements e) = app (app s 0 (replacements e1)) 0 (replacements e2)"
proof -
  define t where "t = app s 0 (replacements e1)"
  obtain n1 where n1: "BaseEdit_normalize ops e1 = Inr n1" "fit 0 (int (length s)) (replacements n1)"
    "app s 0 (replacements n1) = t"
    using normalize_ok[OF e1] by (auto simp: t_def)
  obtain n2 where n2: "BaseEdit_normalize ops e2 = Inr n2" "fit 0 (int (length t)) (replacements n2)"
    "app t 0 (replacements n2) = app t 0 (replacements e2)"
    using normalize_ok[OF e2] by (auto simp: t_def)
  have whole: "js_substring_from u 0 = u" for u :: "'c list" by (simp add: js_substring_from_def)
  consider "BaseEdit_isEmpty n1" | "\<not> BaseEdit_isEmpty n1" "BaseEdit_isEmpty n2"
    | "\<not> BaseEdit_isEmpty n1" "\<not> BaseEdit_isEmpty n2" by blast
  then show ?thesis
  proof cases
    case 1
    then have "t = s" using n1(3) whole by (simp add: BaseEdit_isEmpty_def)
    then have "BaseEdit_compose ops e1 e2 = Inr n2" "fit 0 (int (length s)) (replacements n2)"
      "app s 0 (replacements n2) = app t 0 (replacements e2)"
      using 1 n1 n2 by (simp_all add: BaseEdit_compose_def)
    then show ?thesis by (auto simp: t_def)
  next
    case 2
    then have "app t 0 (replacements e2) = t" using n2(3) whole by (simp add: BaseEdit_isEmpty_def)
    moreover have "BaseEdit_compose ops e1 e2 = Inr n1" using 2 n1 n2 by (simp add: BaseEdit_compose_def)
    ultimately show ?thesis using n1(2,3) by (auto simp: t_def)
  next
    case 3
    have "lnk s t 0 0 (replacements n1)" using n1 whole by (simp add: link_def)
    from compose_loop_ok[OF this, of "replacements n2" "[]"] n2(2,3) obtain out where
      out: "compose_loop ops (replacements n2) (replacements n1) 0 [] = Inr out"
      "fit 0 (int (length s)) out" "app s 0 out = app t 0 (replacements e2)" by auto
    obtain e where "BaseEdit_normalize ops \<lparr>replacements = out\<rparr> = Inr e" "fit 0 (int (length s)) (replacements e)"
      "app s 0 (replacements e) = app s 0 out"
      using normalize_ok[of "int (length s)" "\<lparr>replacements = out\<rparr>"] out(2) by auto
    with 3 n1(1) n2(1) out show ?thesis
      by (auto simp: BaseEdit_compose_def BaseEdit_new_fits t_def)
  qed
qed

paragraph \<open>decomposeSplit\<close>

lemma decomposeSplit_loop_ok:
  assumes "fit p (int (length s)) rs" "lnk s t p d (filter P rs)"
  shows "\<exists>out. decomposeSplit_loop ops P rs d e1 e2 = Inr (e1 @ filter P rs, e2 @ out) \<and>
     fit (p + d) (int (length t)) out \<and> app t (p + d) out = app s p rs"
  using assms
proof (induction rs arbitrary: p d e1 e2)
  case Nil
  then show ?case by (auto simp: link_def)
next
  case (Cons r rs)
  have r: "valid r" "p \<le> rstart ops r" "rstart ops r \<le> rend ops r" "fit (rend ops r) (int (length s)) rs"
    using Cons.prems(1) by auto
  show ?case
  proof (cases "P r")
    case True
    define d1 where "d1 = d + (ro_getNewLength ops r - rlen ops r)"
    have eq: "rend ops r + d1 = rstart ops r + d + ro_getNewLength ops r"
      by (simp add: d1_def OffsetRange_length_def)
    have l: "lnk s t p d (r # filter P rs)" using Cons.prems(2) True by simp
    note pop = link_pop(1,2)[OF l, folded d1_def eq]
    obtain out where out: "decomposeSplit_loop ops P rs d1 (e1 @ [r]) e2 = Inr (e1 @ r # filter P rs, e2 @ out)"
      "fit (rend ops r + d1) (int (length t)) out" "app t (rend ops r + d1) out = app s (rend ops r) rs"
      using Cons.IH[OF r(4) pop(1), of "e1 @ [r]" e2] by auto
    have le: "p + d \<le> rend ops r + d1" using eq r(2) newLength_nonneg[OF r(1)] by linarith
    then have f: "fit (p + d) (int (length t)) out" using out(2) by (auto elim: fits_sub)
    have "0 \<le> p + d" using l by (simp add: link_def)
    from applyFrom_split[OF f out(2) this le refl, of sem] out pop(2) True f show ?thesis
      by (auto simp: d1_def)
  next
    case False
    let ?rg = "\<lparr>or_start = rstart ops r + d, or_endExclusive = rend ops r + d\<rparr>"
    let ?x = "ro_slice ops r ?rg \<lparr>or_start = 0, or_endExclusive = ro_getNewLength ops r\<rparr>"
    have x: "valid ?x" "ro_replaceRange ops ?x = ?rg" "sem ?x = sem r" using slice_all[OF r(1), of ?rg] r(3) by auto
    have l: "lnk s t p d (filter P rs)" using Cons.prems(2) False by simp
    have f1: "fit (rend ops r) (int (length s)) (filter P rs)" using r(4) by (rule fits_filter)
    then have f0: "fit (rstart ops r) (int (length s)) (filter P rs)" using r(3) by (auto elim: fits_sub)
    note l1 = link_shift(1)[OF l _ f1] and eq = link_shift(2)[OF l r(2) f0]
    have l1': "lnk s t (rend ops r) d (filter P rs)" using l1 r by simp
    obtain out where "decomposeSplit_loop ops P rs d e1 (e2 @ [?x]) = Inr (e1 @ filter P rs, e2 @ ?x # out)"
      "fit (rend ops r + d) (int (length t)) out" "app t (rend ops r + d) out = app s (rend ops r) rs"
      using Cons.IH[OF r(4) l1', of e1 "e2 @ [?x]"] by auto
    with False r x eq newLength_nonneg[OF r(1)] show ?thesis
      by (intro exI[of _ "?x # out"]) (simp add: OffsetRange_delta_def)
  qed
qed

lemma decomposeSplit_ok:
  assumes e: "fit 0 (int (length s)) (replacements e)"
  shows "\<exists>e1 e2. BaseEdit_decomposeSplit ops e P = Inr (e1, e2) \<and>
     replacements e1 = filter P (replacements e) \<and>
     fit 0 (int (length (app s 0 (replacements e1)))) (replacements e2) \<and>
     app (app s 0 (replacements e1)) 0 (replacements e2) = app s 0 (replacements e)"
proof -
  define t where "t = app s 0 (filter P (replacements e))"
  have f1: "fit 0 (int (length s)) (filter P (replacements e))" using e by (rule fits_filter)
  then have "lnk s t 0 0 (filter P (replacements e))" by (simp add: link_def t_def js_substring_from_def)
  from decomposeSplit_loop_ok[OF e this, of "[]" "[]"] obtain out where
    "decomposeSplit_loop ops P (replacements e) 0 [] [] = Inr (filter P (replacements e), out)"
    "fit 0 (int (length t)) out" "app t 0 out = app s 0 (replacements e)" by auto
  with f1 show ?thesis by (auto simp: BaseEdit_decomposeSplit_def BaseEdit_new_fits t_def)
qed

paragraph \<open>Lengths, ranges and offsets after the edit\<close>

lemma length_app:
  assumes "fit p (int (length s)) rs" "0 \<le> p"
  shows "int (length (app s p rs)) = int (length s) - p + (\<Sum>r\<leftarrow>rs. BaseReplacement_getLengthDelta ops r)"
  using assms
proof (induction rs arbitrary: p)
  case Nil
  then show ?case by (simp add: length_js_substring_from)
next
  case (Cons r rs)
  then have "rend ops r \<le> int (length s)" using fits_le[of ops valid "rend ops r"] by auto
  with Cons show ?case
    by (simp add: length_js_substring BaseReplacement_getLengthDelta_def newLength_sem OffsetRange_length_def)
qed

lemma getNewDataLength_ok:
  assumes "fit 0 (int (length s)) (replacements e)"
  shows "int (length (app s 0 (replacements e))) = BaseEdit_getNewDataLength ops e (int (length s))"
proof -
  have "foldl (\<lambda>acc cur. acc + f cur) a rs = a + (\<Sum>r\<leftarrow>rs. f r)" for f :: "'r \<Rightarrow> int" and a rs
    by (induction rs arbitrary: a) auto
  with length_app[OF assms] show ?thesis
    by (simp add: BaseEdit_getNewDataLength_def BaseEdit_getLengthDelta_def)
qed

lemma getNewRanges_loop_ok:
  assumes "lnk s t p d rs"
  shows "\<exists>R. getNewRanges_loop ops rs d = Inr R \<and>
     list_all2 (\<lambda>x r. 0 \<le> or_start x \<and> or_endExclusive x \<le> int (length t) \<and> OffsetRange_substring x t = sem r) R rs"
  using assms
proof (induction rs arbitrary: p d)
  case (Cons r rs)
  define d1 where "d1 = d + (ro_getNewLength ops r - rlen ops r)"
  note pop = link_pop(1,3)[OF Cons.prems, folded d1_def]
  have r: "valid r" "p \<le> rstart ops r" "0 \<le> p + d" using Cons.prems by (auto simp: link_def)
  have eq: "rend ops r + d1 = rstart ops r + d + ro_getNewLength ops r"
    by (simp add: d1_def OffsetRange_length_def)
  have b: "0 \<le> rstart ops r + d" "rstart ops r + d + ro_getNewLength ops r \<le> int (length t)"
    using pop(1) eq r by (auto simp: link_def)
  have "rstart ops r + d \<le> int (length t)" using b newLength_nonneg[OF r(1)] by linarith
  with js_substring_from_eq_append(2)[OF pop(2) b(1) _ newLength_sem[OF r(1)]]
  have "js_substring t (rstart ops r + d) (rstart ops r + d + ro_getNewLength ops r) = sem r" by simp
  with Cons.IH[OF pop(1)] b newLength_nonneg[OF r(1)] show ?case
    by (auto simp: OffsetRange_ofStartAndLength_def OffsetRange_substring_def BaseReplacement_getLengthDelta_def
        d1_def)
qed simp

lemma applyToOffset_ge:
  "fit p n rs \<Longrightarrow> p \<le> i \<Longrightarrow> p + acc \<le> applyToOffset_loop ops rs i acc"
proof (induction rs arbitrary: p acc)
  case (Cons r rs)
  have "rend ops r + (acc + (ro_getNewLength ops r - rlen ops r)) \<ge> p + acc"
    using Cons.prems(1) newLength_nonneg[of r] by (simp add: OffsetRange_length_def)
  moreover have "rend ops r + (acc + (ro_getNewLength ops r - rlen ops r)) \<le>
      applyToOffset_loop ops rs i (acc + (ro_getNewLength ops r - rlen ops r))" if "rend ops r \<le> i"
    using Cons.IH[of "rend ops r"] Cons.prems that by auto
  ultimately show ?case using Cons.prems by auto
qed simp

lemma applyToOffset_mono:
  "fit p n rs \<Longrightarrow> i \<le> j \<Longrightarrow> applyToOffset_loop ops rs i acc \<le> applyToOffset_loop ops rs j acc"
proof (induction rs arbitrary: p acc)
  case (Cons r rs)
  have f: "fit (rend ops r) n rs" and v: "valid r" using Cons.prems(1) by auto
  have "rstart ops r + acc \<le> rend ops r + (acc + (ro_getNewLength ops r - rlen ops r))"
    using newLength_nonneg[OF v] by (simp add: OffsetRange_length_def)
  moreover have "rend ops r + (acc + (ro_getNewLength ops r - rlen ops r)) \<le>
      applyToOffset_loop ops rs j (acc + (ro_getNewLength ops r - rlen ops r))" if "rend ops r \<le> j"
    using applyToOffset_ge[OF f that] .
  ultimately show ?case using Cons.IH[OF f Cons.prems(2)] Cons.prems by (auto simp: not_less)
qed simp

lemma applyToOffsetOrUndefined_eq:
  "applyToOffsetOrUndefined_loop ops rs i acc = Some j \<Longrightarrow> applyToOffset_loop ops rs i acc = j"
  by (induction rs arbitrary: acc) (auto split: if_splits)

lemma applyToOffsetOrUndefined_None:
  assumes "fit p n rs"
  shows "applyToOffsetOrUndefined_loop ops rs i acc = None \<longleftrightarrow>
     (\<exists>r\<in>set rs. OffsetRange_contains (ro_replaceRange ops r) i)"
  using assms
proof (induction rs arbitrary: p acc)
  case (Cons r rs)
  have later: "rend ops r \<le> rstart ops x" if "x \<in> set rs" for x
  proof -
    have "fit (rend ops r) n rs" using Cons.prems by simp
    then show ?thesis using that by (induction rs arbitrary: r) force+
  qed
  show ?case
    using Cons.IH[of "rend ops r"] Cons.prems later by (force simp: OffsetRange_contains_def)
qed simp

lemma applyInverse_roundtrip:
  assumes "fit p n rs" "p \<le> i" "applyToOffsetOrUndefined_loop ops rs i acc = Some j"
  shows "applyInverseToOffset_loop ops rs j acc = i"
  using assms
proof (induction rs arbitrary: p acc)
  case (Cons r rs)
  have f: "fit (rend ops r) n rs" using Cons.prems(1) by simp
  show ?case
  proof (cases "rstart ops r \<le> i")
    case True
    define acc1 where "acc1 = acc + (ro_getNewLength ops r - rlen ops r)"
    have i: "rend ops r \<le> i" "applyToOffsetOrUndefined_loop ops rs i acc1 = Some j"
      using Cons.prems(3) True by (auto simp: acc1_def split: if_splits)
    have "rend ops r + acc1 \<le> j" using applyToOffset_ge[OF f i(1)] applyToOffsetOrUndefined_eq[OF i(2)] by auto
    then have "rstart ops r + ro_getNewLength ops r \<le> j - acc" by (simp add: acc1_def OffsetRange_length_def)
    with Cons.IH[OF f i] newLength_nonneg[of r] Cons.prems(1) show ?thesis by (simp add: acc1_def)
  next
    case False
    with Cons.prems(3) show ?thesis by auto
  qed
qed simp

lemma applyToOffset_keeps:
  assumes "lnk s t p d rs" "p \<le> i" "i < int (length s)"
    and "applyToOffsetOrUndefined_loop ops rs i d = Some j"
  shows "0 \<le> j \<and> j < int (length t) \<and> t ! nat j = s ! nat i"
  using assms
proof (induction rs arbitrary: p d)
  case Nil
  have l: "0 \<le> p" "p \<le> int (length s)" "0 \<le> p + d" "p + d \<le> int (length t)" and j: "j = i + d"
    using Nil.prems by (auto simp: link_def)
  have fit: "fit (int (length s)) (int (length s)) []" by simp
  note sh = link_shift[OF Nil.prems(1) l(2) fit]
  have "int (length s) + d \<le> int (length t)" using sh(1) by (simp add: link_def)
  moreover have "t ! nat (p + d + (i - p)) = s ! nat (p + (i - p))"
    using js_substring_nth[OF sh(2), of "i - p"] l Nil.prems(2,3) calculation by simp
  ultimately show ?case using j Nil.prems(2,3) l by (simp add: algebra_simps)
next
  case (Cons r rs)
  show ?case
  proof (cases "rstart ops r \<le> i")
    case True
    then have "rend ops r \<le> i"
      "applyToOffsetOrUndefined_loop ops rs i (d + (ro_getNewLength ops r - rlen ops r)) = Some j"
      using Cons.prems(4) by (auto split: if_splits)
    with Cons.IH[OF link_pop(1)[OF Cons.prems(1)]] Cons.prems(3) show ?thesis by blast
  next
    case False
    have l: "0 \<le> p" "0 \<le> p + d" "p \<le> rstart ops r" and fit: "fit (rstart ops r) (int (length s)) (r # rs)"
      and j: "j = i + d"
      using Cons.prems False by (auto simp: link_def)
    note sh = link_shift[OF Cons.prems(1) l(3) fit]
    have b: "rstart ops r + d \<le> int (length t)" "rstart ops r \<le> int (length s)"
      using sh(1) fits_le[OF fit] by (auto simp: link_def)
    have "t ! nat (p + d + (i - p)) = s ! nat (p + (i - p))"
      using js_substring_nth[OF sh(2), of "i - p"] l b Cons.prems(2) False by simp
    with j b l Cons.prems(2) False show ?thesis by (simp add: algebra_simps)
  qed
qed

end

subsection \<open>Replacement classes whose edits have an inverse\<close>

locale invertible_replacement = replacement ops sem valid
  for ops :: "'r repl_ops" and sem :: "'r \<Rightarrow> 'c list" and valid +
  fixes mk :: "offset_range \<Rightarrow> 'x \<Rightarrow> 'r" and den :: "'x \<Rightarrow> 'c list" and ok :: "'x \<Rightarrow> bool"
  assumes mk_sem: "offset_wf rg \<Longrightarrow> ok x \<Longrightarrow>
    valid (mk rg x) \<and> ro_replaceRange ops (mk rg x) = rg \<and> sem (mk rg x) = den x"
begin

lemma inverse_loop_ok:
  assumes slice: "\<And>a b. 0 \<le> a \<Longrightarrow> a \<le> b \<Longrightarrow> b \<le> int (length s) \<Longrightarrow>
      ok (getSlice a b) \<and> den (getSlice a b) = js_substring s a b"
    and "lnk s t p d rs"
  shows "\<exists>inv. inverse_loop ops mk getSlice rs d = Inr inv \<and> fit (p + d) (int (length t)) inv \<and>
     app t (p + d) inv = js_substring_from s p"
  using assms(2)
proof (induction rs arbitrary: p d)
  case Nil
  then show ?case by (auto simp: link_def)
next
  case (Cons r rs)
  define d1 where "d1 = d + (ro_getNewLength ops r - rlen ops r)"
  define q where "q = rstart ops r + d"
  have r: "valid r" "p \<le> rstart ops r" "rstart ops r \<le> rend ops r" "0 \<le> p" "0 \<le> p + d"
    "fit (rend ops r) (int (length s)) rs"
    using Cons.prems by (auto simp: link_def)
  have le: "rend ops r \<le> int (length s)" using fits_le[OF r(6)] .
  note pop = link_pop(1)[OF Cons.prems, folded d1_def]
  have eq: "rend ops r + d1 = q + ro_getNewLength ops r" by (simp add: d1_def q_def OffsetRange_length_def)
  have fit0: "fit (rstart ops r) (int (length s)) (r # rs)" using Cons.prems by (simp add: link_def)
  have pre: "js_substring t (p + d) q = js_substring s p (rstart ops r)"
    using link_shift(2)[OF Cons.prems r(2) fit0] by (simp add: q_def)
  let ?rg = "\<lparr>or_start = q, or_endExclusive = q + ro_getNewLength ops r\<rparr>"
  let ?x = "getSlice (rstart ops r) (rend ops r)"
  have x: "ok ?x" "den ?x = js_substring s (rstart ops r) (rend ops r)"
    using slice[of "rstart ops r" "rend ops r"] r le by auto
  have m: "valid (mk ?rg ?x)" "ro_replaceRange ops (mk ?rg ?x) = ?rg" "sem (mk ?rg ?x) = den ?x"
    using mk_sem[of ?rg ?x] x(1) newLength_nonneg[OF r(1)] by auto
  obtain inv where inv: "inverse_loop ops mk getSlice rs d1 = Inr inv"
    "fit (rend ops r + d1) (int (length t)) inv"
    "app t (rend ops r + d1) inv = js_substring_from s (rend ops r)"
    using Cons.IH[OF pop] by blast
  have whole: "js_substring s p (rstart ops r) @ js_substring s (rstart ops r) (rend ops r) @
      js_substring_from s (rend ops r) = js_substring_from s p"
    using r le by (simp add: js_substring_from_append)
  have "inverse_loop ops mk getSlice (r # rs) d = Inr (mk ?rg ?x # inv)"
    using inv(1) newLength_nonneg[OF r(1)] by (simp add: OffsetRange_ofStartAndLength_def q_def d1_def)
  moreover have "fit (p + d) (int (length t)) (mk ?rg ?x # inv)"
    using m inv(2) r newLength_nonneg[OF r(1)] by (simp add: eq q_def)
  moreover have "app t (p + d) (mk ?rg ?x # inv) = js_substring_from s p"
    using m inv(3) pre x(2) whole by (simp add: eq)
  ultimately show ?case by blast
qed

lemma inverse_ok:
  assumes "fit 0 (int (length s)) (replacements e)"
    and "\<And>a b. 0 \<le> a \<Longrightarrow> a \<le> b \<Longrightarrow> b \<le> int (length s) \<Longrightarrow>
      ok (getSlice a b) \<and> den (getSlice a b) = js_substring s a b"
  shows "\<exists>inv. bindR (inverse_loop ops mk getSlice (replacements e) 0) (BaseEdit_new ops) = Inr inv \<and>
     fit 0 (int (length (app s 0 (replacements e)))) (replacements inv) \<and>
     app (app s 0 (replacements e)) 0 (replacements inv) = s"
proof -
  have "lnk s (app s 0 (replacements e)) 0 0 (replacements e)"
    using assms(1) by (simp add: link_def js_substring_from_def)
  from inverse_loop_ok[OF assms(2) this] show ?thesis
    by (auto simp: BaseEdit_new_fits js_substring_from_def)
qed

end

end
