(* ===== verification/StringEdits.thy ===== *)
theory StringEdits
  imports BaseEdits
begin

text \<open>
  \<^verbatim>\<open>src/vs/editor/common/core/edits/stringEdit.ts\<close>: edits of strings. \<open>StringReplacement\<close> and
  \<open>AnnotatedStringReplacement\<close> are interpretations of the contract \<open>replacement\<close>, so
  \<open>normalize\<close>, \<open>compose\<close> and the offset maps of \<open>BaseEdit\<close> are correct for them; on top of that
  the theory models \<open>apply\<close>, the inverse, rebasing, the removal of common prefixes and
  suffixes, end-of-line normalization, serialization and \<open>applyEditsToRanges\<close>.
  \<open>commonPrefixLength\<close> and \<open>commonSuffixLength\<close> are from \<^verbatim>\<open>src/vs/base/common/strings.ts\<close>.

  The methods of \<open>BaseStringEdit\<close> are modelled at \<open>StringReplacement\<close>; \<open>parse\<close> (a regular
  expression over the printed form), \<open>toString\<close> and \<open>applyOnText\<close> (a wrapper of \<open>apply\<close>) are
  not modelled.
\<close>

subsection \<open>Common prefixes and suffixes\<close>

text \<open>The \<open>for\<close> loops compare from one end; the index where they stop is the length.\<close>

fun commonPrefixLength :: "jsstring \<Rightarrow> jsstring \<Rightarrow> int" where
  "commonPrefixLength (a # as) (b # bs) = (if a \<noteq> b then 0 else 1 + commonPrefixLength as bs)"
| "commonPrefixLength _ _ = 0"

definition commonSuffixLength :: "jsstring \<Rightarrow> jsstring \<Rightarrow> int" where
  "commonSuffixLength a b = commonPrefixLength (rev a) (rev b)"

subsection \<open>StringReplacement\<close>

record string_replacement =
  sr_replaceRange :: offset_range
  sr_newText :: jsstring

definition StringReplacement_new :: "offset_range \<Rightarrow> jsstring \<Rightarrow> string_replacement" where
  "StringReplacement_new r text = \<lparr>sr_replaceRange = r, sr_newText = text\<rparr>"

definition StringReplacement_insert :: "int \<Rightarrow> jsstring \<Rightarrow> string_replacement result" where
  "StringReplacement_insert offset text =
     bindR (OffsetRange_emptyAt offset) (\<lambda>r. Inr (StringReplacement_new r text))"

definition StringReplacement_delete :: "offset_range \<Rightarrow> string_replacement" where
  "StringReplacement_delete r = StringReplacement_new r []"

definition StringReplacement_equals :: "string_replacement \<Rightarrow> string_replacement \<Rightarrow> bool" where
  "StringReplacement_equals this other \<longleftrightarrow>
     OffsetRange_equals (sr_replaceRange this) (sr_replaceRange other) \<and> sr_newText this = sr_newText other"

definition StringReplacement_tryJoinTouching ::
    "string_replacement \<Rightarrow> string_replacement \<Rightarrow> string_replacement option result" where
  "StringReplacement_tryJoinTouching this other =
     bindR (OffsetRange_joinRightTouching (sr_replaceRange this) (sr_replaceRange other)) (\<lambda>r.
     Inr (Some (StringReplacement_new r (sr_newText this @ sr_newText other))))"

definition StringReplacement_slice ::
    "string_replacement \<Rightarrow> offset_range \<Rightarrow> offset_range \<Rightarrow> string_replacement" where
  "StringReplacement_slice this r rangeInReplacement =
     StringReplacement_new r (OffsetRange_substring rangeInReplacement (sr_newText this))"

definition string_ops :: "string_replacement repl_ops" where
  "string_ops =
     \<lparr>ro_replaceRange = sr_replaceRange,
      ro_getNewLength = (\<lambda>r. int (length (sr_newText r))),
      ro_tryJoinTouching = StringReplacement_tryJoinTouching,
      ro_slice = StringReplacement_slice,
      ro_equals = StringReplacement_equals\<rparr>"

type_synonym string_edit = "string_replacement base_edit"

text \<open>\<open>replacement.replace(str)\<close>, the effect of one replacement.\<close>

definition StringReplacement_replace :: "string_replacement \<Rightarrow> jsstring \<Rightarrow> jsstring" where
  "StringReplacement_replace this str =
     js_substring str 0 (or_start (sr_replaceRange this)) @ sr_newText this @
     js_substring_from str (or_endExclusive (sr_replaceRange this))"

definition StringReplacement_isNeutralOn :: "string_replacement \<Rightarrow> jsstring \<Rightarrow> bool" where
  "StringReplacement_isNeutralOn this text \<longleftrightarrow>
     sr_newText this = js_substring text (or_start (sr_replaceRange this)) (or_endExclusive (sr_replaceRange this))"

definition StringReplacement_removeCommonSuffixPrefix ::
    "string_replacement \<Rightarrow> jsstring \<Rightarrow> string_replacement result" where
  "StringReplacement_removeCommonSuffixPrefix this originalText =
     (let oldText = js_substring originalText (or_start (sr_replaceRange this)) (or_endExclusive (sr_replaceRange this));
          newText = sr_newText this;
          prefixLen = commonPrefixLength oldText newText;
          suffixLen = min (min (int (length oldText) - prefixLen) (int (length newText) - prefixLen))
                          (commonSuffixLength oldText newText)
      in bindR (OffsetRange_new (or_start (sr_replaceRange this) + prefixLen)
                                (or_endExclusive (sr_replaceRange this) - suffixLen)) (\<lambda>r.
         Inr (StringReplacement_new r (js_substring newText prefixLen (int (length newText) - suffixLen)))))"

text \<open>\<open>newText.replace(/\r\n|\n/g, eol)\<close>; 13 and 10 are the code units of \<open>\r\<close> and \<open>\n\<close>.\<close>

fun replaceEOL :: "jsstring \<Rightarrow> jsstring \<Rightarrow> jsstring" where
  "replaceEOL eol [] = []"
| "replaceEOL eol [c] = (if c = 10 then eol else [c])"
| "replaceEOL eol (c # d # cs) =
     (if c = 13 \<and> d = 10 then eol @ replaceEOL eol cs
      else if c = 10 then eol @ replaceEOL eol (d # cs)
      else c # replaceEOL eol (d # cs))"

definition StringReplacement_normalizeEOL :: "string_replacement \<Rightarrow> jsstring \<Rightarrow> string_replacement" where
  "StringReplacement_normalizeEOL this eol =
     StringReplacement_new (sr_replaceRange this) (replaceEOL eol (sr_newText this))"

definition StringReplacement_removeCommonPrefix ::
    "string_replacement \<Rightarrow> jsstring \<Rightarrow> string_replacement result" where
  "StringReplacement_removeCommonPrefix this source =
     (let oldText = OffsetRange_substring (sr_replaceRange this) source;
          prefixLen = commonPrefixLength oldText (sr_newText this)
      in if prefixLen = 0 then Inr this
         else bindR (OffsetRange_deltaStart (sr_replaceRange this) prefixLen) (\<lambda>r.
              bindR (OffsetRange_new prefixLen (int (length (sr_newText this)))) (\<lambda>inner.
              Inr (StringReplacement_slice this r inner))))"

definition StringReplacement_removeCommonSuffix ::
    "string_replacement \<Rightarrow> jsstring \<Rightarrow> string_replacement result" where
  "StringReplacement_removeCommonSuffix this source =
     (let oldText = OffsetRange_substring (sr_replaceRange this) source;
          suffixLen = commonSuffixLength oldText (sr_newText this)
      in if suffixLen = 0 then Inr this
         else bindR (OffsetRange_deltaEnd (sr_replaceRange this) (- suffixLen)) (\<lambda>r.
              bindR (OffsetRange_new 0 (int (length (sr_newText this)) - suffixLen)) (\<lambda>inner.
              Inr (StringReplacement_slice this r inner))))"

definition StringReplacement_removeCommonSuffixAndPrefix ::
    "string_replacement \<Rightarrow> jsstring \<Rightarrow> string_replacement result" where
  "StringReplacement_removeCommonSuffixAndPrefix this source =
     bindR (StringReplacement_removeCommonSuffix this source)
       (\<lambda>r. StringReplacement_removeCommonPrefix r source)"

definition StringReplacement_toEdit :: "string_replacement \<Rightarrow> string_edit result" where
  "StringReplacement_toEdit this = BaseEdit_new string_ops [this]"

record serialized_string_replacement =
  ser_txt :: jsstring
  ser_pos :: int
  ser_len :: int

definition StringReplacement_toJson :: "string_replacement \<Rightarrow> serialized_string_replacement" where
  "StringReplacement_toJson this =
     \<lparr>ser_txt = sr_newText this, ser_pos = or_start (sr_replaceRange this),
      ser_len = OffsetRange_length (sr_replaceRange this)\<rparr>"

definition StringReplacement_fromJson :: "serialized_string_replacement \<Rightarrow> string_replacement result" where
  "StringReplacement_fromJson data =
     bindR (OffsetRange_ofStartAndLength (ser_pos data) (ser_len data)) (\<lambda>r.
     Inr (StringReplacement_new r (ser_txt data)))"

subsection \<open>BaseStringEdit and StringEdit\<close>

fun StringEdit_apply_loop ::
    "jsstring \<Rightarrow> string_replacement list \<Rightarrow> int \<Rightarrow> jsstring list \<Rightarrow> jsstring list" where
  "StringEdit_apply_loop base [] pos resultText = resultText @ [js_substring_from base pos]"
| "StringEdit_apply_loop base (edit # edits) pos resultText =
     StringEdit_apply_loop base edits (or_endExclusive (sr_replaceRange edit))
       (resultText @ [js_substring base pos (or_start (sr_replaceRange edit))] @ [sr_newText edit])"

definition StringEdit_apply :: "string_edit \<Rightarrow> jsstring \<Rightarrow> jsstring" where
  "StringEdit_apply this base = concat (StringEdit_apply_loop base (replacements this) 0 [])"

definition StringEdit_empty :: string_edit where
  "StringEdit_empty = \<lparr>replacements = []\<rparr>"

definition StringEdit_new :: "string_replacement list \<Rightarrow> string_edit result" where
  "StringEdit_new rs = BaseEdit_new string_ops rs"

definition StringEdit_single :: "string_replacement \<Rightarrow> string_edit result" where
  "StringEdit_single r = StringEdit_new [r]"

definition StringEdit_replace :: "offset_range \<Rightarrow> jsstring \<Rightarrow> string_edit result" where
  "StringEdit_replace r text = StringEdit_new [StringReplacement_new r text]"

definition StringEdit_insert :: "int \<Rightarrow> jsstring \<Rightarrow> string_edit result" where
  "StringEdit_insert offset text =
     bindR (OffsetRange_emptyAt offset) (\<lambda>r. StringEdit_new [StringReplacement_new r text])"

definition StringEdit_delete :: "offset_range \<Rightarrow> string_edit result" where
  "StringEdit_delete r = StringEdit_new [StringReplacement_new r []]"

definition StringEdit_inverseOnSlice :: "string_edit \<Rightarrow> (int \<Rightarrow> int \<Rightarrow> jsstring) \<Rightarrow> string_edit result" where
  "StringEdit_inverseOnSlice this getOriginalSlice =
     bindR (inverse_loop string_ops StringReplacement_new getOriginalSlice (replacements this) 0) (BaseEdit_new string_ops)"

definition StringEdit_inverse :: "string_edit \<Rightarrow> jsstring \<Rightarrow> string_edit result" where
  "StringEdit_inverse this original = StringEdit_inverseOnSlice this (js_substring original)"

definition areConcurrentInserts :: "offset_range \<Rightarrow> offset_range \<Rightarrow> bool" where
  "areConcurrentInserts r1 r2 \<longleftrightarrow>
     OffsetRange_isEmpty r1 \<and> OffsetRange_isEmpty r2 \<and> or_start r1 = or_start r2"

definition isInsertStrictlyInsideRange :: "offset_range \<Rightarrow> offset_range \<Rightarrow> bool" where
  "isInsertStrictlyInsideRange ins r \<longleftrightarrow>
     OffsetRange_isEmpty ins \<and> or_start r < or_start ins \<and> or_start ins < or_endExclusive r"

text \<open>
  The loop of \<open>_tryRebase\<close>: what is left of \<open>this.replacements\<close> and of \<open>base.replacements\<close>, the
  accumulated \<open>offset\<close> and \<open>newEdits\<close>. \<open>None\<close> is the early \<open>return undefined\<close>.
\<close>

function tryRebase_loop ::
    "bool \<Rightarrow> string_replacement list \<Rightarrow> string_replacement list \<Rightarrow> int \<Rightarrow> string_replacement list
     \<Rightarrow> string_replacement list option result" where
  "tryRebase_loop noOverlap [] base offset newEdits = Inr (Some newEdits)"
| "tryRebase_loop noOverlap (o1 # ours) [] offset newEdits =
     bindR (OffsetRange_delta (sr_replaceRange o1) offset) (\<lambda>r.
     tryRebase_loop noOverlap ours [] offset (newEdits @ [StringReplacement_new r (sr_newText o1)]))"
| "tryRebase_loop noOverlap (o1 # ours) (b1 # base) offset newEdits =
     (let our = sr_replaceRange o1; bas = sr_replaceRange b1 in
      if OffsetRange_intersects our bas \<or> areConcurrentInserts our bas \<or>
         isInsertStrictlyInsideRange our bas \<or> isInsertStrictlyInsideRange bas our
      then (if noOverlap then Inr None
            else tryRebase_loop noOverlap ours (b1 # base) offset newEdits)
      else if or_start our < or_start bas \<or> (OffsetRange_isEmpty our \<and> or_start our = or_start bas)
      then bindR (OffsetRange_delta our offset) (\<lambda>r.
           tryRebase_loop noOverlap ours (b1 # base) offset (newEdits @ [StringReplacement_new r (sr_newText o1)]))
      else tryRebase_loop noOverlap (o1 # ours) base
             (offset + (int (length (sr_newText b1)) - OffsetRange_length bas)) newEdits)"
  by pat_completeness auto
termination
  by (relation "measure (\<lambda>(_, ours, base, _). length ours + length base)") auto

definition StringEdit_tryRebase_private :: "string_edit \<Rightarrow> string_edit \<Rightarrow> bool \<Rightarrow> string_edit option result" where
  "StringEdit_tryRebase_private this base noOverlap =
     bindR (tryRebase_loop noOverlap (replacements this) (replacements base) 0 []) (\<lambda>r.
       case r of None \<Rightarrow> Inr None
       | Some newEdits \<Rightarrow> bindR (BaseEdit_new string_ops newEdits) (\<lambda>e. Inr (Some e)))"

definition StringEdit_tryRebase :: "string_edit \<Rightarrow> string_edit \<Rightarrow> string_edit option result" where
  "StringEdit_tryRebase this base = StringEdit_tryRebase_private this base True"

definition StringEdit_rebaseSkipConflicting :: "string_edit \<Rightarrow> string_edit \<Rightarrow> string_edit option result" where
  "StringEdit_rebaseSkipConflicting this base = StringEdit_tryRebase_private this base False"

text \<open>32 is the code unit of a space.\<close>

definition StringEdit_trySwap :: "string_edit \<Rightarrow> string_edit \<Rightarrow> (string_edit \<times> string_edit) option result" where
  "StringEdit_trySwap e1 e2 =
     bindR (StringEdit_inverseOnSlice e1 (\<lambda>start endEx. replicate (nat (endEx - start)) 32)) (\<lambda>e1Inv.
     bindR (StringEdit_tryRebase e2 e1Inv) (\<lambda>r1. case r1 of None \<Rightarrow> Inr None
     | Some e1' \<Rightarrow>
         bindR (StringEdit_tryRebase e1 e1') (\<lambda>r2. case r2 of None \<Rightarrow> Inr None
         | Some e2' \<Rightarrow> Inr (Some (e1', e2')))))"

definition StringEdit_composeOrUndefined :: "string_edit list \<Rightarrow> string_edit option result" where
  "StringEdit_composeOrUndefined edits =
     (case edits of
        [] \<Rightarrow> Inr None
      | e # es \<Rightarrow>
          bindR (foldl (\<lambda>acc x. bindR acc (\<lambda>r. BaseEdit_compose string_ops r x)) (Inr e) es) (\<lambda>r. Inr (Some r)))"

definition StringEdit_compose :: "string_edit list \<Rightarrow> string_edit result" where
  "StringEdit_compose edits =
     (case edits of
        [] \<Rightarrow> Inr StringEdit_empty
      | e # es \<Rightarrow> foldl (\<lambda>acc x. bindR acc (\<lambda>r. BaseEdit_compose string_ops r x)) (Inr e) es)"

text \<open>\<open>curEditReplacements\<close> is a stack, \<open>push\<close> at the end and \<open>at(-1)\<close> the last element.\<close>

fun composeSequential_loop ::
    "string_replacement list \<Rightarrow> string_edit \<Rightarrow> string_replacement list
     \<Rightarrow> (string_edit \<times> string_replacement list) result" where
  "composeSequential_loop [] edit cur = Inr (edit, cur)"
| "composeSequential_loop (r # rs) edit cur =
     (if cur = [] \<or> OffsetRange_isBefore (sr_replaceRange r) (sr_replaceRange (last cur))
      then composeSequential_loop rs edit (cur @ [r])
      else bindR (StringEdit_new (rev cur)) (\<lambda>c.
           bindR (BaseEdit_compose string_ops edit c) (\<lambda>edit'.
           composeSequential_loop rs edit' [r])))"

definition StringEdit_composeSequentialReplacements :: "string_replacement list \<Rightarrow> string_edit result" where
  "StringEdit_composeSequentialReplacements rs =
     bindR (composeSequential_loop rs StringEdit_empty []) (\<lambda>(edit, cur).
     bindR (StringEdit_new (rev cur)) (\<lambda>c. BaseEdit_compose string_ops edit c))"

definition StringEdit_toJson :: "string_edit \<Rightarrow> serialized_string_replacement list" where
  "StringEdit_toJson this = map StringReplacement_toJson (replacements this)"

definition StringEdit_fromJson :: "serialized_string_replacement list \<Rightarrow> string_edit result" where
  "StringEdit_fromJson data = bindR (mapR StringReplacement_fromJson data) StringEdit_new"

definition StringEdit_isNeutralOn :: "string_edit \<Rightarrow> jsstring \<Rightarrow> bool" where
  "StringEdit_isNeutralOn this text \<longleftrightarrow> (\<forall>e\<in>set (replacements this). StringReplacement_isNeutralOn e text)"

definition StringEdit_removeCommonSuffixPrefix :: "string_edit \<Rightarrow> jsstring \<Rightarrow> string_edit result" where
  "StringEdit_removeCommonSuffixPrefix this originalText =
     bindR (mapR (\<lambda>e. StringReplacement_removeCommonSuffixPrefix e originalText) (replacements this)) (\<lambda>edits.
     StringEdit_new (filter (\<lambda>e. \<not> BaseReplacement_isEmpty string_ops e) edits))"

definition StringEdit_normalizeEOL :: "string_edit \<Rightarrow> jsstring \<Rightarrow> string_edit result" where
  "StringEdit_normalizeEOL this eol =
     StringEdit_new (map (\<lambda>e. StringReplacement_normalizeEOL e eol) (replacements this))"

definition StringEdit_normalizeOnSource :: "string_edit \<Rightarrow> jsstring \<Rightarrow> string_edit result" where
  "StringEdit_normalizeOnSource this source =
     (let result = StringEdit_apply this source
      in bindR (OffsetRange_ofLength (int (length source))) (\<lambda>r.
         bindR (StringReplacement_removeCommonSuffixAndPrefix (StringReplacement_new r result) source) (\<lambda>e.
         if BaseReplacement_isEmpty string_ops e then Inr StringEdit_empty
         else StringReplacement_toEdit e)))"

definition StringEdit_removeCommonSuffixAndPrefix :: "string_edit \<Rightarrow> jsstring \<Rightarrow> string_edit result" where
  "StringEdit_removeCommonSuffixAndPrefix this source =
     bindR (mapR (\<lambda>e. StringReplacement_removeCommonSuffixAndPrefix e source) (replacements this)) (\<lambda>rs.
     bindR (StringEdit_new rs) (BaseEdit_normalize string_ops))"

subsection \<open>Annotated edits\<close>

text \<open>The parameter \<open>jn\<close> is the method \<open>join\<close> of the annotation class (\<open>IEditData\<close>).\<close>

record 'd annotated_replacement = string_replacement +
  ar_data :: 'd

definition AnnotatedStringReplacement_new :: "offset_range \<Rightarrow> jsstring \<Rightarrow> 'd \<Rightarrow> 'd annotated_replacement" where
  "AnnotatedStringReplacement_new r text d = \<lparr>sr_replaceRange = r, sr_newText = text, ar_data = d\<rparr>"

definition AnnotatedStringReplacement_equals ::
    "'d annotated_replacement \<Rightarrow> 'd annotated_replacement \<Rightarrow> bool" where
  "AnnotatedStringReplacement_equals this other \<longleftrightarrow>
     OffsetRange_equals (sr_replaceRange this) (sr_replaceRange other) \<and>
     sr_newText this = sr_newText other \<and> ar_data this = ar_data other"

definition AnnotatedStringReplacement_tryJoinTouching ::
    "('d \<Rightarrow> 'd \<Rightarrow> 'd option) \<Rightarrow> 'd annotated_replacement \<Rightarrow> 'd annotated_replacement
     \<Rightarrow> 'd annotated_replacement option result" where
  "AnnotatedStringReplacement_tryJoinTouching jn this other =
     (case jn (ar_data this) (ar_data other) of
        None \<Rightarrow> Inr None
      | Some joined \<Rightarrow>
          bindR (OffsetRange_joinRightTouching (sr_replaceRange this) (sr_replaceRange other)) (\<lambda>r.
          Inr (Some (AnnotatedStringReplacement_new r (sr_newText this @ sr_newText other) joined))))"

definition AnnotatedStringReplacement_slice ::
    "'d annotated_replacement \<Rightarrow> offset_range \<Rightarrow> offset_range \<Rightarrow> 'd annotated_replacement" where
  "AnnotatedStringReplacement_slice this r rangeInReplacement =
     AnnotatedStringReplacement_new r (OffsetRange_substring rangeInReplacement (sr_newText this)) (ar_data this)"

definition annotated_ops :: "('d \<Rightarrow> 'd \<Rightarrow> 'd option) \<Rightarrow> 'd annotated_replacement repl_ops" where
  "annotated_ops jn =
     \<lparr>ro_replaceRange = sr_replaceRange,
      ro_getNewLength = (\<lambda>r. int (length (sr_newText r))),
      ro_tryJoinTouching = AnnotatedStringReplacement_tryJoinTouching jn,
      ro_slice = AnnotatedStringReplacement_slice,
      ro_equals = AnnotatedStringReplacement_equals\<rparr>"

definition VoidEditData_join :: "unit \<Rightarrow> unit \<Rightarrow> unit option" where
  "VoidEditData_join this other = Some this"

definition AnnotatedStringEdit_toStringEdit ::
    "'d annotated_replacement base_edit \<Rightarrow> ('d annotated_replacement \<Rightarrow> bool) option \<Rightarrow> string_edit result" where
  "AnnotatedStringEdit_toStringEdit this flt =
     StringEdit_new (map (\<lambda>r. StringReplacement_new (sr_replaceRange r) (sr_newText r))
       (filter (\<lambda>r. case flt of None \<Rightarrow> True | Some f \<Rightarrow> f r) (replacements this)))"

definition StringEdit_mapData ::
    "('d \<Rightarrow> 'd \<Rightarrow> 'd option) \<Rightarrow> string_edit \<Rightarrow> (string_replacement \<Rightarrow> 'd) \<Rightarrow> 'd annotated_replacement base_edit result" where
  "StringEdit_mapData jn this f =
     BaseEdit_new (annotated_ops jn)
       (map (\<lambda>e. AnnotatedStringReplacement_new (sr_replaceRange e) (sr_newText e) (f e)) (replacements this))"

subsection \<open>applyEditsToRanges\<close>

text \<open>The ranges that end before the edit are moved by \<open>offset\<close> and written out.\<close>

fun editsToRanges_before ::
    "int \<Rightarrow> int \<Rightarrow> offset_range list \<Rightarrow> offset_range list \<Rightarrow> (offset_range list \<times> offset_range list) result" where
  "editsToRanges_before eStart offset [] result = Inr ([], result)"
| "editsToRanges_before eStart offset (r # rs) result =
     (if or_endExclusive r \<ge> eStart then Inr (r # rs, result)
      else bindR (OffsetRange_delta r offset) (\<lambda>r'. editsToRanges_before eStart offset rs (result @ [r'])))"

text \<open>What the \<open>for\<close> loop over \<open>intersecting\<close> does to its element number \<open>i\<close>.\<close>

definition editsToRanges_adjust :: "string_replacement \<Rightarrow> nat \<Rightarrow> offset_range \<Rightarrow> offset_range result" where
  "editsToRanges_adjust e i r0 =
     bindR (OffsetRange_intersect r0 (sr_replaceRange e)) (\<lambda>isect.
     case isect of
       None \<Rightarrow> Inl JsError
     | Some x \<Rightarrow>
         (let overlap = OffsetRange_length x; newLen = int (length (sr_newText e))
          in bindR (OffsetRange_deltaEnd r0 (- overlap + (if i = 0 then newLen else 0))) (\<lambda>r1.
             let rangeAheadOfReplaceRange = or_start r1 - or_start (sr_replaceRange e)
             in bindR (if rangeAheadOfReplaceRange > 0 then OffsetRange_delta r1 (- rangeAheadOfReplaceRange) else Inr r1) (\<lambda>r2.
                bindR (if i \<noteq> 0 then OffsetRange_delta r2 newLen else Inr r2) (\<lambda>r3.
                OffsetRange_delta r3 (- (newLen - OffsetRange_length (sr_replaceRange e))))))))"

fun editsToRanges_adjustAll :: "string_replacement \<Rightarrow> nat \<Rightarrow> offset_range list \<Rightarrow> offset_range list result" where
  "editsToRanges_adjustAll e i [] = Inr []"
| "editsToRanges_adjustAll e i (r # rs) =
     bindR (editsToRanges_adjustAll e (Suc i) rs) (\<lambda>rs'.
     bindR (editsToRanges_adjust e i r) (\<lambda>r'. Inr (r' # rs')))"

fun applyEditsToRanges_loop ::
    "string_replacement list \<Rightarrow> int \<Rightarrow> offset_range list \<Rightarrow> offset_range list \<Rightarrow> offset_range list result" where
  "applyEditsToRanges_loop [] offset sortedRanges result =
     bindR (mapR (\<lambda>r. OffsetRange_delta r offset) sortedRanges) (\<lambda>rs. Inr (result @ rs))"
| "applyEditsToRanges_loop (e # es) offset sortedRanges result =
     bindR (editsToRanges_before (or_start (sr_replaceRange e)) offset sortedRanges result) (\<lambda>(ranges1, result1).
       let touches = (\<lambda>r. OffsetRange_intersectsOrTouches r (sr_replaceRange e));
           intersecting = takeWhile touches ranges1;
           rest = dropWhile touches ranges1
       in bindR (editsToRanges_adjustAll e 0 intersecting) (\<lambda>adjusted.
          applyEditsToRanges_loop es
            (offset + (int (length (sr_newText e)) - OffsetRange_length (sr_replaceRange e)))
            (adjusted @ rest) result1))"

definition applyEditsToRanges :: "offset_range list \<Rightarrow> string_edit \<Rightarrow> offset_range list result" where
  "applyEditsToRanges sortedRanges edit = applyEditsToRanges_loop (replacements edit) 0 sortedRanges []"

subsection \<open>The replacement classes meet the contract\<close>

abbreviation string_valid :: "'a string_replacement_scheme \<Rightarrow> bool" where
  "string_valid r \<equiv> offset_wf (sr_replaceRange r)"

lemma string_ops_simps [simp]:
  "ro_replaceRange string_ops = sr_replaceRange"
  "ro_getNewLength string_ops r = int (length (sr_newText r))"
  "ro_tryJoinTouching string_ops = StringReplacement_tryJoinTouching"
  "ro_slice string_ops = StringReplacement_slice"
  "ro_equals string_ops = StringReplacement_equals"
  by (simp_all add: string_ops_def)

lemma annotated_ops_simps [simp]:
  "ro_replaceRange (annotated_ops jn) = sr_replaceRange"
  "ro_getNewLength (annotated_ops jn) x = int (length (sr_newText x))"
  "ro_tryJoinTouching (annotated_ops jn) = AnnotatedStringReplacement_tryJoinTouching jn"
  "ro_slice (annotated_ops jn) = AnnotatedStringReplacement_slice"
  by (simp_all add: annotated_ops_def)

lemma StringReplacement_new_simps [simp]:
  "sr_replaceRange (StringReplacement_new r x) = r"
  "sr_newText (StringReplacement_new r x) = x"
  by (simp_all add: StringReplacement_new_def)

lemma AnnotatedStringReplacement_new_simps [simp]:
  "sr_replaceRange (AnnotatedStringReplacement_new r x d) = r"
  "sr_newText (AnnotatedStringReplacement_new r x d) = x"
  by (simp_all add: AnnotatedStringReplacement_new_def)

interpretation str: invertible_replacement string_ops sr_newText string_valid StringReplacement_new
  "\<lambda>x. x" "\<lambda>_. True"
proof
  fix r r' :: string_replacement
  assume "string_valid r" "string_valid r'" "offset_wf (ro_replaceRange string_ops r)"
    "offset_wf (ro_replaceRange string_ops r')" "rend string_ops r = rstart string_ops r'"
  then show "\<exists>j. ro_tryJoinTouching string_ops r r' = Inr j \<and>
      (\<forall>x. j = Some x \<longrightarrow> string_valid x \<and> sr_newText x = sr_newText r @ sr_newText r' \<and>
         ro_replaceRange string_ops x = \<lparr>or_start = rstart string_ops r, or_endExclusive = rend string_ops r'\<rparr>)"
    by (auto simp: StringReplacement_tryJoinTouching_def OffsetRange_joinRightTouching_def)
qed (auto simp: StringReplacement_slice_def OffsetRange_substring_def)

interpretation ann: replacement "annotated_ops jn" sr_newText string_valid
proof
  fix r r' :: "'a annotated_replacement"
  assume "string_valid r" "string_valid r'" "offset_wf (ro_replaceRange (annotated_ops jn) r)"
    "offset_wf (ro_replaceRange (annotated_ops jn) r')" "rend (annotated_ops jn) r = rstart (annotated_ops jn) r'"
  then show "\<exists>j. ro_tryJoinTouching (annotated_ops jn) r r' = Inr j \<and>
      (\<forall>x. j = Some x \<longrightarrow> string_valid x \<and> sr_newText x = sr_newText r @ sr_newText r' \<and>
         ro_replaceRange (annotated_ops jn) x =
           \<lparr>or_start = rstart (annotated_ops jn) r, or_endExclusive = rend (annotated_ops jn) r'\<rparr>)"
    by (auto simp: AnnotatedStringReplacement_tryJoinTouching_def OffsetRange_joinRightTouching_def
        split: option.splits)
qed (auto simp: AnnotatedStringReplacement_slice_def OffsetRange_substring_def)

text \<open>A string edit is valid for texts of length \<open>n\<close>: sorted, disjoint and inside the text.\<close>

definition StringEdit_fits :: "string_edit \<Rightarrow> int \<Rightarrow> bool" where
  "StringEdit_fits e n \<longleftrightarrow> fits string_ops string_valid 0 n (replacements e)"

lemma apply_loop_eq:
  "concat (StringEdit_apply_loop s rs p acc) = concat acc @ applyFrom string_ops sr_newText s p rs"
  by (induction rs arbitrary: p acc) auto

lemma StringEdit_apply_eq: "StringEdit_apply e s = applyFrom string_ops sr_newText s 0 (replacements e)"
  by (simp add: StringEdit_apply_def apply_loop_eq)

lemma StringEdit_new_fits:
  "fits string_ops string_valid 0 n rs \<Longrightarrow> StringEdit_new rs = Inr \<lparr>replacements = rs\<rparr>"
  by (simp add: StringEdit_new_def BaseEdit_new_fits)

lemma StringEdit_link:
  "StringEdit_fits e (int (length s)) \<Longrightarrow>
   link string_ops sr_newText string_valid s (StringEdit_apply e s) 0 0 (replacements e)"
  by (simp add: link_def StringEdit_fits_def StringEdit_apply_eq js_substring_from_def)

subsection \<open>Common prefixes and suffixes\<close>

lemma commonPrefixLength_spec:
  "0 \<le> commonPrefixLength a b \<and> commonPrefixLength a b \<le> int (length a) \<and>
   commonPrefixLength a b \<le> int (length b) \<and>
   take (nat (commonPrefixLength a b)) a = take (nat (commonPrefixLength a b)) b"
proof (induction a b rule: commonPrefixLength.induct)
  case (1 a as b bs)
  then show ?case by (auto simp: nat_add_distrib)
qed auto

lemma commonSuffixLength_spec:
  "0 \<le> commonSuffixLength a b \<and> commonSuffixLength a b \<le> int (length a) \<and>
   commonSuffixLength a b \<le> int (length b) \<and>
   drop (length a - nat (commonSuffixLength a b)) a = drop (length b - nat (commonSuffixLength a b)) b"
  using commonPrefixLength_spec[of "rev a" "rev b"]
  by (auto simp: commonSuffixLength_def take_rev)

text \<open>
  \<open>shrinks s r r'\<close>: on \<open>s\<close> the replacement \<open>r'\<close> does what \<open>r\<close> does, on a smaller range.
\<close>

definition shrinks :: "jsstring \<Rightarrow> string_replacement \<Rightarrow> string_replacement \<Rightarrow> bool" where
  "shrinks s r r' \<longleftrightarrow>
     (let a = or_start (sr_replaceRange r); b = or_endExclusive (sr_replaceRange r);
          a' = or_start (sr_replaceRange r'); b' = or_endExclusive (sr_replaceRange r')
      in a \<le> a' \<and> a' \<le> b' \<and> b' \<le> b \<and>
         js_substring s a a' @ sr_newText r' @ js_substring s b' b = sr_newText r)"

lemma shrinks_trans:
  assumes "shrinks s r r1" "shrinks s r1 r2" "0 \<le> or_start (sr_replaceRange r)"
    "or_endExclusive (sr_replaceRange r) \<le> int (length s)"
  shows "shrinks s r r2"
proof -
  let ?a = "\<lambda>r. or_start (sr_replaceRange r)" and ?b = "\<lambda>r. or_endExclusive (sr_replaceRange r)"
  have 1: "?a r \<le> ?a r1" "?a r1 \<le> ?b r1" "?b r1 \<le> ?b r"
      "js_substring s (?a r) (?a r1) @ sr_newText r1 @ js_substring s (?b r1) (?b r) = sr_newText r"
    and 2: "?a r1 \<le> ?a r2" "?a r2 \<le> ?b r2" "?b r2 \<le> ?b r1"
      "js_substring s (?a r1) (?a r2) @ sr_newText r2 @ js_substring s (?b r2) (?b r1) = sr_newText r1"
    using assms(1,2) by (auto simp: shrinks_def Let_def)
  have "js_substring s (?a r) (?a r1) @ js_substring s (?a r1) (?a r2) = js_substring s (?a r) (?a r2)"
    "js_substring s (?b r2) (?b r1) @ js_substring s (?b r1) (?b r) = js_substring s (?b r2) (?b r)"
    using 1 2 assms(3,4) by (auto intro!: js_substring_append)
  then have "js_substring s (?a r) (?a r2) @ sr_newText r2 @ js_substring s (?b r2) (?b r) = sr_newText r"
    using 1(4) 2(4) by (metis append_assoc)
  with 1 2 show ?thesis by (simp add: shrinks_def)
qed

lemma shrinks_emits:
  assumes "shrinks s r r'" "0 \<le> p" "p \<le> or_start (sr_replaceRange r)"
    "or_endExclusive (sr_replaceRange r) \<le> int (length s)"
  shows "emits string_ops sr_newText string_valid s p [r'] (or_endExclusive (sr_replaceRange r))
    (js_substring s p (or_start (sr_replaceRange r)) @ sr_newText r)"
proof -
  let ?a = "or_start (sr_replaceRange r)" and ?a' = "or_start (sr_replaceRange r')"
    and ?b = "or_endExclusive (sr_replaceRange r)" and ?b' = "or_endExclusive (sr_replaceRange r')"
  have le: "?a \<le> ?a'" "?a' \<le> ?b'" "?b' \<le> ?b"
    and eq: "js_substring s ?a ?a' @ sr_newText r' @ js_substring s ?b' ?b = sr_newText r"
    using assms(1) by (auto simp: shrinks_def Let_def)
  have e: "emits string_ops sr_newText string_valid s p ([r'] @ []) ?b
      ((js_substring s p ?a' @ sr_newText r') @ js_substring s ?b' ?b)"
    using emits_one[of string_valid r' p string_ops sr_newText s] le assms(2,3)
      emits_nothing[of ?b' ?b string_ops sr_newText string_valid s]
    by (intro emits_append) auto
  have "js_substring s p ?a @ js_substring s ?a ?a' = js_substring s p ?a'"
    using le assms by (intro js_substring_append) auto
  then have "(js_substring s p ?a' @ sr_newText r') @ js_substring s ?b' ?b = js_substring s p ?a @ sr_newText r"
    using eq by (metis append_assoc)
  with e show ?thesis by simp
qed

lemma shrinks_list:
  assumes "fits string_ops string_valid p (int (length s)) rs" "list_all2 (shrinks s) rs rs'" "0 \<le> p"
  shows "fits string_ops string_valid p (int (length s)) rs' \<and>
     applyFrom string_ops sr_newText s p rs' = applyFrom string_ops sr_newText s p rs"
  using assms(2,1,3)
proof (induction rs rs' arbitrary: p rule: list_all2_induct)
  case (Cons r rs r' rs')
  have f: "fits string_ops string_valid (or_endExclusive (sr_replaceRange r)) (int (length s)) rs"
    and r: "p \<le> or_start (sr_replaceRange r)" "0 \<le> or_endExclusive (sr_replaceRange r)"
    using Cons.prems by auto
  have "emits string_ops sr_newText string_valid s p [r'] (or_endExclusive (sr_replaceRange r))
    (js_substring s p (or_start (sr_replaceRange r)) @ sr_newText r)"
    using Cons.hyps(1) Cons.prems(2) r(1) fits_le[OF f] by (rule shrinks_emits)
  from emits_apply[OF this, of rs'] Cons.IH[OF f r(2)] show ?case by simp
qed simp

lemma prefix_of_common:
  assumes "0 \<le> a" "a \<le> b" "b \<le> int (length s)" "0 \<le> k" "k \<le> b - a" "k \<le> int (length x)"
    and "take (nat k) (js_substring s a b) = take (nat k) x"
  shows "js_substring s a (a + k) = js_substring x 0 k"
proof -
  have "js_substring s a (a + k) = take (nat k) (js_substring s a b)"
    using assms(1-6) by (simp add: js_substring_valid nat_add_distrib)
  with assms show ?thesis by (simp add: js_substring_valid)
qed

lemma suffix_of_common:
  assumes "0 \<le> a" "a \<le> b" "b \<le> int (length s)" "0 \<le> k" "k \<le> b - a" "k \<le> int (length x)"
    and "drop (length (js_substring s a b) - nat k) (js_substring s a b) = drop (length x - nat k) x"
  shows "js_substring s (b - k) b = js_substring x (int (length x) - k) (int (length x))"
proof -
  have len: "length (js_substring s a b) = nat b - nat a" using assms(1-3) by (simp add: js_substring_valid)
  have cut: "js_substring s a b = js_substring s a (b - k) @ js_substring s (b - k) b"
    using assms(1-5) by (intro js_substring_append[symmetric]) auto
  have "length (js_substring s a (b - k)) = nat b - nat a - nat k"
    using assms(1-5) by (simp add: js_substring_valid nat_diff_distrib)
  then have "drop (length (js_substring s a b) - nat k) (js_substring s a b) = js_substring s (b - k) b"
    unfolding len by (subst cut) simp
  moreover have "drop (length x - nat k) x = js_substring x (int (length x) - k) (int (length x))"
    using assms(4,6) by (simp add: js_substring_valid nat_diff_distrib)
  ultimately show ?thesis using assms(7) by simp
qed

lemma removeCommonPrefix_shrinks:
  assumes r: "0 \<le> or_start (sr_replaceRange r)" "string_valid r"
    "or_endExclusive (sr_replaceRange r) \<le> int (length s)"
  shows "\<exists>r'. StringReplacement_removeCommonPrefix r s = Inr r' \<and> shrinks s r r'"
proof -
  let ?a = "or_start (sr_replaceRange r)" and ?b = "or_endExclusive (sr_replaceRange r)" and ?x = "sr_newText r"
  define k where "k = commonPrefixLength (js_substring s ?a ?b) ?x"
  have k: "0 \<le> k" "k \<le> ?b - ?a" "k \<le> int (length ?x)"
    "take (nat k) (js_substring s ?a ?b) = take (nat k) ?x"
    using commonPrefixLength_spec[of "js_substring s ?a ?b" ?x] r by (auto simp: k_def length_js_substring)
  have pre: "js_substring s ?a (?a + k) = js_substring ?x 0 k"
    using prefix_of_common[OF r(1,2,3) k] .
  have whole: "js_substring ?x 0 k @ js_substring ?x k (int (length ?x)) = ?x"
    using js_substring_append[of 0 k "int (length ?x)" ?x] k by simp
  show ?thesis
  proof (cases "k = 0")
    case True
    then show ?thesis using r
      by (simp add: StringReplacement_removeCommonPrefix_def Let_def OffsetRange_substring_def
          shrinks_def flip: k_def)
  next
    case False
    then show ?thesis using r k pre whole
      by (simp add: StringReplacement_removeCommonPrefix_def Let_def OffsetRange_substring_def
          OffsetRange_deltaStart_def StringReplacement_slice_def shrinks_def flip: k_def)
  qed
qed

lemma removeCommonSuffix_shrinks:
  assumes r: "0 \<le> or_start (sr_replaceRange r)" "string_valid r"
    "or_endExclusive (sr_replaceRange r) \<le> int (length s)"
  shows "\<exists>r'. StringReplacement_removeCommonSuffix r s = Inr r' \<and> shrinks s r r'"
proof -
  let ?a = "or_start (sr_replaceRange r)" and ?b = "or_endExclusive (sr_replaceRange r)" and ?x = "sr_newText r"
  define k where "k = commonSuffixLength (js_substring s ?a ?b) ?x"
  have k: "0 \<le> k" "k \<le> ?b - ?a" "k \<le> int (length ?x)"
    "drop (length (js_substring s ?a ?b) - nat k) (js_substring s ?a ?b) = drop (length ?x - nat k) ?x"
    using commonSuffixLength_spec[of "js_substring s ?a ?b" ?x] r by (auto simp: k_def length_js_substring)
  have suf: "js_substring s (?b - k) ?b = js_substring ?x (int (length ?x) - k) (int (length ?x))"
    using suffix_of_common[OF r(1,2,3) k] .
  have whole: "js_substring ?x 0 (int (length ?x) - k) @ js_substring ?x (int (length ?x) - k) (int (length ?x)) = ?x"
    using js_substring_append[of 0 "int (length ?x) - k" "int (length ?x)" ?x] k by simp
  show ?thesis
  proof (cases "k = 0")
    case True
    then show ?thesis using r
      by (simp add: StringReplacement_removeCommonSuffix_def Let_def OffsetRange_substring_def
          shrinks_def flip: k_def)
  next
    case False
    then show ?thesis using r k suf whole
      by (simp add: StringReplacement_removeCommonSuffix_def Let_def OffsetRange_substring_def
          OffsetRange_deltaEnd_def StringReplacement_slice_def shrinks_def flip: k_def)
  qed
qed

lemma removeCommonSuffixAndPrefix_shrinks:
  assumes r: "0 \<le> or_start (sr_replaceRange r)" "string_valid r"
    "or_endExclusive (sr_replaceRange r) \<le> int (length s)"
  shows "\<exists>r'. StringReplacement_removeCommonSuffixAndPrefix r s = Inr r' \<and> shrinks s r r'"
proof -
  obtain r1 where r1: "StringReplacement_removeCommonSuffix r s = Inr r1" "shrinks s r r1"
    using removeCommonSuffix_shrinks[OF r] by blast
  have "0 \<le> or_start (sr_replaceRange r1)" "string_valid r1" "or_endExclusive (sr_replaceRange r1) \<le> int (length s)"
    using r1(2) r by (auto simp: shrinks_def Let_def)
  from removeCommonPrefix_shrinks[OF this] r1 show ?thesis
    using shrinks_trans[OF r1(2) _ r(1,3)]
    by (auto simp: StringReplacement_removeCommonSuffixAndPrefix_def)
qed

lemma removeCommonSuffixPrefix_shrinks:
  assumes r: "0 \<le> or_start (sr_replaceRange r)" "string_valid r"
    "or_endExclusive (sr_replaceRange r) \<le> int (length s)"
  shows "\<exists>r'. StringReplacement_removeCommonSuffixPrefix r s = Inr r' \<and> shrinks s r r'"
proof -
  let ?a = "or_start (sr_replaceRange r)" and ?b = "or_endExclusive (sr_replaceRange r)" and ?x = "sr_newText r"
  let ?o = "js_substring s ?a ?b"
  define k where "k = commonPrefixLength ?o ?x"
  define c where "c = commonSuffixLength ?o ?x"
  define m where "m = min (min (int (length ?o) - k) (int (length ?x) - k)) c"
  have lo: "int (length ?o) = ?b - ?a" using r by (simp add: length_js_substring)
  have k: "0 \<le> k" "k \<le> ?b - ?a" "k \<le> int (length ?x)" "take (nat k) ?o = take (nat k) ?x"
    using commonPrefixLength_spec[of ?o ?x] lo by (auto simp: k_def)
  have c: "0 \<le> c" "c \<le> ?b - ?a" "c \<le> int (length ?x)" "drop (length ?o - nat c) ?o = drop (length ?x - nat c) ?x"
    using commonSuffixLength_spec[of ?o ?x] lo by (auto simp: c_def)
  have m: "0 \<le> m" "m \<le> c" "m \<le> ?b - ?a - k" "m \<le> int (length ?x) - k" using k c lo by (auto simp: m_def)
  have dd: "drop (length xs - i) xs = drop (j - i) (drop (length xs - j) xs)"
    if "i \<le> j" "j \<le> length xs" for i j and xs :: jsstring using that by simp
  have "drop (length ?o - nat m) ?o = drop (nat c - nat m) (drop (length ?o - nat c) ?o)"
    "drop (length ?x - nat m) ?x = drop (nat c - nat m) (drop (length ?x - nat c) ?x)"
    using m(2) c lo by (intro dd; simp)+
  then have dm: "drop (length ?o - nat m) ?o = drop (length ?x - nat m) ?x" using c(4) by simp
  have pre: "js_substring s ?a (?a + k) = js_substring ?x 0 k" using prefix_of_common[OF r(1,2,3) k] .
  have suf: "js_substring s (?b - m) ?b = js_substring ?x (int (length ?x) - m) (int (length ?x))"
    using m k by (intro suffix_of_common[OF r(1,2,3) m(1) _ _ dm]) auto
  have whole: "js_substring ?x 0 k @ js_substring ?x k (int (length ?x) - m) @
      js_substring ?x (int (length ?x) - m) (int (length ?x)) = ?x"
    using k m by (simp add: js_substring_append)
  show ?thesis
    using r k m pre suf whole
    by (simp add: StringReplacement_removeCommonSuffixPrefix_def Let_def shrinks_def flip: k_def c_def m_def)
qed

lemma mapR_shrinks:
  assumes "\<And>r. 0 \<le> or_start (sr_replaceRange r) \<Longrightarrow> string_valid r \<Longrightarrow>
      or_endExclusive (sr_replaceRange r) \<le> int (length s) \<Longrightarrow> \<exists>r'. f r = Inr r' \<and> shrinks s r r'"
    and "fits string_ops string_valid p (int (length s)) rs" "0 \<le> p"
  shows "\<exists>rs'. mapR f rs = Inr rs' \<and> list_all2 (shrinks s) rs rs'"
  using assms(2,3)
proof (induction rs arbitrary: p)
  case (Cons r rs)
  have f: "fits string_ops string_valid (or_endExclusive (sr_replaceRange r)) (int (length s)) rs"
    using Cons.prems by simp
  have "0 \<le> or_start (sr_replaceRange r)" "string_valid r" using Cons.prems by auto
  moreover from this obtain rs' where "mapR f rs = Inr rs'" "list_all2 (shrinks s) rs rs'"
    using Cons.IH[OF f] by auto
  ultimately show ?case using assms(1)[of r] fits_le[OF f] by auto
qed simp

lemma filter_nonempty_ok:
  assumes "fits string_ops string_valid p (int (length s)) rs" "0 \<le> p"
  defines "rs' \<equiv> filter (\<lambda>e. \<not> BaseReplacement_isEmpty string_ops e) rs"
  shows "fits string_ops string_valid p (int (length s)) rs' \<and>
     applyFrom string_ops sr_newText s p rs' = applyFrom string_ops sr_newText s p rs"
  using assms(1,2) unfolding rs'_def
proof (induction rs arbitrary: p)
  case (Cons r rs)
  show ?case
  proof (cases "BaseReplacement_isEmpty string_ops r")
    case True
    with str.app_skip_empty[OF Cons.prems(1) _ _ Cons.prems(2) refl] Cons.IH[of p] Cons.prems(2) show ?thesis
      by (simp add: BaseReplacement_isEmpty_def)
  next
    case False
    with Cons show ?thesis by simp
  qed
qed simp

subsection \<open>Rebasing\<close>

definition rebase_conflict :: "offset_range \<Rightarrow> offset_range \<Rightarrow> bool" where
  "rebase_conflict a b \<longleftrightarrow> OffsetRange_intersects a b \<or> areConcurrentInserts a b \<or>
     isInsertStrictlyInsideRange a b \<or> isInsertStrictlyInsideRange b a"

definition rebase_first :: "offset_range \<Rightarrow> offset_range \<Rightarrow> bool" where
  "rebase_first a b \<longleftrightarrow> or_start a < or_start b \<or> (OffsetRange_isEmpty a \<and> or_start a = or_start b)"

text \<open>
  The specification of rebasing: both edits merged into one edit of the common original,
  without the replacements of ours that conflict.
\<close>

function rebase_merge :: "string_replacement list \<Rightarrow> string_replacement list \<Rightarrow> string_replacement list" where
  "rebase_merge [] base = base"
| "rebase_merge (o1 # ours) [] = o1 # rebase_merge ours []"
| "rebase_merge (o1 # ours) (b1 # base) =
     (if rebase_conflict (sr_replaceRange o1) (sr_replaceRange b1) then rebase_merge ours (b1 # base)
      else if rebase_first (sr_replaceRange o1) (sr_replaceRange b1) then o1 # rebase_merge ours (b1 # base)
      else b1 # rebase_merge (o1 # ours) base)"
  by pat_completeness auto
termination
  by (relation "measure (\<lambda>(ours, base). length ours + length base)") auto

lemma tryRebase_loop_Cons:
  "tryRebase_loop noOverlap (o1 # ours) (b1 # base) d acc =
     (if rebase_conflict (sr_replaceRange o1) (sr_replaceRange b1)
      then (if noOverlap then Inr None else tryRebase_loop noOverlap ours (b1 # base) d acc)
      else if rebase_first (sr_replaceRange o1) (sr_replaceRange b1)
      then bindR (OffsetRange_delta (sr_replaceRange o1) d) (\<lambda>r.
           tryRebase_loop noOverlap ours (b1 # base) d (acc @ [StringReplacement_new r (sr_newText o1)]))
      else tryRebase_loop noOverlap (o1 # ours) base
             (d + (int (length (sr_newText b1)) - OffsetRange_length (sr_replaceRange b1))) acc)"
  by (simp add: rebase_conflict_def rebase_first_def Let_def)

declare tryRebase_loop.simps(3) [simp del]

lemmas rebase_defs = rebase_conflict_def rebase_first_def OffsetRange_intersects_def areConcurrentInserts_def
  isInsertStrictlyInsideRange_def OffsetRange_isEmpty_def Let_def

lemma rebase_order:
  assumes "offset_wf a" "offset_wf b" "\<not> rebase_conflict a b"
  shows "rebase_first a b \<Longrightarrow> or_endExclusive a \<le> or_start b"
    and "\<not> rebase_first a b \<Longrightarrow> or_endExclusive b \<le> or_start a"
    and "rebase_first b a \<longleftrightarrow> \<not> rebase_first a b"
proof -
  obtain i j k l where ab: "a = \<lparr>or_start = i, or_endExclusive = j\<rparr>" "b = \<lparr>or_start = k, or_endExclusive = l\<rparr>"
    by (metis offset_range.cases)
  have wf: "i \<le> j" "k \<le> l" using assms(1,2) by (simp_all add: ab)
  have nc: "\<not> (i < j \<and> i < l \<and> k < j \<and> k < l)" "\<not> (i = j \<and> k = l \<and> i = k)"
    "\<not> (i = j \<and> k < i \<and> i < l)" "\<not> (k = l \<and> i < k \<and> k < j)"
    using assms(3) by (auto simp: ab rebase_defs)
  show "rebase_first a b \<Longrightarrow> or_endExclusive a \<le> or_start b"
    and "\<not> rebase_first a b \<Longrightarrow> or_endExclusive b \<le> or_start a"
    and "rebase_first b a \<longleftrightarrow> \<not> rebase_first a b"
    using wf nc by (simp_all add: ab rebase_defs) arith+
qed

lemma rebase_conflict_sym: "rebase_conflict a b = rebase_conflict b a"
  by (simp add: rebase_defs max.commute min.commute) (intro iffI; elim disjE; simp)

abbreviation string_link :: "jsstring \<Rightarrow> jsstring \<Rightarrow> int \<Rightarrow> int \<Rightarrow> string_replacement list \<Rightarrow> bool" where
  "string_link \<equiv> link string_ops sr_newText string_valid"

abbreviation string_fits :: "int \<Rightarrow> int \<Rightarrow> string_replacement list \<Rightarrow> bool" where
  "string_fits \<equiv> fits string_ops string_valid"

abbreviation string_app :: "jsstring \<Rightarrow> int \<Rightarrow> string_replacement list \<Rightarrow> jsstring" where
  "string_app \<equiv> applyFrom string_ops sr_newText"

text \<open>Taking one of our replacements: its range moves by the offset and nothing else changes.\<close>

lemma rebase_take_ours:
  assumes link: "string_link s t p d base" and ours: "string_fits p (int (length s)) (o1 # ours)"
    and base: "string_fits (or_endExclusive (sr_replaceRange o1)) (int (length s)) base"
  defines "r \<equiv> \<lparr>or_start = or_start (sr_replaceRange o1) + d, or_endExclusive = or_endExclusive (sr_replaceRange o1) + d\<rparr>"
  shows "OffsetRange_delta (sr_replaceRange o1) d = Inr r"
    and "string_link s t (or_endExclusive (sr_replaceRange o1)) d base"
    and "string_fits (or_endExclusive (sr_replaceRange o1) + d) (int (length t)) out \<Longrightarrow>
         string_fits (p + d) (int (length t)) (StringReplacement_new r (sr_newText o1) # out)"
    and "string_app t (p + d) (StringReplacement_new r (sr_newText o1) # out) =
         js_substring s p (or_start (sr_replaceRange o1)) @ sr_newText o1 @
         string_app t (or_endExclusive (sr_replaceRange o1) + d) out"
proof -
  have o1: "p \<le> or_start (sr_replaceRange o1)" "string_valid o1" using ours by auto
  then show "OffsetRange_delta (sr_replaceRange o1) d = Inr r" by (simp add: OffsetRange_delta_def r_def)
  show "string_link s t (or_endExclusive (sr_replaceRange o1)) d base"
    using link_shift(1)[OF link _ base] o1 by simp
  show "string_fits (or_endExclusive (sr_replaceRange o1) + d) (int (length t)) out \<Longrightarrow>
         string_fits (p + d) (int (length t)) (StringReplacement_new r (sr_newText o1) # out)"
    using o1 by (simp add: r_def)
  have "string_fits (or_start (sr_replaceRange o1)) (int (length s)) base" using base o1 by (auto elim: fits_sub)
  from link_shift(2)[OF link o1(1) this]
  show "string_app t (p + d) (StringReplacement_new r (sr_newText o1) # out) =
         js_substring s p (or_start (sr_replaceRange o1)) @ sr_newText o1 @
         string_app t (or_endExclusive (sr_replaceRange o1) + d) out" by (simp add: r_def)
qed

lemma tryRebase_loop_ok:
  assumes "string_link s t p d base" "string_fits p (int (length s)) ours"
  shows "\<exists>res. tryRebase_loop noOverlap ours base d acc = Inr res \<and> (\<not> noOverlap \<longrightarrow> res \<noteq> None) \<and>
     (\<forall>x. res = Some x \<longrightarrow> (\<exists>out. x = acc @ out \<and> string_fits (p + d) (int (length t)) out \<and>
        string_app t (p + d) out = string_app s p (rebase_merge ours base)))"
  using assms
proof (induction ours base arbitrary: p d acc rule: rebase_merge.induct)
  case (1 base)
  then show ?case by (auto simp: link_def)
next
  case (2 o1 ours)
  have f: "string_fits (or_endExclusive (sr_replaceRange o1)) (int (length s)) ours" using "2.prems"(2) by simp
  then have "string_fits (or_endExclusive (sr_replaceRange o1)) (int (length s)) []" by (auto dest: fits_le)
  note t = rebase_take_ours[OF "2.prems" this]
  from "2.IH"[OF t(2) f] t show ?case by fastforce
next
  case (3 o1 ours b1 base)
  have o1: "string_valid o1" "p \<le> or_start (sr_replaceRange o1)"
    "string_fits (or_endExclusive (sr_replaceRange o1)) (int (length s)) ours" using "3.prems"(2) by auto
  have b1: "string_valid b1" "p \<le> or_start (sr_replaceRange b1)"
    "string_fits (or_endExclusive (sr_replaceRange b1)) (int (length s)) base"
    using "3.prems"(1) by (auto simp: link_def)
  show ?case
  proof (cases "rebase_conflict (sr_replaceRange o1) (sr_replaceRange b1)")
    case True
    have "string_fits p (int (length s)) ours" using o1 by (auto elim: fits_sub)
    from "3.IH"(1)[OF True "3.prems"(1) this, of acc] True show ?thesis
      by (cases noOverlap) (simp_all add: tryRebase_loop_Cons)
  next
    case nc: False
    note ord = rebase_order[OF o1(1) b1(1) nc]
    show ?thesis
    proof (cases "rebase_first (sr_replaceRange o1) (sr_replaceRange b1)")
      case True
      have f: "string_fits (or_endExclusive (sr_replaceRange o1)) (int (length s)) (b1 # base)"
        using ord(1)[OF True] b1 by simp
      note t = rebase_take_ours[OF "3.prems" f]
      from "3.IH"(2)[OF nc True t(2) o1(3)] t(1,3,4) nc True show ?thesis
        by (simp add: tryRebase_loop_Cons) fastforce
    next
      case False
      define d1 where "d1 = d + (int (length (sr_newText b1)) - OffsetRange_length (sr_replaceRange b1))"
      note pop = str.link_pop(1,2)[OF "3.prems"(1)]
      have l: "string_link s t (or_endExclusive (sr_replaceRange b1)) d1 base" using pop(1) by (simp add: d1_def)
      have f: "string_fits (or_endExclusive (sr_replaceRange b1)) (int (length s)) (o1 # ours)"
        using ord(2)[OF False] o1 by simp
      have eq: "or_endExclusive (sr_replaceRange b1) + d1 =
          or_start (sr_replaceRange b1) + d + int (length (sr_newText b1))"
        by (simp add: d1_def OffsetRange_length_def)
      have le: "p + d \<le> or_endExclusive (sr_replaceRange b1) + d1" using b1(2) eq by linarith
      have p: "0 \<le> p + d" using "3.prems"(1) by (simp add: link_def)
      have ext: "string_fits (p + d) (int (length t)) out \<and>
          string_app t (p + d) out = js_substring s p (or_start (sr_replaceRange b1)) @ sr_newText b1 @
            string_app t (or_endExclusive (sr_replaceRange b1) + d1) out"
        if o: "string_fits (or_endExclusive (sr_replaceRange b1) + d1) (int (length t)) out" for out
      proof -
        have f': "string_fits (p + d) (int (length t)) out" using o le by (rule fits_sub)
        from applyFrom_split[OF f' o p le refl, of sr_newText] pop(2) f' show ?thesis by (simp add: eq)
      qed
      have merge: "string_app s p (rebase_merge (o1 # ours) (b1 # base)) =
          js_substring s p (or_start (sr_replaceRange b1)) @ sr_newText b1 @
          string_app s (or_endExclusive (sr_replaceRange b1)) (rebase_merge (o1 # ours) base)"
        using nc False by simp
      have step: "tryRebase_loop noOverlap (o1 # ours) (b1 # base) d acc = tryRebase_loop noOverlap (o1 # ours) base d1 acc"
        using nc False by (simp add: tryRebase_loop_Cons d1_def)
      from "3.IH"(3)[OF nc False l f, of acc] ext show ?thesis
        unfolding step merge by (metis (no_types, lifting))
    qed
  qed
qed

lemma tryRebase_ok:
  assumes "StringEdit_fits e (int (length s))" "StringEdit_fits base (int (length s))"
  shows "\<exists>res. StringEdit_tryRebase_private e base noOverlap = Inr res \<and> (\<not> noOverlap \<longrightarrow> res \<noteq> None) \<and>
     (\<forall>e'. res = Some e' \<longrightarrow> StringEdit_fits e' (int (length (StringEdit_apply base s))) \<and>
        StringEdit_apply e' (StringEdit_apply base s) =
          string_app s 0 (rebase_merge (replacements e) (replacements base)))"
proof -
  have "string_fits 0 (int (length s)) (replacements e)" using assms(1) by (simp add: StringEdit_fits_def)
  from tryRebase_loop_ok[OF StringEdit_link[OF assms(2)] this, of noOverlap "[]"] obtain res where
    res: "tryRebase_loop noOverlap (replacements e) (replacements base) 0 [] = Inr res" "\<not> noOverlap \<longrightarrow> res \<noteq> None"
    "\<And>x. res = Some x \<Longrightarrow> string_fits 0 (int (length (StringEdit_apply base s))) x \<and>
       string_app (StringEdit_apply base s) 0 x = string_app s 0 (rebase_merge (replacements e) (replacements base))"
    by auto
  show ?thesis
  proof (cases res)
    case None
    with res show ?thesis by (simp add: StringEdit_tryRebase_private_def)
  next
    case (Some x)
    note x = res(3)[OF Some]
    then have "BaseEdit_new string_ops x = Inr \<lparr>replacements = x\<rparr>" by (auto intro: BaseEdit_new_fits)
    with res(1) x Some show ?thesis
      by (simp add: StringEdit_tryRebase_private_def StringEdit_fits_def StringEdit_apply_eq[of _ "StringEdit_apply base s"])
  qed
qed

lemma rebase_merge_Nil [simp]: "rebase_merge ours [] = ours"
  by (induction ours) auto

text \<open>When neither rebase meets a conflict, the merge does not depend on the order.\<close>

lemma rebase_merge_sym:
  assumes "tryRebase_loop True ours base d acc = Inr (Some x)" "tryRebase_loop True base ours d' acc' = Inr (Some y)"
    and "\<forall>r\<in>set ours \<union> set base. string_valid r"
  shows "rebase_merge ours base = rebase_merge base ours"
  using assms
proof (induction ours base arbitrary: d acc d' acc' rule: rebase_merge.induct)
  case (3 o1 ours b1 base)
  let ?o = "sr_replaceRange o1" and ?b = "sr_replaceRange b1"
  have nc: "\<not> rebase_conflict ?o ?b" "\<not> rebase_conflict ?b ?o"
    using "3.prems"(1) rebase_conflict_sym[of ?o ?b] by (auto simp: tryRebase_loop_Cons split: if_splits)
  have wf: "offset_wf ?o" "offset_wf ?b" using "3.prems"(3) by auto
  note ord = rebase_order(3)[OF wf nc(1)]
  show ?case
  proof (cases "rebase_first ?o ?b")
    case True
    with ord nc "3.prems"(1,2) obtain d1 acc1 d2 acc2 where
      "tryRebase_loop True ours (b1 # base) d1 acc1 = Inr (Some x)"
      "tryRebase_loop True (b1 # base) ours d2 acc2 = Inr (Some y)"
      unfolding tryRebase_loop_Cons by (auto simp: result_simps)
    with "3.IH"(2)[OF nc(1) True this] "3.prems"(3) nc ord True show ?thesis by simp
  next
    case False
    with ord nc "3.prems"(1,2) obtain d1 acc1 d2 acc2 where
      "tryRebase_loop True (o1 # ours) base d1 acc1 = Inr (Some x)"
      "tryRebase_loop True base (o1 # ours) d2 acc2 = Inr (Some y)"
      unfolding tryRebase_loop_Cons by (auto simp: result_simps)
    with "3.IH"(3)[OF nc(1) False this] "3.prems"(3) nc ord False show ?thesis by simp
  qed
qed auto

subsection \<open>Sequential replacements\<close>

text \<open>Each replacement lies inside the text the previous ones produced.\<close>

fun sequential_fits :: "jsstring \<Rightarrow> string_replacement list \<Rightarrow> bool" where
  "sequential_fits s [] = True"
| "sequential_fits s (r # rs) \<longleftrightarrow>
     0 \<le> or_start (sr_replaceRange r) \<and> string_valid r \<and> or_endExclusive (sr_replaceRange r) \<le> int (length s) \<and>
     sequential_fits (StringReplacement_replace r s) rs"

lemma StringReplacement_replace_eq: "StringReplacement_replace r s = string_app s 0 [r]"
  by (simp add: StringReplacement_replace_def)

text \<open>A replacement before all others can be applied together with them.\<close>

lemma replace_before:
  assumes Q: "string_fits 0 (int (length u)) Q" "Q \<noteq> []"
    and r: "0 \<le> or_start (sr_replaceRange r)" "string_valid r"
      "or_endExclusive (sr_replaceRange r) \<le> or_start (sr_replaceRange (hd Q))"
  shows "string_fits 0 (int (length u)) (r # Q)"
    and "StringReplacement_replace r (string_app u 0 Q) = string_app u 0 (r # Q)"
proof -
  let ?a = "or_start (sr_replaceRange r)" and ?b = "or_endExclusive (sr_replaceRange r)"
  have fb: "string_fits ?b (int (length u)) Q" using Q r(3) by (cases Q) auto
  then have fa: "string_fits ?a (int (length u)) Q" using r(2) by (auto elim: fits_sub)
  show "string_fits 0 (int (length u)) (r # Q)" using fb r by simp
  have l: "string_link u (string_app u 0 Q) 0 0 Q" using Q(1) by (simp add: link_def js_substring_from_def)
  have b0: "0 \<le> ?b" using r by linarith
  have "js_substring_from (string_app u 0 Q) ?b = string_app u ?b Q"
    using link_shift(1)[OF l b0 fb] by (simp add: link_def)
  with link_shift(2)[OF l r(1) fa] show "StringReplacement_replace r (string_app u 0 Q) = string_app u 0 (r # Q)"
    by (simp add: StringReplacement_replace_def)
qed

lemma composeSequential_loop_ok:
  assumes "StringEdit_fits edit (int (length s))"
    and "string_fits 0 (int (length (StringEdit_apply edit s))) (rev cur)"
    and "sequential_fits (string_app (StringEdit_apply edit s) 0 (rev cur)) rs"
  shows "\<exists>edit' cur'. composeSequential_loop rs edit cur = Inr (edit', cur') \<and>
     StringEdit_fits edit' (int (length s)) \<and>
     string_fits 0 (int (length (StringEdit_apply edit' s))) (rev cur') \<and>
     string_app (StringEdit_apply edit' s) 0 (rev cur') =
       foldl (\<lambda>t r. StringReplacement_replace r t) (string_app (StringEdit_apply edit s) 0 (rev cur)) rs"
  using assms
proof (induction rs arbitrary: edit cur)
  case (Cons r rs)
  let ?u = "StringEdit_apply edit s"
  let ?t = "string_app ?u 0 (rev cur)"
  have r: "0 \<le> or_start (sr_replaceRange r)" "string_valid r" "or_endExclusive (sr_replaceRange r) \<le> int (length ?t)"
    "sequential_fits (StringReplacement_replace r ?t) rs" using Cons.prems(3) by auto
  show ?case
  proof (cases "cur = [] \<or> OffsetRange_isBefore (sr_replaceRange r) (sr_replaceRange (last cur))")
    case True
    have "string_fits 0 (int (length ?u)) (rev (cur @ [r])) \<and>
        string_app ?u 0 (rev (cur @ [r])) = StringReplacement_replace r ?t"
    proof (cases "cur = []")
      case True
      with r show ?thesis by (simp add: StringReplacement_replace_eq js_substring_from_def)
    next
      case False
      with True r Cons.prems(2) replace_before[of ?u "rev cur" r] show ?thesis
        by (simp add: OffsetRange_isBefore_def hd_rev)
    qed
    with Cons.IH[OF Cons.prems(1), of "cur @ [r]"] r(4) True show ?thesis by simp
  next
    case False
    have new: "StringEdit_new (rev cur) = Inr \<lparr>replacements = rev cur\<rparr>"
      using Cons.prems(2) by (rule StringEdit_new_fits)
    obtain edit' where e': "BaseEdit_compose string_ops edit \<lparr>replacements = rev cur\<rparr> = Inr edit'"
      "StringEdit_fits edit' (int (length s))" "StringEdit_apply edit' s = ?t"
      using str.compose_ok[of s edit "\<lparr>replacements = rev cur\<rparr>"] Cons.prems(1,2)
      by (auto simp: StringEdit_fits_def StringEdit_apply_eq)
    have "string_app (StringEdit_apply edit' s) 0 (rev [r]) = StringReplacement_replace r ?t"
      using e'(3) by (simp add: StringReplacement_replace_eq)
    with Cons.IH[OF e'(2), of "[r]"] r e' False new show ?thesis by simp
  qed
qed auto

subsection \<open>Ranges under edits\<close>

lemma OffsetRange_delta_wf:
  "offset_wf r \<Longrightarrow> \<exists>r'. OffsetRange_delta r d = Inr r' \<and> offset_wf r'"
  by (simp add: OffsetRange_delta_def)

lemma editsToRanges_before_ok:
  assumes "\<forall>r\<in>set rs. offset_wf r"
  shows "\<exists>rs' res'. editsToRanges_before a d rs res = Inr (rs', res') \<and>
     length rs' + length res' = length rs + length res \<and> (\<forall>r\<in>set rs'. offset_wf r)"
  using assms
proof (induction rs arbitrary: res)
  case (Cons r rs)
  then obtain r' where "OffsetRange_delta r d = Inr r'" using OffsetRange_delta_wf[of r d] by auto
  with Cons.IH[of "res @ [r']"] Cons.prems show ?case by auto
qed simp

lemma editsToRanges_adjust_ok:
  assumes "offset_wf r" "OffsetRange_intersectsOrTouches r (sr_replaceRange e)"
  shows "\<exists>r'. editsToRanges_adjust e i r = Inr r' \<and> offset_wf r'"
proof -
  have x: "\<exists>i. OffsetRange_intersect r (sr_replaceRange e) = Inr i \<and>
      (\<exists>x. i = Some x \<and> OffsetRange_length x \<le> or_endExclusive r - or_start r)"
    using assms by (auto simp: intersect_eq OffsetRange_intersectsOrTouches_def OffsetRange_length_def Let_def)
  have delta: "\<exists>r'. (if c then OffsetRange_delta r1 d else Inr r1) = Inr r' \<and> offset_wf r'"
    if "offset_wf r1" for c r1 d
    using OffsetRange_delta_wf[OF that] that by simp
  have dend: "\<exists>r1. OffsetRange_deltaEnd r (- OffsetRange_length x + (if i = 0 then int (length (sr_newText e)) else 0)) = Inr r1 \<and>
      offset_wf r1" if "OffsetRange_length x \<le> or_endExclusive r - or_start r" for x
    using that by (simp add: OffsetRange_deltaEnd_def)
  show ?thesis
    unfolding editsToRanges_adjust_def
  proof (rule bindR_ex[OF x], elim exE conjE, simp only: option.case Let_def)
    fix x assume "OffsetRange_length x \<le> or_endExclusive r - or_start r"
    show "\<exists>b. bindR (OffsetRange_deltaEnd r (- OffsetRange_length x + (if i = 0 then int (length (sr_newText e)) else 0)))
      (\<lambda>r1. bindR (if 0 < or_start r1 - or_start (sr_replaceRange e)
                   then OffsetRange_delta r1 (- (or_start r1 - or_start (sr_replaceRange e))) else Inr r1)
        (\<lambda>r2. bindR (if i \<noteq> 0 then OffsetRange_delta r2 (int (length (sr_newText e))) else Inr r2)
          (\<lambda>r3. OffsetRange_delta r3 (- (int (length (sr_newText e)) - OffsetRange_length (sr_replaceRange e)))))) = Inr b \<and>
      offset_wf b"
      by (rule bindR_ex[OF dend]) (fact, rule bindR_ex[OF delta], assumption, rule bindR_ex[OF delta], assumption,
          rule OffsetRange_delta_wf)
  qed
qed

lemma editsToRanges_adjustAll_ok:
  assumes "\<forall>r\<in>set rs. offset_wf r \<and> OffsetRange_intersectsOrTouches r (sr_replaceRange e)"
  shows "\<exists>rs'. editsToRanges_adjustAll e i rs = Inr rs' \<and> length rs' = length rs \<and> (\<forall>r\<in>set rs'. offset_wf r)"
  using assms
proof (induction rs arbitrary: i)
  case (Cons r rs)
  obtain r' where "editsToRanges_adjust e i r = Inr r'" "offset_wf r'"
    using editsToRanges_adjust_ok[of r e i] Cons.prems by auto
  with Cons.IH[of "Suc i"] Cons.prems show ?case by auto
qed simp

lemma applyEditsToRanges_loop_ok:
  assumes "\<forall>r\<in>set rs. offset_wf r"
  shows "\<exists>res'. applyEditsToRanges_loop es d rs res = Inr res' \<and> length res' = length rs + length res"
  using assms
proof (induction es arbitrary: d rs res)
  case Nil
  have "mapR (\<lambda>r. OffsetRange_delta r d) rs =
      Inr (map (\<lambda>r. \<lparr>or_start = or_start r + d, or_endExclusive = or_endExclusive r + d\<rparr>) rs)"
    using Nil by (intro mapR_total) (simp add: OffsetRange_delta_def)
  then show ?case by simp
next
  case (Cons e es)
  obtain rs1 res1 where b: "editsToRanges_before (or_start (sr_replaceRange e)) d rs res = Inr (rs1, res1)"
    "length rs1 + length res1 = length rs + length res" "\<forall>r\<in>set rs1. offset_wf r"
    using editsToRanges_before_ok[OF Cons.prems] by blast
  let ?P = "\<lambda>r. OffsetRange_intersectsOrTouches r (sr_replaceRange e)"
  have "\<forall>r\<in>set (takeWhile ?P rs1). offset_wf r \<and> ?P r" using b(3) by (auto dest: set_takeWhileD)
  from editsToRanges_adjustAll_ok[OF this, of 0] obtain adj where
    adj: "editsToRanges_adjustAll e 0 (takeWhile ?P rs1) = Inr adj" "length adj = length (takeWhile ?P rs1)"
    "\<forall>r\<in>set adj. offset_wf r" by blast
  have len: "length (takeWhile ?P rs1) + length (dropWhile ?P rs1) = length rs1"
    by (metis length_append takeWhile_dropWhile_id)
  have "\<forall>r\<in>set (adj @ dropWhile ?P rs1). offset_wf r" using adj(3) b(3) by (auto dest: set_dropWhileD)
  from Cons.IH[OF this, of "d + (int (length (sr_newText e)) - OffsetRange_length (sr_replaceRange e))" res1]
    b adj len show ?case by (auto simp: Let_def)
qed

subsection \<open>Properties\<close>

text \<open>
  C1. The documented invariant of \<open>BaseEdit.compose\<close>, for \<open>StringEdit\<close>: when the first edit is
  valid for a text and the second one for the edited text, \<open>compose\<close> does not throw, the
  composed edit is valid for the original text, and applying it equals applying one edit
  after the other.
\<close>

theorem StringEdit_compose_correct:
  assumes "StringEdit_fits e1 (int (length s))"
    and "StringEdit_fits e2 (int (length (StringEdit_apply e1 s)))"
  shows "\<exists>e. BaseEdit_compose string_ops e1 e2 = Inr e \<and> StringEdit_fits e (int (length s)) \<and>
     StringEdit_apply e s = StringEdit_apply e2 (StringEdit_apply e1 s)"
  using str.compose_ok[of s e1 e2] assms by (simp add: StringEdit_fits_def StringEdit_apply_eq)

theorem StringEdit_compose_correct_witness:
  "\<exists>e. BaseEdit_compose string_ops
       \<lparr>replacements = [\<lparr>sr_replaceRange = \<lparr>or_start = 1, or_endExclusive = 2\<rparr>, sr_newText = [7, 8]\<rparr>]\<rparr>
       \<lparr>replacements = [\<lparr>sr_replaceRange = \<lparr>or_start = 2, or_endExclusive = 4\<rparr>, sr_newText = [9]\<rparr>]\<rparr> = Inr e \<and>
     StringEdit_apply e [1, 2, 3, 4] = [1, 7, 9, 4]"
proof -
  let ?e1 = "\<lparr>replacements = [\<lparr>sr_replaceRange = \<lparr>or_start = 1, or_endExclusive = 2\<rparr>, sr_newText = [7, 8]\<rparr>]\<rparr>"
  let ?e2 = "\<lparr>replacements = [\<lparr>sr_replaceRange = \<lparr>or_start = 2, or_endExclusive = 4\<rparr>, sr_newText = [9]\<rparr>]\<rparr>"
  have a1: "StringEdit_apply ?e1 [1, 2, 3, 4] = [1, 7, 8, 3, 4]"
    and a2: "StringEdit_apply ?e2 [1, 7, 8, 3, 4] = [1, 7, 9, 4]" by code_simp+
  have "StringEdit_fits ?e1 (int (length [1, 2, 3, 4 :: nat]))" by (simp add: StringEdit_fits_def)
  moreover have "StringEdit_fits ?e2 (int (length (StringEdit_apply ?e1 [1, 2, 3, 4])))"
    unfolding a1 by (simp add: StringEdit_fits_def)
  ultimately show ?thesis using StringEdit_compose_correct[of ?e1 "[1, 2, 3, 4]" ?e2] a1 a2 by auto
qed

text \<open>
  \<open>normalize\<close> does not throw on a valid edit and the normalized edit is valid and has the
  same effect.
\<close>

theorem StringEdit_normalize_correct:
  assumes "StringEdit_fits e (int (length s))"
  shows "\<exists>e'. BaseEdit_normalize string_ops e = Inr e' \<and> StringEdit_fits e' (int (length s)) \<and>
     StringEdit_apply e' s = StringEdit_apply e s"
  using str.normalize_ok[of "int (length s)" e] assms by (auto simp: StringEdit_fits_def StringEdit_apply_eq)

theorem StringEdit_normalize_correct_witness:
  "\<exists>e'. BaseEdit_normalize string_ops
       \<lparr>replacements = [\<lparr>sr_replaceRange = \<lparr>or_start = 0, or_endExclusive = 1\<rparr>, sr_newText = [7]\<rparr>,
                        \<lparr>sr_replaceRange = \<lparr>or_start = 1, or_endExclusive = 2\<rparr>, sr_newText = [8]\<rparr>]\<rparr> = Inr e' \<and>
     StringEdit_apply e' [1, 2, 3] = [7, 8, 3]"
proof -
  let ?e = "\<lparr>replacements = [\<lparr>sr_replaceRange = \<lparr>or_start = 0, or_endExclusive = 1\<rparr>, sr_newText = [7]\<rparr>,
                        \<lparr>sr_replaceRange = \<lparr>or_start = 1, or_endExclusive = 2\<rparr>, sr_newText = [8]\<rparr>]\<rparr>"
  have "StringEdit_apply ?e [1, 2, 3] = [7, 8, 3]" by code_simp
  moreover have "StringEdit_fits ?e (int (length [1, 2, 3 :: nat]))" by (simp add: StringEdit_fits_def)
  ultimately show ?thesis using StringEdit_normalize_correct[of ?e "[1, 2, 3]"] by auto
qed

text \<open>
  C35. \<open>inverse\<close> reverts: it does not throw, is valid for the edited text and applying it there
  gives back the original text.
\<close>

theorem StringEdit_inverse_roundtrip:
  assumes "StringEdit_fits e (int (length s))"
  shows "\<exists>inv. StringEdit_inverse e s = Inr inv \<and>
     StringEdit_fits inv (int (length (StringEdit_apply e s))) \<and>
     StringEdit_apply inv (StringEdit_apply e s) = s"
  using str.inverse_ok[of s e "js_substring s"] assms
  by (simp add: StringEdit_fits_def StringEdit_apply_eq StringEdit_inverse_def StringEdit_inverseOnSlice_def)

theorem StringEdit_inverse_roundtrip_witness:
  "\<exists>inv. StringEdit_inverse
       \<lparr>replacements = [\<lparr>sr_replaceRange = \<lparr>or_start = 1, or_endExclusive = 2\<rparr>, sr_newText = [7, 8]\<rparr>]\<rparr> [1, 2, 3]
       = Inr inv \<and> StringEdit_apply inv [1, 7, 8, 3] = [1, 2, 3]"
proof -
  let ?e = "\<lparr>replacements = [\<lparr>sr_replaceRange = \<lparr>or_start = 1, or_endExclusive = 2\<rparr>, sr_newText = [7, 8]\<rparr>]\<rparr>"
  have "StringEdit_apply ?e [1, 2, 3] = [1, 7, 8, 3]" by code_simp
  moreover have "StringEdit_fits ?e (int (length [1, 2, 3 :: nat]))" by (simp add: StringEdit_fits_def)
  ultimately show ?thesis using StringEdit_inverse_roundtrip[of ?e "[1, 2, 3]"] by auto
qed



text \<open>
  \<open>composeSequentialReplacements\<close>, which batches runs of replacements that move backwards:
  for replacements each of which lies inside the text the previous ones produced, it does
  not throw and its edit does what applying the replacements one after the other does.
\<close>

theorem StringEdit_composeSequential_correct:
  assumes "sequential_fits s rs"
  shows "\<exists>e. StringEdit_composeSequentialReplacements rs = Inr e \<and> StringEdit_fits e (int (length s)) \<and>
     StringEdit_apply e s = foldl (\<lambda>t r. StringReplacement_replace r t) s rs"
proof -
  have 0: "StringEdit_fits StringEdit_empty (int (length s))" "StringEdit_apply StringEdit_empty s = s"
    by (simp_all add: StringEdit_fits_def StringEdit_empty_def StringEdit_apply_eq js_substring_from_def)
  have "string_fits 0 (int (length (StringEdit_apply StringEdit_empty s))) (rev [])" by simp
  moreover have "sequential_fits (string_app (StringEdit_apply StringEdit_empty s) 0 (rev [])) rs"
    using assms 0(2) by (simp add: js_substring_from_def)
  ultimately obtain edit cur where l: "composeSequential_loop rs StringEdit_empty [] = Inr (edit, cur)"
    "StringEdit_fits edit (int (length s))" "string_fits 0 (int (length (StringEdit_apply edit s))) (rev cur)"
    "string_app (StringEdit_apply edit s) 0 (rev cur) = foldl (\<lambda>t r. StringReplacement_replace r t) s rs"
    using composeSequential_loop_ok[OF 0(1), of "[]" rs] 0(2) by (auto simp: js_substring_from_def)
  have "StringEdit_new (rev cur) = Inr \<lparr>replacements = rev cur\<rparr>" using l(3) by (rule StringEdit_new_fits)
  with str.compose_ok[of s edit "\<lparr>replacements = rev cur\<rparr>"] l show ?thesis
    by (auto simp: StringEdit_composeSequentialReplacements_def StringEdit_fits_def StringEdit_apply_eq)
qed

theorem StringEdit_composeSequential_correct_witness:
  "\<exists>e. StringEdit_composeSequentialReplacements
       [\<lparr>sr_replaceRange = \<lparr>or_start = 2, or_endExclusive = 3\<rparr>, sr_newText = [7, 8]\<rparr>,
        \<lparr>sr_replaceRange = \<lparr>or_start = 0, or_endExclusive = 1\<rparr>, sr_newText = []\<rparr>,
        \<lparr>sr_replaceRange = \<lparr>or_start = 2, or_endExclusive = 3\<rparr>, sr_newText = [9]\<rparr>] = Inr e \<and>
     StringEdit_apply e [1, 2, 3] = [2, 7, 9]"
proof -
  let ?rs = "[\<lparr>sr_replaceRange = \<lparr>or_start = 2, or_endExclusive = 3\<rparr>, sr_newText = [7, 8]\<rparr>,
        \<lparr>sr_replaceRange = \<lparr>or_start = 0, or_endExclusive = 1\<rparr>, sr_newText = []\<rparr>,
        \<lparr>sr_replaceRange = \<lparr>or_start = 2, or_endExclusive = 3\<rparr>, sr_newText = [9]\<rparr>]"
  have "sequential_fits [1, 2, 3] ?rs"
    and f: "foldl (\<lambda>t r. StringReplacement_replace r t) [1, 2, 3] ?rs = [2, 7, 9]" by code_simp+
  from StringEdit_composeSequential_correct[OF this(1)] f show ?thesis by auto
qed

text \<open>
  Minimizing an edit for a text keeps its effect there: \<open>removeCommonSuffixAndPrefix\<close> (trim,
  then normalize), \<open>removeCommonSuffixPrefix\<close> (trim, drop empty replacements) and
  \<open>normalizeOnSource\<close> (one trimmed replacement) do not throw on a valid edit, and their results
  are valid and produce the same text. Two edits with the same result on the source have the
  same \<open>normalizeOnSource\<close>.
\<close>

theorem StringEdit_minimize_correct:
  assumes "StringEdit_fits e (int (length s))"
  shows "\<exists>e1 e2 e3.
     StringEdit_removeCommonSuffixAndPrefix e s = Inr e1 \<and> StringEdit_fits e1 (int (length s)) \<and>
     StringEdit_apply e1 s = StringEdit_apply e s \<and>
     StringEdit_removeCommonSuffixPrefix e s = Inr e2 \<and> StringEdit_fits e2 (int (length s)) \<and>
     StringEdit_apply e2 s = StringEdit_apply e s \<and>
     StringEdit_normalizeOnSource e s = Inr e3 \<and> StringEdit_fits e3 (int (length s)) \<and>
     StringEdit_apply e3 s = StringEdit_apply e s \<and>
     (\<forall>e'. StringEdit_apply e' s = StringEdit_apply e s \<longrightarrow> StringEdit_normalizeOnSource e' s = Inr e3)"
proof -
  have f: "string_fits 0 (int (length s)) (replacements e)" using assms by (simp add: StringEdit_fits_def)
  obtain rs1 where rs1: "mapR (\<lambda>e. StringReplacement_removeCommonSuffixAndPrefix e s) (replacements e) = Inr rs1"
    "list_all2 (shrinks s) (replacements e) rs1"
    using mapR_shrinks[OF removeCommonSuffixAndPrefix_shrinks f] by auto
  note s1 = shrinks_list[OF f rs1(2)]
  obtain e1 where e1: "StringEdit_removeCommonSuffixAndPrefix e s = Inr e1" "StringEdit_fits e1 (int (length s))"
    "StringEdit_apply e1 s = StringEdit_apply e s"
    using str.normalize_ok[of "int (length s)" "\<lparr>replacements = rs1\<rparr>"] s1 rs1(1)
    by (auto simp: StringEdit_removeCommonSuffixAndPrefix_def StringEdit_new_fits StringEdit_fits_def StringEdit_apply_eq)
  obtain rs2 where rs2: "mapR (\<lambda>e. StringReplacement_removeCommonSuffixPrefix e s) (replacements e) = Inr rs2"
    "list_all2 (shrinks s) (replacements e) rs2"
    using mapR_shrinks[OF removeCommonSuffixPrefix_shrinks f] by auto
  note s2 = shrinks_list[OF f rs2(2)]
  obtain e2 where e2: "StringEdit_removeCommonSuffixPrefix e s = Inr e2" "StringEdit_fits e2 (int (length s))"
    "StringEdit_apply e2 s = StringEdit_apply e s"
    using filter_nonempty_ok[of 0 s rs2] s2 rs2(1)
    by (auto simp: StringEdit_removeCommonSuffixPrefix_def StringEdit_new_fits StringEdit_fits_def StringEdit_apply_eq)
  let ?r = "StringReplacement_new \<lparr>or_start = 0, or_endExclusive = int (length s)\<rparr> (StringEdit_apply e s)"
  obtain x where x: "StringReplacement_removeCommonSuffixAndPrefix ?r s = Inr x" "shrinks s ?r x"
    using removeCommonSuffixAndPrefix_shrinks[of ?r s] by auto
  have fr: "string_fits 0 (int (length s)) [?r]" by simp
  have sx: "string_fits 0 (int (length s)) [x]" "string_app s 0 [x] = StringEdit_apply e s"
    using shrinks_list[OF fr, of "[x]"] x(2) by (auto simp: js_substring_from_def)
  have norm: "StringEdit_normalizeOnSource e' s =
      (if BaseReplacement_isEmpty string_ops x then Inr StringEdit_empty else Inr \<lparr>replacements = [x]\<rparr>)"
    if "StringEdit_apply e' s = StringEdit_apply e s" for e'
    using that x(1) BaseEdit_new_fits[OF sx(1)]
    by (simp add: StringEdit_normalizeOnSource_def OffsetRange_ofLength_def StringReplacement_toEdit_def)
  define e3 where "e3 = (if BaseReplacement_isEmpty string_ops x then StringEdit_empty else \<lparr>replacements = [x]\<rparr>)"
  have "StringEdit_fits e3 (int (length s))" "StringEdit_apply e3 s = StringEdit_apply e s"
    using filter_nonempty_ok[OF sx(1)] sx
    by (auto simp: e3_def StringEdit_fits_def StringEdit_apply_eq[of _ s] StringEdit_empty_def
        simp del: applyFrom.simps(2))
  moreover have "StringEdit_normalizeOnSource e' s = Inr e3" if "StringEdit_apply e' s = StringEdit_apply e s" for e'
    using norm[OF that] by (simp add: e3_def)
  ultimately show ?thesis using e1 e2 by blast
qed

theorem StringEdit_minimize_correct_witness:
  "\<exists>e3. StringEdit_normalizeOnSource
       \<lparr>replacements = [\<lparr>sr_replaceRange = \<lparr>or_start = 0, or_endExclusive = 3\<rparr>, sr_newText = [1, 9, 3]\<rparr>]\<rparr> [1, 2, 3]
       = Inr e3 \<and> StringEdit_apply e3 [1, 2, 3] = [1, 9, 3]"
proof -
  let ?e = "\<lparr>replacements = [\<lparr>sr_replaceRange = \<lparr>or_start = 0, or_endExclusive = 3\<rparr>, sr_newText = [1, 9, 3]\<rparr>]\<rparr>"
  have "StringEdit_apply ?e [1, 2, 3] = [1, 9, 3]" by code_simp
  moreover have "StringEdit_fits ?e (int (length [1, 2, 3 :: nat]))" by (simp add: StringEdit_fits_def)
  ultimately show ?thesis using StringEdit_minimize_correct[of ?e "[1, 2, 3]"] by auto
qed

text \<open>
  Offsets through an edit. An offset of the original text that no replaced range contains
  is mapped by \<open>applyToOffset\<close> to the offset of the same code unit in the edited text, and
  \<open>applyInverseToOffset\<close> maps it back; \<open>applyToOffsetOrUndefined\<close> answers \<open>undefined\<close> exactly
  for the other offsets; \<open>applyToOffset\<close> is monotone, so \<open>applyToOffsetRange\<close> never throws.
\<close>

theorem StringEdit_offset_maps:
  assumes "StringEdit_fits e (int (length s))" and "0 \<le> i" and "i < int (length s)" and "i \<le> j"
  shows "(BaseEdit_applyToOffsetOrUndefined string_ops e i = None \<longleftrightarrow>
            (\<exists>r\<in>set (replacements e). OffsetRange_contains (sr_replaceRange r) i)) \<and>
         (\<forall>k. BaseEdit_applyToOffsetOrUndefined string_ops e i = Some k \<longrightarrow>
            BaseEdit_applyToOffset string_ops e i = k \<and>
            0 \<le> k \<and> k < int (length (StringEdit_apply e s)) \<and> StringEdit_apply e s ! nat k = s ! nat i \<and>
            BaseEdit_applyInverseToOffset string_ops e k = i) \<and>
         BaseEdit_applyToOffset string_ops e i \<le> BaseEdit_applyToOffset string_ops e j \<and>
         (\<exists>r. BaseEdit_applyToOffsetRange string_ops e \<lparr>or_start = i, or_endExclusive = j\<rparr> = Inr r)"
proof -
  have f: "string_fits 0 (int (length s)) (replacements e)" using assms(1) by (simp add: StringEdit_fits_def)
  note mono = str.applyToOffset_mono[OF f assms(4), of 0]
  have some: "BaseEdit_applyToOffset string_ops e i = k \<and>
            0 \<le> k \<and> k < int (length (StringEdit_apply e s)) \<and> StringEdit_apply e s ! nat k = s ! nat i \<and>
            BaseEdit_applyInverseToOffset string_ops e k = i"
    if "applyToOffsetOrUndefined_loop string_ops (replacements e) i 0 = Some k" for k
    using str.applyToOffsetOrUndefined_eq[OF that] str.applyInverse_roundtrip[OF f assms(2) that]
      str.applyToOffset_keeps[OF StringEdit_link[OF assms(1)] assms(2,3) that]
    by (simp add: BaseEdit_applyToOffset_def BaseEdit_applyInverseToOffset_def)
  show ?thesis
    using str.applyToOffsetOrUndefined_None[OF f, of i 0] some mono
    by (auto simp: BaseEdit_applyToOffsetOrUndefined_def BaseEdit_applyToOffset_def BaseEdit_applyToOffsetRange_def)
qed

theorem StringEdit_offset_maps_witness:
  "BaseEdit_applyInverseToOffset string_ops
     \<lparr>replacements = [\<lparr>sr_replaceRange = \<lparr>or_start = 0, or_endExclusive = 1\<rparr>, sr_newText = [7, 8, 9]\<rparr>]\<rparr> 4 = 2"
proof -
  let ?e = "\<lparr>replacements = [\<lparr>sr_replaceRange = \<lparr>or_start = 0, or_endExclusive = 1\<rparr>, sr_newText = [7, 8, 9]\<rparr>]\<rparr>"
  have "StringEdit_fits ?e (int (length [1, 2, 3 :: nat]))" by (simp add: StringEdit_fits_def)
  from StringEdit_offset_maps[OF this, of 2 2]
  have "\<forall>k. BaseEdit_applyToOffsetOrUndefined string_ops ?e 2 = Some k \<longrightarrow>
      BaseEdit_applyInverseToOffset string_ops ?e k = 2" by simp
  moreover have "BaseEdit_applyToOffsetOrUndefined string_ops ?e 2 = Some 4" by code_simp
  ultimately show ?thesis by blast
qed

text \<open>
  \<open>decomposeSplit\<close> splits an edit into two that do the same one after the other, the first
  of which holds exactly the chosen replacements; \<open>getNewDataLength\<close> is the length of the edited
  text and each range of \<open>getNewRanges\<close> cuts the new text of its replacement out of it.
\<close>

theorem StringEdit_decomposeSplit_correct:
  assumes "StringEdit_fits e (int (length s))"
  shows "\<exists>e1 e2 R.
     BaseEdit_decomposeSplit string_ops e P = Inr (e1, e2) \<and>
     replacements e1 = filter P (replacements e) \<and>
     StringEdit_fits e2 (int (length (StringEdit_apply e1 s))) \<and>
     StringEdit_apply e2 (StringEdit_apply e1 s) = StringEdit_apply e s \<and>
     BaseEdit_getNewDataLength string_ops e (int (length s)) = int (length (StringEdit_apply e s)) \<and>
     BaseEdit_getNewRanges string_ops e = Inr R \<and>
     list_all2 (\<lambda>x r. 0 \<le> or_start x \<and> or_endExclusive x \<le> int (length (StringEdit_apply e s)) \<and>
        OffsetRange_substring x (StringEdit_apply e s) = sr_newText r) R (replacements e)"
proof -
  have f: "string_fits 0 (int (length s)) (replacements e)" using assms by (simp add: StringEdit_fits_def)
  obtain e1 e2 where "BaseEdit_decomposeSplit string_ops e P = Inr (e1, e2)"
     "replacements e1 = filter P (replacements e)"
     "StringEdit_fits e2 (int (length (StringEdit_apply e1 s)))"
     "StringEdit_apply e2 (StringEdit_apply e1 s) = StringEdit_apply e s"
    using str.decomposeSplit_ok[OF f, of P] by (auto simp: StringEdit_fits_def StringEdit_apply_eq)
  moreover have "BaseEdit_getNewDataLength string_ops e (int (length s)) = int (length (StringEdit_apply e s))"
    using str.getNewDataLength_ok[OF f] by (simp add: StringEdit_apply_eq)
  moreover obtain R where "BaseEdit_getNewRanges string_ops e = Inr R"
     "list_all2 (\<lambda>x r. 0 \<le> or_start x \<and> or_endExclusive x \<le> int (length (StringEdit_apply e s)) \<and>
        OffsetRange_substring x (StringEdit_apply e s) = sr_newText r) R (replacements e)"
    using str.getNewRanges_loop_ok[OF StringEdit_link[OF assms]] by (auto simp: BaseEdit_getNewRanges_def)
  ultimately show ?thesis by blast
qed

theorem StringEdit_decomposeSplit_correct_witness:
  "\<exists>e1 e2. BaseEdit_decomposeSplit string_ops
       \<lparr>replacements = [\<lparr>sr_replaceRange = \<lparr>or_start = 0, or_endExclusive = 1\<rparr>, sr_newText = [7, 8]\<rparr>,
                        \<lparr>sr_replaceRange = \<lparr>or_start = 2, or_endExclusive = 3\<rparr>, sr_newText = [9]\<rparr>]\<rparr>
       (\<lambda>r. or_start (sr_replaceRange r) = 0) = Inr (e1, e2) \<and>
     StringEdit_apply e2 (StringEdit_apply e1 [1, 2, 3]) = [7, 8, 2, 9]"
proof -
  let ?e = "\<lparr>replacements = [\<lparr>sr_replaceRange = \<lparr>or_start = 0, or_endExclusive = 1\<rparr>, sr_newText = [7, 8]\<rparr>,
                        \<lparr>sr_replaceRange = \<lparr>or_start = 2, or_endExclusive = 3\<rparr>, sr_newText = [9]\<rparr>]\<rparr>"
  have "StringEdit_apply ?e [1, 2, 3] = [7, 8, 2, 9]" by code_simp
  moreover have "StringEdit_fits ?e (int (length [1, 2, 3 :: nat]))" by (simp add: StringEdit_fits_def)
  ultimately show ?thesis
    using StringEdit_decomposeSplit_correct[of ?e "[1, 2, 3]" "\<lambda>r. or_start (sr_replaceRange r) = 0"] by auto
qed

text \<open>
  Serialization round trip: \<open>StringEdit.fromJson\<close> of \<open>toJson\<close> of a valid edit is that edit.
\<close>

theorem StringEdit_json_roundtrip:
  assumes "StringEdit_fits e n"
  shows "StringEdit_fromJson (StringEdit_toJson e) = Inr e"
proof -
  have f: "string_fits 0 n (replacements e)" using assms by (simp add: StringEdit_fits_def)
  have one: "StringReplacement_fromJson (StringReplacement_toJson r) = Inr r" if "string_valid r" for r
    using that by (simp add: StringReplacement_fromJson_def StringReplacement_toJson_def
        OffsetRange_ofStartAndLength_def OffsetRange_length_def StringReplacement_new_def)
  have "mapR StringReplacement_fromJson (map StringReplacement_toJson rs) = Inr rs" if "\<forall>r\<in>set rs. string_valid r" for rs
    using that one by (induction rs) auto
  moreover have "\<forall>r\<in>set (replacements e). string_valid r"
    using f fits_valid[of string_ops string_valid] by blast
  ultimately show ?thesis
    using StringEdit_new_fits[OF f] by (simp add: StringEdit_fromJson_def StringEdit_toJson_def)
qed

theorem StringEdit_json_roundtrip_witness:
  "StringEdit_fromJson [\<lparr>ser_txt = [7, 8], ser_pos = 1, ser_len = 2\<rparr>] =
   Inr \<lparr>replacements = [\<lparr>sr_replaceRange = \<lparr>or_start = 1, or_endExclusive = 3\<rparr>, sr_newText = [7, 8]\<rparr>]\<rparr>"
  using StringEdit_json_roundtrip[of
    "\<lparr>replacements = [\<lparr>sr_replaceRange = \<lparr>or_start = 1, or_endExclusive = 3\<rparr>, sr_newText = [7, 8]\<rparr>]\<rparr>" 3]
  by (simp add: StringEdit_fits_def StringEdit_toJson_def StringReplacement_toJson_def OffsetRange_length_def)

text \<open>
  C38. \<open>applyEditsToRanges\<close> never throws on well-formed ranges, in particular the non-null
  assertion on the intersection and every range construction in its adjustment loop are
  safe, and it returns as many ranges as it is given.
\<close>

theorem applyEditsToRanges_total:
  assumes "\<forall>r\<in>set sortedRanges. or_start r \<le> or_endExclusive r"
  shows "\<exists>res. applyEditsToRanges sortedRanges edit = Inr res \<and> length res = length sortedRanges"
  using applyEditsToRanges_loop_ok[OF assms, of "replacements edit" 0 "[]"] by (auto simp: applyEditsToRanges_def)

theorem applyEditsToRanges_total_witness:
  "\<exists>res. applyEditsToRanges [\<lparr>or_start = 0, or_endExclusive = 3\<rparr>, \<lparr>or_start = 5, or_endExclusive = 6\<rparr>]
       \<lparr>replacements = [\<lparr>sr_replaceRange = \<lparr>or_start = 2, or_endExclusive = 5\<rparr>, sr_newText = [7]\<rparr>]\<rparr> = Inr res \<and>
     length res = 2"
  using applyEditsToRanges_total[of "[\<lparr>or_start = 0, or_endExclusive = 3\<rparr>, \<lparr>or_start = 5, or_endExclusive = 6\<rparr>]"
    "\<lparr>replacements = [\<lparr>sr_replaceRange = \<lparr>or_start = 2, or_endExclusive = 5\<rparr>, sr_newText = [7]\<rparr>]\<rparr>"]
  by (simp add: numeral_2_eq_2)

text \<open>
  Composition of annotated string edits, for any \<open>join\<close> of annotations, even one that never
  joins: \<open>compose\<close> does not throw and the plain string edits underneath compose.
\<close>

theorem AnnotatedStringEdit_compose_correct:
  assumes "fits (annotated_ops jn) (\<lambda>r. offset_wf (sr_replaceRange r)) 0 (int (length s)) (replacements e1)"
    and "fits (annotated_ops jn) (\<lambda>r. offset_wf (sr_replaceRange r)) 0
           (int (length (applyFrom (annotated_ops jn) sr_newText s 0 (replacements e1)))) (replacements e2)"
  shows "\<exists>e t1 t2 t.
     BaseEdit_compose (annotated_ops jn) e1 e2 = Inr e \<and>
     AnnotatedStringEdit_toStringEdit e1 None = Inr t1 \<and> AnnotatedStringEdit_toStringEdit e2 None = Inr t2 \<and>
     AnnotatedStringEdit_toStringEdit e None = Inr t \<and>
     StringEdit_apply t s = StringEdit_apply t2 (StringEdit_apply t1 s)"
proof -
  let ?m = "\<lambda>r :: 'a annotated_replacement. StringReplacement_new (sr_replaceRange r) (sr_newText r)"
  have app: "string_app s p (map ?m rs) = applyFrom (annotated_ops jn) sr_newText s p rs" for s p rs
    by (induction rs arbitrary: p) auto
  have fit: "string_fits p n (map ?m rs) \<longleftrightarrow> fits (annotated_ops jn) string_valid p n rs" for p n rs
    by (induction rs arbitrary: p) auto
  have conv: "AnnotatedStringEdit_toStringEdit e None = Inr \<lparr>replacements = map ?m (replacements e)\<rparr>"
    if "fits (annotated_ops jn) string_valid 0 n (replacements e)" for e n
    using StringEdit_new_fits[of n "map ?m (replacements e)"] that fit
    by (simp add: AnnotatedStringEdit_toStringEdit_def)
  obtain e where e: "BaseEdit_compose (annotated_ops jn) e1 e2 = Inr e"
     "fits (annotated_ops jn) string_valid 0 (int (length s)) (replacements e)"
     "applyFrom (annotated_ops jn) sr_newText s 0 (replacements e) =
       applyFrom (annotated_ops jn) sr_newText (applyFrom (annotated_ops jn) sr_newText s 0 (replacements e1)) 0 (replacements e2)"
    using ann.compose_ok[OF assms] by blast
  show ?thesis
    using e conv[OF assms(1)] conv[OF assms(2)] conv[OF e(2)] by (simp add: StringEdit_apply_eq app)
qed

theorem AnnotatedStringEdit_compose_correct_witness:
  "\<exists>e. BaseEdit_compose (annotated_ops VoidEditData_join)
       \<lparr>replacements = [AnnotatedStringReplacement_new \<lparr>or_start = 0, or_endExclusive = 1\<rparr> [7, 8] ()]\<rparr>
       \<lparr>replacements = [AnnotatedStringReplacement_new \<lparr>or_start = 1, or_endExclusive = 2\<rparr> [9] ()]\<rparr> = Inr e"
  using AnnotatedStringEdit_compose_correct[of VoidEditData_join "[1, 2]"
    "\<lparr>replacements = [AnnotatedStringReplacement_new \<lparr>or_start = 0, or_endExclusive = 1\<rparr> [7, 8] ()]\<rparr>"
    "\<lparr>replacements = [AnnotatedStringReplacement_new \<lparr>or_start = 1, or_endExclusive = 2\<rparr> [9] ()]\<rparr>"]
  by (auto simp: js_substring_from_def js_substring_valid)

end
