(* ===== verification/LengthEdits.thy ===== *)
theory LengthEdits
  imports BaseEdits
begin

text \<open>
  The other replacement classes of \<open>BaseEdit\<close>:
  \<^verbatim>\<open>src/vs/editor/common/core/edits/lengthEdit.ts\<close> (only lengths),
  \<^verbatim>\<open>src/vs/editor/common/core/edits/arrayEdit.ts\<close> (array items), and the \<open>AnnotationReplacement\<close> of
  \<^verbatim>\<open>src/vs/editor/common/core/edits/edit.ts\<close> (lengths with an annotation). Each meets the contract
  \<open>replacement\<close>: a length stands for that many units, an annotated length for that many
  copies of its annotation.
\<close>

subsection \<open>LengthReplacement and LengthEdit\<close>

record length_replacement =
  lrp_replaceRange :: offset_range
  lrp_newLength :: int

definition LengthReplacement_new :: "offset_range \<Rightarrow> int \<Rightarrow> length_replacement" where
  "LengthReplacement_new r n = \<lparr>lrp_replaceRange = r, lrp_newLength = n\<rparr>"

definition LengthReplacement_create :: "int \<Rightarrow> int \<Rightarrow> int \<Rightarrow> length_replacement result" where
  "LengthReplacement_create startOffset endOffsetExclusive newLength =
     bindR (OffsetRange_new startOffset endOffsetExclusive) (\<lambda>r. Inr (LengthReplacement_new r newLength))"

definition LengthReplacement_equals :: "length_replacement \<Rightarrow> length_replacement \<Rightarrow> bool" where
  "LengthReplacement_equals this other \<longleftrightarrow>
     OffsetRange_equals (lrp_replaceRange this) (lrp_replaceRange other) \<and> lrp_newLength this = lrp_newLength other"

definition LengthReplacement_tryJoinTouching ::
    "length_replacement \<Rightarrow> length_replacement \<Rightarrow> length_replacement option result" where
  "LengthReplacement_tryJoinTouching this other =
     bindR (OffsetRange_joinRightTouching (lrp_replaceRange this) (lrp_replaceRange other)) (\<lambda>r.
     Inr (Some (LengthReplacement_new r (lrp_newLength this + lrp_newLength other))))"

definition LengthReplacement_slice ::
    "length_replacement \<Rightarrow> offset_range \<Rightarrow> offset_range \<Rightarrow> length_replacement" where
  "LengthReplacement_slice this r rangeInReplacement =
     LengthReplacement_new r (OffsetRange_length rangeInReplacement)"

definition length_ops :: "length_replacement repl_ops" where
  "length_ops =
     \<lparr>ro_replaceRange = lrp_replaceRange,
      ro_getNewLength = lrp_newLength,
      ro_tryJoinTouching = LengthReplacement_tryJoinTouching,
      ro_slice = LengthReplacement_slice,
      ro_equals = LengthReplacement_equals\<rparr>"

type_synonym length_edit = "length_replacement base_edit"

definition LengthEdit_fromEdit :: "'r repl_ops \<Rightarrow> 'r base_edit \<Rightarrow> length_edit result" where
  "LengthEdit_fromEdit ops edit =
     BaseEdit_new length_ops
       (map (\<lambda>r. LengthReplacement_new (ro_replaceRange ops r) (ro_getNewLength ops r)) (replacements edit))"

definition LengthEdit_empty :: length_edit where
  "LengthEdit_empty = \<lparr>replacements = []\<rparr>"

definition LengthEdit_replace :: "offset_range \<Rightarrow> int \<Rightarrow> length_edit result" where
  "LengthEdit_replace r newLength = BaseEdit_new length_ops [LengthReplacement_new r newLength]"

definition LengthEdit_insert :: "int \<Rightarrow> int \<Rightarrow> length_edit result" where
  "LengthEdit_insert offset newLength =
     bindR (OffsetRange_emptyAt offset) (\<lambda>r. BaseEdit_new length_ops [LengthReplacement_new r newLength])"

definition LengthEdit_delete :: "offset_range \<Rightarrow> length_edit result" where
  "LengthEdit_delete r = BaseEdit_new length_ops [LengthReplacement_new r 0]"

definition LengthEdit_compose :: "length_edit list \<Rightarrow> length_edit result" where
  "LengthEdit_compose edits =
     foldl (\<lambda>acc edit. bindR acc (\<lambda>e. BaseEdit_compose length_ops e edit)) (Inr LengthEdit_empty) edits"

definition LengthEdit_inverse :: "length_edit \<Rightarrow> length_edit result" where
  "LengthEdit_inverse this =
     bindR (inverse_loop length_ops LengthReplacement_new (\<lambda>start endEx. endEx - start) (replacements this) 0)
       (BaseEdit_new length_ops)"

text \<open>
  \<open>applyArray\<close> allocates an array of \<open>undefined\<close> (\<open>None\<close>) and fills it from the left;
  \<open>new Array(n)\<close> throws for a negative \<open>n\<close>. A write past the end extends the array.
\<close>

fun applyArray_items :: "'a list \<Rightarrow> 'a \<Rightarrow> length_replacement list \<Rightarrow> int \<Rightarrow> 'a option list" where
  "applyArray_items arr fillItem [] srcPos = map (js_at arr) [srcPos..int (length arr) - 1]"
| "applyArray_items arr fillItem (r # rs) srcPos =
     map (js_at arr) [srcPos..or_start (lrp_replaceRange r) - 1] @
     replicate (nat (lrp_newLength r)) (Some fillItem) @
     applyArray_items arr fillItem rs (or_endExclusive (lrp_replaceRange r))"

definition LengthEdit_applyArray :: "length_edit \<Rightarrow> 'a list \<Rightarrow> 'a \<Rightarrow> 'a option list result" where
  "LengthEdit_applyArray this arr fillItem =
     (let n = BaseEdit_getNewDataLength length_ops this (int (length arr));
          items = applyArray_items arr fillItem (replacements this) 0
      in if n < 0 then Inl RangeError
         else Inr (items @ replicate (nat n - length items) None))"

subsection \<open>ArrayReplacement and ArrayEdit\<close>

record 'a array_replacement =
  arp_replaceRange :: offset_range
  arp_newValue :: "'a list"

definition ArrayReplacement_new :: "offset_range \<Rightarrow> 'a list \<Rightarrow> 'a array_replacement" where
  "ArrayReplacement_new r v = \<lparr>arp_replaceRange = r, arp_newValue = v\<rparr>"

definition ArrayReplacement_equals :: "'a array_replacement \<Rightarrow> 'a array_replacement \<Rightarrow> bool" where
  "ArrayReplacement_equals this other \<longleftrightarrow>
     OffsetRange_equals (arp_replaceRange this) (arp_replaceRange other) \<and>
     length (arp_newValue this) = length (arp_newValue other) \<and>
     list_all2 (=) (arp_newValue this) (arp_newValue other)"

definition ArrayReplacement_tryJoinTouching ::
    "'a array_replacement \<Rightarrow> 'a array_replacement \<Rightarrow> 'a array_replacement option result" where
  "ArrayReplacement_tryJoinTouching this other =
     bindR (OffsetRange_joinRightTouching (arp_replaceRange this) (arp_replaceRange other)) (\<lambda>r.
     Inr (Some (ArrayReplacement_new r (arp_newValue this @ arp_newValue other))))"

definition ArrayReplacement_slice ::
    "'a array_replacement \<Rightarrow> offset_range \<Rightarrow> offset_range \<Rightarrow> 'a array_replacement" where
  "ArrayReplacement_slice this r rangeInReplacement =
     ArrayReplacement_new r (OffsetRange_slice rangeInReplacement (arp_newValue this))"

definition array_ops :: "'a array_replacement repl_ops" where
  "array_ops =
     \<lparr>ro_replaceRange = arp_replaceRange,
      ro_getNewLength = (\<lambda>r. int (length (arp_newValue r))),
      ro_tryJoinTouching = ArrayReplacement_tryJoinTouching,
      ro_slice = ArrayReplacement_slice,
      ro_equals = ArrayReplacement_equals\<rparr>"

type_synonym 'a array_edit = "'a array_replacement base_edit"

text \<open>\<open>data.slice(pos)\<close> is \<open>data.slice(pos, data.length)\<close>.\<close>

fun ArrayEdit_apply_loop :: "'a list \<Rightarrow> 'a array_replacement list \<Rightarrow> int \<Rightarrow> 'a list \<Rightarrow> 'a list" where
  "ArrayEdit_apply_loop data [] pos resultData = resultData @ js_slice data pos (int (length data))"
| "ArrayEdit_apply_loop data (edit # edits) pos resultData =
     ArrayEdit_apply_loop data edits (or_endExclusive (arp_replaceRange edit))
       (resultData @ js_slice data pos (or_start (arp_replaceRange edit)) @ arp_newValue edit)"

definition ArrayEdit_apply :: "'a array_edit \<Rightarrow> 'a list \<Rightarrow> 'a list" where
  "ArrayEdit_apply this data = ArrayEdit_apply_loop data (replacements this) 0 []"

definition ArrayEdit_inverse :: "'a array_edit \<Rightarrow> 'a list \<Rightarrow> 'a array_edit result" where
  "ArrayEdit_inverse this baseVal =
     bindR (inverse_loop array_ops ArrayReplacement_new (js_slice baseVal) (replacements this) 0)
       (BaseEdit_new array_ops)"

subsection \<open>AnnotationReplacement\<close>

record 't annotation_replacement =
  anr_replaceRange :: offset_range
  anr_newLength :: int
  anr_annotation :: 't

definition AnnotationReplacement_new :: "offset_range \<Rightarrow> int \<Rightarrow> 't \<Rightarrow> 't annotation_replacement" where
  "AnnotationReplacement_new r n a = \<lparr>anr_replaceRange = r, anr_newLength = n, anr_annotation = a\<rparr>"

definition AnnotationReplacement_equals ::
    "'t annotation_replacement \<Rightarrow> 't annotation_replacement \<Rightarrow> bool" where
  "AnnotationReplacement_equals this other \<longleftrightarrow>
     OffsetRange_equals (anr_replaceRange this) (anr_replaceRange other) \<and>
     anr_newLength this = anr_newLength other \<and> anr_annotation this = anr_annotation other"

definition AnnotationReplacement_tryJoinTouching ::
    "'t annotation_replacement \<Rightarrow> 't annotation_replacement \<Rightarrow> 't annotation_replacement option result" where
  "AnnotationReplacement_tryJoinTouching this other =
     (if anr_annotation this \<noteq> anr_annotation other then Inr None
      else bindR (OffsetRange_joinRightTouching (anr_replaceRange this) (anr_replaceRange other)) (\<lambda>r.
           Inr (Some (AnnotationReplacement_new r (anr_newLength this + anr_newLength other) (anr_annotation this)))))"

definition AnnotationReplacement_slice ::
    "'t annotation_replacement \<Rightarrow> offset_range \<Rightarrow> offset_range \<Rightarrow> 't annotation_replacement" where
  "AnnotationReplacement_slice this r rangeInReplacement =
     AnnotationReplacement_new r (OffsetRange_length rangeInReplacement) (anr_annotation this)"

definition annotation_ops :: "'t annotation_replacement repl_ops" where
  "annotation_ops =
     \<lparr>ro_replaceRange = anr_replaceRange,
      ro_getNewLength = anr_newLength,
      ro_tryJoinTouching = AnnotationReplacement_tryJoinTouching,
      ro_slice = AnnotationReplacement_slice,
      ro_equals = AnnotationReplacement_equals\<rparr>"

subsection \<open>The contract\<close>

definition length_sem :: "length_replacement \<Rightarrow> unit list" where
  "length_sem r = replicate (nat (lrp_newLength r)) ()"

definition length_valid :: "length_replacement \<Rightarrow> bool" where
  "length_valid r \<longleftrightarrow> offset_wf (lrp_replaceRange r) \<and> 0 \<le> lrp_newLength r"

definition annotation_sem :: "'t annotation_replacement \<Rightarrow> 't list" where
  "annotation_sem r = replicate (nat (anr_newLength r)) (anr_annotation r)"

definition annotation_valid :: "'t annotation_replacement \<Rightarrow> bool" where
  "annotation_valid r \<longleftrightarrow> offset_wf (anr_replaceRange r) \<and> 0 \<le> anr_newLength r"

abbreviation array_valid :: "'a array_replacement \<Rightarrow> bool" where
  "array_valid r \<equiv> offset_wf (arp_replaceRange r)"

lemma js_substring_replicate:
  "0 \<le> a \<Longrightarrow> a \<le> b \<Longrightarrow> b \<le> int n \<Longrightarrow> js_substring (replicate n x) a b = replicate (nat (b - a)) x"
  by (simp add: js_substring_valid nat_diff_distrib)

lemma js_slice_eq_substring:
  "0 \<le> a \<Longrightarrow> a \<le> b \<Longrightarrow> b \<le> int (length s) \<Longrightarrow> js_slice s a b = js_substring s a b"
  by (simp add: js_slice_valid js_substring_valid)

lemma length_ops_simps [simp]:
  "ro_replaceRange length_ops = lrp_replaceRange"
  "ro_getNewLength length_ops = lrp_newLength"
  "ro_tryJoinTouching length_ops = LengthReplacement_tryJoinTouching"
  "ro_slice length_ops = LengthReplacement_slice"
  by (simp_all add: length_ops_def)

lemma array_ops_simps [simp]:
  "ro_replaceRange array_ops = arp_replaceRange"
  "ro_getNewLength array_ops x = int (length (arp_newValue x))"
  "ro_tryJoinTouching array_ops = ArrayReplacement_tryJoinTouching"
  "ro_slice array_ops = ArrayReplacement_slice"
  by (simp_all add: array_ops_def)

lemma annotation_ops_simps [simp]:
  "ro_replaceRange annotation_ops = anr_replaceRange"
  "ro_getNewLength annotation_ops = anr_newLength"
  "ro_tryJoinTouching annotation_ops = AnnotationReplacement_tryJoinTouching"
  "ro_slice annotation_ops = AnnotationReplacement_slice"
  by (simp_all add: annotation_ops_def)

interpretation len: invertible_replacement length_ops length_sem length_valid LengthReplacement_new
  "\<lambda>n. replicate (nat n) ()" "\<lambda>n. 0 \<le> n"
  by unfold_locales
    (auto simp: length_sem_def length_valid_def LengthReplacement_slice_def LengthReplacement_new_def
      OffsetRange_length_def js_substring_replicate LengthReplacement_tryJoinTouching_def
      OffsetRange_joinRightTouching_def nat_add_distrib replicate_add)

interpretation arr: invertible_replacement array_ops arp_newValue array_valid ArrayReplacement_new
  "\<lambda>x. x" "\<lambda>_. True"
  by unfold_locales
    (auto simp: ArrayReplacement_slice_def ArrayReplacement_new_def OffsetRange_slice_def js_slice_eq_substring
      ArrayReplacement_tryJoinTouching_def OffsetRange_joinRightTouching_def)

interpretation annotation: replacement annotation_ops annotation_sem annotation_valid
  by unfold_locales
    (auto simp: annotation_sem_def annotation_valid_def AnnotationReplacement_slice_def AnnotationReplacement_new_def
      OffsetRange_length_def js_substring_replicate AnnotationReplacement_tryJoinTouching_def
      OffsetRange_joinRightTouching_def nat_add_distrib replicate_add)

interpretation fill: replacement length_ops "\<lambda>r. replicate (nat (lrp_newLength r)) fillItem" length_valid
  by unfold_locales
    (auto simp: length_valid_def LengthReplacement_slice_def LengthReplacement_new_def
      OffsetRange_length_def js_substring_replicate LengthReplacement_tryJoinTouching_def
      OffsetRange_joinRightTouching_def nat_add_distrib replicate_add)

lemma ArrayEdit_apply_loop_eq:
  assumes "fits array_ops array_valid p (int (length s)) rs" "0 \<le> p"
  shows "ArrayEdit_apply_loop s rs p acc = acc @ applyFrom array_ops arp_newValue s p rs"
  using assms
proof (induction rs arbitrary: p acc)
  case Nil
  then show ?case by (simp add: js_slice_eq_substring js_substring_from_def)
next
  case (Cons r rs)
  have f: "fits array_ops array_valid (or_endExclusive (arp_replaceRange r)) (int (length s)) rs"
    using Cons.prems by simp
  have "or_endExclusive (arp_replaceRange r) \<le> int (length s)" using fits_le[OF f] .
  with Cons.IH[OF f] Cons.prems show ?case by (simp add: js_slice_eq_substring)
qed

lemma ArrayEdit_apply_eq:
  "fits array_ops array_valid 0 (int (length s)) (replacements e) \<Longrightarrow>
   ArrayEdit_apply e s = applyFrom array_ops arp_newValue s 0 (replacements e)"
  by (simp add: ArrayEdit_apply_def ArrayEdit_apply_loop_eq)

lemma map_js_at_upto:
  assumes "0 \<le> a" "a \<le> b" "b \<le> int (length s)"
  shows "map (js_at s) [a..b - 1] = map Some (js_substring s a b)"
proof (rule nth_equalityI)
  show "length (map (js_at s) [a..b - 1]) = length (map Some (js_substring s a b))"
    using assms by (simp add: js_substring_valid nat_diff_distrib)
next
  fix i assume "i < length (map (js_at s) [a..b - 1])"
  then have i: "a + int i < b" using assms by (simp add: nat_less_iff zless_nat_eq_int_zless)
  then have "i < nat b - nat a" using assms by linarith
  then show "map (js_at s) [a..b - 1] ! i = map Some (js_substring s a b) ! i"
    using assms i by (simp add: js_substring_valid js_at_def nat_add_distrib)
qed

lemma applyArray_items_eq:
  assumes "fits length_ops length_valid p (int (length arr)) rs" "0 \<le> p"
  shows "applyArray_items arr fillItem rs p =
     map Some (applyFrom length_ops (\<lambda>r. replicate (nat (lrp_newLength r)) fillItem) arr p rs)"
  using assms
proof (induction rs arbitrary: p)
  case Nil
  then show ?case by (simp add: map_js_at_upto js_substring_from_def)
next
  case (Cons r rs)
  have f: "fits length_ops length_valid (or_endExclusive (lrp_replaceRange r)) (int (length arr)) rs"
    using Cons.prems by simp
  have "or_endExclusive (lrp_replaceRange r) \<le> int (length arr)" using fits_le[OF f] .
  with Cons.IH[OF f] Cons.prems show ?case by (simp add: map_js_at_upto)
qed

lemma LengthEdit_data_length:
  assumes "fits length_ops length_valid 0 n (replacements e)"
  shows "int (length (applyFrom length_ops length_sem (replicate (nat n) ()) 0 (replacements e))) =
     BaseEdit_getNewDataLength length_ops e n"
proof -
  have "0 \<le> n" using fits_le[OF assms] .
  then show ?thesis using len.getNewDataLength_ok[of "replicate (nat n) ()" e] assms by simp
qed

subsection \<open>Properties\<close>

text \<open>
  \<open>LengthEdit\<close> tracks lengths exactly: \<open>applyArray\<close> on an array the edit is valid for
  returns the edited array with no hole left in the allocated array; \<open>inverse\<close> does not throw
  and restores the length; \<open>compose\<close> with an edit valid for the new length does not throw, and
  the composed edit changes the length as one edit after the other does.
\<close>

theorem LengthEdit_correct:
  assumes "fits length_ops length_valid 0 (int (length arr)) (replacements e)"
    and "fits length_ops length_valid 0 (BaseEdit_getNewDataLength length_ops e (int (length arr))) (replacements e2)"
  shows "\<exists>inv c.
     LengthEdit_applyArray e arr fillItem =
       Inr (map Some (applyFrom length_ops (\<lambda>r. replicate (nat (lrp_newLength r)) fillItem) arr 0 (replacements e))) \<and>
     LengthEdit_inverse e = Inr inv \<and>
     BaseEdit_getNewDataLength length_ops inv (BaseEdit_getNewDataLength length_ops e (int (length arr))) =
       int (length arr) \<and>
     BaseEdit_compose length_ops e e2 = Inr c \<and>
     fits length_ops length_valid 0 (int (length arr)) (replacements c) \<and>
     BaseEdit_getNewDataLength length_ops c (int (length arr)) =
       BaseEdit_getNewDataLength length_ops e2 (BaseEdit_getNewDataLength length_ops e (int (length arr)))"
proof -
  let ?n = "int (length arr)" and ?u = "replicate (length arr) ()"
  let ?t = "applyFrom length_ops length_sem ?u 0 (replacements e)"
  have f: "fits length_ops length_valid 0 (int (length ?u)) (replacements e)" using assms(1) by simp
  have t: "int (length ?t) = BaseEdit_getNewDataLength length_ops e ?n" using LengthEdit_data_length[OF assms(1)] by simp
  then have tr: "?t = replicate (nat (BaseEdit_getNewDataLength length_ops e ?n)) ()"
    by (metis nat_int replicate_eqI old.unit.exhaust)
  have fl: "int (length (applyFrom length_ops (\<lambda>r. replicate (nat (lrp_newLength r)) fillItem) arr 0 (replacements e))) =
      BaseEdit_getNewDataLength length_ops e ?n"
    using fill.getNewDataLength_ok[OF assms(1)] .
  then have arr: "LengthEdit_applyArray e arr fillItem =
       Inr (map Some (applyFrom length_ops (\<lambda>r. replicate (nat (lrp_newLength r)) fillItem) arr 0 (replacements e)))"
    using applyArray_items_eq[OF assms(1)] by (simp add: LengthEdit_applyArray_def Let_def)
  have ok: "0 \<le> b - a \<and> replicate (nat (b - a)) () = js_substring ?u a b"
    if "0 \<le> a" "a \<le> b" "b \<le> int (length ?u)" for a b
    using that by (simp add: js_substring_replicate)
  obtain inv where inv: "LengthEdit_inverse e = Inr inv" "fits length_ops length_valid 0 (int (length ?t)) (replacements inv)"
      "applyFrom length_ops length_sem ?t 0 (replacements inv) = ?u"
    using len.inverse_ok[OF f, of "\<lambda>a b. b - a"] ok by (auto simp: LengthEdit_inverse_def)
  have "BaseEdit_getNewDataLength length_ops inv (int (length ?t)) = ?n"
    using len.getNewDataLength_ok[OF inv(2)] inv(3) by simp
  moreover obtain c where c: "BaseEdit_compose length_ops e e2 = Inr c"
      "fits length_ops length_valid 0 (int (length ?u)) (replacements c)"
      "applyFrom length_ops length_sem ?u 0 (replacements c) = applyFrom length_ops length_sem ?t 0 (replacements e2)"
    using len.compose_ok[OF f] assms(2) t by auto
  have "BaseEdit_getNewDataLength length_ops c ?n =
      BaseEdit_getNewDataLength length_ops e2 (int (length ?t))"
    using len.getNewDataLength_ok[OF c(2)] c(3) len.getNewDataLength_ok[of ?t e2] assms(2) t by simp
  ultimately show ?thesis using arr inv(1) c(1,2) t by auto
qed

theorem LengthEdit_correct_witness:
  "LengthEdit_applyArray \<lparr>replacements = [LengthReplacement_new \<lparr>or_start = 1, or_endExclusive = 2\<rparr> 3]\<rparr> [10, 20, 30 :: int] 0
   = Inr (map Some [10, 0, 0, 0, 30])"
proof -
  let ?e = "\<lparr>replacements = [LengthReplacement_new \<lparr>or_start = 1, or_endExclusive = 2\<rparr> 3]\<rparr>"
  have "fits length_ops length_valid 0 (int (length [10, 20, 30 :: int])) (replacements ?e)"
    "fits length_ops length_valid 0 (BaseEdit_getNewDataLength length_ops ?e (int (length [10, 20, 30 :: int])))
       (replacements LengthEdit_empty)" by code_simp+
  from LengthEdit_correct[OF this, of 0]
  have "LengthEdit_applyArray ?e [10, 20, 30 :: int] 0 =
      Inr (map Some (applyFrom length_ops (\<lambda>r. replicate (nat (lrp_newLength r)) 0) [10, 20, 30 :: int] 0 (replacements ?e)))"
    by blast
  moreover have "applyFrom length_ops (\<lambda>r. replicate (nat (lrp_newLength r)) 0) [10, 20, 30 :: int] 0 (replacements ?e) =
      [10, 0, 0, 0, 30]" by code_simp
  ultimately show ?thesis by (simp only:)
qed

text \<open>
  \<open>ArrayEdit\<close>: for edits valid for an array (the second one for the edited array), \<open>compose\<close>
  and \<open>inverse\<close> do not throw, \<open>compose\<close> does what one edit after the other does and \<open>inverse\<close>
  restores the array.
\<close>

theorem ArrayEdit_correct:
  assumes "fits array_ops (\<lambda>r. offset_wf (arp_replaceRange r)) 0 (int (length s)) (replacements e)"
    and "fits array_ops (\<lambda>r. offset_wf (arp_replaceRange r)) 0 (int (length (ArrayEdit_apply e s))) (replacements e2)"
  shows "\<exists>c inv.
     BaseEdit_compose array_ops e e2 = Inr c \<and> ArrayEdit_apply c s = ArrayEdit_apply e2 (ArrayEdit_apply e s) \<and>
     ArrayEdit_inverse e s = Inr inv \<and> ArrayEdit_apply inv (ArrayEdit_apply e s) = s"
proof -
  note a = ArrayEdit_apply_eq[OF assms(1)]
  have f2: "fits array_ops array_valid 0 (int (length (applyFrom array_ops arp_newValue s 0 (replacements e)))) (replacements e2)"
    using assms(2) a by simp
  obtain c where c: "BaseEdit_compose array_ops e e2 = Inr c" "fits array_ops array_valid 0 (int (length s)) (replacements c)"
      "applyFrom array_ops arp_newValue s 0 (replacements c) =
       applyFrom array_ops arp_newValue (applyFrom array_ops arp_newValue s 0 (replacements e)) 0 (replacements e2)"
    using arr.compose_ok[OF assms(1) f2] by blast
  obtain inv where inv: "ArrayEdit_inverse e s = Inr inv"
      "fits array_ops array_valid 0 (int (length (applyFrom array_ops arp_newValue s 0 (replacements e)))) (replacements inv)"
      "applyFrom array_ops arp_newValue (applyFrom array_ops arp_newValue s 0 (replacements e)) 0 (replacements inv) = s"
    using arr.inverse_ok[OF assms(1), of "js_slice s"] js_slice_eq_substring[of _ _ s]
    by (auto simp: ArrayEdit_inverse_def)
  show ?thesis
    using c inv a ArrayEdit_apply_eq[OF c(2)] ArrayEdit_apply_eq[OF f2] ArrayEdit_apply_eq[OF inv(2)] by simp
qed

theorem ArrayEdit_correct_witness:
  "\<exists>inv. ArrayEdit_inverse \<lparr>replacements = [ArrayReplacement_new \<lparr>or_start = 0, or_endExclusive = 2\<rparr> [True]]\<rparr>
       [False, False, True] = Inr inv \<and> ArrayEdit_apply inv [True, True] = [False, False, True]"
proof -
  let ?e = "\<lparr>replacements = [ArrayReplacement_new \<lparr>or_start = 0, or_endExclusive = 2\<rparr> [True]]\<rparr>"
  have a: "ArrayEdit_apply ?e [False, False, True] = [True, True]" by code_simp
  have "fits array_ops (\<lambda>r. offset_wf (arp_replaceRange r)) 0 (int (length [False, False, True])) (replacements ?e)"
    by code_simp
  moreover have "fits array_ops (\<lambda>r. offset_wf (arp_replaceRange r)) 0
      (int (length (ArrayEdit_apply ?e [False, False, True]))) (replacements \<lparr>replacements = []\<rparr>)" by simp
  ultimately show ?thesis using ArrayEdit_correct[of "[False, False, True]" ?e "\<lparr>replacements = []\<rparr>"] a by auto
qed

text \<open>
  \<open>AnnotationReplacement\<close>: composing keeps every annotation on the elements it was put on,
  since a slice keeps the annotation and only equal annotations are joined. The effect of an
  annotated edit is the list of annotations it writes, over any annotation of the original.
\<close>

theorem AnnotationEdit_compose_correct:
  assumes "fits annotation_ops annotation_valid 0 (int (length s)) (replacements e1)"
    and "fits annotation_ops annotation_valid 0
           (int (length (applyFrom annotation_ops annotation_sem s 0 (replacements e1)))) (replacements e2)"
  shows "\<exists>e. BaseEdit_compose annotation_ops e1 e2 = Inr e \<and>
     applyFrom annotation_ops annotation_sem s 0 (replacements e) =
       applyFrom annotation_ops annotation_sem (applyFrom annotation_ops annotation_sem s 0 (replacements e1)) 0
         (replacements e2)"
  using annotation.compose_ok[OF assms] by blast

theorem AnnotationEdit_compose_correct_witness:
  "\<exists>e. BaseEdit_compose annotation_ops
       \<lparr>replacements = [AnnotationReplacement_new \<lparr>or_start = 0, or_endExclusive = 1\<rparr> 2 True]\<rparr>
       \<lparr>replacements = [AnnotationReplacement_new \<lparr>or_start = 1, or_endExclusive = 1\<rparr> 1 False]\<rparr> = Inr e \<and>
     applyFrom annotation_ops annotation_sem [False, False] 0 (replacements e) = [True, False, True, False]"
proof -
  let ?e1 = "\<lparr>replacements = [AnnotationReplacement_new \<lparr>or_start = 0, or_endExclusive = 1\<rparr> 2 True]\<rparr>"
  let ?e2 = "\<lparr>replacements = [AnnotationReplacement_new \<lparr>or_start = 1, or_endExclusive = 1\<rparr> 1 False]\<rparr>"
  have "fits annotation_ops annotation_valid 0 (int (length [False, False])) (replacements ?e1)"
    "fits annotation_ops annotation_valid 0
       (int (length (applyFrom annotation_ops annotation_sem [False, False] 0 (replacements ?e1)))) (replacements ?e2)"
    "applyFrom annotation_ops annotation_sem (applyFrom annotation_ops annotation_sem [False, False] 0 (replacements ?e1)) 0
         (replacements ?e2) = [True, False, True, False]"
    by code_simp+
  with AnnotationEdit_compose_correct[OF this(1,2)] show ?thesis by simp
qed

end
