(* ===== verification/PrefixSums.thy ===== *)
theory PrefixSums
  imports Prelude
begin

text \<open>
  \<^verbatim>\<open>src/vs/editor/common/model/prefixSumComputer.ts\<close>: two mutable structures that answer prefix-sum
  queries over a list of non-negative numbers (line lengths, view lines per model line).
  \<open>PrefixSumComputer\<close> keeps 32-bit typed arrays and a watermark up to which its sums are
  trusted; \<open>ConstantTimePrefixSumComputer\<close> keeps plain arrays and a table from sums to
  indices. \<open>toUint8\<close> and \<open>toUint32\<close> are from \<^verbatim>\<open>src/vs/base/common/uint.ts\<close>, \<open>arrayInsert\<close> from
  \<^verbatim>\<open>src/vs/base/common/arrays.ts\<close>.

  What both promise is the locale \<open>prefix_sums\<close>, over the plain list of values; both are
  interpretations of it.
\<close>

subsection \<open>Conversions\<close>

definition toUint8 :: "int \<Rightarrow> int" where
  "toUint8 v = (if v < 0 then 0 else if v > 255 then 255 else toInt32 v)"

definition toUint32 :: "int \<Rightarrow> int" where
  "toUint32 v = (if v < 0 then 0 else if v > 4294967295 then 4294967295 else toInt32 v)"

definition arrayInsert :: "'a list \<Rightarrow> int \<Rightarrow> 'a list \<Rightarrow> 'a list" where
  "arrayInsert target insertIndex insertArr =
     (let before = js_slice target 0 insertIndex;
          after = js_slice target insertIndex (int (length target))
      in before @ insertArr @ after)"

subsection \<open>Typed arrays\<close>

text \<open>
  \<open>new Uint32Array(n)\<close>, \<open>target.set(src, offset)\<close>, and a store, which is ignored outside the
  array and reduced modulo \<open>2 ^ 32\<close>. \<open>subarray\<close> clamps its arguments as \<open>slice\<close> does.
\<close>

definition ta_new :: "int \<Rightarrow> int list" where
  "ta_new n = replicate (nat n) 0"

definition ta_set :: "int list \<Rightarrow> int list \<Rightarrow> int \<Rightarrow> int list result" where
  "ta_set target src offset =
     (if offset < 0 \<or> offset + int (length src) > int (length target) then Inl RangeError
      else Inr (take (nat offset) target @ src @ drop (nat offset + length src) target))"

definition ta_store :: "int list \<Rightarrow> int \<Rightarrow> int \<Rightarrow> int list" where
  "ta_store xs i v = (if 0 \<le> i \<and> i < int (length xs) then xs[nat i := uint32 v] else xs)"

subsection \<open>PrefixSumComputer\<close>

record prefix_sum_computer =
  psc_values :: "int list"
  psc_prefixSum :: "int list"
  psc_validIndex :: int

definition PrefixSumComputer_new :: "int list \<Rightarrow> prefix_sum_computer" where
  "PrefixSumComputer_new values =
     \<lparr>psc_values = values, psc_prefixSum = ta_new (int (length values)), psc_validIndex = - 1\<rparr>"

definition PrefixSumComputer_getCount :: "prefix_sum_computer \<Rightarrow> int" where
  "PrefixSumComputer_getCount this = int (length (psc_values this))"

text \<open>The new prefix sums keep the trusted part of the old ones.\<close>

definition psc_keepPrefix :: "int list \<Rightarrow> int \<Rightarrow> int \<Rightarrow> int list result" where
  "psc_keepPrefix oldPrefixSum n validIndex =
     (if validIndex \<ge> 0 then ta_set (ta_new n) (js_slice oldPrefixSum 0 (validIndex + 1)) 0
      else Inr (ta_new n))"

definition PrefixSumComputer_insertValues ::
    "int \<Rightarrow> int list \<Rightarrow> prefix_sum_computer \<Rightarrow> (bool \<times> prefix_sum_computer) result" where
  "PrefixSumComputer_insertValues insertIndex0 insertValues this =
     (let insertIndex = toUint32 insertIndex0;
          oldValues = psc_values this;
          insertValuesLen = int (length insertValues)
      in if insertValuesLen = 0 then Inr (False, this)
         else
           bindR (ta_set (ta_new (int (length oldValues) + insertValuesLen)) (js_slice oldValues 0 insertIndex) 0) (\<lambda>v1.
           bindR (ta_set v1 (js_slice oldValues insertIndex (int (length oldValues))) (insertIndex + insertValuesLen)) (\<lambda>v2.
           bindR (ta_set v2 insertValues insertIndex) (\<lambda>v3.
           let vi = (if insertIndex - 1 < psc_validIndex this then insertIndex - 1 else psc_validIndex this)
           in bindR (psc_keepPrefix (psc_prefixSum this) (int (length v3)) vi) (\<lambda>ps.
              Inr (True, \<lparr>psc_values = v3, psc_prefixSum = ps, psc_validIndex = vi\<rparr>))))))"

definition PrefixSumComputer_setValue ::
    "int \<Rightarrow> int \<Rightarrow> prefix_sum_computer \<Rightarrow> bool \<times> prefix_sum_computer" where
  "PrefixSumComputer_setValue index0 value0 this =
     (let index = toUint32 index0; v = toUint32 value0
      in if js_at (psc_values this) index = Some v then (False, this)
         else (True, this\<lparr>psc_values := ta_store (psc_values this) index v,
                          psc_validIndex := (if index - 1 < psc_validIndex this then index - 1
                                             else psc_validIndex this)\<rparr>))"

definition PrefixSumComputer_removeValues ::
    "int \<Rightarrow> int \<Rightarrow> prefix_sum_computer \<Rightarrow> (bool \<times> prefix_sum_computer) result" where
  "PrefixSumComputer_removeValues startIndex0 count0 this =
     (let startIndex = toUint32 startIndex0;
          count1 = toUint32 count0;
          oldValues = psc_values this
      in if startIndex \<ge> int (length oldValues) then Inr (False, this)
         else
           (let maxCount = int (length oldValues) - startIndex;
                count = (if count1 \<ge> maxCount then maxCount else count1)
            in if count = 0 then Inr (False, this)
               else
                 bindR (ta_set (ta_new (int (length oldValues) - count)) (js_slice oldValues 0 startIndex) 0) (\<lambda>v1.
                 bindR (ta_set v1 (js_slice oldValues (startIndex + count) (int (length oldValues))) startIndex) (\<lambda>v2.
                 let vi = (if startIndex - 1 < psc_validIndex this then startIndex - 1 else psc_validIndex this)
                 in bindR (psc_keepPrefix (psc_prefixSum this) (int (length v2)) vi) (\<lambda>ps.
                    Inr (True, \<lparr>psc_values = v2, psc_prefixSum = ps, psc_validIndex = vi\<rparr>))))))"

text \<open>
  \<open>for (let i = startIndex; i <= index; i++) prefixSum[i] = prefixSum[i - 1] + values[i]\<close>, run
  with \<open>1 \<le> startIndex\<close> and \<open>index < values.length\<close>, so every read is inside the arrays.
\<close>

function psc_fill :: "int list \<Rightarrow> int list \<Rightarrow> int \<Rightarrow> int \<Rightarrow> int list" where
  "psc_fill values ps i index =
     (if i \<le> index
      then psc_fill values (ta_store ps i (ps ! nat (i - 1) + values ! nat i)) (i + 1) index
      else ps)"
  by pat_completeness auto
termination
  by (relation "measure (\<lambda>(values, ps, i, index). nat (index + 1 - i))") auto

declare psc_fill.simps [simp del]

text \<open>The result is \<open>None\<close> (\<open>undefined\<close>) only when there are no values.\<close>

definition PrefixSumComputer_getPrefixSum_private ::
    "int \<Rightarrow> prefix_sum_computer \<Rightarrow> int option \<times> prefix_sum_computer" where
  "PrefixSumComputer_getPrefixSum_private index0 this =
     (if index0 \<le> psc_validIndex this then (js_at (psc_prefixSum this) index0, this)
      else
        (let values = psc_values this;
             startIndex0 = psc_validIndex this + 1;
             ps0 = (if startIndex0 = 0 \<and> values \<noteq> [] then ta_store (psc_prefixSum this) 0 (hd values)
                    else psc_prefixSum this);
             startIndex = (if startIndex0 = 0 then startIndex0 + 1 else startIndex0);
             index = (if index0 \<ge> int (length values) then int (length values) - 1 else index0);
             ps = psc_fill values ps0 startIndex index
         in (js_at ps index,
             this\<lparr>psc_prefixSum := ps, psc_validIndex := max (psc_validIndex this) index\<rparr>)))"

definition PrefixSumComputer_getTotalSum :: "prefix_sum_computer \<Rightarrow> int option \<times> prefix_sum_computer" where
  "PrefixSumComputer_getTotalSum this =
     (if psc_values this = [] then (Some 0, this)
      else PrefixSumComputer_getPrefixSum_private (int (length (psc_values this)) - 1) this)"

definition PrefixSumComputer_getPrefixSum :: "int \<Rightarrow> prefix_sum_computer \<Rightarrow> int option \<times> prefix_sum_computer" where
  "PrefixSumComputer_getPrefixSum index this =
     (if index < 0 then (Some 0, this)
      else PrefixSumComputer_getPrefixSum_private (toUint32 index) this)"

record prefix_sum_index_of_result =
  psr_index :: int
  psr_remainder :: int

text \<open>
  The binary search of \<open>getIndexOf\<close>; the pair is \<open>mid\<close> and \<open>midStart\<close> when it stops. The
  prefix sums are all valid and as many as the values, so its reads are inside the arrays.
\<close>

function psc_search :: "int list \<Rightarrow> int list \<Rightarrow> int \<Rightarrow> int \<Rightarrow> int \<Rightarrow> int \<times> int \<Rightarrow> int \<times> int" where
  "psc_search values ps s low high st =
     (if low \<le> high
      then (let mid = low + (high - low) div 2;
                midStop = ps ! nat mid;
                midStart = midStop - values ! nat mid
            in if s < midStart then psc_search values ps s low (mid - 1) (mid, midStart)
               else if s \<ge> midStop then psc_search values ps s (mid + 1) high (mid, midStart)
               else (mid, midStart))
      else st)"
  by pat_completeness auto
termination
  by (relation "measure (\<lambda>(values, ps, s, low, high, st). nat (high + 1 - low))") auto

declare psc_search.simps [simp del]

definition PrefixSumComputer_getIndexOf ::
    "int \<Rightarrow> prefix_sum_computer \<Rightarrow> prefix_sum_index_of_result \<times> prefix_sum_computer" where
  "PrefixSumComputer_getIndexOf s this =
     (let this' = snd (PrefixSumComputer_getTotalSum this);
          st = psc_search (psc_values this') (psc_prefixSum this') s 0 (int (length (psc_values this')) - 1) (0, 0)
      in (\<lparr>psr_index = fst st, psr_remainder = s - snd st\<rparr>, this'))"

subsection \<open>ConstantTimePrefixSumComputer\<close>

record constant_time_psc =
  ct_values :: "int list"
  ct_isValid :: bool
  ct_validEndIndex :: int
  ct_prefixSum :: "int list"
  ct_indexBySum :: "int list"

text \<open>
  \<open>arr[i] = v\<close> and \<open>arr.length = n\<close> on a plain array, which grow it when needed; the 0 stands
  for a hole, which the invariant below shows is never made.
\<close>

definition js_store :: "int list \<Rightarrow> int \<Rightarrow> int \<Rightarrow> int list" where
  "js_store xs i v =
     (if i < int (length xs) then xs[nat i := v]
      else xs @ replicate (nat i - length xs) 0 @ [v])"

definition js_setLength :: "int list \<Rightarrow> int \<Rightarrow> int list" where
  "js_setLength xs n = take (nat n) xs @ replicate (nat n - length xs) 0"

definition ConstantTimePSC_new :: "int list \<Rightarrow> constant_time_psc" where
  "ConstantTimePSC_new values =
     \<lparr>ct_values = values, ct_isValid = False, ct_validEndIndex = - 1, ct_prefixSum = [], ct_indexBySum = []\<rparr>"

definition ConstantTimePSC_invalidate :: "int \<Rightarrow> constant_time_psc \<Rightarrow> constant_time_psc" where
  "ConstantTimePSC_invalidate index this =
     this\<lparr>ct_isValid := False, ct_validEndIndex := min (ct_validEndIndex this) (index - 1)\<rparr>"

text \<open>\<open>for (let j = 0; j < value; j++) indexBySum[sumAbove + j] = i\<close>.\<close>

function ct_mark :: "int list \<Rightarrow> int \<Rightarrow> int \<Rightarrow> int \<Rightarrow> int \<Rightarrow> int list" where
  "ct_mark ibs sumAbove j v i =
     (if j < v then ct_mark (js_store ibs (sumAbove + j) i) sumAbove (j + 1) v i else ibs)"
  by pat_completeness auto
termination
  by (relation "measure (\<lambda>(ibs, sumAbove, j, v, i). nat (v - j))") auto

declare ct_mark.simps [simp del]

function ct_fill :: "int list \<Rightarrow> int list \<Rightarrow> int list \<Rightarrow> int \<Rightarrow> int list \<times> int list" where
  "ct_fill values ps ibs i =
     (if 0 \<le> i \<and> i < int (length values)
      then (let v = values ! nat i;
                sumAbove = (if i > 0 then ps ! nat (i - 1) else 0)
            in ct_fill values (js_store ps i (sumAbove + v)) (ct_mark ibs sumAbove 0 v i) (i + 1))
      else (ps, ibs))"
  by pat_completeness auto
termination
  by (relation "measure (\<lambda>(values, ps, ibs, i). nat (int (length values) - i))") auto

declare ct_fill.simps [simp del]

definition ConstantTimePSC_ensureValid :: "constant_time_psc \<Rightarrow> constant_time_psc" where
  "ConstantTimePSC_ensureValid this =
     (if ct_isValid this then this
      else
        (let values = ct_values this; n = int (length values) in
         case ct_fill values (ct_prefixSum this) (ct_indexBySum this) (ct_validEndIndex this + 1) of (ps1, ibs1) \<Rightarrow>
           (let ps = js_setLength ps1 n;
                ibs = js_setLength ibs1 (if n > 0 then ps ! nat (n - 1) else 0)
            in this\<lparr>ct_prefixSum := ps, ct_indexBySum := ibs, ct_isValid := True, ct_validEndIndex := n - 1\<rparr>)))"

definition ConstantTimePSC_getTotalSum :: "constant_time_psc \<Rightarrow> int \<times> constant_time_psc" where
  "ConstantTimePSC_getTotalSum this =
     (let this' = ConstantTimePSC_ensureValid this in (int (length (ct_indexBySum this')), this'))"

definition ConstantTimePSC_getPrefixSum :: "int \<Rightarrow> constant_time_psc \<Rightarrow> int option \<times> constant_time_psc" where
  "ConstantTimePSC_getPrefixSum count this =
     (let this' = ConstantTimePSC_ensureValid this
      in (if count = 0 then Some 0 else js_at (ct_prefixSum this') (count - 1), this'))"

definition ConstantTimePSC_getIndexOf ::
    "int \<Rightarrow> constant_time_psc \<Rightarrow> prefix_sum_index_of_result \<times> constant_time_psc" where
  "ConstantTimePSC_getIndexOf s this =
     (let this' = ConstantTimePSC_ensureValid this;
          ps = ct_prefixSum this'
      in (case js_at (ct_indexBySum this') s of
            None \<Rightarrow>
              (let lastIdx = max 0 (int (length (ct_values this')) - 1);
                   lastPrefixSum = (if lastIdx > 0 then ps ! nat (lastIdx - 1) else 0)
               in \<lparr>psr_index = lastIdx, psr_remainder = s - lastPrefixSum\<rparr>)
          | Some idx \<Rightarrow>
              (let viewLinesAbove = (if idx > 0 then ps ! nat (idx - 1) else 0)
               in \<lparr>psr_index = idx, psr_remainder = s - viewLinesAbove\<rparr>), this'))"

definition ConstantTimePSC_removeValues :: "int \<Rightarrow> int \<Rightarrow> constant_time_psc \<Rightarrow> constant_time_psc" where
  "ConstantTimePSC_removeValues start deleteCount this =
     ConstantTimePSC_invalidate start (this\<lparr>ct_values := js_splice (ct_values this) start deleteCount []\<rparr>)"

definition ConstantTimePSC_insertValues :: "int \<Rightarrow> int list \<Rightarrow> constant_time_psc \<Rightarrow> constant_time_psc" where
  "ConstantTimePSC_insertValues insertIndex insertArr this =
     ConstantTimePSC_invalidate insertIndex
       (this\<lparr>ct_values := arrayInsert (ct_values this) insertIndex insertArr\<rparr>)"

definition ConstantTimePSC_setValue :: "int \<Rightarrow> int \<Rightarrow> constant_time_psc \<Rightarrow> constant_time_psc" where
  "ConstantTimePSC_setValue index v this =
     (if js_at (ct_values this) index = Some v then this
      else ConstantTimePSC_invalidate index (this\<lparr>ct_values := js_store (ct_values this) index v\<rparr>))"

subsection \<open>The contract\<close>

text \<open>
  The operations a client performs, queries included because they update the caches, and
  what they do to the plain list of values.
\<close>

datatype ps_op = PInsert int "int list" | PRemove int int | PSet int int
  | PPrefix int | PTotal | PIndexOf int

fun ps_spec :: "ps_op \<Rightarrow> int list \<Rightarrow> int list" where
  "ps_spec (PInsert i vs) xs = take (nat i) xs @ vs @ drop (nat i) xs"
| "ps_spec (PRemove i n) xs = take (nat i) xs @ drop (nat i + nat n) xs"
| "ps_spec (PSet i v) xs = xs[nat i := v]"
| "ps_spec _ xs = xs"

fun ps_op_ok :: "ps_op \<Rightarrow> int list \<Rightarrow> bool" where
  "ps_op_ok (PInsert i vs) xs \<longleftrightarrow> 0 \<le> i \<and> i \<le> int (length xs) \<and> i < 2 ^ 31 \<and> (\<forall>v\<in>set vs. 0 \<le> v \<and> v < 2 ^ 32)"
| "ps_op_ok (PRemove i n) xs \<longleftrightarrow> 0 \<le> i \<and> i < 2 ^ 31 \<and> 0 \<le> n \<and> n < 2 ^ 31"
| "ps_op_ok (PSet i v) xs \<longleftrightarrow> 0 \<le> i \<and> i < int (length xs) \<and> i < 2 ^ 31 \<and> 0 \<le> v \<and> v < 2 ^ 32"
| "ps_op_ok (PPrefix c) xs \<longleftrightarrow> 0 \<le> c \<and> c \<le> int (length xs) \<and> c < 2 ^ 31"
| "ps_op_ok _ xs \<longleftrightarrow> True"

fun ps_ops_ok :: "ps_op list \<Rightarrow> int list \<Rightarrow> bool" where
  "ps_ops_ok [] xs = True"
| "ps_ops_ok (op # ops) xs \<longleftrightarrow> ps_op_ok op xs \<and> ps_ops_ok ops (ps_spec op xs)"

abbreviation psum :: "int list \<Rightarrow> nat \<Rightarrow> int" where
  "psum xs k \<equiv> sum_list (take k xs)"

definition locates :: "int list \<Rightarrow> int \<Rightarrow> prefix_sum_index_of_result \<Rightarrow> bool" where
  "locates xs x r \<longleftrightarrow>
     0 \<le> psr_index r \<and> psr_index r < int (length xs) \<and>
     psum xs (nat (psr_index r)) \<le> x \<and> x < psum xs (nat (psr_index r) + 1) \<and>
     psr_remainder r = x - psum xs (nat (psr_index r))"

lemma psum_mono:
  assumes "\<forall>v\<in>set xs. 0 \<le> v" "i \<le> j"
  shows "psum xs i \<le> psum xs j"
proof -
  obtain k where "j = i + k" using assms(2) le_Suc_ex by blast
  then have "psum xs j = psum xs i + sum_list (take k (drop i xs))" by (simp add: take_add)
  moreover have "0 \<le> sum_list (take k (drop i xs))"
    using assms(1) by (intro sum_list_nonneg) (auto dest: in_set_takeD in_set_dropD)
  ultimately show ?thesis by simp
qed

lemma psum_Suc: "k < length xs \<Longrightarrow> psum xs (Suc k) = psum xs k + xs ! k"
  by (simp add: take_Suc_conv_app_nth)

lemma locates_unique:
  assumes "\<forall>v\<in>set xs. 0 \<le> v" "locates xs x r" "locates xs x r'"
  shows "r = r'"
proof -
  have le: "\<not> nat (psr_index a) < nat (psr_index b)" if a: "locates xs x a" and b: "locates xs x b" for a b
  proof
    assume "nat (psr_index a) < nat (psr_index b)"
    then have "psum xs (nat (psr_index a) + 1) \<le> psum xs (nat (psr_index b))"
      by (intro psum_mono[OF assms(1)]) linarith
    with a b show False unfolding locates_def by linarith
  qed
  have "0 \<le> psr_index r" "0 \<le> psr_index r'" using assms(2,3) by (auto simp: locates_def)
  then have "psr_index r = psr_index r'" using le[OF assms(2,3)] le[OF assms(3,2)] by linarith
  then show ?thesis using assms(2,3) by (simp add: locates_def)
qed

locale prefix_sums =
  fixes inv :: "'s \<Rightarrow> bool" and vals :: "'s \<Rightarrow> int list" and step :: "ps_op \<Rightarrow> 's \<Rightarrow> 's result"
    and prefixSum :: "int \<Rightarrow> 's \<Rightarrow> int option" and total :: "'s \<Rightarrow> int option"
    and indexOf :: "int \<Rightarrow> 's \<Rightarrow> prefix_sum_index_of_result"
  assumes step_ok: "inv s \<Longrightarrow> ps_op_ok op (vals s) \<Longrightarrow>
      \<exists>s'. step op s = Inr s' \<and> inv s' \<and> vals s' = ps_spec op (vals s)"
    and prefix_ok: "inv s \<Longrightarrow> sum_list (vals s) < 2 ^ 32 \<Longrightarrow> 0 \<le> c \<Longrightarrow> c \<le> int (length (vals s)) \<Longrightarrow> c < 2 ^ 31 \<Longrightarrow>
      prefixSum c s = Some (psum (vals s) (nat c))"
    and total_ok: "inv s \<Longrightarrow> sum_list (vals s) < 2 ^ 32 \<Longrightarrow> total s = Some (sum_list (vals s))"
    and index_ok: "inv s \<Longrightarrow> sum_list (vals s) < 2 ^ 32 \<Longrightarrow> 0 \<le> x \<Longrightarrow> x < sum_list (vals s) \<Longrightarrow>
      locates (vals s) x (indexOf x s)"
    and vals_nonneg: "inv s \<Longrightarrow> \<forall>v\<in>set (vals s). 0 \<le> v"
begin

lemma run_ok:
  assumes "inv s" "ps_ops_ok ops (vals s)"
  shows "\<exists>s'. foldl (\<lambda>acc op. bindR acc (step op)) (Inr s) ops = Inr s' \<and> inv s' \<and>
     vals s' = foldl (\<lambda>xs op. ps_spec op xs) (vals s) ops"
  using assms
proof (induction ops arbitrary: s)
  case (Cons op ops)
  then obtain s1 where "step op s = Inr s1" "inv s1" "vals s1 = ps_spec op (vals s)" using step_ok by fastforce
  with Cons.IH[of s1] Cons.prems show ?case by simp
qed simp

lemma index_determined:
  "inv s \<Longrightarrow> sum_list (vals s) < 2 ^ 32 \<Longrightarrow> 0 \<le> x \<Longrightarrow> x < sum_list (vals s) \<Longrightarrow>
   locates (vals s) x r \<Longrightarrow> indexOf x s = r"
  using locates_unique[OF vals_nonneg index_ok] by blast

end

subsection \<open>PrefixSumComputer meets the contract\<close>

fun psc_step :: "ps_op \<Rightarrow> prefix_sum_computer \<Rightarrow> prefix_sum_computer result" where
  "psc_step (PInsert i vs) s = bindR (PrefixSumComputer_insertValues i vs s) (\<lambda>r. Inr (snd r))"
| "psc_step (PRemove i n) s = bindR (PrefixSumComputer_removeValues i n s) (\<lambda>r. Inr (snd r))"
| "psc_step (PSet i v) s = Inr (snd (PrefixSumComputer_setValue i v s))"
| "psc_step (PPrefix c) s = Inr (snd (PrefixSumComputer_getPrefixSum (c - 1) s))"
| "psc_step PTotal s = Inr (snd (PrefixSumComputer_getTotalSum s))"
| "psc_step (PIndexOf x) s = Inr (snd (PrefixSumComputer_getIndexOf x s))"

text \<open>The sums up to the watermark are right modulo \<open>2 ^ 32\<close>.\<close>

definition psc_inv :: "prefix_sum_computer \<Rightarrow> bool" where
  "psc_inv s \<longleftrightarrow>
     length (psc_prefixSum s) = length (psc_values s) \<and>
     - 1 \<le> psc_validIndex s \<and> psc_validIndex s < int (length (psc_values s)) \<and>
     (\<forall>k. int k \<le> psc_validIndex s \<longrightarrow> psc_prefixSum s ! k = uint32 (psum (psc_values s) (Suc k))) \<and>
     (\<forall>v\<in>set (psc_values s). 0 \<le> v \<and> v < 2 ^ 32)"

lemma toUint32_small: "0 \<le> i \<Longrightarrow> i < 2 ^ 31 \<Longrightarrow> toUint32 i = i"
  by (simp add: toUint32_def toInt32_id)

lemma uint32_toUint32: "0 \<le> v \<Longrightarrow> v < 2 ^ 32 \<Longrightarrow> uint32 (toUint32 v) = v"
  unfolding toUint32_def toInt32_def uint32_def by (simp add: mod_simps)

lemma ta_set_append:
  assumes "length target = length a + length src + length b" "take (length a) target = a" "drop (length a + length src) target = b"
  shows "ta_set target src (int (length a)) = Inr (a @ src @ b)"
  using assms by (simp add: ta_set_def)

lemma psc_keepPrefix_ok:
  assumes "vi < int n" "vi < int (length old)" "- 1 \<le> vi"
  shows "\<exists>ps. psc_keepPrefix old (int n) vi = Inr ps \<and> length ps = n \<and> (\<forall>k. int k \<le> vi \<longrightarrow> ps ! k = old ! k)"
proof (cases "vi \<ge> 0")
  case True
  have sl: "js_slice old 0 (vi + 1) = take (nat (vi + 1)) old" using True assms by (simp add: js_slice_valid)
  have len: "length (take (nat (vi + 1)) old) = nat (vi + 1)" using assms True by simp
  show ?thesis
    using True assms len by (auto simp: psc_keepPrefix_def sl ta_set_def ta_new_def nth_append)
qed (use assms in \<open>auto simp: psc_keepPrefix_def ta_new_def\<close>)

lemma psc_inv_change:
  assumes "psc_inv s" "length ps = length xs" "\<forall>k. int k \<le> vi \<longrightarrow> ps ! k = psc_prefixSum s ! k"
    and "- 1 \<le> vi" "vi \<le> psc_validIndex s" "vi < int (length xs)"
    and "take (nat (vi + 1)) xs = take (nat (vi + 1)) (psc_values s)" "\<forall>v\<in>set xs. 0 \<le> v \<and> v < 2 ^ 32"
  shows "psc_inv \<lparr>psc_values = xs, psc_prefixSum = ps, psc_validIndex = vi\<rparr>"
proof -
  have "take (Suc k) xs = take (Suc k) (psc_values s)" if "int k \<le> vi" for k
  proof -
    have "Suc k \<le> nat (vi + 1)" using that by linarith
    then show ?thesis using arg_cong[OF assms(7), of "take (Suc k)"] by (simp add: min_def)
  qed
  with assms show ?thesis by (auto simp: psc_inv_def)
qed

lemma psc_insert_ok:
  assumes s: "psc_inv s" and i: "0 \<le> i" "i \<le> int (length (psc_values s))" "i < 2 ^ 31"
    and vs: "\<forall>v\<in>set vs. 0 \<le> v \<and> v < 2 ^ 32"
  shows "\<exists>b s'. PrefixSumComputer_insertValues i vs s = Inr (b, s') \<and> psc_inv s' \<and>
     psc_values s' = take (nat i) (psc_values s) @ vs @ drop (nat i) (psc_values s)"
proof (cases "vs = []")
  case True
  with s show ?thesis by (auto simp: PrefixSumComputer_insertValues_def)
next
  case False
  let ?old = "psc_values s" and ?n = "nat i"
  let ?a = "take ?n ?old" and ?b = "drop ?n ?old"
  let ?new = "?a @ vs @ ?b"
  have la: "length ?a = ?n" using i by simp
  have sl: "js_slice ?old 0 i = ?a" "js_slice ?old i (int (length ?old)) = ?b" using i by (simp_all add: js_slice_valid)
  have t1: "ta_set (ta_new (int (length ?old) + int (length vs))) ?a 0 =
      Inr (?a @ replicate (length vs + length ?b) 0)"
    using i la by (simp add: ta_set_def ta_new_def nat_add_distrib)
  have t2: "ta_set (?a @ replicate (length vs + length ?b) 0) ?b (i + int (length vs)) =
      Inr (?a @ replicate (length vs) 0 @ ?b)"
    using i la by (simp add: ta_set_def nat_add_distrib replicate_add)
  have t3: "ta_set (?a @ replicate (length vs) 0 @ ?b) vs i = Inr ?new"
    using i la by (simp add: ta_set_def)
  define vi where "vi = (if i - 1 < psc_validIndex s then i - 1 else psc_validIndex s)"
  have vi: "- 1 \<le> vi" "vi \<le> psc_validIndex s" "vi < i" "vi < int (length ?old)"
    using s i by (auto simp: vi_def psc_inv_def)
  have ln: "length ?new = length ?old + length vs" using i by simp
  then have lt: "vi < int (length ?new)" using vi(4) by linarith
  have lp: "vi < int (length (psc_prefixSum s))" using vi(2) s by (simp add: psc_inv_def)
  obtain ps where ps: "psc_keepPrefix (psc_prefixSum s) (int (length ?new)) vi = Inr ps"
    "length ps = length ?new" "\<forall>k. int k \<le> vi \<longrightarrow> ps ! k = psc_prefixSum s ! k"
    using psc_keepPrefix_ok[OF lt lp vi(1)] by blast
  have "PrefixSumComputer_insertValues i vs s =
      Inr (True, \<lparr>psc_values = ?new, psc_prefixSum = ps, psc_validIndex = vi\<rparr>)"
    unfolding PrefixSumComputer_insertValues_def Let_def toUint32_small[OF i(1,3)] sl t1 bindR.simps t2 t3
      vi_def[symmetric] ps(1) using False by simp
  moreover have "psc_inv \<lparr>psc_values = ?new, psc_prefixSum = ps, psc_validIndex = vi\<rparr>"
  proof (rule psc_inv_change[OF s ps(2,3) vi(1,2)])
    show "vi < int (length ?new)" using vi(4) ln by simp
    have "nat (vi + 1) \<le> ?n" using vi(3) by linarith
    then show "take (nat (vi + 1)) ?new = take (nat (vi + 1)) ?old" using la by (simp add: min_def)
    show "\<forall>v\<in>set ?new. 0 \<le> v \<and> v < 2 ^ 32"
      using vs s by (auto simp: psc_inv_def dest: in_set_takeD in_set_dropD)
  qed
  ultimately show ?thesis by auto
qed

lemma psc_remove_ok:
  assumes s: "psc_inv s" and i: "0 \<le> i" "i < 2 ^ 31" "0 \<le> n" "n < 2 ^ 31"
  shows "\<exists>b s'. PrefixSumComputer_removeValues i n s = Inr (b, s') \<and> psc_inv s' \<and>
     psc_values s' = take (nat i) (psc_values s) @ drop (nat i + nat n) (psc_values s)"
proof -
  let ?old = "psc_values s"
  define c where "c = (if n \<ge> int (length ?old) - i then int (length ?old) - i else n)"
  consider "i \<ge> int (length ?old)" | "i < int (length ?old)" "c = 0" | "i < int (length ?old)" "c \<noteq> 0" by linarith
  then show ?thesis
  proof cases
    case 1
    with s i show ?thesis by (auto simp: PrefixSumComputer_removeValues_def toUint32_small)
  next
    case 2
    then have "n = 0" using i by (auto simp: c_def split: if_splits)
    with 2 s i show ?thesis by (auto simp: PrefixSumComputer_removeValues_def toUint32_small Let_def)
  next
    case 3
    let ?a = "take (nat i) ?old" and ?b = "drop (nat i + nat c) ?old"
    let ?new = "?a @ ?b"
    have c: "0 < c" "i + c \<le> int (length ?old)" "?b = drop (nat i + nat n) ?old"
      using 3 i by (auto simp: c_def split: if_splits)
    have la: "length ?a = nat i" using 3 by simp
    have ln: "int (length ?new) = int (length ?old) - c" using c(1,2) i by simp
    have sl: "js_slice ?old 0 i = ?a" "js_slice ?old (i + c) (int (length ?old)) = ?b"
      using i c(1,2) by (simp_all add: js_slice_valid nat_add_distrib)
    have rep: "ta_new (int (length ?old) - c) = replicate (nat i) 0 @ replicate (length ?b) 0"
      using c(1,2) i by (simp add: ta_new_def nat_diff_distrib flip: replicate_add)
    have t1: "ta_set (ta_new (int (length ?old) - c)) ?a 0 = Inr (?a @ replicate (length ?b) 0)"
      unfolding rep using la by (simp add: ta_set_def)
    have t2: "ta_set (?a @ replicate (length ?b) 0) ?b i = Inr ?new" using la i by (simp add: ta_set_def)
    define vi where "vi = (if i - 1 < psc_validIndex s then i - 1 else psc_validIndex s)"
    have vi: "- 1 \<le> vi" "vi \<le> psc_validIndex s" "vi < i" "vi < int (length ?old)"
      using s i by (auto simp: vi_def psc_inv_def)
    have lt: "vi < int (length ?new)" using vi(3) ln c by linarith
    have lp: "vi < int (length (psc_prefixSum s))" using vi(2) s by (simp add: psc_inv_def)
    obtain ps where ps: "psc_keepPrefix (psc_prefixSum s) (int (length ?new)) vi = Inr ps"
      "length ps = length ?new" "\<forall>k. int k \<le> vi \<longrightarrow> ps ! k = psc_prefixSum s ! k"
      using psc_keepPrefix_ok[OF lt lp vi(1)] by blast
    have cnt: "(if toUint32 n \<ge> int (length ?old) - toUint32 i then int (length ?old) - toUint32 i else toUint32 n) = c"
      using i by (simp add: toUint32_small c_def)
    have "PrefixSumComputer_removeValues i n s =
        Inr (True, \<lparr>psc_values = ?new, psc_prefixSum = ps, psc_validIndex = vi\<rparr>)"
      unfolding PrefixSumComputer_removeValues_def Let_def cnt unfolding toUint32_small[OF i(1,2)] sl t1 bindR.simps t2
        vi_def[symmetric] ps(1) using 3 by simp
    moreover have "psc_inv \<lparr>psc_values = ?new, psc_prefixSum = ps, psc_validIndex = vi\<rparr>"
    proof (rule psc_inv_change[OF s ps(2,3) vi(1,2) lt])
      have "nat (vi + 1) \<le> nat i" using vi(3) by linarith
      then show "take (nat (vi + 1)) ?new = take (nat (vi + 1)) ?old" using la by (simp add: min_def)
      show "\<forall>v\<in>set ?new. 0 \<le> v \<and> v < 2 ^ 32"
        using s by (auto simp: psc_inv_def dest: in_set_takeD in_set_dropD)
    qed
    ultimately show ?thesis using c(3) by auto
  qed
qed

lemma psc_set_ok:
  assumes s: "psc_inv s" and i: "0 \<le> i" "i < int (length (psc_values s))" "i < 2 ^ 31" "0 \<le> v" "v < 2 ^ 32"
  shows "psc_inv (snd (PrefixSumComputer_setValue i v s)) \<and>
     psc_values (snd (PrefixSumComputer_setValue i v s)) = (psc_values s)[nat i := v]"
proof (cases "js_at (psc_values s) i = Some (toUint32 v)")
  case True
  have e: "psc_values s ! nat i = toUint32 v" using True i by (simp add: js_at_def)
  moreover have "psc_values s ! nat i \<in> set (psc_values s)" using i by (intro nth_mem) (simp add: nat_less_iff)
  ultimately have "0 \<le> toUint32 v" "toUint32 v < 2 ^ 32" using s by (auto simp: psc_inv_def)
  then have "toUint32 v = v" using uint32_toUint32[OF i(4,5)] by (simp add: uint32_id)
  then have "(psc_values s)[nat i := v] = psc_values s" using e by (metis list_update_id)
  with True s i show ?thesis by (simp add: PrefixSumComputer_setValue_def toUint32_small Let_def)
next
  case False
  let ?new = "(psc_values s)[nat i := v]"
  define vi where "vi = (if i - 1 < psc_validIndex s then i - 1 else psc_validIndex s)"
  have vi: "- 1 \<le> vi" "vi \<le> psc_validIndex s" "vi < i" "vi < int (length ?new)"
    using s i by (auto simp: vi_def psc_inv_def)
  have eq: "snd (PrefixSumComputer_setValue i v s) =
      \<lparr>psc_values = ?new, psc_prefixSum = psc_prefixSum s, psc_validIndex = vi\<rparr>"
    using False i uint32_toUint32[OF i(4,5)]
    by (simp add: PrefixSumComputer_setValue_def toUint32_small Let_def ta_store_def vi_def)
  have "psc_inv \<lparr>psc_values = ?new, psc_prefixSum = psc_prefixSum s, psc_validIndex = vi\<rparr>"
  proof (rule psc_inv_change[OF s _ _ vi(1,2,4)])
    have "nat (vi + 1) \<le> nat i" using vi(3) by linarith
    then show "take (nat (vi + 1)) ?new = take (nat (vi + 1)) (psc_values s)" by simp
    show "\<forall>x\<in>set ?new. 0 \<le> x \<and> x < 2 ^ 32"
      using s i by (auto simp: psc_inv_def dest!: set_update_subset_insert[THEN subsetD])
  qed (use s in \<open>auto simp: psc_inv_def\<close>)
  then show ?thesis unfolding eq by simp
qed

lemma psc_fill_ok:
  assumes "length ps = length xs" "1 \<le> i" "i \<le> index + 1" "index < int (length xs)"
    and "\<forall>k. int k < i \<longrightarrow> ps ! k = uint32 (psum xs (Suc k))"
  shows "length (psc_fill xs ps i index) = length xs \<and>
     (\<forall>k. int k \<le> index \<longrightarrow> psc_fill xs ps i index ! k = uint32 (psum xs (Suc k)))"
  using assms
proof (induction xs ps i index rule: psc_fill.induct)
  case (1 xs ps i index)
  show ?case
  proof (cases "i \<le> index")
    case False
    with "1.prems" show ?thesis by (simp add: psc_fill.simps[of xs ps i index])
  next
    case True
    define ps' where "ps' = ta_store ps i (ps ! nat (i - 1) + xs ! nat i)"
    have prev: "ps ! nat (i - 1) = uint32 (psum xs (nat i))"
      using "1.prems"(2) "1.prems"(5)[rule_format, of "nat (i - 1)"] by (simp add: Suc_nat_eq_nat_zadd1)
    have "uint32 (uint32 a + b) = uint32 (a + b)" for a b by (simp add: uint32_def mod_simps)
    then have "uint32 (ps ! nat (i - 1) + xs ! nat i) = uint32 (psum xs (Suc (nat i)))"
      unfolding prev using True "1.prems"(2,4) by (subst psum_Suc) (auto simp: nat_less_iff)
    then have "\<forall>k. int k < i + 1 \<longrightarrow> ps' ! k = uint32 (psum xs (Suc k))"
      using "1.prems" True by (auto simp: ps'_def ta_store_def nth_list_update)
    moreover have "length ps' = length xs" using "1.prems"(1) by (simp add: ps'_def ta_store_def)
    moreover have "psc_fill xs ps i index = psc_fill xs ps' (i + 1) index"
      using True by (simp add: psc_fill.simps[of xs ps i index] ps'_def)
    ultimately show ?thesis
      using "1.IH"[OF True, folded ps'_def] "1.prems"(2-4) True by simp
  qed
qed

lemma psc_getPrefixSum_private_ok:
  assumes s: "psc_inv s" and i: "0 \<le> i" "i < int (length (psc_values s))"
  shows "\<exists>s'. PrefixSumComputer_getPrefixSum_private i s = (Some (uint32 (psum (psc_values s) (nat i + 1))), s') \<and>
     psc_inv s' \<and> psc_values s' = psc_values s \<and> i \<le> psc_validIndex s'"
proof (cases "i \<le> psc_validIndex s")
  case True
  have len: "length (psc_prefixSum s) = length (psc_values s)" using s by (simp add: psc_inv_def)
  have "psc_prefixSum s ! nat i = uint32 (psum (psc_values s) (Suc (nat i)))"
    using s True i by (simp add: psc_inv_def)
  with s True i len show ?thesis
    by (auto simp: PrefixSumComputer_getPrefixSum_private_def js_at_def)
next
  case False
  let ?xs = "psc_values s" and ?vi = "psc_validIndex s"
  have ne: "?xs \<noteq> []" using i by auto
  define ps0 where "ps0 = (if ?vi + 1 = 0 \<and> ?xs \<noteq> [] then ta_store (psc_prefixSum s) 0 (hd ?xs) else psc_prefixSum s)"
  define st where "st = (if ?vi + 1 = 0 then ?vi + 1 + 1 else ?vi + 1)"
  have st: "1 \<le> st" "st \<le> i + 1" using s False i by (auto simp: st_def psc_inv_def)
  have len: "length ps0 = length ?xs" using s by (auto simp: ps0_def ta_store_def psc_inv_def)
  have "take (Suc 0) ?xs = [hd ?xs]" using ne by (cases ?xs) auto
  then have pre: "\<forall>k. int k < st \<longrightarrow> ps0 ! k = uint32 (psum ?xs (Suc k))"
    using s ne by (auto simp: ps0_def st_def ta_store_def psc_inv_def nth_list_update)
  note fill = psc_fill_ok[OF len st i(2) pre]
  let ?s' = "s\<lparr>psc_prefixSum := psc_fill ?xs ps0 st i, psc_validIndex := max ?vi i\<rparr>"
  have "PrefixSumComputer_getPrefixSum_private i s = (js_at (psc_fill ?xs ps0 st i) i, ?s')"
    using False i by (simp add: PrefixSumComputer_getPrefixSum_private_def Let_def ps0_def st_def)
  moreover have "js_at (psc_fill ?xs ps0 st i) i = Some (uint32 (psum ?xs (nat i + 1)))"
    using fill i by (simp add: js_at_def)
  moreover have "psc_inv ?s'" using s fill False i by (auto simp: psc_inv_def max_def)
  ultimately show ?thesis by auto
qed

lemma psc_total_ok:
  assumes "psc_inv s"
  shows "\<exists>s'. PrefixSumComputer_getTotalSum s = (Some (uint32 (sum_list (psc_values s))), s') \<and>
     psc_inv s' \<and> psc_values s' = psc_values s \<and> psc_validIndex s' = int (length (psc_values s)) - 1"
proof (cases "psc_values s = []")
  case True
  with assms show ?thesis by (auto simp: PrefixSumComputer_getTotalSum_def psc_inv_def uint32_def)
next
  case False
  let ?i = "int (length (psc_values s)) - 1"
  have "0 \<le> ?i" "?i < int (length (psc_values s))" "nat ?i + 1 = length (psc_values s)"
    using False by (cases "psc_values s"; simp)+
  with psc_getPrefixSum_private_ok[OF assms this(1,2)] False show ?thesis
    by (auto simp: PrefixSumComputer_getTotalSum_def psc_inv_def)
qed

lemma psc_search_ok:
  assumes "\<forall>v\<in>set xs. 0 \<le> v" "\<forall>k < length xs. ps ! k = psum xs (Suc k)"
    and "0 \<le> low" "high < int (length xs)" "psum xs (nat low) \<le> x" "x < psum xs (nat (high + 1))"
  shows "\<exists>m. psc_search xs ps x low high st = (m, psum xs (nat m)) \<and>
     locates xs x \<lparr>psr_index = m, psr_remainder = x - psum xs (nat m)\<rparr>"
  using assms
proof (induction xs ps x low high st rule: psc_search.induct)
  case (1 xs ps x low high st)
  have lh: "low \<le> high"
  proof (rule ccontr)
    assume "\<not> low \<le> high"
    then have "psum xs (nat (high + 1)) \<le> psum xs (nat low)" by (intro psum_mono[OF "1.prems"(1)]) linarith
    with "1.prems"(5,6) show False by linarith
  qed
  define mid where "mid = low + (high - low) div 2"
  have mid: "low \<le> mid" "mid \<le> high" using lh by (auto simp: mid_def)
  then have midn: "nat mid < length xs" "0 \<le> mid" using "1.prems"(3,4) by auto
  have stop: "ps ! nat mid = psum xs (Suc (nat mid))" using "1.prems"(2) midn by simp
  have start: "ps ! nat mid - xs ! nat mid = psum xs (nat mid)" using stop psum_Suc[OF midn(1)] by simp
  have nat1: "nat (mid + 1) = Suc (nat mid)" using midn by simp
  note unf = psc_search.simps[of xs ps x low high st] and IH = "1.IH"[OF lh mid_def refl refl, unfolded start, unfolded stop]
  consider "x < psum xs (nat mid)" | "x \<ge> psum xs (Suc (nat mid))"
    | "psum xs (nat mid) \<le> x" "x < psum xs (Suc (nat mid))" by linarith
  then show ?case
  proof cases
    case 1
    then show ?thesis
      using IH(1)[OF 1] "1.prems" mid lh by (simp add: unf Let_def stop start[unfolded stop] flip: mid_def)
  next
    case 2
    have "psum xs (nat mid) \<le> psum xs (Suc (nat mid))" by (intro psum_mono[OF "1.prems"(1)]) simp
    then have n: "\<not> x < psum xs (nat mid)" using 2 by linarith
    then show ?thesis
      using IH(2)[OF n 2] "1.prems" 2 midn lh by (simp add: unf Let_def stop start[unfolded stop] nat1 flip: mid_def)
  next
    case 3
    then show ?thesis using lh midn by (simp add: unf Let_def stop start[unfolded stop] locates_def flip: mid_def)
  qed
qed

lemma psc_indexOf_ok:
  assumes "psc_inv s"
  shows "psc_inv (snd (PrefixSumComputer_getIndexOf x s))"
    and "psc_values (snd (PrefixSumComputer_getIndexOf x s)) = psc_values s"
    and "sum_list (psc_values s) < 2 ^ 32 \<Longrightarrow> 0 \<le> x \<Longrightarrow> x < sum_list (psc_values s) \<Longrightarrow>
      locates (psc_values s) x (fst (PrefixSumComputer_getIndexOf x s))"
proof -
  obtain s' where s': "PrefixSumComputer_getTotalSum s = (Some (uint32 (sum_list (psc_values s))), s')"
     "psc_inv s'" "psc_values s' = psc_values s" "psc_validIndex s' = int (length (psc_values s)) - 1"
    using psc_total_ok[OF assms] by blast
  then show "psc_inv (snd (PrefixSumComputer_getIndexOf x s))"
    and "psc_values (snd (PrefixSumComputer_getIndexOf x s)) = psc_values s"
    by (simp_all add: PrefixSumComputer_getIndexOf_def Let_def)
  assume b: "sum_list (psc_values s) < 2 ^ 32" "0 \<le> x" "x < sum_list (psc_values s)"
  let ?xs = "psc_values s"
  have nn: "\<forall>v\<in>set ?xs. 0 \<le> v" using assms by (auto simp: psc_inv_def)
  have exact: "uint32 (psum ?xs k) = psum ?xs k" for k
  proof -
    have "psum ?xs k \<le> psum ?xs (length ?xs)"
      using psum_mono[OF nn, of k "length ?xs"] by (cases "k \<le> length ?xs") auto
    moreover have "0 \<le> psum ?xs k" using psum_mono[OF nn, of 0 k] by simp
    ultimately show ?thesis using b by (simp add: uint32_id)
  qed
  have ps: "\<forall>k < length ?xs. psc_prefixSum s' ! k = psum ?xs (Suc k)"
    using s'(2-4) exact by (auto simp: psc_inv_def)
  from psc_search_ok[OF nn ps, of 0 "int (length ?xs) - 1" x "(0, 0)"] b
  show "locates ?xs x (fst (PrefixSumComputer_getIndexOf x s))"
    by (auto simp: PrefixSumComputer_getIndexOf_def Let_def s'(1,3))
qed

lemma psc_prefix_ok:
  assumes "psc_inv s" "0 \<le> c" "c \<le> int (length (psc_values s))" "c < 2 ^ 31"
  shows "psc_inv (snd (PrefixSumComputer_getPrefixSum (c - 1) s)) \<and>
    psc_values (snd (PrefixSumComputer_getPrefixSum (c - 1) s)) = psc_values s \<and>
    fst (PrefixSumComputer_getPrefixSum (c - 1) s) = Some (uint32 (psum (psc_values s) (nat c)))"
proof (cases "c = 0")
  case True
  with assms show ?thesis by (simp add: PrefixSumComputer_getPrefixSum_def uint32_def)
next
  case False
  then have c: "0 \<le> c - 1" "c - 1 < int (length (psc_values s))" "nat (c - 1) + 1 = nat c" "toUint32 (c - 1) = c - 1"
    using assms(2-4) toUint32_small[of "c - 1"] by auto
  with psc_getPrefixSum_private_ok[OF assms(1) c(1,2)] show ?thesis
    by (auto simp: PrefixSumComputer_getPrefixSum_def)
qed

lemma uint32_psum:
  assumes "\<forall>v\<in>set xs. 0 \<le> v" "sum_list xs < 2 ^ 32"
  shows "uint32 (psum xs k) = psum xs k"
proof -
  have "psum xs k \<le> psum xs (length xs)"
    using psum_mono[OF assms(1), of k "length xs"] by (cases "k \<le> length xs") auto
  moreover have "0 \<le> psum xs k" using psum_mono[OF assms(1), of 0 k] by simp
  ultimately show ?thesis using assms(2) by (simp add: uint32_id)
qed

interpretation psc: prefix_sums psc_inv psc_values psc_step
  "\<lambda>c s. fst (PrefixSumComputer_getPrefixSum (c - 1) s)" "\<lambda>s. fst (PrefixSumComputer_getTotalSum s)"
  "\<lambda>x s. fst (PrefixSumComputer_getIndexOf x s)"
proof
  fix s op assume s: "psc_inv s" and op: "ps_op_ok op (psc_values s)"
  show "\<exists>s'. psc_step op s = Inr s' \<and> psc_inv s' \<and> psc_values s' = ps_spec op (psc_values s)"
  proof (cases op)
    case (PInsert i vs)
    with psc_insert_ok[OF s, of i vs] op show ?thesis by auto
  next
    case (PRemove i n)
    with psc_remove_ok[OF s, of i n] op show ?thesis by auto
  next
    case (PSet i v)
    with psc_set_ok[OF s, of i v] op show ?thesis by auto
  next
    case (PPrefix c)
    with psc_prefix_ok[OF s, of c] op show ?thesis by auto
  next
    case PTotal
    with psc_total_ok[OF s] show ?thesis by auto
  next
    case (PIndexOf x)
    with psc_indexOf_ok[OF s, of x] show ?thesis by auto
  qed
next
  fix s c assume s: "psc_inv s" "sum_list (psc_values s) < 2 ^ 32" and c: "0 \<le> c" "c \<le> int (length (psc_values s))" "c < 2 ^ 31"
  have "\<forall>v\<in>set (psc_values s). 0 \<le> v" using s(1) by (auto simp: psc_inv_def)
  from uint32_psum[OF this s(2)] psc_prefix_ok[OF s(1) c]
  show "fst (PrefixSumComputer_getPrefixSum (c - 1) s) = Some (psum (psc_values s) (nat c))" by simp
next
  fix s assume s: "psc_inv s" "sum_list (psc_values s) < 2 ^ 32"
  have "\<forall>v\<in>set (psc_values s). 0 \<le> v" using s(1) by (auto simp: psc_inv_def)
  from uint32_psum[OF this s(2), of "length (psc_values s)"] psc_total_ok[OF s(1)]
  show "fst (PrefixSumComputer_getTotalSum s) = Some (sum_list (psc_values s))" by auto
qed (use psc_indexOf_ok(3) in \<open>auto simp: psc_inv_def\<close>)

subsection \<open>ConstantTimePrefixSumComputer meets the contract\<close>

fun ct_step :: "ps_op \<Rightarrow> constant_time_psc \<Rightarrow> constant_time_psc result" where
  "ct_step (PInsert i vs) s = Inr (ConstantTimePSC_insertValues i vs s)"
| "ct_step (PRemove i n) s = Inr (ConstantTimePSC_removeValues i n s)"
| "ct_step (PSet i v) s = Inr (ConstantTimePSC_setValue i v s)"
| "ct_step (PPrefix c) s = Inr (snd (ConstantTimePSC_getPrefixSum c s))"
| "ct_step PTotal s = Inr (snd (ConstantTimePSC_getTotalSum s))"
| "ct_step (PIndexOf x) s = Inr (snd (ConstantTimePSC_getIndexOf x s))"

text \<open>The caches are right for the first \<open>m\<close> values.\<close>

definition ct_good :: "int list \<Rightarrow> int list \<Rightarrow> int list \<Rightarrow> nat \<Rightarrow> bool" where
  "ct_good xs ps ibs m \<longleftrightarrow>
     m \<le> length xs \<and> m \<le> length ps \<and> (\<forall>k<m. ps ! k = psum xs (Suc k)) \<and> psum xs m \<le> int (length ibs) \<and>
     (\<forall>x. 0 \<le> x \<and> x < psum xs m \<longrightarrow> 0 \<le> ibs ! nat x \<and> ibs ! nat x < int m \<and>
        psum xs (nat (ibs ! nat x)) \<le> x \<and> x < psum xs (nat (ibs ! nat x) + 1))"

definition ct_inv :: "constant_time_psc \<Rightarrow> bool" where
  "ct_inv s \<longleftrightarrow>
     (\<forall>v\<in>set (ct_values s). 0 \<le> v) \<and> - 1 \<le> ct_validEndIndex s \<and>
     ct_good (ct_values s) (ct_prefixSum s) (ct_indexBySum s) (nat (ct_validEndIndex s + 1)) \<and>
     (ct_isValid s \<longrightarrow> ct_validEndIndex s + 1 = int (length (ct_values s)) \<and>
        length (ct_prefixSum s) = length (ct_values s) \<and>
        int (length (ct_indexBySum s)) = sum_list (ct_values s))"

lemma js_store_eq:
  assumes "0 \<le> i" "i \<le> int (length xs)"
  shows "js_store xs i v = take (nat i) xs @ [v] @ drop (Suc (nat i)) xs"
proof (cases "i < int (length xs)")
  case True
  then have "nat i < length xs" using assms by linarith
  then show ?thesis using True by (simp add: js_store_def upd_conv_take_nth_drop)
next
  case False
  with assms show ?thesis by (simp add: js_store_def)
qed

lemma ct_mark_eq:
  assumes "0 \<le> a" "0 \<le> j" "j \<le> v" "a + j \<le> int (length ibs)"
  shows "ct_mark ibs a j v i = take (nat (a + j)) ibs @ replicate (nat (v - j)) i @ drop (nat (a + v)) ibs"
  using assms
proof (induction ibs a j v i rule: ct_mark.induct)
  case (1 ibs a j v i)
  show ?case
  proof (cases "j < v")
    case False
    then have "ct_mark ibs a j v i = ibs" by (subst ct_mark.simps) simp
    moreover have "j = v" using False "1.prems"(3) by simp
    ultimately show ?thesis by simp
  next
    case True
    define ibs' where "ibs' = js_store ibs (a + j) i"
    have ibs': "ibs' = take (nat (a + j)) ibs @ [i] @ drop (Suc (nat (a + j))) ibs"
      unfolding ibs'_def using "1.prems" by (intro js_store_eq) auto
    have l: "length (take (nat (a + j)) ibs) = nat (a + j)" using "1.prems" by simp
    have n: "nat (a + (j + 1)) = Suc (nat (a + j))" "nat (v - j) = Suc (nat (v - (j + 1)))" using "1.prems" True by auto
    have "a + (j + 1) \<le> int (length ibs')" unfolding ibs' using "1.prems" by simp
    with "1.IH"[OF True, folded ibs'_def] "1.prems" True
    have "ct_mark ibs' a (j + 1) v i =
        take (nat (a + (j + 1))) ibs' @ replicate (nat (v - (j + 1))) i @ drop (nat (a + v)) ibs'" by simp
    moreover have "take (nat (a + (j + 1))) ibs' = take (nat (a + j)) ibs @ [i]" unfolding n ibs' using l by simp
    moreover have "drop (nat (a + v)) ibs' = drop (nat (a + v)) ibs"
    proof -
      obtain d where d: "nat (a + v) = nat (a + j) + Suc d"
        using "1.prems" True by (metis add_less_cancel_left less_iff_Suc_add nat_mono_iff add_Suc_right
            add_nonneg_nonneg order_le_less_trans)
      show ?thesis unfolding ibs' d using l by (simp add: add.commute)
    qed
    ultimately show ?thesis using True n(2)
      by (simp add: ct_mark.simps[of ibs a j v i] flip: ibs'_def)
  qed
qed

lemma ct_good_step:
  assumes nn: "\<forall>v\<in>set xs. 0 \<le> v" and g: "ct_good xs ps ibs i" and i: "i < length xs"
  defines "a \<equiv> if 0 < int i then ps ! nat (int i - 1) else 0"
  shows "a = psum xs i"
    and "ct_good xs (js_store ps (int i) (a + xs ! i)) (ct_mark ibs a 0 (xs ! i) (int i)) (Suc i)"
proof -
  show a: "a = psum xs i"
  proof (cases i)
    case (Suc k)
    then show ?thesis using g by (simp add: a_def ct_good_def)
  qed (simp add: a_def)
  have a0: "0 \<le> a" unfolding a using psum_mono[OF nn, of 0 i] by simp
  have v: "0 \<le> xs ! i" using nn i by simp
  have al: "a \<le> int (length ibs)" "i \<le> length ps" using g by (auto simp: a ct_good_def)
  have ps: "js_store ps (int i) (a + xs ! i) = take i ps @ [psum xs (Suc i)] @ drop (Suc i) ps"
    using js_store_eq[of "int i" ps] al psum_Suc[OF i] by (simp add: a)
  have ibs: "ct_mark ibs a 0 (xs ! i) (int i) =
      take (nat a) ibs @ replicate (nat (xs ! i)) (int i) @ drop (nat (a + xs ! i)) ibs"
    using ct_mark_eq[of a 0 "xs ! i" ibs "int i"] a0 v al by simp
  have la: "length (take (nat a) ibs) = nat a" and lp: "length (take i ps) = i" using al by auto
  have sums: "\<forall>k<Suc i. (take i ps @ [psum xs (Suc i)] @ drop (Suc i) ps) ! k = psum xs (Suc k)"
    using g lp by (auto simp: ct_good_def nth_append less_Suc_eq)
  let ?ibs' = "take (nat a) ibs @ replicate (nat (xs ! i)) (int i) @ drop (nat (a + xs ! i)) ibs"
  have old: "?ibs' ! nat x = ibs ! nat x" if "0 \<le> x" "x < a" for x
    using that la by (simp add: nth_append nat_less_iff)
  have new: "?ibs' ! nat x = int i" if "a \<le> x" "x < a + xs ! i" for x
  proof -
    have "nat x - nat a < nat (xs ! i)" "nat a \<le> nat x" using that a0 by linarith+
    then show ?thesis using la by (simp only: nth_append not_less[symmetric] if_False length_replicate if_True nth_replicate)
  qed
  have lookup: "0 \<le> ?ibs' ! nat x \<and> ?ibs' ! nat x < int (Suc i) \<and> psum xs (nat (?ibs' ! nat x)) \<le> x \<and>
      x < psum xs (nat (?ibs' ! nat x) + 1)" if x: "0 \<le> x" "x < psum xs (Suc i)" for x
  proof (cases "x < a")
    case True
    with g x(1) have "0 \<le> ibs ! nat x" "ibs ! nat x < int i" "psum xs (nat (ibs ! nat x)) \<le> x"
      "x < psum xs (nat (ibs ! nat x) + 1)" by (auto simp: ct_good_def a)
    with old[OF x(1) True] show ?thesis by simp
  next
    case False
    then have "?ibs' ! nat x = int i" using x(2) psum_Suc[OF i] by (intro new) (auto simp: a)
    with False x(2) show ?thesis by (simp add: a)
  qed
  have "psum xs (Suc i) \<le> int (length ?ibs')" using psum_Suc[OF i] a0 v la by (simp add: a)
  with i al sums lookup show "ct_good xs (js_store ps (int i) (a + xs ! i)) (ct_mark ibs a 0 (xs ! i) (int i)) (Suc i)"
    unfolding ps ibs ct_good_def by simp
qed

lemma ct_fill_ok:
  assumes nn: "\<forall>v\<in>set xs. 0 \<le> v" and "ct_good xs ps ibs (nat i)" "0 \<le> i"
  shows "\<exists>ps' ibs'. ct_fill xs ps ibs i = (ps', ibs') \<and> ct_good xs ps' ibs' (length xs)"
  using assms(2,3)
proof (induction "length xs - nat i" arbitrary: ps ibs i)
  case 0
  then have "nat i = length xs" "\<not> i < int (length xs)" by (auto simp: ct_good_def)
  with 0 show ?case by (simp add: ct_fill.simps[of xs ps ibs i])
next
  case (Suc k)
  then have i: "nat i < length xs" "i < int (length xs)" by auto
  note step = ct_good_step(2)[OF nn Suc.prems(1) i(1)]
  have e: "int (nat i) = i" "Suc (nat i) = nat (i + 1)" using Suc.prems(2) by auto
  have "\<exists>ps' ibs'. ct_fill xs (js_store ps i ((if i > 0 then ps ! nat (i - 1) else 0) + xs ! nat i))
      (ct_mark ibs (if i > 0 then ps ! nat (i - 1) else 0) 0 (xs ! nat i) i) (i + 1) = (ps', ibs') \<and>
      ct_good xs ps' ibs' (length xs)"
    using Suc.hyps(1)[of "i + 1"] step Suc.hyps(2) Suc.prems(2) unfolding e by auto
  moreover have "ct_fill xs ps ibs i = ct_fill xs (js_store ps i ((if i > 0 then ps ! nat (i - 1) else 0) + xs ! nat i))
      (ct_mark ibs (if i > 0 then ps ! nat (i - 1) else 0) 0 (xs ! nat i) i) (i + 1)"
    using i Suc.prems(2) by (subst ct_fill.simps) (simp add: Let_def)
  ultimately show ?case by simp
qed

lemma ct_good_trim:
  assumes nn: "\<forall>v\<in>set xs. 0 \<le> v" and g: "ct_good xs ps ibs (length xs)"
  defines "ps' \<equiv> js_setLength ps (int (length xs))"
  defines "ibs' \<equiv> js_setLength ibs (if 0 < int (length xs) then ps' ! nat (int (length xs) - 1) else 0)"
  shows "ct_good xs ps' ibs' (length xs)" and "length ps' = length xs" and "int (length ibs') = sum_list xs"
proof -
  have p: "ps' = take (length xs) ps" "length ps' = length xs" using g by (auto simp: ps'_def js_setLength_def ct_good_def)
  then show "length ps' = length xs" by simp
  have t0: "0 \<le> sum_list xs" using nn by (intro sum_list_nonneg) auto
  have "(if 0 < int (length xs) then ps' ! nat (int (length xs) - 1) else 0) = sum_list xs"
  proof (cases xs)
    case (Cons y ys)
    then have "ps' ! length ys = psum xs (Suc (length ys))" using g p by (simp add: ct_good_def)
    with Cons show ?thesis by simp
  qed simp
  then have i: "ibs' = take (nat (sum_list xs)) ibs" "int (length ibs') = sum_list xs"
    using g t0 by (auto simp: ibs'_def js_setLength_def ct_good_def)
  then show "int (length ibs') = sum_list xs" by simp
  have "ibs' ! nat x = ibs ! nat x" if "0 \<le> x" "x < sum_list xs" for x using i(1) that by (simp add: nat_less_iff)
  with g p i(2) show "ct_good xs ps' ibs' (length xs)" by (auto simp: ct_good_def)
qed

lemma ct_ensureValid_ok:
  assumes "ct_inv s"
  shows "ct_inv (ConstantTimePSC_ensureValid s) \<and> ct_isValid (ConstantTimePSC_ensureValid s) \<and>
     ct_values (ConstantTimePSC_ensureValid s) = ct_values s"
proof (cases "ct_isValid s")
  case True
  with assms show ?thesis by (simp add: ConstantTimePSC_ensureValid_def)
next
  case False
  have nn: "\<forall>v\<in>set (ct_values s). 0 \<le> v" using assms by (simp add: ct_inv_def)
  obtain ps ibs where f: "ct_fill (ct_values s) (ct_prefixSum s) (ct_indexBySum s) (ct_validEndIndex s + 1) = (ps, ibs)"
    "ct_good (ct_values s) ps ibs (length (ct_values s))"
    using ct_fill_ok[OF nn, of "ct_prefixSum s" "ct_indexBySum s" "ct_validEndIndex s + 1"] assms
    by (auto simp: ct_inv_def)
  from ct_good_trim[OF nn f(2)] f(1) False nn show ?thesis
    by (simp add: ConstantTimePSC_ensureValid_def ct_inv_def Let_def)
qed

lemma ct_invalidate_ok:
  assumes s: "ct_inv s" and xs: "\<forall>v\<in>set xs. 0 \<le> v" "0 \<le> i"
    and pre: "take (min (nat i) (nat (ct_validEndIndex s + 1))) xs =
              take (min (nat i) (nat (ct_validEndIndex s + 1))) (ct_values s)"
    and len: "min (nat i) (nat (ct_validEndIndex s + 1)) \<le> length xs"
  shows "ct_inv (ConstantTimePSC_invalidate i (s\<lparr>ct_values := xs\<rparr>))"
proof -
  let ?m = "nat (ct_validEndIndex s + 1)"
  let ?k = "min (nat i) ?m"
  have vi: "- 1 \<le> ct_validEndIndex s" using s by (simp add: ct_inv_def)
  have k: "nat (min (ct_validEndIndex s) (i - 1) + 1) = ?k" using xs(2) vi by (simp add: min_def) linarith
  have same: "psum xs j = psum (ct_values s) j" if "j \<le> ?k" for j
    using arg_cong[OF pre, of "take j"] that by (simp add: min_absorb1)
  have g: "ct_good (ct_values s) (ct_prefixSum s) (ct_indexBySum s) ?m" and nn: "\<forall>v\<in>set (ct_values s). 0 \<le> v"
    using s by (auto simp: ct_inv_def)
  have mono: "psum (ct_values s) ?k \<le> psum (ct_values s) ?m" by (intro psum_mono[OF nn]) simp
  have "ct_good xs (ct_prefixSum s) (ct_indexBySum s) ?k"
    unfolding ct_good_def
  proof (intro conjI allI impI)
    show "?k \<le> length xs" by (rule len)
    show "?k \<le> length (ct_prefixSum s)" using g by (simp add: ct_good_def min.coboundedI2)
    show "psum xs ?k \<le> int (length (ct_indexBySum s))"
      unfolding same[OF order_refl] using g by (intro order_trans[OF mono]) (simp add: ct_good_def)
  next
    fix j assume "j < ?k"
    then have "j < ?m" "Suc j \<le> ?k" by simp_all
    moreover have "\<forall>k<?m. ct_prefixSum s ! k = psum (ct_values s) (Suc k)" using g by (simp add: ct_good_def)
    ultimately show "ct_prefixSum s ! j = psum xs (Suc j)" using same[of "Suc j"] by metis
  next
    fix x assume x: "0 \<le> x \<and> x < psum xs ?k"
    let ?i = "ct_indexBySum s ! nat x"
    have xk: "0 \<le> x" "x < psum (ct_values s) ?k" using x same[of ?k] by auto
    then have i: "0 \<le> ?i" "psum (ct_values s) (nat ?i) \<le> x" "x < psum (ct_values s) (nat ?i + 1)"
      using g mono by (auto simp: ct_good_def)
    have lt: "nat ?i < ?k"
    proof (rule ccontr)
      assume "\<not> nat ?i < ?k"
      then have "?k \<le> nat ?i" by (rule leI)
      then have "psum (ct_values s) ?k \<le> psum (ct_values s) (nat ?i)" by (rule psum_mono[OF nn])
      with i(2) xk(2) show False by linarith
    qed
    show "0 \<le> ?i" by (rule i(1))
    show "?i < int ?k" using lt i(1) by linarith
    have "nat ?i \<le> ?k" "nat ?i + 1 \<le> ?k" using lt by linarith+
    from same[OF this(1)] same[OF this(2)] i(2,3)
    show "psum xs (nat ?i) \<le> x" "x < psum xs (nat ?i + 1)" by linarith+
  qed
  with xs vi k show ?thesis by (simp add: ConstantTimePSC_invalidate_def ct_inv_def)
qed

lemma arrayInsert_eq:
  "0 \<le> i \<Longrightarrow> i \<le> int (length xs) \<Longrightarrow> arrayInsert xs i vs = take (nat i) xs @ vs @ drop (nat i) xs"
  by (simp add: arrayInsert_def js_slice_valid)

lemma ct_insert_ok:
  assumes s: "ct_inv s" and i: "0 \<le> i" "i \<le> int (length (ct_values s))" and vs: "\<forall>v\<in>set vs. 0 \<le> v"
  shows "ct_inv (ConstantTimePSC_insertValues i vs s)"
    and "ct_values (ConstantTimePSC_insertValues i vs s) = take (nat i) (ct_values s) @ vs @ drop (nat i) (ct_values s)"
proof -
  let ?xs = "take (nat i) (ct_values s) @ vs @ drop (nat i) (ct_values s)"
  have l: "length (take (nat i) (ct_values s)) = nat i" using i by simp
  have "ct_inv (ConstantTimePSC_invalidate i (s\<lparr>ct_values := ?xs\<rparr>))"
  proof (rule ct_invalidate_ok[OF s _ i(1)])
    show "\<forall>v\<in>set ?xs. 0 \<le> v" using s vs by (auto simp: ct_inv_def dest: in_set_takeD in_set_dropD)
  qed (use l in \<open>auto simp: min_def\<close>)
  then show "ct_inv (ConstantTimePSC_insertValues i vs s)"
    and "ct_values (ConstantTimePSC_insertValues i vs s) = ?xs"
    using i by (simp_all add: ConstantTimePSC_insertValues_def arrayInsert_eq ConstantTimePSC_invalidate_def)
qed

lemma ct_remove_ok:
  assumes s: "ct_inv s" and i: "0 \<le> i" "0 \<le> n"
  shows "ct_inv (ConstantTimePSC_removeValues i n s)"
    and "ct_values (ConstantTimePSC_removeValues i n s) = take (nat i) (ct_values s) @ drop (nat i + nat n) (ct_values s)"
proof -
  let ?xs = "take (nat i) (ct_values s) @ drop (nat i + nat n) (ct_values s)"
  let ?m = "nat (ct_validEndIndex s + 1)"
  have m: "?m \<le> length (ct_values s)" using s by (simp add: ct_inv_def ct_good_def)
  have "ct_inv (ConstantTimePSC_invalidate i (s\<lparr>ct_values := ?xs\<rparr>))"
  proof (rule ct_invalidate_ok[OF s _ i(1)])
    show "\<forall>v\<in>set ?xs. 0 \<le> v" using s by (auto simp: ct_inv_def dest: in_set_takeD in_set_dropD)
    have le: "min (nat i) ?m \<le> length (take (nat i) (ct_values s))" using m by (simp add: min.coboundedI2)
    show "min (nat i) ?m \<le> length ?xs" using le unfolding length_append by (rule trans_le_add1)
    have "take (min (nat i) ?m) ?xs = take (min (nat i) ?m) (take (nat i) (ct_values s))"
      using le by (simp only: take_append diff_is_0_eq[THEN iffD2] take_0 append_Nil2)
    then show "take (min (nat i) ?m) ?xs = take (min (nat i) ?m) (ct_values s)" by (simp add: min_def)
  qed
  then show "ct_inv (ConstantTimePSC_removeValues i n s)"
    and "ct_values (ConstantTimePSC_removeValues i n s) = ?xs"
    by (simp_all add: ConstantTimePSC_removeValues_def js_splice_def ConstantTimePSC_invalidate_def)
qed

lemma ct_set_ok:
  assumes s: "ct_inv s" and i: "0 \<le> i" "i < int (length (ct_values s))" and v: "0 \<le> v"
  shows "ct_inv (ConstantTimePSC_setValue i v s)"
    and "ct_values (ConstantTimePSC_setValue i v s) = (ct_values s)[nat i := v]"
proof -
  show "ct_inv (ConstantTimePSC_setValue i v s)"
  proof (cases "js_at (ct_values s) i = Some v")
    case False
    have "ct_inv (ConstantTimePSC_invalidate i (s\<lparr>ct_values := (ct_values s)[nat i := v]\<rparr>))"
    proof (rule ct_invalidate_ok[OF s _ i(1)])
      show "\<forall>x\<in>set ((ct_values s)[nat i := v]). 0 \<le> x"
        using s v by (auto simp: ct_inv_def dest!: set_update_subset_insert[THEN subsetD])
    qed (use i in auto)
    with False i show ?thesis by (simp add: ConstantTimePSC_setValue_def js_store_def)
  qed (use s in \<open>simp add: ConstantTimePSC_setValue_def\<close>)
  show "ct_values (ConstantTimePSC_setValue i v s) = (ct_values s)[nat i := v]"
    using i by (auto simp: ConstantTimePSC_setValue_def ConstantTimePSC_invalidate_def js_store_def js_at_def)
qed

interpretation ctp: prefix_sums ct_inv ct_values ct_step
  "\<lambda>c s. fst (ConstantTimePSC_getPrefixSum c s)" "\<lambda>s. Some (fst (ConstantTimePSC_getTotalSum s))"
  "\<lambda>x s. fst (ConstantTimePSC_getIndexOf x s)"
proof
  fix s op assume s: "ct_inv s" and op: "ps_op_ok op (ct_values s)"
  show "\<exists>s'. ct_step op s = Inr s' \<and> ct_inv s' \<and> ct_values s' = ps_spec op (ct_values s)"
    using ct_insert_ok[OF s] ct_remove_ok[OF s] ct_set_ok[OF s] ct_ensureValid_ok[OF s] op
    by (cases op) (auto simp: ConstantTimePSC_getPrefixSum_def ConstantTimePSC_getTotalSum_def
        ConstantTimePSC_getIndexOf_def Let_def)
next
  fix s c assume s: "ct_inv s" and c: "0 \<le> c" "c \<le> int (length (ct_values s))"
  let ?t = "ConstantTimePSC_ensureValid s"
  have t: "ct_inv ?t" "ct_isValid ?t" "ct_values ?t = ct_values s" using ct_ensureValid_ok[OF s] by auto
  then have g: "length (ct_prefixSum ?t) = length (ct_values s)"
    "\<forall>k<length (ct_values s). ct_prefixSum ?t ! k = psum (ct_values s) (Suc k)"
    by (auto simp: ct_inv_def ct_good_def)
  show "fst (ConstantTimePSC_getPrefixSum c s) = Some (psum (ct_values s) (nat c))"
  proof (cases "c = 0")
    case False
    then have "Suc (nat (c - 1)) = nat c" "nat (c - 1) < length (ct_values s)" using c by auto
    with False c g show ?thesis by (auto simp: ConstantTimePSC_getPrefixSum_def Let_def js_at_def)
  qed (simp add: ConstantTimePSC_getPrefixSum_def Let_def)
next
  fix s assume s: "ct_inv s"
  show "Some (fst (ConstantTimePSC_getTotalSum s)) = Some (sum_list (ct_values s))"
    using ct_ensureValid_ok[OF s] by (auto simp: ConstantTimePSC_getTotalSum_def Let_def ct_inv_def)
next
  fix s x assume s: "ct_inv s" and x: "0 \<le> x" "x < sum_list (ct_values s)"
  let ?t = "ConstantTimePSC_ensureValid s" and ?xs = "ct_values s"
  have t: "ct_inv ?t" "ct_isValid ?t" "ct_values ?t = ?xs" using ct_ensureValid_ok[OF s] by auto
  let ?i = "ct_indexBySum ?t ! nat x"
  have i: "0 \<le> ?i" "?i < int (length ?xs)" "psum ?xs (nat ?i) \<le> x" "x < psum ?xs (nat ?i + 1)"
    and at: "js_at (ct_indexBySum ?t) x = Some ?i"
    using t x by (auto simp: ct_inv_def ct_good_def js_at_def)
  have "(if ?i > 0 then ct_prefixSum ?t ! nat (?i - 1) else 0) = psum ?xs (nat ?i)"
  proof (cases "?i > 0")
    case True
    then have "Suc (nat (?i - 1)) = nat ?i" "nat (?i - 1) < length ?xs" using i(1,2) by linarith+
    with True t show ?thesis by (auto simp: ct_inv_def ct_good_def)
  next
    case False
    then show ?thesis using i(1) by simp
  qed
  with i at show "locates (ct_values s) x (fst (ConstantTimePSC_getIndexOf x s))"
    by (simp add: ConstantTimePSC_getIndexOf_def Let_def locates_def)
qed (auto simp: ct_inv_def)

subsection \<open>Properties\<close>

text \<open>
  C3. The two prefix-sum structures are interchangeable. Start both on the same non-negative
  32-bit values and run any sequence of insertions, removals, updates and (cache-filling)
  queries whose arguments are in range; as long as the values then sum to less than
  \<open>2 ^ 32\<close>, no operation throws, both hold the values the plain list would hold, and they give
  the same, right answers: the total, the sum of the first \<open>c\<close> values, and for \<open>getIndexOf(x)\<close>
  the index of the value that covers \<open>x\<close> with the remainder.
\<close>

theorem prefix_sum_computers_agree:
  assumes "\<forall>v\<in>set xs. 0 \<le> v \<and> v < 2 ^ 32" and "ps_ops_ok ops xs"
    and "sum_list (foldl (\<lambda>ys op. ps_spec op ys) xs ops) < 2 ^ 32"
    and "0 \<le> c" and "c \<le> int (length (foldl (\<lambda>ys op. ps_spec op ys) xs ops))" and "c < 2 ^ 31"
    and "0 \<le> x" and "x < sum_list (foldl (\<lambda>ys op. ps_spec op ys) xs ops)"
  shows "\<exists>p t. let ys = foldl (\<lambda>ys op. ps_spec op ys) xs ops in
     foldl (\<lambda>acc op. bindR acc (psc_step op)) (Inr (PrefixSumComputer_new xs)) ops = Inr p \<and>
     foldl (\<lambda>acc op. bindR acc (ct_step op)) (Inr (ConstantTimePSC_new xs)) ops = Inr t \<and>
     psc_values p = ys \<and> ct_values t = ys \<and>
     fst (PrefixSumComputer_getTotalSum p) = Some (sum_list ys) \<and> fst (ConstantTimePSC_getTotalSum t) = sum_list ys \<and>
     fst (PrefixSumComputer_getPrefixSum (c - 1) p) = Some (sum_list (take (nat c) ys)) \<and>
     fst (ConstantTimePSC_getPrefixSum c t) = Some (sum_list (take (nat c) ys)) \<and>
     fst (PrefixSumComputer_getIndexOf x p) = fst (ConstantTimePSC_getIndexOf x t) \<and>
     locates ys x (fst (ConstantTimePSC_getIndexOf x t))"
proof -
  let ?ys = "foldl (\<lambda>ys op. ps_spec op ys) xs ops"
  have p0: "psc_inv (PrefixSumComputer_new xs)" and v0: "psc_values (PrefixSumComputer_new xs) = xs"
    using assms(1) by (auto simp: psc_inv_def PrefixSumComputer_new_def ta_new_def)
  have t0: "ct_inv (ConstantTimePSC_new xs)" and w0: "ct_values (ConstantTimePSC_new xs) = xs"
    using assms(1) by (auto simp: ct_inv_def ct_good_def ConstantTimePSC_new_def)
  obtain p where p: "foldl (\<lambda>acc op. bindR acc (psc_step op)) (Inr (PrefixSumComputer_new xs)) ops = Inr p"
    "psc_inv p" "psc_values p = ?ys" using psc.run_ok[OF p0, of ops] assms(2) v0 by auto
  obtain t where t: "foldl (\<lambda>acc op. bindR acc (ct_step op)) (Inr (ConstantTimePSC_new xs)) ops = Inr t"
    "ct_inv t" "ct_values t = ?ys" using ctp.run_ok[OF t0, of ops] assms(2) w0 by auto
  have loc: "locates ?ys x (fst (ConstantTimePSC_getIndexOf x t))"
    using ctp.index_ok[OF t(2), of x] t(3) assms(3,7,8) by simp
  have eq: "fst (PrefixSumComputer_getIndexOf x p) = fst (ConstantTimePSC_getIndexOf x t)"
    using psc.index_determined[OF p(2), of x] p(3) loc assms(3,7,8) by simp
  show ?thesis
    using p t loc eq psc.total_ok[OF p(2)] ctp.total_ok[OF t(2)] psc.prefix_ok[OF p(2), of c] ctp.prefix_ok[OF t(2), of c]
      assms(3-6)
    by (intro exI[of _ p] exI[of _ t]) (simp add: Let_def)
qed

theorem prefix_sum_computers_agree_witness:
  "\<exists>p t. foldl (\<lambda>acc op. bindR acc (psc_step op)) (Inr (PrefixSumComputer_new [2, 0, 3]))
          [PTotal, PSet 0 1, PIndexOf 2, PInsert 1 [4], PRemove 3 1] = Inr p \<and>
        foldl (\<lambda>acc op. bindR acc (ct_step op)) (Inr (ConstantTimePSC_new [2, 0, 3]))
          [PTotal, PSet 0 1, PIndexOf 2, PInsert 1 [4], PRemove 3 1] = Inr t \<and>
        fst (PrefixSumComputer_getIndexOf 3 p) = fst (ConstantTimePSC_getIndexOf 3 t)"
proof -
  let ?ops = "[PTotal, PSet 0 1, PIndexOf 2, PInsert 1 [4], PRemove 3 1]"
  have ys: "foldl (\<lambda>ys op. ps_spec op ys) [2, 0, 3] ?ops = [1, 4, 0]" by simp
  have "ps_ops_ok ?ops [2, 0, 3]" by simp
  from prefix_sum_computers_agree[OF _ this, of 0 3] ys show ?thesis by (auto simp: Let_def)
qed

text \<open>
  \<open>toUint32\<close> is the identity below \<open>2 ^ 31\<close>, but for the upper half of the unsigned range it
  returns the negative number \<open>v - 2 ^ 32\<close>, because \<open>v | 0\<close> is a signed conversion.
\<close>

theorem toUint32_upper_half:
  "(0 \<le> v \<and> v < 2 ^ 31 \<longrightarrow> toUint32 v = v) \<and>
   (2 ^ 31 \<le> v \<and> v < 2 ^ 32 \<longrightarrow> toUint32 v = v - 2 ^ 32 \<and> toUint32 v < 0)"
proof -
  have "(v + 2 ^ 31) mod 2 ^ 32 = v - 2 ^ 31" if "2 ^ 31 \<le> v" "v < 2 ^ 32" for v :: int
    using that by (simp add: mod_pos_pos_trivial mod_pos_geq)
  then show ?thesis by (auto simp: toUint32_small toUint32_def toInt32_def)
qed

theorem toUint32_upper_half_witness: "toUint32 2147483648 = - 2147483648"
  using toUint32_upper_half[of 2147483648] by simp

end
