(* ===== verification/FoldingRegions.thy ===== *)
theory FoldingRegions
  imports Prelude "HOL-Library.Word"
begin

text \<open>
  The store of folding regions, \<^verbatim>\<open>vs/editor/contrib/folding/browser/foldingRanges.ts\<close>.

  \<open>FoldingRegions\<close> keeps the start and end lines of the regions in two \<open>Uint32Array\<close>s, here
  lists of 32-bit words; the lines are the low 24 bits, and the high bytes of the two arrays
  hold the low and the high byte of the index of the parent region once
  \<open>ensureParentIndices\<close> has run. Collapsed states and sources are bit fields, also over 32-bit
  words. \<open>sanitizeAndMerge\<close> merges the regions of a provider with the ones of the user.

  An index argument is a position of the arrays and hence a natural number; reads beyond the
  end give \<open>undefined\<close>, which the bit operators of the language take as 0. A method that may throw
  after it has changed the object returns the changed object beside its result.
\<close>

unbundle bit_operations_syntax

subsection \<open>Bit fields\<close>

record bit_field =
  bf_states :: "32 word list"

text \<open>A read of a \<open>Uint32Array\<close> as an operand of a bit operator, and a store into it.\<close>

definition u32_at :: "32 word list \<Rightarrow> nat \<Rightarrow> 32 word" where
  "u32_at ws i = (if i < length ws then ws ! i else 0)"

definition BitField_new :: "nat \<Rightarrow> bit_field" where
  "BitField_new sz = \<lparr>bf_states = replicate ((sz + 31) div 32) 0\<rparr>"

definition BitField_get :: "bit_field \<Rightarrow> nat \<Rightarrow> bool" where
  "BitField_get b index =
     (let arrayIndex = index div 32; bit = index mod 32
      in u32_at (bf_states b) arrayIndex AND push_bit bit 1 \<noteq> 0)"

definition BitField_set :: "nat \<Rightarrow> bool \<Rightarrow> bit_field \<Rightarrow> bit_field" where
  "BitField_set index newState b =
     (let arrayIndex = index div 32; bit = index mod 32; value = u32_at (bf_states b) arrayIndex
      in if newState then b\<lparr>bf_states := (bf_states b)[arrayIndex := value OR push_bit bit 1]\<rparr>
         else b\<lparr>bf_states := (bf_states b)[arrayIndex := value AND NOT (push_bit bit 1)]\<rparr>)"

subsection \<open>Regions\<close>

datatype fold_source = FoldSource_provider | FoldSource_userDefined | FoldSource_recovered

record fold_range =
  fold_startLineNumber :: int
  fold_endLineNumber :: int
  fold_type :: "string option"
  fold_isCollapsed :: bool
  fold_source :: fold_source

definition MAX_FOLDING_REGIONS :: nat where
  "MAX_FOLDING_REGIONS = 0xFFFF"

definition MAX_LINE_NUMBER :: "32 word" where
  "MAX_LINE_NUMBER = 0xFFFFFF"

definition MASK_INDENT :: "32 word" where
  "MASK_INDENT = 0xFF000000"

record folding_regions =
  fr_startIndexes :: "32 word list"
  fr_endIndexes :: "32 word list"
  fr_collapseStates :: bit_field
  fr_userDefinedStates :: bit_field
  fr_recoveredStates :: bit_field
  fr_parentsComputed :: bool
  fr_types :: "string option list option"

definition FoldingRegions_new ::
    "32 word list \<Rightarrow> 32 word list \<Rightarrow> string option list option \<Rightarrow> folding_regions result" where
  "FoldingRegions_new startIndexes endIndexes types =
     (if length startIndexes \<noteq> length endIndexes \<or> length startIndexes > MAX_FOLDING_REGIONS
      then Inl JsError
      else Inr \<lparr>fr_startIndexes = startIndexes, fr_endIndexes = endIndexes,
                fr_collapseStates = BitField_new (length startIndexes),
                fr_userDefinedStates = BitField_new (length startIndexes),
                fr_recoveredStates = BitField_new (length startIndexes),
                fr_parentsComputed = False, fr_types = types\<rparr>)"

definition FoldingRegions_length :: "folding_regions \<Rightarrow> nat" where
  "FoldingRegions_length r = length (fr_startIndexes r)"

definition FoldingRegions_getStartLineNumber :: "folding_regions \<Rightarrow> nat \<Rightarrow> int" where
  "FoldingRegions_getStartLineNumber r index = uint (u32_at (fr_startIndexes r) index AND MAX_LINE_NUMBER)"

definition FoldingRegions_getEndLineNumber :: "folding_regions \<Rightarrow> nat \<Rightarrow> int" where
  "FoldingRegions_getEndLineNumber r index = uint (u32_at (fr_endIndexes r) index AND MAX_LINE_NUMBER)"

definition FoldingRegions_getType :: "folding_regions \<Rightarrow> nat \<Rightarrow> string option" where
  "FoldingRegions_getType r index =
     (case fr_types r of None \<Rightarrow> None
      | Some types \<Rightarrow> (if index < length types then types ! index else None))"

definition FoldingRegions_hasTypes :: "folding_regions \<Rightarrow> bool" where
  "FoldingRegions_hasTypes r = (fr_types r \<noteq> None)"

definition FoldingRegions_isCollapsed :: "folding_regions \<Rightarrow> nat \<Rightarrow> bool" where
  "FoldingRegions_isCollapsed r index = BitField_get (fr_collapseStates r) index"

definition FoldingRegions_setCollapsed :: "nat \<Rightarrow> bool \<Rightarrow> folding_regions \<Rightarrow> folding_regions" where
  "FoldingRegions_setCollapsed index newState r =
     r\<lparr>fr_collapseStates := BitField_set index newState (fr_collapseStates r)\<rparr>"

definition FoldingRegions_isUserDefined :: "folding_regions \<Rightarrow> nat \<Rightarrow> bool" where
  "FoldingRegions_isUserDefined r index = BitField_get (fr_userDefinedStates r) index"

definition FoldingRegions_setUserDefined :: "nat \<Rightarrow> bool \<Rightarrow> folding_regions \<Rightarrow> folding_regions" where
  "FoldingRegions_setUserDefined index newState r =
     r\<lparr>fr_userDefinedStates := BitField_set index newState (fr_userDefinedStates r)\<rparr>"

definition FoldingRegions_isRecovered :: "folding_regions \<Rightarrow> nat \<Rightarrow> bool" where
  "FoldingRegions_isRecovered r index = BitField_get (fr_recoveredStates r) index"

definition FoldingRegions_setRecovered :: "nat \<Rightarrow> bool \<Rightarrow> folding_regions \<Rightarrow> folding_regions" where
  "FoldingRegions_setRecovered index newState r =
     r\<lparr>fr_recoveredStates := BitField_set index newState (fr_recoveredStates r)\<rparr>"

definition FoldingRegions_getSource :: "folding_regions \<Rightarrow> nat \<Rightarrow> fold_source" where
  "FoldingRegions_getSource r index =
     (if FoldingRegions_isUserDefined r index then FoldSource_userDefined
      else if FoldingRegions_isRecovered r index then FoldSource_recovered
      else FoldSource_provider)"

definition FoldingRegions_setSource :: "nat \<Rightarrow> fold_source \<Rightarrow> folding_regions \<Rightarrow> folding_regions" where
  "FoldingRegions_setSource index source r =
     (case source of
        FoldSource_userDefined \<Rightarrow>
          FoldingRegions_setRecovered index False (FoldingRegions_setUserDefined index True r)
      | FoldSource_recovered \<Rightarrow>
          FoldingRegions_setRecovered index True (FoldingRegions_setUserDefined index False r)
      | FoldSource_provider \<Rightarrow>
          FoldingRegions_setRecovered index False (FoldingRegions_setUserDefined index False r))"

primrec setCollapsedAllOfType_loop ::
    "string option list \<Rightarrow> nat \<Rightarrow> string \<Rightarrow> bool \<Rightarrow> bool \<times> folding_regions \<Rightarrow> bool \<times> folding_regions" where
  "setCollapsedAllOfType_loop [] i ty newState acc = acc"
| "setCollapsedAllOfType_loop (t # ts) i ty newState acc =
     setCollapsedAllOfType_loop ts (i + 1) ty newState
       (if t = Some ty then (True, FoldingRegions_setCollapsed i newState (snd acc)) else acc)"

definition FoldingRegions_setCollapsedAllOfType ::
    "string \<Rightarrow> bool \<Rightarrow> folding_regions \<Rightarrow> bool \<times> folding_regions" where
  "FoldingRegions_setCollapsedAllOfType ty newState r =
     (case fr_types r of None \<Rightarrow> (False, r)
      | Some types \<Rightarrow> setCollapsedAllOfType_loop types 0 ty newState (False, r))"

subsection \<open>Parents\<close>

text \<open>
  The loop of \<open>ensureParentIndices\<close> over the indices \<open>is\<close>. The head of \<open>parentIndexes\<close> is the
  last element of the array of the code. A throw leaves the entries before \<open>i\<close> packed.
\<close>

definition isInsideLast :: "folding_regions \<Rightarrow> int \<Rightarrow> int \<Rightarrow> nat \<Rightarrow> bool" where
  "isInsideLast r startLineNumber endLineNumber index =
     (FoldingRegions_getStartLineNumber r index \<le> startLineNumber \<and>
      FoldingRegions_getEndLineNumber r index \<ge> endLineNumber)"

primrec ensureParentIndices_loop ::
    "nat list \<Rightarrow> nat list \<Rightarrow> folding_regions \<Rightarrow> folding_regions \<times> unit result" where
  "ensureParentIndices_loop [] parentIndexes r = (r, Inr ())"
| "ensureParentIndices_loop (i # is) parentIndexes r =
     (let startLineNumber = fr_startIndexes r ! i; endLineNumber = fr_endIndexes r ! i
      in if startLineNumber > MAX_LINE_NUMBER \<or> endLineNumber > MAX_LINE_NUMBER then (r, Inl JsError)
         else
           let parentIndexes = dropWhile (\<lambda>p. \<not> isInsideLast r (uint startLineNumber) (uint endLineNumber) p) parentIndexes;
               parentIndex = (case parentIndexes of [] \<Rightarrow> - 1 | p # _ \<Rightarrow> word_of_nat p)
           in ensureParentIndices_loop is (i # parentIndexes)
                (r\<lparr>fr_startIndexes := (fr_startIndexes r)[i := startLineNumber + push_bit 24 (parentIndex AND 0xFF)],
                   fr_endIndexes := (fr_endIndexes r)[i := endLineNumber + push_bit 16 (parentIndex AND 0xFF00)]\<rparr>))"

definition ensureParentIndices :: "folding_regions \<Rightarrow> folding_regions \<times> unit result" where
  "ensureParentIndices r =
     (if fr_parentsComputed r then (r, Inr ())
      else ensureParentIndices_loop [0..<length (fr_startIndexes r)] [] (r\<lparr>fr_parentsComputed := True\<rparr>))"

definition packedParent :: "folding_regions \<Rightarrow> nat \<Rightarrow> int" where
  "packedParent r index =
     (let parent = uint (drop_bit 24 (u32_at (fr_startIndexes r) index AND MASK_INDENT)) +
                   uint (drop_bit 16 (u32_at (fr_endIndexes r) index AND MASK_INDENT))
      in if parent = int MAX_FOLDING_REGIONS then - 1 else parent)"

definition FoldingRegions_getParentIndex :: "folding_regions \<Rightarrow> nat \<Rightarrow> folding_regions \<times> int result" where
  "FoldingRegions_getParentIndex r index =
     (case ensureParentIndices r of
        (r', Inl e) \<Rightarrow> (r', Inl e)
      | (r', Inr _) \<Rightarrow> (r', Inr (packedParent r' index)))"

subsection \<open>Lookup\<close>

definition FoldingRegions_contains :: "folding_regions \<Rightarrow> nat \<Rightarrow> int \<Rightarrow> bool" where
  "FoldingRegions_contains r index line =
     (FoldingRegions_getStartLineNumber r index \<le> line \<and> FoldingRegions_getEndLineNumber r index \<ge> line)"

function FoldingRegions_findIndex_loop :: "folding_regions \<Rightarrow> int \<Rightarrow> nat \<Rightarrow> nat \<Rightarrow> nat" where
  "FoldingRegions_findIndex_loop r line low high =
     (if low < high then
        let mid = (low + high) div 2
        in if line < FoldingRegions_getStartLineNumber r mid then FoldingRegions_findIndex_loop r line low mid
           else FoldingRegions_findIndex_loop r line (mid + 1) high
      else low)"
  by pat_completeness auto
termination
  by (relation "measure (\<lambda>(r, line, low, high). high - low)") auto

declare FoldingRegions_findIndex_loop.simps [simp del]

definition FoldingRegions_findIndex :: "folding_regions \<Rightarrow> int \<Rightarrow> int" where
  "FoldingRegions_findIndex r line =
     (let high = length (fr_startIndexes r)
      in if high = 0 then - 1 else int (FoldingRegions_findIndex_loop r line 0 high) - 1)"

text \<open>
  The walk of \<open>findRange\<close> to the parents, a \<open>while (index !== -1)\<close>. Nothing in the code bounds it:
  \<open>None\<close> is a loop that never ends.
\<close>

partial_function (option) findRange_loop ::
    "folding_regions \<Rightarrow> int \<Rightarrow> int \<Rightarrow> (folding_regions \<times> int result) option" where
  "findRange_loop r line index =
     (if index \<noteq> - 1 then
        if FoldingRegions_contains r (nat index) line then Some (r, Inr index)
        else (case FoldingRegions_getParentIndex r (nat index) of
                (r', Inl e) \<Rightarrow> Some (r', Inl e)
              | (r', Inr parent) \<Rightarrow> findRange_loop r' line parent)
      else Some (r, Inr (- 1)))"

definition FoldingRegions_findRange :: "folding_regions \<Rightarrow> int \<Rightarrow> (folding_regions \<times> int result) option" where
  "FoldingRegions_findRange r line =
     (let index = FoldingRegions_findIndex r line
      in if index \<ge> 0 then
           if FoldingRegions_getEndLineNumber r (nat index) \<ge> line then Some (r, Inr index)
           else (case FoldingRegions_getParentIndex r (nat index) of
                   (r', Inl e) \<Rightarrow> Some (r', Inl e)
                 | (r', Inr parent) \<Rightarrow> findRange_loop r' line parent)
         else Some (r, Inr (- 1)))"

subsection \<open>Conversion from and to fold ranges\<close>

definition FoldingRegions_toFoldRange :: "folding_regions \<Rightarrow> nat \<Rightarrow> fold_range" where
  "FoldingRegions_toFoldRange r index =
     \<lparr>fold_startLineNumber = uint (u32_at (fr_startIndexes r) index AND MAX_LINE_NUMBER),
      fold_endLineNumber = uint (u32_at (fr_endIndexes r) index AND MAX_LINE_NUMBER),
      fold_type = FoldingRegions_getType r index,
      fold_isCollapsed = FoldingRegions_isCollapsed r index,
      fold_source = FoldingRegions_getSource r index\<rparr>"

primrec fromFoldRanges_states :: "fold_range list \<Rightarrow> nat \<Rightarrow> folding_regions \<Rightarrow> folding_regions" where
  "fromFoldRanges_states [] i regions = regions"
| "fromFoldRanges_states (x # xs) i regions =
     fromFoldRanges_states xs (i + 1)
       (FoldingRegions_setSource i (fold_source x)
         (if fold_isCollapsed x then FoldingRegions_setCollapsed i True regions else regions))"

definition FoldingRegions_fromFoldRanges :: "fold_range list \<Rightarrow> folding_regions result" where
  "FoldingRegions_fromFoldRanges ranges =
     (let startIndexes = map (\<lambda>x. word_of_int (fold_startLineNumber x)) ranges;
          endIndexes = map (\<lambda>x. word_of_int (fold_endLineNumber x)) ranges;
          gotTypes = list_ex (\<lambda>x. fold_type x \<noteq> None \<and> fold_type x \<noteq> Some []) ranges;
          types = (if gotTypes then Some (map fold_type ranges) else None)
      in bindR (FoldingRegions_new startIndexes endIndexes types)
           (\<lambda>regions. Inr (fromFoldRanges_states ranges 0 regions)))"

subsection \<open>Merging\<close>

text \<open>An argument of \<open>sanitizeAndMerge\<close>: \<open>FoldingRegions | FoldRange[]\<close>.\<close>

datatype merge_input = MergeRegions folding_regions | MergeRanges "fold_range list"

fun getIndexedFunction :: "merge_input \<Rightarrow> fold_range list" where
  "getIndexedFunction (MergeRanges r) = r"
| "getIndexedFunction (MergeRegions r) = map (FoldingRegions_toFoldRange r) [0..<FoldingRegions_length r]"

text \<open>
  The scan ahead in the second list for a conflict with \<open>nextA\<close>; true when \<open>nextA\<close> is used.
\<close>

fun prescan :: "fold_range \<Rightarrow> fold_range list \<Rightarrow> bool" where
  "prescan nextA [] = True"
| "prescan nextA (prescanB # rest) =
     (if fold_startLineNumber prescanB > fold_endLineNumber nextA then True
      else if fold_source prescanB = FoldSource_userDefined \<and> fold_endLineNumber prescanB > fold_endLineNumber nextA then False
      else prescan nextA rest)"

text \<open>
  The state of the main loop besides the two positions: the stack, \<open>topStackedRange\<close>,
  \<open>prevLineNumber\<close> and \<open>resultRanges\<close>. The heads of \<open>ms_stackedRanges\<close> and \<open>ms_resultRanges\<close> are
  the elements pushed last.
\<close>

record merge_state =
  ms_stackedRanges :: "fold_range list"
  ms_topStackedRange :: "fold_range option"
  ms_prevLineNumber :: int
  ms_resultRanges :: "fold_range list"

fun pop_stacked :: "int \<Rightarrow> fold_range option \<Rightarrow> fold_range list \<Rightarrow> fold_range option \<times> fold_range list" where
  "pop_stacked startLine None st = (None, st)"
| "pop_stacked startLine (Some t) [] =
     (if fold_endLineNumber t < startLine then (None, []) else (Some t, []))"
| "pop_stacked startLine (Some t) (u # st) =
     (if fold_endLineNumber t < startLine then pop_stacked startLine (Some u) st else (Some t, u # st))"

definition merge_useRange :: "int option \<Rightarrow> fold_range \<Rightarrow> merge_state \<Rightarrow> merge_state" where
  "merge_useRange maxLineNumber useRange s =
     (let (top, st) = pop_stacked (fold_startLineNumber useRange) (ms_topStackedRange s) (ms_stackedRanges s)
      in if fold_endLineNumber useRange > fold_startLineNumber useRange
            \<and> fold_startLineNumber useRange > ms_prevLineNumber s
            \<and> (case maxLineNumber of None \<Rightarrow> True | Some m \<Rightarrow> fold_endLineNumber useRange \<le> m)
            \<and> (case top of None \<Rightarrow> True | Some t \<Rightarrow> fold_endLineNumber t \<ge> fold_endLineNumber useRange)
         then \<lparr>ms_stackedRanges = (case top of None \<Rightarrow> st | Some t \<Rightarrow> t # st),
               ms_topStackedRange = Some useRange,
               ms_prevLineNumber = fold_startLineNumber useRange,
               ms_resultRanges = useRange # ms_resultRanges s\<rparr>
         else s\<lparr>ms_topStackedRange := top, ms_stackedRanges := st\<rparr>)"

text \<open>
  The two assignments to \<open>useRange\<close> when both lists have an entry on the same line and the second
  one is not user defined: \<open>selection\<close> is \<open>SelectedLines.startsInside\<close> of the editor's selection,
  when there is one.
\<close>

definition merge_same_line ::
    "(int \<Rightarrow> int \<Rightarrow> bool) option \<Rightarrow> fold_range \<Rightarrow> fold_range \<Rightarrow> fold_range" where
  "merge_same_line selection nextA nextB =
     (if fold_source nextB = FoldSource_userDefined then nextB
      else nextA\<lparr>
        fold_isCollapsed := fold_isCollapsed nextB \<and>
          (fold_endLineNumber nextA = fold_endLineNumber nextB \<or>
           \<not> (case selection of None \<Rightarrow> False
               | Some startsInside \<Rightarrow> startsInside (fold_startLineNumber nextA + 1) (fold_endLineNumber nextA + 1))),
        fold_source := FoldSource_provider\<rparr>)"

definition merge_only_B :: "fold_range \<Rightarrow> fold_range" where
  "merge_only_B nextB =
     (if fold_isCollapsed nextB \<and> fold_source nextB = FoldSource_provider
      then nextB\<lparr>fold_source := FoldSource_recovered\<rparr> else nextB)"

text \<open>
  The main loop on the rest of the two lists. It collects what \<open>useRange\<close> is at the end of
  each round; \<open>merge_useRange\<close> is the second half of the round.
\<close>

fun sanitizeAndMerge_loop ::
    "int option \<Rightarrow> (int \<Rightarrow> int \<Rightarrow> bool) option \<Rightarrow> fold_range list \<Rightarrow> fold_range list \<Rightarrow> merge_state \<Rightarrow> merge_state" where
  "sanitizeAndMerge_loop mx sel [] [] s = s"
| "sanitizeAndMerge_loop mx sel [] (nextB # bs) s =
     sanitizeAndMerge_loop mx sel [] bs (merge_useRange mx (merge_only_B nextB) s)"
| "sanitizeAndMerge_loop mx sel (nextA # as) [] s =
     sanitizeAndMerge_loop mx sel as [] (merge_useRange mx nextA s)"
| "sanitizeAndMerge_loop mx sel (nextA # as) (nextB # bs) s =
     (if fold_startLineNumber nextA \<ge> fold_startLineNumber nextB then
        if fold_startLineNumber nextA = fold_startLineNumber nextB
        then sanitizeAndMerge_loop mx sel as bs (merge_useRange mx (merge_same_line sel nextA nextB) s)
        else sanitizeAndMerge_loop mx sel (nextA # as) bs (merge_useRange mx (merge_only_B nextB) s)
      else
        sanitizeAndMerge_loop mx sel as (nextB # bs)
          (if prescan nextA (nextB # bs) then merge_useRange mx nextA s else s))"

definition sanitizeAndMerge ::
    "merge_input \<Rightarrow> merge_input \<Rightarrow> int option \<Rightarrow> (int \<Rightarrow> int \<Rightarrow> bool) option \<Rightarrow> fold_range list" where
  "sanitizeAndMerge rangesA rangesB maxLineNumber selection =
     rev (ms_resultRanges
       (sanitizeAndMerge_loop maxLineNumber selection (getIndexedFunction rangesA) (getIndexedFunction rangesB)
          \<lparr>ms_stackedRanges = [], ms_topStackedRange = None, ms_prevLineNumber = 0, ms_resultRanges = []\<rparr>))"

subsection \<open>Region handles\<close>

record folding_region =
  fre_ranges :: folding_regions
  fre_index :: nat

definition FoldingRegions_toRegion :: "folding_regions \<Rightarrow> nat \<Rightarrow> folding_region" where
  "FoldingRegions_toRegion r index = \<lparr>fre_ranges = r, fre_index = index\<rparr>"

definition FoldingRegion_startLineNumber :: "folding_region \<Rightarrow> int" where
  "FoldingRegion_startLineNumber g = FoldingRegions_getStartLineNumber (fre_ranges g) (fre_index g)"

definition FoldingRegion_endLineNumber :: "folding_region \<Rightarrow> int" where
  "FoldingRegion_endLineNumber g = FoldingRegions_getEndLineNumber (fre_ranges g) (fre_index g)"

definition FoldingRegion_parentIndex :: "folding_region \<Rightarrow> folding_regions \<times> int result" where
  "FoldingRegion_parentIndex g = FoldingRegions_getParentIndex (fre_ranges g) (fre_index g)"

definition FoldingRegion_isCollapsed :: "folding_region \<Rightarrow> bool" where
  "FoldingRegion_isCollapsed g = FoldingRegions_isCollapsed (fre_ranges g) (fre_index g)"

definition FoldingRegion_containedBy :: "folding_region \<Rightarrow> int \<Rightarrow> int \<Rightarrow> bool" where
  "FoldingRegion_containedBy g startLineNumber endLineNumber =
     (startLineNumber \<le> FoldingRegion_startLineNumber g \<and> endLineNumber \<ge> FoldingRegion_endLineNumber g)"

definition FoldingRegion_containsLine :: "folding_region \<Rightarrow> int \<Rightarrow> bool" where
  "FoldingRegion_containsLine g lineNumber =
     (FoldingRegion_startLineNumber g \<le> lineNumber \<and> lineNumber \<le> FoldingRegion_endLineNumber g)"

definition FoldingRegion_hidesLine :: "folding_region \<Rightarrow> int \<Rightarrow> bool" where
  "FoldingRegion_hidesLine g lineNumber =
     (FoldingRegion_startLineNumber g < lineNumber \<and> lineNumber \<le> FoldingRegion_endLineNumber g)"


section \<open>Bit fields behave like arrays of booleans\<close>

named_theorems fold_view \<open>reads of the folding arrays after a write\<close>

lemma BitField_get_bit: "BitField_get b i = bit (u32_at (bf_states b) (i div 32)) (i mod 32)"
  by (simp add: BitField_get_def Let_def bit_iff_and_push_bit_not_eq_0)

lemma u32_at_update: "k < length ws \<Longrightarrow> u32_at (ws[k := w]) j = (if j = k then w else u32_at ws j)"
  by (simp add: u32_at_def)

lemma length_BitField_set [simp]: "length (bf_states (BitField_set i v b)) = length (bf_states b)"
  by (simp add: BitField_set_def Let_def)

lemma same_word_bit: "(i::nat) div 32 = j div 32 \<Longrightarrow> i mod 32 = j mod 32 \<Longrightarrow> i = j"
  by (metis div_mult_mod_eq)

lemma BitField_get_set [fold_view]:
  assumes "i div 32 < length (bf_states b)"
  shows "BitField_get (BitField_set i v b) j = (if j = i then v else BitField_get b j)"
  using assms same_word_bit[of i j]
  by (auto simp: BitField_get_bit BitField_set_def Let_def u32_at_update bit_simps)

lemma BitField_get_new [fold_view]: "BitField_get (BitField_new n) i = False"
  by (simp add: BitField_get_bit BitField_new_def u32_at_def)

lemma length_BitField_new: "i < n \<Longrightarrow> i div 32 < length (bf_states (BitField_new n))"
  by (simp add: BitField_new_def)

text \<open>Every state array of the object has a bit for every region.\<close>

definition states_fit :: "folding_regions \<Rightarrow> bool" where
  "states_fit r =
     (\<forall>i < FoldingRegions_length r.
        i div 32 < length (bf_states (fr_collapseStates r)) \<and>
        i div 32 < length (bf_states (fr_userDefinedStates r)) \<and>
        i div 32 < length (bf_states (fr_recoveredStates r)))"

lemma states_fit_set [simp]:
  "states_fit (FoldingRegions_setCollapsed i c r) = states_fit r"
  "states_fit (FoldingRegions_setSource i s r) = states_fit r"
  by (auto simp: states_fit_def FoldingRegions_length_def FoldingRegions_setCollapsed_def
      FoldingRegions_setSource_def FoldingRegions_setRecovered_def FoldingRegions_setUserDefined_def
      split: fold_source.splits)

lemma set_lines [simp]:
  "fr_startIndexes (FoldingRegions_setCollapsed i c r) = fr_startIndexes r"
  "fr_startIndexes (FoldingRegions_setSource i s r) = fr_startIndexes r"
  "fr_endIndexes (FoldingRegions_setCollapsed i c r) = fr_endIndexes r"
  "fr_endIndexes (FoldingRegions_setSource i s r) = fr_endIndexes r"
  "fr_types (FoldingRegions_setCollapsed i c r) = fr_types r"
  "fr_types (FoldingRegions_setSource i s r) = fr_types r"
  "fr_parentsComputed (FoldingRegions_setCollapsed i c r) = fr_parentsComputed r"
  "fr_parentsComputed (FoldingRegions_setSource i s r) = fr_parentsComputed r"
  by (auto simp: FoldingRegions_setCollapsed_def
      FoldingRegions_setSource_def FoldingRegions_setRecovered_def FoldingRegions_setUserDefined_def
      split: fold_source.splits)

lemma isCollapsed_setCollapsed [fold_view]:
  "states_fit r \<Longrightarrow> i < FoldingRegions_length r \<Longrightarrow>
   FoldingRegions_isCollapsed (FoldingRegions_setCollapsed i c r) j =
     (if j = i then c else FoldingRegions_isCollapsed r j)"
  by (simp add: FoldingRegions_isCollapsed_def FoldingRegions_setCollapsed_def BitField_get_set states_fit_def)

lemma isCollapsed_setSource [fold_view]:
  "FoldingRegions_isCollapsed (FoldingRegions_setSource i s r) j = FoldingRegions_isCollapsed r j"
  by (simp add: FoldingRegions_isCollapsed_def FoldingRegions_setSource_def
      FoldingRegions_setRecovered_def FoldingRegions_setUserDefined_def split: fold_source.splits)

lemma getSource_setCollapsed [fold_view]:
  "FoldingRegions_getSource (FoldingRegions_setCollapsed i c r) j = FoldingRegions_getSource r j"
  by (simp add: FoldingRegions_getSource_def FoldingRegions_setCollapsed_def
      FoldingRegions_isUserDefined_def FoldingRegions_isRecovered_def)

lemma getSource_setSource [fold_view]:
  "states_fit r \<Longrightarrow> i < FoldingRegions_length r \<Longrightarrow>
   FoldingRegions_getSource (FoldingRegions_setSource i s r) j =
     (if j = i then s else FoldingRegions_getSource r j)"
  by (cases s) (auto simp: FoldingRegions_getSource_def FoldingRegions_setSource_def
      FoldingRegions_setRecovered_def FoldingRegions_setUserDefined_def BitField_get_set states_fit_def
      FoldingRegions_isUserDefined_def FoldingRegions_isRecovered_def)

section \<open>Building the store from fold ranges and reading it back\<close>

lemma FoldingRegions_length_set [simp]:
  "FoldingRegions_length (FoldingRegions_setCollapsed i c r) = FoldingRegions_length r"
  "FoldingRegions_length (FoldingRegions_setSource i s r) = FoldingRegions_length r"
  by (simp_all add: FoldingRegions_length_def)

lemma states_keep_lines [simp]:
  "fr_startIndexes (fromFoldRanges_states xs i r) = fr_startIndexes r"
  "fr_endIndexes (fromFoldRanges_states xs i r) = fr_endIndexes r"
  "fr_types (fromFoldRanges_states xs i r) = fr_types r"
  "fr_parentsComputed (fromFoldRanges_states xs i r) = fr_parentsComputed r"
  by (induction xs arbitrary: i r) auto

lemma states_read:
  assumes "states_fit r" "i + length xs \<le> FoldingRegions_length r"
    and "\<forall>j. i \<le> j \<longrightarrow> \<not> FoldingRegions_isCollapsed r j"
  shows "FoldingRegions_isCollapsed (fromFoldRanges_states xs i r) j =
           (if i \<le> j \<and> j < i + length xs then fold_isCollapsed (xs ! (j - i)) else FoldingRegions_isCollapsed r j)
       \<and> FoldingRegions_getSource (fromFoldRanges_states xs i r) j =
           (if i \<le> j \<and> j < i + length xs then fold_source (xs ! (j - i)) else FoldingRegions_getSource r j)"
  using assms
proof (induction xs arbitrary: i r)
  case Nil
  then show ?case by auto
next
  case (Cons x xs)
  let ?r = "FoldingRegions_setSource i (fold_source x)
         (if fold_isCollapsed x then FoldingRegions_setCollapsed i True r else r)"
  have fit: "states_fit ?r" "FoldingRegions_length ?r = FoldingRegions_length r"
    using Cons.prems by auto
  have i: "i < FoldingRegions_length r" using Cons.prems by simp
  have c: "FoldingRegions_isCollapsed ?r j = (if j = i then fold_isCollapsed x else FoldingRegions_isCollapsed r j)"
    and s: "FoldingRegions_getSource ?r j = (if j = i then fold_source x else FoldingRegions_getSource r j)" for j
    using Cons.prems i by (auto simp: fold_view)
  have IH: "FoldingRegions_isCollapsed (fromFoldRanges_states xs (i + 1) ?r) j =
           (if i + 1 \<le> j \<and> j < i + 1 + length xs then fold_isCollapsed (xs ! (j - (i + 1))) else FoldingRegions_isCollapsed ?r j)
       \<and> FoldingRegions_getSource (fromFoldRanges_states xs (i + 1) ?r) j =
           (if i + 1 \<le> j \<and> j < i + 1 + length xs then fold_source (xs ! (j - (i + 1))) else FoldingRegions_getSource ?r j)"
    using Cons.prems by (intro Cons.IH) (auto simp: fit c simp del: FoldingRegions_length_set)
  have n: "i < j \<Longrightarrow> (x # xs) ! (j - i) = xs ! (j - (i + 1))"
    by (simp add: nth_Cons')
  show ?case
    unfolding fromFoldRanges_states.simps using IH n by (auto simp: c s)
qed

lemma line_word: "0 \<le> k \<Longrightarrow> k \<le> 0xFFFFFF \<Longrightarrow> uint (word_of_int k AND MAX_LINE_NUMBER) = k"
proof -
  assume k: "0 \<le> k" "k \<le> 0xFFFFFF"
  have "MAX_LINE_NUMBER = mask 24" by (simp add: MAX_LINE_NUMBER_def mask_eq_exp_minus_1)
  then have "uint ((word_of_int k :: 32 word) AND MAX_LINE_NUMBER) = uint (take_bit 24 (word_of_int k :: 32 word))"
    by (simp only: take_bit_eq_mask)
  also have "\<dots> = uint (word_of_int k :: 32 word) mod 2 ^ 24"
    by (metis unsigned_take_bit_eq take_bit_eq_mod)
  also have "\<dots> = k" using k by (simp add: uint_word_of_int)
  finally show ?thesis .
qed

text \<open>What \<open>fromFoldRanges\<close> needs of its argument.\<close>

definition storable :: "fold_range list \<Rightarrow> bool" where
  "storable xs =
     (length xs \<le> MAX_FOLDING_REGIONS \<and>
      list_all (\<lambda>x. 0 \<le> fold_startLineNumber x \<and> fold_startLineNumber x \<le> 0xFFFFFF \<and>
                    0 \<le> fold_endLineNumber x \<and> fold_endLineNumber x \<le> 0xFFFFFF \<and> fold_type x \<noteq> Some []) xs)"

definition new_regions :: "fold_range list \<Rightarrow> folding_regions" where
  "new_regions xs =
     \<lparr>fr_startIndexes = map (\<lambda>x. word_of_int (fold_startLineNumber x)) xs,
      fr_endIndexes = map (\<lambda>x. word_of_int (fold_endLineNumber x)) xs,
      fr_collapseStates = BitField_new (length xs), fr_userDefinedStates = BitField_new (length xs),
      fr_recoveredStates = BitField_new (length xs), fr_parentsComputed = False,
      fr_types = (if list_ex (\<lambda>x. fold_type x \<noteq> None \<and> fold_type x \<noteq> Some []) xs
                  then Some (map fold_type xs) else None)\<rparr>"

lemma fromFoldRanges_eq:
  "length xs \<le> MAX_FOLDING_REGIONS \<Longrightarrow>
   FoldingRegions_fromFoldRanges xs = Inr (fromFoldRanges_states xs 0 (new_regions xs))"
  by (simp add: FoldingRegions_fromFoldRanges_def FoldingRegions_new_def new_regions_def Let_def)

lemma new_regions_view:
  "states_fit (new_regions xs)" "FoldingRegions_length (new_regions xs) = length xs"
  "\<not> FoldingRegions_isCollapsed (new_regions xs) j"
  by (auto simp: states_fit_def new_regions_def FoldingRegions_length_def FoldingRegions_isCollapsed_def
      BitField_get_new length_BitField_new)

lemma new_regions_type:
  "storable xs \<Longrightarrow> i < length xs \<Longrightarrow>
   FoldingRegions_getType (fromFoldRanges_states xs 0 (new_regions xs)) i = fold_type (xs ! i)"
  by (auto simp: FoldingRegions_getType_def new_regions_def storable_def list_all_iff list_ex_iff
      split: if_splits)

lemma toFoldRange_fromFoldRanges:
  assumes "storable xs" "i < length xs"
  shows "FoldingRegions_toFoldRange (fromFoldRanges_states xs 0 (new_regions xs)) i = xs ! i"
proof -
  have st: "FoldingRegions_isCollapsed (fromFoldRanges_states xs 0 (new_regions xs)) i = fold_isCollapsed (xs ! i)"
    "FoldingRegions_getSource (fromFoldRanges_states xs 0 (new_regions xs)) i = fold_source (xs ! i)"
    using states_read[of "new_regions xs" 0 xs i] assms(2) by (simp_all add: new_regions_view)
  have "0 \<le> fold_startLineNumber (xs ! i)" "fold_startLineNumber (xs ! i) \<le> 0xFFFFFF"
    "0 \<le> fold_endLineNumber (xs ! i)" "fold_endLineNumber (xs ! i) \<le> 0xFFFFFF"
    using assms by (auto simp: storable_def list_all_iff)
  then have "uint (u32_at (fr_startIndexes (new_regions xs)) i AND MAX_LINE_NUMBER) = fold_startLineNumber (xs ! i)"
    "uint (u32_at (fr_endIndexes (new_regions xs)) i AND MAX_LINE_NUMBER) = fold_endLineNumber (xs ! i)"
    using assms(2) by (simp_all add: new_regions_def u32_at_def line_word)
  then show ?thesis
    using st new_regions_type[OF assms] by (simp add: FoldingRegions_toFoldRange_def)
qed

text \<open>
  Building the store from fold ranges and reading it back gives the same ranges: at most
  65535 ranges, lines between 0 and 0xFFFFFF, and no empty type name (which is read back as no
  type when no other range has one). A list that is too long is refused with an error.
\<close>

theorem fromFoldRanges_roundtrip:
  "(storable xs \<longrightarrow>
      (\<exists>r. FoldingRegions_fromFoldRanges xs = Inr r \<and>
           map (FoldingRegions_toFoldRange r) [0..<FoldingRegions_length r] = xs)) \<and>
   (length xs > MAX_FOLDING_REGIONS \<longrightarrow> FoldingRegions_fromFoldRanges xs = Inl JsError)"
proof (intro conjI impI)
  assume s: "storable xs"
  then have "FoldingRegions_fromFoldRanges xs = Inr (fromFoldRanges_states xs 0 (new_regions xs))"
    by (simp add: fromFoldRanges_eq storable_def)
  moreover have "map (FoldingRegions_toFoldRange (fromFoldRanges_states xs 0 (new_regions xs))) [0..<length xs] = xs"
    by (rule nth_equalityI) (simp_all add: toFoldRange_fromFoldRanges[OF s])
  ultimately show "\<exists>r. FoldingRegions_fromFoldRanges xs = Inr r \<and>
         map (FoldingRegions_toFoldRange r) [0..<FoldingRegions_length r] = xs"
    by (simp add: FoldingRegions_length_def new_regions_def)
next
  assume "length xs > MAX_FOLDING_REGIONS"
  then show "FoldingRegions_fromFoldRanges xs = Inl JsError"
    by (simp add: FoldingRegions_fromFoldRanges_def FoldingRegions_new_def Let_def)
qed

definition sample_fold :: "int \<Rightarrow> int \<Rightarrow> fold_source \<Rightarrow> fold_range" where
  "sample_fold s e src =
     \<lparr>fold_startLineNumber = s, fold_endLineNumber = e, fold_type = None, fold_isCollapsed = True, fold_source = src\<rparr>"

theorem fromFoldRanges_roundtrip_witness:
  "\<exists>r. FoldingRegions_fromFoldRanges [sample_fold 1 9 FoldSource_userDefined, sample_fold 2 5 FoldSource_recovered] = Inr r \<and>
       map (FoldingRegions_toFoldRange r) [0..<FoldingRegions_length r] =
         [sample_fold 1 9 FoldSource_userDefined, sample_fold 2 5 FoldSource_recovered]"
  by (rule fromFoldRanges_roundtrip[THEN conjunct1, rule_format]) (simp add: storable_def MAX_FOLDING_REGIONS_def sample_fold_def)

section \<open>Merging gives well nested ranges\<close>

abbreviation fstart :: "fold_range \<Rightarrow> int" where
  "fstart \<equiv> fold_startLineNumber"

abbreviation fend :: "fold_range \<Rightarrow> int" where
  "fend \<equiv> fold_endLineNumber"

text \<open>
  The order the folding model relies on: starts strictly increase, and a later range begins
  after the earlier one ends or lies inside it.
\<close>

definition follows :: "fold_range \<Rightarrow> fold_range \<Rightarrow> bool" where
  "follows x y = (fstart x < fstart y \<and> (fend x < fstart y \<or> fend y \<le> fend x))"

definition valid_fold :: "int option \<Rightarrow> fold_range \<Rightarrow> bool" where
  "valid_fold mx x = (0 < fstart x \<and> fstart x < fend x \<and> (case mx of None \<Rightarrow> True | Some m \<Rightarrow> fend x \<le> m))"

definition well_nested :: "int option \<Rightarrow> fold_range list \<Rightarrow> bool" where
  "well_nested mx xs = (sorted_wrt follows xs \<and> list_all (valid_fold mx) xs)"

definition sorted_starts :: "fold_range list \<Rightarrow> bool" where
  "sorted_starts xs = sorted_wrt (\<lambda>x y. fstart x \<le> fstart y) xs"

text \<open>The ranges the rounds of the main loop settle on, in order.\<close>

fun merge_uses :: "(int \<Rightarrow> int \<Rightarrow> bool) option \<Rightarrow> fold_range list \<Rightarrow> fold_range list \<Rightarrow> fold_range list" where
  "merge_uses sel [] bs = map merge_only_B bs"
| "merge_uses sel as [] = as"
| "merge_uses sel (a # as) (b # bs) =
     (if fstart a = fstart b then merge_same_line sel a b # merge_uses sel as bs
      else if fstart a > fstart b then merge_only_B b # merge_uses sel (a # as) bs
      else if prescan a (b # bs) then a # merge_uses sel as (b # bs)
      else merge_uses sel as (b # bs))"

lemma merge_uses_Nil [simp]: "merge_uses sel as [] = as"
  by (cases as) auto

lemma sanitizeAndMerge_loop_eq:
  "sanitizeAndMerge_loop mx sel as bs s = fold (merge_useRange mx) (merge_uses sel as bs) s"
  by (induction mx sel as bs s rule: sanitizeAndMerge_loop.induct) auto

lemma merge_lines [simp]:
  "fstart (merge_only_B b) = fstart b" "fend (merge_only_B b) = fend b"
  by (simp_all add: merge_only_B_def)

lemma merge_same_line_start: "fstart a = fstart b \<Longrightarrow> fstart (merge_same_line sel a b) = fstart b"
  by (simp add: merge_same_line_def)

lemma merge_uses_bound:
  assumes "\<forall>x \<in> set as \<union> set bs. L \<le> fstart x"
  shows "\<forall>u \<in> set (merge_uses sel as bs). L \<le> fstart u"
  using assms by (induction sel as bs rule: merge_uses.induct) (auto simp: merge_same_line_start)

lemma sorted_merge_uses:
  assumes "sorted_starts as" "sorted_starts bs"
  shows "sorted_starts (merge_uses sel as bs)"
  using assms
proof (induction sel as bs rule: merge_uses.induct)
  case (1 sel bs)
  then show ?case by (simp add: sorted_starts_def sorted_wrt_map)
next
  case (2 sel v va)
  then show ?case by simp
next
  case (3 sel a as b bs)
  have A: "\<forall>x \<in> set as. fstart a \<le> fstart x" and B: "\<forall>x \<in> set bs. fstart b \<le> fstart x"
    using "3.prems" by (auto simp: sorted_starts_def)
  have tl: "sorted_starts as" "sorted_starts bs" using "3.prems" by (auto simp: sorted_starts_def)
  consider (eq) "fstart a = fstart b" | (gt) "fstart a > fstart b" | (lt) "fstart a < fstart b" by linarith
  then show ?case
  proof cases
    case eq
    then have "\<forall>u \<in> set (merge_uses sel as bs). fstart b \<le> fstart u"
      using A B by (intro merge_uses_bound) auto
    then show ?thesis using eq "3.IH"(1)[OF eq tl] by (simp add: sorted_starts_def merge_same_line_start)
  next
    case gt
    then have "\<forall>u \<in> set (merge_uses sel (a # as) bs). fstart b \<le> fstart u"
      using A B by (intro merge_uses_bound) auto
    then show ?thesis using gt "3.IH"(2) "3.prems" tl by (simp add: sorted_starts_def)
  next
    case lt
    then have "\<forall>u \<in> set (merge_uses sel as (b # bs)). fstart a \<le> fstart u"
      using A B by (intro merge_uses_bound) auto
    then show ?thesis using lt "3.IH"(3,4) "3.prems" tl by (simp add: sorted_starts_def)
  qed
qed

text \<open>
  The stack with its top in front. Nothing lies below an absent top.
\<close>

definition ms_stack :: "merge_state \<Rightarrow> fold_range list" where
  "ms_stack s = (case ms_topStackedRange s of None \<Rightarrow> [] | Some t \<Rightarrow> t # ms_stackedRanges s)"

lemma pop_stacked_dropWhile:
  assumes "pop_stacked l tp st = (tp', st')" "tp = None \<longrightarrow> st = []"
  shows "(case tp' of None \<Rightarrow> [] | Some t \<Rightarrow> t # st') =
           dropWhile (\<lambda>t. fend t < l) (case tp of None \<Rightarrow> [] | Some t \<Rightarrow> t # st)
       \<and> (tp' = None \<longrightarrow> st' = [])"
  using assms by (induction l tp st rule: pop_stacked.induct) (auto split: if_splits)

definition accepts :: "int option \<Rightarrow> fold_range \<Rightarrow> merge_state \<Rightarrow> bool" where
  "accepts mx u s =
     (fstart u < fend u \<and> ms_prevLineNumber s < fstart u \<and>
      (case mx of None \<Rightarrow> True | Some m \<Rightarrow> fend u \<le> m) \<and>
      (case dropWhile (\<lambda>t. fend t < fstart u) (ms_stack s) of [] \<Rightarrow> True | t # _ \<Rightarrow> fend u \<le> fend t))"

definition stack_ok :: "merge_state \<Rightarrow> bool" where
  "stack_ok s = (ms_topStackedRange s = None \<longrightarrow> ms_stackedRanges s = [])"

lemma merge_useRange_view:
  assumes "stack_ok s"
  shows "stack_ok (merge_useRange mx u s)"
    and "ms_stack (merge_useRange mx u s) =
           (if accepts mx u s then [u] else []) @ dropWhile (\<lambda>t. fend t < fstart u) (ms_stack s)"
    and "ms_resultRanges (merge_useRange mx u s) = (if accepts mx u s then [u] else []) @ ms_resultRanges s"
    and "ms_prevLineNumber (merge_useRange mx u s) = (if accepts mx u s then fstart u else ms_prevLineNumber s)"
proof -
  obtain tp st where p: "pop_stacked (fstart u) (ms_topStackedRange s) (ms_stackedRanges s) = (tp, st)"
    by (cases "pop_stacked (fstart u) (ms_topStackedRange s) (ms_stackedRanges s)")
  have d: "(case tp of None \<Rightarrow> [] | Some t \<Rightarrow> t # st) = dropWhile (\<lambda>t. fend t < fstart u) (ms_stack s)"
    "tp = None \<longrightarrow> st = []"
    using pop_stacked_dropWhile[OF p] assms by (auto simp: ms_stack_def stack_ok_def)
  have acc: "accepts mx u s = (fend u > fstart u \<and> fstart u > ms_prevLineNumber s
            \<and> (case mx of None \<Rightarrow> True | Some m \<Rightarrow> fend u \<le> m)
            \<and> (case tp of None \<Rightarrow> True | Some t \<Rightarrow> fend t \<ge> fend u))"
    by (auto simp: accepts_def d(1)[symmetric] split: option.splits)
  note eq = merge_useRange_def[of mx u s, unfolded p Let_def prod.case, folded acc]
  show "stack_ok (merge_useRange mx u s)"
    using d(2) by (simp add: eq stack_ok_def split: option.splits)
  show "ms_stack (merge_useRange mx u s) =
           (if accepts mx u s then [u] else []) @ dropWhile (\<lambda>t. fend t < fstart u) (ms_stack s)"
    using d(2) by (auto simp: eq ms_stack_def d(1)[symmetric, unfolded ms_stack_def] split: option.splits)
  show "ms_resultRanges (merge_useRange mx u s) = (if accepts mx u s then [u] else []) @ ms_resultRanges s"
    "ms_prevLineNumber (merge_useRange mx u s) = (if accepts mx u s then fstart u else ms_prevLineNumber s)"
    by (simp_all add: eq)
qed

text \<open>
  What holds between the rounds, for ranges in any order, and, when the ranges come
  sorted by their starts, once the last one started at line \<open>L\<close>.
\<close>

definition merge_inv :: "int option \<Rightarrow> merge_state \<Rightarrow> bool" where
  "merge_inv mx s =
     (stack_ok s \<and> 0 \<le> ms_prevLineNumber s \<and> list_all (valid_fold mx) (ms_resultRanges s) \<and>
      (\<forall>x \<in> set (ms_resultRanges s). fstart x \<le> ms_prevLineNumber s) \<and>
      sorted_wrt (\<lambda>x y. fstart y < fstart x) (ms_resultRanges s))"

definition nest_inv :: "int \<Rightarrow> merge_state \<Rightarrow> bool" where
  "nest_inv L s =
     (sorted_wrt (\<lambda>x y. fend x \<le> fend y) (ms_stack s) \<and>
      (\<forall>x \<in> set (ms_resultRanges s). x \<in> set (ms_stack s) \<or> fend x < L) \<and>
      sorted_wrt (\<lambda>x y. follows y x) (ms_resultRanges s))"

lemma merge_inv_step: "merge_inv mx s \<Longrightarrow> merge_inv mx (merge_useRange mx u s)"
  using merge_useRange_view[of s mx u]
  by (auto simp: merge_inv_def accepts_def valid_fold_def split: if_splits)

lemma in_set_dropWhile: "x \<in> set xs \<Longrightarrow> \<not> P x \<Longrightarrow> x \<in> set (dropWhile P xs)"
  by (induction xs) auto

lemma accepts_below:
  assumes "accepts mx u s" "sorted_wrt (\<lambda>x y. fend x \<le> fend y) (ms_stack s)" "x \<in> set (ms_stack s)"
  shows "fend x < fstart u \<or> fend u \<le> fend x"
proof (cases "x \<in> set (dropWhile (\<lambda>t. fend t < fstart u) (ms_stack s))")
  case True
  then obtain t rest where d: "dropWhile (\<lambda>t. fend t < fstart u) (ms_stack s) = t # rest"
    by (cases "dropWhile (\<lambda>t. fend t < fstart u) (ms_stack s)") auto
  have "sorted_wrt (\<lambda>x y. fend x \<le> fend y) (t # rest)"
    using sorted_wrt_drop[OF assms(2)] by (simp add: d[symmetric] dropWhile_eq_drop)
  moreover have "fend u \<le> fend t" using assms(1) by (simp add: accepts_def d)
  ultimately show ?thesis using True by (auto simp: d)
next
  case False
  then show ?thesis
    using assms(3) in_set_dropWhile[of x "ms_stack s" "\<lambda>t. fend t < fstart u"] by auto
qed

lemma nest_inv_step:
  assumes "nest_inv L s" "merge_inv mx s" "L \<le> fstart u"
  shows "nest_inv (fstart u) (merge_useRange mx u s)"
proof -
  let ?d = "dropWhile (\<lambda>t. fend t < fstart u) (ms_stack s)"
  note view = merge_useRange_view[of s mx u]
  have ok: "stack_ok s" using assms by (simp add: merge_inv_def)
  have sorted_d: "sorted_wrt (\<lambda>x y. fend x \<le> fend y) ?d"
    using assms(1) sorted_wrt_drop by (auto simp: nest_inv_def dropWhile_eq_drop)
  have kept: "x \<in> set ?d \<or> fend x < fstart u" if "x \<in> set (ms_resultRanges s)" for x
    using that assms in_set_dropWhile[of x "ms_stack s" "\<lambda>t. fend t < fstart u"]
    by (fastforce simp: nest_inv_def)
  have after: "follows x u" if "accepts mx u s" "x \<in> set (ms_resultRanges s)" for x
  proof -
    have "fend x < fstart u \<or> fend u \<le> fend x"
      using kept[OF that(2)] accepts_below[OF that(1)] assms(1)
      by (auto simp: nest_inv_def dest: set_dropWhileD)
    moreover have "fstart x < fstart u"
      using that assms(2) by (auto simp: merge_inv_def accepts_def)
    ultimately show ?thesis by (simp add: follows_def)
  qed
  have "sorted_wrt (\<lambda>x y. fend x \<le> fend y) (ms_stack (merge_useRange mx u s))"
  proof (cases "accepts mx u s")
    case True
    have "fend u \<le> fend x" if "x \<in> set ?d" for x
      using True sorted_d that by (cases ?d) (auto simp: accepts_def)
    then show ?thesis using True sorted_d by (simp add: view(2)[OF ok])
  qed (simp add: view(2)[OF ok] sorted_d)
  moreover have "\<forall>x \<in> set (ms_resultRanges (merge_useRange mx u s)).
      x \<in> set (ms_stack (merge_useRange mx u s)) \<or> fend x < fstart u"
    using kept by (auto simp: view(2,3)[OF ok])
  moreover have "sorted_wrt (\<lambda>x y. follows y x) (ms_resultRanges (merge_useRange mx u s))"
    using assms(1) after by (auto simp: view(3)[OF ok] nest_inv_def)
  ultimately show ?thesis by (simp add: nest_inv_def)
qed

lemma merge_inv_fold: "merge_inv mx s \<Longrightarrow> merge_inv mx (fold (merge_useRange mx) us s)"
  by (induction us arbitrary: s) (auto intro: merge_inv_step)

lemma nest_inv_fold:
  assumes "nest_inv L s" "merge_inv mx s" "sorted_starts us" "\<forall>u \<in> set us. L \<le> fstart u"
  shows "\<exists>L'. nest_inv L' (fold (merge_useRange mx) us s)"
  using assms
proof (induction us arbitrary: L s)
  case (Cons u us)
  then have "nest_inv (fstart u) (merge_useRange mx u s)" by (intro nest_inv_step) auto
  then show ?case using Cons by (auto simp: sorted_starts_def intro: merge_inv_step)
qed auto

abbreviation merge_start :: merge_state where
  "merge_start \<equiv> \<lparr>ms_stackedRanges = [], ms_topStackedRange = None, ms_prevLineNumber = 0, ms_resultRanges = []\<rparr>"

lemma merge_start_inv: "merge_inv mx merge_start" "nest_inv L merge_start"
  by (simp_all add: merge_inv_def nest_inv_def stack_ok_def ms_stack_def)

lemma sanitizeAndMerge_eq:
  "sanitizeAndMerge A B mx sel =
     rev (ms_resultRanges (fold (merge_useRange mx) (merge_uses sel (getIndexedFunction A) (getIndexedFunction B)) merge_start))"
  by (simp add: sanitizeAndMerge_def sanitizeAndMerge_loop_eq)

lemma sanitizeAndMerge_nested:
  assumes "sorted_starts (getIndexedFunction A)" "sorted_starts (getIndexedFunction B)"
  shows "well_nested mx (sanitizeAndMerge A B mx sel)"
proof -
  let ?us = "merge_uses sel (getIndexedFunction A) (getIndexedFunction B)"
  obtain L where "\<forall>u \<in> set ?us. L \<le> fstart u"
    using Min_le[of "fstart ` set ?us"] by (metis List.finite_set finite_imageI imageI)
  then obtain L' where "nest_inv L' (fold (merge_useRange mx) ?us merge_start)"
    using nest_inv_fold[OF merge_start_inv(2,1) sorted_merge_uses[OF assms]] by blast
  moreover have "merge_inv mx (fold (merge_useRange mx) ?us merge_start)"
    by (rule merge_inv_fold[OF merge_start_inv(1)])
  ultimately show ?thesis
    by (simp add: well_nested_def sanitizeAndMerge_eq merge_inv_def nest_inv_def sorted_wrt_rev)
qed

text \<open>
  C31. \<open>sanitizeAndMerge\<close> of two inputs sorted by their starts is well nested: lines are valid
  and at most \<open>maxLineNumber\<close>, starts strictly increase, and of any two ranges the later
  one starts after the earlier one ends or lies inside it. For inputs in any order the lines are still valid
  and the starts strictly increase.
\<close>

theorem sanitizeAndMerge_well_nested:
  "list_all (valid_fold mx) (sanitizeAndMerge A B mx sel) \<and>
   sorted_wrt (\<lambda>x y. fstart x < fstart y) (sanitizeAndMerge A B mx sel) \<and>
   (sorted_starts (getIndexedFunction A) \<and> sorted_starts (getIndexedFunction B) \<longrightarrow>
      well_nested mx (sanitizeAndMerge A B mx sel))"
proof -
  have "merge_inv mx (fold (merge_useRange mx) (merge_uses sel (getIndexedFunction A) (getIndexedFunction B)) merge_start)"
    by (rule merge_inv_fold[OF merge_start_inv(1)])
  then show ?thesis
    using sanitizeAndMerge_nested[of A B mx sel]
    by (simp add: sanitizeAndMerge_eq merge_inv_def sorted_wrt_rev)
qed

theorem sanitizeAndMerge_well_nested_witness:
  "well_nested (Some 30)
     (sanitizeAndMerge (MergeRanges [sample_fold 1 9 FoldSource_provider, sample_fold 3 5 FoldSource_provider])
        (MergeRanges [sample_fold 2 7 FoldSource_recovered, sample_fold 4 20 FoldSource_userDefined]) (Some 30) None)"
  using sanitizeAndMerge_well_nested[of "Some 30"
      "MergeRanges [sample_fold 1 9 FoldSource_provider, sample_fold 3 5 FoldSource_provider]"
      "MergeRanges [sample_fold 2 7 FoldSource_recovered, sample_fold 4 20 FoldSource_userDefined]" None]
  by (simp add: sorted_starts_def sample_fold_def)

section \<open>Which range wins\<close>

abbreviation user_fold :: "fold_range \<Rightarrow> bool" where
  "user_fold x \<equiv> fold_source x = FoldSource_userDefined"

text \<open>\<open>x\<close> does not cut across \<open>b\<close> from the left.\<close>

definition clear_of :: "fold_range \<Rightarrow> fold_range \<Rightarrow> bool" where
  "clear_of b x = (fend x < fstart b \<or> fend b \<le> fend x)"

lemma prescan_clear:
  assumes "prescan a bs" "sorted_starts bs" "b \<in> set bs" "user_fold b"
  shows "clear_of b a"
  using assms
  by (induction a bs rule: prescan.induct) (auto simp: clear_of_def sorted_starts_def split: if_splits)

text \<open>The user's entries still to come can be accepted.\<close>

definition room_for :: "fold_range list \<Rightarrow> merge_state \<Rightarrow> bool" where
  "room_for bs s =
     (stack_ok s \<and> (\<forall>b \<in> set bs. ms_prevLineNumber s < fstart b) \<and>
      (\<forall>b \<in> set bs. user_fold b \<longrightarrow> (\<forall>x \<in> set (ms_stack s). clear_of b x)))"

lemma room_for_step:
  assumes "room_for bs s" "\<forall>b \<in> set bs. fstart u < fstart b" "\<forall>b \<in> set bs. user_fold b \<longrightarrow> clear_of b u"
  shows "room_for bs (merge_useRange mx u s)"
  using assms merge_useRange_view[of s mx u] by (auto simp: room_for_def dest: set_dropWhileD)

lemma room_accepts:
  assumes "room_for (b # bs) s" "user_fold b" "valid_fold mx b"
  shows "accepts mx b s"
proof -
  have "fend b \<le> fend t" if "dropWhile (\<lambda>t. fend t < fstart b) (ms_stack s) = t # rest" for t rest
  proof -
    have "t \<in> set (ms_stack s)" "\<not> fend t < fstart b"
      using that by (metis list.set_intros(1) set_dropWhileD, metis dropWhile_eq_Cons_conv)
    then show ?thesis using assms(1,2) by (auto simp: room_for_def clear_of_def)
  qed
  then show ?thesis
    using assms by (auto simp: accepts_def room_for_def valid_fold_def split: list.split)
qed

lemma room_use_B:
  assumes "room_for (b # bs) s" "well_nested mx (b # bs)" "fstart u = fstart b" "fend u = fend b"
    "user_fold b \<Longrightarrow> u = b"
  shows "room_for bs (merge_useRange mx u s) \<and>
    (user_fold b \<longrightarrow> b \<in> set (ms_resultRanges (merge_useRange mx u s)))"
proof
  have f: "\<forall>x \<in> set bs. follows b x" using assms(2) by (simp add: well_nested_def)
  show "room_for bs (merge_useRange mx u s)"
    using assms(1,3,4) f by (intro room_for_step) (auto simp: room_for_def follows_def clear_of_def)
  show "user_fold b \<longrightarrow> b \<in> set (ms_resultRanges (merge_useRange mx u s))"
  proof
    assume b: "user_fold b"
    then have "accepts mx b s" using assms(2) by (intro room_accepts[OF assms(1)]) (auto simp: well_nested_def)
    then show "b \<in> set (ms_resultRanges (merge_useRange mx u s))"
      using merge_useRange_view(3)[of s mx b] assms(1,5) b by (simp add: room_for_def)
  qed
qed

lemma results_grow_fold:
  "merge_inv mx s \<Longrightarrow> set (ms_resultRanges s) \<subseteq> set (ms_resultRanges (fold (merge_useRange mx) us s))"
proof (induction us arbitrary: s)
  case (Cons u us)
  then have "set (ms_resultRanges s) \<subseteq> set (ms_resultRanges (merge_useRange mx u s))"
    using merge_useRange_view(3)[of s mx u] by (auto simp: merge_inv_def)
  then show ?case using Cons.IH[OF merge_inv_step[OF Cons.prems]] by fastforce
qed auto

lemma results_grow:
  "merge_inv mx s \<Longrightarrow> set (ms_resultRanges s) \<subseteq> set (ms_resultRanges (sanitizeAndMerge_loop mx sel as bs s))"
  by (simp add: sanitizeAndMerge_loop_eq results_grow_fold)

text \<open>Entries on the same line agree on the last line, unless the second one is the user's.\<close>

definition same_line_agree :: "fold_range list \<Rightarrow> fold_range list \<Rightarrow> bool" where
  "same_line_agree as bs =
     (\<forall>a \<in> set as. \<forall>b \<in> set bs. fstart a = fstart b \<longrightarrow> user_fold b \<or> fend a = fend b)"

lemma merge_only_B_user: "user_fold b \<Longrightarrow> merge_only_B b = b"
  by (simp add: merge_only_B_def)

lemma user_ranges_kept:
  assumes "room_for bs s" "merge_inv mx s" "well_nested mx bs" "same_line_agree as bs" "b \<in> set bs" "user_fold b"
  shows "b \<in> set (ms_resultRanges (sanitizeAndMerge_loop mx sel as bs s))"
  using assms
proof (induction mx sel as bs s rule: sanitizeAndMerge_loop.induct)
  case (1 mx sel s)
  then show ?case by simp
next
  case (2 mx sel nextB bs s)
  let ?s = "merge_useRange mx (merge_only_B nextB) s"
  have st: "room_for bs ?s \<and> (user_fold nextB \<longrightarrow> nextB \<in> set (ms_resultRanges ?s))"
    using "2.prems" by (intro room_use_B) (auto simp: merge_only_B_user)
  have "merge_inv mx ?s" using "2.prems" by (intro merge_inv_step)
  moreover have "well_nested mx bs" using "2.prems" by (simp add: well_nested_def)
  ultimately show ?case
    using st "2.IH" "2.prems" results_grow[of mx ?s sel "[]" bs] by (auto simp: same_line_agree_def)
next
  case (3 mx sel nextA as s)
  then show ?case by simp
next
  case (4 mx sel nextA as nextB bs s)
  have nest: "well_nested mx bs" and so: "sorted_starts (nextB # bs)"
    and f: "\<forall>x \<in> set bs. follows nextB x"
    using "4.prems" by (auto simp: well_nested_def sorted_starts_def follows_def elim: sorted_wrt_mono_rel[rotated])
  have agree: "same_line_agree as (nextB # bs)" "same_line_agree (nextA # as) bs" "same_line_agree as bs"
    using "4.prems"(4) by (auto simp: same_line_agree_def)
  consider (eq) "fstart nextA = fstart nextB" | (gt) "fstart nextA > fstart nextB" | (lt) "fstart nextA < fstart nextB"
    by linarith
  then show ?case
  proof cases
    case eq
    let ?s = "merge_useRange mx (merge_same_line sel nextA nextB) s"
    have "room_for bs ?s \<and> (user_fold nextB \<longrightarrow> nextB \<in> set (ms_resultRanges ?s))"
      using "4.prems" eq by (intro room_use_B) (auto simp: merge_same_line_def same_line_agree_def)
    then show ?thesis
      using eq "4.IH"(1) "4.prems" nest agree merge_inv_step[OF "4.prems"(2)] results_grow[of mx ?s sel as bs]
      by auto
  next
    case gt
    let ?s = "merge_useRange mx (merge_only_B nextB) s"
    have "room_for bs ?s \<and> (user_fold nextB \<longrightarrow> nextB \<in> set (ms_resultRanges ?s))"
      using "4.prems" by (intro room_use_B) (auto simp: merge_only_B_user)
    then show ?thesis
      using gt "4.IH"(2) "4.prems" nest agree merge_inv_step[OF "4.prems"(2)] results_grow[of mx ?s sel "nextA # as" bs]
      by auto
  next
    case lt
    have "room_for (nextB # bs) (if prescan nextA (nextB # bs) then merge_useRange mx nextA s else s)"
      using "4.prems"(1) lt f prescan_clear[of nextA "nextB # bs", OF _ so]
      by (fastforce intro!: room_for_step simp: follows_def simp del: prescan.simps)
    then show ?thesis
      using lt "4.IH"(3) "4.prems" agree merge_inv_step[OF "4.prems"(2)] by simp
  qed
qed

text \<open>
  The user's ranges win. When the second list is well nested and entries of the two lists on the
  same line end on the same line unless the second one is user defined, every user
  defined entry of the second list is in the result, whatever the provider reports.
\<close>

theorem sanitizeAndMerge_user_ranges_win:
  assumes "well_nested mx (getIndexedFunction B)"
    and "same_line_agree (getIndexedFunction A) (getIndexedFunction B)"
    and "b \<in> set (getIndexedFunction B)" "user_fold b"
  shows "b \<in> set (sanitizeAndMerge A B mx sel)"
proof -
  have "room_for (getIndexedFunction B) merge_start"
    using assms(1) by (auto simp: room_for_def stack_ok_def ms_stack_def well_nested_def valid_fold_def list_all_iff)
  then show ?thesis
    using user_ranges_kept[OF _ merge_start_inv(1) assms] by (simp add: sanitizeAndMerge_def)
qed

theorem sanitizeAndMerge_user_ranges_win_witness:
  "sample_fold 4 20 FoldSource_userDefined \<in>
     set (sanitizeAndMerge (MergeRanges [sample_fold 1 9 FoldSource_provider, sample_fold 3 5 FoldSource_provider])
        (MergeRanges [sample_fold 2 22 FoldSource_recovered, sample_fold 4 20 FoldSource_userDefined]) (Some 30) None)"
  by (rule sanitizeAndMerge_user_ranges_win)
    (simp_all add: well_nested_def follows_def valid_fold_def same_line_agree_def sample_fold_def)

text \<open>
  Of two ranges that cut across each other, the first list's starting first, the comment says
  the second list's entry wins. The code does this only for a user defined
  entry; any other entry of the second list loses.
\<close>

theorem sanitizeAndMerge_overlap:
  assumes "valid_fold mx a" "valid_fold mx b" "fstart a < fstart b" "fstart b \<le> fend a" "fend a < fend b"
  shows "sanitizeAndMerge (MergeRanges [a]) (MergeRanges [b]) mx sel = (if user_fold b then [b] else [a])"
  using assms
  by (auto simp: sanitizeAndMerge_def merge_useRange_def valid_fold_def merge_only_B_def Let_def split: option.splits)

theorem sanitizeAndMerge_overlap_witness:
  "sanitizeAndMerge (MergeRanges [sample_fold 1 5 FoldSource_provider]) (MergeRanges [sample_fold 3 10 FoldSource_recovered]) None None
     = [sample_fold 1 5 FoldSource_provider]"
  using sanitizeAndMerge_overlap[of None "sample_fold 1 5 FoldSource_provider" "sample_fold 3 10 FoldSource_recovered" None]
  by (simp add: valid_fold_def sample_fold_def)

section \<open>Packing the parents into the high bytes\<close>

lemma fold_masks:
  "MAX_LINE_NUMBER = mask 24" "MASK_INDENT = push_bit 24 (mask 8)"
  "(0xFF :: 32 word) = mask 8" "(0xFF00 :: 32 word) = push_bit 8 (mask 8)"
  by (simp_all add: MAX_LINE_NUMBER_def MASK_INDENT_def mask_eq_exp_minus_1 push_bit_eq_mult)

lemma line_bits: "w \<le> MAX_LINE_NUMBER \<Longrightarrow> bit w n \<Longrightarrow> n < 24"
proof -
  assume w: "w \<le> MAX_LINE_NUMBER" and b: "bit w n"
  have "uint w < 2 ^ 24" using w by (simp add: MAX_LINE_NUMBER_def word_le_def)
  then have "uint (take_bit 24 w) = uint w" by (simp add: unsigned_take_bit_eq take_bit_int_eq_self)
  then have "take_bit 24 w = w" by (simp only: word_uint_eq_iff)
  then show "n < 24" using b by (metis bit_take_bit_iff)
qed

lemma add_high_or:
  fixes w v :: "32 word"
  assumes "w \<le> MAX_LINE_NUMBER" "\<And>n. n < 24 \<Longrightarrow> \<not> bit v n"
  shows "w + v = w OR v"
proof -
  have "w AND v = 0"
    using assms line_bits by (intro bit_eqI) (auto simp: bit_simps)
  then show ?thesis by (rule disjunctive_add_eq_or)
qed

lemma pack_start:
  assumes "w \<le> MAX_LINE_NUMBER"
  shows "(w + push_bit 24 (p AND 0xFF)) AND MAX_LINE_NUMBER = w"
    and "drop_bit 24 ((w + push_bit 24 (p AND 0xFF)) AND MASK_INDENT) = p AND 0xFF"
proof -
  have eq: "w + push_bit 24 (p AND 0xFF) = w OR push_bit 24 (p AND 0xFF)"
    by (rule add_high_or[OF assms]) (simp add: bit_simps)
  show "(w + push_bit 24 (p AND 0xFF)) AND MAX_LINE_NUMBER = w"
    unfolding eq unfolding fold_masks by (intro bit_eqI) (auto simp: bit_simps dest: line_bits[OF assms])
  show "drop_bit 24 ((w + push_bit 24 (p AND 0xFF)) AND MASK_INDENT) = p AND 0xFF"
    unfolding eq unfolding fold_masks by (intro bit_eqI) (auto simp: bit_simps dest: line_bits[OF assms])
qed

lemma pack_end:
  assumes "w \<le> MAX_LINE_NUMBER"
  shows "(w + push_bit 16 (p AND 0xFF00)) AND MAX_LINE_NUMBER = w"
    and "drop_bit 16 ((w + push_bit 16 (p AND 0xFF00)) AND MASK_INDENT) = p AND 0xFF00"
proof -
  have eq: "w + push_bit 16 (p AND 0xFF00) = w OR push_bit 16 (p AND 0xFF00)"
    by (rule add_high_or[OF assms]) (auto simp: fold_masks bit_simps)
  show "(w + push_bit 16 (p AND 0xFF00)) AND MAX_LINE_NUMBER = w"
    unfolding eq unfolding fold_masks by (intro bit_eqI) (auto simp: bit_simps dest: line_bits[OF assms])
  show "drop_bit 16 ((w + push_bit 16 (p AND 0xFF00)) AND MASK_INDENT) = p AND 0xFF00"
    unfolding eq unfolding fold_masks by (intro bit_eqI) (auto simp: bit_simps dest: line_bits[OF assms])
qed

lemma bytes_sum: "uint ((p :: 32 word) AND 0xFF) + uint (p AND 0xFF00) = uint p mod 2 ^ 16"
proof -
  have "(p AND 0xFF) + (p AND 0xFF00) = (p AND 0xFF) OR (p AND 0xFF00)"
  proof -
    have "(p AND 0xFF) AND (p AND 0xFF00) = 0"
      unfolding fold_masks by (intro bit_eqI) (auto simp: bit_simps)
    then show ?thesis by (rule disjunctive_add_eq_or)
  qed
  also have "\<dots> = take_bit 16 p"
    unfolding fold_masks by (intro bit_eqI) (auto simp: bit_simps)
  finally have "uint ((p AND 0xFF) + (p AND 0xFF00)) = take_bit 16 (uint p)"
    by (metis unsigned_take_bit_eq)
  moreover have "uint (p AND 0xFF) + uint (p AND 0xFF00) < 2 ^ 32"
  proof -
    have "p AND 0xFF \<le> 0xFF" "p AND 0xFF00 \<le> 0xFF00" by (simp_all add: word_and_le1)
    then have "uint (p AND 0xFF) \<le> uint (0xFF :: 32 word)" "uint (p AND 0xFF00) \<le> uint (0xFF00 :: 32 word)"
      by (simp_all only: word_le_def)
    then show ?thesis by simp
  qed
  ultimately show ?thesis by (simp add: uint_plus_if' take_bit_eq_mod)
qed

lemma packed_parent_value:
  assumes "k < MAX_FOLDING_REGIONS"
  shows "uint ((word_of_nat k :: 32 word) AND 0xFF) + uint ((word_of_nat k :: 32 word) AND 0xFF00) = int k"
    "uint ((- 1 :: 32 word) AND 0xFF) + uint ((- 1 :: 32 word) AND 0xFF00) = int MAX_FOLDING_REGIONS"
proof -
  have "uint (word_of_nat k :: 32 word) = int k"
    using assms by (simp add: MAX_FOLDING_REGIONS_def unsigned_of_nat take_bit_nat_eq_self)
  then show "uint ((word_of_nat k :: 32 word) AND 0xFF) + uint ((word_of_nat k :: 32 word) AND 0xFF00) = int k"
    using assms by (simp only: bytes_sum) (simp add: MAX_FOLDING_REGIONS_def)
  show "uint ((- 1 :: 32 word) AND 0xFF) + uint ((- 1 :: 32 word) AND 0xFF00) = int MAX_FOLDING_REGIONS"
    by (simp add: MAX_FOLDING_REGIONS_def)
qed

section \<open>The parent of a region is the innermost region around it\<close>

abbreviation region_start :: "folding_regions \<Rightarrow> nat \<Rightarrow> int" where
  "region_start \<equiv> FoldingRegions_getStartLineNumber"

abbreviation region_end :: "folding_regions \<Rightarrow> nat \<Rightarrow> int" where
  "region_end \<equiv> FoldingRegions_getEndLineNumber"

text \<open>A store whose regions are well nested, as after \<open>sanitizeAndMerge\<close>, with room for the parents.\<close>

definition nested_regions :: "folding_regions \<Rightarrow> bool" where
  "nested_regions r =
     (length (fr_endIndexes r) = FoldingRegions_length r \<and> FoldingRegions_length r \<le> MAX_FOLDING_REGIONS \<and>
      (\<forall>i < FoldingRegions_length r. region_start r i \<le> region_end r i) \<and>
      (\<forall>j < FoldingRegions_length r. \<forall>i < j. region_start r i < region_start r j \<and>
         (region_end r i < region_start r j \<or> region_end r j \<le> region_end r i)))"

definition unpacked :: "folding_regions \<Rightarrow> bool" where
  "unpacked r =
     (\<forall>i < FoldingRegions_length r. fr_startIndexes r ! i \<le> MAX_LINE_NUMBER \<and> fr_endIndexes r ! i \<le> MAX_LINE_NUMBER)"

text \<open>\<open>encloses r j i\<close>: region \<open>j\<close> is region \<open>i\<close> or around it.\<close>

definition encloses :: "folding_regions \<Rightarrow> nat \<Rightarrow> nat \<Rightarrow> bool" where
  "encloses r j i = (region_start r j \<le> region_start r i \<and> region_end r i \<le> region_end r j)"

text \<open>The regions around \<open>i\<close>, the innermost first, and the parent: the head, or -1.\<close>

definition ancestors :: "folding_regions \<Rightarrow> nat \<Rightarrow> nat list" where
  "ancestors r i = filter (\<lambda>j. encloses r j i) (rev [0..<i])"

definition innermost :: "folding_regions \<Rightarrow> nat \<Rightarrow> int" where
  "innermost r i = (case ancestors r i of [] \<Rightarrow> - 1 | p # _ \<Rightarrow> int p)"

lemma dropWhile_not_eq_filter:
  "sorted_wrt (\<lambda>x y. P x \<longrightarrow> P y) xs \<Longrightarrow> dropWhile (\<lambda>x. \<not> P x) xs = filter P xs"
  by (induction xs) auto

lemma encloses_trans: "encloses r i j \<Longrightarrow> encloses r j k \<Longrightarrow> encloses r i k"
  by (auto simp: encloses_def)

lemma nested_regionsD:
  assumes "nested_regions r" "j < FoldingRegions_length r"
  shows "region_start r j \<le> region_end r j"
    and "i < j \<Longrightarrow> region_start r i < region_start r j"
    and "i < j \<Longrightarrow> region_end r i < region_start r j \<or> region_end r j \<le> region_end r i"
  using assms unfolding nested_regions_def by blast+

lemma encloses_between:
  assumes "nested_regions r" "k < FoldingRegions_length r" "i < j" "j \<le> k" "encloses r i k"
  shows "encloses r i j"
proof -
  have j: "j < FoldingRegions_length r" using assms(2,4) by simp
  have "region_start r j \<le> region_start r k"
    using assms(4) nested_regionsD(2)[OF assms(1,2), of j] by (cases "j = k") auto
  moreover note nested_regionsD(1)[OF assms(1,2)] nested_regionsD(2,3)[OF assms(1) j assms(3)]
  ultimately show ?thesis using assms(5) by (auto simp: encloses_def)
qed

text \<open>The stack after region \<open>i\<close> holds \<open>i\<close> and the regions around it.\<close>

lemma ancestors_step:
  assumes "nested_regions r" "Suc i < FoldingRegions_length r"
  shows "dropWhile (\<lambda>p. \<not> encloses r p (Suc i)) (i # ancestors r i) = ancestors r (Suc i)"
proof -
  have refl: "encloses r i i" by (simp add: encloses_def)
  have st: "i # ancestors r i = filter (\<lambda>j. encloses r j i) (rev [0..<Suc i])"
    by (simp add: ancestors_def refl)
  have "sorted_wrt (\<lambda>x y. y < x) (rev [0..<Suc i])"
    by (simp add: sorted_wrt_rev sorted_wrt_upt)
  then have "sorted_wrt (\<lambda>x y. y < x) (filter (\<lambda>j. encloses r j i) (rev [0..<Suc i]))"
    by (rule sorted_wrt_filter)
  then have "sorted_wrt (\<lambda>x y. encloses r x (Suc i) \<longrightarrow> encloses r y (Suc i)) (i # ancestors r i)"
    unfolding st
  proof (rule sorted_wrt_mono_rel[rotated])
    fix x y assume "x \<in> set (filter (\<lambda>j. encloses r j i) (rev [0..<Suc i]))"
      "y \<in> set (filter (\<lambda>j. encloses r j i) (rev [0..<Suc i]))" "y < x"
    then have "encloses r y x" using assms by (intro encloses_between[of r i y x]) (auto split: if_splits)
    then show "encloses r x (Suc i) \<longrightarrow> encloses r y (Suc i)" using encloses_trans by blast
  qed
  then have "dropWhile (\<lambda>p. \<not> encloses r p (Suc i)) (i # ancestors r i) =
      filter (\<lambda>p. encloses r p (Suc i)) (filter (\<lambda>j. encloses r j i) (rev [0..<Suc i]))"
    unfolding st by (rule dropWhile_not_eq_filter)
  also have "\<dots> = ancestors r (Suc i)"
    unfolding ancestors_def filter_filter
    using encloses_between[OF assms] refl
    by (intro filter_cong) (auto simp: le_less Suc_le_eq less_Suc_eq)
  finally show ?thesis .
qed

text \<open>Two stores with the same lines, whatever their high bytes hold.\<close>

definition same_lines :: "folding_regions \<Rightarrow> folding_regions \<Rightarrow> bool" where
  "same_lines r r' =
     (length (fr_startIndexes r') = length (fr_startIndexes r) \<and> length (fr_endIndexes r') = length (fr_endIndexes r) \<and>
      region_start r' = region_start r \<and> region_end r' = region_end r)"

lemma same_lines_cong:
  assumes "same_lines r r'"
  shows "encloses r' = encloses r" "FoldingRegions_length r' = FoldingRegions_length r"
    "ancestors r' = ancestors r" "innermost r' = innermost r" "nested_regions r' = nested_regions r"
  using assms unfolding same_lines_def FoldingRegions_length_def
  by (auto simp: fun_eq_iff encloses_def ancestors_def innermost_def nested_regions_def FoldingRegions_length_def)

lemma low_line: "w \<le> MAX_LINE_NUMBER \<Longrightarrow> w AND MAX_LINE_NUMBER = w"
  using pack_start(1)[of w 0] by simp

definition pack_parent :: "nat \<Rightarrow> 32 word \<Rightarrow> folding_regions \<Rightarrow> folding_regions" where
  "pack_parent i p r =
     r\<lparr>fr_startIndexes := (fr_startIndexes r)[i := fr_startIndexes r ! i + push_bit 24 (p AND 0xFF)],
       fr_endIndexes := (fr_endIndexes r)[i := fr_endIndexes r ! i + push_bit 16 (p AND 0xFF00)]\<rparr>"

lemma pack_parent_view:
  assumes "i < length (fr_startIndexes r)" "i < length (fr_endIndexes r)"
    and "fr_startIndexes r ! i \<le> MAX_LINE_NUMBER" "fr_endIndexes r ! i \<le> MAX_LINE_NUMBER"
  shows "same_lines r (pack_parent i p r)"
    and "packedParent (pack_parent i p r) k =
      (if k = i then (let v = uint (p AND 0xFF) + uint (p AND 0xFF00) in if v = int MAX_FOLDING_REGIONS then - 1 else v)
       else packedParent r k)"
proof -
  let ?r = "pack_parent i p r"
  have at: "u32_at (fr_startIndexes ?r) k =
      (if k = i then fr_startIndexes r ! i + push_bit 24 (p AND 0xFF) else u32_at (fr_startIndexes r) k)"
    "u32_at (fr_endIndexes ?r) k =
      (if k = i then fr_endIndexes r ! i + push_bit 16 (p AND 0xFF00) else u32_at (fr_endIndexes r) k)" for k
    using assms(1,2) unfolding pack_parent_def by (simp_all add: u32_at_update del: push_bit_and)
  have old: "u32_at (fr_startIndexes r) i = fr_startIndexes r ! i" "u32_at (fr_endIndexes r) i = fr_endIndexes r ! i"
    using assms(1,2) by (simp_all add: u32_at_def)
  have "region_start ?r k = region_start r k" "region_end ?r k = region_end r k" for k
    unfolding FoldingRegions_getStartLineNumber_def FoldingRegions_getEndLineNumber_def at
    by (cases "k = i"; simp only: simp_thms if_True if_False pack_start(1)[OF assms(3)] pack_end(1)[OF assms(4)]
        low_line[OF assms(3)] low_line[OF assms(4)] old)+
  then show "same_lines r ?r" by (auto simp: same_lines_def pack_parent_def)
  show "packedParent ?r k =
      (if k = i then (let v = uint (p AND 0xFF) + uint (p AND 0xFF00) in if v = int MAX_FOLDING_REGIONS then - 1 else v)
       else packedParent r k)"
    unfolding packedParent_def at
    by (cases "k = i"; simp only: simp_thms if_True if_False pack_start(2)[OF assms(3)] pack_end(2)[OF assms(4)])
qed

abbreviation parent_word :: "nat list \<Rightarrow> 32 word" where
  "parent_word st \<equiv> (case st of [] \<Rightarrow> - 1 | p # _ \<Rightarrow> word_of_nat p)"

lemma pack_innermost:
  assumes "nested_regions r" "i < FoldingRegions_length r" "same_lines r r'"
    and "fr_startIndexes r' ! i \<le> MAX_LINE_NUMBER" "fr_endIndexes r' ! i \<le> MAX_LINE_NUMBER"
  shows "same_lines r (pack_parent i (parent_word (ancestors r i)) r')"
    and "packedParent (pack_parent i (parent_word (ancestors r i)) r') k =
      (if k = i then innermost r i else packedParent r' k)"
proof -
  have i: "i < length (fr_startIndexes r')" "i < length (fr_endIndexes r')"
    using assms(1-3) by (auto simp: nested_regions_def same_lines_def FoldingRegions_length_def)
  have small: "p < MAX_FOLDING_REGIONS" if "ancestors r i = p # ps" for p ps
  proof -
    have "p \<in> set (ancestors r i)" using that by simp
    then show ?thesis using assms(1,2) by (auto simp: ancestors_def nested_regions_def)
  qed
  show "same_lines r (pack_parent i (parent_word (ancestors r i)) r')"
    using pack_parent_view(1)[OF i assms(4,5), of "parent_word (ancestors r i)"] assms(3)
    by (simp add: same_lines_def)
  show "packedParent (pack_parent i (parent_word (ancestors r i)) r') k =
      (if k = i then innermost r i else packedParent r' k)"
    using small packed_parent_value
    by (auto simp: pack_parent_view(2)[OF i assms(4,5)] innermost_def Let_def split: list.split)
      (metis MAX_FOLDING_REGIONS_def of_nat_less_iff order_less_irrefl)
qed

lemma isInsideLast_encloses:
  assumes "same_lines r r'" "i < length (fr_startIndexes r')" "i < length (fr_endIndexes r')"
    and "fr_startIndexes r' ! i \<le> MAX_LINE_NUMBER" "fr_endIndexes r' ! i \<le> MAX_LINE_NUMBER"
  shows "isInsideLast r' (uint (fr_startIndexes r' ! i)) (uint (fr_endIndexes r' ! i)) p = encloses r p i"
proof -
  have "uint (fr_startIndexes r' ! i) = region_start r' i" "uint (fr_endIndexes r' ! i) = region_end r' i"
    using assms(2-5) by (simp_all add: FoldingRegions_getStartLineNumber_def FoldingRegions_getEndLineNumber_def
        u32_at_def low_line)
  then show ?thesis using assms(1) by (simp add: isInsideLast_def encloses_def same_lines_def)
qed

definition stack_before :: "folding_regions \<Rightarrow> nat \<Rightarrow> nat list" where
  "stack_before r i = (case i of 0 \<Rightarrow> [] | Suc k \<Rightarrow> k # ancestors r k)"

lemma ensureParentIndices_loop_correct:
  assumes "nested_regions r" "i \<le> FoldingRegions_length r" "same_lines r r'"
    and "\<forall>k. i \<le> k \<and> k < FoldingRegions_length r \<longrightarrow>
           fr_startIndexes r' ! k \<le> MAX_LINE_NUMBER \<and> fr_endIndexes r' ! k \<le> MAX_LINE_NUMBER"
    and "\<forall>k < i. packedParent r' k = innermost r k"
  shows "\<exists>r''. ensureParentIndices_loop [i..<FoldingRegions_length r] (stack_before r i) r' = (r'', Inr ()) \<and>
     same_lines r r'' \<and> (\<forall>k < FoldingRegions_length r. packedParent r'' k = innermost r k) \<and>
     fr_parentsComputed r'' = fr_parentsComputed r'"
  using assms(2-)
proof (induction "FoldingRegions_length r - i" arbitrary: i r')
  case 0
  then show ?case by auto
next
  case (Suc d)
  let ?r = "pack_parent i (parent_word (ancestors r i)) r'"
  have i: "i < FoldingRegions_length r" using Suc.hyps(2) by simp
  then have len: "i < length (fr_startIndexes r')" "i < length (fr_endIndexes r')"
    using assms(1) Suc.prems(2) by (auto simp: nested_regions_def same_lines_def FoldingRegions_length_def)
  have small: "fr_startIndexes r' ! i \<le> MAX_LINE_NUMBER" "fr_endIndexes r' ! i \<le> MAX_LINE_NUMBER"
    using Suc.prems(3) i by auto
  have pop: "dropWhile (\<lambda>p. \<not> isInsideLast r' (uint (fr_startIndexes r' ! i)) (uint (fr_endIndexes r' ! i)) p)
      (stack_before r i) = ancestors r i"
    unfolding isInsideLast_encloses[OF Suc.prems(2) len small]
    using i ancestors_step[OF assms(1)] by (cases i) (auto simp: stack_before_def ancestors_def)
  have step: "ensureParentIndices_loop [i..<FoldingRegions_length r] (stack_before r i) r' =
      ensureParentIndices_loop [Suc i..<FoldingRegions_length r] (stack_before r (Suc i)) ?r"
    unfolding upt_conv_Cons[OF i] ensureParentIndices_loop.simps pop Let_def pack_parent_def
    using small by (simp add: not_less stack_before_def)
  note pk = pack_innermost[OF assms(1) i Suc.prems(2) small]
  have "\<exists>r''. ensureParentIndices_loop [Suc i..<FoldingRegions_length r] (stack_before r (Suc i)) ?r = (r'', Inr ()) \<and>
     same_lines r r'' \<and> (\<forall>k < FoldingRegions_length r. packedParent r'' k = innermost r k) \<and>
     fr_parentsComputed r'' = fr_parentsComputed ?r"
  proof (rule Suc.hyps(1)[OF _ _ pk(1)])
    show "\<forall>k. Suc i \<le> k \<and> k < FoldingRegions_length r \<longrightarrow>
           fr_startIndexes ?r ! k \<le> MAX_LINE_NUMBER \<and> fr_endIndexes ?r ! k \<le> MAX_LINE_NUMBER"
      using Suc.prems(3) by (simp add: pack_parent_def)
    show "\<forall>k < Suc i. packedParent ?r k = innermost r k"
      using Suc.prems(4) by (auto simp: pk(2) less_Suc_eq)
  qed (use Suc.hyps(2) i in auto)
  then show ?case unfolding step by (simp add: pack_parent_def)
qed

lemma ensureParentIndices_correct:
  assumes "nested_regions r" "unpacked r" "\<not> fr_parentsComputed r"
  shows "\<exists>r'. ensureParentIndices r = (r', Inr ()) \<and> same_lines r r' \<and> fr_parentsComputed r' \<and>
     (\<forall>k < FoldingRegions_length r. packedParent r' k = innermost r k)"
proof -
  have "same_lines r (r\<lparr>fr_parentsComputed := True\<rparr>)"
    by (auto simp: same_lines_def fun_eq_iff FoldingRegions_getStartLineNumber_def FoldingRegions_getEndLineNumber_def)
  then show ?thesis
    using ensureParentIndices_loop_correct[OF assms(1), of 0 "r\<lparr>fr_parentsComputed := True\<rparr>"] assms
    by (auto simp: unpacked_def ensureParentIndices_def stack_before_def FoldingRegions_length_def)
qed

section \<open>Finding the innermost region of a line\<close>

text \<open>The parents are still to be computed, or they are the innermost regions around.\<close>

definition parents_ok :: "folding_regions \<Rightarrow> bool" where
  "parents_ok r =
     (if fr_parentsComputed r then \<forall>k < FoldingRegions_length r. packedParent r k = innermost r k
      else unpacked r)"

lemma getParentIndex_innermost:
  assumes "nested_regions r" "parents_ok r" "i < FoldingRegions_length r"
  shows "\<exists>r'. FoldingRegions_getParentIndex r i = (r', Inr (innermost r i)) \<and> same_lines r r' \<and> parents_ok r'"
proof (cases "fr_parentsComputed r")
  case True
  then show ?thesis
    using assms by (auto simp: FoldingRegions_getParentIndex_def ensureParentIndices_def parents_ok_def same_lines_def)
next
  case False
  then obtain r' where r': "ensureParentIndices r = (r', Inr ())" "same_lines r r'" "fr_parentsComputed r'"
    "\<forall>k < FoldingRegions_length r. packedParent r' k = innermost r k"
    using ensureParentIndices_correct[OF assms(1)] assms(2) by (auto simp: parents_ok_def)
  then show ?thesis
    using assms(3) by (auto simp: FoldingRegions_getParentIndex_def parents_ok_def same_lines_cong)
qed

text \<open>\<open>index\<close> bounds the regions that contain the line.\<close>

definition bounds_line :: "folding_regions \<Rightarrow> int \<Rightarrow> nat \<Rightarrow> bool" where
  "bounds_line r line i =
     (i < FoldingRegions_length r \<and> region_start r i \<le> line \<and>
      (\<forall>j < FoldingRegions_length r. FoldingRegions_contains r j line \<longrightarrow> j \<le> i))"

definition is_innermost_at :: "folding_regions \<Rightarrow> int \<Rightarrow> int \<Rightarrow> bool" where
  "is_innermost_at r line p =
     (if p = - 1 then \<forall>j < FoldingRegions_length r. \<not> FoldingRegions_contains r j line
      else 0 \<le> p \<and> p < int (FoldingRegions_length r) \<and> FoldingRegions_contains r (nat p) line \<and>
           (\<forall>j < FoldingRegions_length r. FoldingRegions_contains r j line \<longrightarrow> j \<le> nat p))"

lemma same_lines_line:
  assumes "same_lines r r'"
  shows "FoldingRegions_contains r' = FoldingRegions_contains r" "bounds_line r' = bounds_line r"
    "is_innermost_at r' = is_innermost_at r"
  using assms same_lines_cong(2)[OF assms]
  by (auto simp: fun_eq_iff same_lines_def FoldingRegions_contains_def bounds_line_def is_innermost_at_def)

lemma around_line:
  assumes "nested_regions r" "bounds_line r line i" "\<not> FoldingRegions_contains r i line"
    and "j < FoldingRegions_length r" "FoldingRegions_contains r j line"
  shows "j \<in> set (ancestors r i)"
proof -
  have ji: "j < i" using assms by (metis bounds_line_def nat_less_le)
  have i: "i < FoldingRegions_length r" "region_start r i \<le> line" using assms(2) by (auto simp: bounds_line_def)
  have "\<not> region_end r j < region_start r i" using assms(5) i by (auto simp: FoldingRegions_contains_def)
  then have "encloses r j i"
    using nested_regionsD(2,3)[OF assms(1) i(1) ji] by (auto simp: encloses_def)
  then show ?thesis using ji by (auto simp: ancestors_def)
qed

lemma innermost_bounds:
  assumes "nested_regions r" "bounds_line r line i" "\<not> FoldingRegions_contains r i line"
  shows "innermost r i = - 1 \<and> is_innermost_at r line (- 1) \<or>
    (\<exists>p < i. innermost r i = int p \<and> bounds_line r line p)"
proof (cases "ancestors r i")
  case Nil
  then show ?thesis using around_line[OF assms] by (auto simp: innermost_def is_innermost_at_def)
next
  case (Cons p ps)
  have p: "p < i" "encloses r p i"
    using Cons set_filter[of "\<lambda>j. encloses r j i" "rev [0..<i]"] unfolding ancestors_def by auto
  have "sorted_wrt (\<lambda>x y. y < x) (rev [0..<i])" by (simp add: sorted_wrt_rev sorted_wrt_upt)
  then have "sorted_wrt (\<lambda>x y. y < x) (ancestors r i)" unfolding ancestors_def by (rule sorted_wrt_filter)
  then have "j \<le> p" if "j \<in> set (ancestors r i)" for j
    using that by (auto simp: Cons less_imp_le)
  then have "\<forall>j < FoldingRegions_length r. FoldingRegions_contains r j line \<longrightarrow> j \<le> p"
    using around_line[OF assms] by auto
  then have "bounds_line r line p"
    using assms(2) p by (auto simp: bounds_line_def encloses_def)
  then show ?thesis using p(1) by (auto simp: innermost_def Cons)
qed

lemma findRange_loop_correct:
  assumes "nested_regions r" "parents_ok r" "bounds_line r line i"
  shows "\<exists>r' p. findRange_loop r line (int i) = Some (r', Inr p) \<and> same_lines r r' \<and> is_innermost_at r line p"
  using assms
proof (induction i arbitrary: r rule: less_induct)
  case (less i)
  have i: "i < FoldingRegions_length r" using less.prems(3) by (simp add: bounds_line_def)
  show ?case
  proof (cases "FoldingRegions_contains r i line")
    case True
    then show ?thesis
      using less.prems(3)
      by (subst findRange_loop.simps) (auto simp: is_innermost_at_def bounds_line_def same_lines_def)
  next
    case False
    obtain r' where r': "FoldingRegions_getParentIndex r i = (r', Inr (innermost r i))" "same_lines r r'" "parents_ok r'"
      using getParentIndex_innermost[OF less.prems(1,2) i] by blast
    have step: "findRange_loop r line (int i) = findRange_loop r' line (innermost r i)"
      by (subst findRange_loop.simps) (simp add: False r'(1))
    note nr = less.prems(1)[folded same_lines_cong(5)[OF r'(2)]]
    from innermost_bounds[OF less.prems(1,3) False] show ?thesis
    proof
      assume "innermost r i = - 1 \<and> is_innermost_at r line (- 1)"
      then show ?thesis unfolding step by (subst findRange_loop.simps) (simp add: r'(2))
    next
      assume "\<exists>p < i. innermost r i = int p \<and> bounds_line r line p"
      then obtain p where p: "p < i" "innermost r i = int p" "bounds_line r' line p"
        by (auto simp: same_lines_line[OF r'(2)])
      from less.IH[OF p(1) nr r'(3) p(3)] show ?thesis
        unfolding step p(2) using r'(2) by (auto simp: same_lines_line[OF r'(2)] same_lines_def)
    qed
  qed
qed

lemma findIndex_loop_bounds:
  assumes "nested_regions r" "low \<le> high" "high \<le> FoldingRegions_length r"
    and "\<forall>k < low. region_start r k \<le> line" "\<forall>k < FoldingRegions_length r. high \<le> k \<longrightarrow> line < region_start r k"
  shows "FoldingRegions_findIndex_loop r line low high \<le> FoldingRegions_length r \<and>
    (\<forall>k < FoldingRegions_length r. k < FoldingRegions_findIndex_loop r line low high \<longleftrightarrow> region_start r k \<le> line)"
  using assms
proof (induction r line low high rule: FoldingRegions_findIndex_loop.induct)
  case (1 r line low high)
  have mono: "region_start r k \<le> region_start r l" if "k \<le> l" "l < FoldingRegions_length r" for k l
    using that nested_regionsD(2)[OF "1.prems"(1), of l k] by (cases "k = l") auto
  show ?case
  proof (cases "low < high")
    case False
    then show ?thesis using "1.prems" by (subst (1 2) FoldingRegions_findIndex_loop.simps) (auto simp: not_less)
  next
    case lt: True
    let ?mid = "(low + high) div 2"
    have mid: "low \<le> ?mid" "?mid < high" "?mid < FoldingRegions_length r" using lt "1.prems"(3) by auto
    show ?thesis
    proof (cases "line < region_start r ?mid")
      case True
      have "\<forall>k < FoldingRegions_length r. ?mid \<le> k \<longrightarrow> line < region_start r k"
        using True mono by (meson order_less_le_trans)
      moreover have "FoldingRegions_findIndex_loop r line low high = FoldingRegions_findIndex_loop r line low ?mid"
        using lt True by (subst FoldingRegions_findIndex_loop.simps) (simp add: Let_def)
      ultimately show ?thesis
        using "1.IH"(1)[OF lt refl True "1.prems"(1) mid(1)] "1.prems"(4) mid(3) by simp
    next
      case False
      have "\<forall>k < ?mid + 1. region_start r k \<le> line"
        using False mono[OF _ mid(3)] by (fastforce simp: less_Suc_eq_le)
      moreover have "FoldingRegions_findIndex_loop r line low high = FoldingRegions_findIndex_loop r line (?mid + 1) high"
        using lt False by (subst FoldingRegions_findIndex_loop.simps) (simp add: Let_def)
      ultimately show ?thesis
        using "1.IH"(2)[OF lt refl False "1.prems"(1)] "1.prems"(3,5) mid(2) by simp
    qed
  qed
qed

lemma findRange_total:
  assumes "nested_regions r" "parents_ok r"
  shows "\<exists>r' p. FoldingRegions_findRange r line = Some (r', Inr p) \<and> same_lines r r' \<and> is_innermost_at r line p"
proof -
  let ?l = "FoldingRegions_findIndex_loop r line 0 (FoldingRegions_length r)"
  have l: "?l \<le> FoldingRegions_length r"
    "\<forall>k < FoldingRegions_length r. k < ?l \<longleftrightarrow> region_start r k \<le> line"
    using findIndex_loop_bounds[OF assms(1), of 0 "FoldingRegions_length r" line] by auto
  have idx: "FoldingRegions_findIndex r line = int ?l - 1"
    using FoldingRegions_findIndex_loop.simps[of r line 0 0]
    by (simp add: FoldingRegions_findIndex_def Let_def FoldingRegions_length_def)
  show ?thesis
  proof (cases ?l)
    case 0
    then show ?thesis
      using l by (auto simp: FoldingRegions_findRange_def Let_def idx is_innermost_at_def FoldingRegions_contains_def same_lines_def)
  next
    case (Suc i)
    have "i < FoldingRegions_length r" "i < ?l" using l(1) Suc by auto
    then have "region_start r i \<le> line" using l(2) by blast
    then have b: "bounds_line r line i"
      using l Suc by (auto simp: bounds_line_def FoldingRegions_contains_def less_Suc_eq_le)
    have i: "FoldingRegions_findIndex r line = int i" using idx Suc by simp
    have start: "region_start r i \<le> line" using b by (simp add: bounds_line_def)
    have eq: "FoldingRegions_findRange r line = findRange_loop r line (int i)"
      unfolding FoldingRegions_findRange_def i
      by (subst findRange_loop.simps) (simp add: Let_def FoldingRegions_contains_def start)
    show ?thesis unfolding eq by (rule findRange_loop_correct[OF assms b])
  qed
qed

text \<open>
  C32. In a well nested store \<open>findRange\<close> returns, without an error, the innermost region that
  contains the line, or -1 when no region does; the lines of the regions stay as they are
  although the parent indices are packed into the same words on the way.
\<close>

theorem findRange_innermost:
  assumes "nested_regions r" "parents_ok r"
  shows "\<exists>r' p. FoldingRegions_findRange r line = Some (r', Inr p) \<and> same_lines r r' \<and> is_innermost_at r line p"
  using assms by (rule findRange_total)

lemma stored_lines:
  assumes "storable xs" "i < length xs"
  shows "region_start (fromFoldRanges_states xs 0 (new_regions xs)) i = fstart (xs ! i)"
    and "region_end (fromFoldRanges_states xs 0 (new_regions xs)) i = fend (xs ! i)"
  using arg_cong[OF toFoldRange_fromFoldRanges[OF assms], of fstart]
    arg_cong[OF toFoldRange_fromFoldRanges[OF assms], of fend]
  by (simp_all add: FoldingRegions_toFoldRange_def FoldingRegions_getStartLineNumber_def FoldingRegions_getEndLineNumber_def)

lemma line_word_small: "0 \<le> k \<Longrightarrow> k \<le> 0xFFFFFF \<Longrightarrow> word_of_int k \<le> MAX_LINE_NUMBER"
  by (simp add: word_le_def MAX_LINE_NUMBER_def uint_word_of_int)

lemma stored_nested:
  assumes "storable xs" "well_nested mx xs"
  shows "\<exists>r. FoldingRegions_fromFoldRanges xs = Inr r \<and> nested_regions r \<and> parents_ok r \<and>
     map (FoldingRegions_toFoldRange r) [0..<FoldingRegions_length r] = xs"
proof -
  let ?r = "fromFoldRanges_states xs 0 (new_regions xs)"
  have len: "FoldingRegions_length ?r = length xs" "length (fr_endIndexes ?r) = length xs"
    by (simp_all add: FoldingRegions_length_def new_regions_def)
  have f: "follows (xs ! i) (xs ! j)" if "i < j" "j < length xs" for i j
    using assms(2) that by (simp add: well_nested_def sorted_wrt_iff_nth_less)
  have v: "fstart (xs ! i) < fend (xs ! i)" if "i < length xs" for i
    using assms(2) that by (auto simp: well_nested_def list_all_length valid_fold_def)
  have "nested_regions ?r"
    unfolding nested_regions_def len
    using f v assms(1) by (auto simp: stored_lines[OF assms(1)] follows_def storable_def less_imp_le)
  moreover have "unpacked ?r"
    unfolding unpacked_def len using assms(1)
    by (auto simp: new_regions_def storable_def list_all_length intro!: line_word_small)
  then have "parents_ok ?r" by (simp add: parents_ok_def new_regions_def)
  moreover have "map (FoldingRegions_toFoldRange ?r) [0..<length xs] = xs"
    by (rule nth_equalityI) (simp_all add: toFoldRange_fromFoldRanges[OF assms(1)])
  ultimately show ?thesis
    using fromFoldRanges_eq[of xs] assms(1) len(1) by (auto simp: storable_def)
qed

theorem findRange_innermost_witness:
  "\<exists>r r' p. FoldingRegions_fromFoldRanges [sample_fold 1 9 FoldSource_provider, sample_fold 2 4 FoldSource_provider] = Inr r \<and>
     FoldingRegions_findRange r 6 = Some (r', Inr p) \<and> same_lines r r' \<and> is_innermost_at r 6 p"
proof -
  obtain r where r: "nested_regions r" "parents_ok r"
    "FoldingRegions_fromFoldRanges [sample_fold 1 9 FoldSource_provider, sample_fold 2 4 FoldSource_provider] = Inr r"
    using stored_nested[of "[sample_fold 1 9 FoldSource_provider, sample_fold 2 4 FoldSource_provider]" None]
    by (auto simp: storable_def well_nested_def follows_def valid_fold_def sample_fold_def MAX_FOLDING_REGIONS_def)
  then show ?thesis using findRange_innermost[OF r(1,2), of 6] by auto
qed

text \<open>
  The pipeline of the folding model: merge the provider's and the user's ranges, store the
  result and look a line up. The lookup returns the innermost merged range that contains the line.
\<close>

theorem merged_findRange:
  assumes "sorted_starts (getIndexedFunction A)" "sorted_starts (getIndexedFunction B)"
    and "storable (sanitizeAndMerge A B mx sel)"
  shows "\<exists>r r' p. FoldingRegions_fromFoldRanges (sanitizeAndMerge A B mx sel) = Inr r \<and>
     FoldingRegions_findRange r line = Some (r', Inr p) \<and>
     (if p = - 1 then \<forall>x \<in> set (sanitizeAndMerge A B mx sel). \<not> (fstart x \<le> line \<and> line \<le> fend x)
      else 0 \<le> p \<and> nat p < length (sanitizeAndMerge A B mx sel) \<and>
        (let m = sanitizeAndMerge A B mx sel ! nat p
         in fstart m \<le> line \<and> line \<le> fend m \<and>
            (\<forall>x \<in> set (sanitizeAndMerge A B mx sel). fstart x \<le> line \<and> line \<le> fend x \<longrightarrow>
               fstart x \<le> fstart m \<and> fend m \<le> fend x)))"
proof -
  let ?xs = "sanitizeAndMerge A B mx sel"
  have wn: "well_nested mx ?xs" by (rule sanitizeAndMerge_nested[OF assms(1,2)])
  let ?r = "fromFoldRanges_states ?xs 0 (new_regions ?xs)"
  have r: "FoldingRegions_fromFoldRanges ?xs = Inr ?r" using assms(3) by (simp add: fromFoldRanges_eq storable_def)
  then have nr: "nested_regions ?r" "parents_ok ?r" using stored_nested[OF assms(3) wn] by auto
  have len: "FoldingRegions_length ?r = length ?xs" by (simp add: FoldingRegions_length_def new_regions_def)
  have c: "FoldingRegions_contains ?r i line = (fstart (?xs ! i) \<le> line \<and> line \<le> fend (?xs ! i))" if "i < length ?xs" for i
    using stored_lines[OF assms(3) that] by (simp add: FoldingRegions_contains_def)
  obtain r' p where p: "FoldingRegions_findRange ?r line = Some (r', Inr p)" "is_innermost_at ?r line p"
    using findRange_total[OF nr] by blast
  have inside: "fstart x \<le> fstart y \<and> fend y \<le> fend x"
    if "x = ?xs ! i" "y = ?xs ! j" "i \<le> j" "j < length ?xs" "fstart x \<le> line" "line \<le> fend x" "fstart y \<le> line" for x y i j
  proof (cases "i = j")
    case False
    then have "follows x y" using wn that by (auto simp: well_nested_def sorted_wrt_iff_nth_less)
    then show ?thesis using that by (auto simp: follows_def)
  qed (use that in auto)
  show ?thesis
    using r p inside
    by (auto simp: is_innermost_at_def len c Let_def in_set_conv_nth split: if_splits)
qed

theorem merged_findRange_witness:
  "\<exists>r r' p. FoldingRegions_fromFoldRanges (sanitizeAndMerge (MergeRanges [sample_fold 1 9 FoldSource_provider])
        (MergeRanges [sample_fold 2 4 FoldSource_userDefined]) (Some 12) None) = Inr r \<and>
     FoldingRegions_findRange r 6 = Some (r', Inr p)"
proof -
  have m: "sanitizeAndMerge (MergeRanges [sample_fold 1 9 FoldSource_provider])
      (MergeRanges [sample_fold 2 4 FoldSource_userDefined]) (Some 12) None =
      [sample_fold 1 9 FoldSource_provider, sample_fold 2 4 FoldSource_userDefined]"
    by (simp add: sanitizeAndMerge_def merge_useRange_def merge_only_B_def sample_fold_def)
  show ?thesis
    using merged_findRange[of "MergeRanges [sample_fold 1 9 FoldSource_provider]"
        "MergeRanges [sample_fold 2 4 FoldSource_userDefined]" "Some 12" None 6]
    unfolding m by (auto simp: sorted_starts_def storable_def sample_fold_def MAX_FOLDING_REGIONS_def)
qed

section \<open>Lines beyond the limit\<close>

definition beyond :: folding_regions where
  "beyond = fromFoldRanges_states [sample_fold 1 0x1000010 FoldSource_userDefined] 0
     (new_regions [sample_fold 1 0x1000010 FoldSource_userDefined])"

lemma beyond_arrays: "fr_startIndexes beyond = [1]" "fr_endIndexes beyond = [0x1000010]" "\<not> fr_parentsComputed beyond"
  by (simp_all add: beyond_def new_regions_def sample_fold_def)

lemma beyond_lines:
  assumes "fr_startIndexes r = [1]" "fr_endIndexes r = [0x1000010]" "fr_parentsComputed r"
  shows "\<not> FoldingRegions_contains r 0 20" "\<not> FoldingRegions_contains r 256 20"
    "FoldingRegions_getParentIndex r 0 = (r, Inr 256)" "FoldingRegions_getParentIndex r 256 = (r, Inr 0)"
  using assms
  by (simp_all add: FoldingRegions_contains_def FoldingRegions_getStartLineNumber_def FoldingRegions_getEndLineNumber_def
      u32_at_def MAX_LINE_NUMBER_def FoldingRegions_getParentIndex_def ensureParentIndices_def packedParent_def
      MASK_INDENT_def MAX_FOLDING_REGIONS_def)

definition in_circle :: "folding_regions \<Rightarrow> int \<Rightarrow> int \<Rightarrow> bool" where
  "in_circle r line index =
     (fr_startIndexes r = [1] \<and> fr_endIndexes r = [0x1000010] \<and> fr_parentsComputed r \<and> line = 20 \<and>
      (index = 0 \<or> index = 256))"

lemma findRange_loop_circle: "findRange_loop r line index = Some y \<Longrightarrow> \<not> in_circle r line index"
proof (rule findRange_loop.raw_induct[of "\<lambda>r line index y. \<not> in_circle r line index"])
  fix f :: "folding_regions \<Rightarrow> int \<Rightarrow> int \<Rightarrow> (folding_regions \<times> int result) option" and r line index y
  assume IH: "\<And>r line index y. f r line index = Some y \<Longrightarrow> \<not> in_circle r line index"
    and step: "(if index \<noteq> - 1 then
        if FoldingRegions_contains r (nat index) line then Some (r, Inr index)
        else (case FoldingRegions_getParentIndex r (nat index) of
                (r', Inl e) \<Rightarrow> Some (r', Inl e)
              | (r', Inr parent) \<Rightarrow> f r' line parent)
      else Some (r, Inr (- 1))) = Some y"
  show "\<not> in_circle r line index"
  proof
    assume c: "in_circle r line index"
    then have "index = 0 \<and> f r line 256 = Some y \<or> index = 256 \<and> f r line 0 = Some y"
      using step beyond_lines[of r] by (auto simp: in_circle_def)
    then show False using c IH[of r line 256 y] IH[of r line 0 y] by (auto simp: in_circle_def)
  qed
qed

text \<open>
  A region that ends beyond line 0xFFFFFF is stored, but \<open>ensureParentIndices\<close> refuses it
  with an error, after it has marked the parents as computed. The first \<open>findRange\<close> below the
  masked end of such a region throws; a second call takes the high bytes of the line for a parent index, and
  the walk to the parents goes around in a circle for ever.
\<close>

theorem findRange_beyond_limit:
  "FoldingRegions_fromFoldRanges [sample_fold 1 0x1000010 FoldSource_userDefined] = Inr beyond \<and>
   (\<exists>r. FoldingRegions_findRange beyond 20 = Some (r, Inl JsError) \<and> FoldingRegions_findRange r 20 = None)"
proof -
  let ?r = "beyond\<lparr>fr_parentsComputed := True\<rparr>"
  have i: "FoldingRegions_findIndex r 20 = 0" if "fr_startIndexes r = [1]" for r
    using that by (simp add: FoldingRegions_findIndex_def FoldingRegions_findIndex_loop.simps
        FoldingRegions_getStartLineNumber_def u32_at_def MAX_LINE_NUMBER_def)
  have e: "region_end r 0 = 16" if "fr_endIndexes r = [0x1000010]" for r
    using that by (simp add: FoldingRegions_getEndLineNumber_def u32_at_def MAX_LINE_NUMBER_def)
  have "FoldingRegions_findRange beyond 20 = Some (?r, Inl JsError)"
    using beyond_arrays
    by (simp add: FoldingRegions_findRange_def i e FoldingRegions_getParentIndex_def ensureParentIndices_def
        MAX_LINE_NUMBER_def)
  moreover have "findRange_loop ?r 20 256 = None"
    using findRange_loop_circle[of ?r 20 256] beyond_arrays by (cases "findRange_loop ?r 20 256") (auto simp: in_circle_def)
  then have "FoldingRegions_findRange ?r 20 = None"
    using beyond_arrays beyond_lines(3)[of ?r] by (simp add: FoldingRegions_findRange_def i e)
  moreover have "FoldingRegions_fromFoldRanges [sample_fold 1 0x1000010 FoldSource_userDefined] = Inr beyond"
    by (simp add: fromFoldRanges_eq beyond_def MAX_FOLDING_REGIONS_def)
  ultimately show ?thesis by blast
qed

end
