(* ===== verification/JsStrings.thy ===== *)
theory JsStrings
  imports Prelude
begin

text \<open>
  The string methods of JavaScript that the services of the runtime use, on lists of UTF-16 code
  units: literals, white space and \<open>trim\<close>, \<open>startsWith\<close>, \<open>endsWith\<close>, \<open>includes\<close>, \<open>split\<close> and
  \<open>join\<close> at one code unit or at a string, and the decimal digits of an integer.
\<close>

definition js_lit :: "string \<Rightarrow> jsstring" where
  "js_lit s = map of_char s"

abbreviation ch_slash :: nat where "ch_slash \<equiv> 47"
abbreviation ch_backslash :: nat where "ch_backslash \<equiv> 92"
abbreviation ch_star :: nat where "ch_star \<equiv> 42"
abbreviation ch_question :: nat where "ch_question \<equiv> 63"
abbreviation ch_dot :: nat where "ch_dot \<equiv> 46"

text \<open>The line terminators \<open>.\<close> does not match, and the white space of \<open>\s\<close> and of \<open>trim\<close>.\<close>

definition is_lineterm :: "nat \<Rightarrow> bool" where
  "is_lineterm c = (c = 10 \<or> c = 13 \<or> c = 0x2028 \<or> c = 0x2029)"

definition is_space :: "nat \<Rightarrow> bool" where
  "is_space c =
     (9 \<le> c \<and> c \<le> 13 \<or> c = 32 \<or> c = 0xA0 \<or> c = 0x1680 \<or> 0x2000 \<le> c \<and> c \<le> 0x200A \<or>
      c = 0x2028 \<or> c = 0x2029 \<or> c = 0x202F \<or> c = 0x205F \<or> c = 0x3000 \<or> c = 0xFEFF)"

definition js_trim :: "jsstring \<Rightarrow> jsstring" where
  "js_trim s = rev (dropWhile is_space (rev (dropWhile is_space s)))"

definition js_startsWith :: "jsstring \<Rightarrow> jsstring \<Rightarrow> bool" where
  "js_startsWith s p = (take (length p) s = p)"

definition js_endsWith :: "jsstring \<Rightarrow> jsstring \<Rightarrow> bool" where
  "js_endsWith s p = (length p \<le> length s \<and> drop (length s - length p) s = p)"

fun js_includes :: "jsstring \<Rightarrow> jsstring \<Rightarrow> bool" where
  "js_includes [] p = (p = [])"
| "js_includes (c # s) p = (js_startsWith (c # s) p \<or> js_includes s p)"

fun js_split :: "nat \<Rightarrow> jsstring \<Rightarrow> jsstring list" where
  "js_split d [] = [[]]"
| "js_split d (c # s) =
     (if c = d then [] # js_split d s else (c # hd (js_split d s)) # tl (js_split d s))"

fun js_join :: "nat \<Rightarrow> jsstring list \<Rightarrow> jsstring" where
  "js_join d [] = []"
| "js_join d [p] = p"
| "js_join d (p # q # ps) = p @ d # js_join d (q # ps)"

text \<open>\<open>join\<close> and \<open>split\<close> with a string that is not empty.\<close>

fun join_with :: "jsstring \<Rightarrow> jsstring list \<Rightarrow> jsstring" where
  "join_with sep [] = []"
| "join_with sep [p] = p"
| "join_with sep (p # q # ps) = p @ sep @ join_with sep (q # ps)"

fun js_split_text :: "jsstring \<Rightarrow> jsstring \<Rightarrow> jsstring list" where
  "js_split_text d [] = [[]]"
| "js_split_text d (c # s) =
     (if d \<noteq> [] \<and> js_startsWith (c # s) d then [] # js_split_text d (drop (length d - 1) s)
      else (c # hd (js_split_text d s)) # tl (js_split_text d s))"

text \<open>\<open>String(n)\<close> of an integer.\<close>

fun nat_digits :: "nat \<Rightarrow> jsstring" where
  "nat_digits n = (if n < 10 then [48 + n] else nat_digits (n div 10) @ [48 + n mod 10])"

definition int_text :: "int \<Rightarrow> jsstring" where
  "int_text n = (if n < 0 then 45 # nat_digits (nat (- n)) else nat_digits (nat n))"

text \<open>The decimal digits \<open>\d\<close> and the number they spell.\<close>

definition is_digit :: "nat \<Rightarrow> bool" where
  "is_digit c = (48 \<le> c \<and> c \<le> 57)"

definition digits_value :: "jsstring \<Rightarrow> int" where
  "digits_value ds = foldl (\<lambda>n c. 10 * n + (int c - 48)) 0 ds"

declare nat_digits.simps [simp del]

lemma js_startsWith_iff: "js_startsWith s p \<longleftrightarrow> (\<exists>t. s = p @ t)"
  unfolding js_startsWith_def by (metis append_eq_conv_conj)

lemma js_endsWith_iff: "js_endsWith s p \<longleftrightarrow> (\<exists>t. s = t @ p)"
proof
  assume "js_endsWith s p"
  then show "\<exists>t. s = t @ p" unfolding js_endsWith_def by (metis append_take_drop_id)
qed (auto simp: js_endsWith_def)

lemma js_includes_iff: "js_includes s p \<longleftrightarrow> (\<exists>u v. s = u @ p @ v)"
proof (induction s)
  case step: (Cons c s)
  show ?case
  proof
    assume "js_includes (c # s) p"
    then consider "js_startsWith (c # s) p" | "js_includes s p" by auto
    then show "\<exists>u v. c # s = u @ p @ v"
    proof cases
      case 1
      then show ?thesis by (metis append_Nil js_startsWith_iff)
    next
      case 2
      then show ?thesis using step by (metis append_Cons)
    qed
  next
    assume "\<exists>u v. c # s = u @ p @ v"
    then obtain u v where e: "c # s = u @ p @ v" by blast
    show "js_includes (c # s) p"
    proof (cases u)
      case Nil
      then have "js_startsWith (c # s) p" using e by (auto simp: js_startsWith_iff)
      then show ?thesis by simp
    next
      case (Cons a u')
      then have "s = u' @ p @ v" using e by simp
      then show ?thesis using step by auto
    qed
  qed
qed auto

lemma js_split_not_Nil [simp]: "js_split d s \<noteq> []"
  by (cases s) auto

lemma js_join_Cons: "ps \<noteq> [] \<Longrightarrow> js_join d (p # ps) = p @ d # js_join d ps"
  by (cases ps) auto

lemma js_join_split: "js_join d (js_split d s) = s"
proof (induction s)
  case (Cons c s)
  obtain p ps where e: "js_split d s = p # ps" by (metis js_split_not_Nil list.exhaust)
  then show ?case using Cons by (cases ps) auto
qed simp

lemma js_split_parts: "p \<in> set (js_split d s) \<Longrightarrow> d \<notin> set p"
proof (induction s arbitrary: p)
  case (Cons c s)
  have "hd (js_split d s) \<in> set (js_split d s)" "set (tl (js_split d s)) \<subseteq> set (js_split d s)"
    by (simp_all add: list.set_sel(2) subsetI)
  then show ?case using Cons by (auto split: if_splits)
qed simp

lemma js_join_append:
  "ps \<noteq> [] \<Longrightarrow> qs \<noteq> [] \<Longrightarrow> js_join d (ps @ qs) = js_join d ps @ d # js_join d qs"
proof (induction ps)
  case (Cons p ps)
  then show ?case by (cases ps) (auto simp: js_join_Cons)
qed simp

lemma js_split_append:
  "d \<notin> set p \<Longrightarrow> js_split d (p @ d # s) = p # js_split d s"
  by (induction p) auto

lemma js_split_single: "d \<notin> set p \<Longrightarrow> js_split d p = [p]"
  by (induction p) auto

lemma digits_value_snoc: "digits_value (ds @ [c]) = 10 * digits_value ds + (int c - 48)"
  by (simp add: digits_value_def)

lemma nat_digits_value: "digits_value (nat_digits n) = int n"
proof (induction n rule: nat_digits.induct)
  case (1 n)
  show ?case
  proof (cases "n < 10")
    case True
    then show ?thesis by (simp add: nat_digits.simps[of n] digits_value_def)
  next
    case False
    then have "digits_value (nat_digits n) = 10 * int (n div 10) + int (n mod 10)"
      using 1 by (simp add: nat_digits.simps[of n] digits_value_snoc)
    then show ?thesis by presburger
  qed
qed

lemma nat_digits_digits: "nat_digits n \<noteq> [] \<and> list_all is_digit (nat_digits n)"
proof (induction n rule: nat_digits.induct)
  case (1 n)
  then show ?case by (auto simp: nat_digits.simps[of n] is_digit_def)
qed

lemma int_text_digits: "0 \<le> n \<Longrightarrow> int_text n \<noteq> [] \<and> list_all is_digit (int_text n) \<and> digits_value (int_text n) = n"
  using nat_digits_digits nat_digits_value by (simp add: int_text_def)

text \<open>A trimmed text begins and ends with no white space.\<close>

lemma last_dropWhile_eq: "dropWhile P xs \<noteq> [] \<Longrightarrow> last (dropWhile P xs) = last xs"
  by (induction xs) auto

lemma js_trim_cases:
  "js_trim s = [] \<or> (\<not> is_space (hd (js_trim s)) \<and> \<not> is_space (last (js_trim s)))"
proof -
  let ?r = "dropWhile is_space (rev (dropWhile is_space s))"
  have "?r \<noteq> [] \<Longrightarrow> \<not> is_space (hd ?r)" by (rule hd_dropWhile)
  moreover have "\<not> is_space (last ?r)" if "?r \<noteq> []"
  proof -
    have ne: "dropWhile is_space s \<noteq> []"
    proof
      assume "dropWhile is_space s = []"
      then have "?r = []" by (metis dropWhile.simps(1) rev.simps(1))
      then show False using that by (rule notE[rotated])
    qed
    have "last ?r = hd (dropWhile is_space s)" using last_dropWhile_eq[OF that] ne by (simp add: last_rev)
    then show ?thesis using hd_dropWhile[OF ne] by simp
  qed
  ultimately show ?thesis
    by (cases "?r = []") (simp_all add: js_trim_def hd_rev last_rev del: dropWhile_eq_Nil_conv)
qed

lemma trimmed_iff: "js_trim s = s \<longleftrightarrow> s = [] \<or> (\<not> is_space (hd s) \<and> \<not> is_space (last s))"
proof
  assume "js_trim s = s"
  then show "s = [] \<or> (\<not> is_space (hd s) \<and> \<not> is_space (last s))" using js_trim_cases[of s] by simp
next
  assume "s = [] \<or> (\<not> is_space (hd s) \<and> \<not> is_space (last s))"
  moreover have "js_trim s = s" if "s \<noteq> []" "\<not> is_space (hd s)" "\<not> is_space (last s)"
  proof -
    have "dropWhile is_space s = s" using that by (cases s) auto
    moreover have "dropWhile is_space (rev s) = rev s" using that by (cases s rule: rev_cases) auto
    ultimately show ?thesis by (simp add: js_trim_def)
  qed
  ultimately show "js_trim s = s" by (cases "s = []") (auto simp: js_trim_def)
qed

lemma js_trim_idem [simp]: "js_trim (js_trim s) = js_trim s"
  using js_trim_cases[of s] by (simp add: trimmed_iff)

end
