(* ===== verification/BotAuthorization.thy ===== *)
theory BotAuthorization
  imports JsStrings
begin

text \<open>
  What a Bot may do without asking: \<^verbatim>\<open>vs/latentRuntime/node/bots/authorization.ts\<close>, and the
  check on resolved paths at the end of \<^verbatim>\<open>vs/latentRuntime/node/bots/tools.ts\<close>.

  A glob pattern is translated to a regular expression that is a sequence of simple pieces; the
  model keeps the pieces as tokens and matches them the way the anchored regular expression does.
  The reason of a refusal is a constructor with the value the message quotes. \<open>new URL(url).hostname\<close> is
  the parameter \<open>hostname\<close>, \<open>None\<close> when the constructor throws.
\<close>

subsection \<open>Globs\<close>

text \<open>
  \<open>OptDirs\<close> is \<open>(?:.*/)?\<close>, \<open>Dirs\<close> its inside \<open>.*/\<close>, \<open>AnyChars\<close> is \<open>.*\<close>, \<open>SegChars\<close> is \<open>[^/]*\<close>,
  \<open>OneChar\<close> is \<open>[^/]\<close>, \<open>Lit\<close> a character taken literally (the regular expression escapes it when needed).
\<close>

datatype glob_token = OptDirs | Dirs | AnyChars | SegChars | OneChar | Lit nat

fun glob_tokens :: "jsstring \<Rightarrow> glob_token list" where
  "glob_tokens [] = []"
| "glob_tokens (c # cs) =
     (if c = ch_star then
        (case cs of
           d # ds \<Rightarrow>
             (if d = ch_star then
                (case ds of
                   e # es \<Rightarrow> (if e = ch_slash then OptDirs # glob_tokens es else AnyChars # glob_tokens (e # es))
                 | [] \<Rightarrow> [AnyChars])
              else SegChars # glob_tokens (d # ds))
         | [] \<Rightarrow> [SegChars])
      else if c = ch_question then OneChar # glob_tokens cs
      else Lit c # glob_tokens cs)"

fun token_weight :: "glob_token \<Rightarrow> nat" where
  "token_weight OptDirs = 2"
| "token_weight t = 1"

function glob_exec :: "glob_token list \<Rightarrow> jsstring \<Rightarrow> bool" where
  "glob_exec [] v = (v = [])"
| "glob_exec (Lit c # ts) v = (case v of x # xs \<Rightarrow> x = c \<and> glob_exec ts xs | [] \<Rightarrow> False)"
| "glob_exec (OneChar # ts) v = (case v of x # xs \<Rightarrow> x \<noteq> ch_slash \<and> glob_exec ts xs | [] \<Rightarrow> False)"
| "glob_exec (SegChars # ts) v =
     (glob_exec ts v \<or> (case v of x # xs \<Rightarrow> x \<noteq> ch_slash \<and> glob_exec (SegChars # ts) xs | [] \<Rightarrow> False))"
| "glob_exec (AnyChars # ts) v =
     (glob_exec ts v \<or> (case v of x # xs \<Rightarrow> \<not> is_lineterm x \<and> glob_exec (AnyChars # ts) xs | [] \<Rightarrow> False))"
| "glob_exec (Dirs # ts) v =
     (case v of
        x # xs \<Rightarrow> x = ch_slash \<and> glob_exec ts xs \<or> \<not> is_lineterm x \<and> glob_exec (Dirs # ts) xs
      | [] \<Rightarrow> False)"
| "glob_exec (OptDirs # ts) v = (glob_exec (Dirs # ts) v \<or> glob_exec ts v)"
  by pat_completeness auto
termination
  by (relation "measure (\<lambda>(ts, v). sum_list (map token_weight ts) + length v)") auto

definition globMatch :: "jsstring \<Rightarrow> jsstring \<Rightarrow> bool" where
  "globMatch pat val = glob_exec (glob_tokens pat) val"

subsection \<open>Paths and scope entries\<close>

definition pathMatch :: "jsstring \<Rightarrow> jsstring \<Rightarrow> bool" where
  "pathMatch pat path =
     (globMatch pat path \<or> js_endsWith pat (js_lit ''/**'') \<and> path = take (length pat - 3) pat)"

definition normalizePath :: "jsstring \<Rightarrow> jsstring" where
  "normalizePath val =
     (let s = map (\<lambda>c. if c = ch_backslash then ch_slash else c) val
      in if js_startsWith s (js_lit ''./'') then drop 2 s else s)"

record tool_entry =
  te_tool :: jsstring
  te_path :: "jsstring option"

text \<open>\<open>/^(\S+)\s+(\S.*)$/\<close> on the trimmed entry.\<close>

definition parseToolEntry :: "jsstring \<Rightarrow> tool_entry" where
  "parseToolEntry entry =
     (let s = js_trim entry;
          tool = takeWhile (\<lambda>c. \<not> is_space c) s;
          path = dropWhile is_space (dropWhile (\<lambda>c. \<not> is_space c) s)
      in if tool \<noteq> [] \<and> path \<noteq> [] \<and> list_all (\<lambda>c. \<not> is_lineterm c) path
         then \<lparr>te_tool = tool, te_path = Some (normalizePath (js_trim path))\<rparr>
         else \<lparr>te_tool = s, te_path = None\<rparr>)"

record authorization_scope =
  allowTools :: "jsstring list"
  allowPaths :: "jsstring list"
  allowNetwork :: "jsstring list"
  autoApprove :: bool

text \<open>The arguments of a call that are strings: \<open>None\<close> when absent or of another type.\<close>

record tool_args =
  arg_path :: "jsstring option"
  arg_cwd :: "jsstring option"
  arg_url :: "jsstring option"

datatype refusal =
    NotInAllowTools jsstring
  | LeavesWorkingDirectory jsstring
  | NotInAllowPaths jsstring
  | OnlyAllowedFor "jsstring option list"
  | InvalidUrl jsstring
  | HostNotAllowed jsstring

datatype authorization_decision = Allowed | Refused refusal

definition path_leaves :: "jsstring \<Rightarrow> bool" where
  "path_leaves path =
     (js_startsWith path (js_lit ''/'') \<or> js_startsWith path (js_lit ''../'') \<or>
      js_includes path (js_lit ''/../'') \<or> path = js_lit ''..'')"

definition raw_path :: "tool_args \<Rightarrow> jsstring option" where
  "raw_path args = (case arg_path args of Some p \<Rightarrow> Some p | None \<Rightarrow> arg_cwd args)"

definition authorize_network ::
    "(jsstring \<Rightarrow> jsstring option) \<Rightarrow> authorization_scope \<Rightarrow> tool_args \<Rightarrow> authorization_decision" where
  "authorize_network hostname scope args =
     (case arg_url args of
        None \<Rightarrow> Allowed
      | Some url \<Rightarrow>
          (case hostname url of
             None \<Rightarrow> Refused (InvalidUrl url)
           | Some host \<Rightarrow>
               (if \<not> list_ex (\<lambda>pat. globMatch pat host) (allowNetwork scope) then Refused (HostNotAllowed host)
                else Allowed)))"

definition authorizeToolCall ::
    "(jsstring \<Rightarrow> jsstring option) \<Rightarrow> authorization_scope \<Rightarrow> jsstring \<Rightarrow> tool_args \<Rightarrow> authorization_decision" where
  "authorizeToolCall hostname scope tool args =
     (let entries = filter (\<lambda>e. globMatch (te_tool e) tool) (map parseToolEntry (allowTools scope));
          path = map_option normalizePath (raw_path args)
      in if entries = [] then Refused (NotInAllowTools tool)
         else if path \<noteq> None \<and> path_leaves (the path) then Refused (LeavesWorkingDirectory (the path))
         else if list_ex (\<lambda>e. te_path e = None) entries then
           (if path \<noteq> None \<and> \<not> list_ex (\<lambda>pat. pathMatch (normalizePath pat) (the path)) (allowPaths scope)
            then Refused (NotInAllowPaths (the path))
            else authorize_network hostname scope args)
         else if path = None \<or> \<not> list_ex (\<lambda>e. pathMatch (the (te_path e)) (the path)) entries
         then Refused (OnlyAllowedFor (map te_path entries))
         else authorize_network hostname scope args)"

subsection \<open>Resolved paths\<close>

text \<open>
  \<open>resolve(root, relative)\<close> of the \<open>path\<close> module on POSIX, for an absolute \<open>root\<close>: the segments of both,
  or of \<open>relative\<close> alone when it is absolute, without empty and \<open>.\<close> segments, each \<open>..\<close>
  taking the segment before it away.
\<close>

definition resolve_segments :: "jsstring list \<Rightarrow> jsstring list" where
  "resolve_segments segs =
     foldl (\<lambda>acc s. if s = [] \<or> s = js_lit ''.'' then acc
                    else if s = js_lit ''..'' then butlast acc else acc @ [s]) [] segs"

definition posix_resolve :: "jsstring \<Rightarrow> jsstring \<Rightarrow> jsstring" where
  "posix_resolve root relative =
     ch_slash # js_join ch_slash (resolve_segments
       (if js_startsWith relative (js_lit ''/'') then js_split ch_slash relative
        else js_split ch_slash root @ js_split ch_slash relative))"

definition resolveInside :: "jsstring \<Rightarrow> jsstring \<Rightarrow> jsstring result" where
  "resolveInside root relative =
     (let target = posix_resolve root relative
      in if \<not> js_startsWith target (posix_resolve root []) then Inl JsError else Inr target)"

section \<open>What a glob matches\<close>

text \<open>The strings a token stands for.\<close>

fun token_matches :: "glob_token \<Rightarrow> jsstring \<Rightarrow> bool" where
  "token_matches (Lit c) p = (p = [c])"
| "token_matches OneChar p = (\<exists>c. p = [c] \<and> c \<noteq> ch_slash)"
| "token_matches SegChars p = (ch_slash \<notin> set p)"
| "token_matches AnyChars p = list_all (\<lambda>c. \<not> is_lineterm c) p"
| "token_matches Dirs p = (\<exists>q. p = q @ [ch_slash] \<and> list_all (\<lambda>c. \<not> is_lineterm c) q)"
| "token_matches OptDirs p = (p = [] \<or> (\<exists>q. p = q @ [ch_slash] \<and> list_all (\<lambda>c. \<not> is_lineterm c) q))"

lemma glob_exec_Cons:
  "glob_exec (t # ts) v \<longleftrightarrow> (\<exists>p q. v = p @ q \<and> token_matches t p \<and> glob_exec ts q)"
proof (induction v arbitrary: t)
  case Nil
  show ?case by (cases t) auto
next
  case (Cons x xs)
  have simple: "(\<exists>p q. x # xs = p @ q \<and> P p \<and> glob_exec ts q) \<longleftrightarrow>
      (P [] \<and> glob_exec ts (x # xs)) \<or> (\<exists>p q. xs = p @ q \<and> P (x # p) \<and> glob_exec ts q)" for P
    by (auto simp: Cons_eq_append_conv)
  have dirs: "(\<exists>q. x # p = q @ [ch_slash] \<and> list_all (\<lambda>c. \<not> is_lineterm c) q) \<longleftrightarrow>
      (x = ch_slash \<and> p = []) \<or>
      \<not> is_lineterm x \<and> (\<exists>q. p = q @ [ch_slash] \<and> list_all (\<lambda>c. \<not> is_lineterm c) q)" for p
    by (auto simp: Cons_eq_append_conv)
  have D: "glob_exec (Dirs # ts) (x # xs) \<longleftrightarrow> (\<exists>p q. x # xs = p @ q \<and> token_matches Dirs p \<and> glob_exec ts q)"
  proof -
    have step: "glob_exec (Dirs # ts) (x # xs) \<longleftrightarrow>
        x = ch_slash \<and> glob_exec ts xs \<or> \<not> is_lineterm x \<and> glob_exec (Dirs # ts) xs"
      by simp
    show ?thesis
      unfolding step Cons[of Dirs] simple[of "token_matches Dirs"]
      unfolding token_matches.simps dirs by auto
  qed
  show ?case
  proof (cases t)
    case OptDirs
    have "token_matches OptDirs p \<longleftrightarrow> p = [] \<or> token_matches Dirs p" for p by simp
    then show ?thesis unfolding OptDirs glob_exec.simps(7) D by auto
  next
    case Dirs
    then show ?thesis using D by simp
  next
    case AnyChars
    then show ?thesis using Cons[of AnyChars] unfolding simple by (auto simp: AnyChars)
  next
    case SegChars
    then show ?thesis using Cons[of SegChars] unfolding simple by (auto simp: SegChars)
  next
    case OneChar
    then show ?thesis unfolding simple[of "token_matches t"] by auto
  next
    case (Lit c)
    then show ?thesis unfolding simple[of "token_matches t"] by auto
  qed
qed

text \<open>
  \<open>globMatch\<close> accepts a value exactly when it can be cut into one part per token of the pattern:
  a literal character for itself, \<open>?\<close> one character but \<open>/\<close>, \<open>*\<close> characters but \<open>/\<close>, \<open>**\<close> any
  characters on one line, and \<open>**/\<close> nothing or whole directories.
\<close>

theorem globMatch_tokens:
  "globMatch pat val \<longleftrightarrow> (\<exists>parts. val = concat parts \<and> list_all2 token_matches (glob_tokens pat) parts)"
proof -
  have "glob_exec ts v \<longleftrightarrow> (\<exists>parts. v = concat parts \<and> list_all2 token_matches ts parts)" for ts v
  proof (induction ts arbitrary: v)
    case (Cons t ts)
    show ?case unfolding glob_exec_Cons Cons list_all2_Cons1 by (metis concat.simps(2))
  qed auto
  then show ?thesis by (simp add: globMatch_def)
qed

definition plain_pattern :: "jsstring \<Rightarrow> bool" where
  "plain_pattern p = (ch_star \<notin> set p \<and> ch_question \<notin> set p)"

lemma glob_tokens_plain: "plain_pattern p \<Longrightarrow> glob_tokens (p @ s) = map Lit p @ glob_tokens s"
  by (induction p) (auto simp: plain_pattern_def)

lemma glob_exec_plain: "glob_exec (map Lit p @ ts) v \<longleftrightarrow> (\<exists>w. v = p @ w \<and> glob_exec ts w)"
  by (induction p arbitrary: v) (auto split: list.splits)

lemma globMatch_plain: "plain_pattern p \<Longrightarrow> globMatch p v \<longleftrightarrow> v = p"
  using glob_tokens_plain[of p "[]"] glob_exec_plain[of p "[]" v] by (auto simp: globMatch_def)

lemma glob_exec_any: "glob_exec [AnyChars] v \<longleftrightarrow> list_all (\<lambda>c. \<not> is_lineterm c) v"
  by (induction v) auto

text \<open>A folder pattern \<open>dir/**\<close> stands for the folder and everything below it.\<close>

lemma pathMatch_folder:
  assumes "plain_pattern dir"
  shows "pathMatch (dir @ js_lit ''/**'') path \<longleftrightarrow>
    path = dir \<or> (\<exists>rest. path = dir @ ch_slash # rest \<and> list_all (\<lambda>c. \<not> is_lineterm c) rest)"
proof -
  have p: "plain_pattern (dir @ [ch_slash])" using assms by (auto simp: plain_pattern_def)
  have "glob_tokens (dir @ js_lit ''/**'') = map Lit (dir @ [ch_slash]) @ [AnyChars]"
    using glob_tokens_plain[OF p, of "[ch_star, ch_star]"] by (simp add: js_lit_def)
  then have "globMatch (dir @ js_lit ''/**'') path \<longleftrightarrow> (\<exists>w. path = (dir @ [ch_slash]) @ w \<and> glob_exec [AnyChars] w)"
    by (simp only: globMatch_def glob_exec_plain)
  then have g: "globMatch (dir @ js_lit ''/**'') path \<longleftrightarrow>
      (\<exists>rest. path = dir @ ch_slash # rest \<and> list_all (\<lambda>c. \<not> is_lineterm c) rest)"
    by (simp only: glob_exec_any) simp
  have "js_endsWith (dir @ js_lit ''/**'') (js_lit ''/**'')" by (auto simp: js_endsWith_iff)
  moreover have "take (length (dir @ js_lit ''/**'') - 3) (dir @ js_lit ''/**'') = dir" by (simp add: js_lit_def)
  ultimately show ?thesis unfolding pathMatch_def g by auto
qed

section \<open>What the guard on paths excludes\<close>

definition dotdot :: jsstring where
  "dotdot = js_lit ''..''"

lemma dotdot_units: "dotdot = [ch_dot, ch_dot]"
  by (simp add: dotdot_def js_lit_def)

lemma inner_dotdot_leaves:
  assumes "js_split ch_slash path = a # b @ dotdot # c" "c \<noteq> []"
  shows "path_leaves path"
proof -
  have p: "path = js_join ch_slash (a # b @ dotdot # c)" using js_join_split[of ch_slash path] assms(1) by simp
  have "js_join ch_slash (dotdot # c) = dotdot @ ch_slash # js_join ch_slash c"
    using assms(2) by (rule js_join_Cons)
  moreover have "js_join ch_slash ((a # b) @ dotdot # c) =
      js_join ch_slash (a # b) @ ch_slash # js_join ch_slash (dotdot # c)"
    by (rule js_join_append) auto
  ultimately have "path = js_join ch_slash (a # b) @ (ch_slash # dotdot @ [ch_slash]) @ js_join ch_slash c"
    unfolding p by simp
  then have "js_includes path (js_lit ''/../'')"
    unfolding js_includes_iff by (simp add: dotdot_units js_lit_def) blast
  then show ?thesis by (simp add: path_leaves_def)
qed

lemma guarded_path:
  assumes "\<not> path_leaves path"
  shows "dotdot \<notin> set (butlast (js_split ch_slash path))" "path \<noteq> dotdot" "hd (js_split ch_slash path) \<noteq> [] \<or> path = []"
proof -
  obtain a segs where s: "js_split ch_slash path = a # segs" by (metis js_split_not_Nil list.exhaust)
  have p: "path = js_join ch_slash (a # segs)" using js_join_split[of ch_slash path] s by simp
  show "path \<noteq> dotdot" using assms by (auto simp: path_leaves_def dotdot_def)
  have first: "segs \<noteq> [] \<Longrightarrow> a \<noteq> dotdot \<and> a \<noteq> []"
  proof (rule ccontr)
    assume ne: "segs \<noteq> []" and "\<not> (a \<noteq> dotdot \<and> a \<noteq> [])"
    then have "js_startsWith path (js_lit ''../'') \<or> js_startsWith path (js_lit ''/'')"
      unfolding p js_join_Cons[OF ne] js_startsWith_iff by (auto simp: dotdot_units js_lit_def)
    then show False using assms by (auto simp: path_leaves_def)
  qed
  show "hd (js_split ch_slash path) \<noteq> [] \<or> path = []"
  proof (cases segs)
    case Nil
    then have "path = a" using p by simp
    then show ?thesis by (metis s list.sel(1))
  next
    case (Cons b bs)
    then show ?thesis using first by (simp only: s) simp
  qed
  show "dotdot \<notin> set (butlast (js_split ch_slash path))"
  proof
    assume "dotdot \<in> set (butlast (js_split ch_slash path))"
    then obtain u v where uv: "butlast (a # segs) = u @ dotdot # v" by (metis s split_list)
    then obtain l where e: "a # segs = u @ dotdot # (v @ [l])"
      by (metis append_Cons append_assoc append_butlast_last_id list.distinct(1))
    show False
    proof (cases u)
      case Nil
      then show False using e first by auto
    next
      case (Cons a' u')
      then have "js_split ch_slash path = a # u' @ dotdot # (v @ [l])" using e s by simp
      then show False using inner_dotdot_leaves assms by blast
    qed
  qed
qed

section \<open>What an authorized call may touch\<close>

lemma authorize_network_Allowed:
  "authorize_network hostname scope args = Allowed \<longleftrightarrow>
     (\<forall>url. arg_url args = Some url \<longrightarrow>
        (\<exists>host. hostname url = Some host \<and> (\<exists>pat \<in> set (allowNetwork scope). globMatch pat host)))"
  by (auto simp: authorize_network_def list_ex_iff split: option.splits if_splits)

lemma authorizeToolCall_Allowed:
  assumes "authorizeToolCall hostname scope tool args = Allowed"
  shows "\<exists>e \<in> set (map parseToolEntry (allowTools scope)). globMatch (te_tool e) tool"
    and "raw_path args = Some p \<Longrightarrow> \<not> path_leaves (normalizePath p)"
    and "raw_path args = Some p \<Longrightarrow>
      (\<exists>pat \<in> set (allowPaths scope). pathMatch (normalizePath pat) (normalizePath p)) \<or>
      (\<exists>e \<in> set (map parseToolEntry (allowTools scope)).
         \<exists>q. globMatch (te_tool e) tool \<and> te_path e = Some q \<and> pathMatch q (normalizePath p))"
    and "authorize_network hostname scope args = Allowed"
proof -
  define es where "es = filter (\<lambda>e. globMatch (te_tool e) tool) (map parseToolEntry (allowTools scope))"
  have ne: "es \<noteq> []"
    and guard: "raw_path args = Some p \<Longrightarrow> \<not> path_leaves (normalizePath p)"
    and scoped: "raw_path args = Some p \<Longrightarrow>
      (\<exists>pat \<in> set (allowPaths scope). pathMatch (normalizePath pat) (normalizePath p)) \<or>
      (list_all (\<lambda>e. te_path e \<noteq> None) es \<and> (\<exists>e \<in> set es. pathMatch (the (te_path e)) (normalizePath p)))"
    and net: "authorize_network hostname scope args = Allowed"
    using assms unfolding authorizeToolCall_def es_def[symmetric] Let_def
    by (auto simp: list_ex_iff list_all_iff split: if_splits)
  obtain e where "e \<in> set es" using ne by (cases es) auto
  then show "\<exists>e \<in> set (map parseToolEntry (allowTools scope)). globMatch (te_tool e) tool"
    unfolding es_def by auto
  show "authorize_network hostname scope args = Allowed" by (rule net)
  show "\<not> path_leaves (normalizePath p)" if "raw_path args = Some p" using guard that .
  show "(\<exists>pat \<in> set (allowPaths scope). pathMatch (normalizePath pat) (normalizePath p)) \<or>
      (\<exists>e \<in> set (map parseToolEntry (allowTools scope)).
         \<exists>q. globMatch (te_tool e) tool \<and> te_path e = Some q \<and> pathMatch q (normalizePath p))"
    if "raw_path args = Some p"
    using scoped[OF that] unfolding es_def list_all_iff by fastforce
qed

text \<open>The guard looks at the normalised path, the tools resolve the path as it was given.\<close>

lemma guarded_raw_path:
  assumes guard: "\<not> path_leaves (normalizePath p)"
  shows "dotdot \<notin> set (butlast (js_split ch_slash p))" and "\<not> js_startsWith p (js_lit ''/'')"
proof -
  define f :: "nat \<Rightarrow> nat" where "f = (\<lambda>c. if c = ch_backslash then ch_slash else c)"
  have f [simp]: "f ch_slash = ch_slash" "f ch_dot = ch_dot" by (simp_all add: f_def)
  have n: "normalizePath p = (if js_startsWith (map f p) (js_lit ''./'') then drop 2 (map f p) else map f p)"
    by (simp add: normalizePath_def Let_def f_def)
  have slash: "\<not> js_startsWith p (js_lit ''/'')"
  proof
    assume "js_startsWith p (js_lit ''/'')"
    then obtain t where "p = ch_slash # t" by (auto simp: js_startsWith_iff js_lit_def)
    then show False using guard unfolding n by (auto simp: path_leaves_def js_startsWith_iff js_lit_def)
  qed
  then show "\<not> js_startsWith p (js_lit ''/'')" .
  have "\<not> path_leaves p"
  proof
    assume "path_leaves p"
    then consider (start) t where "p = [ch_dot, ch_dot, ch_slash] @ t"
      | (inner) u t where "p = u @ [ch_slash, ch_dot, ch_dot, ch_slash] @ t" | (eq) "p = [ch_dot, ch_dot]"
      using slash unfolding path_leaves_def js_includes_iff js_startsWith_iff
      by (auto simp: js_lit_def)
    then show False
    proof cases
      case start
      then show False using guard unfolding n by (auto simp: path_leaves_def js_startsWith_iff js_lit_def)
    next
      case eq
      then show False using guard unfolding n by (auto simp: path_leaves_def js_startsWith_iff js_lit_def)
    next
      case inner
      show False
      proof (cases "js_startsWith (map f p) (js_lit ''./'')")
        case False
        then have "normalizePath p = map f u @ [ch_slash, ch_dot, ch_dot, ch_slash] @ map f t"
          unfolding n using inner by simp
        then show False using guard by (auto simp: path_leaves_def js_includes_iff js_lit_def)
      next
        case True
        then obtain w where w: "map f p = [ch_dot, ch_slash] @ w" by (auto simp: js_startsWith_iff js_lit_def)
        then have np: "normalizePath p = w" unfolding n using True by simp
        have "map f u @ [ch_slash, ch_dot, ch_dot, ch_slash] @ map f t = ch_dot # ch_slash # w"
          using w unfolding inner by simp
        then consider "w = [ch_dot, ch_dot, ch_slash] @ map f t"
          | u' where "w = u' @ [ch_slash, ch_dot, ch_dot, ch_slash] @ map f t"
          by (auto simp: append_eq_Cons_conv)
        then show False
        proof cases
          case 1
          then show False using guard unfolding np by (auto simp: path_leaves_def js_startsWith_iff js_lit_def)
        next
          case 2
          then show False using guard unfolding np by (auto simp: path_leaves_def js_includes_iff js_lit_def)
        qed
      qed
    qed
  qed
  then show "dotdot \<notin> set (butlast (js_split ch_slash p))" by (rule guarded_path)
qed

definition resolve_step :: "jsstring list \<Rightarrow> jsstring \<Rightarrow> jsstring list" where
  "resolve_step acc s =
     (if s = [] \<or> s = js_lit ''.'' then acc else if s = js_lit ''..'' then butlast acc else acc @ [s])"

lemma resolve_segments_foldl: "resolve_segments segs = foldl resolve_step [] segs"
  unfolding resolve_segments_def resolve_step_def by meson

lemma resolve_no_dotdot:
  "dotdot \<notin> set segs \<Longrightarrow> \<exists>ys. foldl resolve_step acc segs = acc @ ys \<and> dotdot \<notin> set ys"
proof (induction segs arbitrary: acc)
  case (Cons s segs)
  have s: "s \<noteq> js_lit ''..''" using Cons.prems by (auto simp: dotdot_def)
  obtain zs where z: "resolve_step acc s = acc @ zs" "dotdot \<notin> set zs"
  proof (cases "s = [] \<or> s = js_lit ''.''")
    case True
    then show ?thesis using that[of "[]"] by (auto simp: resolve_step_def)
  next
    case False
    then show ?thesis using that[of "[s]"] s by (simp add: resolve_step_def dotdot_def)
  qed
  obtain ys where "foldl resolve_step (acc @ zs) segs = (acc @ zs) @ ys" "dotdot \<notin> set ys"
    using Cons by fastforce
  then show ?case using z by auto
qed simp

lemma resolve_nonempty: "[] \<notin> set acc \<Longrightarrow> [] \<notin> set (foldl resolve_step acc segs)"
proof (induction segs arbitrary: acc)
  case (Cons s segs)
  have "[] \<notin> set (resolve_step acc s)"
    using Cons.prems in_set_butlastD[of "[]" acc] by (auto simp: resolve_step_def)
  then show ?case using Cons.IH by simp
qed simp

lemma js_join_butlast_shorter:
  assumes "R \<noteq> []" "[] \<notin> set R"
  shows "length (js_join d (butlast R)) < length (js_join d R)"
proof (cases R rule: rev_cases)
  case (snoc bs x)
  then have "x \<noteq> []" using assms by auto
  then show ?thesis using js_join_append[of bs "[x]" d] by (cases "bs = []") (auto simp: snoc)
qed (use assms in simp)

text \<open>
  A path whose inner segments never climb, resolved with success, names the root or something
  below it: the prefix check removes the one case where the last segment leaves the root.
\<close>

lemma resolveInside_guarded:
  assumes guard: "\<not> path_leaves (normalizePath p)" and ok: "resolveInside root p = Inr target"
  shows "\<exists>ys. target = ch_slash # js_join ch_slash (resolve_segments (js_split ch_slash root) @ ys) \<and> dotdot \<notin> set ys"
proof -
  define R where "R = resolve_segments (js_split ch_slash root)"
  have R0: "[] \<notin> set R" unfolding R_def resolve_segments_foldl by (rule resolve_nonempty) simp
  obtain bs l where sp: "js_split ch_slash p = bs @ [l]" by (metis js_split_not_Nil rev_exhaust)
  have "dotdot \<notin> set bs" using guarded_raw_path(1)[OF guard] by (simp add: sp)
  then obtain ys where ys: "foldl resolve_step R bs = R @ ys" "dotdot \<notin> set ys" using resolve_no_dotdot by blast
  have seg: "resolve_segments (js_split ch_slash root @ js_split ch_slash p) = resolve_step (R @ ys) l"
    unfolding resolve_segments_foldl sp by (simp add: ys(1) R_def[unfolded resolve_segments_foldl, symmetric])
  have t: "target = ch_slash # js_join ch_slash (resolve_step (R @ ys) l)"
    using ok guarded_raw_path(2)[OF guard]
    by (simp add: resolveInside_def posix_resolve_def seg Let_def split: if_splits)
  have root: "posix_resolve root [] = ch_slash # js_join ch_slash R"
    by (simp add: posix_resolve_def R_def resolve_segments_foldl resolve_step_def js_startsWith_def js_lit_def)
  have pre: "js_startsWith target (ch_slash # js_join ch_slash R)"
    using ok by (auto simp: resolveInside_def root Let_def split: if_splits)
  show ?thesis
  proof (cases "l = dotdot \<and> ys = [] \<and> R \<noteq> []")
    case True
    then have "target = ch_slash # js_join ch_slash (butlast R)"
      using t by (simp add: resolve_step_def dotdot_def js_lit_def)
    moreover have "length (js_join ch_slash (butlast R)) < length (js_join ch_slash R)"
      using True R0 by (intro js_join_butlast_shorter) auto
    ultimately have False using pre by (auto simp: js_startsWith_iff)
    then show ?thesis ..
  next
    case False
    have "\<exists>zs. resolve_step (R @ ys) l = R @ zs \<and> dotdot \<notin> set zs"
    proof (cases "l = dotdot")
      case True
      then have "resolve_step (R @ ys) l = R @ butlast ys"
        using False by (cases "ys = []") (auto simp: resolve_step_def dotdot_def js_lit_def butlast_append)
      then show ?thesis using ys(2) by (auto dest: in_set_butlastD)
    next
      case l: False
      then show ?thesis using ys(2) by (auto simp: resolve_step_def dotdot_def)
    qed
    then show ?thesis unfolding t R_def by auto
  qed
qed


definition sample_scope :: authorization_scope where
  "sample_scope =
     \<lparr>allowTools = [js_lit ''read_file'', js_lit ''list_dir''], allowPaths = [js_lit ''paper/**''], allowNetwork = [],
      autoApprove = False\<rparr>"

lemmas authorize_eval =
  authorizeToolCall_def authorize_network_def parseToolEntry_def globMatch_def pathMatch_def normalizePath_def raw_path_def
  path_leaves_def js_trim_def is_space_def is_lineterm_def js_startsWith_def js_endsWith_def js_lit_def
  sample_scope_def Let_def




text \<open>
  The guard misses a \<open>..\<close> in the last segment: with \<open>allowPaths = ["paper/**"]\<close> a call on \<open>paper/..\<close>, the
  working directory itself, needs no approval.
\<close>

lemma authorize_trailing_dotdot:
  "authorizeToolCall hostname sample_scope (js_lit ''list_dir'')
     \<lparr>arg_path = Some (js_lit ''paper/..''), arg_cwd = None, arg_url = None\<rparr> = Allowed"
  by (simp add: authorize_eval)

text \<open>
  The check of \<open>resolveInside\<close> compares strings, so on its own (a call that was approved rather than
  authorized) it accepts a sibling whose name extends the name of the root.
\<close>

lemma resolveInside_sibling:
  "resolveInside (js_lit ''/w/run'') (js_lit ''../run-old/a'') = Inr (js_lit ''/w/run-old/a'')"
  by (simp add: resolveInside_def posix_resolve_def resolve_segments_def js_startsWith_def js_lit_def)
end
