(* ===== verification/PendingRequests.thy ===== *)
theory PendingRequests
  imports Prelude "HOL-Library.AList"
begin

text \<open>
  What the approval and the question service of the Bot runtime share
  (\<^verbatim>\<open>vs/latentRuntime/node/bots/approvals.ts\<close> and \<^verbatim>\<open>questions.ts\<close>): a map of pending requests, each with
  a timer and perhaps an abort listener, on top of the timers, abort signals and promises of the host.

  The host is a record: armed timers with their deadlines, abort listeners, aborted signals, the calls
  of promise resolvers in order, the notifications in order and the clock. The \<^verbatim>\<open>Map\<close> of a service is
  an association list in insertion order. The interface \<open>request_service\<close> says what \<open>request\<close> and
  \<open>resolve\<close> do to this record; the invariant, exactly-once settlement and the effect of timers and
  abort signals are proved from it once, for both services.
\<close>

section \<open>The host\<close>

text \<open>The entry of a pending request; the resolver it holds knows the request's signal.\<close>

record 'req pending_entry =
  pe_request :: 'req
  pe_timer :: nat
  pe_signal :: "nat option"

record ('req, 'out, 'ev) svc =
  svc_pending :: "(nat \<times> 'req pending_entry) list"
  svc_timers :: "(nat \<times> nat \<times> nat) list"
  svc_next_timer :: nat
  svc_listeners :: "(nat \<times> nat) list"
  svc_aborted :: "nat list"
  svc_settled :: "(nat \<times> 'out) list"
  svc_events :: "'ev list"
  svc_now :: nat

text \<open>A promise that is resolved from the start, or the one resolved through the entry of a request.\<close>

datatype 'out promise = Settled 'out | Awaiting nat

definition svc_init :: "nat \<Rightarrow> ('req, 'out, 'ev) svc" where
  "svc_init now =
     \<lparr>svc_pending = [], svc_timers = [], svc_next_timer = 0, svc_listeners = [], svc_aborted = [], svc_settled = [],
      svc_events = [], svc_now = now\<rparr>"

definition signal_aborted :: "nat option \<Rightarrow> ('req, 'out, 'ev) svc \<Rightarrow> bool" where
  "signal_aborted signal st = (case signal of None \<Rightarrow> False | Some s \<Rightarrow> s \<in> set (svc_aborted st))"

text \<open>\<open>setTimeout\<close> with the callback that resolves request \<open>rid\<close>, \<open>clearTimeout\<close>, and abort listeners.\<close>

definition setTimeout :: "nat \<Rightarrow> nat \<Rightarrow> ('req, 'out, 'ev) svc \<Rightarrow> nat \<times> ('req, 'out, 'ev) svc" where
  "setTimeout rid ms st =
     (svc_next_timer st,
      st\<lparr>svc_timers := svc_timers st @ [(svc_next_timer st, svc_now st + ms, rid)], svc_next_timer := svc_next_timer st + 1\<rparr>)"

definition clearTimeout :: "nat \<Rightarrow> ('req, 'out, 'ev) svc \<Rightarrow> ('req, 'out, 'ev) svc" where
  "clearTimeout h st = st\<lparr>svc_timers := filter (\<lambda>t. fst t \<noteq> h) (svc_timers st)\<rparr>"

definition addAbortListener :: "nat option \<Rightarrow> nat \<Rightarrow> ('req, 'out, 'ev) svc \<Rightarrow> ('req, 'out, 'ev) svc" where
  "addAbortListener signal rid st =
     (case signal of None \<Rightarrow> st | Some s \<Rightarrow> st\<lparr>svc_listeners := svc_listeners st @ [(s, rid)]\<rparr>)"

definition removeAbortListener :: "nat option \<Rightarrow> nat \<Rightarrow> ('req, 'out, 'ev) svc \<Rightarrow> ('req, 'out, 'ev) svc" where
  "removeAbortListener signal rid st =
     (case signal of None \<Rightarrow> st | Some s \<Rightarrow> st\<lparr>svc_listeners := filter (\<lambda>l. l \<noteq> (s, rid)) (svc_listeners st)\<rparr>)"

definition notify :: "'ev \<Rightarrow> ('req, 'out, 'ev) svc \<Rightarrow> ('req, 'out, 'ev) svc" where
  "notify ev st = st\<lparr>svc_events := svc_events st @ [ev]\<rparr>"

lemmas host_defs = setTimeout_def clearTimeout_def addAbortListener_def removeAbortListener_def notify_def

text \<open>
  What the host does later: a timer runs its callback once, an abort signal runs the listeners
  that are still there, in order and once each.
\<close>

definition fire_timer ::
    "(nat \<Rightarrow> 'out \<Rightarrow> ('req, 'out, 'ev) svc \<Rightarrow> bool \<times> ('req, 'out, 'ev) svc) \<Rightarrow> 'out \<Rightarrow> nat \<Rightarrow>
     ('req, 'out, 'ev) svc \<Rightarrow> ('req, 'out, 'ev) svc" where
  "fire_timer resolve timeout_out h st =
     (case find (\<lambda>t. fst t = h) (svc_timers st) of
        None \<Rightarrow> st
      | Some (_, _, rid) \<Rightarrow> snd (resolve rid timeout_out (clearTimeout h st)))"

definition run_listener ::
    "(nat \<Rightarrow> 'out \<Rightarrow> ('req, 'out, 'ev) svc \<Rightarrow> bool \<times> ('req, 'out, 'ev) svc) \<Rightarrow> 'out \<Rightarrow> nat \<Rightarrow>
     ('req, 'out, 'ev) svc \<Rightarrow> nat \<Rightarrow> ('req, 'out, 'ev) svc" where
  "run_listener resolve abort_out s st rid =
     (if (s, rid) \<in> set (svc_listeners st)
      then snd (resolve rid abort_out (removeAbortListener (Some s) rid st)) else st)"

definition fire_abort ::
    "(nat \<Rightarrow> 'out \<Rightarrow> ('req, 'out, 'ev) svc \<Rightarrow> bool \<times> ('req, 'out, 'ev) svc) \<Rightarrow> 'out \<Rightarrow> nat \<Rightarrow>
     ('req, 'out, 'ev) svc \<Rightarrow> ('req, 'out, 'ev) svc" where
  "fire_abort resolve abort_out s st =
     foldl (run_listener resolve abort_out s) (st\<lparr>svc_aborted := s # svc_aborted st\<rparr>)
       (map snd (filter (\<lambda>l. fst l = s) (svc_listeners st)))"

text \<open>All timers that are due, in the order they were armed.\<close>

definition run_due_timers ::
    "(nat \<Rightarrow> 'out \<Rightarrow> ('req, 'out, 'ev) svc \<Rightarrow> bool \<times> ('req, 'out, 'ev) svc) \<Rightarrow> 'out \<Rightarrow>
     ('req, 'out, 'ev) svc \<Rightarrow> ('req, 'out, 'ev) svc" where
  "run_due_timers resolve timeout_out st =
     foldl (\<lambda>st h. fire_timer resolve timeout_out h st) st
       (map fst (filter (\<lambda>(h, deadline, rid). deadline \<le> svc_now st) (svc_timers st)))"

section \<open>Steps and reachable states\<close>

text \<open>
  The interleavings of a service: requests with an identifier never used before (\<open>randomUUID\<close>), answers
  for any identifier at any time, a due timer, an abort signal, the clock.
\<close>

definition fresh_id :: "nat \<Rightarrow> ('req, 'out, 'ev) svc \<Rightarrow> bool" where
  "fresh_id rid st = (rid \<notin> fst ` set (svc_pending st) \<and> rid \<notin> fst ` set (svc_settled st))"

inductive svc_step ::
    "('inp \<Rightarrow> nat option \<Rightarrow> nat \<Rightarrow> nat \<Rightarrow> ('req, 'out, 'ev) svc \<Rightarrow> 'out promise \<times> ('req, 'out, 'ev) svc) \<Rightarrow>
     (nat \<Rightarrow> 'out \<Rightarrow> ('req, 'out, 'ev) svc \<Rightarrow> bool \<times> ('req, 'out, 'ev) svc) \<Rightarrow> 'out \<Rightarrow> 'out \<Rightarrow>
     ('req, 'out, 'ev) svc \<Rightarrow> ('req, 'out, 'ev) svc \<Rightarrow> bool"
  for request resolve timeout_out abort_out where
  step_request: "fresh_id rid st \<Longrightarrow>
     svc_step request resolve timeout_out abort_out st (snd (request inp signal ms rid st))"
| step_respond: "svc_step request resolve timeout_out abort_out st (snd (resolve rid out st))"
| step_timer: "(h, deadline, rid) \<in> set (svc_timers st) \<Longrightarrow> deadline \<le> svc_now st \<Longrightarrow>
     svc_step request resolve timeout_out abort_out st (fire_timer resolve timeout_out h st)"
| step_abort: "svc_step request resolve timeout_out abort_out st (fire_abort resolve abort_out s st)"
| step_clock: "svc_now st \<le> now' \<Longrightarrow>
     svc_step request resolve timeout_out abort_out st (st\<lparr>svc_now := now'\<rparr>)"

inductive svc_reachable ::
    "('inp \<Rightarrow> nat option \<Rightarrow> nat \<Rightarrow> nat \<Rightarrow> ('req, 'out, 'ev) svc \<Rightarrow> 'out promise \<times> ('req, 'out, 'ev) svc) \<Rightarrow>
     (nat \<Rightarrow> 'out \<Rightarrow> ('req, 'out, 'ev) svc \<Rightarrow> bool \<times> ('req, 'out, 'ev) svc) \<Rightarrow> 'out \<Rightarrow> 'out \<Rightarrow>
     ('req, 'out, 'ev) svc \<Rightarrow> bool"
  for request resolve timeout_out abort_out where
  reach_init: "svc_reachable request resolve timeout_out abort_out (svc_init now)"
| reach_step: "svc_reachable request resolve timeout_out abort_out st \<Longrightarrow>
     svc_step request resolve timeout_out abort_out st st' \<Longrightarrow>
     svc_reachable request resolve timeout_out abort_out st'"

section \<open>The interface\<close>

text \<open>The effect of a request that is registered and of one that is settled, with the event sent.\<close>

definition register_effect ::
    "nat \<Rightarrow> 'req \<Rightarrow> nat option \<Rightarrow> nat \<Rightarrow> 'ev \<Rightarrow> ('req, 'out, 'ev) svc \<Rightarrow> ('req, 'out, 'ev) svc" where
  "register_effect rid req signal ms ev st =
     notify ev (addAbortListener signal rid
       (let (h, st1) = setTimeout rid ms st
        in st1\<lparr>svc_pending := AList.update rid \<lparr>pe_request = req, pe_timer = h, pe_signal = signal\<rparr> (svc_pending st1)\<rparr>))"

definition settle_effect ::
    "nat \<Rightarrow> 'out \<Rightarrow> 'req pending_entry \<Rightarrow> 'ev \<Rightarrow> ('req, 'out, 'ev) svc \<Rightarrow> ('req, 'out, 'ev) svc" where
  "settle_effect rid out e ev st =
     (let st1 = (clearTimeout (pe_timer e) st)\<lparr>svc_pending := AList.delete rid (svc_pending st)\<rparr>;
          st2 = removeAbortListener (pe_signal e) rid st1
      in notify ev (st2\<lparr>svc_settled := svc_settled st2 @ [(rid, out)]\<rparr>))"

text \<open>
  The contract. \<open>announced\<close> and \<open>closed\<close> read the identifier off a notification.
\<close>

locale request_service =
  fixes request :: "'inp \<Rightarrow> nat option \<Rightarrow> nat \<Rightarrow> nat \<Rightarrow> ('req, 'out, 'ev) svc \<Rightarrow> 'out promise \<times> ('req, 'out, 'ev) svc"
    and resolve :: "nat \<Rightarrow> 'out \<Rightarrow> ('req, 'out, 'ev) svc \<Rightarrow> bool \<times> ('req, 'out, 'ev) svc"
    and timeout_out :: 'out
    and abort_out :: 'out
    and expires_at :: "'req \<Rightarrow> nat"
    and announced :: "'ev \<Rightarrow> nat option"
    and closed :: "'ev \<Rightarrow> nat option"
  assumes request_aborted: "signal_aborted signal st \<Longrightarrow> request inp signal ms rid st = (Settled abort_out, st)"
    and request_registers: "\<not> signal_aborted signal st \<Longrightarrow>
      \<exists>req ev. request inp signal ms rid st = (Awaiting rid, register_effect rid req signal ms ev st) \<and>
        expires_at req = svc_now st + ms \<and> announced ev = Some rid \<and> closed ev = None"
    and resolve_absent: "map_of (svc_pending st) rid = None \<Longrightarrow> resolve rid out st = (False, st)"
    and resolve_settles: "map_of (svc_pending st) rid = Some e \<Longrightarrow>
      \<exists>ev. resolve rid out st = (True, settle_effect rid out e ev st) \<and> announced ev = None \<and> closed ev = Some rid"

section \<open>The invariant\<close>

text \<open>
  Timers and listeners are those of the pending requests, in the same order; no request is both
  pending and settled and none is settled twice; the notifications announce every request once
  and close exactly the settled ones, in order; no pending request has an aborted signal.
\<close>

definition timer_of :: "('req \<Rightarrow> nat) \<Rightarrow> nat \<times> 'req pending_entry \<Rightarrow> nat \<times> nat \<times> nat" where
  "timer_of expires_at p = (pe_timer (snd p), expires_at (pe_request (snd p)), fst p)"

definition listener_of :: "nat \<times> 'req pending_entry \<Rightarrow> (nat \<times> nat) option" where
  "listener_of p = map_option (\<lambda>s. (s, fst p)) (pe_signal (snd p))"

definition svc_wf ::
    "('req \<Rightarrow> nat) \<Rightarrow> ('ev \<Rightarrow> nat option) \<Rightarrow> ('ev \<Rightarrow> nat option) \<Rightarrow> ('req, 'out, 'ev) svc \<Rightarrow> bool" where
  "svc_wf expires_at announced closed st \<longleftrightarrow>
     distinct (map fst (svc_pending st) @ map fst (svc_settled st)) \<and>
     svc_timers st = map (timer_of expires_at) (svc_pending st) \<and>
     distinct (map fst (svc_timers st)) \<and> (\<forall>t \<in> set (svc_timers st). fst t < svc_next_timer st) \<and>
     svc_listeners st = List.map_filter listener_of (svc_pending st) \<and>
     distinct (List.map_filter announced (svc_events st)) \<and>
     set (List.map_filter announced (svc_events st)) = fst ` set (svc_pending st) \<union> fst ` set (svc_settled st) \<and>
     List.map_filter closed (svc_events st) = map fst (svc_settled st)"

definition no_aborted_pending :: "('req, 'out, 'ev) svc \<Rightarrow> bool" where
  "no_aborted_pending st \<longleftrightarrow> (\<forall>(rid, e) \<in> set (svc_pending st). \<not> signal_aborted (pe_signal e) st)"

lemma map_filter_append: "List.map_filter f (xs @ ys) = List.map_filter f xs @ List.map_filter f ys"
  by (simp add: List.map_filter_def)

lemma AList_update_fresh: "k \<notin> fst ` set xs \<Longrightarrow> AList.update k v xs = xs @ [(k, v)]"
  by (induction xs) auto

lemma AList_delete_filter: "AList.delete k xs = filter (\<lambda>p. fst p \<noteq> k) xs"
  by (induction xs) (auto simp: AList.delete_eq)

lemma filter_map_filter:
  "List.map_filter f (filter P xs) = filter Q (List.map_filter f xs)"
  if "\<And>x y. x \<in> set xs \<Longrightarrow> f x = Some y \<Longrightarrow> Q y = P x"
  using that by (induction xs) (auto simp: List.map_filter_simps split: option.splits)

lemma svc_wf_register:
  assumes wf: "svc_wf expires_at announced closed st" and fresh: "fresh_id rid st"
    and ev: "expires_at req = svc_now st + ms" "announced ev = Some rid" "closed ev = None"
  shows "svc_wf expires_at announced closed (register_effect rid req signal ms ev st)"
    and "svc_pending (register_effect rid req signal ms ev st) =
      svc_pending st @ [(rid, \<lparr>pe_request = req, pe_timer = svc_next_timer st, pe_signal = signal\<rparr>)]"
    and "svc_aborted (register_effect rid req signal ms ev st) = svc_aborted st"
proof -
  have f: "rid \<notin> fst ` set (svc_pending st)" "rid \<notin> fst ` set (svc_settled st)" using fresh by (auto simp: fresh_id_def)
  show p: "svc_pending (register_effect rid req signal ms ev st) =
      svc_pending st @ [(rid, \<lparr>pe_request = req, pe_timer = svc_next_timer st, pe_signal = signal\<rparr>)]"
    using f by (cases signal) (simp_all add: register_effect_def host_defs AList_update_fresh)
  show "svc_aborted (register_effect rid req signal ms ev st) = svc_aborted st"
    by (cases signal) (simp_all add: register_effect_def host_defs)
  have l: "svc_listeners (register_effect rid req signal ms ev st) =
      List.map_filter listener_of (svc_pending (register_effect rid req signal ms ev st))"
    using wf unfolding p svc_wf_def
    by (cases signal) (simp_all add: register_effect_def host_defs map_filter_append List.map_filter_simps listener_of_def)
  have o: "svc_timers (register_effect rid req signal ms ev st) = svc_timers st @ [(svc_next_timer st, svc_now st + ms, rid)]"
    "svc_next_timer (register_effect rid req signal ms ev st) = svc_next_timer st + 1"
    "svc_settled (register_effect rid req signal ms ev st) = svc_settled st"
    "svc_events (register_effect rid req signal ms ev st) = svc_events st @ [ev]"
    by (cases signal; simp add: register_effect_def host_defs)+
  show "svc_wf expires_at announced closed (register_effect rid req signal ms ev st)"
    unfolding svc_wf_def l[symmetric]
    unfolding p o map_filter_append
    using wf f ev unfolding svc_wf_def
    by (auto simp: timer_of_def List.map_filter_simps less_Suc_eq) (metis less_irrefl snd_conv)
qed

lemma map_of_SomeE:
  assumes "map_of xs k = Some v"
  shows "(k, v) \<in> set xs" "k \<in> fst ` set xs"
  using map_of_SomeD[OF assms] by force+

lemma distinct_map_fst_same: "distinct (map f xs) \<Longrightarrow> x \<in> set xs \<Longrightarrow> y \<in> set xs \<Longrightarrow> f x = f y \<Longrightarrow> x = y"
  by (simp add: distinct_map inj_on_def)

text \<open>
  Settling a pending request. A timer that has just fired and a listener that has just run are gone
  from the host already, which the settlement does not notice.
\<close>

lemma settle_effect_fields:
  "svc_pending (settle_effect rid out e ev st) = AList.delete rid (svc_pending st)"
  "svc_timers (settle_effect rid out e ev st) = filter (\<lambda>t. fst t \<noteq> pe_timer e) (svc_timers st)"
  "svc_next_timer (settle_effect rid out e ev st) = svc_next_timer st"
  "svc_listeners (settle_effect rid out e ev st) =
     filter (\<lambda>l. pe_signal e = Some (fst l) \<longrightarrow> snd l \<noteq> rid) (svc_listeners st)"
  "svc_aborted (settle_effect rid out e ev st) = svc_aborted st"
  "svc_settled (settle_effect rid out e ev st) = svc_settled st @ [(rid, out)]"
  "svc_events (settle_effect rid out e ev st) = svc_events st @ [ev]"
  "svc_now (settle_effect rid out e ev st) = svc_now st"
  by (cases "pe_signal e"; auto simp: settle_effect_def host_defs Let_def intro!: filter_cong)+

lemma settle_effect_cleared:
  "settle_effect rid out e ev (clearTimeout (pe_timer e) st) = settle_effect rid out e ev st"
  by (cases "pe_signal e") (simp_all add: settle_effect_def host_defs Let_def)

lemma settle_effect_unlistened:
  "pe_signal e = Some s \<Longrightarrow> settle_effect rid out e ev (removeAbortListener (Some s) rid st) = settle_effect rid out e ev st"
  by (simp add: settle_effect_def host_defs Let_def)

lemma svc_wf_settle:
  fixes st :: "('req, 'out, 'ev) svc"
  assumes wf: "svc_wf expires_at announced closed st" and e: "map_of (svc_pending st) rid = Some e"
    and ev: "announced ev = None" "closed ev = Some rid"
  shows "svc_wf expires_at announced closed (settle_effect rid out e ev st)"
proof -
  define P :: "nat \<times> 'req pending_entry \<Rightarrow> bool" where "P = (\<lambda>p. fst p \<noteq> rid)"
  have del: "AList.delete rid (svc_pending st) = filter P (svc_pending st)"
    by (simp add: AList_delete_filter P_def)
  have mem: "(rid, e) \<in> set (svc_pending st)" using e by (rule map_of_SomeE)
  have tm: "svc_timers st = map (timer_of expires_at) (svc_pending st)" "distinct (map fst (svc_timers st))"
    and ls: "svc_listeners st = List.map_filter listener_of (svc_pending st)"
    and ds: "distinct (map fst (svc_pending st) @ map fst (svc_settled st))"
    using wf by (auto simp: svc_wf_def)
  have dp: "distinct (map fst (svc_pending st))" using ds by simp
  have same: "pe_timer (snd p) = pe_timer e \<longleftrightarrow> fst p = rid" if "p \<in> set (svc_pending st)" for p
  proof -
    have "distinct (map (\<lambda>p. pe_timer (snd p)) (svc_pending st))"
      using tm by (simp add: timer_of_def comp_def)
    then have "pe_timer (snd p) = pe_timer e \<Longrightarrow> p = (rid, e)"
      using distinct_map_fst_same[where f="\<lambda>p. pe_timer (snd p)", OF _ that mem] by simp
    moreover have "fst p = rid \<Longrightarrow> p = (rid, e)" using distinct_map_fst_same[OF dp that mem] by simp
    ultimately show ?thesis by (metis fst_conv snd_conv)
  qed
  have T: "filter (\<lambda>t. fst t \<noteq> pe_timer e) (svc_timers st) = map (timer_of expires_at) (filter P (svc_pending st))"
    unfolding tm(1) filter_map by (rule arg_cong[where f="map (timer_of expires_at)"], rule filter_cong)
      (auto simp: timer_of_def P_def same)
  have L: "filter (\<lambda>l. pe_signal e = Some (fst l) \<longrightarrow> snd l \<noteq> rid) (svc_listeners st) =
      List.map_filter listener_of (filter P (svc_pending st))"
    unfolding ls
  proof (rule filter_map_filter[symmetric])
    fix p l assume p: "p \<in> set (svc_pending st)" and "listener_of p = Some l"
    then have l: "l = (the (pe_signal (snd p)), fst p)" "pe_signal (snd p) \<noteq> None" by (auto simp: listener_of_def)
    have "fst p = rid \<Longrightarrow> snd p = e" using distinct_map_fst_same[OF dp p mem] by auto
    then show "(pe_signal e = Some (fst l) \<longrightarrow> snd l \<noteq> rid) = P p" using l by (auto simp: P_def)
  qed
  have ids: "fst ` set (filter P (svc_pending st)) \<union> insert rid (fst ` set (svc_settled st)) =
      fst ` set (svc_pending st) \<union> fst ` set (svc_settled st)"
    using mem by (auto simp: P_def) force+
  show ?thesis
    unfolding svc_wf_def settle_effect_fields del T L map_filter_append
  proof (intro conjI)
    have "set (map fst (filter P (svc_pending st))) \<inter> set (map fst (svc_settled st @ [(rid, out)])) = {}"
      using ds by (auto simp: P_def)
    moreover have "distinct (map fst (filter P (svc_pending st)))" using dp by (rule distinct_map_filter)
    moreover have "rid \<notin> set (map fst (svc_settled st))" using ds mem by force
    ultimately show "distinct (map fst (filter P (svc_pending st)) @ map fst (svc_settled st @ [(rid, out)]))"
      using ds by auto
    show "distinct (map fst (map (timer_of expires_at) (filter P (svc_pending st))))"
      using tm by (simp add: distinct_map_filter)
    show "\<forall>t \<in> set (map (timer_of expires_at) (filter P (svc_pending st))). fst t < svc_next_timer st"
      using wf by (auto simp: svc_wf_def)
    show "set (List.map_filter announced (svc_events st) @ List.map_filter announced [ev]) =
        fst ` set (filter P (svc_pending st)) \<union> fst ` set (svc_settled st @ [(rid, out)])"
      using wf ids ev by (auto simp: svc_wf_def List.map_filter_simps)
  qed (use wf ev in \<open>auto simp: svc_wf_def List.map_filter_simps\<close>)
qed

lemma no_aborted_settle:
  "no_aborted_pending st \<Longrightarrow> no_aborted_pending (settle_effect rid out e ev st)"
  by (auto simp: no_aborted_pending_def settle_effect_fields signal_aborted_def AList_delete_filter split: option.splits)

section \<open>Every step keeps the invariant\<close>

lemma find_timer:
  assumes "svc_timers st = map (timer_of expires_at) (svc_pending st)" "distinct (map fst (svc_pending st))"
    and "find (\<lambda>t. fst t = h) (svc_timers st) = Some (h', d, rid)"
  shows "\<exists>e. map_of (svc_pending st) rid = Some e \<and> pe_timer e = h \<and> d = expires_at (pe_request e)"
proof -
  have "(h', d, rid) \<in> set (svc_timers st)" "h' = h"
    using assms(3) unfolding find_Some_iff by (metis nth_mem, metis fst_conv)
  then obtain p where p: "p \<in> set (svc_pending st)" "timer_of expires_at p = (h, d, rid)"
    unfolding assms(1) by auto
  then have "map_of (svc_pending st) (fst p) = Some (snd p)" using assms(2) by simp
  then show ?thesis using p(2) by (auto simp: timer_of_def)
qed

lemma map_filter_mem: "x \<in> set xs \<Longrightarrow> f x = Some y \<Longrightarrow> y \<in> set (List.map_filter f xs)"
  by (force simp: List.map_filter_def)

lemma svc_wf_host [simp]:
  "svc_wf expires_at announced closed (st\<lparr>svc_aborted := a\<rparr>) = svc_wf expires_at announced closed st"
  "svc_wf expires_at announced closed (st\<lparr>svc_now := n\<rparr>) = svc_wf expires_at announced closed st"
  by (simp_all only: svc_wf_def svc.simps svc.select_convs svc.update_convs cong: conj_cong)
     (simp_all cong: conj_cong)

context request_service
begin

abbreviation wf :: "('req, 'out, 'ev) svc \<Rightarrow> bool" where
  "wf \<equiv> svc_wf expires_at announced closed"

lemma wf_pending_distinct: "wf st \<Longrightarrow> distinct (map fst (svc_pending st))"
  by (simp add: svc_wf_def)

lemma resolve_keeps:
  assumes "wf st"
  shows "wf (snd (resolve rid out st))"
    and "no_aborted_pending st \<Longrightarrow> no_aborted_pending (snd (resolve rid out st))"
proof (atomize (full), cases "map_of (svc_pending st) rid")
  case None
  then show "wf (snd (resolve rid out st)) \<and>
      (no_aborted_pending st \<longrightarrow> no_aborted_pending (snd (resolve rid out st)))"
    using assms resolve_absent by simp
next
  case (Some e)
  then obtain ev where "resolve rid out st = (True, settle_effect rid out e ev st)"
      "announced ev = None" "closed ev = Some rid"
    using resolve_settles by blast
  then show "wf (snd (resolve rid out st)) \<and>
      (no_aborted_pending st \<longrightarrow> no_aborted_pending (snd (resolve rid out st)))"
    using svc_wf_settle[OF assms Some] no_aborted_settle by auto
qed

lemma request_keeps:
  assumes "wf st" "no_aborted_pending st" "fresh_id rid st"
  shows "wf (snd (request inp signal ms rid st)) \<and> no_aborted_pending (snd (request inp signal ms rid st))"
proof (cases "signal_aborted signal st")
  case True
  then show ?thesis using assms request_aborted by simp
next
  case False
  then obtain req ev where r: "request inp signal ms rid st = (Awaiting rid, register_effect rid req signal ms ev st)"
      "expires_at req = svc_now st + ms" "announced ev = Some rid" "closed ev = None"
    using request_registers by blast
  note reg = svc_wf_register[where expires_at=expires_at and announced=announced and closed=closed, OF assms(1,3) r(2-4)]
  have "no_aborted_pending (register_effect rid req signal ms ev st)"
    using assms(2) False unfolding no_aborted_pending_def signal_aborted_def reg(2,3) by auto
  then show ?thesis using reg(1) r(1) by simp
qed

text \<open>A timer that fires settles its request with the timeout outcome and nothing else.\<close>

lemma fire_timer_settles:
  assumes "wf st" "map_of (svc_pending st) rid = Some e"
  shows "\<exists>ev. fire_timer resolve timeout_out (pe_timer e) st = settle_effect rid timeout_out e ev st \<and>
    announced ev = None \<and> closed ev = Some rid"
proof -
  have tm: "svc_timers st = map (timer_of expires_at) (svc_pending st)" "distinct (map fst (svc_timers st))"
    using assms(1) by (auto simp: svc_wf_def)
  have mem: "timer_of expires_at (rid, e) \<in> set (svc_timers st)"
    unfolding tm(1) using map_of_SomeE(1)[OF assms(2)] by simp
  obtain t where t: "find (\<lambda>t. fst t = pe_timer e) (svc_timers st) = Some t"
    using mem by (cases "find (\<lambda>t. fst t = pe_timer e) (svc_timers st)") (auto simp: find_None_iff timer_of_def)
  then have "t \<in> set (svc_timers st)" "fst t = pe_timer e" by (auto simp: find_Some_iff)
  then have "t = timer_of expires_at (rid, e)"
    using distinct_map_fst_same[OF tm(2) _ mem, of t] by (simp add: timer_of_def)
  then have f: "fire_timer resolve timeout_out (pe_timer e) st = snd (resolve rid timeout_out (clearTimeout (pe_timer e) st))"
    using t by (simp add: fire_timer_def timer_of_def)
  have "map_of (svc_pending (clearTimeout (pe_timer e) st)) rid = Some e" using assms(2) by (simp add: clearTimeout_def)
  from resolve_settles[OF this, of timeout_out] show ?thesis unfolding f settle_effect_cleared by auto
qed

lemma fire_timer_keeps:
  assumes w: "wf st" and na: "no_aborted_pending st"
  shows "wf (fire_timer resolve timeout_out h st) \<and> no_aborted_pending (fire_timer resolve timeout_out h st)"
proof (cases "find (\<lambda>t. fst t = h) (svc_timers st)")
  case None
  then show ?thesis using assms by (simp add: fire_timer_def)
next
  case (Some t)
  obtain h' d rid where t: "t = (h', d, rid)" by (cases t) auto
  obtain e where e: "map_of (svc_pending st) rid = Some e" "pe_timer e = h"
    using find_timer[OF _ wf_pending_distinct[OF w], of expires_at h h' d rid] w Some t by (auto simp: svc_wf_def)
  then obtain ev where "fire_timer resolve timeout_out h st = settle_effect rid timeout_out e ev st"
      "announced ev = None" "closed ev = Some rid"
    using fire_timer_settles[OF w e(1)] by auto
  then show ?thesis using svc_wf_settle[OF w e(1)] no_aborted_settle[OF na] by simp
qed

lemma run_listener_effect:
  assumes w: "wf st"
  shows "wf (run_listener resolve abort_out s st rid)"
    and "svc_pending (run_listener resolve abort_out s st rid) =
      filter (\<lambda>p. \<not> (fst p = rid \<and> pe_signal (snd p) = Some s)) (svc_pending st)"
    and "svc_aborted (run_listener resolve abort_out s st rid) = svc_aborted st"
proof -
  have l: "svc_listeners st = List.map_filter listener_of (svc_pending st)" using w by (simp add: svc_wf_def)
  have "wf (run_listener resolve abort_out s st rid) \<and>
    svc_pending (run_listener resolve abort_out s st rid) =
      filter (\<lambda>p. \<not> (fst p = rid \<and> pe_signal (snd p) = Some s)) (svc_pending st) \<and>
    svc_aborted (run_listener resolve abort_out s st rid) = svc_aborted st"
  proof (cases "(s, rid) \<in> set (svc_listeners st)")
    case False
    then have "\<not> (fst p = rid \<and> pe_signal (snd p) = Some s)" if "p \<in> set (svc_pending st)" for p
      using that unfolding l by (force simp: List.map_filter_def listener_of_def)
    then have "filter (\<lambda>p. \<not> (fst p = rid \<and> pe_signal (snd p) = Some s)) (svc_pending st) = svc_pending st"
      by (auto intro: filter_True)
    then show ?thesis using False w by (simp add: run_listener_def)
  next
    case True
    then obtain p where p: "p \<in> set (svc_pending st)" "fst p = rid" "pe_signal (snd p) = Some s"
      unfolding l by (auto simp: List.map_filter_def listener_of_def)
    then have e: "map_of (svc_pending st) rid = Some (snd p)" using wf_pending_distinct[OF w] by auto
    have "map_of (svc_pending (removeAbortListener (Some s) rid st)) rid = Some (snd p)"
      using e by (simp add: removeAbortListener_def)
    from resolve_settles[OF this, of abort_out]
    obtain ev where ev: "resolve rid abort_out (removeAbortListener (Some s) rid st) =
        (True, settle_effect rid abort_out (snd p) ev (removeAbortListener (Some s) rid st))"
        "announced ev = None" "closed ev = Some rid"
      by blast
    then have r: "run_listener resolve abort_out s st rid = settle_effect rid abort_out (snd p) ev st"
      using True by (simp add: run_listener_def settle_effect_unlistened[OF p(3)])
    have "q = p" if "q \<in> set (svc_pending st)" "fst q = rid" for q
      using distinct_map_fst_same[OF wf_pending_distinct[OF w] that(1) p(1)] that(2) p(2) by simp
    then have "AList.delete rid (svc_pending st) =
        filter (\<lambda>p. \<not> (fst p = rid \<and> pe_signal (snd p) = Some s)) (svc_pending st)"
      unfolding AList_delete_filter using p(3) by (intro filter_cong) auto
    then show ?thesis using svc_wf_settle[OF w e ev(2,3)] r by (simp add: settle_effect_fields)
  qed
  then show "wf (run_listener resolve abort_out s st rid)"
    "svc_pending (run_listener resolve abort_out s st rid) =
      filter (\<lambda>p. \<not> (fst p = rid \<and> pe_signal (snd p) = Some s)) (svc_pending st)"
    "svc_aborted (run_listener resolve abort_out s st rid) = svc_aborted st" by auto
qed

lemma run_listeners_effect:
  assumes "wf st"
  shows "wf (foldl (run_listener resolve abort_out s) st rids) \<and>
    svc_pending (foldl (run_listener resolve abort_out s) st rids) =
      filter (\<lambda>p. \<not> (fst p \<in> set rids \<and> pe_signal (snd p) = Some s)) (svc_pending st) \<and>
    svc_aborted (foldl (run_listener resolve abort_out s) st rids) = svc_aborted st"
  using assms
proof (induction rids arbitrary: st)
  case (Cons rid rids)
  show ?case
    using Cons.IH[OF run_listener_effect(1)[OF Cons.prems]] run_listener_effect(2,3)[OF Cons.prems]
    by (auto intro!: filter_cong)
qed simp

text \<open>An abort signal takes the requests that carry it off the pending map, and no others.\<close>

lemma fire_abort_effect:
  assumes w: "wf st"
  shows "wf (fire_abort resolve abort_out s st)"
    and "svc_pending (fire_abort resolve abort_out s st) = filter (\<lambda>p. pe_signal (snd p) \<noteq> Some s) (svc_pending st)"
    and "svc_aborted (fire_abort resolve abort_out s st) = s # svc_aborted st"
proof -
  define rids where "rids = map snd (filter (\<lambda>l. fst l = s) (svc_listeners st))"
  have w': "wf (st\<lparr>svc_aborted := s # svc_aborted st\<rparr>)" using w by simp
  note * = run_listeners_effect[OF w', of s rids]
  have "fst p \<in> set rids" if "p \<in> set (svc_pending st)" "pe_signal (snd p) = Some s" for p
  proof -
    have "listener_of p = Some (s, fst p)" using that by (simp add: listener_of_def)
    then have "(s, fst p) \<in> set (svc_listeners st)"
      using w map_filter_mem[OF that(1)] by (simp add: svc_wf_def)
    then show ?thesis unfolding rids_def by force
  qed
  then have "filter (\<lambda>p. \<not> (fst p \<in> set rids \<and> pe_signal (snd p) = Some s)) (svc_pending st) =
      filter (\<lambda>p. pe_signal (snd p) \<noteq> Some s) (svc_pending st)"
    by (intro filter_cong) auto
  then show "wf (fire_abort resolve abort_out s st)"
    "svc_pending (fire_abort resolve abort_out s st) = filter (\<lambda>p. pe_signal (snd p) \<noteq> Some s) (svc_pending st)"
    "svc_aborted (fire_abort resolve abort_out s st) = s # svc_aborted st"
    using * by (auto simp: fire_abort_def rids_def)
qed

lemma fire_abort_keeps:
  "wf st \<Longrightarrow> no_aborted_pending st \<Longrightarrow>
   wf (fire_abort resolve abort_out s st) \<and> no_aborted_pending (fire_abort resolve abort_out s st)"
  using fire_abort_effect[of st s]
  by (auto simp: no_aborted_pending_def signal_aborted_def split: option.splits)

lemma step_keeps:
  assumes "svc_step request resolve timeout_out abort_out st st'" "wf st \<and> no_aborted_pending st"
  shows "wf st' \<and> no_aborted_pending st'"
  using assms
proof cases
  case (step_clock now')
  then show ?thesis using assms(2)
    by (auto simp: no_aborted_pending_def signal_aborted_def split: option.splits)
qed (use request_keeps resolve_keeps fire_timer_keeps fire_abort_keeps in auto)

lemma reachable_wf: "svc_reachable request resolve timeout_out abort_out st \<Longrightarrow> wf st \<and> no_aborted_pending st"
proof (induction rule: svc_reachable.induct)
  case (reach_init now)
  show ?case by (simp add: svc_init_def svc_wf_def no_aborted_pending_def List.map_filter_simps)
next
  case (reach_step st st')
  then show ?case using step_keeps by blast
qed

text \<open>Running the due timers leaves the requests whose deadline is still ahead.\<close>

lemma fire_timers_effect:
  assumes "wf st" "distinct ps" "set ps \<subseteq> set (svc_pending st)"
  shows "wf (foldl (\<lambda>st h. fire_timer resolve timeout_out h st) st (map (\<lambda>p. pe_timer (snd p)) ps)) \<and>
    svc_pending (foldl (\<lambda>st h. fire_timer resolve timeout_out h st) st (map (\<lambda>p. pe_timer (snd p)) ps)) =
      filter (\<lambda>p. p \<notin> set ps) (svc_pending st) \<and>
    svc_settled (foldl (\<lambda>st h. fire_timer resolve timeout_out h st) st (map (\<lambda>p. pe_timer (snd p)) ps)) =
      svc_settled st @ map (\<lambda>p. (fst p, timeout_out)) ps"
  using assms
proof (induction ps arbitrary: st)
  case (Cons p ps)
  have p: "p \<in> set (svc_pending st)" using Cons.prems by simp
  have e: "map_of (svc_pending st) (fst p) = Some (snd p)" using p wf_pending_distinct[OF Cons.prems(1)] by simp
  obtain ev where f: "fire_timer resolve timeout_out (pe_timer (snd p)) st = settle_effect (fst p) timeout_out (snd p) ev st"
      "announced ev = None" "closed ev = Some (fst p)"
    using fire_timer_settles[OF Cons.prems(1) e] by blast
  have "q = p" if "q \<in> set (svc_pending st)" "fst q = fst p" for q
    using distinct_map_fst_same[OF wf_pending_distinct[OF Cons.prems(1)] that(1) p that(2)] .
  then have del: "AList.delete (fst p) (svc_pending st) = filter (\<lambda>q. q \<noteq> p) (svc_pending st)"
    unfolding AList_delete_filter by (intro filter_cong) auto
  have sub: "set ps \<subseteq> set (svc_pending (settle_effect (fst p) timeout_out (snd p) ev st))"
    using Cons.prems(2,3) by (auto simp: settle_effect_fields del)
  show ?case
    using Cons.IH[OF svc_wf_settle[OF Cons.prems(1) e f(2,3)] _ sub] Cons.prems(2)
    by (auto simp: f(1) settle_effect_fields(1,6) del intro!: filter_cong)
qed simp

lemma run_due_timers_effect:
  assumes "wf st"
  shows "svc_pending (run_due_timers resolve timeout_out st) =
      filter (\<lambda>p. svc_now st < expires_at (pe_request (snd p))) (svc_pending st) \<and>
    svc_settled (run_due_timers resolve timeout_out st) =
      svc_settled st @ map (\<lambda>p. (fst p, timeout_out))
        (filter (\<lambda>p. expires_at (pe_request (snd p)) \<le> svc_now st) (svc_pending st))"
proof -
  define ps where "ps = filter (\<lambda>p. expires_at (pe_request (snd p)) \<le> svc_now st) (svc_pending st)"
  have "svc_timers st = map (timer_of expires_at) (svc_pending st)" using assms by (simp add: svc_wf_def)
  then have due: "map fst (filter (\<lambda>(h, deadline, rid). deadline \<le> svc_now st) (svc_timers st)) = map (\<lambda>p. pe_timer (snd p)) ps"
    by (simp add: ps_def filter_map comp_def timer_of_def)
  have "distinct ps" using wf_pending_distinct[OF assms] by (auto simp: ps_def distinct_map)
  moreover have "set ps \<subseteq> set (svc_pending st)" by (auto simp: ps_def)
  ultimately have "svc_pending (run_due_timers resolve timeout_out st) = filter (\<lambda>p. p \<notin> set ps) (svc_pending st) \<and>
      svc_settled (run_due_timers resolve timeout_out st) = svc_settled st @ map (\<lambda>p. (fst p, timeout_out)) ps"
    using fire_timers_effect[OF assms, of ps] unfolding run_due_timers_def due by simp
  moreover have "filter (\<lambda>p. p \<notin> set ps) (svc_pending st) =
      filter (\<lambda>p. svc_now st < expires_at (pe_request (snd p))) (svc_pending st)"
    by (intro filter_cong) (auto simp: ps_def)
  ultimately show ?thesis unfolding ps_def by simp
qed

text \<open>An answer counts exactly when the request is still pending.\<close>

lemma resolve_result:
  "fst (resolve rid out st) \<longleftrightarrow> rid \<in> fst ` set (svc_pending st)"
  "svc_settled (snd (resolve rid out st)) =
     svc_settled st @ (if rid \<in> fst ` set (svc_pending st) then [(rid, out)] else [])"
  "rid \<notin> fst ` set (svc_pending st) \<Longrightarrow> snd (resolve rid out st) = st"
proof -
  have *: "(map_of (svc_pending st) rid = None) = (rid \<notin> fst ` set (svc_pending st))"
    by (simp add: map_of_eq_None_iff)
  show "fst (resolve rid out st) \<longleftrightarrow> rid \<in> fst ` set (svc_pending st)"
    "svc_settled (snd (resolve rid out st)) =
     svc_settled st @ (if rid \<in> fst ` set (svc_pending st) then [(rid, out)] else [])"
    using * resolve_absent[of st rid out] resolve_settles[of st rid _ out]
    by (cases "map_of (svc_pending st) rid"; force simp: settle_effect_fields)+
  show "rid \<notin> fst ` set (svc_pending st) \<Longrightarrow> snd (resolve rid out st) = st"
    using * resolve_absent by simp
qed

end

lemma count_list_distinct: "distinct xs \<Longrightarrow> count_list xs x = (if x \<in> set xs then 1 else 0)"
  by (induction xs) auto

context request_service
begin

lemma reachable_exactly_once:
  assumes "svc_reachable request resolve timeout_out abort_out st"
  shows "(\<forall>rid \<in> set (List.map_filter announced (svc_events st)).
      count_list (map fst (svc_settled st)) rid = (if rid \<in> fst ` set (svc_pending st) then 0 else 1)) \<and>
    svc_timers st = map (\<lambda>(rid, e). (pe_timer e, expires_at (pe_request e), rid)) (svc_pending st) \<and>
    set (svc_listeners st) = {(s, rid). \<exists>e. (rid, e) \<in> set (svc_pending st) \<and> pe_signal e = Some s} \<and>
    List.map_filter closed (svc_events st) = map fst (svc_settled st)"
proof (intro conjI ballI)
  have w: "wf st" using reachable_wf[OF assms] by simp
  then have ds: "distinct (map fst (svc_pending st) @ map fst (svc_settled st))"
    and an: "set (List.map_filter announced (svc_events st)) = fst ` set (svc_pending st) \<union> fst ` set (svc_settled st)"
    by (auto simp: svc_wf_def)
  fix rid assume "rid \<in> set (List.map_filter announced (svc_events st))"
  then have "rid \<in> fst ` set (svc_pending st) \<or> rid \<in> set (map fst (svc_settled st))" using an by auto
  moreover have "rid \<notin> fst ` set (svc_pending st) \<or> rid \<notin> set (map fst (svc_settled st))" using ds by auto
  moreover have "distinct (map fst (svc_settled st))" using ds by simp
  ultimately show "count_list (map fst (svc_settled st)) rid = (if rid \<in> fst ` set (svc_pending st) then 0 else 1)"
    by (auto simp: count_list_distinct)
next
  have w: "wf st" using reachable_wf[OF assms] by simp
  show "svc_timers st = map (\<lambda>(rid, e). (pe_timer e, expires_at (pe_request e), rid)) (svc_pending st)"
    using w by (simp add: svc_wf_def timer_of_def case_prod_beta)
  show "List.map_filter closed (svc_events st) = map fst (svc_settled st)" using w by (simp add: svc_wf_def)
  have "svc_listeners st = List.map_filter listener_of (svc_pending st)" using w by (simp add: svc_wf_def)
  then show "set (svc_listeners st) = {(s, rid). \<exists>e. (rid, e) \<in> set (svc_pending st) \<and> pe_signal e = Some s}"
    by (force simp: List.map_filter_def listener_of_def image_iff)
qed

lemma run_due_timers_all:
  assumes "svc_reachable request resolve timeout_out abort_out st"
    and "\<forall>p \<in> set (svc_pending st). expires_at (pe_request (snd p)) \<le> svc_now st"
  shows "svc_pending (run_due_timers resolve timeout_out st) = [] \<and>
    svc_settled (run_due_timers resolve timeout_out st) =
      svc_settled st @ map (\<lambda>(rid, _). (rid, timeout_out)) (svc_pending st)"
proof -
  have "wf st" using reachable_wf[OF assms(1)] by simp
  from run_due_timers_effect[OF this] show ?thesis
    using assms(2) by (auto simp: filter_empty_conv case_prod_beta not_less intro!: filter_True)
qed

end
end
