(* ===== verification/Approvals.thy ===== *)
theory Approvals
  imports PendingRequests
begin

text \<open>
  The approval service, \<^verbatim>\<open>vs/latentRuntime/node/bots/approvals.ts\<close>, with the types of
  \<^verbatim>\<open>vs/platform/latentRuntime/common/runtimeProtocol.ts\<close>. Identifiers are numbers, the identifier \<open>randomUUID\<close>
  gives to a request is an argument of \<open>request\<close>, and so is the value of \<open>timeoutMs()\<close>. Notifications are
  recorded in order; a callback that calls back into the service while it is notified is not modelled.
\<close>

datatype ApprovalDecision = Allow | Deny | AllowScope

datatype approval_outcome = Decision ApprovalDecision | Timeout

record approval_input =
  ap_requestId :: "nat option"
  ap_botId :: nat
  ap_sessionId :: nat
  ap_tool :: jsstring
  ap_summary :: jsstring
  ap_gatewayId :: "nat option"
  ap_chatId :: "nat option"

record approval_request = approval_input +
  ap_id :: nat
  ap_expiresAt :: nat

datatype approval_event = ApprovalRequested approval_request | ApprovalResolved nat approval_outcome

type_synonym approval_service = "(approval_request, approval_outcome, approval_event) svc"

definition ApprovalService_list :: "approval_service \<Rightarrow> approval_request list" where
  "ApprovalService_list st = map (\<lambda>(_, entry). pe_request entry) (svc_pending st)"

definition ApprovalService_request ::
    "approval_input \<Rightarrow> nat option \<Rightarrow> nat \<Rightarrow> nat \<Rightarrow> approval_service \<Rightarrow> approval_outcome promise \<times> approval_service" where
  "ApprovalService_request input signal timeoutMs rid st =
     (if signal_aborted signal st then (Settled (Decision Deny), st)
      else
        let request = approval_input.extend input \<lparr>ap_id = rid, ap_expiresAt = svc_now st + timeoutMs\<rparr>;
            (timer, st1) = setTimeout rid timeoutMs st;
            st2 = st1\<lparr>svc_pending := AList.update rid \<lparr>pe_request = request, pe_timer = timer, pe_signal = signal\<rparr> (svc_pending st1)\<rparr>;
            st3 = addAbortListener signal rid st2
        in (Awaiting rid, notify (ApprovalRequested request) st3))"

definition ApprovalService_resolve :: "nat \<Rightarrow> approval_outcome \<Rightarrow> approval_service \<Rightarrow> bool \<times> approval_service" where
  "ApprovalService_resolve rid decision st =
     (case map_of (svc_pending st) rid of
        None \<Rightarrow> (False, st)
      | Some entry \<Rightarrow>
          let st1 = clearTimeout (pe_timer entry) st;
              st2 = st1\<lparr>svc_pending := AList.delete rid (svc_pending st1)\<rparr>;
              st3 = removeAbortListener (pe_signal entry) rid st2;
              st4 = st3\<lparr>svc_settled := svc_settled st3 @ [(rid, decision)]\<rparr>
          in (True, notify (ApprovalResolved rid decision) st4))"

definition ApprovalService_respond :: "nat \<Rightarrow> ApprovalDecision \<Rightarrow> approval_service \<Rightarrow> bool \<times> approval_service" where
  "ApprovalService_respond rid decision st = ApprovalService_resolve rid (Decision decision) st"

section \<open>The contract of the service\<close>

fun approval_announced :: "approval_event \<Rightarrow> nat option" where
  "approval_announced (ApprovalRequested r) = Some (ap_id r)"
| "approval_announced (ApprovalResolved _ _) = None"

fun approval_closed :: "approval_event \<Rightarrow> nat option" where
  "approval_closed (ApprovalRequested _) = None"
| "approval_closed (ApprovalResolved rid _) = Some rid"

interpretation approvals: request_service ApprovalService_request ApprovalService_resolve Timeout "Decision Deny"
  ap_expiresAt approval_announced approval_closed
proof
  show "ApprovalService_request inp signal ms rid st = (Settled (Decision Deny), st)"
    if "signal_aborted signal st" for inp signal ms rid st
    using that by (simp add: ApprovalService_request_def)
  show "\<exists>req ev. ApprovalService_request inp signal ms rid st = (Awaiting rid, register_effect rid req signal ms ev st) \<and>
      ap_expiresAt req = svc_now st + ms \<and> approval_announced ev = Some rid \<and> approval_closed ev = None"
    if "\<not> signal_aborted signal st" for inp signal ms rid st
    using that
    by (intro exI[of _ "approval_input.extend inp \<lparr>ap_id = rid, ap_expiresAt = svc_now st + ms\<rparr>"] exI[of _ "ApprovalRequested _"])
       (auto simp: ApprovalService_request_def register_effect_def Let_def approval_input.defs split: prod.splits)
  show "ApprovalService_resolve rid out st = (False, st)" if "map_of (svc_pending st) rid = None" for st rid out
    using that by (simp add: ApprovalService_resolve_def)
  show "\<exists>ev. ApprovalService_resolve rid out st = (True, settle_effect rid out e ev st) \<and>
      approval_announced ev = None \<and> approval_closed ev = Some rid"
    if "map_of (svc_pending st) rid = Some e" for st rid e out
    using that
    by (intro exI[of _ "ApprovalResolved rid out"])
       (simp add: ApprovalService_resolve_def settle_effect_def Let_def clearTimeout_def)
qed

abbreviation approvals_reachable :: "approval_service \<Rightarrow> bool" where
  "approvals_reachable \<equiv> svc_reachable ApprovalService_request ApprovalService_resolve Timeout (Decision Deny)"

section \<open>Properties\<close>

text \<open>
  C7. In every reachable state of the approval service, whatever the order of requests, answers, timeouts
  and abort signals: every announced request is either pending with nothing settled, or was
  settled exactly once; exactly the pending requests have an armed timer, whose deadline is
  the \<open>expiresAt\<close> they were announced with, and an abort listener for their signal; and the closing
  notifications are those of the settled requests, in order.
\<close>

theorem approvals_exactly_once:
  assumes "approvals_reachable st"
  shows "(\<forall>rid \<in> set (List.map_filter approval_announced (svc_events st)).
      count_list (map fst (svc_settled st)) rid = (if rid \<in> fst ` set (svc_pending st) then 0 else 1)) \<and>
    svc_timers st = map (\<lambda>(rid, e). (pe_timer e, ap_expiresAt (pe_request e), rid)) (svc_pending st) \<and>
    set (svc_listeners st) = {(s, rid). \<exists>e. (rid, e) \<in> set (svc_pending st) \<and> pe_signal e = Some s} \<and>
    List.map_filter approval_closed (svc_events st) = map fst (svc_settled st)"
  by (rule approvals.reachable_exactly_once[OF assms])

text \<open>
  No approval stays open: once the clock has passed the \<open>expiresAt\<close> of the pending requests, running the
  due timers leaves none pending and settles each of them as timed out; what was settled before stays.
\<close>

theorem approvals_time_out:
  assumes "approvals_reachable st" "\<forall>r \<in> set (ApprovalService_list st). ap_expiresAt r \<le> svc_now st"
  shows "svc_pending (run_due_timers ApprovalService_resolve Timeout st) = [] \<and>
    svc_settled (run_due_timers ApprovalService_resolve Timeout st) =
      svc_settled st @ map (\<lambda>(rid, _). (rid, Timeout)) (svc_pending st)"
  using approvals.run_due_timers_all[OF assms(1)] assms(2)
  by (simp add: ApprovalService_list_def case_prod_beta)

text \<open>
  An answer counts if and only if the request is still pending: \<open>respond\<close> returns true exactly then and
  settles the request with the decision, and otherwise changes nothing, so an answer after a timeout, an
  abort or another answer has no effect.
\<close>

theorem approvals_respond:
  "(fst (ApprovalService_respond rid decision st) \<longleftrightarrow> rid \<in> fst ` set (svc_pending st)) \<and>
   svc_settled (snd (ApprovalService_respond rid decision st)) =
     svc_settled st @ (if rid \<in> fst ` set (svc_pending st) then [(rid, Decision decision)] else []) \<and>
   (rid \<in> fst ` set (svc_pending st) \<or> snd (ApprovalService_respond rid decision st) = st)"
  using approvals.resolve_result[where rid=rid and out="Decision decision" and st=st] by (auto simp: ApprovalService_respond_def)

definition sample_approval :: approval_input where
  "sample_approval =
     \<lparr>ap_requestId = None, ap_botId = 1, ap_sessionId = 2, ap_tool = [], ap_summary = [], ap_gatewayId = None, ap_chatId = None\<rparr>"

definition sample_approvals :: approval_service where
  "sample_approvals = (snd (ApprovalService_request sample_approval (Some 4) 50 9 (svc_init 100)))\<lparr>svc_now := 160\<rparr>"

lemma sample_approvals_reachable: "approvals_reachable sample_approvals"
proof -
  have "approvals_reachable (snd (ApprovalService_request sample_approval (Some 4) 50 9 (svc_init 100)))"
    by (rule reach_step[OF reach_init[of _ _ _ _ 100]]) (rule step_request, simp add: fresh_id_def svc_init_def)
  then show ?thesis unfolding sample_approvals_def
    by (rule reach_step)
       (rule step_clock, simp add: ApprovalService_request_def Let_def host_defs signal_aborted_def svc_init_def)
qed

lemmas sample_approvals_eval =
  sample_approvals_def ApprovalService_request_def Let_def host_defs signal_aborted_def svc_init_def approval_input.defs

theorem approvals_exactly_once_witness:
  "approvals_reachable sample_approvals \<and>
   count_list (map fst (svc_settled sample_approvals)) 9 = (if 9 \<in> fst ` set (svc_pending sample_approvals) then 0 else 1)"
proof -
  have "9 \<in> set (List.map_filter approval_announced (svc_events sample_approvals))"
    by (simp add: sample_approvals_eval List.map_filter_simps)
  then show ?thesis using approvals_exactly_once[OF sample_approvals_reachable] sample_approvals_reachable by blast
qed

theorem approvals_time_out_witness:
  "svc_pending (run_due_timers ApprovalService_resolve Timeout sample_approvals) = []"
proof -
  have "\<forall>r \<in> set (ApprovalService_list sample_approvals). ap_expiresAt r \<le> svc_now sample_approvals"
    by (simp add: ApprovalService_list_def sample_approvals_eval)
  then show ?thesis using approvals_time_out[OF sample_approvals_reachable] by blast
qed

end
