(* ===== verification/Questions.thy ===== *)
theory Questions
  imports PendingRequests
begin

text \<open>
  The question service, \<^verbatim>\<open>vs/latentRuntime/node/bots/questions.ts\<close>: the same host and the same contract as the
  approval service, with a set of answers as the outcome and \<open>None\<close> for a question that timed out
  or was aborted. A closing notification does not carry the answers.
\<close>

record runtime_question =
  rq_id :: jsstring
  rq_question :: jsstring
  rq_choices :: "jsstring list option"
  rq_multiSelect :: "bool option"

record question_input =
  qu_requestId :: "nat option"
  qu_botId :: nat
  qu_sessionId :: nat
  qu_questions :: "runtime_question list"

record question_request = question_input +
  qu_id :: nat
  qu_expiresAt :: nat

type_synonym question_answers = "(jsstring \<times> jsstring) list"

datatype question_event = QuestionRequested question_request | QuestionResolved nat

type_synonym question_service = "(question_request, question_answers option, question_event) svc"

definition QuestionService_list :: "question_service \<Rightarrow> question_request list" where
  "QuestionService_list st = map (\<lambda>(_, entry). pe_request entry) (svc_pending st)"

definition QuestionService_request ::
    "question_input \<Rightarrow> nat option \<Rightarrow> nat \<Rightarrow> nat \<Rightarrow> question_service \<Rightarrow>
     question_answers option promise \<times> question_service" where
  "QuestionService_request input signal timeoutMs rid st =
     (if signal_aborted signal st then (Settled None, st)
      else
        let request = question_input.extend input \<lparr>qu_id = rid, qu_expiresAt = svc_now st + timeoutMs\<rparr>;
            (timer, st1) = setTimeout rid timeoutMs st;
            st2 = st1\<lparr>svc_pending := AList.update rid \<lparr>pe_request = request, pe_timer = timer, pe_signal = signal\<rparr> (svc_pending st1)\<rparr>;
            st3 = addAbortListener signal rid st2
        in (Awaiting rid, notify (QuestionRequested request) st3))"

definition QuestionService_resolve :: "nat \<Rightarrow> question_answers option \<Rightarrow> question_service \<Rightarrow> bool \<times> question_service" where
  "QuestionService_resolve rid answers st =
     (case map_of (svc_pending st) rid of
        None \<Rightarrow> (False, st)
      | Some entry \<Rightarrow>
          let st1 = clearTimeout (pe_timer entry) st;
              st2 = st1\<lparr>svc_pending := AList.delete rid (svc_pending st1)\<rparr>;
              st3 = removeAbortListener (pe_signal entry) rid st2;
              st4 = st3\<lparr>svc_settled := svc_settled st3 @ [(rid, answers)]\<rparr>
          in (True, notify (QuestionResolved rid) st4))"

definition QuestionService_respond :: "nat \<Rightarrow> question_answers \<Rightarrow> question_service \<Rightarrow> bool \<times> question_service" where
  "QuestionService_respond rid answers st = QuestionService_resolve rid (Some answers) st"

section \<open>The contract of the service\<close>

fun question_announced :: "question_event \<Rightarrow> nat option" where
  "question_announced (QuestionRequested r) = Some (qu_id r)"
| "question_announced (QuestionResolved _) = None"

fun question_closed :: "question_event \<Rightarrow> nat option" where
  "question_closed (QuestionRequested _) = None"
| "question_closed (QuestionResolved rid) = Some rid"

interpretation questions: request_service QuestionService_request QuestionService_resolve None None
  qu_expiresAt question_announced question_closed
proof
  show "QuestionService_request inp signal ms rid st = (Settled None, st)"
    if "signal_aborted signal st" for inp signal ms rid st
    using that by (simp add: QuestionService_request_def)
  show "\<exists>req ev. QuestionService_request inp signal ms rid st = (Awaiting rid, register_effect rid req signal ms ev st) \<and>
      qu_expiresAt req = svc_now st + ms \<and> question_announced ev = Some rid \<and> question_closed ev = None"
    if "\<not> signal_aborted signal st" for inp signal ms rid st
    using that
    by (intro exI[of _ "question_input.extend inp \<lparr>qu_id = rid, qu_expiresAt = svc_now st + ms\<rparr>"] exI[of _ "QuestionRequested _"])
       (auto simp: QuestionService_request_def register_effect_def Let_def question_input.defs split: prod.splits)
  show "QuestionService_resolve rid out st = (False, st)" if "map_of (svc_pending st) rid = None" for st rid out
    using that by (simp add: QuestionService_resolve_def)
  show "\<exists>ev. QuestionService_resolve rid out st = (True, settle_effect rid out e ev st) \<and>
      question_announced ev = None \<and> question_closed ev = Some rid"
    if "map_of (svc_pending st) rid = Some e" for st rid e out
    using that
    by (intro exI[of _ "QuestionResolved rid"])
       (simp add: QuestionService_resolve_def settle_effect_def Let_def clearTimeout_def)
qed

abbreviation questions_reachable :: "question_service \<Rightarrow> bool" where
  "questions_reachable \<equiv> svc_reachable QuestionService_request QuestionService_resolve None None"

section \<open>Properties\<close>

text \<open>
  The question service settles every announced question at most once and, while it is pending, not at
  all; and when the clock has passed the \<open>expiresAt\<close> of the pending questions, running the due timers
  leaves none pending, each settled without answers.
\<close>

theorem questions_settle:
  assumes "questions_reachable st"
  shows "(\<forall>rid \<in> set (List.map_filter question_announced (svc_events st)).
      count_list (map fst (svc_settled st)) rid = (if rid \<in> fst ` set (svc_pending st) then 0 else 1)) \<and>
    ((\<forall>r \<in> set (QuestionService_list st). qu_expiresAt r \<le> svc_now st) \<longrightarrow>
      svc_pending (run_due_timers QuestionService_resolve None st) = [] \<and>
      svc_settled (run_due_timers QuestionService_resolve None st) =
        svc_settled st @ map (\<lambda>(rid, _). (rid, None)) (svc_pending st))"
  using questions.reachable_exactly_once[OF assms] questions.run_due_timers_all[OF assms]
  by (simp add: QuestionService_list_def case_prod_beta)

definition sample_questions :: question_service where
  "sample_questions =
     (snd (QuestionService_request \<lparr>qu_requestId = None, qu_botId = 1, qu_sessionId = 2, qu_questions = []\<rparr> None 50 9
       (svc_init 100)))\<lparr>svc_now := 160\<rparr>"

lemmas sample_questions_eval =
  sample_questions_def QuestionService_request_def Let_def host_defs signal_aborted_def svc_init_def question_input.defs

lemma sample_questions_reachable: "questions_reachable sample_questions"
proof -
  have "questions_reachable (snd (QuestionService_request
      \<lparr>qu_requestId = None, qu_botId = 1, qu_sessionId = 2, qu_questions = []\<rparr> None 50 9 (svc_init 100)))"
    by (rule reach_step[OF reach_init[of _ _ _ _ 100]]) (rule step_request, simp add: fresh_id_def svc_init_def)
  then show ?thesis unfolding sample_questions_def
    by (rule reach_step)
       (rule step_clock, simp add: QuestionService_request_def Let_def host_defs signal_aborted_def svc_init_def)
qed

theorem questions_settle_witness:
  "svc_pending sample_questions \<noteq> [] \<and> svc_pending (run_due_timers QuestionService_resolve None sample_questions) = []"
proof -
  have "\<forall>r \<in> set (QuestionService_list sample_questions). qu_expiresAt r \<le> svc_now sample_questions"
    by (simp add: QuestionService_list_def sample_questions_eval)
  moreover have "svc_pending sample_questions \<noteq> []" by (simp add: sample_questions_eval)
  ultimately show ?thesis using questions_settle[OF sample_questions_reachable] by blast
qed

end
