(* ===== verification/ComposerModel.thy ===== *)
theory ComposerModel
  imports JsStrings SortedArrays "HOL-Library.AList"
begin

text \<open>
  The composer of the workbench, \<^verbatim>\<open>vs/workbench/contrib/latent/common/composer/composerModel.ts\<close> with the
  types of \<^verbatim>\<open>composerContracts.ts\<close>.

  Object identity is a number drawn from a counter: a draft revision (a fresh \<open>{}\<close>), a listener store,
  a submit port. An \<open>await\<close> splits a method in two: \<open>submit\<close> and \<open>activatePlugin\<close> have a part that
  runs up to the \<open>await\<close> and returns what the rest remembers, and parts that run when the promise is
  fulfilled or rejected. What a plugin answers (\<open>getState\<close>) and \<open>localeCompare\<close> are parameters. A URI is
  its string; the error text is the one the caller of the model gets.
\<close>

section \<open>Data\<close>

datatype ComposerSubmitKind = Send | Queued | Steering

record composer_submission_state =
  requestInProgress :: bool
  supportsSteering :: bool
  preferredPendingKind :: ComposerSubmitKind

datatype attachment_kind = ImageAttachment jsstring | FileAttachment jsstring | ContextAttachment jsstring "jsstring option"

record composer_attachment =
  ca_kind :: attachment_kind
  ca_mimeType :: jsstring
  ca_id :: jsstring
  ca_number :: "int option"
  ca_isReadOnly :: "bool option"

datatype diagnostic_kind = InvalidReference | StaleReference

record composer_diagnostic =
  cd_kind :: diagnostic_kind
  cd_number :: int
  cd_message :: jsstring

record composer_draft =
  cd_text :: jsstring
  cd_attachments :: "composer_attachment list"

record composer_capabilities =
  supportsFileAttachments :: "bool option"
  supportsImageAttachments :: "bool option"

datatype plugin_placement = Header | Leading | Trailing

record plugin_state =
  ps_label :: jsstring
  ps_icon :: jsstring
  ps_presentation :: "jsstring option"
  ps_dropdown :: "bool option"
  ps_disabled :: "bool option"
  ps_active :: "bool option"

record plugin_snapshot =
  pn_id :: jsstring
  pn_placement :: plugin_placement
  pn_order :: int
  pn_state :: plugin_state

text \<open>A plugin: \<open>pl_ref\<close> is its identity, by which \<open>getState\<close> is asked.\<close>

record composer_plugin =
  pl_ref :: nat
  pl_id :: jsstring
  pl_placement :: plugin_placement
  pl_order :: int
  pl_hasEvent :: bool

record composer_snapshot =
  sn_capabilities :: composer_capabilities
  sn_draft :: composer_draft
  sn_submission :: composer_submission_state
  sn_disabled :: bool
  sn_submitting :: bool
  sn_error :: "jsstring option"
  sn_diagnostics :: "composer_diagnostic list"
  sn_plugins :: "plugin_snapshot list"

record composer =
  cm_snapshot :: composer_snapshot
  cm_port :: nat
  cm_revision :: nat
  cm_plugins :: "(jsstring \<times> composer_plugin) list"
  cm_listeners :: "(jsstring \<times> nat) list"
  cm_fresh :: nat
  cm_disposed :: bool
  cm_changes :: nat

type_synonym get_state = "nat \<Rightarrow> plugin_state"
type_synonym locale_compare = "jsstring \<Rightarrow> jsstring \<Rightarrow> int"

section \<open>The model\<close>

definition copyDraft :: "composer_draft \<Rightarrow> composer_draft" where
  "copyDraft draft = \<lparr>cd_text = cd_text draft, cd_attachments = map (\<lambda>attachment. attachment) (cd_attachments draft)\<rparr>"

definition ComposerModel_new ::
    "nat \<Rightarrow> composer_draft \<Rightarrow> composer_capabilities \<Rightarrow> bool \<Rightarrow> ComposerSubmitKind \<Rightarrow> composer" where
  "ComposerModel_new submitPort initialDraft initialCapabilities steering preferred =
     \<lparr>cm_snapshot =
        \<lparr>sn_capabilities = initialCapabilities, sn_draft = copyDraft initialDraft,
         sn_submission = \<lparr>requestInProgress = False, supportsSteering = steering, preferredPendingKind = preferred\<rparr>,
         sn_disabled = False, sn_submitting = False, sn_error = None, sn_diagnostics = [], sn_plugins = []\<rparr>,
      cm_port = submitPort, cm_revision = 0, cm_plugins = [], cm_listeners = [], cm_fresh = 1, cm_disposed = False,
      cm_changes = 0\<rparr>"

definition composer_update :: "(composer_snapshot \<Rightarrow> composer_snapshot) \<Rightarrow> composer \<Rightarrow> composer" where
  "composer_update f m =
     (if cm_disposed m then m else m\<lparr>cm_snapshot := f (cm_snapshot m), cm_changes := cm_changes m + 1\<rparr>)"

definition setDiagnostics :: "composer_diagnostic list \<Rightarrow> composer \<Rightarrow> composer" where
  "setDiagnostics diagnostics m =
     (let current = sn_diagnostics (cm_snapshot m)
      in if length current = length diagnostics \<and>
            list_all (\<lambda>(d, e). cd_kind d = cd_kind e \<and> cd_number d = cd_number e \<and> cd_message d = cd_message e)
              (zip current diagnostics)
         then m else composer_update (sn_diagnostics_update (\<lambda>_. diagnostics)) m)"

definition bumpRevision :: "composer \<Rightarrow> composer" where
  "bumpRevision m = m\<lparr>cm_revision := cm_fresh m, cm_fresh := cm_fresh m + 1\<rparr>"

definition setDraft :: "composer_draft \<Rightarrow> composer \<Rightarrow> composer" where
  "setDraft draft m = composer_update (\<lambda>s. s\<lparr>sn_draft := copyDraft draft, sn_error := None\<rparr>) (bumpRevision m)"

definition setText :: "jsstring \<Rightarrow> composer \<Rightarrow> composer" where
  "setText text m =
     (if text = cd_text (sn_draft (cm_snapshot m)) then m
      else setDraft ((sn_draft (cm_snapshot m))\<lparr>cd_text := text\<rparr>) m)"

definition addAttachment :: "composer_attachment \<Rightarrow> composer \<Rightarrow> composer" where
  "addAttachment attachment m =
     (let draft = sn_draft (cm_snapshot m)
      in setDraft (draft\<lparr>cd_attachments := cd_attachments draft @ [attachment]\<rparr>) m)"

definition removeAttachment :: "jsstring \<Rightarrow> composer \<Rightarrow> composer" where
  "removeAttachment aid m =
     (let draft = sn_draft (cm_snapshot m);
          newAttachments = filter (\<lambda>a. ca_id a \<noteq> aid) (cd_attachments draft)
      in if length newAttachments = length (cd_attachments draft) then m
         else setDraft (draft\<lparr>cd_attachments := newAttachments\<rparr>) m)"

text \<open>The fields of a partial submission state that are given.\<close>

record partial_submission =
  pt_requestInProgress :: "bool option"
  pt_supportsSteering :: "bool option"
  pt_preferredPendingKind :: "ComposerSubmitKind option"

definition setSubmissionState :: "partial_submission \<Rightarrow> composer \<Rightarrow> composer" where
  "setSubmissionState submission m =
     (let current = sn_submission (cm_snapshot m);
          next =
            \<lparr>requestInProgress = (case pt_requestInProgress submission of Some b \<Rightarrow> b | None \<Rightarrow> requestInProgress current),
             supportsSteering = (case pt_supportsSteering submission of Some b \<Rightarrow> b | None \<Rightarrow> supportsSteering current),
             preferredPendingKind =
               (case pt_preferredPendingKind submission of Some k \<Rightarrow> k | None \<Rightarrow> preferredPendingKind current)\<rparr>
      in if requestInProgress next \<noteq> requestInProgress current \<or> supportsSteering next \<noteq> supportsSteering current \<or>
            preferredPendingKind next \<noteq> preferredPendingKind current
         then composer_update (\<lambda>s. s\<lparr>sn_submission := next\<rparr>) m else m)"

definition setDisabled :: "bool \<Rightarrow> composer \<Rightarrow> composer" where
  "setDisabled disabled m =
     (if disabled \<noteq> sn_disabled (cm_snapshot m) then composer_update (\<lambda>s. s\<lparr>sn_disabled := disabled\<rparr>) m else m)"

definition setSubmitPort :: "nat \<Rightarrow> composer \<Rightarrow> composer" where
  "setSubmitPort port m = (if cm_port m \<noteq> port then bumpRevision (m\<lparr>cm_port := port\<rparr>) else m)"

definition setCapabilities :: "composer_capabilities \<Rightarrow> composer \<Rightarrow> composer" where
  "setCapabilities capabilities m =
     (let current = sn_capabilities (cm_snapshot m)
      in if supportsFileAttachments capabilities \<noteq> supportsFileAttachments current \<or>
            supportsImageAttachments capabilities \<noteq> supportsImageAttachments current
         then composer_update (\<lambda>s. s\<lparr>sn_capabilities := capabilities\<rparr>) m else m)"

subsection \<open>Plugins\<close>

definition plugin_compare :: "locale_compare \<Rightarrow> plugin_snapshot \<Rightarrow> plugin_snapshot \<Rightarrow> int" where
  "plugin_compare localeCompare a b =
     (if pn_order a - pn_order b \<noteq> 0 then pn_order a - pn_order b else localeCompare (pn_id a) (pn_id b))"

definition publishPlugins :: "locale_compare \<Rightarrow> get_state \<Rightarrow> composer \<Rightarrow> composer" where
  "publishPlugins localeCompare getState m =
     (let plugins = js_sort (plugin_compare localeCompare)
            (map (\<lambda>(_, p). \<lparr>pn_id = pl_id p, pn_placement = pl_placement p, pn_order = pl_order p,
                            pn_state = getState (pl_ref p)\<rparr>) (cm_plugins m))
      in composer_update (\<lambda>s. s\<lparr>sn_plugins := plugins\<rparr>) m)"

text \<open>The disposable \<open>registerPlugin\<close> returns: \<open>None\<close> for \<open>Disposable.None\<close>, else the plugin id and the store.\<close>

type_synonym registration = "(jsstring \<times> nat) option"

definition registerPlugin ::
    "locale_compare \<Rightarrow> get_state \<Rightarrow> composer_plugin \<Rightarrow> composer \<Rightarrow> registration \<times> composer" where
  "registerPlugin localeCompare getState plugin m =
     (if cm_disposed m then (None, m)
      else
        let listeners = cm_fresh m;
            m1 = m\<lparr>cm_listeners := AList.delete (pl_id plugin) (cm_listeners m)\<rparr>;
            m2 = m1\<lparr>cm_plugins := AList.update (pl_id plugin) plugin (cm_plugins m1)\<rparr>;
            m3 = m2\<lparr>cm_listeners := AList.update (pl_id plugin) listeners (cm_listeners m2), cm_fresh := cm_fresh m2 + 1\<rparr>
        in (Some (pl_id plugin, listeners), publishPlugins localeCompare getState m3))"

text \<open>A plugin fires \<open>onDidChange\<close>: it is heard while the store it was subscribed with is alive.\<close>

definition pluginChanged :: "locale_compare \<Rightarrow> get_state \<Rightarrow> composer_plugin \<Rightarrow> nat \<Rightarrow> composer \<Rightarrow> composer" where
  "pluginChanged localeCompare getState plugin store m =
     (if pl_hasEvent plugin \<and> (pl_id plugin, store) \<in> set (cm_listeners m)
      then publishPlugins localeCompare getState m else m)"

definition unregisterPlugin :: "locale_compare \<Rightarrow> get_state \<Rightarrow> jsstring \<Rightarrow> composer \<Rightarrow> composer" where
  "unregisterPlugin localeCompare getState pid m =
     (if map_of (cm_plugins m) pid = None then m
      else publishPlugins localeCompare getState
        (m\<lparr>cm_plugins := AList.delete pid (cm_plugins m), cm_listeners := AList.delete pid (cm_listeners m)\<rparr>))"

definition disposeRegistration :: "locale_compare \<Rightarrow> get_state \<Rightarrow> registration \<Rightarrow> composer \<Rightarrow> composer" where
  "disposeRegistration localeCompare getState reg m =
     (case reg of
        None \<Rightarrow> m
      | Some (pid, listeners) \<Rightarrow>
          if map_of (cm_listeners m) pid = Some listeners then unregisterPlugin localeCompare getState pid m else m)"

text \<open>\<open>activatePlugin\<close> up to the \<open>await\<close>: what the rest remembers, \<open>None\<close> when the method returned.\<close>

definition activate_begin :: "get_state \<Rightarrow> jsstring \<Rightarrow> composer \<Rightarrow> (jsstring \<times> nat option) option \<times> composer" where
  "activate_begin getState pid m =
     (let plugin = map_of (cm_plugins m) pid;
          listeners = map_of (cm_listeners m) pid
      in case plugin of
           None \<Rightarrow> (None, m)
         | Some p \<Rightarrow>
             if sn_disabled (cm_snapshot m) \<or> cm_disposed m then (None, m)
             else if ps_disabled (getState (pl_ref p)) = Some True then (None, m)
             else (Some (pid, listeners), composer_update (\<lambda>s. s\<lparr>sn_error := None\<rparr>) m))"

definition activate_fulfilled ::
    "locale_compare \<Rightarrow> get_state \<Rightarrow> jsstring \<times> nat option \<Rightarrow> composer \<Rightarrow> composer" where
  "activate_fulfilled localeCompare getState act m =
     (if map_of (cm_listeners m) (fst act) = snd act \<and> \<not> cm_disposed m
      then publishPlugins localeCompare getState m else m)"

definition activate_rejected :: "jsstring \<Rightarrow> jsstring \<times> nat option \<Rightarrow> composer \<Rightarrow> composer" where
  "activate_rejected message act m =
     (if map_of (cm_listeners m) (fst act) = snd act
      then composer_update (\<lambda>s. s\<lparr>sn_error := Some message\<rparr>) m else m)"

subsection \<open>Submitting\<close>

definition resolveSubmitKind :: "composer \<Rightarrow> ComposerSubmitKind" where
  "resolveSubmitKind m =
     (let submission = sn_submission (cm_snapshot m)
      in if \<not> requestInProgress submission then Send
         else
           let preferredKind = preferredPendingKind submission
           in if preferredKind = Steering \<and> \<not> supportsSteering submission then Queued else preferredKind)"

definition canSubmit :: "composer \<Rightarrow> bool" where
  "canSubmit m =
     (\<not> cm_disposed m \<and> \<not> sn_disabled (cm_snapshot m) \<and> \<not> sn_submitting (cm_snapshot m) \<and>
      length (sn_diagnostics (cm_snapshot m)) = 0 \<and>
      (js_trim (cd_text (sn_draft (cm_snapshot m))) \<noteq> [] \<or> length (cd_attachments (sn_draft (cm_snapshot m))) > 0))"

record submission =
  sb_draft :: composer_draft
  sb_revision :: nat
  sb_kind :: ComposerSubmitKind
  sb_port :: nat

definition submit_begin :: "composer \<Rightarrow> submission option \<times> composer" where
  "submit_begin m =
     (if \<not> canSubmit m then (None, m)
      else
        (Some \<lparr>sb_draft = sn_draft (cm_snapshot m), sb_revision = cm_revision m, sb_kind = resolveSubmitKind m,
               sb_port = cm_port m\<rparr>,
         composer_update (\<lambda>s. s\<lparr>sn_submitting := True, sn_error := None\<rparr>) m))"

definition submit_fulfilled :: "submission \<Rightarrow> composer \<Rightarrow> bool \<times> composer" where
  "submit_fulfilled sub m =
     (True,
      composer_update (\<lambda>s. s\<lparr>sn_draft := (if cm_revision m = sb_revision sub then \<lparr>cd_text = [], cd_attachments = []\<rparr>
                                          else sn_draft (cm_snapshot m)),
                             sn_submitting := False\<rparr>) m)"

definition submit_rejected :: "jsstring \<Rightarrow> submission \<Rightarrow> composer \<Rightarrow> bool \<times> composer" where
  "submit_rejected message sub m =
     (False, composer_update (\<lambda>s. s\<lparr>sn_submitting := False, sn_error := Some message\<rparr>) m)"

definition composer_dispose :: "composer \<Rightarrow> composer" where
  "composer_dispose m = m\<lparr>cm_plugins := [], cm_listeners := [], cm_disposed := True\<rparr>"

section \<open>Interleavings\<close>

text \<open>
  Everything a caller can do between the two halves of a submission. A plugin's state is asked
  anew each time, so the operations that ask it carry the answers.
\<close>

datatype composer_op =
    OpSetDiagnostics "composer_diagnostic list"
  | OpSetDraft composer_draft
  | OpSetText jsstring
  | OpAddAttachment composer_attachment
  | OpRemoveAttachment jsstring
  | OpSetSubmissionState partial_submission
  | OpSetDisabled bool
  | OpSetSubmitPort nat
  | OpSetCapabilities composer_capabilities
  | OpRegisterPlugin get_state composer_plugin
  | OpPluginChanged get_state composer_plugin nat
  | OpDisposeRegistration get_state registration
  | OpActivate get_state jsstring
  | OpActivateFulfilled get_state "jsstring \<times> nat option"
  | OpActivateRejected jsstring "jsstring \<times> nat option"
  | OpDispose

fun apply_op :: "locale_compare \<Rightarrow> composer_op \<Rightarrow> composer \<Rightarrow> composer" where
  "apply_op lc (OpSetDiagnostics ds) m = setDiagnostics ds m"
| "apply_op lc (OpSetDraft d) m = setDraft d m"
| "apply_op lc (OpSetText t) m = setText t m"
| "apply_op lc (OpAddAttachment a) m = addAttachment a m"
| "apply_op lc (OpRemoveAttachment aid) m = removeAttachment aid m"
| "apply_op lc (OpSetSubmissionState s) m = setSubmissionState s m"
| "apply_op lc (OpSetDisabled b) m = setDisabled b m"
| "apply_op lc (OpSetSubmitPort p) m = setSubmitPort p m"
| "apply_op lc (OpSetCapabilities c) m = setCapabilities c m"
| "apply_op lc (OpRegisterPlugin gs p) m = snd (registerPlugin lc gs p m)"
| "apply_op lc (OpPluginChanged gs p n) m = pluginChanged lc gs p n m"
| "apply_op lc (OpDisposeRegistration gs r) m = disposeRegistration lc gs r m"
| "apply_op lc (OpActivate gs pid) m = snd (activate_begin gs pid m)"
| "apply_op lc (OpActivateFulfilled gs a) m = activate_fulfilled lc gs a m"
| "apply_op lc (OpActivateRejected msg a) m = activate_rejected msg a m"
| "apply_op lc OpDispose m = composer_dispose m"

text \<open>A state of the run: the model and the submissions that are awaited.\<close>

inductive composer_step ::
    "locale_compare \<Rightarrow> composer \<times> submission list \<Rightarrow> composer \<times> submission list \<Rightarrow> bool" for lc where
  cs_op: "composer_step lc (m, subs) (apply_op lc op m, subs)"
| cs_submit: "submit_begin m = (Some sub, m') \<Longrightarrow> composer_step lc (m, subs) (m', sub # subs)"
| cs_fulfilled: "sub \<in> set subs \<Longrightarrow> composer_step lc (m, subs) (snd (submit_fulfilled sub m), remove1 sub subs)"
| cs_rejected: "sub \<in> set subs \<Longrightarrow> composer_step lc (m, subs) (snd (submit_rejected msg sub m), remove1 sub subs)"

inductive composer_reachable :: "locale_compare \<Rightarrow> composer \<times> submission list \<Rightarrow> bool" for lc where
  cr_new: "composer_reachable lc (ComposerModel_new port draft capabilities steering preferred, [])"
| cr_step: "composer_reachable lc s \<Longrightarrow> composer_step lc s s' \<Longrightarrow> composer_reachable lc s'"

inductive_cases composer_stepE: "composer_step lc (m, subs) s'"

section \<open>Submissions\<close>

lemmas composer_simps =
  composer_update_def setDiagnostics_def bumpRevision_def setDraft_def setText_def addAttachment_def removeAttachment_def
  setSubmissionState_def setDisabled_def setSubmitPort_def setCapabilities_def publishPlugins_def registerPlugin_def
  pluginChanged_def unregisterPlugin_def disposeRegistration_def activate_begin_def activate_fulfilled_def
  activate_rejected_def composer_dispose_def Let_def

lemma copyDraft_eq [simp]: "copyDraft d = d"
  by (simp add: copyDraft_def)

text \<open>Whether an operation starts a new draft revision.\<close>

fun starts_revision :: "composer_op \<Rightarrow> composer \<Rightarrow> bool" where
  "starts_revision (OpSetDraft d) m = True"
| "starts_revision (OpSetText t) m = (t \<noteq> cd_text (sn_draft (cm_snapshot m)))"
| "starts_revision (OpAddAttachment a) m = True"
| "starts_revision (OpRemoveAttachment aid) m = (aid \<in> ca_id ` set (cd_attachments (sn_draft (cm_snapshot m))))"
| "starts_revision (OpSetSubmitPort p) m = (p \<noteq> cm_port m)"
| "starts_revision _ m = False"

lemma length_filter_neq: "length (filter (\<lambda>a. f a \<noteq> k) xs) = length xs \<longleftrightarrow> k \<notin> f ` set xs"
proof
  assume "length (filter (\<lambda>a. f a \<noteq> k) xs) = length xs"
  then have "filter (\<lambda>a. f a \<noteq> k) xs = xs" by (metis filter_True length_filter_less less_irrefl)
  then show "k \<notin> f ` set xs" by (auto simp: filter_id_conv)
next
  assume "k \<notin> f ` set xs"
  then show "length (filter (\<lambda>a. f a \<noteq> k) xs) = length xs" by (intro arg_cong[where f=length] filter_True) auto
qed

lemma apply_op_keeps:
  assumes "\<not> starts_revision op m"
  shows "cm_revision (apply_op lc op m) = cm_revision m"
    and "sn_draft (cm_snapshot (apply_op lc op m)) = sn_draft (cm_snapshot m)"
  using assms
  by (cases op; auto simp: composer_simps length_filter_neq split: option.splits if_splits)+

lemma apply_op_starts:
  assumes "starts_revision op m"
  shows "cm_revision (apply_op lc op m) = cm_fresh m" and "cm_fresh (apply_op lc op m) = cm_fresh m + 1"
  using assms
  by (cases op; auto simp: composer_simps length_filter_neq split: option.splits if_splits)+

lemma apply_op_fresh: "cm_fresh m \<le> cm_fresh (apply_op lc op m)"
  by (cases op) (auto simp: composer_simps split: option.splits if_splits)

lemma apply_op_submitting:
  "sn_submitting (cm_snapshot (apply_op lc op m)) = sn_submitting (cm_snapshot m)"
  by (cases op) (auto simp: composer_simps split: option.splits if_splits)

lemma apply_op_disposed: "cm_disposed m \<Longrightarrow> cm_disposed (apply_op lc op m) \<and> cm_snapshot (apply_op lc op m) = cm_snapshot m"
  by (cases op) (auto simp: composer_simps split: option.splits if_splits)

text \<open>
  At most one submission is awaited, and while the model is alive \<open>submitting\<close> says whether there is
  one; as long as the revision is the submitted one, so is the draft.
\<close>

definition submissions_ok :: "composer \<times> submission list \<Rightarrow> bool" where
  "submissions_ok s \<longleftrightarrow>
     (case s of (m, subs) \<Rightarrow>
        length subs \<le> 1 \<and> (\<not> cm_disposed m \<longrightarrow> (sn_submitting (cm_snapshot m) \<longleftrightarrow> subs \<noteq> [])) \<and>
        cm_revision m < cm_fresh m \<and>
        (\<forall>sub \<in> set subs. sb_revision sub < cm_fresh m \<and>
           (cm_revision m = sb_revision sub \<longrightarrow> sn_draft (cm_snapshot m) = sb_draft sub)))"

lemma submissions_ok_op:
  assumes "submissions_ok (m, subs)"
  shows "submissions_ok (apply_op lc op m, subs)"
proof -
  have d: "\<not> cm_disposed (apply_op lc op m) \<Longrightarrow> \<not> cm_disposed m" using apply_op_disposed by blast
  show ?thesis
  proof (cases "starts_revision op m")
    case True
    then show ?thesis using assms d apply_op_submitting[of lc op m] apply_op_starts[OF True, of lc]
      by (auto simp: submissions_ok_def)
  next
    case False
    have "cm_fresh m \<le> cm_fresh (apply_op lc op m)" by (rule apply_op_fresh)
    then show ?thesis using assms d apply_op_submitting[of lc op m] apply_op_keeps[OF False, of lc]
      by (fastforce simp: submissions_ok_def)
  qed
qed

lemma submit_begin_SomeD:
  assumes "submit_begin m = (Some sub, m')"
  shows "canSubmit m" "sb_draft sub = sn_draft (cm_snapshot m)" "sb_revision sub = cm_revision m"
    "sb_kind sub = resolveSubmitKind m" "sb_port sub = cm_port m"
    "m' = m\<lparr>cm_snapshot := (cm_snapshot m)\<lparr>sn_submitting := True, sn_error := None\<rparr>, cm_changes := cm_changes m + 1\<rparr>"
  using assms by (auto simp: submit_begin_def composer_update_def canSubmit_def split: if_splits)

lemma submissions_ok_step:
  assumes "composer_step lc s s'" "submissions_ok s"
  shows "submissions_ok s'"
  using assms
proof cases
  case (cs_op m subs op)
  then show ?thesis using assms(2) submissions_ok_op by auto
next
  case (cs_submit m sub m' subs)
  note b = submit_begin_SomeD[OF cs_submit(3)]
  have "subs = []" using b(1) assms(2) cs_submit(1) by (auto simp: canSubmit_def submissions_ok_def)
  then show ?thesis using assms(2) cs_submit(1,2) b by (auto simp: submissions_ok_def)
next
  case (cs_fulfilled sub subs m)
  then have "subs = [sub]" using assms(2) by (cases subs) (auto simp: submissions_ok_def)
  then show ?thesis using assms(2) cs_fulfilled
    by (auto simp: submissions_ok_def submit_fulfilled_def composer_update_def)
next
  case (cs_rejected sub subs m msg)
  then have "subs = [sub]" using assms(2) by (cases subs) (auto simp: submissions_ok_def)
  then show ?thesis using assms(2) cs_rejected
    by (auto simp: submissions_ok_def submit_rejected_def composer_update_def)
qed

lemma reachable_submissions_ok: "composer_reachable lc s \<Longrightarrow> submissions_ok s"
proof (induction rule: composer_reachable.induct)
  case (cr_new port draft capabilities steering preferred)
  show ?case by (simp add: submissions_ok_def ComposerModel_new_def)
next
  case (cr_step s s')
  then show ?case using submissions_ok_step by blast
qed

text \<open>
  C37. However the operations of the composer are interleaved with the submissions it awaits, at most one
  submission is under way, and while the model is not disposed \<open>submitting\<close> is set exactly while there
  is one; and a draft that has not been revised since it was submitted is still the one the port got.
\<close>

theorem composer_single_submission:
  assumes "composer_reachable lc (m, subs)"
  shows "length subs \<le> 1 \<and> (\<not> cm_disposed m \<longrightarrow> (sn_submitting (cm_snapshot m) \<longleftrightarrow> subs \<noteq> [])) \<and>
    (\<forall>sub \<in> set subs. cm_revision m = sb_revision sub \<longrightarrow> sn_draft (cm_snapshot m) = sb_draft sub)"
  using reachable_submissions_ok[OF assms] by (auto simp: submissions_ok_def)

section \<open>Edits during a submission\<close>

primrec run_ops :: "locale_compare \<Rightarrow> composer_op list \<Rightarrow> composer \<Rightarrow> composer" where
  "run_ops lc [] m = m"
| "run_ops lc (op # ops) m = run_ops lc ops (apply_op lc op m)"

primrec revised :: "locale_compare \<Rightarrow> composer_op list \<Rightarrow> composer \<Rightarrow> bool" where
  "revised lc [] m = False"
| "revised lc (op # ops) m = (starts_revision op m \<or> revised lc ops (apply_op lc op m))"

lemma run_ops_above:
  "r < cm_revision m \<Longrightarrow> cm_revision m < cm_fresh m \<Longrightarrow> r < cm_revision (run_ops lc ops m)"
proof (induction ops arbitrary: m)
  case (Cons op ops)
  have "cm_fresh m \<le> cm_fresh (apply_op lc op m)" by (rule apply_op_fresh)
  then have "r < cm_revision (apply_op lc op m) \<and> cm_revision (apply_op lc op m) < cm_fresh (apply_op lc op m)"
    using Cons.prems apply_op_keeps[of op m lc] apply_op_starts[of op m lc] by (cases "starts_revision op m") auto
  then show ?case using Cons.IH by simp
qed simp

lemma run_ops_revision:
  assumes "cm_revision m < cm_fresh m"
  shows "(cm_revision (run_ops lc ops m) = cm_revision m) = (\<not> revised lc ops m)"
    and "\<not> revised lc ops m \<Longrightarrow> sn_draft (cm_snapshot (run_ops lc ops m)) = sn_draft (cm_snapshot m)"
  using assms
proof (atomize (full), induction ops arbitrary: m)
  case (Cons op ops)
  show ?case
  proof (cases "starts_revision op m")
    case True
    have "cm_revision m < cm_revision (run_ops lc ops (apply_op lc op m))"
      by (rule run_ops_above) (use apply_op_starts[OF True, of lc] Cons.prems in auto)
    then show ?thesis using True by simp
  next
    case False
    have "cm_fresh m \<le> cm_fresh (apply_op lc op m)" by (rule apply_op_fresh)
    then have "cm_revision (apply_op lc op m) < cm_fresh (apply_op lc op m)"
      using Cons.prems apply_op_keeps[OF False, of lc] by auto
    then show ?thesis using Cons.IH[of "apply_op lc op m"] False apply_op_keeps[OF False, of lc] by auto
  qed
qed simp

text \<open>
  C6. A submission never loses an edit. Submit, do anything else while the port works, and let the port
  accept: if some operation in between revised the draft (or exchanged the port), the draft is the one
  those operations left; if none did, the draft is emptied, and what it held was what the port got.
\<close>

theorem composer_submit_preserves_edits:
  assumes "composer_reachable lc (m, subs)" "submit_begin m = (Some sub, m1)" "m2 = run_ops lc ops m1" "\<not> cm_disposed m2"
  shows "sn_draft (cm_snapshot (snd (submit_fulfilled sub m2))) =
      (if revised lc ops m1 then sn_draft (cm_snapshot m2) else \<lparr>cd_text = [], cd_attachments = []\<rparr>) \<and>
    (revised lc ops m1 \<or> sn_draft (cm_snapshot m2) = sb_draft sub) \<and> sb_draft sub = sn_draft (cm_snapshot m)"
proof -
  note b = submit_begin_SomeD[OF assms(2)]
  have "cm_revision m < cm_fresh m" using reachable_submissions_ok[OF assms(1)] by (simp add: submissions_ok_def)
  then have f: "cm_revision m1 < cm_fresh m1" by (simp add: b(6))
  have "cm_revision m2 = sb_revision sub \<longleftrightarrow> \<not> revised lc ops m1"
    using run_ops_revision(1)[OF f] by (simp add: assms(3) b)
  moreover have "\<not> revised lc ops m1 \<Longrightarrow> sn_draft (cm_snapshot m2) = sb_draft sub"
    using run_ops_revision(2)[OF f] by (simp add: assms(3) b)
  ultimately show ?thesis using assms(4) b(2) by (auto simp: submit_fulfilled_def composer_update_def)
qed

section \<open>Plugins\<close>

definition published :: "locale_compare \<Rightarrow> get_state \<Rightarrow> (jsstring \<times> composer_plugin) list \<Rightarrow> plugin_snapshot list" where
  "published lc gs plugins = js_sort (plugin_compare lc)
     (map (\<lambda>(_, p). \<lparr>pn_id = pl_id p, pn_placement = pl_placement p, pn_order = pl_order p, pn_state = gs (pl_ref p)\<rparr>) plugins)"

text \<open>
  The registered plugins are stored under their ids, each with one listener store, and the snapshot
  shows them as they answered when they were last asked.
\<close>

definition registry_ok :: "composer \<Rightarrow> bool" where
  "registry_ok m \<longleftrightarrow>
     distinct (map fst (cm_plugins m)) \<and> (\<forall>(k, p) \<in> set (cm_plugins m). pl_id p = k) \<and>
     distinct (map fst (cm_listeners m)) \<and> fst ` set (cm_listeners m) = fst ` set (cm_plugins m) \<and>
     (\<forall>(k, n) \<in> set (cm_listeners m). n < cm_fresh m)"

definition plugins_ok :: "locale_compare \<Rightarrow> composer \<Rightarrow> bool" where
  "plugins_ok lc m \<longleftrightarrow>
     registry_ok m \<and> (cm_disposed m \<or> (\<exists>gs. sn_plugins (cm_snapshot m) = published lc gs (cm_plugins m)))"

definition same_plugins :: "composer \<Rightarrow> composer \<Rightarrow> bool" where
  "same_plugins m m' \<longleftrightarrow> cm_plugins m' = cm_plugins m \<and> cm_listeners m' = cm_listeners m \<and> cm_disposed m' = cm_disposed m \<and>
     sn_plugins (cm_snapshot m') = sn_plugins (cm_snapshot m) \<and> cm_fresh m \<le> cm_fresh m'"

lemma registry_ok_same:
  "registry_ok m \<Longrightarrow> cm_plugins m' = cm_plugins m \<Longrightarrow> cm_listeners m' = cm_listeners m \<Longrightarrow> cm_fresh m \<le> cm_fresh m' \<Longrightarrow>
   registry_ok m'"
  by (auto simp: registry_ok_def dest!: bspec)

lemma plugins_ok_same: "plugins_ok lc m \<Longrightarrow> same_plugins m m' \<Longrightarrow> plugins_ok lc m'"
  using registry_ok_same[of m m'] by (simp add: plugins_ok_def same_plugins_def)

lemma publishPlugins_fields:
  "cm_plugins (publishPlugins lc gs m) = cm_plugins m" "cm_listeners (publishPlugins lc gs m) = cm_listeners m"
  "cm_fresh (publishPlugins lc gs m) = cm_fresh m" "cm_disposed (publishPlugins lc gs m) = cm_disposed m"
  "\<not> cm_disposed m \<Longrightarrow> sn_plugins (cm_snapshot (publishPlugins lc gs m)) = published lc gs (cm_plugins m)"
  by (simp_all add: publishPlugins_def composer_update_def published_def Let_def)

lemma plugins_ok_publish: "registry_ok m \<Longrightarrow> plugins_ok lc (publishPlugins lc gs m)"
  using publishPlugins_fields[where lc=lc and gs=gs and m=m] registry_ok_same[of m "publishPlugins lc gs m"]
  by (auto simp: plugins_ok_def)

lemma plugins_ok_registry: "plugins_ok lc m \<Longrightarrow> registry_ok m"
  by (simp add: plugins_ok_def)

lemma registry_ok_register:
  assumes "registry_ok m"
  shows "registry_ok (m\<lparr>cm_plugins := AList.update (pl_id p) p (cm_plugins m),
     cm_listeners := AList.update (pl_id p) (cm_fresh m) (AList.delete (pl_id p) (cm_listeners m)), cm_fresh := cm_fresh m + 1\<rparr>)"
proof -
  have "\<forall>(k, q) \<in> set (AList.update (pl_id p) p (cm_plugins m)). pl_id q = k"
    using assms set_update_subset[of "pl_id p" p "cm_plugins m"] by (auto simp: registry_ok_def)
  moreover have "\<forall>(k, n) \<in> set (AList.update (pl_id p) (cm_fresh m) (AList.delete (pl_id p) (cm_listeners m))). n < cm_fresh m + 1"
    using assms set_update_subset[of "pl_id p" "cm_fresh m" "AList.delete (pl_id p) (cm_listeners m)"]
      set_delete_subset[of "pl_id p" "cm_listeners m"] by (fastforce simp: registry_ok_def)
  moreover have "distinct (map fst (AList.update (pl_id p) p (cm_plugins m)))"
    "distinct (map fst (AList.update (pl_id p) (cm_fresh m) (AList.delete (pl_id p) (cm_listeners m))))"
    using assms by (auto simp: registry_ok_def intro!: distinct_update distinct_delete)
  ultimately show ?thesis using assms by (auto simp: registry_ok_def keys_update keys_delete)
qed

lemma registry_ok_unregister:
  assumes "registry_ok m"
  shows "registry_ok (m\<lparr>cm_plugins := AList.delete pid (cm_plugins m), cm_listeners := AList.delete pid (cm_listeners m)\<rparr>)"
  using assms set_delete_subset[of pid "cm_plugins m"] set_delete_subset[of pid "cm_listeners m"]
  by (auto simp: registry_ok_def keys_delete intro!: distinct_delete)

lemma plugins_ok_register:
  assumes "plugins_ok lc m"
  shows "plugins_ok lc (snd (registerPlugin lc gs p m))"
proof (cases "cm_disposed m")
  case False
  from plugins_ok_publish[OF registry_ok_register[OF plugins_ok_registry[OF assms]], of lc gs p]
  show ?thesis using False by (simp add: registerPlugin_def Let_def)
qed (use assms in \<open>simp add: registerPlugin_def\<close>)

lemma plugins_ok_op:
  assumes "plugins_ok lc m"
  shows "plugins_ok lc (apply_op lc op m)"
proof -
  note pub = plugins_ok_publish[OF plugins_ok_registry[OF assms]]
  have same: ?thesis if "same_plugins m (apply_op lc op m)" using plugins_ok_same[OF assms that] .
  show ?thesis
  proof (cases op)
    case (OpRegisterPlugin gs p)
    then show ?thesis using plugins_ok_register[OF assms] by simp
  next
    case (OpPluginChanged gs p n)
    then show ?thesis using assms pub by (simp add: pluginChanged_def)
  next
    case (OpDisposeRegistration gs r)
    then show ?thesis
      using assms plugins_ok_publish[OF registry_ok_unregister[OF plugins_ok_registry[OF assms]]]
      by (auto simp: disposeRegistration_def unregisterPlugin_def split: option.splits)
  next
    case (OpActivateFulfilled gs a)
    then show ?thesis using assms pub by (simp add: activate_fulfilled_def)
  next
    case OpDispose
    then show ?thesis by (simp add: composer_dispose_def plugins_ok_def registry_ok_def)
  qed (rule same; auto simp: same_plugins_def composer_simps split: option.splits)+
qed

lemma reachable_plugins_ok: "composer_reachable lc s \<Longrightarrow> plugins_ok lc (fst s)"
proof (induction rule: composer_reachable.induct)
  case (cr_new port draft capabilities steering preferred)
  show ?case by (simp add: plugins_ok_def registry_ok_def ComposerModel_new_def published_def)
next
  case (cr_step s s')
  from cr_step(2) show ?case
  proof cases
    case (cs_op m subs op)
    then show ?thesis using cr_step(3) plugins_ok_op by simp
  next
    case (cs_submit m sub m' subs)
    then have "same_plugins m m'" by (simp add: same_plugins_def submit_begin_SomeD(6)[OF cs_submit(3)])
    then show ?thesis using plugins_ok_same cr_step(3) cs_submit(1,2) by simp
  next
    case (cs_fulfilled sub subs m)
    have "same_plugins m (snd (submit_fulfilled sub m))"
      by (simp add: same_plugins_def submit_fulfilled_def composer_update_def)
    then show ?thesis using plugins_ok_same cr_step(3) cs_fulfilled(1,2) by simp
  next
    case (cs_rejected sub subs m msg)
    have "same_plugins m (snd (submit_rejected msg sub m))"
      by (simp add: same_plugins_def submit_rejected_def composer_update_def)
    then show ?thesis using plugins_ok_same cr_step(3) cs_rejected(1,2) by simp
  qed
qed

lemma plugin_compare_lawful:
  assumes "comparator lc"
  shows "comparator (plugin_compare lc)"
proof
  show "sgn (plugin_compare lc a b) = - sgn (plugin_compare lc b a)" for a b
  proof (cases "pn_order a = pn_order b")
    case True
    then show ?thesis using comparator.cmp_antisym[OF assms, of "pn_id a" "pn_id b"] by (simp add: plugin_compare_def)
  qed (auto simp: plugin_compare_def sgn_if)
  show "plugin_compare lc a c \<le> 0" if "plugin_compare lc a b \<le> 0" "plugin_compare lc b c \<le> 0" for a b c
    using that comparator.cmp_trans[OF assms, of "pn_id a" "pn_id b" "pn_id c"]
    by (auto simp: plugin_compare_def split: if_splits)
qed

text \<open>
  While the composer is alive its snapshot lists every registered plugin once and nothing else, in
  ascending order of \<open>order\<close> and then of the id (\<open>localeCompare\<close> being a lawful comparison), and each
  registered plugin has one listener store.
\<close>

theorem composer_plugins_published:
  assumes "composer_reachable lc (m, subs)" "\<not> cm_disposed m" "comparator lc"
  shows "distinct (map pn_id (sn_plugins (cm_snapshot m))) \<and>
    set (map pn_id (sn_plugins (cm_snapshot m))) = fst ` set (cm_plugins m) \<and>
    sorted_by (plugin_compare lc) (sn_plugins (cm_snapshot m)) \<and>
    distinct (map fst (cm_listeners m)) \<and> fst ` set (cm_listeners m) = fst ` set (cm_plugins m)"
proof -
  have ok: "plugins_ok lc m" using reachable_plugins_ok[OF assms(1)] by simp
  then obtain gs where p: "sn_plugins (cm_snapshot m) = published lc gs (cm_plugins m)"
    and k: "\<forall>(k, p) \<in> set (cm_plugins m). pl_id p = k" "distinct (map fst (cm_plugins m))"
    using assms(2) by (auto simp: plugins_ok_def registry_ok_def)
  have ids: "map (\<lambda>(_, p). pl_id p) (cm_plugins m) = map fst (cm_plugins m)" using k(1) by (intro map_cong) auto
  have m: "map pn_id (sn_plugins (cm_snapshot m)) = map pn_id (published lc gs (cm_plugins m))" by (simp add: p)
  have "set (map pn_id (published lc gs (cm_plugins m))) = fst ` set (cm_plugins m)"
    using arg_cong[OF ids, of set] by (simp add: published_def image_image case_prod_beta)
  moreover have "length (map pn_id (published lc gs (cm_plugins m))) = length (map fst (cm_plugins m))"
    by (simp add: published_def)
  ultimately have "distinct (map pn_id (published lc gs (cm_plugins m)))"
    using k(2) by (metis card_distinct distinct_card list.set_map)
  moreover have "sorted_by (plugin_compare lc) (published lc gs (cm_plugins m))"
    unfolding published_def by (rule comparator.sorted_js_sort[OF plugin_compare_lawful[OF assms(3)]])
  ultimately show ?thesis
    using ok \<open>set (map pn_id (published lc gs (cm_plugins m))) = _\<close> unfolding m p by (simp add: plugins_ok_def registry_ok_def)
qed

text \<open>Disposing the registration of a plugin that was replaced under its id does nothing.\<close>

lemma stale_registration:
  assumes "composer_reachable lc (m, subs)" "\<not> cm_disposed m" "pl_id p = pl_id q"
    and "registerPlugin lc gs p m = (reg, m1)" "registerPlugin lc gs' q m1 = (reg', m2)"
  shows "disposeRegistration lc gs'' reg m2 = m2"
proof -
  have reg: "reg = Some (pl_id p, cm_fresh m)" and m1: "cm_fresh m1 = cm_fresh m + 1" "\<not> cm_disposed m1"
    using assms(2,4) by (auto simp: registerPlugin_def Let_def publishPlugins_fields)
  have "map_of (cm_listeners m2) (pl_id p) = Some (cm_fresh m1)"
    using assms(3,5) m1(2) by (auto simp: registerPlugin_def Let_def publishPlugins_fields update_conv')
  then show ?thesis by (simp add: disposeRegistration_def reg m1(1))
qed

section \<open>What blocks a submission\<close>

text \<open>
  \<open>submit\<close> goes through exactly when the composer is alive, enabled, not submitting, without
  diagnostics and not blank; a refused call changes nothing; an accepted one hands the port the draft
  with the kind the request state asks for: never steering a port that does not support it and nothing
  but a plain send when no request is in progress.
\<close>

theorem composer_submit_guard:
  "(fst (submit_begin m) \<noteq> None \<longleftrightarrow> canSubmit m) \<and> (fst (submit_begin m) = None \<longrightarrow> snd (submit_begin m) = m) \<and>
   (\<forall>sub. fst (submit_begin m) = Some sub \<longrightarrow>
      \<not> cm_disposed m \<and> sn_diagnostics (cm_snapshot m) = [] \<and>
      (cd_attachments (sb_draft sub) \<noteq> [] \<or> (\<exists>c \<in> set (cd_text (sb_draft sub)). \<not> is_space c)) \<and>
      (sb_kind sub = Steering \<longrightarrow> supportsSteering (sn_submission (cm_snapshot m))) \<and>
      (requestInProgress (sn_submission (cm_snapshot m)) \<or> sb_kind sub = Send) \<and>
      sn_submitting (cm_snapshot (snd (submit_begin m))))"
proof -
  have trim: "js_trim s \<noteq> [] \<Longrightarrow> \<exists>c \<in> set s. \<not> is_space c" for s
  proof (rule ccontr)
    assume a: "js_trim s \<noteq> []" and "\<not> (\<exists>c \<in> set s. \<not> is_space c)"
    then have *: "dropWhile is_space s = []" by (simp add: dropWhile_eq_Nil_conv)
    have "js_trim s = []" unfolding js_trim_def * by simp
    then show False using a by simp
  qed
  show ?thesis
    using trim
    by (auto simp: submit_begin_def canSubmit_def composer_update_def resolveSubmitKind_def Let_def split: if_splits)
qed

section \<open>Witnesses\<close>

definition sample_compare :: locale_compare where
  "sample_compare a b = int (length a) - int (length b)"

definition sample_composer :: composer where
  "sample_composer = ComposerModel_new 7 \<lparr>cd_text = [104], cd_attachments = []\<rparr>
     \<lparr>supportsFileAttachments = None, supportsImageAttachments = None\<rparr> True Queued"

lemma sample_composer_reachable: "composer_reachable lc (sample_composer, [])"
  unfolding sample_composer_def by (rule cr_new)

definition sample_submission :: submission where
  "sample_submission = \<lparr>sb_draft = \<lparr>cd_text = [104], cd_attachments = []\<rparr>, sb_revision = 0, sb_kind = Send, sb_port = 7\<rparr>"

lemma sample_submit: "submit_begin sample_composer = (Some sample_submission, snd (submit_begin sample_composer))"
  by (simp add: sample_composer_def sample_submission_def submit_begin_def canSubmit_def ComposerModel_new_def
      resolveSubmitKind_def js_trim_def is_space_def)

theorem composer_single_submission_witness:
  "composer_reachable sample_compare (snd (submit_begin sample_composer), [sample_submission]) \<and>
   length [sample_submission] \<le> 1"
proof -
  have "composer_reachable sample_compare (snd (submit_begin sample_composer), [sample_submission])"
    by (rule cr_step[OF sample_composer_reachable cs_submit[OF sample_submit]])
  then show ?thesis using composer_single_submission by blast
qed

theorem composer_submit_preserves_edits_witness:
  "sn_draft (cm_snapshot (snd (submit_fulfilled sample_submission
     (run_ops sample_compare [OpSetText [105]] (snd (submit_begin sample_composer)))))) =
   \<lparr>cd_text = [105], cd_attachments = []\<rparr>"
proof -
  let ?m1 = "snd (submit_begin sample_composer)"
  let ?m2 = "run_ops sample_compare [OpSetText [105]] ?m1"
  have ev: "cd_text (sn_draft (cm_snapshot ?m1)) = [104]" "\<not> cm_disposed ?m1" "cd_attachments (sn_draft (cm_snapshot ?m1)) = []"
    by (simp_all add: sample_composer_def submit_begin_def composer_update_def ComposerModel_new_def)
  then have d: "\<not> cm_disposed ?m2" "sn_draft (cm_snapshot ?m2) = \<lparr>cd_text = [105], cd_attachments = []\<rparr>"
    by (simp_all add: setText_def setDraft_def bumpRevision_def composer_update_def)
  have "revised sample_compare [OpSetText [105]] ?m1" using ev by simp
  then show ?thesis
    using composer_submit_preserves_edits[OF sample_composer_reachable sample_submit refl d(1)] d(2) by simp
qed

theorem composer_plugins_published_witness:
  "composer_reachable sample_compare (sample_composer, []) \<and> comparator sample_compare \<and>
   distinct (map pn_id (sn_plugins (cm_snapshot sample_composer)))"
proof -
  have c: "comparator sample_compare" by standard (auto simp: sample_compare_def sgn_if)
  have "\<not> cm_disposed sample_composer" by (simp add: sample_composer_def ComposerModel_new_def)
  then show ?thesis using composer_plugins_published[OF sample_composer_reachable _ c] c sample_composer_reachable by blast
qed
end
