(* ===== verification/Drafts.thy ===== *)
theory Drafts
  imports JsStrings
begin

text \<open>
  References to attachments in the text of a draft, \<^verbatim>\<open>vs/workbench/contrib/latent/common/drafts.ts\<close> with
  \<^verbatim>\<open>attachmentNumbers.ts\<close>.

  The regular expression of a reference is a matcher that tries what the engine tries in the same
  order; a text is cut into the matches and the characters between them (\<open>ref_pieces\<close>), from
  which the \<open>matchAll\<close> loop and the \<open>replace\<close> calls are read off. Numbers are exact: a reference with
  a number of \<open>2 ^ 53\<close> or more is outside the model. An attachment entry is a record of the fields
  the code looks at, with the rest as an opaque payload.
\<close>

section \<open>The reference pattern\<close>

definition is_word :: "nat \<Rightarrow> bool" where
  "is_word c = (is_digit c \<or> 65 \<le> c \<and> c \<le> 90 \<or> 97 \<le> c \<and> c \<le> 122 \<or> c = 95)"

text \<open>\<open>[\w.+-]\<close>, the characters of a MIME type, and \<open>[\w/:.-]\<close>, those that must not follow.\<close>

definition is_mime :: "nat \<Rightarrow> bool" where
  "is_mime c = (is_word c \<or> c = 46 \<or> c = 43 \<or> c = 45)"

definition blocks_after :: "nat \<Rightarrow> bool" where
  "blocks_after c = (is_word c \<or> c = 47 \<or> c = 58 \<or> c = 46 \<or> c = 45)"

abbreviation ch_hash :: nat where "ch_hash \<equiv> 35"
abbreviation ch_colon :: nat where "ch_colon \<equiv> 58"

definition ok_before :: "nat option \<Rightarrow> bool" where
  "ok_before prev = (case prev of None \<Rightarrow> True | Some c \<Rightarrow> \<not> is_word c \<and> c \<noteq> ch_hash)"

definition ok_after :: "jsstring \<Rightarrow> bool" where
  "ok_after rest = (case rest of [] \<Rightarrow> True | c # _ \<Rightarrow> \<not> blocks_after c)"

text \<open>
  The optional \<open>:type/subtype\<close>: the part before the slash is the whole run, since a slash is not in
  its class; the part after it is tried from the longest to the shortest.
\<close>

definition match_mime :: "jsstring \<Rightarrow> jsstring option" where
  "match_mime s =
     (case s of
        [] \<Rightarrow> None
      | c # r \<Rightarrow>
          if c \<noteq> ch_colon then None
          else
            let a = takeWhile is_mime r
            in case dropWhile is_mime r of
                 [] \<Rightarrow> None
               | d # r2 \<Rightarrow>
                   if a = [] \<or> d \<noteq> ch_slash then None
                   else map_option (\<lambda>j. a @ ch_slash # take j r2)
                     (find (\<lambda>j. ok_after (drop j r2)) (rev [1..<Suc (length (takeWhile is_mime r2))])))"

text \<open>The digits, from the longest run to the shortest, with the optional part before without it.\<close>

definition match_after_digits :: "jsstring \<Rightarrow> nat \<Rightarrow> (jsstring \<times> jsstring option) option" where
  "match_after_digits s k =
     (case match_mime (drop k s) of
        Some m \<Rightarrow> Some (take k s, Some m)
      | None \<Rightarrow> if ok_after (drop k s) then Some (take k s, None) else None)"

definition match_digits :: "jsstring \<Rightarrow> (jsstring \<times> jsstring option) option" where
  "match_digits s =
     (case find (\<lambda>k. match_after_digits s k \<noteq> None) (rev [1..<Suc (length (takeWhile is_digit s))]) of
        None \<Rightarrow> None
      | Some k \<Rightarrow> match_after_digits s k)"

definition match_ref :: "nat option \<Rightarrow> jsstring \<Rightarrow> (jsstring \<times> jsstring option) option" where
  "match_ref prev s =
     (case s of [] \<Rightarrow> None | c # r \<Rightarrow> if c = ch_hash \<and> ok_before prev then match_digits r else None)"

datatype piece = Plain nat | Token jsstring "jsstring option"

definition token_text :: "jsstring \<Rightarrow> jsstring option \<Rightarrow> jsstring" where
  "token_text ds mime = ch_hash # ds @ (case mime of None \<Rightarrow> [] | Some m \<Rightarrow> ch_colon # m)"

fun piece_text :: "piece \<Rightarrow> jsstring" where
  "piece_text (Plain c) = [c]"
| "piece_text (Token ds mime) = token_text ds mime"

function ref_pieces :: "nat option \<Rightarrow> jsstring \<Rightarrow> piece list" where
  "ref_pieces prev [] = []"
| "ref_pieces prev (c # cs) =
     (case match_ref prev (c # cs) of
        None \<Rightarrow> Plain c # ref_pieces (Some c) cs
      | Some (ds, mime) \<Rightarrow>
          Token ds mime # ref_pieces (Some (last (token_text ds mime))) (drop (length (token_text ds mime)) (c # cs)))"
  by pat_completeness auto
termination
  by (relation "measure (\<lambda>(prev, s). length s)") (auto simp: token_text_def)

section \<open>Functions on references\<close>

record reference =
  rf_number :: int
  rf_mimeType :: "jsstring option"
  rf_startOffset :: int
  rf_endOffset :: int

fun findReferences_loop :: "int \<Rightarrow> piece list \<Rightarrow> reference list" where
  "findReferences_loop offset [] = []"
| "findReferences_loop offset (Plain c # ps) = findReferences_loop (offset + 1) ps"
| "findReferences_loop offset (Token ds mime # ps) =
     (let end = offset + int (length (token_text ds mime))
      in \<lparr>rf_number = digits_value ds, rf_mimeType = mime, rf_startOffset = offset, rf_endOffset = end\<rparr>
         # findReferences_loop end ps)"

definition findReferences :: "jsstring \<Rightarrow> reference list" where
  "findReferences text = findReferences_loop 0 (ref_pieces None text)"

record 'p variable_entry =
  ve_id :: jsstring
  ve_name :: jsstring
  ve_attachmentNumber :: "int option"
  ve_payload :: 'p

record 'p draft_attachment =
  da_number :: int
  da_entry :: "'p variable_entry"
  da_addedAt :: int
  da_removedAt :: "int option"

datatype diagnostic_reason = Invalid | Stale
datatype quick_fix = RemoveReference | ReAddAttachment

record reference_diagnostic =
  rd_kind :: diagnostic_reason
  rd_number :: int
  rd_startOffset :: int
  rd_endOffset :: int
  rd_quickFixes :: "quick_fix list"

definition attachmentLabel :: "'p variable_entry \<Rightarrow> jsstring" where
  "attachmentLabel entry = (if ve_name entry \<noteq> [] then ve_name entry else ve_id entry)"

definition formatAttachmentNumberPrompt :: "int \<Rightarrow> jsstring \<Rightarrow> jsstring" where
  "formatAttachmentNumberPrompt number name = js_lit ''[#'' @ int_text number @ js_lit '': '' @ name @ js_lit '']''"

definition formatAttachmentNumberReference :: "int \<Rightarrow> jsstring \<Rightarrow> jsstring" where
  "formatAttachmentNumberReference number mimeType = js_lit ''#'' @ int_text number @ js_lit '':'' @ mimeType"

text \<open>\<open>new Map(pairs)\<close>: of several pairs with one key the last one counts.\<close>

definition by_number :: "'p draft_attachment list \<Rightarrow> int \<Rightarrow> 'p draft_attachment option" where
  "by_number attachments n = map_of (rev (map (\<lambda>a. (da_number a, a)) attachments)) n"

fun validate_loop ::
    "'p draft_attachment list \<Rightarrow> int \<Rightarrow> reference list \<Rightarrow> reference_diagnostic list" where
  "validate_loop attachments nextNumber [] = []"
| "validate_loop attachments nextNumber (r # rs) =
     (let attachment = by_number attachments (rf_number r)
      in if attachment = None \<or> rf_number r \<le> 0 \<or> rf_number r \<ge> nextNumber \<and> attachment = None
         then \<lparr>rd_kind = Invalid, rd_number = rf_number r, rd_startOffset = rf_startOffset r, rd_endOffset = rf_endOffset r,
               rd_quickFixes = [RemoveReference]\<rparr> # validate_loop attachments nextNumber rs
         else if da_removedAt (the attachment) \<noteq> None
         then \<lparr>rd_kind = Stale, rd_number = rf_number r, rd_startOffset = rf_startOffset r, rd_endOffset = rf_endOffset r,
               rd_quickFixes = [ReAddAttachment, RemoveReference]\<rparr> # validate_loop attachments nextNumber rs
         else validate_loop attachments nextNumber rs)"

definition validateDraftReferences ::
    "jsstring \<Rightarrow> 'p draft_attachment list \<Rightarrow> int \<Rightarrow> reference_diagnostic list" where
  "validateDraftReferences text attachments nextNumber = validate_loop attachments nextNumber (findReferences text)"

text \<open>\<open>text.replace(referencePattern, f)\<close>.\<close>

definition replace_refs :: "(jsstring \<Rightarrow> jsstring \<Rightarrow> jsstring) \<Rightarrow> jsstring \<Rightarrow> jsstring" where
  "replace_refs f text =
     concat (map (\<lambda>p. case p of Plain c \<Rightarrow> [c] | Token ds mime \<Rightarrow> f (token_text ds mime) ds) (ref_pieces None text))"

definition rewriteReferencesForModel :: "jsstring \<Rightarrow> 'p draft_attachment list \<Rightarrow> jsstring" where
  "rewriteReferencesForModel text attachments =
     (let byNumber = by_number (filter (\<lambda>a. da_removedAt a = None) attachments)
      in replace_refs (\<lambda>token digits.
           case byNumber (digits_value digits) of
             Some a \<Rightarrow> formatAttachmentNumberPrompt (da_number a) (attachmentLabel (da_entry a))
           | None \<Rightarrow> token) text)"

text \<open>\<open>replace(/[ \t]{2,}/g, ' ')\<close>.\<close>

definition is_blank :: "nat \<Rightarrow> bool" where
  "is_blank c = (c = 32 \<or> c = 9)"

function collapse_blanks :: "jsstring \<Rightarrow> jsstring" where
  "collapse_blanks [] = []"
| "collapse_blanks (c # cs) =
     (if is_blank c \<and> cs \<noteq> [] \<and> is_blank (hd cs) then 32 # collapse_blanks (dropWhile is_blank cs)
      else c # collapse_blanks cs)"
  by pat_completeness auto
termination
  by (relation "measure length") (auto simp: length_dropWhile_le less_Suc_eq_le)

definition stripReference :: "jsstring \<Rightarrow> int \<Rightarrow> jsstring" where
  "stripReference text number =
     js_trim (collapse_blanks (replace_refs (\<lambda>token digits. if digits_value digits = number then [] else token) text))"

text \<open>\<open>token.replace(a, b)\<close> with a string: the first occurrence.\<close>

fun replace_first :: "jsstring \<Rightarrow> jsstring \<Rightarrow> jsstring \<Rightarrow> jsstring" where
  "replace_first a b [] = (if a = [] then b else [])"
| "replace_first a b (c # cs) =
     (if js_startsWith (c # cs) a then b @ drop (length a) (c # cs) else c # replace_first a b cs)"

definition renumberReference :: "jsstring \<Rightarrow> int \<Rightarrow> int \<Rightarrow> jsstring" where
  "renumberReference text from to =
     replace_refs (\<lambda>token digits.
       if digits_value digits = from then replace_first (ch_hash # int_text from) (ch_hash # int_text to) token
       else token) text"


section \<open>What a match is\<close>

lemma take_takeWhile_prefix: "j \<le> length (takeWhile P xs) \<Longrightarrow> take j xs = take j (takeWhile P xs)"
proof (induction xs arbitrary: j)
  case (Cons x xs)
  then show ?case by (cases j) (auto split: if_splits)
qed simp

lemma match_mime_SomeD:
  assumes "match_mime s = Some m"
  shows "\<exists>a b v. a \<noteq> [] \<and> b \<noteq> [] \<and> list_all is_mime a \<and> list_all is_mime b \<and> m = a @ ch_slash # b \<and>
    s = ch_colon # m @ v \<and> ok_after v"
proof -
  obtain r where s: "s = ch_colon # r" using assms by (auto simp: match_mime_def split: list.splits if_splits)
  define a where "a = takeWhile is_mime r"
  obtain r2 where r2: "dropWhile is_mime r = ch_slash # r2" and a0: "a \<noteq> []"
    using assms by (auto simp: match_mime_def s Let_def a_def split: list.splits if_splits)
  obtain j where j: "find (\<lambda>j. ok_after (drop j r2)) (rev [1..<Suc (length (takeWhile is_mime r2))]) = Some j"
    and m: "m = a @ ch_slash # take j r2"
    using assms a0 by (auto simp: match_mime_def s Let_def a_def[symmetric] r2)
  have "j \<in> set (rev [1..<Suc (length (takeWhile is_mime r2))])" "ok_after (drop j r2)"
    using j unfolding find_Some_iff by (metis nth_mem, metis)
  then have jb: "1 \<le> j" "j \<le> length (takeWhile is_mime r2)" "ok_after (drop j r2)" by auto
  then have "take j r2 = take j (takeWhile is_mime r2)" by (intro take_takeWhile_prefix)
  then have "list_all is_mime (take j r2)" by (auto simp: list_all_iff dest!: in_set_takeD set_takeWhileD)
  moreover have "take j r2 \<noteq> []" using jb length_takeWhile_le[of is_mime r2] by (cases r2) auto
  moreover have "list_all is_mime a" by (auto simp: list_all_iff a_def dest!: set_takeWhileD)
  moreover have "s = ch_colon # m @ drop j r2"
    by (simp add: s m) (metis a_def append_take_drop_id r2 takeWhile_dropWhile_id)
  ultimately show ?thesis using a0 m jb(3) by blast
qed

definition not_digit_head :: "jsstring \<Rightarrow> bool" where
  "not_digit_head t = (case t of [] \<Rightarrow> True | c # _ \<Rightarrow> \<not> is_digit c)"

lemma takeWhile_digits: "list_all P ds \<Longrightarrow> (case t of [] \<Rightarrow> True | c # _ \<Rightarrow> \<not> P c) \<Longrightarrow> takeWhile P (ds @ t) = ds"
  by (induction ds) (auto split: list.splits)

lemma ok_after_not_digit: "ok_after t \<Longrightarrow> not_digit_head t"
  by (auto simp: ok_after_def not_digit_head_def blocks_after_def is_word_def split: list.splits)

lemma match_after_digits_SomeD:
  "match_after_digits s k = Some (ds, m) \<Longrightarrow> ds = take k s \<and>
     (case m of Some mm \<Rightarrow> match_mime (drop k s) = Some mm | None \<Rightarrow> match_mime (drop k s) = None \<and> ok_after (drop k s))"
  by (auto simp: match_after_digits_def split: option.splits if_splits)

lemma match_digits_iff:
  "match_digits s = Some (ds, m) \<longleftrightarrow>
     (\<exists>t. s = ds @ t \<and> ds \<noteq> [] \<and> list_all is_digit ds \<and> not_digit_head t \<and>
        (case m of Some mm \<Rightarrow> match_mime t = Some mm | None \<Rightarrow> match_mime t = None \<and> ok_after t))"
  (is "?L \<longleftrightarrow> ?R")
proof
  assume ?L
  then obtain k where k: "find (\<lambda>k. match_after_digits s k \<noteq> None) (rev [1..<Suc (length (takeWhile is_digit s))]) = Some k"
    and mk: "match_after_digits s k = Some (ds, m)"
    by (auto simp: match_digits_def split: option.splits)
  have "k \<in> set (rev [1..<Suc (length (takeWhile is_digit s))])" using k unfolding find_Some_iff by (metis nth_mem)
  then have kb: "1 \<le> k" "k \<le> length (takeWhile is_digit s)" by auto
  have d: "ds = take k s" and c: "case m of Some mm \<Rightarrow> match_mime (drop k s) = Some mm
      | None \<Rightarrow> match_mime (drop k s) = None \<and> ok_after (drop k s)"
    using match_after_digits_SomeD[OF mk] by auto
  have "ds = take k (takeWhile is_digit s)"
    unfolding d using kb(2) by (rule take_takeWhile_prefix)
  then have "list_all is_digit ds" by (auto simp: list_all_iff dest!: in_set_takeD set_takeWhileD)
  moreover have "ds \<noteq> []" using kb length_takeWhile_le[of is_digit s] by (cases s) (auto simp: d)
  moreover have "not_digit_head (drop k s)"
  proof (cases m)
    case (Some mm)
    then obtain v where "drop k s = ch_colon # v" using c match_mime_SomeD by fastforce
    then show ?thesis by (simp add: not_digit_head_def is_digit_def)
  qed (use c ok_after_not_digit in auto)
  ultimately show ?R using c d by (intro exI[of _ "drop k s"]) simp
next
  assume ?R
  then obtain t where t: "s = ds @ t" "ds \<noteq> []" "list_all is_digit ds" "not_digit_head t"
    "case m of Some mm \<Rightarrow> match_mime t = Some mm | None \<Rightarrow> match_mime t = None \<and> ok_after t"
    by blast
  have tw: "takeWhile is_digit s = ds"
    unfolding t(1) by (rule takeWhile_digits) (use t(3,4) in \<open>auto simp: not_digit_head_def\<close>)
  have "match_after_digits s (length ds) = Some (ds, m)"
    using t(5) by (cases m) (simp_all add: match_after_digits_def t(1))
  moreover have "rev [1..<Suc (length ds)] = length ds # rev [1..<length ds]" using t(2) by (cases ds) auto
  ultimately show ?L by (simp add: match_digits_def tw)
qed

lemma match_ref_SomeD:
  assumes "match_ref prev s = Some (ds, m)"
  shows "\<exists>v. s = token_text ds m @ v \<and> ok_after v \<and> ok_before prev \<and> ds \<noteq> [] \<and> list_all is_digit ds"
proof -
  obtain r where s: "s = ch_hash # r" "ok_before prev" "match_digits r = Some (ds, m)"
    using assms by (auto simp: match_ref_def split: list.splits if_splits)
  from s(3) obtain t where t: "r = ds @ t" "ds \<noteq> []" "list_all is_digit ds"
      "case m of Some mm \<Rightarrow> match_mime t = Some mm | None \<Rightarrow> match_mime t = None \<and> ok_after t"
    unfolding match_digits_iff by blast
  show ?thesis
  proof (cases m)
    case None
    then show ?thesis using t s by (auto simp: token_text_def)
  next
    case (Some mm)
    then obtain v where "t = ch_colon # mm @ v" "ok_after v" using t(4) match_mime_SomeD by fastforce
    then show ?thesis using t s Some by (auto simp: token_text_def)
  qed
qed

text \<open>Cutting a text into pieces loses nothing.\<close>

lemma ref_pieces_text: "concat (map piece_text (ref_pieces prev s)) = s"
proof (induction prev s rule: ref_pieces.induct)
  case (2 prev c cs)
  show ?case
  proof (cases "match_ref prev (c # cs)")
    case None
    then show ?thesis using "2.IH"(1) by simp
  next
    case (Some p)
    obtain ds m where p: "p = (ds, m)" by (cases p)
    obtain v where v: "c # cs = token_text ds m @ v" using match_ref_SomeD Some p by metis
    have "ref_pieces prev (c # cs) =
        Token ds m # ref_pieces (Some (last (token_text ds m))) (drop (length (token_text ds m)) (c # cs))"
      by (simp add: Some p)
    then have "concat (map piece_text (ref_pieces prev (c # cs))) =
        token_text ds m @ drop (length (token_text ds m)) (c # cs)"
      using "2.IH"(2)[OF Some p[symmetric]] by simp
    then show ?thesis unfolding v by simp
  qed
qed simp

lemma ref_pieces_tokens:
  "Token ds m \<in> set (ref_pieces prev s) \<Longrightarrow> ds \<noteq> [] \<and> list_all is_digit ds"
proof (induction prev s rule: ref_pieces.induct)
  case (2 prev c cs)
  show ?case
  proof (cases "match_ref prev (c # cs)")
    case None
    then show ?thesis using "2.IH"(1) "2.prems" by simp
  next
    case (Some p)
    obtain ds' m' where p: "p = (ds', m')" by (cases p)
    have "ds' \<noteq> [] \<and> list_all is_digit ds'" using match_ref_SomeD Some p by metis
    then show ?thesis using "2.IH"(2)[OF Some p[symmetric]] "2.prems" by (auto simp: Some p)
  qed
qed simp

section \<open>The references of a text\<close>

lemma findReferences_loop_sound:
  assumes "r \<in> set (findReferences_loop (int (length u)) ps)"
  shows "\<exists>ds m x y. u @ concat (map piece_text ps) = x @ token_text ds m @ y \<and> Token ds m \<in> set ps \<and>
    rf_number r = digits_value ds \<and> rf_mimeType r = m \<and> rf_startOffset r = int (length x) \<and>
    rf_endOffset r = int (length x + length (token_text ds m)) \<and> length u \<le> length x"
  using assms
proof (induction "int (length u)" ps arbitrary: u rule: findReferences_loop.induct)
  case (2 c ps)
  have l: "int (length u) + 1 = int (length (u @ [c]))" by simp
  have "r \<in> set (findReferences_loop (int (length (u @ [c]))) ps)" using "2.prems" unfolding l[symmetric] by simp
  from "2.hyps"(1)[OF l this] show ?case by simp (metis Suc_leD)
next
  case (3 ds m ps)
  consider "r = \<lparr>rf_number = digits_value ds, rf_mimeType = m, rf_startOffset = int (length u),
      rf_endOffset = int (length u) + int (length (token_text ds m))\<rparr>"
    | "r \<in> set (findReferences_loop (int (length u) + int (length (token_text ds m))) ps)"
    using "3.prems" by (auto simp: Let_def)
  then show ?case
  proof cases
    case 1
    then show ?thesis
      by - (rule exI[of _ ds], rule exI[of _ m], rule exI[of _ u], rule exI[of _ "concat (map piece_text ps)"], auto)
  next
    case 2
    then have "r \<in> set (findReferences_loop (int (length (u @ token_text ds m))) ps)" by simp
    from "3.hyps"(1)[OF _ this] show ?thesis by simp (metis add_leD1)
  qed
qed simp

lemma findReferences_loop_ordered:
  "sorted_wrt (\<lambda>a b. rf_endOffset a \<le> rf_startOffset b) (findReferences_loop offset ps) \<and>
   (\<forall>r \<in> set (findReferences_loop offset ps). offset \<le> rf_startOffset r \<and> rf_startOffset r < rf_endOffset r)"
proof (induction offset ps rule: findReferences_loop.induct)
  case (2 offset c ps)
  then show ?case by fastforce
next
  case (3 offset ds m ps)
  have "0 < length (token_text ds m)" by (simp add: token_text_def)
  then show ?case using "3.IH"[OF refl] by (fastforce simp: Let_def)
qed simp

text \<open>
  The references found in a text are disjoint and in ascending order; the slice between the offsets of
  each is \<open>#\<close>, one or more digits that spell its number, and \<open>:\<close> with its MIME type when it has one.
\<close>

theorem findReferences_sound:
  "sorted_wrt (\<lambda>a b. rf_endOffset a \<le> rf_startOffset b) (findReferences text) \<and>
   list_all (\<lambda>r. \<exists>ds. ds \<noteq> [] \<and> list_all is_digit ds \<and> digits_value ds = rf_number r \<and>
       0 \<le> rf_startOffset r \<and> rf_endOffset r \<le> int (length text) \<and>
       js_substring text (rf_startOffset r) (rf_endOffset r) = token_text ds (rf_mimeType r))
     (findReferences text)"
proof (intro conjI)
  show "sorted_wrt (\<lambda>a b. rf_endOffset a \<le> rf_startOffset b) (findReferences text)"
    unfolding findReferences_def using findReferences_loop_ordered by blast
  show "list_all (\<lambda>r. \<exists>ds. ds \<noteq> [] \<and> list_all is_digit ds \<and> digits_value ds = rf_number r \<and>
       0 \<le> rf_startOffset r \<and> rf_endOffset r \<le> int (length text) \<and>
       js_substring text (rf_startOffset r) (rf_endOffset r) = token_text ds (rf_mimeType r)) (findReferences text)"
  proof (rule list_all_iff[THEN iffD2], rule ballI)
    fix r assume "r \<in> set (findReferences text)"
    then have "r \<in> set (findReferences_loop (int (length ([] :: jsstring))) (ref_pieces None text))"
      by (simp add: findReferences_def)
    from findReferences_loop_sound[OF this] obtain ds m x y where
      e: "text = x @ token_text ds m @ y" "Token ds m \<in> set (ref_pieces None text)" "rf_number r = digits_value ds"
        "rf_mimeType r = m" "rf_startOffset r = int (length x)" "rf_endOffset r = int (length x + length (token_text ds m))"
      by (auto simp: ref_pieces_text)
    have "js_substring text (rf_startOffset r) (rf_endOffset r) = token_text ds m"
      unfolding e(5,6) by (subst js_substring_valid) (use e(1) in \<open>auto simp del: of_nat_add\<close>)
    then show "\<exists>ds. ds \<noteq> [] \<and> list_all is_digit ds \<and> digits_value ds = rf_number r \<and>
       0 \<le> rf_startOffset r \<and> rf_endOffset r \<le> int (length text) \<and>
       js_substring text (rf_startOffset r) (rf_endOffset r) = token_text ds (rf_mimeType r)"
      using e ref_pieces_tokens[OF e(2)] by (intro exI[of _ ds]) auto
  qed
qed

section \<open>Exchanging the digits of references\<close>

text \<open>A match looks no further than the next \<open>#\<close>.\<close>

lemma hash_not [simp]: "\<not> is_digit ch_hash" "\<not> is_mime ch_hash" "\<not> is_word ch_hash" "\<not> blocks_after ch_hash"
  by (simp_all add: is_digit_def is_mime_def is_word_def blocks_after_def)

lemma takeWhile_cut: "\<not> P c \<Longrightarrow> takeWhile P (u @ c # v) = takeWhile P u"
  by (induction u) auto

lemma dropWhile_cut: "\<not> P c \<Longrightarrow> dropWhile P (u @ c # v) = dropWhile P u @ c # v"
  by (induction u) auto

lemma ok_after_cut: "ok_after (u @ ch_hash # v) = ok_after (u @ [ch_hash])"
  by (cases u) (simp_all add: ok_after_def)

lemma find_cong: "xs = ys \<Longrightarrow> (\<And>x. x \<in> set ys \<Longrightarrow> P x = Q x) \<Longrightarrow> find P xs = find Q ys"
  by (induction ys arbitrary: xs) auto

lemma match_mime_cut: "match_mime (u @ ch_hash # v) = match_mime (u @ [ch_hash])"
proof (cases u)
  case (Cons c r)
  show ?thesis
  proof (cases "dropWhile is_mime r")
    case (Cons d r2)
    have "find (\<lambda>j. ok_after (drop j (r2 @ ch_hash # v))) (rev [1..<Suc (length (takeWhile is_mime r2))]) =
        find (\<lambda>j. ok_after (drop j (r2 @ [ch_hash]))) (rev [1..<Suc (length (takeWhile is_mime r2))])"
    proof (rule find_cong[OF refl])
      fix j assume "j \<in> set (rev [1..<Suc (length (takeWhile is_mime r2))])"
      then have "j \<le> length r2" using length_takeWhile_le[of is_mime r2] by auto
      then show "ok_after (drop j (r2 @ ch_hash # v)) = ok_after (drop j (r2 @ [ch_hash]))"
        using ok_after_cut[of "drop j r2" v] by simp
    qed
    moreover have "take j (r2 @ ch_hash # v) = take j (r2 @ [ch_hash])"
      if "find (\<lambda>j. ok_after (drop j (r2 @ [ch_hash]))) (rev [1..<Suc (length (takeWhile is_mime r2))]) = Some j" for j
    proof -
      have "j \<in> set (rev [1..<Suc (length (takeWhile is_mime r2))])" using that unfolding find_Some_iff by (metis nth_mem)
      then have "j \<le> length r2" using length_takeWhile_le[of is_mime r2] by auto
      then show ?thesis by simp
    qed
    ultimately show ?thesis
      using \<open>u = c # r\<close> Cons
      by (auto simp: match_mime_def Let_def takeWhile_cut dropWhile_cut map_option_case split: option.splits)
  qed (use Cons in \<open>simp add: match_mime_def Let_def takeWhile_cut dropWhile_cut\<close>)
qed (simp add: match_mime_def)

lemma not_digit_head_cut: "not_digit_head (u @ ch_hash # v) = not_digit_head (u @ [ch_hash])"
  by (cases u) (simp_all add: not_digit_head_def)

definition same_upto_hash :: "jsstring \<Rightarrow> jsstring \<Rightarrow> bool" where
  "same_upto_hash s s' \<longleftrightarrow> s = s' \<or> (\<exists>u v v'. s = u @ ch_hash # v \<and> s' = u @ ch_hash # v')"

lemma same_upto_hash_append: "same_upto_hash s s' \<Longrightarrow> same_upto_hash (p @ s) (p @ s')"
  unfolding same_upto_hash_def by (metis append_assoc)

lemma same_upto_hash_tail:
  assumes "same_upto_hash s s'"
  shows "match_mime s = match_mime s'" "ok_after s = ok_after s'" "not_digit_head s = not_digit_head s'"
proof -
  consider "s = s'" | u v v' where "s = u @ ch_hash # v" "s' = u @ ch_hash # v'"
    using assms unfolding same_upto_hash_def by blast
  then have "match_mime s = match_mime s' \<and> ok_after s = ok_after s' \<and> not_digit_head s = not_digit_head s'"
  proof cases
    case 2
    then show ?thesis
      using match_mime_cut[of u v] match_mime_cut[of u v'] ok_after_cut[of u v] ok_after_cut[of u v']
        not_digit_head_cut[of u v] not_digit_head_cut[of u v'] by simp
  qed simp
  then show "match_mime s = match_mime s'" "ok_after s = ok_after s'" "not_digit_head s = not_digit_head s'" by auto
qed

text \<open>A matched token with other digits before the same rest is matched again.\<close>

lemma match_digits_exchange:
  assumes "match_digits (ds @ t) = Some (ds, m)" "same_upto_hash t t'" "ds' \<noteq> []" "list_all is_digit ds'"
  shows "match_digits (ds' @ t') = Some (ds', m)"
  using assms same_upto_hash_tail[OF assms(2)] unfolding match_digits_iff by (cases m) auto

lemma match_digits_None:
  assumes "match_digits s = None" "same_upto_hash s s'"
  shows "match_digits s' = None"
proof (rule ccontr)
  assume "match_digits s' \<noteq> None"
  then obtain ds m where m: "match_digits s' = Some (ds, m)" by auto
  then obtain t' where t': "s' = ds @ t'" "list_all is_digit ds" "ds \<noteq> []" unfolding match_digits_iff by blast
  have "\<exists>t. s = ds @ t \<and> same_upto_hash t' t"
  proof -
    consider "s = s'" | u v v' where "s = u @ ch_hash # v" "s' = u @ ch_hash # v'"
      using assms(2) unfolding same_upto_hash_def by blast
    then show ?thesis
    proof cases
      case 1
      then show ?thesis using t' by (auto simp: same_upto_hash_def)
    next
      case 2
      have "length ds \<le> length u"
      proof (rule ccontr)
        assume "\<not> length ds \<le> length u"
        then have "s' ! length u \<in> set ds" using t'(1) by (simp add: nth_append)
        moreover have "s' ! length u = ch_hash" by (simp add: 2)
        ultimately show False using t'(2) by (auto simp: list_all_iff)
      qed
      then obtain w where "u = ds @ w" using 2 t'(1) by (metis append_eq_append_conv_if append_take_drop_id)
      then show ?thesis using 2 t'(1) by (auto simp: same_upto_hash_def)
    qed
  qed
  then show False using match_digits_exchange[of ds t' m _ ds] m t' assms(1) by auto
qed

definition exchange :: "(jsstring \<Rightarrow> jsstring) \<Rightarrow> piece \<Rightarrow> piece" where
  "exchange f p = (case p of Plain c \<Rightarrow> Plain c | Token ds m \<Rightarrow> Token (f ds) m)"

lemma exchange_simps [simp]: "exchange f (Plain c) = Plain c" "exchange f (Token ds m) = Token (f ds) m"
  by (simp_all add: exchange_def)

lemma exchange_same_upto_hash:
  "same_upto_hash (concat (map piece_text ps)) (concat (map (piece_text \<circ> exchange f) ps))"
proof (induction ps)
  case (Cons p ps)
  show ?case
  proof (cases p)
    case (Plain c)
    then show ?thesis using same_upto_hash_append[OF Cons, of "[c]"] by simp
  next
    case (Token ds m)
    have "concat (map piece_text (p # ps)) = [] @ ch_hash # (ds @ (case m of None \<Rightarrow> [] | Some m \<Rightarrow> ch_colon # m) @ concat (map piece_text ps))"
      "concat (map (piece_text \<circ> exchange f) (p # ps)) =
       [] @ ch_hash # (f ds @ (case m of None \<Rightarrow> [] | Some m \<Rightarrow> ch_colon # m) @ concat (map (piece_text \<circ> exchange f) ps))"
      by (simp_all add: Token token_text_def)
    then show ?thesis unfolding same_upto_hash_def by blast
  qed
qed (simp add: same_upto_hash_def)

lemma last_token_word:
  assumes "ds \<noteq> []" "list_all is_digit ds" "ds' \<noteq> []" "list_all is_digit ds'"
  shows "ok_before (Some (last (token_text ds m))) = ok_before (Some (last (token_text ds' m)))"
proof (cases m)
  case None
  have "is_word (last ds)" "is_word (last ds')"
    using assms last_in_set[of ds] last_in_set[of ds'] by (auto simp: list_all_iff is_word_def)
  then show ?thesis using assms by (simp add: None token_text_def ok_before_def)
next
  case (Some mm)
  then show ?thesis using assms by (simp add: token_text_def)
qed


lemma ref_pieces_exchange:
  assumes "\<forall>ds m. Token ds m \<in> set (ref_pieces prev s) \<longrightarrow> f ds \<noteq> [] \<and> list_all is_digit (f ds)"
    and "ok_before prev = ok_before prev'"
  shows "ref_pieces prev' (concat (map (piece_text \<circ> exchange f) (ref_pieces prev s))) = map (exchange f) (ref_pieces prev s)"
  using assms
proof (induction prev s arbitrary: prev' rule: ref_pieces.induct)
  case (2 prev c cs)
  show ?case
  proof (cases "match_ref prev (c # cs)")
    case None
    define T where "T = concat (map (piece_text \<circ> exchange f) (ref_pieces (Some c) cs))"
    have "same_upto_hash cs T"
      using exchange_same_upto_hash[of "ref_pieces (Some c) cs" f] by (simp add: ref_pieces_text T_def)
    then have "match_ref prev' (c # T) = None"
      using None "2.prems"(2) match_digits_None[of cs T] by (auto simp: match_ref_def split: if_splits)
    moreover have "ref_pieces (Some c) T = map (exchange f) (ref_pieces (Some c) cs)"
      unfolding T_def by (rule "2.IH"(1)[OF None]) (use "2.prems"(1) None in auto)
    moreover have "concat (map (piece_text \<circ> exchange f) (ref_pieces prev (c # cs))) = c # T"
      by (simp add: None T_def)
    ultimately show ?thesis by (simp only: ref_pieces.simps(2) None option.case) simp
  next
    case (Some p)
    obtain ds m where p: "p = (ds, m)" by (cases p)
    define v where "v = drop (length (token_text ds m)) (c # cs)"
    define ps where "ps = ref_pieces (Some (last (token_text ds m))) v"
    define T where "T = concat (map (piece_text \<circ> exchange f) ps)"
    define mt where "mt = (case m of None \<Rightarrow> [] | Some m \<Rightarrow> ch_colon # m)"
    have rp: "ref_pieces prev (c # cs) = Token ds m # ps" by (simp add: Some p ps_def v_def)
    have ds: "ds \<noteq> []" "list_all is_digit ds" "ok_before prev" "c # cs = token_text ds m @ v"
      using match_ref_SomeD[of prev "c # cs" ds m] Some p by (auto simp: v_def)
    have fds: "f ds \<noteq> []" "list_all is_digit (f ds)" using "2.prems"(1) rp by auto
    have "match_digits (ds @ mt @ v) = Some (ds, m)"
      using Some p ds(3,4) by (simp add: match_ref_def token_text_def mt_def)
    moreover have "same_upto_hash (mt @ v) (mt @ T)"
      using exchange_same_upto_hash[of ps f] unfolding T_def ps_def ref_pieces_text by (rule same_upto_hash_append)
    ultimately have "match_digits (f ds @ mt @ T) = Some (f ds, m)" using match_digits_exchange fds by blast
    then have m': "match_ref prev' (ch_hash # f ds @ mt @ T) = Some (f ds, m)"
      using ds(3) "2.prems"(2) by (simp add: match_ref_def)
    have tx: "concat (map (piece_text \<circ> exchange f) (ref_pieces prev (c # cs))) = ch_hash # f ds @ mt @ T"
      unfolding rp by (simp add: T_def token_text_def mt_def)
    have "drop (length (token_text (f ds) m)) (ch_hash # f ds @ mt @ T) = T" by (simp add: token_text_def mt_def)
    moreover have "ref_pieces (Some (last (token_text (f ds) m))) T = map (exchange f) ps"
      unfolding T_def ps_def
    proof (rule "2.IH"(2)[OF Some p[symmetric], folded v_def])
      show "\<forall>ds' m'. Token ds' m' \<in> set (ref_pieces (Some (last (token_text ds m))) v) \<longrightarrow> f ds' \<noteq> [] \<and> list_all is_digit (f ds')"
        using "2.prems"(1) rp by (auto simp: ps_def)
      show "ok_before (Some (last (token_text ds m))) = ok_before (Some (last (token_text (f ds) m)))"
        by (rule last_token_word) (use ds fds in auto)
    qed
    ultimately have "ref_pieces prev' (ch_hash # f ds @ mt @ T) = Token (f ds) m # map (exchange f) ps"
      by (simp only: ref_pieces.simps(2) m' option.case prod.case)
    then show ?thesis unfolding tx unfolding rp by simp
  qed
qed simp

fun token_numbers :: "piece list \<Rightarrow> int list" where
  "token_numbers [] = []"
| "token_numbers (Plain c # ps) = token_numbers ps"
| "token_numbers (Token ds m # ps) = digits_value ds # token_numbers ps"

lemma findReferences_numbers: "map rf_number (findReferences_loop offset ps) = token_numbers ps"
  by (induction offset ps rule: findReferences_loop.induct) (auto simp: Let_def)

text \<open>Every reference to a number is spelt the way the number is printed, without leading zeros.\<close>

definition spelt_plainly :: "jsstring \<Rightarrow> int \<Rightarrow> bool" where
  "spelt_plainly text n =
     list_all (\<lambda>p. case p of Plain _ \<Rightarrow> True | Token ds _ \<Rightarrow> digits_value ds = n \<longrightarrow> ds = int_text n) (ref_pieces None text)"

definition renumber_digits :: "int \<Rightarrow> int \<Rightarrow> jsstring \<Rightarrow> jsstring" where
  "renumber_digits from to ds = (if digits_value ds = from then int_text to else ds)"

lemma renumberReference_pieces:
  assumes "spelt_plainly text from"
  shows "renumberReference text from to = concat (map (piece_text \<circ> exchange (renumber_digits from to)) (ref_pieces None text))"
proof -
  have first: "replace_first (ch_hash # a) (ch_hash # b) (token_text a m) = token_text b m" for a b m
    by (simp add: token_text_def js_startsWith_def)
  have "(case p of Plain c \<Rightarrow> [c] | Token ds mime \<Rightarrow>
      if digits_value ds = from then replace_first (ch_hash # int_text from) (ch_hash # int_text to) (token_text ds mime)
      else token_text ds mime) = (piece_text \<circ> exchange (renumber_digits from to)) p"
    if "p \<in> set (ref_pieces None text)" for p
  proof (cases p)
    case (Token ds m)
    have "digits_value ds = from \<longrightarrow> ds = int_text from"
      using assms that Token unfolding spelt_plainly_def list_all_iff by fastforce
    then show ?thesis using Token by (auto simp: renumber_digits_def first)
  qed simp
  then show ?thesis unfolding renumberReference_def replace_refs_def by (intro arg_cong[where f=concat] map_cong) auto
qed

lemma renumberReference_numbers:
  assumes "spelt_plainly text from" "0 \<le> to"
  shows "map rf_number (findReferences (renumberReference text from to)) =
    map (\<lambda>r. if rf_number r = from then to else rf_number r) (findReferences text)"
proof -
  let ?f = "renumber_digits from to"
  have to: "int_text to \<noteq> []" "list_all is_digit (int_text to)" "digits_value (int_text to) = to"
    using int_text_digits[OF assms(2)] by auto
  have "ref_pieces None (renumberReference text from to) = map (exchange ?f) (ref_pieces None text)"
    unfolding renumberReference_pieces[OF assms(1)]
    by (rule ref_pieces_exchange) (use to ref_pieces_tokens in \<open>auto simp: renumber_digits_def\<close>)
  moreover have "token_numbers (map (exchange ?f) ps) = map (\<lambda>n. if n = from then to else n) (token_numbers ps)" for ps
    by (induction ps rule: token_numbers.induct) (simp_all add: renumber_digits_def to)
  ultimately show ?thesis
    unfolding findReferences_def findReferences_numbers
    by (simp add: findReferences_numbers[of 0, symmetric])
qed

text \<open>
  Renumbering re-points exactly the references it means to: when the references to \<open>from\<close> are spelt
  without leading zeros, the references of the new text are those of the old one in the same order,
  with \<open>to\<close> in place of \<open>from\<close>; nothing else becomes a reference or stops being one.
\<close>

theorem renumberReference_correct:
  assumes "spelt_plainly text from" "0 \<le> to"
  shows "map rf_number (findReferences (renumberReference text from to)) =
    map (\<lambda>r. if rf_number r = from then to else rf_number r) (findReferences text)"
  by (rule renumberReference_numbers[OF assms])

section \<open>Printing and finding\<close>

lemma match_ref_no_hash: "ch_hash \<notin> set u \<Longrightarrow> ref_pieces prev u = map Plain u"
  by (induction u arbitrary: prev) (auto simp: match_ref_def)

lemma ref_pieces_plain_prefix:
  "ch_hash \<notin> set u \<Longrightarrow> ref_pieces prev (u @ s) = map Plain u @ ref_pieces (if u = [] then prev else Some (last u)) s"
  by (induction u arbitrary: prev) (auto simp: match_ref_def)

definition well_formed_mime :: "jsstring \<Rightarrow> bool" where
  "well_formed_mime m =
     (let a = takeWhile is_mime m; r = dropWhile is_mime m
      in a \<noteq> [] \<and> r \<noteq> [] \<and> hd r = ch_slash \<and> tl r \<noteq> [] \<and> list_all is_mime (tl r))"

text \<open>What may follow: nothing, or a character that neither continues the MIME type nor blocks the match.\<close>

definition ends_reference :: "jsstring \<Rightarrow> bool" where
  "ends_reference v = (case v of [] \<Rightarrow> True | c # _ \<Rightarrow> \<not> blocks_after c \<and> \<not> is_mime c)"

lemma match_mime_printed:
  assumes "well_formed_mime m" "ends_reference v"
  shows "match_mime (ch_colon # m @ v) = Some m"
proof -
  obtain a b where m: "m = a @ ch_slash # b" "a \<noteq> []" "b \<noteq> []" "list_all is_mime a" "list_all is_mime b"
  proof -
    have "m = takeWhile is_mime m @ ch_slash # tl (dropWhile is_mime m)"
      using assms(1) by (metis hd_Cons_tl takeWhile_dropWhile_id well_formed_mime_def)
    moreover have "list_all is_mime (takeWhile is_mime m)" by (auto simp: list_all_iff dest: set_takeWhileD)
    ultimately show ?thesis using that assms(1) by (metis well_formed_mime_def)
  qed
  have s: "\<not> is_mime ch_slash" by (simp add: is_mime_def is_word_def is_digit_def)
  have tw: "takeWhile is_mime (a @ ch_slash # b @ v) = a" "dropWhile is_mime (a @ ch_slash # b @ v) = ch_slash # b @ v"
    using m(4) s takeWhile_digits[of is_mime a "ch_slash # b @ v"]
    by (simp, simp add: dropWhile_append3 dropWhile_append2 list_all_iff)
  have twb: "takeWhile is_mime (b @ v) = b"
    by (rule takeWhile_digits) (use m(5) assms(2) in \<open>auto simp: ends_reference_def split: list.splits\<close>)
  have "rev [1..<Suc (length b)] = length b # rev [1..<length b]" using m(3) by (cases b) auto
  moreover have "ok_after v" using assms(2) by (auto simp: ends_reference_def ok_after_def split: list.splits)
  ultimately show ?thesis using m(2,3) by (simp add: match_mime_def m(1) tw twb Let_def Suc_le_eq)
qed

text \<open>
  What the composer inserts is what it finds: a printed reference between text that has no \<open>#\<close> and does
  not run into it is found, once, with its number, its MIME type and its offsets.
\<close>

theorem findReferences_printed:
  assumes "0 \<le> n" "well_formed_mime m" "ch_hash \<notin> set u" "u = [] \<or> \<not> is_word (last u)" "ch_hash \<notin> set v"
    "ends_reference v"
  shows "findReferences (u @ formatAttachmentNumberReference n m @ v) =
    [\<lparr>rf_number = n, rf_mimeType = Some m, rf_startOffset = int (length u),
      rf_endOffset = int (length u + length (formatAttachmentNumberReference n m))\<rparr>]"
proof -
  let ?prev = "if u = [] then None else Some (last u)"
  have d: "int_text n \<noteq> []" "list_all is_digit (int_text n)" "digits_value (int_text n) = n"
    using int_text_digits[OF assms(1)] by auto
  have fmt: "formatAttachmentNumberReference n m = token_text (int_text n) (Some m)"
    by (simp add: formatAttachmentNumberReference_def token_text_def js_lit_def)
  have "ok_before ?prev" using assms(3,4) by (auto simp: ok_before_def dest!: last_in_set)
  moreover have "match_digits (int_text n @ ch_colon # m @ v) = Some (int_text n, Some m)"
    unfolding match_digits_iff using d match_mime_printed[OF assms(2,6)]
    by (intro exI[of _ "ch_colon # m @ v"]) (simp add: not_digit_head_def is_digit_def)
  ultimately have "match_ref ?prev (token_text (int_text n) (Some m) @ v) = Some (int_text n, Some m)"
    by (simp add: match_ref_def token_text_def)
  then have "ref_pieces ?prev (token_text (int_text n) (Some m) @ v) = Token (int_text n) (Some m) # map Plain v"
    using match_ref_no_hash[OF assms(5)] by (simp add: token_text_def)
  then have p: "ref_pieces None (u @ formatAttachmentNumberReference n m @ v) =
      map Plain u @ Token (int_text n) (Some m) # map Plain v"
    using ref_pieces_plain_prefix[OF assms(3)] by (simp add: fmt)
  have plain: "findReferences_loop off (map Plain w @ ps) = findReferences_loop (off + int (length w)) ps" for off w ps
    by (induction w arbitrary: off) (simp_all add: algebra_simps)
  have "findReferences_loop off (map Plain w) = []" for off w using plain[of off w "[]"] by simp
  then show ?thesis unfolding findReferences_def p plain by (simp add: fmt d(3) Let_def)
qed

section \<open>Validation\<close>

lemma validate_loop_empty:
  "validate_loop attachments nextNumber rs = [] \<longleftrightarrow>
     (\<forall>r \<in> set rs. 0 < rf_number r \<and> (\<exists>a. by_number attachments (rf_number r) = Some a \<and> da_removedAt a = None))"
  by (induction rs) (auto simp: Let_def)

lemma by_number_SomeD: "by_number attachments n = Some a \<Longrightarrow> a \<in> set attachments \<and> da_number a = n"
  unfolding by_number_def by (auto dest!: map_of_SomeD)

lemma by_number_distinct:
  assumes "distinct (map da_number attachments)" "a \<in> set attachments"
  shows "by_number attachments (da_number a) = Some a"
proof -
  have "distinct (map fst (rev (map (\<lambda>a. (da_number a, a)) attachments)))"
    using assms(1) by (simp add: rev_map[symmetric] comp_def)
  then show ?thesis unfolding by_number_def using assms(2) by (intro map_of_is_SomeI) auto
qed

text \<open>
  A draft whose validation reports nothing can be rewritten for the model in full: with distinct attachment
  numbers, every reference of the text is the number of an attachment that has not been removed, and the
  rewritten text is the text with each of them replaced by \<open>[#n: label]\<close> of that attachment.
\<close>

theorem validated_text_rewritten:
  assumes "validateDraftReferences text attachments nextNumber = []" "distinct (map da_number attachments)"
  shows "(\<forall>r \<in> set (findReferences text). \<exists>a \<in> set attachments. da_number a = rf_number r \<and> da_removedAt a = None) \<and>
    rewriteReferencesForModel text attachments =
      concat (map (\<lambda>p. case p of Plain c \<Rightarrow> [c] | Token ds _ \<Rightarrow>
        formatAttachmentNumberPrompt (digits_value ds)
          (attachmentLabel (da_entry (the (by_number attachments (digits_value ds)))))) (ref_pieces None text))"
proof -
  have live: "\<exists>a. by_number attachments (rf_number r) = Some a \<and> da_removedAt a = None" if "r \<in> set (findReferences text)" for r
    using assms(1) that unfolding validateDraftReferences_def validate_loop_empty by blast
  have tok: "Token ds m \<in> set ps \<Longrightarrow> digits_value ds \<in> set (token_numbers ps)" for ds m ps
    by (induction ps rule: token_numbers.induct) auto
  have "\<exists>r \<in> set (findReferences text). rf_number r = digits_value ds" if "Token ds m \<in> set (ref_pieces None text)" for ds m
    using tok[OF that] unfolding findReferences_def findReferences_numbers[of 0, symmetric] by auto
  then have tl: "\<exists>a. by_number attachments (digits_value ds) = Some a \<and> da_removedAt a = None"
    if "Token ds m \<in> set (ref_pieces None text)" for ds m
    using live that by metis
  have pick: "by_number (filter (\<lambda>a. da_removedAt a = None) attachments) n = Some a"
    if "by_number attachments n = Some a" "da_removedAt a = None" for n a
    using by_number_distinct[OF distinct_map_filter[OF assms(2), of "\<lambda>a. da_removedAt a = None"], of a]
      by_number_SomeD[OF that(1)] that(2) by auto
  have "rewriteReferencesForModel text attachments =
      concat (map (\<lambda>p. case p of Plain c \<Rightarrow> [c] | Token ds _ \<Rightarrow>
        formatAttachmentNumberPrompt (digits_value ds)
          (attachmentLabel (da_entry (the (by_number attachments (digits_value ds)))))) (ref_pieces None text))"
    unfolding rewriteReferencesForModel_def replace_refs_def Let_def
  proof (intro arg_cong[where f=concat] map_cong refl)
    fix p assume p: "p \<in> set (ref_pieces None text)"
    show "(case p of Plain c \<Rightarrow> [c]
        | Token ds mime \<Rightarrow> case by_number (filter (\<lambda>a. da_removedAt a = None) attachments) (digits_value ds) of
            None \<Rightarrow> token_text ds mime
          | Some a \<Rightarrow> formatAttachmentNumberPrompt (da_number a) (attachmentLabel (da_entry a))) =
      (case p of Plain c \<Rightarrow> [c] | Token ds _ \<Rightarrow> formatAttachmentNumberPrompt (digits_value ds)
          (attachmentLabel (da_entry (the (by_number attachments (digits_value ds))))))"
    proof (cases p)
      case (Token ds m)
      then obtain a where a: "by_number attachments (digits_value ds) = Some a" "da_removedAt a = None" using tl p by blast
      then show ?thesis using pick[OF a] by_number_SomeD[OF a(1)] by (simp add: Token)
    qed simp
  qed
  then show ?thesis using live by_number_SomeD by metis
qed

section \<open>Witnesses and counterexamples\<close>

lemmas drafts_eval =
  findReferences_def match_ref_def match_digits_def match_after_digits_def match_mime_def is_digit_def is_word_def is_mime_def
  blocks_after_def ok_before_def ok_after_def token_text_def digits_value_def js_lit_def

lemma sample_pieces: "ref_pieces None (js_lit ''#2 x #12'') =
  [Token [50] None, Plain 32, Plain 120, Plain 32, Token [49, 50] None]"
  by (simp add: drafts_eval)

theorem renumberReference_correct_witness:
  "map rf_number (findReferences (renumberReference (js_lit ''#2 x #12'') 2 5)) = [5, 12]"
proof -
  have "spelt_plainly (js_lit ''#2 x #12'') 2"
    by (simp add: spelt_plainly_def sample_pieces digits_value_def int_text_def nat_digits.simps)
  from renumberReference_correct[OF this, of 5] show ?thesis
    by (simp add: findReferences_def sample_pieces digits_value_def Let_def)
qed

theorem findReferences_printed_witness:
  "findReferences (js_lit ''see '' @ formatAttachmentNumberReference 7 (js_lit ''text/plain'') @ js_lit '' now'') =
    [\<lparr>rf_number = 7, rf_mimeType = Some (js_lit ''text/plain''), rf_startOffset = 4,
      rf_endOffset = int (4 + length (formatAttachmentNumberReference 7 (js_lit ''text/plain'')))\<rparr>]"
proof -
  have "well_formed_mime (js_lit ''text/plain'')" by (simp add: well_formed_mime_def Let_def drafts_eval)
  moreover have "ends_reference (js_lit '' now'')" by (simp add: ends_reference_def drafts_eval)
  moreover have "ch_hash \<notin> set (js_lit ''see '')" "ch_hash \<notin> set (js_lit '' now'')" "\<not> is_word (last (js_lit ''see ''))"
    by (simp_all add: drafts_eval)
  moreover have "length (js_lit ''see '') = 4" by (simp add: js_lit_def)
  ultimately show ?thesis
    using findReferences_printed[of 7 "js_lit ''text/plain''" "js_lit ''see ''" "js_lit '' now''"] by simp
qed

definition sample_attachment :: "unit draft_attachment" where
  "sample_attachment = \<lparr>da_number = 2, da_entry = \<lparr>ve_id = [105], ve_name = [], ve_attachmentNumber = None, ve_payload = ()\<rparr>,
     da_addedAt = 0, da_removedAt = None\<rparr>"

theorem validated_text_rewritten_witness:
  "rewriteReferencesForModel (js_lit ''#2'') [sample_attachment] = formatAttachmentNumberPrompt 2 [105]"
proof -
  have p: "ref_pieces None (js_lit ''#2'') = [Token [50] None]" by (simp add: drafts_eval)
  have "validateDraftReferences (js_lit ''#2'') [sample_attachment] 3 = []"
    by (simp add: validateDraftReferences_def findReferences_def p digits_value_def by_number_def sample_attachment_def Let_def)
  from validated_text_rewritten[OF this] show ?thesis
    by (simp add: p digits_value_def by_number_def sample_attachment_def attachmentLabel_def)
qed

text \<open>
  Removing references can leave one: of \<open>#1#1\<close> only the first is a reference, and once it is gone the second
  one is. And the blanks of the whole text are collapsed, with or without a reference to remove.
\<close>

lemma stripReference_leaves_reference:
  "map rf_number (findReferences (stripReference (js_lit ''#1#1'') 1)) = [1]"
proof -
  have "ref_pieces None (js_lit ''#1#1'') = [Token [49] None, Plain 35, Plain 49]" by (simp add: drafts_eval)
  then have "stripReference (js_lit ''#1#1'') 1 = js_lit ''#1''"
    unfolding stripReference_def replace_refs_def
    by (simp add: digits_value_def js_trim_def is_space_def is_blank_def) (simp add: js_lit_def)
  moreover have "ref_pieces None (js_lit ''#1'') = [Token [49] None]" by (simp add: drafts_eval)
  ultimately show ?thesis unfolding findReferences_def by (simp add: digits_value_def Let_def)
qed

lemma stripReference_collapses_blanks:
  "stripReference (js_lit ''if x:  y'') 1 = js_lit ''if x: y''"
proof -
  have "ref_pieces None (js_lit ''if x:  y'') = map Plain (js_lit ''if x:  y'')"
    by (rule match_ref_no_hash) (simp add: js_lit_def)
  then show ?thesis
    unfolding stripReference_def replace_refs_def by simp (simp add: js_trim_def is_space_def js_lit_def is_blank_def)
qed

text \<open>A reference with a leading zero is found under its number but not renumbered.\<close>

lemma renumberReference_leading_zero:
  "map rf_number (findReferences (js_lit ''#01'')) = [1] \<and> renumberReference (js_lit ''#01'') 1 5 = js_lit ''#01''"
proof -
  have p: "ref_pieces None (js_lit ''#01'') = [Token [48, 49] None]" by (simp add: drafts_eval)
  have "map rf_number (findReferences (js_lit ''#01'')) = [1]"
    unfolding findReferences_def p by (simp add: digits_value_def Let_def)
  moreover have "renumberReference (js_lit ''#01'') 1 5 = js_lit ''#01''"
    unfolding renumberReference_def replace_refs_def p
    by (simp add: digits_value_def int_text_def nat_digits.simps token_text_def js_startsWith_def js_lit_def)
  ultimately show ?thesis ..
qed
end
