(* ===== verification/TabDrafts.thy ===== *)
theory TabDrafts
  imports Drafts SortedArrays "HOL-Library.AList"
begin

text \<open>
  One draft per tab: \<^verbatim>\<open>vs/workbench/contrib/latent/browser/drafts/tabDraftService.ts\<close>, the tab keys of
  \<^verbatim>\<open>common/tabKey.ts\<close> and the hash of \<^verbatim>\<open>vs/base/common/hash.ts\<close> they are stored under.

  The service state is the map of loaded drafts, the workspace storage and the change events. A draft
  object is reached through its key only, so a mutation is an update under that key. \<open>JSON.stringify\<close>,
  \<open>JSON.parse\<close> with \<open>revive\<close>, and whether a stored string is non-empty are the \<open>codec\<close>, a parameter; the
  theorems that need it assume that parsing undoes printing. \<open>Date.now()\<close> is an argument. A URI
  is its string.
\<close>

section \<open>Tab keys\<close>

record tab_key =
  tk_groupId :: int
  tk_typeId :: jsstring
  tk_resource :: jsstring

definition tabKeyEquals :: "tab_key \<Rightarrow> tab_key \<Rightarrow> bool" where
  "tabKeyEquals a b = (tk_groupId a = tk_groupId b \<and> tk_typeId a = tk_typeId b \<and> tk_resource a = tk_resource b)"

definition tabKeyToString :: "tab_key \<Rightarrow> jsstring" where
  "tabKeyToString key = int_text (tk_groupId key) @ js_lit '':'' @ tk_typeId key @ js_lit '':'' @ tk_resource key"

definition numberHash :: "int \<Rightarrow> int \<Rightarrow> int" where
  "numberHash val initialHashVal = toInt32 (toInt32 (initialHashVal * 2 ^ 5) - initialHashVal + val)"

fun stringHash_loop :: "jsstring \<Rightarrow> int \<Rightarrow> int" where
  "stringHash_loop [] hashVal = hashVal"
| "stringHash_loop (c # s) hashVal = stringHash_loop s (numberHash (int c) hashVal)"

definition stringHash :: "jsstring \<Rightarrow> int \<Rightarrow> int" where
  "stringHash s hashVal = stringHash_loop s (numberHash 149417 hashVal)"

text \<open>\<open>n.toString(36)\<close>.\<close>

definition digit36 :: "nat \<Rightarrow> nat" where
  "digit36 d = (if d < 10 then 48 + d else 87 + d)"

fun nat_text36 :: "nat \<Rightarrow> jsstring" where
  "nat_text36 n = (if n < 36 then [digit36 n] else nat_text36 (n div 36) @ [digit36 (n mod 36)])"

definition int_text36 :: "int \<Rightarrow> jsstring" where
  "int_text36 n = (if n < 0 then 45 # nat_text36 (nat (- n)) else nat_text36 (nat n))"

definition tabKeyHash :: "tab_key \<Rightarrow> jsstring" where
  "tabKeyHash key = int_text36 (stringHash (tabKeyToString key) 0)"

section \<open>The service\<close>

record 'p draft =
  dr_tabKey :: tab_key
  dr_text :: jsstring
  dr_attachments :: "'p draft_attachment list"
  dr_nextAttachmentNumber :: int
  dr_updatedAt :: int

record ('p, 'raw) codec =
  cx_stringify :: "'p draft \<Rightarrow> 'raw"
  cx_parse :: "'raw \<Rightarrow> 'p draft option"
  cx_nonempty :: "'raw \<Rightarrow> bool"
  cx_updatedAt :: "'raw \<Rightarrow> int option option"

record ('p, 'raw) tab_drafts =
  td_drafts :: "(jsstring \<times> 'p draft) list"
  td_storage :: "(jsstring \<times> 'raw) list"
  td_events :: "tab_key list"

definition storageKeyPrefix :: jsstring where
  "storageKeyPrefix = js_lit ''latent.draft.''"

definition corruptSuffix :: jsstring where
  "corruptSuffix = js_lit ''.corrupt''"

definition MutableDraft_new :: "tab_key \<Rightarrow> int \<Rightarrow> 'p draft" where
  "MutableDraft_new tabKey now =
     \<lparr>dr_tabKey = tabKey, dr_text = [], dr_attachments = [], dr_nextAttachmentNumber = 1, dr_updatedAt = now\<rparr>"

definition TabDraft_load ::
    "('p, 'raw) codec \<Rightarrow> int \<Rightarrow> tab_key \<Rightarrow> ('p, 'raw) tab_drafts \<Rightarrow> 'p draft \<times> ('p, 'raw) tab_drafts" where
  "TabDraft_load cx now tabKey st =
     (let key = tabKeyHash tabKey
      in case map_of (td_drafts st) key of
           Some draft \<Rightarrow> (draft, st)
         | None \<Rightarrow>
             let (found, st1) =
                   (case map_of (td_storage st) (storageKeyPrefix @ key) of
                      None \<Rightarrow> (None, st)
                    | Some raw \<Rightarrow>
                        if \<not> cx_nonempty cx raw then (None, st)
                        else
                          case cx_parse cx raw of
                            Some d \<Rightarrow> (Some d, st)
                          | None \<Rightarrow>
                              (None, st\<lparr>td_storage := AList.delete (storageKeyPrefix @ key)
                                 (AList.update (storageKeyPrefix @ key @ corruptSuffix) raw (td_storage st))\<rparr>));
                 draft = (case found of Some d \<Rightarrow> d | None \<Rightarrow> MutableDraft_new tabKey now)
             in (draft, st1\<lparr>td_drafts := AList.update key draft (td_drafts st1)\<rparr>))"

text \<open>\<open>save\<close> of the draft object that the map holds under \<open>key\<close>.\<close>

definition TabDraft_save ::
    "('p, 'raw) codec \<Rightarrow> int \<Rightarrow> jsstring \<Rightarrow> 'p draft \<Rightarrow> ('p, 'raw) tab_drafts \<Rightarrow> ('p, 'raw) tab_drafts" where
  "TabDraft_save cx now key draft st =
     (let saved = draft\<lparr>dr_updatedAt := now\<rparr>
      in st\<lparr>td_drafts := AList.update key saved (td_drafts st),
            td_storage := AList.update (storageKeyPrefix @ tabKeyHash (dr_tabKey saved)) (cx_stringify cx saved) (td_storage st),
            td_events := td_events st @ [dr_tabKey saved]\<rparr>)"

definition TabDraft_setText ::
    "('p, 'raw) codec \<Rightarrow> int \<Rightarrow> tab_key \<Rightarrow> jsstring \<Rightarrow> ('p, 'raw) tab_drafts \<Rightarrow> ('p, 'raw) tab_drafts" where
  "TabDraft_setText cx now tabKey text st =
     (let (draft, st1) = TabDraft_load cx now tabKey st
      in if dr_text draft = text then st1
         else TabDraft_save cx now (tabKeyHash tabKey) (draft\<lparr>dr_text := text\<rparr>) st1)"

definition findIndex :: "('a \<Rightarrow> bool) \<Rightarrow> 'a list \<Rightarrow> nat option" where
  "findIndex P xs = find (\<lambda>i. P (xs ! i)) [0..<length xs]"

text \<open>\<open>attachment.number === entry.attachmentNumber\<close> is false when the entry has no number.\<close>

definition TabDraft_addAttachment ::
    "('p, 'raw) codec \<Rightarrow> int \<Rightarrow> tab_key \<Rightarrow> 'p variable_entry \<Rightarrow> ('p, 'raw) tab_drafts \<Rightarrow> int \<times> ('p, 'raw) tab_drafts" where
  "TabDraft_addAttachment cx now tabKey entry st =
     (let (draft, st1) = TabDraft_load cx now tabKey st;
          attachments = dr_attachments draft
      in case findIndex (\<lambda>a. Some (da_number a) = ve_attachmentNumber entry \<and> ve_id (da_entry a) = ve_id entry) attachments of
           Some i \<Rightarrow>
             let restored = attachments ! i
             in (da_number restored,
                 TabDraft_save cx now (tabKeyHash tabKey)
                   (draft\<lparr>dr_attachments := attachments[i := \<lparr>da_number = da_number restored, da_entry = entry,
                       da_addedAt = da_addedAt restored, da_removedAt = None\<rparr>]\<rparr>) st1)
         | None \<Rightarrow>
             let number = (case ve_attachmentNumber entry of
                   Some n \<Rightarrow> if \<not> list_ex (\<lambda>a. da_number a = n) attachments then n else dr_nextAttachmentNumber draft
                 | None \<Rightarrow> dr_nextAttachmentNumber draft)
             in (number,
                 TabDraft_save cx now (tabKeyHash tabKey)
                   (draft\<lparr>dr_nextAttachmentNumber := max (dr_nextAttachmentNumber draft) (number + 1),
                          dr_attachments := attachments @ [\<lparr>da_number = number, da_entry = entry, da_addedAt = now,
                            da_removedAt = None\<rparr>]\<rparr>) st1))"

definition TabDraft_updateAttachment ::
    "('p, 'raw) codec \<Rightarrow> int \<Rightarrow> tab_key \<Rightarrow> int \<Rightarrow> 'p variable_entry \<Rightarrow> ('p, 'raw) tab_drafts \<Rightarrow> ('p, 'raw) tab_drafts" where
  "TabDraft_updateAttachment cx now tabKey number entry st =
     (let (draft, st1) = TabDraft_load cx now tabKey st;
          attachments = dr_attachments draft
      in case findIndex (\<lambda>a. da_number a = number \<and> da_removedAt a = None) attachments of
           None \<Rightarrow> st1
         | Some i \<Rightarrow>
             TabDraft_save cx now (tabKeyHash tabKey)
               (draft\<lparr>dr_attachments := attachments[i := (attachments ! i)\<lparr>da_entry := entry\<rparr>]\<rparr>) st1)"

definition TabDraft_removeAttachment ::
    "('p, 'raw) codec \<Rightarrow> int \<Rightarrow> tab_key \<Rightarrow> int \<Rightarrow> ('p, 'raw) tab_drafts \<Rightarrow> ('p, 'raw) tab_drafts" where
  "TabDraft_removeAttachment cx now tabKey number st =
     (let (draft, st1) = TabDraft_load cx now tabKey st;
          attachments = dr_attachments draft
      in case findIndex (\<lambda>a. da_number a = number \<and> da_removedAt a = None) attachments of
           None \<Rightarrow> st1
         | Some i \<Rightarrow>
             TabDraft_save cx now (tabKeyHash tabKey)
               (draft\<lparr>dr_attachments := attachments[i := (attachments ! i)\<lparr>da_removedAt := Some now\<rparr>]\<rparr>) st1)"

definition TabDraft_reAddAttachment ::
    "('p, 'raw) codec \<Rightarrow> int \<Rightarrow> tab_key \<Rightarrow> int \<Rightarrow> ('p, 'raw) tab_drafts \<Rightarrow> int option \<times> ('p, 'raw) tab_drafts" where
  "TabDraft_reAddAttachment cx now tabKey number st =
     (let (draft, st1) = TabDraft_load cx now tabKey st
      in case find (\<lambda>a. da_number a = number \<and> da_removedAt a \<noteq> None) (dr_attachments draft) of
           None \<Rightarrow> (None, st1)
         | Some removed \<Rightarrow>
             let next = dr_nextAttachmentNumber draft
             in (Some next,
                 TabDraft_save cx now (tabKeyHash tabKey)
                   (draft\<lparr>dr_nextAttachmentNumber := next + 1,
                          dr_attachments := dr_attachments draft @ [\<lparr>da_number = next, da_entry = da_entry removed,
                            da_addedAt = now, da_removedAt = None\<rparr>],
                          dr_text := renumberReference (dr_text draft) number next\<rparr>) st1))"

definition TabDraft_removeReference ::
    "('p, 'raw) codec \<Rightarrow> int \<Rightarrow> tab_key \<Rightarrow> int \<Rightarrow> ('p, 'raw) tab_drafts \<Rightarrow> ('p, 'raw) tab_drafts" where
  "TabDraft_removeReference cx now tabKey number st =
     (let (draft, st1) = TabDraft_load cx now tabKey st;
          text = stripReference (dr_text draft) number
      in if text \<noteq> dr_text draft then TabDraft_save cx now (tabKeyHash tabKey) (draft\<lparr>dr_text := text\<rparr>) st1 else st1)"

definition TabDraft_validateReferences ::
    "('p, 'raw) codec \<Rightarrow> int \<Rightarrow> tab_key \<Rightarrow> ('p, 'raw) tab_drafts \<Rightarrow> reference_diagnostic list \<times> ('p, 'raw) tab_drafts" where
  "TabDraft_validateReferences cx now tabKey st =
     (let (draft, st1) = TabDraft_load cx now tabKey st
      in (validateDraftReferences (dr_text draft) (dr_attachments draft) (dr_nextAttachmentNumber draft), st1))"

record 'p prepared_draft =
  pd_text :: jsstring
  pd_displayText :: jsstring
  pd_attachments :: "'p draft_attachment list"

text \<open>\<open>Inl\<close> is the \<open>DraftReferenceError\<close> with its diagnostics.\<close>

definition TabDraft_prepareForSend ::
    "('p, 'raw) codec \<Rightarrow> int \<Rightarrow> tab_key \<Rightarrow> ('p, 'raw) tab_drafts \<Rightarrow>
     (reference_diagnostic list + 'p prepared_draft) \<times> ('p, 'raw) tab_drafts" where
  "TabDraft_prepareForSend cx now tabKey st =
     (let (draft, st1) = TabDraft_load cx now tabKey st;
          (diagnostics, st2) = TabDraft_validateReferences cx now tabKey st1
      in if diagnostics \<noteq> [] then (Inl diagnostics, st2)
         else
           let attachments = js_sort (\<lambda>a b. da_number a - da_number b)
                 (filter (\<lambda>a. da_removedAt a = None) (dr_attachments draft))
           in (Inr \<lparr>pd_text = rewriteReferencesForModel (dr_text draft) attachments, pd_displayText = dr_text draft,
                    pd_attachments = attachments\<rparr>, st2))"

definition TabDraft_clearAfterSend ::
    "('p, 'raw) codec \<Rightarrow> int \<Rightarrow> tab_key \<Rightarrow> ('p, 'raw) tab_drafts \<Rightarrow> ('p, 'raw) tab_drafts" where
  "TabDraft_clearAfterSend cx now tabKey st =
     (let (draft, st1) = TabDraft_load cx now tabKey st
      in TabDraft_save cx now (tabKeyHash tabKey) (draft\<lparr>dr_text := [], dr_attachments := []\<rparr>) st1)"

definition TabDraft_rekey ::
    "('p, 'raw) codec \<Rightarrow> int \<Rightarrow> tab_key \<Rightarrow> tab_key \<Rightarrow> ('p, 'raw) tab_drafts \<Rightarrow> ('p, 'raw) tab_drafts" where
  "TabDraft_rekey cx now from to st =
     (if tabKeyEquals from to then st
      else
        let (draft, st1) = TabDraft_load cx now from st;
            st2 = st1\<lparr>td_drafts := AList.delete (tabKeyHash from) (td_drafts st1),
                      td_storage := AList.delete (storageKeyPrefix @ tabKeyHash from) (td_storage st1)\<rparr>;
            moved = draft\<lparr>dr_tabKey := to\<rparr>;
            st3 = st2\<lparr>td_drafts := AList.update (tabKeyHash to) moved (td_drafts st2)\<rparr>;
            st4 = TabDraft_save cx now (tabKeyHash to) moved st3
        in st4\<lparr>td_events := td_events st4 @ [from]\<rparr>)"

definition is_draft_key :: "jsstring \<Rightarrow> bool" where
  "is_draft_key key = (js_startsWith key storageKeyPrefix \<and> \<not> js_endsWith key corruptSuffix)"

text \<open>
  \<open>JSON.parse\<close> throws (\<open>None\<close>), or the \<open>updatedAt\<close> it finds is a number or not; \<open>get\<close> falls back to \<open>{}\<close>, which
  has none.
\<close>

fun prune_loop :: "('p, 'raw) codec \<Rightarrow> int \<Rightarrow> jsstring list \<Rightarrow> (jsstring \<times> 'raw) list \<Rightarrow> (jsstring \<times> 'raw) list" where
  "prune_loop cx cutoff [] storage = storage"
| "prune_loop cx cutoff (key # rest) storage =
     (if \<not> is_draft_key key then prune_loop cx cutoff rest storage
      else
        case (case map_of storage key of None \<Rightarrow> Some None | Some raw \<Rightarrow> cx_updatedAt cx raw) of
          None \<Rightarrow> prune_loop cx cutoff rest (AList.delete key storage)
        | Some None \<Rightarrow> prune_loop cx cutoff rest storage
        | Some (Some updatedAt) \<Rightarrow>
            prune_loop cx cutoff rest (if updatedAt < cutoff then AList.delete key storage else storage))"

definition TabDraftService_new ::
    "('p, 'raw) codec \<Rightarrow> int \<Rightarrow> int option \<Rightarrow> (jsstring \<times> 'raw) list \<Rightarrow> ('p, 'raw) tab_drafts" where
  "TabDraftService_new cx now retentionDays storage =
     (let days = (case retentionDays of Some d \<Rightarrow> d | None \<Rightarrow> 7);
          cutoff = now - max 0 days * 24 * 60 * 60 * 1000
      in \<lparr>td_drafts = [], td_storage = prune_loop cx cutoff (map fst storage) storage, td_events = []\<rparr>)"

declare nat_text36.simps [simp del]

section \<open>Invariants\<close>

text \<open>Attachment numbers are distinct and below the next one to be given.\<close>

definition draft_ok :: "'p draft \<Rightarrow> bool" where
  "draft_ok d \<longleftrightarrow> distinct (map da_number (dr_attachments d)) \<and>
     (\<forall>a \<in> set (dr_attachments d). da_number a < dr_nextAttachmentNumber d)"

definition codec_ok :: "('p, 'raw) codec \<Rightarrow> bool" where
  "codec_ok cx \<longleftrightarrow>
     (\<forall>d. cx_parse cx (cx_stringify cx d) = Some d \<and> cx_nonempty cx (cx_stringify cx d)) \<and>
     (\<forall>raw d. cx_parse cx raw = Some d \<longrightarrow> cx_updatedAt cx raw = Some (Some (dr_updatedAt d)))"

definition stored_ok :: "('p, 'raw) codec \<Rightarrow> (jsstring \<times> 'raw) list \<Rightarrow> bool" where
  "stored_ok cx storage \<longleftrightarrow>
     (\<forall>h r d. map_of storage (storageKeyPrefix @ h) = Some r \<longrightarrow> cx_parse cx r = Some d \<longrightarrow>
        draft_ok d \<and> tabKeyHash (dr_tabKey d) = h)"

definition pristine :: "'p draft \<Rightarrow> bool" where
  "pristine d \<longleftrightarrow> dr_text d = [] \<and> dr_attachments d = [] \<and> dr_nextAttachmentNumber d = 1"

text \<open>What storage has for a key reads back as the loaded draft; there is nothing to read for an untouched one.\<close>

definition persisted :: "('p, 'raw) codec \<Rightarrow> (jsstring \<times> 'raw) list \<Rightarrow> jsstring \<Rightarrow> 'p draft \<Rightarrow> bool" where
  "persisted cx storage h d \<longleftrightarrow>
     (case map_of storage (storageKeyPrefix @ h) of
        Some r \<Rightarrow> if cx_nonempty cx r then cx_parse cx r = Some d else pristine d
      | None \<Rightarrow> pristine d)"

definition td_ok :: "('p, 'raw) codec \<Rightarrow> ('p, 'raw) tab_drafts \<Rightarrow> bool" where
  "td_ok cx st \<longleftrightarrow> stored_ok cx (td_storage st) \<and>
     (\<forall>h d. map_of (td_drafts st) h = Some d \<longrightarrow>
        draft_ok d \<and> tabKeyHash (dr_tabKey d) = h \<and> persisted cx (td_storage st) h d)"

lemma map_of_update: "map_of (AList.update k v xs) k' = (if k' = k then Some v else map_of xs k')"
  by (simp add: update_conv')

lemma map_of_delete: "map_of (AList.delete k xs) k' = (if k' = k then None else map_of xs k')"
  by (simp add: delete_conv')

lemma tabKeyHash_no_dot: "ch_dot \<notin> set (tabKeyHash k)"
proof -
  have "ch_dot \<notin> set (nat_text36 n)" for n
  proof (induction n rule: nat_text36.induct)
    case (1 n)
    then show ?case by (auto simp: nat_text36.simps[of n] digit36_def)
  qed
  then show ?thesis by (auto simp: tabKeyHash_def int_text36_def)
qed

lemma hash_not_corrupt: "tabKeyHash k \<noteq> h @ corruptSuffix"
proof
  assume "tabKeyHash k = h @ corruptSuffix"
  then have "ch_dot \<in> set (tabKeyHash k)" by (simp add: corruptSuffix_def js_lit_def)
  then show False using tabKeyHash_no_dot by blast
qed

text \<open>Loading keeps the invariant and leaves the draft it returns in the map.\<close>

lemma TabDraft_load_cases:
  obtains (cached) d where "map_of (td_drafts st) (tabKeyHash k) = Some d" "TabDraft_load cx now k st = (d, st)"
  | (stored) r d where "map_of (td_drafts st) (tabKeyHash k) = None"
      "map_of (td_storage st) (storageKeyPrefix @ tabKeyHash k) = Some r" "cx_nonempty cx r" "cx_parse cx r = Some d"
      "TabDraft_load cx now k st = (d, st\<lparr>td_drafts := AList.update (tabKeyHash k) d (td_drafts st)\<rparr>)"
  | (corrupt) r where "map_of (td_drafts st) (tabKeyHash k) = None"
      "map_of (td_storage st) (storageKeyPrefix @ tabKeyHash k) = Some r" "cx_nonempty cx r" "cx_parse cx r = None"
      "TabDraft_load cx now k st = (MutableDraft_new k now,
         st\<lparr>td_storage := AList.delete (storageKeyPrefix @ tabKeyHash k)
              (AList.update (storageKeyPrefix @ tabKeyHash k @ corruptSuffix) r (td_storage st)),
            td_drafts := AList.update (tabKeyHash k) (MutableDraft_new k now) (td_drafts st)\<rparr>)"
  | (absent) "map_of (td_drafts st) (tabKeyHash k) = None"
      "\<forall>r. map_of (td_storage st) (storageKeyPrefix @ tabKeyHash k) = Some r \<longrightarrow> \<not> cx_nonempty cx r"
      "TabDraft_load cx now k st =
        (MutableDraft_new k now, st\<lparr>td_drafts := AList.update (tabKeyHash k) (MutableDraft_new k now) (td_drafts st)\<rparr>)"
proof (cases "map_of (td_drafts st) (tabKeyHash k)")
  case None
  show ?thesis
  proof (cases "\<exists>r. map_of (td_storage st) (storageKeyPrefix @ tabKeyHash k) = Some r \<and> cx_nonempty cx r")
    case True
    then obtain r where r: "map_of (td_storage st) (storageKeyPrefix @ tabKeyHash k) = Some r" "cx_nonempty cx r" by blast
    show ?thesis
    proof (cases "cx_parse cx r")
      case (Some d)
      show ?thesis by (rule stored[OF None r Some]) (simp add: TabDraft_load_def None r Some Let_def)
    next
      case none: None
      show ?thesis by (rule corrupt[OF None r none]) (simp add: TabDraft_load_def None r none Let_def)
    qed
  next
    case False
    then have "TabDraft_load cx now k st =
        (MutableDraft_new k now, st\<lparr>td_drafts := AList.update (tabKeyHash k) (MutableDraft_new k now) (td_drafts st)\<rparr>)"
      by (auto simp: TabDraft_load_def None Let_def split: option.splits)
    then show ?thesis using absent None False by blast
  qed
next
  case (Some d)
  then show ?thesis by (rule cached) (simp add: TabDraft_load_def Some)
qed

lemma td_ok_cache:
  assumes "td_ok cx st" "draft_ok d" "tabKeyHash (dr_tabKey d) = h" "persisted cx (td_storage st) h d"
  shows "td_ok cx (st\<lparr>td_drafts := AList.update h d (td_drafts st)\<rparr>)"
  using assms by (auto simp: td_ok_def map_of_update split: if_splits)

lemma draft_ok_new: "draft_ok (MutableDraft_new k now)" "pristine (MutableDraft_new k now)"
  "dr_tabKey (MutableDraft_new k now) = k"
  by (simp_all add: draft_ok_def pristine_def MutableDraft_new_def)

lemma td_ok_corrupt:
  assumes ok: "td_ok cx st" and r: "cx_parse cx r = None" and h: "h = tabKeyHash k" "map_of (td_drafts st) h = None"
  shows "td_ok cx (st\<lparr>td_storage := AList.delete (storageKeyPrefix @ h)
    (AList.update (storageKeyPrefix @ h @ corruptSuffix) r (td_storage st))\<rparr>)"
proof -
  define s where "s = AList.delete (storageKeyPrefix @ h) (AList.update (storageKeyPrefix @ h @ corruptSuffix) r (td_storage st))"
  have look: "map_of s (storageKeyPrefix @ h') =
      (if h' = h then None else if h' = h @ corruptSuffix then Some r else map_of (td_storage st) (storageKeyPrefix @ h'))" for h'
    by (simp add: s_def map_of_delete map_of_update)
  have "stored_ok cx s" using ok r unfolding td_ok_def stored_ok_def look by (auto split: if_splits)
  moreover have "persisted cx s h' d" if "map_of (td_drafts st) h' = Some d" for h' d
  proof -
    have o: "tabKeyHash (dr_tabKey d) = h'" "persisted cx (td_storage st) h' d" using ok that by (auto simp: td_ok_def)
    have "h' \<noteq> h" using h(2) that by auto
    moreover have "h' \<noteq> h @ corruptSuffix" using hash_not_corrupt o(1) by metis
    ultimately show ?thesis using o(2) by (simp add: persisted_def look)
  qed
  ultimately show ?thesis using ok by (simp add: td_ok_def s_def)
qed

lemma TabDraft_load_ok:
  assumes "td_ok cx st" "TabDraft_load cx now k st = (d, st1)"
  shows "td_ok cx st1 \<and> map_of (td_drafts st1) (tabKeyHash k) = Some d"
proof (cases rule: TabDraft_load_cases[of st k cx now])
  case (cached d')
  then show ?thesis using assms by simp
next
  case (stored r d')
  then have "draft_ok d'" "tabKeyHash (dr_tabKey d') = tabKeyHash k" using assms(1) by (auto simp: td_ok_def stored_ok_def)
  moreover have "persisted cx (td_storage st) (tabKeyHash k) d'" using stored by (simp add: persisted_def)
  ultimately show ?thesis using td_ok_cache[OF assms(1)] stored(5) assms(2) by (auto simp: map_of_update)
next
  case (corrupt r)
  have "persisted cx (AList.delete (storageKeyPrefix @ tabKeyHash k)
      (AList.update (storageKeyPrefix @ tabKeyHash k @ corruptSuffix) r (td_storage st))) (tabKeyHash k) (MutableDraft_new k now)"
    using draft_ok_new(2) by (simp add: persisted_def map_of_delete)
  then have "td_ok cx (snd (TabDraft_load cx now k st))"
    using td_ok_cache[OF td_ok_corrupt[OF assms(1) corrupt(4) refl corrupt(1)] draft_ok_new(1)[where k=k and now=now]]
    by (simp add: corrupt(5) draft_ok_new(3))
  then show ?thesis using corrupt(5) assms(2) by (auto simp: map_of_update)
next
  case absent
  have "persisted cx (td_storage st) (tabKeyHash k) (MutableDraft_new k now)"
    using absent(2) draft_ok_new(2) by (auto simp: persisted_def split: option.splits)
  then show ?thesis
    using td_ok_cache[OF assms(1) draft_ok_new(1)[where k=k and now=now]] absent(3) assms(2)
    by (auto simp: draft_ok_new(3) map_of_update)
qed

lemma TabDraft_save_ok:
  assumes "codec_ok cx" "td_ok cx st" "draft_ok d" "tabKeyHash (dr_tabKey d) = h"
  shows "td_ok cx (TabDraft_save cx now h d st)"
proof -
  let ?d = "d\<lparr>dr_updatedAt := now\<rparr>"
  have d: "draft_ok ?d" "tabKeyHash (dr_tabKey ?d) = h" using assms(3,4) by (simp_all add: draft_ok_def)
  have look: "map_of (AList.update (storageKeyPrefix @ h) v s) (storageKeyPrefix @ h') =
      (if h' = h then Some v else map_of s (storageKeyPrefix @ h'))" for v s h'
    by (simp add: map_of_update)
  show ?thesis
    using assms(1,2) d
    by (auto simp: TabDraft_save_def Let_def td_ok_def stored_ok_def persisted_def codec_ok_def assms(4) look map_of_update
        split: if_splits)
qed

section \<open>Every operation keeps them\<close>

lemma findIndex_SomeD: "findIndex P xs = Some i \<Longrightarrow> i < length xs \<and> P (xs ! i)"
  by (auto simp: findIndex_def find_Some_iff)

lemma map_update_same: "i < length xs \<Longrightarrow> f y = f (xs ! i) \<Longrightarrow> map f (xs[i := y]) = map f xs"
  by (simp add: list_eq_iff_nth_eq nth_list_update)

lemma draft_ok_numbers:
  "draft_ok d \<longleftrightarrow> distinct (map da_number (dr_attachments d)) \<and>
     (\<forall>n \<in> set (map da_number (dr_attachments d)). n < dr_nextAttachmentNumber d)"
  by (simp add: draft_ok_def)

lemma draft_ok_same_numbers:
  "draft_ok d \<Longrightarrow> map da_number as = map da_number (dr_attachments d) \<Longrightarrow> draft_ok (d\<lparr>dr_attachments := as\<rparr>)"
  unfolding draft_ok_numbers by simp

lemma draft_ok_append:
  "draft_ok d \<Longrightarrow> da_number a \<notin> set (map da_number (dr_attachments d)) \<Longrightarrow>
   draft_ok (d\<lparr>dr_nextAttachmentNumber := max (dr_nextAttachmentNumber d) (da_number a + 1),
              dr_attachments := dr_attachments d @ [a]\<rparr>)"
  unfolding draft_ok_numbers by (auto simp: less_max_iff_disj)

lemma draft_ok_text [simp]: "draft_ok (d\<lparr>dr_text := t\<rparr>) = draft_ok d" "draft_ok (d\<lparr>dr_tabKey := k\<rparr>) = draft_ok d"
  by (simp_all add: draft_ok_def)

text \<open>The number an added attachment gets, and the draft it leaves.\<close>

definition added_number :: "'p variable_entry \<Rightarrow> 'p draft \<Rightarrow> int" where
  "added_number entry d =
     (case ve_attachmentNumber entry of
        Some n \<Rightarrow> if \<not> list_ex (\<lambda>a. da_number a = n) (dr_attachments d) then n else dr_nextAttachmentNumber d
      | None \<Rightarrow> dr_nextAttachmentNumber d)"

lemma added_number_fresh: "draft_ok d \<Longrightarrow> added_number entry d \<notin> set (map da_number (dr_attachments d))"
  by (auto simp: added_number_def draft_ok_def list_ex_iff split: option.splits)

lemma addAttachment_cases:
  fixes entry :: "'p variable_entry"
  assumes "td_ok cx st" "TabDraft_addAttachment cx now k entry st = (n, st')"
  obtains (restored) d st1 i a where "TabDraft_load cx now k st = (d, st1)" "i < length (dr_attachments d)"
      "n = da_number (dr_attachments d ! i)" "da_number a = n" "ve_attachmentNumber entry = Some n"
      "ve_id (da_entry (dr_attachments d ! i)) = ve_id entry" "da_entry a = entry" "da_removedAt a = None"
      "st' = TabDraft_save cx now (tabKeyHash k) (d\<lparr>dr_attachments := (dr_attachments d)[i := a]\<rparr>) st1"
  | (added) d st1 a where "TabDraft_load cx now k st = (d, st1)" "n = added_number entry d" "da_number a = n"
      "da_entry a = entry" "da_removedAt a = None"
      "st' = TabDraft_save cx now (tabKeyHash k)
         (d\<lparr>dr_nextAttachmentNumber := max (dr_nextAttachmentNumber d) (n + 1), dr_attachments := dr_attachments d @ [a]\<rparr>) st1"
proof -
  obtain d st1 where l: "TabDraft_load cx now k st = (d, st1)" by (cases "TabDraft_load cx now k st")
  define P :: "'p draft_attachment \<Rightarrow> bool" where "P = (\<lambda>a. Some (da_number a) = ve_attachmentNumber entry \<and> ve_id (da_entry a) = ve_id entry)"
  show ?thesis
  proof (cases "findIndex P (dr_attachments d)")
    case None
    then show ?thesis
      using assms(2) l unfolding TabDraft_addAttachment_def P_def[symmetric]
      by (intro added[of d st1 "\<lparr>da_number = n, da_entry = entry, da_addedAt = now, da_removedAt = None\<rparr>"])
         (auto simp: Let_def added_number_def)
  next
    case (Some i)
    have "i < length (dr_attachments d)" "P (dr_attachments d ! i)" using findIndex_SomeD[OF Some] by auto
    then show ?thesis
      using assms(2) l Some unfolding TabDraft_addAttachment_def P_def[symmetric]
      by (intro restored[of d st1 i "\<lparr>da_number = n, da_entry = entry, da_addedAt = da_addedAt (dr_attachments d ! i), da_removedAt = None\<rparr>"])
         (auto simp: Let_def P_def)
  qed
qed

text \<open>The operations of the service that can change its state.\<close>

datatype 'p td_op =
    TdLoad tab_key
  | TdSetText tab_key jsstring
  | TdAddAttachment tab_key "'p variable_entry"
  | TdUpdateAttachment tab_key int "'p variable_entry"
  | TdRemoveAttachment tab_key int
  | TdReAddAttachment tab_key int
  | TdRemoveReference tab_key int
  | TdPrepareForSend tab_key
  | TdClearAfterSend tab_key
  | TdRekey tab_key tab_key

fun td_apply :: "('p, 'raw) codec \<Rightarrow> int \<Rightarrow> 'p td_op \<Rightarrow> ('p, 'raw) tab_drafts \<Rightarrow> ('p, 'raw) tab_drafts" where
  "td_apply cx now (TdLoad k) st = snd (TabDraft_load cx now k st)"
| "td_apply cx now (TdSetText k t) st = TabDraft_setText cx now k t st"
| "td_apply cx now (TdAddAttachment k e) st = snd (TabDraft_addAttachment cx now k e st)"
| "td_apply cx now (TdUpdateAttachment k n e) st = TabDraft_updateAttachment cx now k n e st"
| "td_apply cx now (TdRemoveAttachment k n) st = TabDraft_removeAttachment cx now k n st"
| "td_apply cx now (TdReAddAttachment k n) st = snd (TabDraft_reAddAttachment cx now k n st)"
| "td_apply cx now (TdRemoveReference k n) st = TabDraft_removeReference cx now k n st"
| "td_apply cx now (TdPrepareForSend k) st = snd (TabDraft_prepareForSend cx now k st)"
| "td_apply cx now (TdClearAfterSend k) st = TabDraft_clearAfterSend cx now k st"
| "td_apply cx now (TdRekey a b) st = TabDraft_rekey cx now a b st"

inductive td_reachable :: "('p, 'raw) codec \<Rightarrow> ('p, 'raw) tab_drafts \<Rightarrow> bool" for cx where
  td_new: "stored_ok cx storage \<Longrightarrow> td_reachable cx (TabDraftService_new cx now days storage)"
| td_op: "td_reachable cx st \<Longrightarrow> td_reachable cx (td_apply cx now op st)"

lemma load_then_save:
  assumes "codec_ok cx" "td_ok cx st" "TabDraft_load cx now k st = (d, st1)" "draft_ok d'" "dr_tabKey d' = dr_tabKey d"
  shows "td_ok cx (TabDraft_save cx now (tabKeyHash k) d' st1)"
proof -
  have "td_ok cx st1" "map_of (td_drafts st1) (tabKeyHash k) = Some d" using TabDraft_load_ok[OF assms(2,3)] by auto
  then show ?thesis using assms(1,4,5) by (intro TabDraft_save_ok) (auto simp: td_ok_def)
qed

lemma loaded_ok:
  "td_ok cx st \<Longrightarrow> TabDraft_load cx now k st = (d, st1) \<Longrightarrow> draft_ok d \<and> tabKeyHash (dr_tabKey d) = tabKeyHash k"
  using TabDraft_load_ok[of cx st now k d st1] by (auto simp: td_ok_def)

lemma reload: "TabDraft_load cx now k st = (d, st1) \<Longrightarrow> td_ok cx st \<Longrightarrow> TabDraft_load cx now' k st1 = (d, st1)"
  using TabDraft_load_ok[of cx st now k d st1] by (simp add: TabDraft_load_def Let_def)

lemma td_ok_add:
  assumes c: "codec_ok cx" and ok: "td_ok cx st"
  shows "td_ok cx (snd (TabDraft_addAttachment cx now k e st))"
proof -
  obtain n st' where a: "TabDraft_addAttachment cx now k e st = (n, st')" by (cases "TabDraft_addAttachment cx now k e st")
  from ok a have "td_ok cx st'"
  proof (cases rule: addAttachment_cases)
    case (restored d st1 i b)
    have "draft_ok (d\<lparr>dr_attachments := (dr_attachments d)[i := b]\<rparr>)"
      using loaded_ok[OF ok restored(1)] restored(2-4) by (intro draft_ok_same_numbers map_update_same) auto
    then show ?thesis using load_then_save[OF c ok restored(1)] restored(9) by simp
  next
    case (added d st1 b)
    have "draft_ok d" using loaded_ok[OF ok added(1)] by simp
    then have "draft_ok (d\<lparr>dr_nextAttachmentNumber := max (dr_nextAttachmentNumber d) (n + 1), dr_attachments := dr_attachments d @ [b]\<rparr>)"
      using draft_ok_append[of d b] added_number_fresh[of d e] added(2,3) by simp
    then show ?thesis using load_then_save[OF c ok added(1)] added(6) by simp
  qed
  then show ?thesis by (simp add: a)
qed

lemma td_ok_reAdd:
  assumes c: "codec_ok cx" and ok: "td_ok cx st"
  shows "td_ok cx (snd (TabDraft_reAddAttachment cx now k n st))"
proof -
  obtain d st1 where l: "TabDraft_load cx now k st = (d, st1)" by (cases "TabDraft_load cx now k st")
  have d: "draft_ok d" using loaded_ok[OF ok l] by simp
  have ok': "draft_ok (d\<lparr>dr_nextAttachmentNumber := dr_nextAttachmentNumber d + 1, dr_attachments := dr_attachments d @ [a], dr_text := t\<rparr>)"
    if "da_number a = dr_nextAttachmentNumber d" for a t
    using d that by (fastforce simp: draft_ok_def)
  show ?thesis
    using TabDraft_load_ok[OF ok l] load_then_save[OF c ok l ok']
    by (auto simp: TabDraft_reAddAttachment_def l Let_def split: option.splits)
qed

lemma td_ok_rekey:
  assumes c: "codec_ok cx" and ok: "td_ok cx st"
  shows "td_ok cx (TabDraft_rekey cx now from to st)"
proof (cases "tabKeyEquals from to")
  case False
  obtain d st1 where l: "TabDraft_load cx now from st = (d, st1)" by (cases "TabDraft_load cx now from st")
  have st1: "td_ok cx st1" "draft_ok d" using TabDraft_load_ok[OF ok l] loaded_ok[OF ok l] by auto
  define st2 where "st2 = st1\<lparr>td_drafts := AList.delete (tabKeyHash from) (td_drafts st1),
      td_storage := AList.delete (storageKeyPrefix @ tabKeyHash from) (td_storage st1)\<rparr>"
  have "td_ok cx st2"
    using st1(1) by (auto simp: td_ok_def st2_def stored_ok_def persisted_def map_of_delete split: if_splits)
  then have s: "td_ok cx (TabDraft_save cx now (tabKeyHash to) (d\<lparr>dr_tabKey := to\<rparr>) st2)"
    using st1(2) c by (intro TabDraft_save_ok) auto
  have "map_of (td_drafts (TabDraft_rekey cx now from to st)) h =
      map_of (td_drafts (TabDraft_save cx now (tabKeyHash to) (d\<lparr>dr_tabKey := to\<rparr>) st2)) h" for h
    using False by (simp add: TabDraft_rekey_def l Let_def TabDraft_save_def st2_def map_of_update)
  moreover have "td_storage (TabDraft_rekey cx now from to st) =
      td_storage (TabDraft_save cx now (tabKeyHash to) (d\<lparr>dr_tabKey := to\<rparr>) st2)"
    using False by (simp add: TabDraft_rekey_def l Let_def TabDraft_save_def st2_def)
  ultimately show ?thesis using s unfolding td_ok_def by presburger
qed (use ok in \<open>simp add: TabDraft_rekey_def\<close>)

lemma td_ok_apply:
  assumes c: "codec_ok cx" and ok: "td_ok cx st"
  shows "td_ok cx (td_apply cx now op st)"
proof -
  have ld: "td_ok cx st1" "draft_ok d" if "TabDraft_load cx now k st = (d, st1)" for k d st1
    using TabDraft_load_ok[OF ok that] loaded_ok[OF ok that] by auto
  note sv = load_then_save[OF c ok]
  show ?thesis
  proof (cases op)
    case (TdLoad k)
    then show ?thesis using ld by (cases "TabDraft_load cx now k st") simp
  next
    case (TdSetText k t)
    then show ?thesis using ld sv by (cases "TabDraft_load cx now k st") (simp add: TabDraft_setText_def)
  next
    case (TdAddAttachment k e)
    then show ?thesis using td_ok_add[OF c ok] by simp
  next
    case (TdUpdateAttachment k n e)
    obtain d st1 where l: "TabDraft_load cx now k st = (d, st1)" by (cases "TabDraft_load cx now k st")
    show ?thesis
    proof (cases "findIndex (\<lambda>a. da_number a = n \<and> da_removedAt a = None) (dr_attachments d)")
      case (Some i)
      have "draft_ok (d\<lparr>dr_attachments := (dr_attachments d)[i := (dr_attachments d ! i)\<lparr>da_entry := e\<rparr>]\<rparr>)"
        using ld(2)[OF l] findIndex_SomeD[OF Some] by (intro draft_ok_same_numbers map_update_same) auto
      then show ?thesis using sv[OF l] Some by (simp add: TdUpdateAttachment TabDraft_updateAttachment_def l Let_def)
    qed (use ld(1)[OF l] in \<open>simp add: TdUpdateAttachment TabDraft_updateAttachment_def l Let_def\<close>)
  next
    case (TdRemoveAttachment k n)
    obtain d st1 where l: "TabDraft_load cx now k st = (d, st1)" by (cases "TabDraft_load cx now k st")
    show ?thesis
    proof (cases "findIndex (\<lambda>a. da_number a = n \<and> da_removedAt a = None) (dr_attachments d)")
      case (Some i)
      have "draft_ok (d\<lparr>dr_attachments := (dr_attachments d)[i := (dr_attachments d ! i)\<lparr>da_removedAt := Some now\<rparr>]\<rparr>)"
        using ld(2)[OF l] findIndex_SomeD[OF Some] by (intro draft_ok_same_numbers map_update_same) auto
      then show ?thesis using sv[OF l] Some by (simp add: TdRemoveAttachment TabDraft_removeAttachment_def l Let_def)
    qed (use ld(1)[OF l] in \<open>simp add: TdRemoveAttachment TabDraft_removeAttachment_def l Let_def\<close>)
  next
    case (TdReAddAttachment k n)
    then show ?thesis using td_ok_reAdd[OF c ok] by simp
  next
    case (TdRemoveReference k n)
    then show ?thesis
      using ld sv by (cases "TabDraft_load cx now k st") (simp add: TabDraft_removeReference_def Let_def)
  next
    case (TdPrepareForSend k)
    obtain d st1 where l: "TabDraft_load cx now k st = (d, st1)" by (cases "TabDraft_load cx now k st")
    then show ?thesis
      using ld(1)[OF l] reload[OF l ok, of now]
      by (simp add: TdPrepareForSend TabDraft_prepareForSend_def TabDraft_validateReferences_def Let_def)
  next
    case (TdClearAfterSend k)
    obtain d st1 where l: "TabDraft_load cx now k st = (d, st1)" by (cases "TabDraft_load cx now k st")
    have "draft_ok (d\<lparr>dr_text := [], dr_attachments := []\<rparr>)" by (simp add: draft_ok_def)
    then show ?thesis using sv[OF l] by (simp add: TdClearAfterSend TabDraft_clearAfterSend_def l)
  next
    case (TdRekey a b)
    then show ?thesis using td_ok_rekey[OF c ok] by simp
  qed
qed

lemma prune_loop_subset: "map_of (prune_loop cx cutoff keys storage) k = Some r \<Longrightarrow> map_of storage k = Some r"
  by (induction cx cutoff keys storage rule: prune_loop.induct)
     (auto simp: map_of_delete split: if_splits option.splits)

lemma reachable_td_ok:
  assumes "codec_ok cx" "td_reachable cx st"
  shows "td_ok cx st"
  using assms(2)
proof induction
  case (td_new storage now days)
  then show ?case
    by (auto simp: TabDraftService_new_def Let_def td_ok_def stored_ok_def dest!: prune_loop_subset)
next
  case (td_op st now op)
  then show ?case using td_ok_apply[OF assms(1)] by blast
qed

section \<open>Properties\<close>

text \<open>
  In every reachable state of the service each loaded draft has pairwise distinct attachment numbers, all
  of them below the next number it will give (removed attachments included), and is stored under the hash
  of its own tab key; the parser is assumed to undo the printer.
\<close>

theorem tab_drafts_numbering:
  assumes "codec_ok cx" "td_reachable cx st" "map_of (td_drafts st) h = Some d"
  shows "distinct (map da_number (dr_attachments d)) \<and>
    list_all (\<lambda>a. da_number a < dr_nextAttachmentNumber d) (dr_attachments d) \<and> tabKeyHash (dr_tabKey d) = h"
  using reachable_td_ok[OF assms(1,2)] assms(3) by (auto simp: td_ok_def draft_ok_def list_all_iff)

lemma prune_loop_keeps:
  "map_of storage k = Some r \<Longrightarrow> cx_updatedAt cx r = Some (Some u) \<Longrightarrow> cutoff \<le> u \<Longrightarrow>
   map_of (prune_loop cx cutoff keys storage) k = Some r"
proof (induction cx cutoff keys storage rule: prune_loop.induct)
  case (2 cx cutoff key rest storage)
  then show ?case by (cases "k = key") (auto simp: map_of_delete split: option.splits)
qed simp


text \<open>
  Numbers are stable and never given twice while the draft lives. An added attachment that carries the number and id
  of one the draft has takes its place, restored, and no number changes; any other gets a number no
  attachment of the draft has, removed ones included, appended after the unchanged rest, and the next number
  when it carries none; the next number never goes down.
\<close>

theorem addAttachment_number:
  assumes "codec_ok cx" "td_reachable cx st" "TabDraft_addAttachment cx now k entry st = (n, st')"
  shows "\<exists>d st1 d'. TabDraft_load cx now k st = (d, st1) \<and> map_of (td_drafts st') (tabKeyHash k) = Some d' \<and>
    dr_nextAttachmentNumber d \<le> dr_nextAttachmentNumber d' \<and>
    (\<exists>a \<in> set (dr_attachments d'). da_number a = n \<and> da_entry a = entry \<and> da_removedAt a = None) \<and>
    ((\<exists>a \<in> set (dr_attachments d). da_number a = n \<and> ve_id (da_entry a) = ve_id entry \<and> ve_attachmentNumber entry = Some n) \<and>
       map da_number (dr_attachments d') = map da_number (dr_attachments d) \<or>
     n \<notin> da_number ` set (dr_attachments d) \<and> butlast (dr_attachments d') = dr_attachments d \<and>
       n < dr_nextAttachmentNumber d' \<and> (ve_attachmentNumber entry = None \<longrightarrow> n = dr_nextAttachmentNumber d))"
proof -
  have ok: "td_ok cx st" by (rule reachable_td_ok[OF assms(1,2)])
  from ok assms(3) show ?thesis
  proof (cases rule: addAttachment_cases)
    case (restored d st1 i a)
    let ?d' = "d\<lparr>dr_attachments := (dr_attachments d)[i := a], dr_updatedAt := now\<rparr>"
    have "map_of (td_drafts st') (tabKeyHash k) = Some ?d'" by (simp add: restored(9) TabDraft_save_def Let_def map_of_update)
    moreover have "map da_number ((dr_attachments d)[i := a]) = map da_number (dr_attachments d)"
      using restored(2-4) by (intro map_update_same) auto
    moreover have "a \<in> set ((dr_attachments d)[i := a])" using restored(2) by (rule set_update_memI)
    moreover have "dr_attachments d ! i \<in> set (dr_attachments d)" using restored(2) by simp
    ultimately show ?thesis using restored(1,3-8) by (intro exI[of _ d] exI[of _ st1] exI[of _ ?d']) auto
  next
    case (added d st1 a)
    let ?d' = "d\<lparr>dr_nextAttachmentNumber := max (dr_nextAttachmentNumber d) (n + 1), dr_attachments := dr_attachments d @ [a],
      dr_updatedAt := now\<rparr>"
    have "map_of (td_drafts st') (tabKeyHash k) = Some ?d'" by (simp add: added(6) TabDraft_save_def Let_def map_of_update)
    moreover have "n \<notin> da_number ` set (dr_attachments d)"
      using added_number_fresh[of d entry] loaded_ok[OF ok added(1)] added(2) by simp
    moreover have "ve_attachmentNumber entry = None \<Longrightarrow> n = dr_nextAttachmentNumber d"
      by (simp add: added(2) added_number_def)
    ultimately show ?thesis using added(1,3-5) by (intro exI[of _ d] exI[of _ st1] exI[of _ ?d']) auto
  qed
qed

text \<open>
  The quick fix for a stale reference works: bringing back a removed attachment gives it the next number, under
  which it is live, and, when the references to the old number are spelt without leading zeros, no
  reference to the old number is left and the others are as they were.
\<close>

theorem reAddAttachment_repairs:
  assumes "codec_ok cx" "td_reachable cx st" "TabDraft_load cx now k st = (d, st1)" "0 \<le> dr_nextAttachmentNumber d"
    and "TabDraft_reAddAttachment cx now k n st = (Some m, st')" "spelt_plainly (dr_text d) n"
  shows "\<exists>d' a. map_of (td_drafts st') (tabKeyHash k) = Some d' \<and> m = dr_nextAttachmentNumber d \<and> m \<noteq> n \<and>
    by_number (dr_attachments d') m = Some a \<and> da_removedAt a = None \<and>
    map rf_number (findReferences (dr_text d')) =
      map (\<lambda>r. if rf_number r = n then m else rf_number r) (findReferences (dr_text d))"
proof -
  have dk: "draft_ok d" using loaded_ok[OF reachable_td_ok[OF assms(1,2)] assms(3)] by simp
  obtain removed where r: "find (\<lambda>a. da_number a = n \<and> da_removedAt a \<noteq> None) (dr_attachments d) = Some removed"
    using assms(5) by (auto simp: TabDraft_reAddAttachment_def assms(3) Let_def split: option.splits)
  have mem: "removed \<in> set (dr_attachments d)" "da_number removed = n"
    using r unfolding find_Some_iff by (metis nth_mem, metis)
  define a where "a = \<lparr>da_number = m, da_entry = da_entry removed, da_addedAt = now, da_removedAt = None\<rparr>"
  define d' where "d' = d\<lparr>dr_nextAttachmentNumber := m + 1, dr_attachments := dr_attachments d @ [a],
      dr_text := renumberReference (dr_text d) n m, dr_updatedAt := now\<rparr>"
  have m: "m = dr_nextAttachmentNumber d" and
    look: "map_of (td_drafts st') (tabKeyHash k) = Some d'"
    using assms(5) unfolding TabDraft_reAddAttachment_def assms(3) Let_def prod.case r option.case
    by (auto simp: TabDraft_save_def Let_def map_of_update d'_def a_def)
  have "distinct (map da_number (dr_attachments d'))" using dk m by (fastforce simp: d'_def a_def draft_ok_def)
  then have "by_number (dr_attachments d') m = Some a"
    using by_number_distinct[of "dr_attachments d'" a] by (simp add: d'_def a_def)
  moreover have "m \<noteq> n" using dk m mem by (auto simp: draft_ok_def)
  moreover have "map rf_number (findReferences (dr_text d')) =
      map (\<lambda>r. if rf_number r = n then m else rf_number r) (findReferences (dr_text d))"
    unfolding d'_def using renumberReference_numbers assms(4,6) m by simp
  ultimately show ?thesis using look m by (intro exI[of _ d'] exI[of _ a]) (simp add: a_def)
qed

text \<open>The attachments a send gets: the live ones, in ascending order of their numbers.\<close>

interpretation number_order: comparator "\<lambda>a b :: 'p draft_attachment. da_number a - da_number b"
  by standard (auto simp: sgn_if)

text \<open>
  C40. \<open>prepareForSend\<close> fails exactly when the draft has a reference to no attachment or to a removed one; when it
  succeeds the prepared attachments are the live ones in ascending order of their numbers, every
  reference of the text is to one of them, and the text shown to the user is the draft's.
\<close>

theorem prepareForSend_correct:
  assumes "codec_ok cx" "td_reachable cx st" "TabDraft_load cx now k st = (d, st1)"
  shows "case fst (TabDraft_prepareForSend cx now k st) of
      Inl diagnostics \<Rightarrow> diagnostics \<noteq> [] \<and>
        (\<exists>r \<in> set (findReferences (dr_text d)). rf_number r \<le> 0 \<or>
           (\<forall>a \<in> set (dr_attachments d). da_number a = rf_number r \<longrightarrow> da_removedAt a \<noteq> None))
    | Inr p \<Rightarrow> pd_displayText p = dr_text d \<and>
        set (pd_attachments p) = {a \<in> set (dr_attachments d). da_removedAt a = None} \<and>
        sorted_wrt (\<lambda>a b. da_number a < da_number b) (pd_attachments p) \<and>
        (\<forall>r \<in> set (findReferences (dr_text d)). \<exists>a \<in> set (pd_attachments p). da_number a = rf_number r)"
proof -
  have ok: "td_ok cx st" by (rule reachable_td_ok[OF assms(1,2)])
  have dk: "draft_ok d" using loaded_ok[OF ok assms(3)] by simp
  then have ds: "distinct (map da_number (dr_attachments d))" by (simp add: draft_ok_def)
  let ?v = "validateDraftReferences (dr_text d) (dr_attachments d) (dr_nextAttachmentNumber d)"
  let ?as = "js_sort (\<lambda>a b. da_number a - da_number b) (filter (\<lambda>a. da_removedAt a = None) (dr_attachments d))"
  have val: "TabDraft_validateReferences cx now k st1 = (?v, st1)"
    using reload[OF assms(3) ok] by (simp add: TabDraft_validateReferences_def)
  show ?thesis
  proof (cases "?v = []")
    case False
    then obtain r where r: "r \<in> set (findReferences (dr_text d))"
        "\<not> (0 < rf_number r \<and> (\<exists>a. by_number (dr_attachments d) (rf_number r) = Some a \<and> da_removedAt a = None))"
      unfolding validateDraftReferences_def validate_loop_empty by blast
    have "da_removedAt a \<noteq> None" if "a \<in> set (dr_attachments d)" "da_number a = rf_number r" "0 < rf_number r" for a
      using by_number_distinct[OF ds that(1)] r(2) that(2,3) by auto
    then show ?thesis using False r(1) by (fastforce simp: TabDraft_prepareForSend_def assms(3) val)
  next
    case True
    have live: "\<forall>r \<in> set (findReferences (dr_text d)). \<exists>a \<in> set (dr_attachments d). da_number a = rf_number r \<and> da_removedAt a = None"
      using validated_text_rewritten[OF True ds] by blast
    have "sorted_wrt (\<lambda>a b. da_number a - da_number b \<le> 0) ?as" by (rule number_order.sorted_js_sort)
    moreover have "distinct (map da_number ?as)"
    proof -
      have "inj_on da_number (set (dr_attachments d))" "distinct (dr_attachments d)" using ds by (simp_all add: distinct_map)
      then have "distinct ?as" "inj_on da_number (set ?as)" by (auto intro: inj_on_subset)
      then show ?thesis by (simp only: distinct_map)
    qed
    ultimately have "sorted_wrt (\<lambda>a b. da_number a < da_number b) ?as"
      by (simp add: sorted_wrt_iff_nth_less distinct_conv_nth) (metis (no_types, lifting) order_less_le less_trans less_irrefl nth_map)
    then show ?thesis using True live by (auto simp: TabDraft_prepareForSend_def assms(3) val Let_def)
  qed
qed

section \<open>Witnesses and a counterexample\<close>

definition sample_codec :: "(unit, unit draft) codec" where
  "sample_codec = \<lparr>cx_stringify = (\<lambda>d. d), cx_parse = Some, cx_nonempty = (\<lambda>_. True), cx_updatedAt = (\<lambda>d. Some (Some (dr_updatedAt d)))\<rparr>"

lemma sample_codec_ok: "codec_ok sample_codec"
  by (simp add: codec_ok_def sample_codec_def)

definition sample_key :: tab_key where
  "sample_key = \<lparr>tk_groupId = 1, tk_typeId = [116], tk_resource = [114]\<rparr>"

definition sample_entry :: "unit variable_entry" where
  "sample_entry = \<lparr>ve_id = [105], ve_name = [], ve_attachmentNumber = None, ve_payload = ()\<rparr>"

definition sample_drafts :: "(unit, unit draft) tab_drafts" where
  "sample_drafts = td_apply sample_codec 5 (TdAddAttachment sample_key sample_entry) (TabDraftService_new sample_codec 5 None [])"

lemma sample_drafts_reachable: "td_reachable sample_codec sample_drafts"
  unfolding sample_drafts_def by (intro td_op td_new) (simp add: stored_ok_def)

definition sample_draft :: "unit draft" where
  "sample_draft = \<lparr>dr_tabKey = sample_key, dr_text = [],
     dr_attachments = [\<lparr>da_number = 1, da_entry = sample_entry, da_addedAt = 5, da_removedAt = None\<rparr>],
     dr_nextAttachmentNumber = 2, dr_updatedAt = 5\<rparr>"

lemma sample_drafts_lookup: "map_of (td_drafts sample_drafts) (tabKeyHash sample_key) = Some sample_draft"
  by (simp add: sample_drafts_def TabDraft_addAttachment_def TabDraft_load_def TabDraftService_new_def Let_def
      MutableDraft_new_def findIndex_def sample_entry_def TabDraft_save_def map_of_update sample_draft_def)

theorem tab_drafts_numbering_witness:
  "map_of (td_drafts sample_drafts) (tabKeyHash sample_key) = Some sample_draft \<and>
   distinct (map da_number (dr_attachments sample_draft))"
  using tab_drafts_numbering[OF sample_codec_ok sample_drafts_reachable sample_drafts_lookup] sample_drafts_lookup by blast

lemma sample_load: "TabDraft_load sample_codec now sample_key sample_drafts = (sample_draft, sample_drafts)"
  using sample_drafts_lookup by (simp add: TabDraft_load_def Let_def)


theorem addAttachment_number_witness:
  "\<exists>d st1 d'. TabDraft_load sample_codec 6 sample_key sample_drafts = (d, st1) \<and>
     map_of (td_drafts (snd (TabDraft_addAttachment sample_codec 6 sample_key sample_entry sample_drafts))) (tabKeyHash sample_key) = Some d' \<and>
     dr_nextAttachmentNumber d \<le> dr_nextAttachmentNumber d'"
  using addAttachment_number[OF sample_codec_ok sample_drafts_reachable prod.collapse[symmetric], of 6 sample_key sample_entry]
  by blast

definition sample_stale :: "(unit, unit draft) tab_drafts" where
  "sample_stale = td_apply sample_codec 6 (TdRemoveAttachment sample_key 1) sample_drafts"

definition sample_stale_draft :: "unit draft" where
  "sample_stale_draft = \<lparr>dr_tabKey = sample_key, dr_text = [],
     dr_attachments = [\<lparr>da_number = 1, da_entry = sample_entry, da_addedAt = 5, da_removedAt = Some 6\<rparr>],
     dr_nextAttachmentNumber = 2, dr_updatedAt = 6\<rparr>"

lemma sample_stale_load: "TabDraft_load sample_codec now sample_key sample_stale = (sample_stale_draft, sample_stale)"
proof -
  have "map_of (td_drafts sample_stale) (tabKeyHash sample_key) = Some sample_stale_draft"
    by (simp add: sample_stale_def TabDraft_removeAttachment_def sample_load findIndex_def Let_def TabDraft_save_def
        map_of_update sample_draft_def sample_stale_draft_def)
  then show ?thesis by (simp add: TabDraft_load_def Let_def)
qed

theorem reAddAttachment_repairs_witness:
  "\<exists>m st'. TabDraft_reAddAttachment sample_codec 7 sample_key 1 sample_stale = (Some m, st') \<and> m = 2 \<and>
     (\<exists>d' a. map_of (td_drafts st') (tabKeyHash sample_key) = Some d' \<and> by_number (dr_attachments d') m = Some a)"
proof -
  have r: "td_reachable sample_codec sample_stale"
    unfolding sample_stale_def by (rule td_op[OF sample_drafts_reachable])
  obtain st' where a: "TabDraft_reAddAttachment sample_codec 7 sample_key 1 sample_stale = (Some 2, st')"
    by (simp add: TabDraft_reAddAttachment_def sample_stale_load sample_stale_draft_def Let_def)
  have "spelt_plainly (dr_text sample_stale_draft) 1" by (simp add: spelt_plainly_def sample_stale_draft_def)
  with reAddAttachment_repairs[OF sample_codec_ok r sample_stale_load _ a]
  show ?thesis using a by (auto simp: sample_stale_draft_def)
qed

theorem prepareForSend_correct_witness:
  "case fst (TabDraft_prepareForSend sample_codec 6 sample_key sample_drafts) of
     Inl ds \<Rightarrow> False | Inr p \<Rightarrow> set (pd_attachments p) = {a \<in> set (dr_attachments sample_draft). da_removedAt a = None}"
proof -
  have "fst (TabDraft_prepareForSend sample_codec 6 sample_key sample_drafts) \<noteq> Inl ds" for ds
    using prepareForSend_correct[OF sample_codec_ok sample_drafts_reachable sample_load[of 6]]
    by (auto simp: sample_draft_def findReferences_def)
  then show ?thesis
    using prepareForSend_correct[OF sample_codec_ok sample_drafts_reachable sample_load[of 6]]
    by (auto split: sum.splits)
qed

text \<open>
  The hash is 32 bits wide and multiplies by 31, so \<open>Aa\<close> and \<open>BB\<close> weigh the same: two tabs whose resources differ in
  this share one draft.
\<close>

definition collision_key :: "string \<Rightarrow> tab_key" where
  "collision_key s = \<lparr>tk_groupId = 1, tk_typeId = js_lit ''t'', tk_resource = js_lit s\<rparr>"

lemma toInt32_shift: "\<exists>q. toInt32 x = x + 2 ^ 32 * q"
  unfolding toInt32_def
  by (rule exI[of _ "- ((x + 2 ^ 31) div 2 ^ 32)"]) (simp add: minus_mult_div_eq_mod[symmetric])

lemma toInt32_period: "toInt32 (x + 2 ^ 32 * q) = toInt32 x"
proof -
  have "(x + 2 ^ 32 * q + 2 ^ 31) mod 2 ^ 32 = (x + 2 ^ 31 + 2 ^ 32 * q) mod 2 ^ 32" by (simp only: ac_simps)
  then show ?thesis unfolding toInt32_def by (simp only: mod_mult_self2)
qed

lemma numberHash_31: "numberHash v h = toInt32 (31 * h + v)"
proof -
  obtain q where "toInt32 (h * 2 ^ 5) = h * 2 ^ 5 + 2 ^ 32 * q" using toInt32_shift by blast
  then have "toInt32 (h * 2 ^ 5) - h + v = 31 * h + v + 2 ^ 32 * q" by simp
  then show ?thesis unfolding numberHash_def by (simp only: toInt32_period)
qed

lemma numberHash_twice: "numberHash w (numberHash v h) = toInt32 (961 * h + (31 * v + w))"
proof -
  obtain q where "numberHash v h = 31 * h + v + 2 ^ 32 * q" using toInt32_shift numberHash_31 by metis
  then have "31 * numberHash v h + w = 961 * h + (31 * v + w) + 2 ^ 32 * (31 * q)" by simp
  then show ?thesis unfolding numberHash_31[of w] by (simp only: toInt32_period)
qed

lemma stringHash_loop_append: "stringHash_loop (a @ b) h = stringHash_loop b (stringHash_loop a h)"
  by (induction a arbitrary: h) auto

lemma tabKeyHash_collision:
  "\<not> tabKeyEquals (collision_key ''Aa'') (collision_key ''BB'') \<and>
   tabKeyHash (collision_key ''Aa'') = tabKeyHash (collision_key ''BB'')"
proof -
  have "numberHash 97 (numberHash 65 h) = numberHash 66 (numberHash 66 h)" for h
    by (simp add: numberHash_twice)
  then show ?thesis
    by (simp add: tabKeyEquals_def collision_key_def tabKeyHash_def tabKeyToString_def stringHash_def stringHash_loop_append
        js_lit_def)
qed
end
