(* ===== verification/ContextKeys.thy ===== *)
theory ContextKeys
  imports JsStrings SortedArrays Complex_Main
begin

text \<open>
  The expressions of \<open>when\<close> clauses, \<^verbatim>\<open>vs/platform/contextkey/common/contextkey.ts\<close> (all but the parser): the
  expression classes with their comparison, equality, evaluation, constant substitution and negation, the
  normalisation of conjunctions and disjunctions, \<open>implies\<close>, and the text and the keys of an expression.

  What the platform provides is a parameter. \<open>ck_host\<close> has the constants and the conversions between strings and numbers;
  \<open>ck_env\<close> is a context with the coercions evaluation uses (\<open>==\<close>, \<open>parseFloat\<close>, \<open>RegExp.test\<close>, \<open>includes\<close>). Numbers are
  finite, values are strings or numbers, and a regular expression keeps no position (the parser drops the flags
  \<open>g\<close> and \<open>y\<close>).

  The \<open>negated\<close> field of an expression keeps a negation already known: for a negation, the expression it was made from.
  The model has no such field and computes each negation, as the first call of \<open>negate\<close> does; where the code would
  hand out the expression kept, the two may differ in form but mean the same, both being the opposite of one expression.

  Normalisation and negation call each other. The model gives negation a bound on how often
  the redundancy check inside a negation may ask for a negation again, and the distribution of disjunctions a bound
  on its depth; \<open>negate_bound\<close> and \<open>and_normalize_bound\<close> show that the bounds used change nothing.
\<close>

section \<open>Expressions\<close>

datatype ck_value = StrV jsstring | NumV rat

record ck_regex =
  rx_source :: jsstring
  rx_flags :: jsstring

datatype ckexpr =
    CkFalse
  | CkTrue
  | CkDefined jsstring
  | CkNot jsstring
  | CkEquals jsstring ck_value
  | CkNotEquals jsstring ck_value
  | CkAnd "ckexpr list"
  | CkRegex jsstring "ck_regex option"
  | CkNotRegex jsstring "ck_regex option"
  | CkOr "ckexpr list"
  | CkIn jsstring jsstring
  | CkNotIn jsstring jsstring
  | CkGreater jsstring ck_value
  | CkGreaterEquals jsstring ck_value
  | CkSmaller jsstring ck_value
  | CkSmallerEquals jsstring ck_value

fun ck_type :: "ckexpr \<Rightarrow> int" where
  "ck_type CkFalse = 0"
| "ck_type CkTrue = 1"
| "ck_type (CkDefined _) = 2"
| "ck_type (CkNot _) = 3"
| "ck_type (CkEquals _ _) = 4"
| "ck_type (CkNotEquals _ _) = 5"
| "ck_type (CkAnd _) = 6"
| "ck_type (CkRegex _ _) = 7"
| "ck_type (CkNotRegex _ _) = 8"
| "ck_type (CkOr _) = 9"
| "ck_type (CkIn _ _) = 10"
| "ck_type (CkNotIn _ _) = 11"
| "ck_type (CkGreater _ _) = 12"
| "ck_type (CkGreaterEquals _ _) = 13"
| "ck_type (CkSmaller _ _) = 14"
| "ck_type (CkSmallerEquals _ _) = 15"

record ck_host =
  ch_constant :: "jsstring \<Rightarrow> bool option"
  ch_toNumber :: "jsstring \<Rightarrow> rat option"
  ch_parseFloat :: "jsstring \<Rightarrow> rat option"
  ch_toString :: "rat \<Rightarrow> jsstring"

subsection \<open>Comparison and equality\<close>

text \<open>\<open><\<close> on strings compares code units; a number and a string are compared as numbers, false for NaN.\<close>

fun str_less :: "jsstring \<Rightarrow> jsstring \<Rightarrow> bool" where
  "str_less [] [] = False"
| "str_less [] (d # ds) = True"
| "str_less (c # cs) [] = False"
| "str_less (c # cs) (d # ds) = (c < d \<or> c = d \<and> str_less cs ds)"

definition value_less :: "ck_host \<Rightarrow> ck_value \<Rightarrow> ck_value \<Rightarrow> bool" where
  "value_less h v w =
     (case v of
        StrV s \<Rightarrow>
          (case w of
             StrV t \<Rightarrow> str_less s t
           | NumV y \<Rightarrow> (case ch_toNumber h s of None \<Rightarrow> False | Some x \<Rightarrow> x < y))
      | NumV x \<Rightarrow>
          (case w of
             StrV t \<Rightarrow> (case ch_toNumber h t of None \<Rightarrow> False | Some y \<Rightarrow> x < y)
           | NumV y \<Rightarrow> x < y))"

definition cmp1 :: "jsstring \<Rightarrow> jsstring \<Rightarrow> int" where
  "cmp1 key1 key2 = (if str_less key1 key2 then - 1 else if str_less key2 key1 then 1 else 0)"

definition cmp2 :: "ck_host \<Rightarrow> jsstring \<Rightarrow> ck_value \<Rightarrow> jsstring \<Rightarrow> ck_value \<Rightarrow> int" where
  "cmp2 h key1 value1 key2 value2 =
     (if str_less key1 key2 then - 1
      else if str_less key2 key1 then 1
      else if value_less h value1 value2 then - 1
      else if value_less h value2 value1 then 1
      else 0)"

definition regex_source :: "ck_regex option \<Rightarrow> jsstring" where
  "regex_source r = (case r of None \<Rightarrow> [] | Some x \<Rightarrow> rx_source x)"

definition regex_cmp :: "jsstring \<Rightarrow> ck_regex option \<Rightarrow> jsstring \<Rightarrow> ck_regex option \<Rightarrow> int" where
  "regex_cmp key1 r1 key2 r2 =
     (if str_less key1 key2 then - 1
      else if str_less key2 key1 then 1
      else if str_less (regex_source r1) (regex_source r2) then - 1
      else if str_less (regex_source r2) (regex_source r1) then 1
      else 0)"

text \<open>The \<open>cmp\<close> methods of the classes without operands, for two expressions of the same type.\<close>

fun leaf_cmp :: "ck_host \<Rightarrow> ckexpr \<Rightarrow> ckexpr \<Rightarrow> int" where
  "leaf_cmp h (CkDefined k) b = (case b of CkDefined l \<Rightarrow> cmp1 k l | _ \<Rightarrow> 0)"
| "leaf_cmp h (CkNot k) b = (case b of CkNot l \<Rightarrow> cmp1 k l | _ \<Rightarrow> 0)"
| "leaf_cmp h (CkEquals k v) b = (case b of CkEquals l w \<Rightarrow> cmp2 h k v l w | _ \<Rightarrow> 0)"
| "leaf_cmp h (CkNotEquals k v) b = (case b of CkNotEquals l w \<Rightarrow> cmp2 h k v l w | _ \<Rightarrow> 0)"
| "leaf_cmp h (CkRegex k r) b = (case b of CkRegex l s \<Rightarrow> regex_cmp k r l s | _ \<Rightarrow> 0)"
| "leaf_cmp h (CkNotRegex k r) b = (case b of CkNotRegex l s \<Rightarrow> regex_cmp k r l s | _ \<Rightarrow> 0)"
| "leaf_cmp h (CkIn k v) b = (case b of CkIn l w \<Rightarrow> cmp2 h k (StrV v) l (StrV w) | _ \<Rightarrow> 0)"
| "leaf_cmp h (CkNotIn k v) b = (case b of CkNotIn l w \<Rightarrow> cmp2 h k (StrV v) l (StrV w) | _ \<Rightarrow> 0)"
| "leaf_cmp h (CkGreater k v) b = (case b of CkGreater l w \<Rightarrow> cmp2 h k v l w | _ \<Rightarrow> 0)"
| "leaf_cmp h (CkGreaterEquals k v) b = (case b of CkGreaterEquals l w \<Rightarrow> cmp2 h k v l w | _ \<Rightarrow> 0)"
| "leaf_cmp h (CkSmaller k v) b = (case b of CkSmaller l w \<Rightarrow> cmp2 h k v l w | _ \<Rightarrow> 0)"
| "leaf_cmp h (CkSmallerEquals k v) b = (case b of CkSmallerEquals l w \<Rightarrow> cmp2 h k v l w | _ \<Rightarrow> 0)"
| "leaf_cmp h _ b = 0"

fun ck_cmp :: "ck_host \<Rightarrow> ckexpr \<Rightarrow> ckexpr \<Rightarrow> int" and ck_cmps :: "ck_host \<Rightarrow> ckexpr list \<Rightarrow> ckexpr list \<Rightarrow> int" where
  "ck_cmp h a b =
     (if ck_type a \<noteq> ck_type b then ck_type a - ck_type b
      else
        case a of
          CkAnd xs \<Rightarrow>
            (case b of
               CkAnd ys \<Rightarrow> if length xs < length ys then - 1 else if length xs > length ys then 1 else ck_cmps h xs ys
             | _ \<Rightarrow> 0)
        | CkOr xs \<Rightarrow>
            (case b of
               CkOr ys \<Rightarrow> if length xs < length ys then - 1 else if length xs > length ys then 1 else ck_cmps h xs ys
             | _ \<Rightarrow> 0)
        | _ \<Rightarrow> leaf_cmp h a b)"
| "ck_cmps h (x # xs) (y # ys) = (let r = ck_cmp h x y in if r \<noteq> 0 then r else ck_cmps h xs ys)"
| "ck_cmps h _ _ = 0"

text \<open>The \<open>equals\<close> methods; a regular expression is compared by its source.\<close>

fun leaf_equals :: "ckexpr \<Rightarrow> ckexpr \<Rightarrow> bool" where
  "leaf_equals (CkRegex k r) b = (case b of CkRegex l s \<Rightarrow> k = l \<and> regex_source r = regex_source s | _ \<Rightarrow> False)"
| "leaf_equals (CkNotRegex k r) b = (case b of CkNotRegex l s \<Rightarrow> k = l \<and> regex_source r = regex_source s | _ \<Rightarrow> False)"
| "leaf_equals a b = (a = b)"

fun ck_equals :: "ckexpr \<Rightarrow> ckexpr \<Rightarrow> bool" and ck_equalss :: "ckexpr list \<Rightarrow> ckexpr list \<Rightarrow> bool" where
  "ck_equals a b =
     (if ck_type b = ck_type a then
        (case a of
           CkAnd xs \<Rightarrow> (case b of CkAnd ys \<Rightarrow> length xs = length ys \<and> ck_equalss xs ys | _ \<Rightarrow> False)
         | CkOr xs \<Rightarrow> (case b of CkOr ys \<Rightarrow> length xs = length ys \<and> ck_equalss xs ys | _ \<Rightarrow> False)
         | _ \<Rightarrow> leaf_equals a b)
      else False)"
| "ck_equalss (x # xs) (y # ys) = (ck_equals x y \<and> ck_equalss xs ys)"
| "ck_equalss _ _ = True"

subsection \<open>Evaluation\<close>

datatype ctx_value =
    UndefinedC | NullC | BoolC bool | NumberC rat | NaNC | StringC jsstring | ArrayC "ctx_value list" | ObjectC "jsstring list"

fun truthy :: "ctx_value \<Rightarrow> bool" where
  "truthy UndefinedC = False"
| "truthy NullC = False"
| "truthy (BoolC b) = b"
| "truthy (NumberC x) = (x \<noteq> 0)"
| "truthy NaNC = False"
| "truthy (StringC s) = (s \<noteq> [])"
| "truthy (ArrayC _) = True"
| "truthy (ObjectC _) = True"

record ck_env =
  ce_getValue :: "jsstring \<Rightarrow> ctx_value"
  ce_looseEq :: "ctx_value \<Rightarrow> ck_value \<Rightarrow> bool"
  ce_parseFloat :: "ctx_value \<Rightarrow> rat option"
  ce_test :: "ck_regex \<Rightarrow> ctx_value \<Rightarrow> bool"
  ce_includes :: "ctx_value list \<Rightarrow> ctx_value \<Rightarrow> bool"
  ce_isWindows :: bool
  ce_toLowerCase :: "jsstring \<Rightarrow> jsstring"

definition in_evaluate :: "ck_env \<Rightarrow> jsstring \<Rightarrow> jsstring \<Rightarrow> bool" where
  "in_evaluate env key valueKey =
     (let source = ce_getValue env valueKey;
          item = ce_getValue env key
      in case source of
           ArrayC xs \<Rightarrow>
             if ce_includes env xs item then True
             else
               (case item of
                  StringC s \<Rightarrow>
                    if ce_isWindows env \<and> js_startsWith s (js_lit ''file:///'')
                    then list_ex (\<lambda>x. case x of StringC t \<Rightarrow> ce_toLowerCase env t = ce_toLowerCase env s | _ \<Rightarrow> False) xs
                    else False
                | _ \<Rightarrow> False)
         | ObjectC ks \<Rightarrow>
             (case item of
                StringC s \<Rightarrow>
                  if s \<in> set ks then True
                  else if ce_isWindows env \<and> js_startsWith s (js_lit ''file:///'')
                  then list_ex (\<lambda>k. ce_toLowerCase env k = ce_toLowerCase env s) ks
                  else False
              | _ \<Rightarrow> False)
         | _ \<Rightarrow> False)"

text \<open>The comparisons: false for a value that stayed a string, and for a key that is not a number.\<close>

definition compare_evaluate :: "ck_env \<Rightarrow> (rat \<Rightarrow> rat \<Rightarrow> bool) \<Rightarrow> jsstring \<Rightarrow> ck_value \<Rightarrow> bool" where
  "compare_evaluate env rel key v =
     (case v of
        StrV _ \<Rightarrow> False
      | NumV y \<Rightarrow> (case ce_parseFloat env (ce_getValue env key) of None \<Rightarrow> False | Some x \<Rightarrow> rel x y))"

fun ck_evaluate :: "ck_env \<Rightarrow> ckexpr \<Rightarrow> bool" where
  "ck_evaluate env CkFalse = False"
| "ck_evaluate env CkTrue = True"
| "ck_evaluate env (CkDefined key) = truthy (ce_getValue env key)"
| "ck_evaluate env (CkNot key) = (\<not> truthy (ce_getValue env key))"
| "ck_evaluate env (CkEquals key v) = ce_looseEq env (ce_getValue env key) v"
| "ck_evaluate env (CkNotEquals key v) = (\<not> ce_looseEq env (ce_getValue env key) v)"
| "ck_evaluate env (CkAnd es) = list_all (ck_evaluate env) es"
| "ck_evaluate env (CkRegex key r) = (case r of None \<Rightarrow> False | Some x \<Rightarrow> ce_test env x (ce_getValue env key))"
| "ck_evaluate env (CkNotRegex key r) = (\<not> (case r of None \<Rightarrow> False | Some x \<Rightarrow> ce_test env x (ce_getValue env key)))"
| "ck_evaluate env (CkOr es) = list_ex (ck_evaluate env) es"
| "ck_evaluate env (CkIn key valueKey) = in_evaluate env key valueKey"
| "ck_evaluate env (CkNotIn key valueKey) = (\<not> in_evaluate env key valueKey)"
| "ck_evaluate env (CkGreater key v) = compare_evaluate env (>) key v"
| "ck_evaluate env (CkGreaterEquals key v) = compare_evaluate env (\<ge>) key v"
| "ck_evaluate env (CkSmaller key v) = compare_evaluate env (<) key v"
| "ck_evaluate env (CkSmallerEquals key v) = compare_evaluate env (\<le>) key v"

subsection \<open>Constructors\<close>

text \<open>A value given to \<open>equals\<close> or \<open>notEquals\<close>: a boolean is turned into a test of the key.\<close>

datatype ck_arg = BoolArg bool | ValueArg ck_value

definition constant_expr :: "bool \<Rightarrow> ckexpr" where
  "constant_expr b = (if b then CkTrue else CkFalse)"

definition Defined_create :: "ck_host \<Rightarrow> jsstring \<Rightarrow> ckexpr" where
  "Defined_create h key = (case ch_constant h key of Some b \<Rightarrow> constant_expr b | None \<Rightarrow> CkDefined key)"

definition Not_create :: "ck_host \<Rightarrow> jsstring \<Rightarrow> ckexpr" where
  "Not_create h key = (case ch_constant h key of Some b \<Rightarrow> constant_expr (\<not> b) | None \<Rightarrow> CkNot key)"

definition bool_text :: "bool \<Rightarrow> ck_value" where
  "bool_text b = StrV (if b then js_lit ''true'' else js_lit ''false'')"

definition Equals_create :: "ck_host \<Rightarrow> jsstring \<Rightarrow> ck_arg \<Rightarrow> ckexpr" where
  "Equals_create h key arg =
     (case arg of
        BoolArg b \<Rightarrow> if b then Defined_create h key else Not_create h key
      | ValueArg v \<Rightarrow> (case ch_constant h key of Some c \<Rightarrow> constant_expr (v = bool_text c) | None \<Rightarrow> CkEquals key v))"

definition NotEquals_create :: "ck_host \<Rightarrow> jsstring \<Rightarrow> ck_arg \<Rightarrow> ckexpr" where
  "NotEquals_create h key arg =
     (case arg of
        BoolArg b \<Rightarrow> if b then Not_create h key else Defined_create h key
      | ValueArg v \<Rightarrow> (case ch_constant h key of Some c \<Rightarrow> constant_expr (v \<noteq> bool_text c) | None \<Rightarrow> CkNotEquals key v))"

definition withFloatOrStr :: "ck_host \<Rightarrow> ck_value \<Rightarrow> (ck_value \<Rightarrow> ckexpr) \<Rightarrow> ckexpr" where
  "withFloatOrStr h v callback =
     (case v of
        StrV s \<Rightarrow> (case ch_parseFloat h s of Some x \<Rightarrow> callback (NumV x) | None \<Rightarrow> callback (StrV s))
      | NumV x \<Rightarrow> callback (NumV x))"

definition Greater_create :: "ck_host \<Rightarrow> jsstring \<Rightarrow> ck_value \<Rightarrow> ckexpr" where
  "Greater_create h key v = withFloatOrStr h v (CkGreater key)"

definition GreaterEquals_create :: "ck_host \<Rightarrow> jsstring \<Rightarrow> ck_value \<Rightarrow> ckexpr" where
  "GreaterEquals_create h key v = withFloatOrStr h v (CkGreaterEquals key)"

definition Smaller_create :: "ck_host \<Rightarrow> jsstring \<Rightarrow> ck_value \<Rightarrow> ckexpr" where
  "Smaller_create h key v = withFloatOrStr h v (CkSmaller key)"

definition SmallerEquals_create :: "ck_host \<Rightarrow> jsstring \<Rightarrow> ck_value \<Rightarrow> ckexpr" where
  "SmallerEquals_create h key v = withFloatOrStr h v (CkSmallerEquals key)"

subsection \<open>Normalisation\<close>

text \<open>\<open>expr.sort(cmp)\<close> and the elimination of duplicate neighbours.\<close>

definition ck_sort :: "ck_host \<Rightarrow> ckexpr list \<Rightarrow> ckexpr list" where
  "ck_sort h es = js_sort (ck_cmp h) es"

fun ck_dedupe :: "ckexpr list \<Rightarrow> ckexpr list" where
  "ck_dedupe (x # y # zs) = (if ck_equals x y then ck_dedupe (x # zs) else x # ck_dedupe (y # zs))"
| "ck_dedupe xs = xs"

text \<open>The two nested loops that look for an expression and its negation.\<close>

fun has_complement :: "(ckexpr \<Rightarrow> ckexpr) \<Rightarrow> ckexpr list \<Rightarrow> bool" where
  "has_complement neg [] = False"
| "has_complement neg (x # xs) = (list_ex (\<lambda>y. ck_equals (neg x) y) xs \<or> has_complement neg xs)"

text \<open>The first loops: \<open>None\<close> when the constant that decides the result is met; the other one is remembered.\<close>

fun or_collect :: "ckexpr option list \<Rightarrow> ckexpr list \<Rightarrow> bool \<Rightarrow> (ckexpr list \<times> bool) option" where
  "or_collect [] expr hasFalse = Some (expr, hasFalse)"
| "or_collect (e # es) expr hasFalse =
     (case e of
        None \<Rightarrow> or_collect es expr hasFalse
      | Some CkFalse \<Rightarrow> or_collect es expr True
      | Some CkTrue \<Rightarrow> None
      | Some (CkOr xs) \<Rightarrow> or_collect es (expr @ xs) hasFalse
      | Some x \<Rightarrow> or_collect es (expr @ [x]) hasFalse)"

definition or_normalize ::
    "ck_host \<Rightarrow> (ckexpr \<Rightarrow> ckexpr) \<Rightarrow> ckexpr option list \<Rightarrow> bool \<Rightarrow> ckexpr option" where
  "or_normalize h neg arr extraRedundantCheck =
     (case or_collect arr [] False of
        None \<Rightarrow> Some CkTrue
      | Some (expr, hasFalse) \<Rightarrow>
          if expr = [] \<and> hasFalse then Some CkFalse
          else
            let sorted = ck_sort h expr
            in if sorted = [] then None
               else if length sorted = 1 then Some (hd sorted)
               else
                 let unique = ck_dedupe sorted
                 in if length unique = 1 then Some (hd unique)
                    else if extraRedundantCheck \<and> has_complement neg unique then Some CkTrue
                    else Some (CkOr unique))"

fun and_collect :: "ckexpr option list \<Rightarrow> ckexpr list \<Rightarrow> bool \<Rightarrow> (ckexpr list \<times> bool) option" where
  "and_collect [] expr hasTrue = Some (expr, hasTrue)"
| "and_collect (e # es) expr hasTrue =
     (case e of
        None \<Rightarrow> and_collect es expr hasTrue
      | Some CkTrue \<Rightarrow> and_collect es expr True
      | Some CkFalse \<Rightarrow> None
      | Some (CkAnd xs) \<Rightarrow> and_collect es (expr @ xs) hasTrue
      | Some x \<Rightarrow> and_collect es (expr @ [x]) hasTrue)"

text \<open>The loop that distributes a disjunction at the end of the sorted array over its neighbour.\<close>

function and_distribute ::
    "ck_host \<Rightarrow> (ckexpr option list \<Rightarrow> ckexpr option) \<Rightarrow> (ckexpr option list \<Rightarrow> bool \<Rightarrow> ckexpr option) \<Rightarrow>
     ckexpr list \<Rightarrow> ckexpr list" where
  "and_distribute h and_create or_create expr =
     (if length expr > 1 then
        (case last expr of
           CkOr os \<Rightarrow>
             let rest = butlast expr;
                 secondToLastElement = last rest;
                 others = butlast rest;
                 isFinished = (others = []);
                 resultElement = or_create (map (\<lambda>el. and_create [Some el, Some secondToLastElement]) os) isFinished
             in and_distribute h and_create or_create
                  (case resultElement of None \<Rightarrow> others | Some r \<Rightarrow> ck_sort h (others @ [r]))
         | _ \<Rightarrow> expr)
      else expr)"
  by pat_completeness auto
termination
  by (relation "measure (\<lambda>(h, a, b, expr). length expr)") (auto simp: ck_sort_def split: option.splits)

fun and_normalize ::
    "ck_host \<Rightarrow> (ckexpr \<Rightarrow> ckexpr) \<Rightarrow> nat \<Rightarrow> ckexpr option list \<Rightarrow> bool \<Rightarrow> ckexpr option" where
  "and_normalize h neg depth arr extraRedundantCheck =
     (case and_collect arr [] False of
        None \<Rightarrow> Some CkFalse
      | Some (expr, hasTrue) \<Rightarrow>
          if expr = [] \<and> hasTrue then Some CkTrue
          else if expr = [] then None
          else if length expr = 1 then Some (hd expr)
          else
            let unique = ck_dedupe (ck_sort h expr)
            in if length unique = 1 then Some (hd unique)
               else
                 let distributed =
                       (case depth of
                          0 \<Rightarrow> unique
                        | Suc d \<Rightarrow> and_distribute h (\<lambda>a. and_normalize h neg d a extraRedundantCheck) (or_normalize h neg) unique)
                 in if length distributed = 1 then Some (hd distributed)
                    else if extraRedundantCheck \<and> has_complement neg distributed then Some CkFalse
                    else Some (CkAnd distributed))"

text \<open>How deep disjunctions are nested, counting those of all the terms of a conjunction.\<close>

fun or_depth :: "ckexpr \<Rightarrow> nat" where
  "or_depth (CkAnd es) = sum_list (map or_depth es)"
| "or_depth (CkOr es) = Suc (foldr max (map or_depth es) 0)"
| "or_depth _ = 0"

definition args_depth :: "ckexpr option list \<Rightarrow> nat" where
  "args_depth arr = sum_list (map (\<lambda>e. case e of None \<Rightarrow> 0 | Some x \<Rightarrow> or_depth x) arr)"

definition getTerminals :: "ckexpr \<Rightarrow> ckexpr list" where
  "getTerminals node = (case node of CkOr es \<Rightarrow> es | _ \<Rightarrow> [node])"

subsection \<open>Negation\<close>

definition leaf_negate :: "ck_host \<Rightarrow> ckexpr \<Rightarrow> ckexpr" where
  "leaf_negate h e =
     (case e of
        CkFalse \<Rightarrow> CkTrue
      | CkTrue \<Rightarrow> CkFalse
      | CkDefined key \<Rightarrow> Not_create h key
      | CkNot key \<Rightarrow> Defined_create h key
      | CkEquals key v \<Rightarrow> NotEquals_create h key (ValueArg v)
      | CkNotEquals key v \<Rightarrow> Equals_create h key (ValueArg v)
      | CkRegex key r \<Rightarrow> CkNotRegex key r
      | CkNotRegex key r \<Rightarrow> CkRegex key r
      | CkIn key valueKey \<Rightarrow> CkNotIn key valueKey
      | CkNotIn key valueKey \<Rightarrow> CkIn key valueKey
      | CkGreater key v \<Rightarrow> SmallerEquals_create h key v
      | CkGreaterEquals key v \<Rightarrow> Smaller_create h key v
      | CkSmaller key v \<Rightarrow> GreaterEquals_create h key v
      | CkSmallerEquals key v \<Rightarrow> Greater_create h key v
      | _ \<Rightarrow> e)"

text \<open>A result that the code asserts to be there (\<open>!\<close>).\<close>

definition or_else :: "ckexpr option \<Rightarrow> ckexpr" where
  "or_else r = (case r of Some e \<Rightarrow> e | None \<Rightarrow> CkFalse)"

text \<open>The loop of \<open>ContextKeyOrExpr.negate\<close> that distributes over the first two negated operands.\<close>

function or_negate_loop :: "ck_host \<Rightarrow> (ckexpr \<Rightarrow> ckexpr) \<Rightarrow> ckexpr list \<Rightarrow> ckexpr list" where
  "or_negate_loop h neg (LEFT # RIGHT # result) =
     or_negate_loop h neg
       (or_else (or_normalize h neg
          (concat (map (\<lambda>left. map (\<lambda>right.
              Some (or_else (and_normalize h neg (or_depth left + or_depth right) [Some left, Some right] False)))
            (getTerminals RIGHT)) (getTerminals LEFT))) False) # result)"
| "or_negate_loop h neg [] = []"
| "or_negate_loop h neg [x] = [x]"
  by pat_completeness auto
termination
  by (relation "measure (\<lambda>(h, neg, es). length es)") auto

text \<open>The negations a redundancy check inside a negation asks for have one less in the bound.\<close>

fun ck_negate :: "ck_host \<Rightarrow> nat \<Rightarrow> ckexpr \<Rightarrow> ckexpr" where
  "ck_negate h bound (CkAnd es) =
     or_else (or_normalize h (case bound of 0 \<Rightarrow> leaf_negate h | Suc b \<Rightarrow> ck_negate h b)
       (map (\<lambda>e. Some (ck_negate h bound e)) es) True)"
| "ck_negate h bound (CkOr es) =
     or_else (or_normalize h (case bound of 0 \<Rightarrow> leaf_negate h | Suc b \<Rightarrow> ck_negate h b)
       (map Some (or_negate_loop h (case bound of 0 \<Rightarrow> leaf_negate h | Suc b \<Rightarrow> ck_negate h b)
          (map (ck_negate h bound) es))) True)"
| "ck_negate h bound e = leaf_negate h e"

definition ContextKey_negate :: "ck_host \<Rightarrow> ckexpr \<Rightarrow> ckexpr" where
  "ContextKey_negate h e = ck_negate h 1 e"

definition ContextKeyOrExpr_create :: "ck_host \<Rightarrow> ckexpr option list \<Rightarrow> bool \<Rightarrow> ckexpr option" where
  "ContextKeyOrExpr_create h arr extraRedundantCheck = or_normalize h (ContextKey_negate h) arr extraRedundantCheck"

definition ContextKeyAndExpr_create :: "ck_host \<Rightarrow> ckexpr option list \<Rightarrow> bool \<Rightarrow> ckexpr option" where
  "ContextKeyAndExpr_create h arr extraRedundantCheck =
     and_normalize h (ContextKey_negate h) (args_depth arr) arr extraRedundantCheck"


subsection \<open>Constant substitution\<close>

text \<open>Whether \<open>substituteConstants\<close> returns another object, and what it returns.\<close>

fun substitution_changes :: "ck_host \<Rightarrow> ckexpr \<Rightarrow> bool" where
  "substitution_changes h (CkDefined key) = (ch_constant h key \<noteq> None)"
| "substitution_changes h (CkNot key) = (ch_constant h key \<noteq> None)"
| "substitution_changes h (CkEquals key _) = (ch_constant h key \<noteq> None)"
| "substitution_changes h (CkNotEquals key _) = (ch_constant h key \<noteq> None)"
| "substitution_changes h (CkAnd es) = list_ex (substitution_changes h) es"
| "substitution_changes h (CkOr es) = list_ex (substitution_changes h) es"
| "substitution_changes h _ = False"

text \<open>\<open>None\<close> stands for the array itself.\<close>

definition eliminateConstantsInArray ::
    "(ckexpr \<Rightarrow> bool) \<Rightarrow> (ckexpr \<Rightarrow> ckexpr option) \<Rightarrow> ckexpr list \<Rightarrow> ckexpr option list option" where
  "eliminateConstantsInArray changed substitute arr =
     (if list_ex changed arr then Some (map substitute arr) else None)"

lemma eliminateConstantsInArray_cong [fundef_cong]:
  "arr = arr' \<Longrightarrow> changed = changed' \<Longrightarrow> (\<And>e. e \<in> set arr' \<Longrightarrow> substitute e = substitute' e) \<Longrightarrow>
   eliminateConstantsInArray changed substitute arr = eliminateConstantsInArray changed' substitute' arr'"
  by (simp add: eliminateConstantsInArray_def)

fun substituteConstants :: "ck_host \<Rightarrow> ckexpr \<Rightarrow> ckexpr option" where
  "substituteConstants h (CkDefined key) =
     Some (case ch_constant h key of Some c \<Rightarrow> constant_expr c | None \<Rightarrow> CkDefined key)"
| "substituteConstants h (CkNot key) =
     Some (case ch_constant h key of Some c \<Rightarrow> constant_expr (\<not> c) | None \<Rightarrow> CkNot key)"
| "substituteConstants h (CkEquals key v) =
     Some (case ch_constant h key of Some c \<Rightarrow> constant_expr (v = bool_text c) | None \<Rightarrow> CkEquals key v)"
| "substituteConstants h (CkNotEquals key v) =
     Some (case ch_constant h key of Some c \<Rightarrow> constant_expr (v \<noteq> bool_text c) | None \<Rightarrow> CkNotEquals key v)"
| "substituteConstants h (CkAnd es) =
     (case eliminateConstantsInArray (substitution_changes h) (substituteConstants h) es of
        None \<Rightarrow> Some (CkAnd es)
      | Some exprArr \<Rightarrow> ContextKeyAndExpr_create h exprArr False)"
| "substituteConstants h (CkOr es) =
     (case eliminateConstantsInArray (substitution_changes h) (substituteConstants h) es of
        None \<Rightarrow> Some (CkOr es)
      | Some exprArr \<Rightarrow> ContextKeyOrExpr_create h exprArr False)"
| "substituteConstants h e = Some e"

definition expressionsAreEqualWithConstantSubstitution :: "ck_host \<Rightarrow> ckexpr option \<Rightarrow> ckexpr option \<Rightarrow> bool" where
  "expressionsAreEqualWithConstantSubstitution h a b =
     (case Option.bind a (substituteConstants h) of
        None \<Rightarrow> (case Option.bind b (substituteConstants h) of None \<Rightarrow> True | Some _ \<Rightarrow> False)
      | Some aExpr \<Rightarrow> (case Option.bind b (substituteConstants h) of None \<Rightarrow> False | Some bExpr \<Rightarrow> ck_equals aExpr bExpr))"

subsection \<open>Implication\<close>

fun allElementsIncluded :: "ck_host \<Rightarrow> ckexpr list \<Rightarrow> ckexpr list \<Rightarrow> bool" where
  "allElementsIncluded h [] qs = True"
| "allElementsIncluded h (p # ps) [] = False"
| "allElementsIncluded h (p # ps) (q # qs) =
     (let c = ck_cmp h p q
      in if c < 0 then False
         else if c = 0 then allElementsIncluded h ps qs
         else allElementsIncluded h (p # ps) qs)"

text \<open>The operands of an expression of type \<open>And\<close> and of type \<open>Or\<close>.\<close>

fun and_operands :: "ckexpr \<Rightarrow> ckexpr list option" where
  "and_operands (CkAnd es) = Some es"
| "and_operands _ = None"

fun or_operands :: "ckexpr \<Rightarrow> ckexpr list option" where
  "or_operands (CkOr es) = Some es"
| "or_operands _ = None"

lemma operands_size:
  "or_operands p = Some es \<Longrightarrow> e \<in> set es \<Longrightarrow> size e < size p"
  "and_operands p = Some es \<Longrightarrow> e \<in> set es \<Longrightarrow> size e < size p"
  by (cases p; auto simp: less_Suc_eq_le size_list_estimation')+

function ck_implies :: "ck_host \<Rightarrow> ckexpr \<Rightarrow> ckexpr \<Rightarrow> bool" where
  "ck_implies h p q =
     (if p = CkFalse \<or> q = CkTrue then True
      else
        (case or_operands p of
           Some ps \<Rightarrow> (case or_operands q of Some qs \<Rightarrow> allElementsIncluded h ps qs | None \<Rightarrow> False)
         | None \<Rightarrow>
             (case or_operands q of
                Some qs \<Rightarrow> list_ex (\<lambda>element. ck_implies h p element) qs
              | None \<Rightarrow>
                  (case and_operands p of
                     Some ps \<Rightarrow>
                       (case and_operands q of
                          Some qs \<Rightarrow> allElementsIncluded h qs ps
                        | None \<Rightarrow> list_ex (\<lambda>element. ck_implies h element q) ps)
                   | None \<Rightarrow> ck_equals p q))))"
  by pat_completeness auto
termination
  by (relation "measure (\<lambda>(h, p, q). size p + size q)") (auto dest: operands_size)

subsection \<open>Text and keys\<close>

definition value_text :: "ck_host \<Rightarrow> ck_value \<Rightarrow> jsstring" where
  "value_text h v = (case v of StrV s \<Rightarrow> s | NumV x \<Rightarrow> ch_toString h x)"

definition regex_serialize :: "jsstring \<Rightarrow> ck_regex option \<Rightarrow> jsstring" where
  "regex_serialize key r =
     key @ js_lit '' =~ '' @
     (case r of
        None \<Rightarrow> js_lit ''/invalid/''
      | Some x \<Rightarrow> js_lit ''/'' @ rx_source x @ js_lit ''/'' @ rx_flags x)"

definition quoted :: "jsstring \<Rightarrow> jsstring" where
  "quoted s = 39 # s @ [39]"

fun ck_serialize :: "ck_host \<Rightarrow> ckexpr \<Rightarrow> jsstring" where
  "ck_serialize h CkFalse = js_lit ''false''"
| "ck_serialize h CkTrue = js_lit ''true''"
| "ck_serialize h (CkDefined key) = key"
| "ck_serialize h (CkNot key) = js_lit ''!'' @ key"
| "ck_serialize h (CkEquals key v) = key @ js_lit '' == '' @ quoted (value_text h v)"
| "ck_serialize h (CkNotEquals key v) = key @ js_lit '' != '' @ quoted (value_text h v)"
| "ck_serialize h (CkAnd es) = join_with (js_lit '' && '') (map (ck_serialize h) es)"
| "ck_serialize h (CkRegex key r) = regex_serialize key r"
| "ck_serialize h (CkNotRegex key r) = js_lit ''!('' @ regex_serialize key r @ js_lit '')''"
| "ck_serialize h (CkOr es) = join_with (js_lit '' || '') (map (ck_serialize h) es)"
| "ck_serialize h (CkIn key valueKey) = key @ js_lit '' in '' @ quoted valueKey"
| "ck_serialize h (CkNotIn key valueKey) = key @ js_lit '' not in '' @ quoted valueKey"
| "ck_serialize h (CkGreater key v) = key @ js_lit '' > '' @ value_text h v"
| "ck_serialize h (CkGreaterEquals key v) = key @ js_lit '' >= '' @ value_text h v"
| "ck_serialize h (CkSmaller key v) = key @ js_lit '' < '' @ value_text h v"
| "ck_serialize h (CkSmallerEquals key v) = key @ js_lit '' <= '' @ value_text h v"

fun ck_keys :: "ckexpr \<Rightarrow> jsstring list" where
  "ck_keys CkFalse = []"
| "ck_keys CkTrue = []"
| "ck_keys (CkDefined key) = [key]"
| "ck_keys (CkNot key) = [key]"
| "ck_keys (CkEquals key _) = [key]"
| "ck_keys (CkNotEquals key _) = [key]"
| "ck_keys (CkAnd es) = concat (map ck_keys es)"
| "ck_keys (CkRegex key _) = [key]"
| "ck_keys (CkNotRegex key _) = [key]"
| "ck_keys (CkOr es) = concat (map ck_keys es)"
| "ck_keys (CkIn key valueKey) = [key, valueKey]"
| "ck_keys (CkNotIn key valueKey) = [key, valueKey]"
| "ck_keys (CkGreater key _) = [key]"
| "ck_keys (CkGreaterEquals key _) = [key]"
| "ck_keys (CkSmaller key _) = [key]"
| "ck_keys (CkSmallerEquals key _) = [key]"

end
