(* ===== verification/ContextKeyForms.thy ===== *)
theory ContextKeyForms
  imports ContextKeys
begin

text \<open>
  What the normalisation of conjunctions and disjunctions does to the terms of its operands
  (\<^verbatim>\<open>_normalizeArr\<close> of \<^verbatim>\<open>contextkey.ts\<close>): closed forms of the loops, an invariant rule for the
  distribution of disjunctions, predicates that every result inherits from the operands, and the truth value of the result.
\<close>

section \<open>What normalisation does to the terms\<close>

declare ck_cmp.simps [simp del] ck_equals.simps [simp del] and_distribute.simps [simp del] and_normalize.simps [simp del]

fun is_leaf :: "ckexpr \<Rightarrow> bool" where
  "is_leaf (CkAnd _) = False"
| "is_leaf (CkOr _) = False"
| "is_leaf _ = True"

text \<open>Every expression without operands in \<open>e\<close> satisfies \<open>P\<close>, and no operand list is empty.\<close>

fun ck_all :: "(ckexpr \<Rightarrow> bool) \<Rightarrow> ckexpr \<Rightarrow> bool" where
  "ck_all P (CkAnd es) = (es \<noteq> [] \<and> list_all (ck_all P) es)"
| "ck_all P (CkOr es) = (es \<noteq> [] \<and> list_all (ck_all P) es)"
| "ck_all P e = P e"

lemma ck_all_leaf: "is_leaf e \<Longrightarrow> ck_all P e = P e"
  by (cases e) auto

lemma ck_all_conj: "ck_all (\<lambda>l. P l \<and> Q l) e = (ck_all P e \<and> ck_all Q e)"
  by (induction e) (auto simp: list_all_iff)

definition somes :: "ckexpr option list \<Rightarrow> ckexpr list" where
  "somes arr = concat (map (\<lambda>x. case x of None \<Rightarrow> [] | Some e \<Rightarrow> [e]) arr)"

lemma somes_simps [simp]:
  "somes [] = []" "somes (None # arr) = somes arr" "somes (Some e # arr) = e # somes arr"
  by (simp_all add: somes_def)

lemma somes_map [simp]:
  "somes (map (\<lambda>x. Some (f x)) xs) = map f xs" "somes (map Some xs) = xs" "somes (map (Some \<circ> f) xs) = map f xs"
  by (induction xs) auto

fun or_terms :: "ckexpr \<Rightarrow> ckexpr list" where
  "or_terms CkFalse = []"
| "or_terms (CkOr es) = es"
| "or_terms e = [e]"

fun and_terms :: "ckexpr \<Rightarrow> ckexpr list" where
  "and_terms CkTrue = []"
| "and_terms (CkAnd es) = es"
| "and_terms e = [e]"

abbreviation or_flat :: "ckexpr option list \<Rightarrow> ckexpr list" where
  "or_flat arr \<equiv> concat (map or_terms (somes arr))"

abbreviation and_flat :: "ckexpr option list \<Rightarrow> ckexpr list" where
  "and_flat arr \<equiv> concat (map and_terms (somes arr))"

lemma or_collect_eq:
  "or_collect arr expr b =
     (if CkTrue \<in> set (somes arr) then None else Some (expr @ or_flat arr, b \<or> CkFalse \<in> set (somes arr)))"
  by (induction arr expr b rule: or_collect.induct) (auto split: option.splits ckexpr.splits)

lemma and_collect_eq:
  "and_collect arr expr b =
     (if CkFalse \<in> set (somes arr) then None else Some (expr @ and_flat arr, b \<or> CkTrue \<in> set (somes arr)))"
  by (induction arr expr b rule: and_collect.induct) (auto split: option.splits ckexpr.splits)

lemma set_ck_sort [simp]: "set (ck_sort h es) = set es"
  by (simp add: ck_sort_def)

lemma length_ck_sort [simp]: "length (ck_sort h es) = length es"
  by (simp add: ck_sort_def)

lemma ck_sort_eq_Nil [simp]: "ck_sort h es = [] \<longleftrightarrow> es = []"
  by (metis length_0_conv length_ck_sort)

lemma ck_dedupe_subset: "set (ck_dedupe es) \<subseteq> set es"
  by (induction es rule: ck_dedupe.induct) auto

lemma ck_dedupe_eq_Nil [simp]: "ck_dedupe es = [] \<longleftrightarrow> es = []"
  by (induction es rule: ck_dedupe.induct) auto

lemma has_complement_cong:
  "(\<And>e. e \<in> set es \<Longrightarrow> neg e = neg' e) \<Longrightarrow> has_complement neg es = has_complement neg' es"
  by (induction es) auto

lemma has_complementD:
  "has_complement neg es \<Longrightarrow> \<exists>a \<in> set es. \<exists>b \<in> set es. ck_equals (neg a) b"
  by (induction es) (auto simp: list_ex_iff)

text \<open>The results of a disjunction, and what each means for the operands.\<close>

definition or_unique :: "ck_host \<Rightarrow> ckexpr option list \<Rightarrow> ckexpr list" where
  "or_unique h arr = ck_dedupe (ck_sort h (or_flat arr))"

lemma or_unique_subset: "set (or_unique h arr) \<subseteq> set (or_flat arr)"
  using ck_dedupe_subset[of "ck_sort h (or_flat arr)"] by (simp add: or_unique_def)

lemma or_unique_Nil [simp]: "or_unique h arr = [] \<longleftrightarrow> or_flat arr = []"
  by (simp add: or_unique_def)

lemma length_1_hd: "length xs = Suc 0 \<Longrightarrow> xs = [hd xs]"
  by (cases xs) auto

lemma or_unique_single: "length (or_flat arr) = Suc 0 \<Longrightarrow> or_unique h arr = ck_sort h (or_flat arr)"
  unfolding or_unique_def by (metis ck_dedupe.simps(3) length_1_hd length_ck_sort)

lemma or_normalize_eq:
  "or_normalize h neg arr chk =
     (if CkTrue \<in> set (somes arr) then Some CkTrue
      else if or_flat arr = [] then (if CkFalse \<in> set (somes arr) then Some CkFalse else None)
      else if length (or_unique h arr) = 1 then Some (hd (or_unique h arr))
      else if chk \<and> has_complement neg (or_unique h arr) then Some CkTrue
      else Some (CkOr (or_unique h arr)))"
proof (cases "length (or_flat arr) = Suc 0")
  case True
  then have "or_flat arr \<noteq> []" by (metis length_greater_0_conv zero_less_Suc)
  then show ?thesis
    using True or_unique_single[OF True, of h]
    by (simp only: or_normalize_def or_collect_eq Let_def append_Nil option.case prod.case if_False One_nat_def
        length_ck_sort ck_sort_eq_Nil split: if_splits) (simp add: One_nat_def)
next
  case False
  then show ?thesis by (auto simp: or_normalize_def or_collect_eq or_unique_def Let_def)
qed

text \<open>The loop over a disjunction at the end, as a rule for what every round keeps.\<close>

definition distribute_step ::
    "ck_host \<Rightarrow> (ckexpr option list \<Rightarrow> ckexpr option) \<Rightarrow> (ckexpr option list \<Rightarrow> bool \<Rightarrow> ckexpr option) \<Rightarrow>
     ckexpr list \<Rightarrow> ckexpr \<Rightarrow> ckexpr list \<Rightarrow> ckexpr list" where
  "distribute_step h ac oc others s os =
     (case oc (map (\<lambda>el. ac [Some el, Some s]) os) (others = []) of
        None \<Rightarrow> others
      | Some r \<Rightarrow> ck_sort h (others @ [r]))"

lemma and_distribute_step:
  "and_distribute h ac oc (others @ [s, CkOr os]) = and_distribute h ac oc (distribute_step h ac oc others s os)"
proof -
  have b: "butlast (others @ [s, CkOr os]) = others @ [s]" by (simp add: butlast_append)
  have "and_distribute h ac oc (others @ [s, CkOr os]) =
    and_distribute h ac oc (let rest = butlast (others @ [s, CkOr os]) in
      case oc (map (\<lambda>el. ac [Some el, Some (last rest)]) os) (butlast rest = []) of
        None \<Rightarrow> butlast rest | Some r \<Rightarrow> ck_sort h (butlast rest @ [r]))"
    by (subst and_distribute.simps) (simp add: Let_def)
  then show ?thesis unfolding b distribute_step_def Let_def butlast_snoc last_snoc .
qed

lemma and_distribute_stop:
  "length expr \<le> 1 \<or> (\<forall>os. last expr \<noteq> CkOr os) \<Longrightarrow> and_distribute h ac oc expr = expr"
  by (subst and_distribute.simps) (auto split: ckexpr.splits)

lemma distribute_cases:
  obtains (stop) "length expr \<le> 1 \<or> (\<forall>os. last expr \<noteq> CkOr os)"
    | (step) others s os where "expr = others @ [s, CkOr os]"
proof (cases "length expr \<le> 1 \<or> (\<forall>os. last expr \<noteq> CkOr os)")
  case False
  then obtain os where os: "last expr = CkOr os" and l: "length expr > 1" by auto
  then have "expr = butlast (butlast expr) @ [last (butlast expr), last expr]"
    by (cases expr rule: rev_cases; cases "butlast expr" rule: rev_cases) (auto simp: butlast_append)
  then show ?thesis using that(2) os by metis
qed (rule that(1))

lemma length_distribute_step: "length (distribute_step h ac oc others s os) \<le> Suc (length others)"
  by (simp add: distribute_step_def split: option.split)

lemma and_distribute_invariant:
  assumes "I expr"
    and "\<And>others s os. I (others @ [s, CkOr os]) \<Longrightarrow> I (distribute_step h ac oc others s os)"
  shows "I (and_distribute h ac oc expr)"
  using assms(1)
proof (induction expr rule: length_induct)
  case (1 expr)
  show ?case
  proof (cases expr rule: distribute_cases)
    case stop
    then show ?thesis using 1 by (simp add: and_distribute_stop)
  next
    case (step others s os)
    let ?n = "distribute_step h ac oc others s os"
    have "length ?n < length expr" using length_distribute_step[of h ac oc others s os] by (simp add: step)
    moreover have "I ?n" using assms(2) 1 by (simp add: step)
    ultimately have "I (and_distribute h ac oc ?n)" using 1 by blast
    then show ?thesis by (simp only: step and_distribute_step)
  qed
qed

lemma and_distribute_cong:
  assumes "I expr"
    and "\<And>others s os. I (others @ [s, CkOr os]) \<Longrightarrow> I (distribute_step h ac oc others s os)"
    and "\<And>others s os. I (others @ [s, CkOr os]) \<Longrightarrow>
           distribute_step h ac oc others s os = distribute_step h ac' oc' others s os"
  shows "and_distribute h ac oc expr = and_distribute h ac' oc' expr"
  using assms(1)
proof (induction expr rule: length_induct)
  case (1 expr)
  show ?case
  proof (cases expr rule: distribute_cases)
    case stop
    then show ?thesis by (simp add: and_distribute_stop)
  next
    case (step others s os)
    let ?n = "distribute_step h ac oc others s os"
    have "length ?n < length expr" using length_distribute_step[of h ac oc others s os] by (simp add: step)
    moreover have "I ?n" using assms(2) 1 by (simp add: step)
    ultimately have "and_distribute h ac oc ?n = and_distribute h ac' oc' ?n" using 1 by blast
    then show ?thesis
      unfolding step and_distribute_step[of h ac] and_distribute_step[of h ac'] using assms(3) 1 step by metis
  qed
qed

definition and_unique :: "ck_host \<Rightarrow> ckexpr option list \<Rightarrow> ckexpr list" where
  "and_unique h arr = ck_dedupe (ck_sort h (and_flat arr))"

definition and_distributed ::
    "ck_host \<Rightarrow> (ckexpr \<Rightarrow> ckexpr) \<Rightarrow> nat \<Rightarrow> ckexpr option list \<Rightarrow> bool \<Rightarrow> ckexpr list" where
  "and_distributed h neg depth arr chk =
     (case depth of
        0 \<Rightarrow> and_unique h arr
      | Suc d \<Rightarrow> and_distribute h (\<lambda>a. and_normalize h neg d a chk) (or_normalize h neg) (and_unique h arr))"

lemma and_unique_subset: "set (and_unique h arr) \<subseteq> set (and_flat arr)"
  using ck_dedupe_subset[of "ck_sort h (and_flat arr)"] by (simp add: and_unique_def)

lemma and_unique_Nil [simp]: "and_unique h arr = [] \<longleftrightarrow> and_flat arr = []"
  by (simp add: and_unique_def)

lemma and_unique_single: "length (and_flat arr) = Suc 0 \<Longrightarrow> and_unique h arr = and_flat arr"
  unfolding and_unique_def
  by (metis ck_dedupe.simps(3) length_1_hd length_ck_sort list.set(1) list.set(2) set_ck_sort singleton_insert_inj_eq)

lemma and_distributed_single: "length (and_unique h arr) = Suc 0 \<Longrightarrow> and_distributed h neg d arr chk = and_unique h arr"
  by (simp add: and_distributed_def and_distribute_stop split: nat.split)

lemma and_normalize_eq:
  "and_normalize h neg d arr chk =
     (if CkFalse \<in> set (somes arr) then Some CkFalse
      else if and_flat arr = [] then (if CkTrue \<in> set (somes arr) then Some CkTrue else None)
      else if length (and_distributed h neg d arr chk) = 1 then Some (hd (and_distributed h neg d arr chk))
      else if chk \<and> has_complement neg (and_distributed h neg d arr chk) then Some CkFalse
      else Some (CkAnd (and_distributed h neg d arr chk)))"
proof (cases "length (and_unique h arr) = Suc 0")
  case True
  note s = and_distributed_single[OF True, of neg d chk]
  show ?thesis unfolding s using True and_unique_single[of arr h]
    by (subst and_normalize.simps) (auto simp: and_collect_eq and_unique_def Let_def)
next
  case False
  moreover have "length (and_flat arr) \<noteq> Suc 0" using False and_unique_single[of arr h] by auto
  ultimately show ?thesis
    by (subst and_normalize.simps)
      (auto simp: and_collect_eq and_distributed_def and_unique_def[symmetric] Let_def)
qed

subsection \<open>Operands and terms\<close>

lemma or_terms_all: "ck_all P e \<Longrightarrow> x \<in> set (or_terms e) \<Longrightarrow> ck_all P x"
  by (cases e) (auto simp: list_all_iff)

lemma and_terms_all: "ck_all P e \<Longrightarrow> x \<in> set (and_terms e) \<Longrightarrow> ck_all P x"
  by (cases e) (auto simp: list_all_iff)

lemma or_terms_Nil: "ck_all P e \<Longrightarrow> or_terms e = [] \<longleftrightarrow> e = CkFalse"
  by (cases e) auto

lemma and_terms_Nil: "ck_all P e \<Longrightarrow> and_terms e = [] \<longleftrightarrow> e = CkTrue"
  by (cases e) auto

definition constants_allowed :: "(ckexpr \<Rightarrow> bool) \<Rightarrow> bool" where
  "constants_allowed P = (P CkTrue \<and> P CkFalse)"

lemma or_normalize_all:
  assumes P: "constants_allowed P" and all: "list_all (ck_all P) (somes arr)"
    and r: "or_normalize h neg arr chk = Some r"
  shows "ck_all P r"
proof -
  have "list_all (ck_all P) (or_unique h arr)"
    using or_unique_subset[of h arr] all or_terms_all by (fastforce simp: list_all_iff)
  moreover have "or_unique h arr \<noteq> [] \<Longrightarrow> hd (or_unique h arr) \<in> set (or_unique h arr)" by simp
  ultimately show ?thesis
    using r P by (auto simp: or_normalize_eq constants_allowed_def list_all_iff simp del: hd_in_set split: if_splits)
qed

lemma or_normalize_None:
  assumes "list_all (ck_all P) (somes arr)"
  shows "or_normalize h neg arr chk = None \<longleftrightarrow> somes arr = []"
proof -
  have "or_flat arr = [] \<Longrightarrow> CkFalse \<notin> set (somes arr) \<Longrightarrow> somes arr = []"
    using assms or_terms_Nil by (cases "somes arr") (auto simp: list_all_iff)
  then show ?thesis by (auto simp: or_normalize_eq)
qed

lemma distribute_step_all:
  assumes P: "constants_allowed P" and all: "list_all (ck_all P) (others @ [s, CkOr os])"
    and ac: "\<And>a b. ck_all P a \<Longrightarrow> ck_all P b \<Longrightarrow> \<exists>r. ac [Some a, Some b] = Some r \<and> ck_all P r"
  obtains rs r where "map (\<lambda>el. ac [Some el, Some s]) os = map Some rs" "list_all (ck_all P) rs" "rs \<noteq> []"
    "or_normalize h neg (map Some rs) (others = []) = Some r" "ck_all P r"
    "distribute_step h ac (or_normalize h neg) others s os = ck_sort h (others @ [r])"
proof -
  have os: "list_all (ck_all P) os" "os \<noteq> []" and s: "ck_all P s" using all by auto
  define rs where "rs = map (\<lambda>el. the (ac [Some el, Some s])) os"
  have "ac [Some el, Some s] = Some (the (ac [Some el, Some s])) \<and> ck_all P (the (ac [Some el, Some s]))"
    if "el \<in> set os" for el
    using ac[of el s] that os s by (auto simp: list_all_iff)
  then have rs: "map (\<lambda>el. ac [Some el, Some s]) os = map Some rs" "list_all (ck_all P) rs" "rs \<noteq> []"
    using os by (auto simp: rs_def list_all_iff)
  have a: "list_all (ck_all P) (somes (map Some rs))" using rs by simp
  obtain r where r: "or_normalize h neg (map Some rs) (others = []) = Some r"
    using or_normalize_None[OF a, of h neg "others = []"] rs(3) by auto
  show ?thesis
    by (rule that[OF rs r or_normalize_all[OF P a r]]) (simp add: distribute_step_def rs(1) r)
qed

lemma and_normalize_None:
  assumes "list_all (ck_all P) (somes arr)"
  shows "and_normalize h neg d arr chk = None \<longleftrightarrow> somes arr = []"
proof -
  have "and_flat arr = [] \<Longrightarrow> CkTrue \<notin> set (somes arr) \<Longrightarrow> somes arr = []"
    using assms and_terms_Nil by (cases "somes arr") (auto simp: list_all_iff)
  then show ?thesis by (auto simp: and_normalize_eq)
qed

abbreviation all_terms :: "(ckexpr \<Rightarrow> bool) \<Rightarrow> ckexpr list \<Rightarrow> bool" where
  "all_terms P es \<equiv> es \<noteq> [] \<and> list_all (ck_all P) es"

lemma and_distributed_all_aux:
  assumes P: "constants_allowed P" and all: "list_all (ck_all P) (somes arr)" and ne: "and_flat arr \<noteq> []"
    and IH: "\<And>d' a b. d = Suc d' \<Longrightarrow> ck_all P a \<Longrightarrow> ck_all P b \<Longrightarrow>
               \<exists>r. and_normalize h neg d' [Some a, Some b] chk = Some r \<and> ck_all P r"
  shows "all_terms P (and_distributed h neg d arr chk)"
proof -
  have u: "all_terms P (and_unique h arr)"
    using and_unique_subset[of h arr] ne all and_terms_all by (fastforce simp: list_all_iff)
  show ?thesis
  proof (cases d)
    case (Suc d')
    have "all_terms P (and_distribute h (\<lambda>a. and_normalize h neg d' a chk) (or_normalize h neg) (and_unique h arr))"
    proof (rule and_distribute_invariant[where I = "all_terms P", OF u])
      fix others s os
      assume a: "all_terms P (others @ [s, CkOr os])"
      obtain rs r where "ck_all P r"
        "distribute_step h (\<lambda>a. and_normalize h neg d' a chk) (or_normalize h neg) others s os = ck_sort h (others @ [r])"
        using distribute_step_all[OF P conjunct2[OF a], of "\<lambda>a. and_normalize h neg d' a chk" h neg] IH[OF Suc] by metis
      then show "all_terms P (distribute_step h (\<lambda>a. and_normalize h neg d' a chk) (or_normalize h neg) others s os)"
        using a by (simp add: list_all_iff)
    qed
    then show ?thesis by (simp add: and_distributed_def Suc)
  qed (use u in \<open>simp add: and_distributed_def\<close>)
qed

lemma and_normalize_all:
  assumes P: "constants_allowed P"
  shows "list_all (ck_all P) (somes arr) \<Longrightarrow> and_normalize h neg d arr chk = Some r \<Longrightarrow> ck_all P r"
proof (induction d arbitrary: arr r rule: less_induct)
  case (less d)
  have IH: "\<exists>r. and_normalize h neg d' [Some a, Some b] chk = Some r \<and> ck_all P r"
    if "d = Suc d'" "ck_all P a" "ck_all P b" for d' a b
  proof -
    have l: "list_all (ck_all P) (somes [Some a, Some b])" using that by simp
    then obtain r where r: "and_normalize h neg d' [Some a, Some b] chk = Some r"
      using and_normalize_None[OF l, of h neg d' chk] by auto
    then show ?thesis using less.IH[of d', OF _ l r] that(1) by simp
  qed
  show ?case
  proof (cases "CkFalse \<in> set (somes arr) \<or> and_flat arr = []")
    case False
    then have d: "all_terms P (and_distributed h neg d arr chk)"
      using and_distributed_all_aux[OF P less.prems(1) _ IH] by blast
    moreover have "hd (and_distributed h neg d arr chk) \<in> set (and_distributed h neg d arr chk)"
      using d by simp
    ultimately show ?thesis
      using less.prems(2) False P
      by (auto simp: and_normalize_eq constants_allowed_def list_all_iff simp del: hd_in_set split: if_splits)
  qed (use less.prems P in \<open>auto simp: and_normalize_eq constants_allowed_def split: if_splits\<close>)
qed

lemma and_distributed_all:
  assumes P: "constants_allowed P" and all: "list_all (ck_all P) (somes arr)" and ne: "and_flat arr \<noteq> []"
  shows "all_terms P (and_distributed h neg d arr chk)"
proof (rule and_distributed_all_aux[OF assms])
  fix d' a b
  assume "ck_all P a" "ck_all P b"
  then have l: "list_all (ck_all P) (somes [Some a, Some b])" by simp
  then obtain r where "and_normalize h neg d' [Some a, Some b] chk = Some r"
    using and_normalize_None[OF l, of h neg d' chk] by auto
  then show "\<exists>r. and_normalize h neg d' [Some a, Some b] chk = Some r \<and> ck_all P r"
    using and_normalize_all[OF P l] by blast
qed

section \<open>Normalisation keeps the meaning\<close>

text \<open>
  What a context has to agree with for an expression without operands: the constants have the value the
  context gives, a comparison is one of numbers, and two regular expressions with one source have the same flags.
\<close>

fun leaf_ok :: "ck_host \<Rightarrow> ck_env \<Rightarrow> (jsstring \<Rightarrow> jsstring) \<Rightarrow> ckexpr \<Rightarrow> bool" where
  "leaf_ok h env F (CkDefined k) = (case ch_constant h k of None \<Rightarrow> True | Some c \<Rightarrow> truthy (ce_getValue env k) = c)"
| "leaf_ok h env F (CkNot k) = (case ch_constant h k of None \<Rightarrow> True | Some c \<Rightarrow> truthy (ce_getValue env k) = c)"
| "leaf_ok h env F (CkEquals k v) =
     (case ch_constant h k of None \<Rightarrow> True | Some c \<Rightarrow> ce_looseEq env (ce_getValue env k) v = (v = bool_text c))"
| "leaf_ok h env F (CkNotEquals k v) =
     (case ch_constant h k of None \<Rightarrow> True | Some c \<Rightarrow> ce_looseEq env (ce_getValue env k) v = (v = bool_text c))"
| "leaf_ok h env F (CkRegex k r) =
     (case r of None \<Rightarrow> True | Some x \<Rightarrow> rx_source x \<noteq> [] \<and> rx_flags x = F (rx_source x))"
| "leaf_ok h env F (CkNotRegex k r) =
     (case r of None \<Rightarrow> True | Some x \<Rightarrow> rx_source x \<noteq> [] \<and> rx_flags x = F (rx_source x))"
| "leaf_ok h env F (CkGreater k v) = ((case v of NumV _ \<Rightarrow> True | StrV _ \<Rightarrow> False) \<and> ce_parseFloat env (ce_getValue env k) \<noteq> None)"
| "leaf_ok h env F (CkGreaterEquals k v) = ((case v of NumV _ \<Rightarrow> True | StrV _ \<Rightarrow> False) \<and> ce_parseFloat env (ce_getValue env k) \<noteq> None)"
| "leaf_ok h env F (CkSmaller k v) = ((case v of NumV _ \<Rightarrow> True | StrV _ \<Rightarrow> False) \<and> ce_parseFloat env (ce_getValue env k) \<noteq> None)"
| "leaf_ok h env F (CkSmallerEquals k v) = ((case v of NumV _ \<Rightarrow> True | StrV _ \<Rightarrow> False) \<and> ce_parseFloat env (ce_getValue env k) \<noteq> None)"
| "leaf_ok h env F _ = True"

abbreviation ck_ok :: "ck_host \<Rightarrow> ck_env \<Rightarrow> (jsstring \<Rightarrow> jsstring) \<Rightarrow> ckexpr \<Rightarrow> bool" where
  "ck_ok h env F \<equiv> ck_all (leaf_ok h env F)"

lemma constants_allowed_ok [simp]: "constants_allowed (leaf_ok h env F)"
  by (simp add: constants_allowed_def)

lemma leaf_equals_evaluate:
  assumes "leaf_ok h env F a" "leaf_ok h env F b" "leaf_equals a b"
  shows "ck_evaluate env a = ck_evaluate env b"
proof -
  have r: "r = s"
    if "regex_source r = regex_source s"
      and "case r of None \<Rightarrow> True | Some x \<Rightarrow> rx_source x \<noteq> [] \<and> rx_flags x = F (rx_source x)"
      and "case s of None \<Rightarrow> True | Some x \<Rightarrow> rx_source x \<noteq> [] \<and> rx_flags x = F (rx_source x)" for r s
    using that by (auto simp: regex_source_def split: option.splits)
  show ?thesis
  proof (cases "(\<exists>k s. a = CkRegex k s) \<or> (\<exists>k s. a = CkNotRegex k s)")
    case True
    then show ?thesis
    proof
      assume "\<exists>k s. a = CkRegex k s"
      then obtain k s where a: "a = CkRegex k s" by blast
      then obtain t where b: "b = CkRegex k t" "regex_source s = regex_source t"
        using assms(3) by (auto split: ckexpr.splits)
      then have "s = t" using r[of s t] assms(1,2) a by simp
      then show ?thesis using a b by simp
    next
      assume "\<exists>k s. a = CkNotRegex k s"
      then obtain k s where a: "a = CkNotRegex k s" by blast
      then obtain t where b: "b = CkNotRegex k t" "regex_source s = regex_source t"
        using assms(3) by (auto split: ckexpr.splits)
      then have "s = t" using r[of s t] assms(1,2) a by simp
      then show ?thesis using a b by simp
    qed
  next
    case False
    then have "a = b" using assms(3) by (cases a) auto
    then show ?thesis by simp
  qed
qed

lemma ck_equals_evaluate:
  "ck_equals a b \<Longrightarrow> ck_ok h env F a \<Longrightarrow> ck_ok h env F b \<Longrightarrow> ck_evaluate env a = ck_evaluate env b"
  "ck_equalss xs ys \<Longrightarrow> length xs = length ys \<Longrightarrow> list_all (ck_ok h env F) xs \<Longrightarrow> list_all (ck_ok h env F) ys \<Longrightarrow>
     map (ck_evaluate env) xs = map (ck_evaluate env) ys"
proof (induction a b and xs ys rule: ck_equals_ck_equalss.induct)
  case (1 a b)
  have lists: "list_all (ck_evaluate env) xs = list_all (ck_evaluate env) ys \<and>
      list_ex (ck_evaluate env) xs = list_ex (ck_evaluate env) ys"
    if "map (ck_evaluate env) xs = map (ck_evaluate env) ys" for xs ys
    using arg_cong[OF that, of "list_all (\<lambda>b. b)"] arg_cong[OF that, of "list_ex (\<lambda>b. b)"]
    by (simp add: list.pred_map list_ex_iff list_all_iff)
  show ?case
  proof (cases "is_leaf a")
    case True
    then have "leaf_equals a b" using 1(3) by (cases a) (auto simp: ck_equals.simps split: if_splits)
    moreover have "is_leaf b" using \<open>leaf_equals a b\<close> True by (cases a; cases b) auto
    ultimately show ?thesis using leaf_equals_evaluate True 1(4,5) ck_all_leaf by metis
  next
    case False
    then consider xs where "a = CkAnd xs" | xs where "a = CkOr xs" by (cases a) auto
    then show ?thesis
    proof cases
      case (1 xs)
      then obtain ys where b: "b = CkAnd ys" "length xs = length ys" "ck_equalss xs ys"
        using \<open>ck_equals a b\<close> by (auto simp: ck_equals.simps split: if_splits ckexpr.splits)
      then show ?thesis
        using "1.IH"(1)[of xs ys] "1.prems" lists[of xs ys] \<open>a = CkAnd xs\<close> by simp
    next
      case (2 xs)
      then obtain ys where b: "b = CkOr ys" "length xs = length ys" "ck_equalss xs ys"
        using \<open>ck_equals a b\<close> by (auto simp: ck_equals.simps split: if_splits ckexpr.splits)
      then show ?thesis
        using "1.IH"(2)[of xs ys] "1.prems" lists[of xs ys] \<open>a = CkOr xs\<close> by simp
    qed
  qed
qed (auto simp: ck_equals.simps)

lemma ck_dedupe_evaluate:
  assumes "list_all (ck_ok h env F) es"
  shows "list_ex (ck_evaluate env) (ck_dedupe es) = list_ex (ck_evaluate env) es \<and>
         list_all (ck_evaluate env) (ck_dedupe es) = list_all (ck_evaluate env) es"
  using assms
proof (induction es rule: ck_dedupe.induct)
  case (1 x y zs)
  show ?case
  proof (cases "ck_equals x y")
    case True
    then have "ck_evaluate env x = ck_evaluate env y" using ck_equals_evaluate(1)[OF True, of h env F] 1(3) by simp
    then show ?thesis using True 1 by auto
  qed (use 1 in auto)
qed auto

lemma or_terms_evaluate: "list_ex (ck_evaluate env) (or_terms e) = ck_evaluate env e"
  by (cases e) auto

lemma and_terms_evaluate: "list_all (ck_evaluate env) (and_terms e) = ck_evaluate env e"
  by (cases e) auto

lemma list_ex_map_id: "list_ex p xs = (True \<in> set (map p xs))"
  by (auto simp: list_ex_iff)

lemma list_all_Nil: "list_all p []"
  by simp

lemma list_ex_Nil: "list_ex p [] = False"
  by simp

lemma list_all_concat_terms: "list_all p (concat (map f xs)) = list_all (\<lambda>x. list_all p (f x)) xs"
  by (induction xs) auto

lemma list_ex_concat_terms: "list_ex p (concat (map f xs)) = list_ex (\<lambda>x. list_ex p (f x)) xs"
  by (induction xs) auto

lemma list_all_set_cong: "set xs = set ys \<Longrightarrow> list_all p xs = list_all p ys"
  by (simp add: list_all_iff)

lemma list_ex_set_cong: "set xs = set ys \<Longrightarrow> list_ex p xs = list_ex p ys"
  by (simp add: list_ex_iff)

lemma flat_ok:
  assumes "list_all (ck_all P) (somes arr)"
  shows "list_all (ck_all P) (or_flat arr)" "list_all (ck_all P) (and_flat arr)"
  using assms by (auto simp: list_all_iff dest: or_terms_all and_terms_all)

lemma or_unique_evaluate:
  assumes "list_all (ck_ok h env F) (somes arr)"
  shows "list_ex (ck_evaluate env) (or_unique h arr) = list_ex (ck_evaluate env) (somes arr)"
proof -
  have "list_all (ck_ok h env F) (ck_sort h (or_flat arr))" using flat_ok(1)[OF assms] by (simp add: list_all_iff)
  then have "list_ex (ck_evaluate env) (or_unique h arr) = list_ex (ck_evaluate env) (ck_sort h (or_flat arr))"
    using ck_dedupe_evaluate unfolding or_unique_def by metis
  also have "\<dots> = list_ex (ck_evaluate env) (or_flat arr)" by (rule list_ex_set_cong) simp
  finally show ?thesis unfolding list_ex_concat_terms or_terms_evaluate .
qed

lemma and_unique_evaluate:
  assumes "list_all (ck_ok h env F) (somes arr)"
  shows "list_all (ck_evaluate env) (and_unique h arr) = list_all (ck_evaluate env) (somes arr)"
proof -
  have "list_all (ck_ok h env F) (ck_sort h (and_flat arr))" using flat_ok(2)[OF assms] by (simp add: list_all_iff)
  then have "list_all (ck_evaluate env) (and_unique h arr) = list_all (ck_evaluate env) (ck_sort h (and_flat arr))"
    using ck_dedupe_evaluate unfolding and_unique_def by metis
  also have "\<dots> = list_all (ck_evaluate env) (and_flat arr)" by (rule list_all_set_cong) simp
  finally show ?thesis unfolding list_all_concat_terms and_terms_evaluate .
qed

text \<open>A negation that gives the opposite truth value.\<close>

definition negates :: "ck_host \<Rightarrow> ck_env \<Rightarrow> (jsstring \<Rightarrow> jsstring) \<Rightarrow> (ckexpr \<Rightarrow> ckexpr) \<Rightarrow> ckexpr \<Rightarrow> bool" where
  "negates h env F neg e = (ck_ok h env F (neg e) \<and> ck_evaluate env (neg e) = (\<not> ck_evaluate env e))"

lemma complement_evaluate:
  assumes "has_complement neg es" "\<forall>e \<in> set es. ck_ok h env F e \<and> negates h env F neg e"
  shows "list_ex (ck_evaluate env) es \<and> \<not> list_all (ck_evaluate env) es"
proof -
  obtain a b where ab: "a \<in> set es" "b \<in> set es" "ck_equals (neg a) b" using has_complementD[OF assms(1)] by blast
  then have "ck_evaluate env (neg a) = ck_evaluate env b"
    using ck_equals_evaluate(1)[OF ab(3)] assms(2) by (auto simp: negates_def)
  then have "ck_evaluate env b = (\<not> ck_evaluate env a)" using assms(2) ab by (auto simp: negates_def)
  then show ?thesis using ab by (auto simp: list_ex_iff list_all_iff)
qed

lemma or_normalize_evaluate:
  assumes ok: "list_all (ck_ok h env F) (somes arr)"
    and neg: "chk \<Longrightarrow> list_all (negates h env F neg) (or_flat arr)"
    and r: "or_normalize h neg arr chk = Some r"
  shows "ck_evaluate env r = list_ex (ck_evaluate env) (somes arr)"
proof (cases "CkTrue \<in> set (somes arr) \<or> or_flat arr = []")
  case True
  then show ?thesis
  proof
    assume "CkTrue \<in> set (somes arr)"
    then show ?thesis using r by (force simp: or_normalize_eq list_ex_iff)
  next
    assume e: "or_flat arr = []"
    then have "list_ex (ck_evaluate env) (or_flat arr) = False" by (simp only: list_ex_Nil)
    then have "\<not> list_ex (ck_evaluate env) (somes arr)" unfolding list_ex_concat_terms or_terms_evaluate by simp
    then show ?thesis using r e by (force simp: or_normalize_eq list_ex_iff split: if_splits)
  qed
next
  case False
  let ?u = "or_unique h arr"
  note u = or_unique_evaluate[OF ok]
  have c: "list_ex (ck_evaluate env) ?u" if "chk" "has_complement neg ?u"
  proof -
    have "\<forall>e \<in> set ?u. ck_ok h env F e \<and> negates h env F neg e"
      using neg[OF that(1)] flat_ok(1)[OF ok] or_unique_subset[of h arr] unfolding list_all_iff by blast
    then show ?thesis using complement_evaluate[OF that(2)] by blast
  qed
  have single: "list_ex p xs = p (hd xs)" if "length xs = 1" for p and xs :: "ckexpr list"
    using that by (cases xs) auto
  show ?thesis using False r c single[of ?u] u by (auto simp: or_normalize_eq split: if_splits)
qed

lemma and_distribute_evaluate:
  assumes es: "all_terms (leaf_ok h env F) es"
    and ac: "\<And>a b. ck_ok h env F a \<Longrightarrow> ck_ok h env F b \<Longrightarrow>
               \<exists>r. ac [Some a, Some b] = Some r \<and> ck_ok h env F r \<and>
                   ck_evaluate env r = (ck_evaluate env a \<and> ck_evaluate env b)"
    and neg: "\<And>e. ck_ok h env F e \<Longrightarrow> negates h env F neg e"
  shows "list_all (ck_evaluate env) (and_distribute h ac (or_normalize h neg) es) = list_all (ck_evaluate env) es"
proof -
  let ?I = "\<lambda>xs. all_terms (leaf_ok h env F) xs \<and> list_all (ck_evaluate env) xs = list_all (ck_evaluate env) es"
  have "?I (and_distribute h ac (or_normalize h neg) es)"
  proof (rule and_distribute_invariant[where I = ?I])
    fix others s os
    assume a: "?I (others @ [s, CkOr os])"
    have ac': "\<exists>r. ac [Some a, Some b] = Some r \<and> ck_ok h env F r" if "ck_ok h env F a" "ck_ok h env F b" for a b
      using ac[OF that] by blast
    obtain rs r where rs: "map (\<lambda>el. ac [Some el, Some s]) os = map Some rs" "list_all (ck_ok h env F) rs"
      "or_normalize h neg (map Some rs) (others = []) = Some r" "ck_ok h env F r"
      "distribute_step h ac (or_normalize h neg) others s os = ck_sort h (others @ [r])"
      using distribute_step_all[where P = "leaf_ok h env F" and ac = ac and others = others and s = s and os = os
          and h = h and neg = neg, OF constants_allowed_ok conjunct2[OF conjunct1[OF a]] ac'] by blast
    have "ck_evaluate env r = list_ex (ck_evaluate env) (somes (map Some rs))"
      by (rule or_normalize_evaluate[OF _ _ rs(3)])
        (use rs(2) neg flat_ok(1)[of "leaf_ok h env F" "map Some rs"] in \<open>auto simp: list_all_iff\<close>)
    then have "ck_evaluate env r = list_ex (ck_evaluate env) rs" by simp
    moreover have "map (ck_evaluate env) rs = map (\<lambda>el. ck_evaluate env el \<and> ck_evaluate env s) os"
    proof -
      have "map (ck_evaluate env) rs = map (\<lambda>o1. ck_evaluate env (the o1)) (map Some rs)" by simp
      also have "\<dots> = map (\<lambda>el. ck_evaluate env (the (ac [Some el, Some s]))) os" unfolding rs(1)[symmetric] by simp
      also have "\<dots> = map (\<lambda>el. ck_evaluate env el \<and> ck_evaluate env s) os"
      proof (rule map_cong[OF refl])
        fix el
        assume "el \<in> set os"
        then show "ck_evaluate env (the (ac [Some el, Some s])) = (ck_evaluate env el \<and> ck_evaluate env s)"
          using ac[of el s] a by (auto simp: list_all_iff)
      qed
      finally show ?thesis .
    qed
    then have "list_ex (ck_evaluate env) rs = (list_ex (ck_evaluate env) os \<and> ck_evaluate env s)"
      unfolding list_ex_map_id[of _ rs] by (auto simp: list_ex_iff)
    ultimately have "ck_evaluate env r = (list_ex (ck_evaluate env) os \<and> ck_evaluate env s)" by simp
    then show "?I (distribute_step h ac (or_normalize h neg) others s os)"
      using a rs(4) unfolding rs(5) by (auto simp: list_all_iff)
  qed (use es in simp)
  then show ?thesis by blast
qed

lemma and_normalize_evaluate:
  assumes neg: "\<And>e. ck_ok h env F e \<Longrightarrow> negates h env F neg e"
  shows "list_all (ck_ok h env F) (somes arr) \<Longrightarrow> and_normalize h neg d arr chk = Some r \<Longrightarrow>
         ck_evaluate env r = list_all (ck_evaluate env) (somes arr)"
proof (induction d arbitrary: arr r)
  have step: "ck_evaluate env r = list_all (ck_evaluate env) (somes arr)"
    if ok: "list_all (ck_ok h env F) (somes arr)" and r: "and_normalize h neg d arr chk = Some r"
      and D: "and_flat arr \<noteq> [] \<Longrightarrow>
        list_all (ck_evaluate env) (and_distributed h neg d arr chk) = list_all (ck_evaluate env) (and_unique h arr)"
    for arr r d
  proof (cases "CkFalse \<in> set (somes arr) \<or> and_flat arr = []")
    case True
    then show ?thesis
    proof
      assume "CkFalse \<in> set (somes arr)"
      then show ?thesis using r by (force simp: and_normalize_eq list_all_iff)
    next
      assume e: "and_flat arr = []"
      then have "list_all (ck_evaluate env) (and_flat arr)" by (simp only: list_all_Nil)
      then have "list_all (ck_evaluate env) (somes arr)" unfolding list_all_concat_terms and_terms_evaluate .
      then show ?thesis using r e by (auto simp: and_normalize_eq list_all_iff split: if_splits)
    qed
  next
    case False
    let ?u = "and_distributed h neg d arr chk"
    have u: "list_all (ck_evaluate env) ?u = list_all (ck_evaluate env) (somes arr)"
      using D False and_unique_evaluate[OF ok] by simp
    have ok': "all_terms (leaf_ok h env F) ?u" using and_distributed_all[OF _ ok] False by simp
    have c: "\<not> list_all (ck_evaluate env) ?u" if "has_complement neg ?u"
      using complement_evaluate[OF that, of h env F] neg ok' by (auto simp: list_all_iff)
    have single: "list_all p xs = p (hd xs)" if "length xs = 1" for p and xs :: "ckexpr list"
      using that by (cases xs) auto
    show ?thesis using False r c single[of ?u] u by (auto simp: and_normalize_eq split: if_splits)
  qed
  {
    case 0
    show ?case by (rule step[OF 0]) (simp add: and_distributed_def)
  next
    case (Suc d)
    have ac: "\<exists>r. and_normalize h neg d [Some a, Some b] chk = Some r \<and> ck_ok h env F r \<and>
        ck_evaluate env r = (ck_evaluate env a \<and> ck_evaluate env b)" if "ck_ok h env F a" "ck_ok h env F b" for a b
    proof -
      have l: "list_all (ck_ok h env F) (somes [Some a, Some b])" using that by simp
      then obtain r where r: "and_normalize h neg d [Some a, Some b] chk = Some r"
        using and_normalize_None[OF l, of h neg d chk] by auto
      then show ?thesis using Suc.IH[OF l r] and_normalize_all[OF _ l r] by simp
    qed
    show ?case
    proof (rule step[OF Suc.prems])
      assume "and_flat arr \<noteq> []"
      then have "all_terms (leaf_ok h env F) (and_unique h arr)"
        using flat_ok(2)[OF Suc.prems(1)] and_unique_subset[of h arr] by (auto simp: list_all_iff)
      then show "list_all (ck_evaluate env) (and_distributed h neg (Suc d) arr chk) =
          list_all (ck_evaluate env) (and_unique h arr)"
        unfolding and_distributed_def nat.case by (rule and_distribute_evaluate[OF _ ac neg])
    qed
  }
qed

end
