(* ===== verification/ContextKeyNegation.thy ===== *)
theory ContextKeyNegation
  imports ContextKeyForms
begin

text \<open>
  The negation of context key expressions: its results are in disjunctive normal form and mean the opposite, and the
  bounds of the model on nested negations and on the depth of the distribution are enough.
\<close>

section \<open>Negation\<close>

subsection \<open>Disjunctive normal form\<close>

text \<open>Neither a constant nor an expression with operands; a conjunction of those; a disjunction of these.\<close>

definition literal :: "ckexpr \<Rightarrow> bool" where
  "literal e = (is_leaf e \<and> e \<noteq> CkTrue \<and> e \<noteq> CkFalse)"

definition conj_term :: "ckexpr \<Rightarrow> bool" where
  "conj_term e = (case e of CkAnd es \<Rightarrow> es \<noteq> [] \<and> list_all literal es | _ \<Rightarrow> literal e)"

definition const_or_term :: "ckexpr \<Rightarrow> bool" where
  "const_or_term e = (e = CkTrue \<or> e = CkFalse \<or> conj_term e)"

definition dnf :: "ckexpr \<Rightarrow> bool" where
  "dnf e = (case e of CkOr es \<Rightarrow> es \<noteq> [] \<and> list_all conj_term es | _ \<Rightarrow> const_or_term e)"

lemma literal_simps [simp]:
  "\<not> literal CkTrue" "\<not> literal CkFalse" "\<not> literal (CkOr es)" "\<not> literal (CkAnd es)"
  by (simp_all add: literal_def)

lemma conj_term_simps [simp]:
  "conj_term (CkAnd es) = (es \<noteq> [] \<and> list_all literal es)" "\<not> conj_term (CkOr es)" "\<not> conj_term CkTrue" "\<not> conj_term CkFalse"
  by (simp_all add: conj_term_def)

lemma literal_conj_term: "literal e \<Longrightarrow> conj_term e"
  by (cases e) (auto simp: conj_term_def)

lemma dnf_simps [simp]:
  "dnf (CkOr es) = (es \<noteq> [] \<and> list_all conj_term es)" "dnf CkTrue" "dnf CkFalse"
  "dnf (CkAnd es) = (es \<noteq> [] \<and> list_all literal es)"
  by (simp_all add: dnf_def const_or_term_def)

lemma const_or_term_dnf: "const_or_term e \<Longrightarrow> dnf e"
  by (cases e) (auto simp: dnf_def const_or_term_def)

lemma leaf_dnf: "is_leaf e \<Longrightarrow> dnf e"
  by (cases e) (auto simp: dnf_def const_or_term_def conj_term_def literal_def)

lemma conj_term_dnf: "conj_term e \<Longrightarrow> dnf e"
  by (simp add: const_or_term_dnf const_or_term_def)

lemma and_terms_literal: "const_or_term e \<Longrightarrow> e \<noteq> CkFalse \<Longrightarrow> x \<in> set (and_terms e) \<Longrightarrow> literal x"
  by (cases e) (auto simp: const_or_term_def conj_term_def list_all_iff)

lemma or_terms_conj_term: "dnf e \<Longrightarrow> e \<noteq> CkTrue \<Longrightarrow> x \<in> set (or_terms e) \<Longrightarrow> conj_term x"
  by (cases e) (auto simp: dnf_def const_or_term_def list_all_iff)

lemma dnf_or_terms_Nil: "dnf e \<Longrightarrow> or_terms e = [] \<longleftrightarrow> e = CkFalse"
  by (cases e) auto

lemma const_or_term_and_terms_Nil: "const_or_term e \<Longrightarrow> and_terms e = [] \<longleftrightarrow> e = CkTrue"
  by (cases e) (auto simp: const_or_term_def)

lemma or_normalize_dnf:
  assumes all: "list_all dnf (somes arr)" and ne: "somes arr \<noteq> []"
  shows "\<exists>r. or_normalize h neg arr chk = Some r \<and> dnf r"
proof (cases "CkTrue \<in> set (somes arr) \<or> or_flat arr = []")
  case True
  moreover have "CkFalse \<in> set (somes arr)" if "or_flat arr = []"
    using that all ne dnf_or_terms_Nil by (cases "somes arr") (auto simp: list_all_iff)
  ultimately show ?thesis by (auto simp: or_normalize_eq)
next
  case False
  then have u: "or_unique h arr \<noteq> []" "list_all conj_term (or_unique h arr)"
    using or_unique_subset[of h arr] all by (auto simp: list_all_iff dest!: or_terms_conj_term subsetD)
  then have "dnf (hd (or_unique h arr))" by (cases "or_unique h arr") (auto simp: conj_term_dnf)
  then show ?thesis using u False by (auto simp: or_normalize_eq)
qed

lemma or_unique_conj_term:
  assumes "list_all dnf (somes arr)" "CkTrue \<notin> set (somes arr)" "e \<in> set (or_unique h arr)"
  shows "conj_term e"
  using or_unique_subset[of h arr] assms by (auto simp: list_all_iff dest!: or_terms_conj_term subsetD)

lemma or_normalize_cong:
  assumes "\<And>e. CkTrue \<notin> set (somes arr) \<Longrightarrow> chk \<Longrightarrow> e \<in> set (or_unique h arr) \<Longrightarrow> neg e = neg' e"
  shows "or_normalize h neg arr chk = or_normalize h neg' arr chk"
  using assms has_complement_cong[of "or_unique h arr" neg neg'] by (auto simp: or_normalize_eq)

lemma or_normalize_cong_dnf:
  assumes "list_all dnf (somes arr)" "\<And>e. conj_term e \<Longrightarrow> neg e = neg' e"
  shows "or_normalize h neg arr chk = or_normalize h neg' arr chk"
  by (rule or_normalize_cong) (use assms or_unique_conj_term in blast)

lemma and_unique_literal:
  assumes "list_all const_or_term (somes arr)" "CkFalse \<notin> set (somes arr)" "e \<in> set (and_unique h arr)"
  shows "literal e"
  using and_unique_subset[of h arr] assms by (auto simp: list_all_iff dest!: and_terms_literal subsetD)

lemma and_distributed_terms:
  assumes "list_all const_or_term (somes arr)" "CkFalse \<notin> set (somes arr)"
  shows "and_distributed h neg d arr chk = and_unique h arr"
proof -
  have "last (and_unique h arr) \<noteq> CkOr os" if "\<not> length (and_unique h arr) \<le> 1" for os
  proof -
    have "last (and_unique h arr) \<in> set (and_unique h arr)" using that by (cases "and_unique h arr") auto
    then show ?thesis using and_unique_literal[OF assms] by fastforce
  qed
  then have "length (and_unique h arr) \<le> 1 \<or> (\<forall>os. last (and_unique h arr) \<noteq> CkOr os)" by blast
  then show ?thesis by (simp add: and_distributed_def and_distribute_stop split: nat.split)
qed

lemma and_normalize_terms:
  assumes all: "list_all const_or_term (somes arr)" and ne: "somes arr \<noteq> []"
  shows "\<exists>r. and_normalize h neg d arr chk = Some r \<and> const_or_term r"
proof (cases "CkFalse \<in> set (somes arr) \<or> and_flat arr = []")
  case True
  moreover have "CkTrue \<in> set (somes arr)" if "and_flat arr = []"
    using that all ne const_or_term_and_terms_Nil by (cases "somes arr") (auto simp: list_all_iff)
  ultimately show ?thesis by (auto simp: and_normalize_eq const_or_term_def)
next
  case False
  then have d: "and_distributed h neg d arr chk = and_unique h arr" using and_distributed_terms[OF all] by simp
  have u: "and_unique h arr \<noteq> []" "list_all literal (and_unique h arr)"
    using False and_unique_literal[OF all, of _ h] by (auto simp: list_all_iff)
  then have "literal (hd (and_unique h arr))" by (cases "and_unique h arr") auto
  then have "const_or_term (hd (and_unique h arr))" using literal_conj_term by (simp add: const_or_term_def)
  then show ?thesis using False u by (auto simp: and_normalize_eq d const_or_term_def)
qed

lemma and_normalize_terms_cong:
  assumes "list_all const_or_term (somes arr)"
  shows "and_normalize h neg d arr False = and_normalize h neg' d' arr False"
  using and_distributed_terms[OF assms] by (simp add: and_normalize_eq)

subsection \<open>The loop over the disjunctions\<close>

definition or_negate_product :: "ck_host \<Rightarrow> (ckexpr \<Rightarrow> ckexpr) \<Rightarrow> ckexpr \<Rightarrow> ckexpr \<Rightarrow> ckexpr list" where
  "or_negate_product h neg L R =
     concat (map (\<lambda>left. map (\<lambda>right.
       or_else (and_normalize h neg (or_depth left + or_depth right) [Some left, Some right] False))
       (getTerminals R)) (getTerminals L))"

lemma map_Some_concat: "concat (map (\<lambda>x. map (\<lambda>y. Some (f x y)) ys) xs) = map Some (concat (map (\<lambda>x. map (f x) ys) xs))"
  by (induction xs) auto

lemma or_negate_loop_step:
  "or_negate_loop h neg (L # R # es) =
     or_negate_loop h neg (or_else (or_normalize h neg (map Some (or_negate_product h neg L R)) False) # es)"
  by (simp only: or_negate_loop.simps(1) or_negate_product_def map_Some_concat)

declare or_negate_loop.simps(1) [simp del]

lemma getTerminals_terms: "dnf e \<Longrightarrow> getTerminals e \<noteq> [] \<and> list_all const_or_term (getTerminals e)"
  by (cases e) (auto simp: getTerminals_def dnf_def const_or_term_def list_all_iff)

lemma getTerminals_evaluate: "list_ex (ck_evaluate env) (getTerminals e) = ck_evaluate env e"
  by (cases e) (auto simp: getTerminals_def)

lemma getTerminals_all: "ck_all P e \<Longrightarrow> list_all (ck_all P) (getTerminals e)"
  by (cases e) (auto simp: getTerminals_def)

text \<open>The conjunction of two terms; the negation given is not asked for.\<close>

lemma and_pair:
  assumes "const_or_term l" "const_or_term r"
  shows "const_or_term (or_else (and_normalize h neg d [Some l, Some r] False))"
    and "constants_allowed P \<Longrightarrow> ck_all P l \<Longrightarrow> ck_all P r \<Longrightarrow> ck_all P (or_else (and_normalize h neg d [Some l, Some r] False))"
    and "ck_ok h env F l \<Longrightarrow> ck_ok h env F r \<Longrightarrow>
         ck_evaluate env (or_else (and_normalize h neg d [Some l, Some r] False)) = (ck_evaluate env l \<and> ck_evaluate env r)"
    and "and_normalize h neg d [Some l, Some r] False = and_normalize h neg' d' [Some l, Some r] False"
proof -
  have t: "list_all const_or_term (somes [Some l, Some r])" using assms by simp
  obtain x where x: "and_normalize h neg d [Some l, Some r] False = Some x" "const_or_term x"
    using and_normalize_terms[OF t] by fastforce
  show "const_or_term (or_else (and_normalize h neg d [Some l, Some r] False))" using x by (simp add: or_else_def)
  show "ck_all P (or_else (and_normalize h neg d [Some l, Some r] False))"
    if "constants_allowed P" "ck_all P l" "ck_all P r"
    using and_normalize_all[OF that(1) _ x(1)] that x(1) by (simp add: or_else_def)
  show "and_normalize h neg d [Some l, Some r] False = and_normalize h neg' d' [Some l, Some r] False"
    by (rule and_normalize_terms_cong[OF t])
  show "ck_evaluate env (or_else (and_normalize h neg d [Some l, Some r] False)) = (ck_evaluate env l \<and> ck_evaluate env r)"
    if ok: "ck_ok h env F l" "ck_ok h env F r"
  proof -
    let ?ideal = "\<lambda>e. if ck_evaluate env e then CkFalse else CkTrue"
    have n: "negates h env F ?ideal e" for e by (simp add: negates_def)
    have "and_normalize h ?ideal d [Some l, Some r] False = Some x"
      using and_normalize_terms_cong[OF t, of h neg d ?ideal d] x(1) by simp
    then have "ck_evaluate env x = list_all (ck_evaluate env) (somes [Some l, Some r])"
      by (rule and_normalize_evaluate[OF n, rotated]) (use ok in simp)
    then show ?thesis using x(1) by (simp add: or_else_def)
  qed
qed

lemma or_else_normalize:
  assumes "list_all dnf es" "es \<noteq> []"
  shows "dnf (or_else (or_normalize h neg (map Some es) chk))"
    and "constants_allowed P \<Longrightarrow> list_all (ck_all P) es \<Longrightarrow> ck_all P (or_else (or_normalize h neg (map Some es) chk))"
    and "list_all (ck_ok h env F) es \<Longrightarrow> (chk \<Longrightarrow> \<forall>e. conj_term e \<longrightarrow> ck_ok h env F e \<longrightarrow> negates h env F neg e) \<Longrightarrow>
         ck_evaluate env (or_else (or_normalize h neg (map Some es) chk)) = list_ex (ck_evaluate env) es"
proof -
  have d: "list_all dnf (somes (map Some es))" "somes (map Some es) \<noteq> []" using assms by simp_all
  obtain x where x: "or_normalize h neg (map Some es) chk = Some x" "dnf x" using or_normalize_dnf[OF d] by blast
  show "dnf (or_else (or_normalize h neg (map Some es) chk))" using x by (simp add: or_else_def)
  show "ck_all P (or_else (or_normalize h neg (map Some es) chk))" if "constants_allowed P" "list_all (ck_all P) es"
    using or_normalize_all[OF that(1) _ x(1)] that x(1) by (simp add: or_else_def)
  show "ck_evaluate env (or_else (or_normalize h neg (map Some es) chk)) = list_ex (ck_evaluate env) es"
    if ok: "list_all (ck_ok h env F) es" and n: "chk \<Longrightarrow> \<forall>e. conj_term e \<longrightarrow> ck_ok h env F e \<longrightarrow> negates h env F neg e"
  proof (cases "CkTrue \<in> set es")
    case True
    then show ?thesis by (force simp: or_normalize_eq or_else_def list_ex_iff)
  next
    case False
    have "list_all (negates h env F neg) (or_flat (map Some es))" if "chk"
      using n[OF that] ok assms(1) False
      by (auto simp: list_all_iff dest: or_terms_all or_terms_conj_term) (metis or_terms_all or_terms_conj_term)
    then have "ck_evaluate env x = list_ex (ck_evaluate env) (somes (map Some es))"
      by (intro or_normalize_evaluate[OF _ _ x(1)]) (use ok in simp_all)
    then show ?thesis using x(1) by (simp add: or_else_def)
  qed
qed

lemma or_negate_product_props:
  assumes "dnf L" "dnf R"
  shows "list_all const_or_term (or_negate_product h neg L R)" "or_negate_product h neg L R \<noteq> []"
    and "constants_allowed P \<Longrightarrow> ck_all P L \<Longrightarrow> ck_all P R \<Longrightarrow> list_all (ck_all P) (or_negate_product h neg L R)"
    and "ck_ok h env F L \<Longrightarrow> ck_ok h env F R \<Longrightarrow>
         list_ex (ck_evaluate env) (or_negate_product h neg L R) = (ck_evaluate env L \<and> ck_evaluate env R)"
    and "or_negate_product h neg L R = or_negate_product h neg' L R"
proof -
  note tL = getTerminals_terms[OF assms(1)] and tR = getTerminals_terms[OF assms(2)]
  have t: "const_or_term l \<and> const_or_term r" if "l \<in> set (getTerminals L)" "r \<in> set (getTerminals R)" for l r
    using that tL tR by (simp add: list_all_iff)
  show "list_all const_or_term (or_negate_product h neg L R)"
    using t and_pair(1) by (auto simp: or_negate_product_def list_all_iff)
  show "or_negate_product h neg L R \<noteq> []" using tL tR by (cases "getTerminals L") (auto simp: or_negate_product_def)
  show "list_all (ck_all P) (or_negate_product h neg L R)" if "constants_allowed P" "ck_all P L" "ck_all P R"
    using t and_pair(2) that getTerminals_all[of P] by (auto simp: or_negate_product_def list_all_iff)
  show "or_negate_product h neg L R = or_negate_product h neg' L R"
    unfolding or_negate_product_def by (intro arg_cong[of _ _ concat] map_cong refl) (use t and_pair(4) in metis)
  show "list_ex (ck_evaluate env) (or_negate_product h neg L R) = (ck_evaluate env L \<and> ck_evaluate env R)"
    if ok: "ck_ok h env F L" "ck_ok h env F R"
  proof -
    have e: "ck_evaluate env (or_else (and_normalize h neg (or_depth l + or_depth r) [Some l, Some r] False)) =
        (ck_evaluate env l \<and> ck_evaluate env r)" if "l \<in> set (getTerminals L)" "r \<in> set (getTerminals R)" for l r
      using and_pair(3)[of l r h env F neg "or_depth l + or_depth r"] t[OF that] that ok
        getTerminals_all[of "leaf_ok h env F"] by (simp add: list_all_iff)
    have "list_ex (ck_evaluate env) (or_negate_product h neg L R) =
        (list_ex (ck_evaluate env) (getTerminals L) \<and> list_ex (ck_evaluate env) (getTerminals R))"
      by (auto simp: or_negate_product_def list_ex_iff e)
    then show ?thesis by (simp only: getTerminals_evaluate)
  qed
qed

lemma or_negate_loop_props:
  assumes "list_all dnf es" "es \<noteq> []"
  shows "\<exists>x. or_negate_loop h neg es = [x] \<and> dnf x \<and> or_negate_loop h neg' es = [x] \<and>
         (\<forall>P. constants_allowed P \<longrightarrow> list_all (ck_all P) es \<longrightarrow> ck_all P x) \<and>
         (\<forall>env F. list_all (ck_ok h env F) es \<longrightarrow> ck_evaluate env x = list_all (ck_evaluate env) es)"
  using assms
proof (induction "length es" arbitrary: es)
  case (Suc n)
  show ?case
  proof (cases es rule: remdups_adj.cases)
    case (3 L R rs)
    note es = this
    let ?p = "\<lambda>ng. or_negate_product h ng L R"
    let ?x = "\<lambda>ng. or_else (or_normalize h ng (map Some (?p ng)) False)"
    have d: "dnf L" "dnf R" using Suc.prems es by auto
    note pp = or_negate_product_props[OF d]
    have pd: "list_all dnf (?p ng)" for ng
      using pp(1)[of h ng] const_or_term_dnf by (auto simp: list_all_iff)
    note on = or_else_normalize[OF pd[of neg] pp(2)[of h neg], where chk = False and neg = neg and h = h]
    have same: "?x neg = ?x neg'"
      using pp(5)[of h neg neg'] or_normalize_cong[of "map Some (?p neg)" False h neg neg'] by simp
    obtain x where x: "or_negate_loop h neg (?x neg # rs) = [x]" "dnf x" "or_negate_loop h neg' (?x neg # rs) = [x]"
      "\<And>P. constants_allowed P \<Longrightarrow> list_all (ck_all P) (?x neg # rs) \<Longrightarrow> ck_all P x"
      "\<And>env F. list_all (ck_ok h env F) (?x neg # rs) \<Longrightarrow> ck_evaluate env x = list_all (ck_evaluate env) (?x neg # rs)"
      using Suc.hyps(1)[of "?x neg # rs"] Suc.hyps(2) Suc.prems on(1) es by auto
    have a: "ck_all P (?x neg)" if "constants_allowed P" "list_all (ck_all P) es" for P
      using on(2)[where P = P] pp(3)[of P h neg] that es by simp
    have e: "ck_evaluate env (?x neg) = (ck_evaluate env L \<and> ck_evaluate env R)" if "list_all (ck_ok h env F) es" for env F
      using on(3)[where env = env and F = F] pp(3)[of "leaf_ok h env F" h neg] pp(4)[of h env F neg] that es by simp
    show ?thesis
    proof (intro exI[of _ x] conjI allI impI)
      show "or_negate_loop h neg es = [x]" using x(1) by (simp only: es or_negate_loop_step)
      show "or_negate_loop h neg' es = [x]" using x(3) same by (simp only: es or_negate_loop_step)
      show "ck_all P x" if "constants_allowed P" "list_all (ck_all P) es" for P
        using x(4)[OF that(1)] a[OF that] that es by simp
      show "ck_evaluate env x = list_all (ck_evaluate env) es" if "list_all (ck_ok h env F) es" for env F
        using x(5)[of env F] e[OF that] a[OF constants_allowed_ok that] that es by simp
    qed (rule x(2))
  qed (use Suc in auto)
qed simp

subsection \<open>The negation of an expression\<close>

lemma leaf_negate_leaf: "is_leaf e \<Longrightarrow> is_leaf (leaf_negate h e)"
  by (cases e) (auto simp: leaf_negate_def Not_create_def Defined_create_def NotEquals_create_def Equals_create_def
      constant_expr_def SmallerEquals_create_def Smaller_create_def GreaterEquals_create_def Greater_create_def
      withFloatOrStr_def split: option.splits ck_value.splits)

lemma leaf_negate_negates:
  assumes "is_leaf e" "leaf_ok h env F e"
  shows "negates h env F (leaf_negate h) e"
  using assms by (cases e) (auto simp: negates_def leaf_negate_def Not_create_def Defined_create_def NotEquals_create_def
      Equals_create_def constant_expr_def SmallerEquals_create_def Smaller_create_def GreaterEquals_create_def
      Greater_create_def withFloatOrStr_def compare_evaluate_def split: option.splits ck_value.splits)

text \<open>The negation the redundancy check asks for, one bound lower.\<close>

definition inner_negate :: "ck_host \<Rightarrow> nat \<Rightarrow> ckexpr \<Rightarrow> ckexpr" where
  "inner_negate h bound = (case bound of 0 \<Rightarrow> leaf_negate h | Suc b \<Rightarrow> ck_negate h b)"

lemma ck_negate_leaf [simp]: "is_leaf e \<Longrightarrow> ck_negate h b e = leaf_negate h e"
  by (cases e) auto

lemma inner_negate_leaf [simp]: "is_leaf e \<Longrightarrow> inner_negate h b e = leaf_negate h e"
  by (simp add: inner_negate_def split: nat.split)

lemma ck_negate_And:
  "ck_negate h b (CkAnd es) = or_else (or_normalize h (inner_negate h b) (map Some (map (ck_negate h b) es)) True)"
  by (simp add: inner_negate_def comp_def)

lemma ck_negate_Or:
  "ck_negate h b (CkOr es) = or_else (or_normalize h (inner_negate h b)
     (map Some (or_negate_loop h (inner_negate h b) (map (ck_negate h b) es))) True)"
  by (simp add: inner_negate_def comp_def)

declare ck_negate.simps(1,2) [simp del]

lemma or_else_CkFalse_dnf: "dnf (or_else (or_normalize h neg [] chk))"
  by (simp add: or_normalize_eq or_else_def)

lemma ck_negate_dnf: "dnf (ck_negate h b e)"
proof (induction e)
  case (CkAnd es)
  then have a: "list_all dnf (map (ck_negate h b) es)" by (simp add: list_all_iff)
  show ?case
  proof (cases "es = []")
    case False
    then show ?thesis unfolding ck_negate_And using or_else_normalize(1)[OF a] by simp
  qed (simp add: ck_negate_And or_else_CkFalse_dnf)
next
  case (CkOr es)
  then have a: "list_all dnf (map (ck_negate h b) es)" by (simp add: list_all_iff)
  show ?case
  proof (cases "es = []")
    case False
    then obtain x where "or_negate_loop h (inner_negate h b) (map (ck_negate h b) es) = [x]" "dnf x"
      using or_negate_loop_props[OF a] by blast
    then show ?thesis unfolding ck_negate_Or using or_else_normalize(1)[of "[x]"] by simp
  qed (simp add: ck_negate_Or or_else_CkFalse_dnf)
qed (simp_all add: leaf_negate_leaf leaf_dnf)

lemma leaf_negate_all: "is_leaf e \<Longrightarrow> (\<And>l. is_leaf l \<Longrightarrow> P l \<Longrightarrow> P (leaf_negate h l)) \<Longrightarrow> ck_all P e \<Longrightarrow> ck_all P (leaf_negate h e)"
  using leaf_negate_leaf ck_all_leaf by metis

lemma ck_negate_all:
  assumes P: "constants_allowed P" and closed: "\<And>l. is_leaf l \<Longrightarrow> P l \<Longrightarrow> P (leaf_negate h l)"
  shows "ck_all P e \<Longrightarrow> ck_all P (ck_negate h b e)"
proof (induction e)
  case (CkAnd es)
  have a: "list_all dnf (map (ck_negate h b) es)" by (simp add: list_all_iff ck_negate_dnf)
  have "list_all (ck_all P) (map (ck_negate h b) es)" using CkAnd by (simp add: list_all_iff)
  then show ?case unfolding ck_negate_And using or_else_normalize(2)[OF a _ P] CkAnd.prems by simp
next
  case (CkOr es)
  have a: "list_all dnf (map (ck_negate h b) es)" by (simp add: list_all_iff ck_negate_dnf)
  moreover have "map (ck_negate h b) es \<noteq> []" using CkOr.prems by simp
  moreover have "list_all (ck_all P) (map (ck_negate h b) es)" using CkOr by (simp add: list_all_iff)
  ultimately obtain x where "or_negate_loop h (inner_negate h b) (map (ck_negate h b) es) = [x]" "dnf x" "ck_all P x"
    using or_negate_loop_props[OF a] P by blast
  then show ?case unfolding ck_negate_Or using or_else_normalize(2)[of "[x]", OF _ _ P] by simp
qed (simp_all add: leaf_negate_all[where P = P and h = h, OF _ closed])

lemma ck_negate_ok: "ck_ok h env F e \<Longrightarrow> ck_ok h env F (ck_negate h b e)"
proof (rule ck_negate_all[OF constants_allowed_ok])
  fix l
  assume "is_leaf l" "leaf_ok h env F l"
  then show "leaf_ok h env F (leaf_negate h l)"
    using leaf_negate_negates[of l h env F] leaf_negate_leaf[of l h] ck_all_leaf by (auto simp: negates_def)
qed

text \<open>For a conjunction of literals the terms of the negation are literals, whatever the bound.\<close>

lemma negated_literals:
  assumes "list_all literal es" "x \<in> set (or_flat (map Some (map (ck_negate h b) es)))"
  shows "is_leaf x"
proof -
  obtain e where e: "e \<in> set es" "x \<in> set (or_terms (leaf_negate h e))"
    using assms by (auto simp: list_all_iff literal_def)
  then have "is_leaf (leaf_negate h e)" using assms(1) leaf_negate_leaf by (auto simp: list_all_iff literal_def)
  then show ?thesis using e(2) by (cases "leaf_negate h e") auto
qed

lemma ck_negate_conj_term:
  assumes "conj_term e"
  shows "ck_negate h b e = ck_negate h c e"
proof (cases "is_leaf e")
  case False
  then obtain es where e: "e = CkAnd es" "list_all literal es" using assms by (cases e) auto
  have m: "map (ck_negate h b) es = map (ck_negate h c) es"
    using e(2) by (simp add: list_all_iff literal_def)
  have "or_normalize h (inner_negate h b) (map Some (map (ck_negate h c) es)) True =
        or_normalize h (inner_negate h c) (map Some (map (ck_negate h c) es)) True"
  proof (rule or_normalize_cong)
    fix x
    assume "x \<in> set (or_unique h (map Some (map (ck_negate h c) es)))"
    then have "is_leaf x" using or_unique_subset negated_literals[OF e(2)] by blast
    then show "inner_negate h b x = inner_negate h c x" by simp
  qed
  then show ?thesis by (simp only: e(1) ck_negate_And m)
qed simp

lemma list_ex_not: "list_ex (\<lambda>x. \<not> p x) xs = (\<not> list_all p xs)"
  by (simp add: list_ex_iff list_all_iff)

lemma list_all_not: "list_all (\<lambda>x. \<not> p x) xs = (\<not> list_ex p xs)"
  by (simp add: list_ex_iff list_all_iff)

lemma negated_list:
  assumes "\<And>e. e \<in> set es \<Longrightarrow> negates h env F neg e"
  shows "list_all (ck_ok h env F) (map neg es)"
    and "list_ex (ck_evaluate env) (map neg es) = (\<not> list_all (ck_evaluate env) es)"
    and "list_all (ck_evaluate env) (map neg es) = (\<not> list_ex (ck_evaluate env) es)"
  using assms by (auto simp: list_all_iff list_ex_iff negates_def)

lemma ck_negate_conj_term_negates:
  assumes t: "conj_term e" and ok: "ck_ok h env F e"
  shows "negates h env F (ck_negate h b) e"
proof (cases "is_leaf e")
  case True
  then show ?thesis using leaf_negate_negates[of e h env F] ck_all_leaf[of e] ok by (simp add: negates_def)
next
  case False
  then obtain es where e: "e = CkAnd es" "list_all literal es" "es \<noteq> []" using assms by (cases e) auto
  let ?ns = "map (ck_negate h b) es"
  have n: "negates h env F (ck_negate h b) x" if "x \<in> set es" for x
  proof -
    have "is_leaf x" "leaf_ok h env F x"
      using that e ok ck_all_leaf by (auto simp: list_all_iff literal_def)
    then show ?thesis using leaf_negate_negates by (simp add: negates_def)
  qed
  note nl = negated_list[of es, OF n]
  have a: "list_all dnf (somes (map Some ?ns))" "somes (map Some ?ns) \<noteq> []"
    using e by (simp_all add: list_all_iff ck_negate_dnf)
  obtain r where r: "or_normalize h (inner_negate h b) (map Some ?ns) True = Some r" using or_normalize_dnf[OF a] by blast
  have flat: "list_all (negates h env F (inner_negate h b)) (or_flat (map Some ?ns))"
  proof -
    have "negates h env F (inner_negate h b) x" if "x \<in> set (or_flat (map Some ?ns))" for x
    proof -
      have "is_leaf x" using negated_literals[OF e(2) that] .
      moreover have "ck_ok h env F x" using flat_ok(1)[of "leaf_ok h env F" "map Some ?ns"] nl(1) that by (simp add: list_all_iff) blast
      ultimately show ?thesis using leaf_negate_negates[of x h env F] ck_all_leaf[of x] by (simp add: negates_def)
    qed
    then show ?thesis by (simp add: list_all_iff)
  qed
  have "ck_evaluate env r = list_ex (ck_evaluate env) (somes (map Some ?ns))"
    by (rule or_normalize_evaluate[OF _ _ r]) (use nl(1) flat in simp_all)
  then have "ck_evaluate env (ck_negate h b e) = (\<not> ck_evaluate env e)"
    using nl(2) unfolding e(1) ck_negate_And r or_else_def option.case by simp
  then show ?thesis using ck_negate_ok[OF ok] by (simp add: negates_def)
qed

lemma ck_negate_negates: "ck_ok h env F e \<Longrightarrow> negates h env F (ck_negate h (Suc b)) e"
proof (induction e)
  case (CkAnd es)
  let ?ns = "map (ck_negate h (Suc b)) es"
  have n: "negates h env F (ck_negate h (Suc b)) x" if "x \<in> set es" for x
    using CkAnd that by (auto simp: list_all_iff)
  note nl = negated_list[of es, OF n]
  have a: "list_all dnf ?ns" "?ns \<noteq> []" using CkAnd.prems by (simp_all add: list_all_iff ck_negate_dnf)
  have "ck_evaluate env (ck_negate h (Suc b) (CkAnd es)) = list_ex (ck_evaluate env) ?ns"
    unfolding ck_negate_And
    by (rule or_else_normalize(3)[OF a nl(1)]) (simp_all add: inner_negate_def ck_negate_conj_term_negates)
  then show ?case using nl(2) ck_negate_ok[OF CkAnd.prems] by (simp add: negates_def)
next
  case (CkOr es)
  let ?ns = "map (ck_negate h (Suc b)) es"
  have n: "negates h env F (ck_negate h (Suc b)) x" if "x \<in> set es" for x
    using CkOr that by (auto simp: list_all_iff)
  note nl = negated_list[of es, OF n]
  have a: "list_all dnf ?ns" "?ns \<noteq> []" using CkOr.prems by (simp_all add: list_all_iff ck_negate_dnf)
  obtain x where x: "or_negate_loop h (inner_negate h (Suc b)) ?ns = [x]" "dnf x" "ck_ok h env F x"
    "ck_evaluate env x = list_all (ck_evaluate env) ?ns"
    using or_negate_loop_props[OF a] nl(1) constants_allowed_ok by metis
  have "ck_evaluate env (ck_negate h (Suc b) (CkOr es)) = list_ex (ck_evaluate env) [x]"
    unfolding ck_negate_Or x(1)
  proof (rule or_else_normalize(3)[where F = F])
    show "\<forall>e. conj_term e \<longrightarrow> ck_ok h env F e \<longrightarrow> negates h env F (inner_negate h (Suc b)) e"
      by (simp add: inner_negate_def ck_negate_conj_term_negates)
  qed (use x(2,3) in simp_all)
  then show ?case using nl(3) x(4) ck_negate_ok[OF CkOr.prems] by (simp add: negates_def)
qed (use leaf_negate_negates in \<open>auto simp: negates_def\<close>)

text \<open>A bound of one is enough: a higher one gives the same negation.\<close>

lemma negate_bound: "ck_negate h (Suc b) e = ck_negate h (Suc 0) e"
proof (induction e)
  have i: "inner_negate h (Suc b) t = inner_negate h (Suc 0) t" if "conj_term t" for t
    using ck_negate_conj_term[OF that] by (simp add: inner_negate_def)
  {
    case (CkAnd es)
    have m: "map (ck_negate h (Suc b)) es = map (ck_negate h (Suc 0)) es" using CkAnd by simp
    have "list_all dnf (somes (map Some (map (ck_negate h (Suc 0)) es)))" by (simp add: list_all_iff ck_negate_dnf)
    from or_normalize_cong_dnf[OF this i] show ?case by (simp only: ck_negate_And m)
  next
    case (CkOr es)
    have m: "map (ck_negate h (Suc b)) es = map (ck_negate h (Suc 0)) es" using CkOr by simp
    show ?case
    proof (cases "es = []")
      case False
      have a: "list_all dnf (map (ck_negate h (Suc 0)) es)" by (simp add: list_all_iff ck_negate_dnf)
      obtain x where x: "or_negate_loop h (inner_negate h (Suc b)) (map (ck_negate h (Suc 0)) es) = [x]" "dnf x"
        "or_negate_loop h (inner_negate h (Suc 0)) (map (ck_negate h (Suc 0)) es) = [x]"
        using or_negate_loop_props[OF a] False by blast
      have "list_all dnf (somes (map Some [x]))" using x(2) by simp
      from or_normalize_cong_dnf[OF this i] show ?thesis by (simp only: ck_negate_Or m x(1,3))
    qed (simp add: ck_negate_Or or_normalize_eq)
  }
qed simp_all

section \<open>The depth bound of the distribution\<close>

abbreviation depth_sum :: "ckexpr list \<Rightarrow> nat" where
  "depth_sum es \<equiv> sum_list (map or_depth es)"

lemma foldr_max_ge: "e \<in> set es \<Longrightarrow> (f e :: nat) \<le> foldr max (map f es) 0"
  by (induction es) (auto simp: le_max_iff_disj)

lemma foldr_max_le: "(\<And>e. e \<in> set es \<Longrightarrow> f e \<le> (n::nat)) \<Longrightarrow> foldr max (map f es) 0 \<le> n"
  by (induction es) auto

lemma or_depth_less: "e \<in> set es \<Longrightarrow> or_depth e < or_depth (CkOr es)"
  using foldr_max_ge[of e es or_depth] by simp

lemma depth_sum_insert: "depth_sum (insert_sorted cmp x xs) = or_depth x + depth_sum xs"
  by (induction xs) auto

lemma depth_sum_sort [simp]: "depth_sum (ck_sort h es) = depth_sum es"
  unfolding ck_sort_def by (induction es rule: rev_induct) (auto simp: js_sort_snoc depth_sum_insert)

lemma depth_sum_dedupe: "depth_sum (ck_dedupe es) \<le> depth_sum es"
  by (induction es rule: ck_dedupe.induct) auto

lemma depth_sum_and_terms [simp]: "depth_sum (and_terms e) = or_depth e"
  by (cases e) auto

lemma args_depth_somes: "args_depth arr = depth_sum (somes arr)"
  unfolding args_depth_def by (induction arr) (auto simp: somes_def split: option.splits)

lemma depth_sum_and_flat: "depth_sum (and_flat arr) = args_depth arr"
proof -
  have "depth_sum (concat (map and_terms es)) = depth_sum es" for es by (induction es) auto
  then show ?thesis by (simp add: args_depth_somes)
qed

lemma depth_sum_and_unique: "depth_sum (and_unique h arr) \<le> args_depth arr"
  using depth_sum_dedupe[of "ck_sort h (and_flat arr)"] by (simp add: and_unique_def depth_sum_and_flat)

lemma or_depth_terms: "e \<in> set (or_terms x) \<Longrightarrow> or_depth e \<le> or_depth x"
  by (cases x) (auto dest: or_depth_less)

lemma or_normalize_depth:
  assumes "\<And>e. e \<in> set (somes arr) \<Longrightarrow> or_depth e \<le> n" and r: "or_normalize h neg arr chk = Some r"
  shows "or_depth r \<le> Suc n"
proof -
  have u: "or_depth e \<le> n" if "e \<in> set (or_unique h arr)" for e
    using that or_unique_subset[of h arr] assms(1) or_depth_terms by fastforce
  then have "or_depth (CkOr (or_unique h arr)) \<le> Suc n" using foldr_max_le[of "or_unique h arr" or_depth n] by simp
  moreover have "or_unique h arr \<noteq> [] \<Longrightarrow> or_depth (hd (or_unique h arr)) \<le> Suc n"
    using u[of "hd (or_unique h arr)"] by simp
  ultimately show ?thesis using r by (auto simp: or_normalize_eq simp del: or_depth.simps(2) split: if_splits)
qed

lemma depth_sum_member: "e \<in> set es \<Longrightarrow> or_depth e \<le> depth_sum es"
  by (induction es) auto

lemma distribute_step_depth:
  assumes ac: "\<And>a b r. ac [Some a, Some b] = Some r \<Longrightarrow> or_depth r \<le> or_depth a + or_depth b"
  shows "depth_sum (distribute_step h ac (or_normalize h neg) others s os) \<le> depth_sum (others @ [s, CkOr os])"
proof (cases "or_normalize h neg (map (\<lambda>el. ac [Some el, Some s]) os) (others = [])")
  case (Some r)
  have "or_depth e \<le> or_depth (CkOr os) - 1 + or_depth s" if e: "e \<in> set (somes (map (\<lambda>el. ac [Some el, Some s]) os))" for e
  proof -
    obtain el where "el \<in> set os" "ac [Some el, Some s] = Some e"
      using e by (auto simp: somes_def split: option.splits)
    then show ?thesis using ac[of el s e] or_depth_less[of el os] by linarith
  qed
  from or_normalize_depth[OF this Some] have "or_depth r \<le> or_depth (CkOr os) + or_depth s" by simp
  then show ?thesis by (simp add: distribute_step_def Some)
qed (simp add: distribute_step_def)

lemma and_normalize_depth:
  "and_normalize h neg d arr chk = Some r \<Longrightarrow> or_depth r \<le> args_depth arr"
proof (induction d arbitrary: arr r)
  have step: "or_depth r \<le> args_depth arr"
    if r: "and_normalize h neg d arr chk = Some r" and D: "depth_sum (and_distributed h neg d arr chk) \<le> args_depth arr" for d arr r
  proof -
    have "length xs = 1 \<Longrightarrow> or_depth (hd xs) \<le> depth_sum xs" for xs :: "ckexpr list" by (cases xs) auto
    then show ?thesis using r D order_trans by (fastforce simp: and_normalize_eq split: if_splits)
  qed
  {
    case 0
    then show ?case using step depth_sum_and_unique by (simp add: and_distributed_def)
  next
    case (Suc d)
    have "depth_sum (and_distribute h (\<lambda>a. and_normalize h neg d a chk) (or_normalize h neg) (and_unique h arr)) \<le> args_depth arr"
    proof (rule and_distribute_invariant[where I = "\<lambda>es. depth_sum es \<le> args_depth arr", OF depth_sum_and_unique])
      fix others s os
      assume "depth_sum (others @ [s, CkOr os]) \<le> args_depth arr"
      moreover have "or_depth r \<le> or_depth a + or_depth b" if "and_normalize h neg d [Some a, Some b] chk = Some r" for a b r
        using Suc.IH[OF that] by (simp add: args_depth_somes)
      ultimately show "depth_sum (distribute_step h (\<lambda>a. and_normalize h neg d a chk) (or_normalize h neg) others s os) \<le> args_depth arr"
        using distribute_step_depth[of "\<lambda>a. and_normalize h neg d a chk" h neg others s os] order_trans by blast
    qed
    then show ?case using step[OF Suc.prems] by (simp add: and_distributed_def)
  }
qed

lemma and_distribute_no_or:
  assumes "depth_sum es = 0"
  shows "and_distribute h ac oc es = es"
proof (rule and_distribute_stop)
  have "last es \<noteq> CkOr os" if "\<not> length es \<le> 1" for os
  proof -
    have "last es \<in> set es" using that by (cases es) auto
    then have "or_depth (last es) = 0" using assms depth_sum_member[of "last es" es] by simp
    then show ?thesis by auto
  qed
  then show "length es \<le> 1 \<or> (\<forall>os. last es \<noteq> CkOr os)" by blast
qed

lemma and_normalize_bound:
  "args_depth arr \<le> d \<Longrightarrow> args_depth arr \<le> d' \<Longrightarrow> and_normalize h neg d arr chk = and_normalize h neg d' arr chk"
proof (induction d arbitrary: arr d')
  have flat: "and_distributed h neg d arr chk = and_unique h arr" if "args_depth arr = 0" for arr d
    using and_distribute_no_or depth_sum_and_unique[of h arr] that by (simp add: and_distributed_def split: nat.split)
  {
    case 0
    then have "args_depth arr = 0" by simp
    then show ?case by (simp only: and_normalize_eq flat)
  next
    case (Suc d)
    let ?ac = "\<lambda>d a. and_normalize h neg d a chk" and ?oc = "or_normalize h neg"
    show ?case
    proof (cases d')
      case 0
      then have "args_depth arr = 0" using Suc by simp
      then show ?thesis by (simp only: and_normalize_eq flat)
    next
      case (Suc e)
      have "and_distribute h (?ac d) ?oc (and_unique h arr) = and_distribute h (?ac e) ?oc (and_unique h arr)"
      proof (rule and_distribute_cong[where I = "\<lambda>es. depth_sum es \<le> args_depth arr", OF depth_sum_and_unique])
        fix others s os
        assume b: "depth_sum (others @ [s, CkOr os]) \<le> args_depth arr"
        have dep: "or_depth r \<le> or_depth a + or_depth b" if "?ac d [Some a, Some b] = Some r" for a b r
          using and_normalize_depth[OF that] by (simp add: args_depth_somes)
        show "depth_sum (distribute_step h (?ac d) ?oc others s os) \<le> args_depth arr"
          using distribute_step_depth[of "?ac d" h neg others s os, OF dep] b order_trans by blast
        have "?ac d [Some el, Some s] = ?ac e [Some el, Some s]" if "el \<in> set os" for el
        proof (rule Suc.IH)
          have "args_depth [Some el, Some s] < args_depth arr"
            using or_depth_less[OF that] b by (simp add: args_depth_somes)
          then show "args_depth [Some el, Some s] \<le> d" "args_depth [Some el, Some s] \<le> e"
            using Suc.prems \<open>d' = Suc e\<close> by simp_all
        qed
        then have "map (\<lambda>el. ?ac d [Some el, Some s]) os = map (\<lambda>el. ?ac e [Some el, Some s]) os" by simp
        then show "distribute_step h (?ac d) ?oc others s os = distribute_step h (?ac e) ?oc others s os"
          by (simp only: distribute_step_def)
      qed
      then have "and_distributed h neg (Suc d) arr chk = and_distributed h neg d' arr chk"
        by (simp add: and_distributed_def Suc)
      then show ?thesis by (simp only: and_normalize_eq)
    qed
  }
qed

end
