(* ===== verification/ContextKeyTheorems.thy ===== *)
theory ContextKeyTheorems
  imports ContextKeyNegation
begin

text \<open>
  The properties of context key expressions: negation, \<open>and\<close>, \<open>or\<close> and constant substitution keep the meaning,
  the comparison is a lawful comparator on expressions with values of one kind, \<open>implies\<close> is sound and exact on sorted
  operands, and results need no parentheses; then the cases in which the code departs from this.
\<close>

section \<open>The operations of a context key expression\<close>

declare ck_implies.simps [simp del]

lemma ContextKey_negate_negates: "ck_ok h env F e \<Longrightarrow> negates h env F (ContextKey_negate h) e"
  using ck_negate_negates[of h env F e 0] by (simp add: negates_def ContextKey_negate_def)

lemma or_create_result:
  assumes "list_all (ck_ok h env F) (somes arr)" "somes arr \<noteq> []"
  shows "\<exists>r. ContextKeyOrExpr_create h arr chk = Some r \<and> ck_ok h env F r \<and>
             ck_evaluate env r = list_ex (ck_evaluate env) (somes arr)"
proof -
  obtain r where r: "or_normalize h (ContextKey_negate h) arr chk = Some r"
    using or_normalize_None[OF assms(1), of h "ContextKey_negate h" chk] assms(2) by auto
  have "list_all (negates h env F (ContextKey_negate h)) (or_flat arr)"
    using flat_ok(1)[OF assms(1)] ContextKey_negate_negates unfolding list_all_iff by blast
  then show ?thesis
    using or_normalize_evaluate[OF assms(1) _ r] or_normalize_all[OF _ assms(1) r] r
    by (simp add: ContextKeyOrExpr_create_def)
qed

lemma and_create_result:
  assumes "list_all (ck_ok h env F) (somes arr)" "somes arr \<noteq> []"
  shows "\<exists>r. ContextKeyAndExpr_create h arr chk = Some r \<and> ck_ok h env F r \<and>
             ck_evaluate env r = list_all (ck_evaluate env) (somes arr)"
proof -
  obtain r where r: "and_normalize h (ContextKey_negate h) (args_depth arr) arr chk = Some r"
    using and_normalize_None[OF assms(1), of h "ContextKey_negate h" "args_depth arr" chk] assms(2) by auto
  then show ?thesis
    using and_normalize_evaluate[OF ContextKey_negate_negates assms(1) r] and_normalize_all[OF _ assms(1) r]
    by (simp add: ContextKeyAndExpr_create_def)
qed


definition plain_host :: ck_host where
  "plain_host = \<lparr>ch_constant = (\<lambda>_. None), ch_toNumber = (\<lambda>_. None), ch_parseFloat = (\<lambda>_. None), ch_toString = (\<lambda>_. js_lit ''5'')\<rparr>"

text \<open>A context in which a key is the number its first code unit gives.\<close>

definition plain_env :: "(jsstring \<Rightarrow> ctx_value) \<Rightarrow> ck_env" where
  "plain_env f =
     \<lparr>ce_getValue = f,
      ce_looseEq = (\<lambda>v w. case v of StringC s \<Rightarrow> w = StrV s | NumberC x \<Rightarrow> w = NumV x | _ \<Rightarrow> False),
      ce_parseFloat = (\<lambda>v. case v of NumberC x \<Rightarrow> Some x | _ \<Rightarrow> None),
      ce_test = (\<lambda>r v. v = StringC (rx_source r)),
      ce_includes = (\<lambda>xs v. v \<in> set xs),
      ce_isWindows = False,
      ce_toLowerCase = (\<lambda>s. s)\<rparr>"


text \<open>
  C22. \<open>ContextKeyExpr.and\<close> and \<open>ContextKeyExpr.or\<close> return \<open>undefined\<close> exactly when
  no operand is given, and otherwise an expression that agrees with the context as the operands do and evaluates to the
  conjunction, respectively the disjunction, of the operands: sorting, the elimination of duplicates and of
  complements and the distribution of disjunctions do not change the meaning.
\<close>

theorem create_correct:
  assumes "list_all (ck_ok h env F) (somes arr)"
  shows "(case ContextKeyAndExpr_create h arr chk of
           None \<Rightarrow> somes arr = []
         | Some r \<Rightarrow> somes arr \<noteq> [] \<and> ck_ok h env F r \<and> ck_evaluate env r = list_all (ck_evaluate env) (somes arr)) \<and>
         (case ContextKeyOrExpr_create h arr chk of
           None \<Rightarrow> somes arr = []
         | Some r \<Rightarrow> somes arr \<noteq> [] \<and> ck_ok h env F r \<and> ck_evaluate env r = list_ex (ck_evaluate env) (somes arr))"
proof (rule conjI)
  have "somes arr = [] \<Longrightarrow> ContextKeyAndExpr_create h arr chk = None"
    using and_normalize_None[OF assms] by (simp add: ContextKeyAndExpr_create_def)
  then show "case ContextKeyAndExpr_create h arr chk of
           None \<Rightarrow> somes arr = []
         | Some r \<Rightarrow> somes arr \<noteq> [] \<and> ck_ok h env F r \<and> ck_evaluate env r = list_all (ck_evaluate env) (somes arr)"
    using and_create_result[OF assms, of chk] by (cases "somes arr = []") auto
  have "somes arr = [] \<Longrightarrow> ContextKeyOrExpr_create h arr chk = None"
    using or_normalize_None[OF assms] by (simp add: ContextKeyOrExpr_create_def)
  then show "case ContextKeyOrExpr_create h arr chk of
           None \<Rightarrow> somes arr = []
         | Some r \<Rightarrow> somes arr \<noteq> [] \<and> ck_ok h env F r \<and> ck_evaluate env r = list_ex (ck_evaluate env) (somes arr)"
    using or_create_result[OF assms, of chk] by (cases "somes arr = []") auto
qed

theorem create_correct_witness:
  "\<exists>r. ContextKeyAndExpr_create plain_host [Some (CkDefined [97]), None, Some (CkOr [CkNot [98], CkDefined [97]])] True = Some r \<and>
       ck_evaluate (plain_env (\<lambda>k. if k = [97] then NumberC 1 else UndefinedC)) r"
  using create_correct[of plain_host "plain_env (\<lambda>k. if k = [97] then NumberC 1 else UndefinedC)" "\<lambda>_. []"
      "[Some (CkDefined [97]), None, Some (CkOr [CkNot [98], CkDefined [97]])]" True]
  by (auto simp: plain_host_def plain_env_def split: option.splits)

subsection \<open>Constant substitution\<close>

lemma substitute_unchanged: "\<not> substitution_changes h e \<Longrightarrow> substituteConstants h e = Some e"
  by (induction e) (auto simp: eliminateConstantsInArray_def list_ex_iff)

lemma substituted_list:
  assumes "\<And>e. e \<in> set es \<Longrightarrow>
    \<exists>r. substituteConstants h e = Some r \<and> ck_ok h env F r \<and> ck_evaluate env r = ck_evaluate env e"
  shows "\<exists>rs. map (substituteConstants h) es = map Some rs \<and> list_all (ck_ok h env F) rs \<and>
    list_all (ck_evaluate env) rs = list_all (ck_evaluate env) es \<and>
    list_ex (ck_evaluate env) rs = list_ex (ck_evaluate env) es"
  using assms
proof (induction es)
  case (Cons e es)
  obtain rs where rs: "map (substituteConstants h) es = map Some rs" "list_all (ck_ok h env F) rs"
    "list_all (ck_evaluate env) rs = list_all (ck_evaluate env) es" "list_ex (ck_evaluate env) rs = list_ex (ck_evaluate env) es"
    using Cons by auto
  obtain r where "substituteConstants h e = Some r" "ck_ok h env F r" "ck_evaluate env r = ck_evaluate env e"
    using Cons.prems by auto
  then show ?case using rs by (intro exI[of _ "r # rs"]) simp
qed simp

lemma substitute_ok:
  "ck_ok h env F e \<Longrightarrow>
   \<exists>r. substituteConstants h e = Some r \<and> ck_ok h env F r \<and> ck_evaluate env r = ck_evaluate env e"
proof (induction e)
  case (CkAnd es)
  obtain rs where s: "map (substituteConstants h) es = map Some rs" "list_all (ck_ok h env F) rs"
    "list_all (ck_evaluate env) rs = list_all (ck_evaluate env) es"
    using substituted_list[of es h env F] CkAnd by (auto simp: list_all_iff)
  moreover have "rs \<noteq> []" using s(1) CkAnd.prems by auto
  ultimately show ?case
    using and_create_result[of h env F "map Some rs" False] CkAnd.prems by (auto simp: eliminateConstantsInArray_def)
next
  case (CkOr es)
  obtain rs where s: "map (substituteConstants h) es = map Some rs" "list_all (ck_ok h env F) rs"
    "list_ex (ck_evaluate env) rs = list_ex (ck_evaluate env) es"
    using substituted_list[of es h env F] CkOr by (auto simp: list_all_iff)
  moreover have "rs \<noteq> []" using s(1) CkOr.prems by auto
  ultimately show ?case
    using or_create_result[of h env F "map Some rs" False] CkOr.prems by (auto simp: eliminateConstantsInArray_def)
qed (auto simp: constant_expr_def split: option.splits)

lemma substitution_changes_all:
  "ck_all (\<lambda>l. True) e \<Longrightarrow> ck_all (\<lambda>l. \<not> substitution_changes h l) e = (\<not> substitution_changes h e)"
  by (induction e) (auto simp: list_all_iff list_ex_iff)

lemma substitute_free:
  "ck_all (\<lambda>l. True) e \<Longrightarrow> substituteConstants h e = Some r \<Longrightarrow> ck_all (\<lambda>l. \<not> substitution_changes h l) r"
proof (induction e arbitrary: r)
  case (CkAnd es)
  have P: "constants_allowed (\<lambda>l. \<not> substitution_changes h l)" by (simp add: constants_allowed_def)
  show ?case
  proof (cases "list_ex (substitution_changes h) es")
    case True
    have "list_all (ck_all (\<lambda>l. \<not> substitution_changes h l)) (somes (map (substituteConstants h) es))"
      using CkAnd.IH CkAnd.prems(1) by (auto simp: list_all_iff somes_def split: option.splits)
    then show ?thesis
      using and_normalize_all[OF P] CkAnd.prems(2) True
      by (auto simp: eliminateConstantsInArray_def ContextKeyAndExpr_create_def)
  qed (use CkAnd.prems substitution_changes_all[of "CkAnd es" h] in \<open>auto simp: eliminateConstantsInArray_def\<close>)
next
  case (CkOr es)
  have P: "constants_allowed (\<lambda>l. \<not> substitution_changes h l)" by (simp add: constants_allowed_def)
  show ?case
  proof (cases "list_ex (substitution_changes h) es")
    case True
    have "list_all (ck_all (\<lambda>l. \<not> substitution_changes h l)) (somes (map (substituteConstants h) es))"
      using CkOr.IH CkOr.prems(1) by (auto simp: list_all_iff somes_def split: option.splits)
    then show ?thesis
      using or_normalize_all[OF P] CkOr.prems(2) True
      by (auto simp: eliminateConstantsInArray_def ContextKeyOrExpr_create_def)
  qed (use CkOr.prems substitution_changes_all[of "CkOr es" h] in \<open>auto simp: eliminateConstantsInArray_def\<close>)
qed (auto simp: constant_expr_def split: option.splits)

text \<open>
  \<open>substituteConstants\<close> keeps the meaning in every context that agrees with the constants, leaves no
  constant to substitute, and changes nothing when there was none; expressions that are equal after it
  have the same meaning.
\<close>

theorem substitution_correct:
  assumes "ck_ok h env F e"
  shows "(\<exists>r. substituteConstants h e = Some r \<and> ck_ok h env F r \<and> ck_evaluate env r = ck_evaluate env e \<and>
              \<not> substitution_changes h r \<and> (\<not> substitution_changes h e \<longrightarrow> r = e)) \<and>
         (\<forall>e'. ck_ok h env F e' \<longrightarrow> expressionsAreEqualWithConstantSubstitution h (Some e) (Some e') \<longrightarrow>
               ck_evaluate env e = ck_evaluate env e')"
proof -
  have t: "ck_all (\<lambda>l. True) e'" if "ck_ok h env F e'" for e'
    using that by (induction e') (auto simp: list_all_iff)
  obtain r where r: "substituteConstants h e = Some r" "ck_ok h env F r" "ck_evaluate env r = ck_evaluate env e"
    using substitute_ok[OF assms] by blast
  have "\<not> substitution_changes h r"
    using substitute_free[OF t[OF assms] r(1)] substitution_changes_all[OF t[OF r(2)], of h] by simp
  moreover have "ck_evaluate env e = ck_evaluate env e'"
    if e': "ck_ok h env F e'" "expressionsAreEqualWithConstantSubstitution h (Some e) (Some e')" for e'
  proof -
    obtain r' where r': "substituteConstants h e' = Some r'" "ck_ok h env F r'" "ck_evaluate env r' = ck_evaluate env e'"
      using substitute_ok[OF e'(1)] by blast
    then have "ck_equals r r'" using e'(2) r(1) by (simp add: expressionsAreEqualWithConstantSubstitution_def)
    then show ?thesis using ck_equals_evaluate(1) r r' by metis
  qed
  ultimately show ?thesis using r substitute_unchanged[of h e] by auto
qed

theorem substitution_correct_witness:
  "\<exists>r. substituteConstants (plain_host\<lparr>ch_constant := (\<lambda>k. if k = [97] then Some True else None)\<rparr>)
         (CkAnd [CkDefined [97], CkDefined [98]]) = Some r \<and>
       \<not> substitution_changes (plain_host\<lparr>ch_constant := (\<lambda>k. if k = [97] then Some True else None)\<rparr>) r"
  using substitution_correct[of "plain_host\<lparr>ch_constant := (\<lambda>k. if k = [97] then Some True else None)\<rparr>"
      "plain_env (\<lambda>k. NumberC 1)" "\<lambda>_. []" "CkAnd [CkDefined [97], CkDefined [98]]"]
  by (auto simp: plain_host_def plain_env_def)

section \<open>The order of expressions\<close>

subsection \<open>Strings and lexicographic combinations\<close>

text \<open>What a comparator gives for three elements, and the lexicographic combination of two comparisons.\<close>

definition cmp_tri :: "int \<Rightarrow> int \<Rightarrow> int \<Rightarrow> bool" where
  "cmp_tri ab bc ac = (ab \<le> 0 \<longrightarrow> bc \<le> 0 \<longrightarrow> ac \<le> 0 \<and> (ac = 0 \<longleftrightarrow> ab = 0 \<and> bc = 0))"

definition lexc :: "int \<Rightarrow> int \<Rightarrow> int" where
  "lexc r1 r2 = (if r1 \<noteq> 0 then r1 else r2)"

lemma lex_tri:
  assumes "cmp_tri ab bc ac" "ab = 0 \<Longrightarrow> bc = 0 \<Longrightarrow> cmp_tri ab' bc' ac'"
  shows "cmp_tri (lexc ab ab') (lexc bc bc') (lexc ac ac')"
  using assms by (auto simp: cmp_tri_def lexc_def)

lemma lex_antisym:
  assumes "sgn ab = - sgn ba" "ab = 0 \<Longrightarrow> sgn ab' = - sgn ba'"
  shows "sgn (lexc ab ab') = - sgn (lexc ba ba')"
  using assms by (auto simp: lexc_def sgn_if split: if_splits)

definition num_cmp :: "rat \<Rightarrow> rat \<Rightarrow> int" where
  "num_cmp x y = (if x < y then - 1 else if y < x then 1 else 0)"

lemma num_cmp_laws:
  "sgn (num_cmp x y) = - sgn (num_cmp y x)" "cmp_tri (num_cmp x y) (num_cmp y z) (num_cmp x z)"
  "num_cmp x y = 0 \<longleftrightarrow> x = y"
  by (auto simp: num_cmp_def cmp_tri_def)

lemma diff_laws: "sgn (x - y) = - sgn (y - x :: int)" "cmp_tri (x - y) (y - z) (x - z)"
  by (auto simp: cmp_tri_def sgn_if)

lemma str_less_irrefl [simp]: "\<not> str_less s s"
  by (induction s) auto

lemma str_less_trans: "str_less s t \<Longrightarrow> str_less t u \<Longrightarrow> str_less s u"
proof (induction s t arbitrary: u rule: str_less.induct)
  case (2 d ds)
  then show ?case by (cases u) auto
next
  case (4 c cs d ds)
  then show ?case by (cases u) auto
qed auto

lemma str_less_total: "str_less s t \<or> s = t \<or> str_less t s"
  by (induction s t rule: str_less.induct) auto

lemma cmp1_laws:
  "sgn (cmp1 s t) = - sgn (cmp1 t s)" "cmp_tri (cmp1 s t) (cmp1 t u) (cmp1 s u)" "cmp1 s t = 0 \<longleftrightarrow> s = t"
proof -
  note f = str_less_total[of s t] str_less_total[of t u] str_less_total[of s u]
    str_less_trans[of s t u] str_less_trans[of t s u] str_less_trans[of s u t] str_less_trans[of u t s]
    str_less_trans[of t u s] str_less_trans[of u s t] str_less_trans[of s t s]
  show "sgn (cmp1 s t) = - sgn (cmp1 t s)" using f by (auto simp: cmp1_def)
  show "cmp1 s t = 0 \<longleftrightarrow> s = t" using f by (auto simp: cmp1_def)
  show "cmp_tri (cmp1 s t) (cmp1 t u) (cmp1 s u)" using f by (auto simp: cmp1_def cmp_tri_def)
qed

subsection \<open>Expressions with values of one kind\<close>

text \<open>\<open>==\<close> and \<open>!=\<close> test for a string, the comparisons for a number: what the parser makes of a clause.\<close>

fun plain_leaf :: "ckexpr \<Rightarrow> bool" where
  "plain_leaf (CkEquals _ v) = (case v of StrV _ \<Rightarrow> True | NumV _ \<Rightarrow> False)"
| "plain_leaf (CkNotEquals _ v) = (case v of StrV _ \<Rightarrow> True | NumV _ \<Rightarrow> False)"
| "plain_leaf (CkGreater _ v) = (case v of StrV _ \<Rightarrow> False | NumV _ \<Rightarrow> True)"
| "plain_leaf (CkGreaterEquals _ v) = (case v of StrV _ \<Rightarrow> False | NumV _ \<Rightarrow> True)"
| "plain_leaf (CkSmaller _ v) = (case v of StrV _ \<Rightarrow> False | NumV _ \<Rightarrow> True)"
| "plain_leaf (CkSmallerEquals _ v) = (case v of StrV _ \<Rightarrow> False | NumV _ \<Rightarrow> True)"
| "plain_leaf _ = True"

abbreviation plain :: "ckexpr \<Rightarrow> bool" where
  "plain \<equiv> ck_all plain_leaf"

definition value_key :: "ck_value \<Rightarrow> jsstring \<times> rat" where
  "value_key v = (case v of StrV s \<Rightarrow> (s, 0) | NumV x \<Rightarrow> ([], x))"

fun leaf_key :: "ckexpr \<Rightarrow> jsstring \<times> jsstring \<times> rat" where
  "leaf_key (CkDefined k) = (k, [], 0)"
| "leaf_key (CkNot k) = (k, [], 0)"
| "leaf_key (CkEquals k v) = (k, value_key v)"
| "leaf_key (CkNotEquals k v) = (k, value_key v)"
| "leaf_key (CkRegex k r) = (k, regex_source r, 0)"
| "leaf_key (CkNotRegex k r) = (k, regex_source r, 0)"
| "leaf_key (CkIn k v) = (k, v, 0)"
| "leaf_key (CkNotIn k v) = (k, v, 0)"
| "leaf_key (CkGreater k v) = (k, value_key v)"
| "leaf_key (CkGreaterEquals k v) = (k, value_key v)"
| "leaf_key (CkSmaller k v) = (k, value_key v)"
| "leaf_key (CkSmallerEquals k v) = (k, value_key v)"
| "leaf_key _ = ([], [], 0)"

definition key_cmp :: "jsstring \<times> jsstring \<times> rat \<Rightarrow> jsstring \<times> jsstring \<times> rat \<Rightarrow> int" where
  "key_cmp a b = lexc (cmp1 (fst a) (fst b)) (lexc (cmp1 (fst (snd a)) (fst (snd b))) (num_cmp (snd (snd a)) (snd (snd b))))"

lemma key_cmp_laws:
  "sgn (key_cmp a b) = - sgn (key_cmp b a)" "cmp_tri (key_cmp a b) (key_cmp b c) (key_cmp a c)"
  "key_cmp a b = 0 \<longleftrightarrow> a = b"
  unfolding key_cmp_def by (intro lex_antisym lex_tri cmp1_laws num_cmp_laws)+
    (auto simp: lexc_def cmp1_laws(3) num_cmp_laws(3) prod_eq_iff)

lemma cmp2_key:
  "case v of StrV s \<Rightarrow> (case w of StrV t \<Rightarrow> True | NumV _ \<Rightarrow> False) | NumV x \<Rightarrow> (case w of StrV _ \<Rightarrow> False | NumV y \<Rightarrow> True) \<Longrightarrow>
   cmp2 h k v l w = key_cmp (k, value_key v) (l, value_key w)"
  by (cases v; cases w) (auto simp: cmp2_def value_less_def key_cmp_def value_key_def lexc_def cmp1_def num_cmp_def)

lemma regex_cmp_key: "regex_cmp k r l s = key_cmp (k, regex_source r, 0) (l, regex_source s, 0)"
  by (simp add: regex_cmp_def key_cmp_def lexc_def cmp1_def num_cmp_def)

lemma cmp1_key: "cmp1 k l = key_cmp (k, [], 0) (l, [], 0)"
  by (simp add: key_cmp_def lexc_def cmp1_def num_cmp_def)

lemma leaf_cmp_key:
  assumes "is_leaf a" "plain_leaf a" "plain_leaf b" "ck_type a = ck_type b"
  shows "leaf_cmp h a b = key_cmp (leaf_key a) (leaf_key b)"
proof -
  have v: "cmp2 h k (StrV s) l (StrV t) = key_cmp (k, s, 0) (l, t, 0)" for k s l t
    using cmp2_key[where v = "StrV s" and w = "StrV t"] by (simp add: value_key_def)
  have w: "cmp2 h k (NumV x) l (NumV y) = key_cmp (k, [], x) (l, [], y)" for k x l y
    using cmp2_key[where v = "NumV x" and w = "NumV y"] by (simp add: value_key_def)
  show ?thesis using assms
    by (cases a; cases b) (auto simp: cmp1_key regex_cmp_key v w key_cmp_laws(3) value_key_def split: ck_value.splits)
qed

lemma leaf_equals_key:
  assumes "is_leaf a" "plain_leaf a" "plain_leaf b" "ck_type a = ck_type b"
  shows "leaf_equals a b \<longleftrightarrow> leaf_key a = leaf_key b"
  using assms by (cases a; cases b) (auto simp: value_key_def split: ck_value.splits)

subsection \<open>The comparison of expressions\<close>

text \<open>The comparison of two operand lists: their lengths first.\<close>

definition list_cmp :: "ck_host \<Rightarrow> ckexpr list \<Rightarrow> ckexpr list \<Rightarrow> int" where
  "list_cmp h xs ys = lexc (sgn (int (length xs) - int (length ys))) (ck_cmps h xs ys)"

definition body_cmp :: "ck_host \<Rightarrow> ckexpr \<Rightarrow> ckexpr \<Rightarrow> int" where
  "body_cmp h a b =
     (case and_operands a of
        Some xs \<Rightarrow> (case and_operands b of Some ys \<Rightarrow> list_cmp h xs ys | None \<Rightarrow> 0)
      | None \<Rightarrow>
          (case or_operands a of
             Some xs \<Rightarrow> (case or_operands b of Some ys \<Rightarrow> list_cmp h xs ys | None \<Rightarrow> 0)
           | None \<Rightarrow> leaf_cmp h a b))"

lemma ck_cmp_lex: "ck_cmp h a b = lexc (ck_type a - ck_type b) (body_cmp h a b)"
  by (subst ck_cmp.simps) (cases a; cases b; auto simp: lexc_def body_cmp_def list_cmp_def sgn_if)

lemma ck_cmps_lex: "ck_cmps h (x # xs) (y # ys) = lexc (ck_cmp h x y) (ck_cmps h xs ys)"
  by (simp add: lexc_def Let_def)

lemma ck_cmps_simps: "ck_cmps h [] ys = 0" "ck_cmps h xs [] = 0"
  by (cases xs; simp)+

declare ck_cmps.simps [simp del] ck_cmps_simps [simp]

lemma cmp_tri_0 [simp]: "cmp_tri 0 0 0"
  by (simp add: cmp_tri_def)

lemma ck_cmps_laws:
  assumes "\<And>x b c. x \<in> set xs \<Longrightarrow> plain b \<Longrightarrow> plain c \<Longrightarrow>
      sgn (ck_cmp h x b) = - sgn (ck_cmp h b x) \<and> cmp_tri (ck_cmp h x b) (ck_cmp h b c) (ck_cmp h x c)"
  shows "list_all plain ys \<Longrightarrow> length xs = length ys \<Longrightarrow> sgn (ck_cmps h xs ys) = - sgn (ck_cmps h ys xs)"
    and "list_all plain ys \<Longrightarrow> list_all plain zs \<Longrightarrow> length xs = length ys \<Longrightarrow> length ys = length zs \<Longrightarrow>
         cmp_tri (ck_cmps h xs ys) (ck_cmps h ys zs) (ck_cmps h xs zs)"
  using assms
proof (induction xs arbitrary: ys zs)
  case (Cons x xs)
  {
    case 1
    obtain y ys' where "ys = y # ys'" using 1 by (cases ys) auto
    then show ?case using 1 Cons by (auto simp: ck_cmps_lex intro!: lex_antisym)
  next
    case 2
    obtain y ys' where ys: "ys = y # ys'" using 2 by (cases ys) auto
    obtain z zs' where zs: "zs = z # zs'" using 2 ys by (cases zs) auto
    show ?case using 2 Cons(2) unfolding ys zs by (auto simp: ck_cmps_lex intro!: lex_tri)
  }
qed auto

lemma operands_type:
  "and_operands a = Some es \<longleftrightarrow> a = CkAnd es" "or_operands a = Some es \<longleftrightarrow> a = CkOr es"
  "and_operands a = None \<and> or_operands a = None \<longleftrightarrow> is_leaf a"
  by (cases a; simp)+

lemma list_cmp_laws:
  assumes "\<And>x b c. x \<in> set xs \<Longrightarrow> plain b \<Longrightarrow> plain c \<Longrightarrow>
      sgn (ck_cmp h x b) = - sgn (ck_cmp h b x) \<and> cmp_tri (ck_cmp h x b) (ck_cmp h b c) (ck_cmp h x c)"
    and "list_all plain ys" "list_all plain zs"
  shows "sgn (list_cmp h xs ys) = - sgn (list_cmp h ys xs)" "cmp_tri (list_cmp h xs ys) (list_cmp h ys zs) (list_cmp h xs zs)"
proof -
  have l: "cmp_tri (sgn x) (sgn y) (sgn (x + y))" for x y :: int by (auto simp: cmp_tri_def sgn_if)
  show "sgn (list_cmp h xs ys) = - sgn (list_cmp h ys xs)"
    unfolding list_cmp_def
    by (rule lex_antisym) (use ck_cmps_laws(1)[of xs h ys] assms in \<open>auto simp: sgn_if split: if_splits\<close>)
  show "cmp_tri (list_cmp h xs ys) (list_cmp h ys zs) (list_cmp h xs zs)"
    unfolding list_cmp_def
    using l[of "int (length xs) - int (length ys)" "int (length ys) - int (length zs)"]
    by (intro lex_tri) (use ck_cmps_laws(2)[of xs h ys zs] assms in \<open>auto simp: sgn_0_0\<close>)
qed

lemma type_And: "ck_type e = 6 \<longleftrightarrow> (\<exists>es. e = CkAnd es)"
  by (cases e) auto

lemma type_Or: "ck_type e = 9 \<longleftrightarrow> (\<exists>es. e = CkOr es)"
  by (cases e) auto

lemma type_leaf: "is_leaf e \<longleftrightarrow> ck_type e \<noteq> 6 \<and> ck_type e \<noteq> 9"
  by (cases e) auto

lemma same_type:
  "ck_type (CkAnd xs) = ck_type b \<Longrightarrow> \<exists>ys. b = CkAnd ys" "ck_type (CkOr xs) = ck_type b \<Longrightarrow> \<exists>ys. b = CkOr ys"
  "is_leaf a \<Longrightarrow> ck_type a = ck_type b \<Longrightarrow> is_leaf b"
  using type_And[of b] type_Or[of b] by (simp_all add: type_leaf)

lemma body_cmp_simps [simp]:
  "body_cmp h (CkAnd xs) (CkAnd ys) = list_cmp h xs ys" "body_cmp h (CkOr xs) (CkOr ys) = list_cmp h xs ys"
  "is_leaf a \<Longrightarrow> body_cmp h a b = leaf_cmp h a b"
  by (simp_all add: body_cmp_def) (cases a; simp add: body_cmp_def)

lemma ck_cmp_leaf_laws:
  assumes that: "is_leaf a" "plain a" "plain b" "plain c"
  shows "sgn (ck_cmp h a b) = - sgn (ck_cmp h b a) \<and> cmp_tri (ck_cmp h a b) (ck_cmp h b c) (ck_cmp h a c)"
  unfolding ck_cmp_lex
proof (intro conjI lex_antisym lex_tri diff_laws)
  assume ab: "ck_type a - ck_type b = 0"
  then have b: "is_leaf b" using same_type(3) that by simp
  then have p: "plain_leaf a" "plain_leaf b" using that ck_all_leaf by simp_all
  have eq: "body_cmp h a b = key_cmp (leaf_key a) (leaf_key b)" "body_cmp h b a = key_cmp (leaf_key b) (leaf_key a)"
    using leaf_cmp_key[OF _ p] leaf_cmp_key[OF _ p(2,1)] ab b that(1) by simp_all
  show "sgn (body_cmp h a b) = - sgn (body_cmp h b a)" unfolding eq by (rule key_cmp_laws(1))
  assume bc: "ck_type b - ck_type c = 0"
  then have c: "is_leaf c" "plain_leaf c" using same_type(3) b that ck_all_leaf by simp_all
  have "body_cmp h b c = key_cmp (leaf_key b) (leaf_key c)" "body_cmp h a c = key_cmp (leaf_key a) (leaf_key c)"
    using leaf_cmp_key[OF _ p(2) c(2)] leaf_cmp_key[OF _ p(1) c(2)] ab bc b that(1) by simp_all
  then show "cmp_tri (body_cmp h a b) (body_cmp h b c) (body_cmp h a c)" unfolding eq by (simp only: key_cmp_laws(2))
qed

lemma ck_cmp_laws:
  "plain a \<Longrightarrow> plain b \<Longrightarrow> plain c \<Longrightarrow>
   sgn (ck_cmp h a b) = - sgn (ck_cmp h b a) \<and> cmp_tri (ck_cmp h a b) (ck_cmp h b c) (ck_cmp h a c)"
proof (induction a arbitrary: b c)
  case (CkAnd xs)
  have IH: "sgn (ck_cmp h x b) = - sgn (ck_cmp h b x) \<and> cmp_tri (ck_cmp h x b) (ck_cmp h b c) (ck_cmp h x c)"
    if "x \<in> set xs" "plain b" "plain c" for x b c
    using CkAnd that by (auto simp: list_all_iff)
  show ?case
    unfolding ck_cmp_lex
  proof (intro conjI lex_antisym lex_tri diff_laws)
    assume "ck_type (CkAnd xs) - ck_type b = 0"
    then obtain ys where b: "b = CkAnd ys" using same_type(1) by force
    then show "sgn (body_cmp h (CkAnd xs) b) = - sgn (body_cmp h b (CkAnd xs))"
      using list_cmp_laws(1)[where xs = xs and ys = ys and zs = ys, OF IH] CkAnd.prems by simp
    assume "ck_type b - ck_type c = 0"
    then obtain zs where "c = CkAnd zs" using same_type(1) b by force
    then show "cmp_tri (body_cmp h (CkAnd xs) b) (body_cmp h b c) (body_cmp h (CkAnd xs) c)"
      using list_cmp_laws(2)[where xs = xs and ys = ys and zs = zs, OF IH] CkAnd.prems b by simp
  qed
next
  case (CkOr xs)
  have IH: "sgn (ck_cmp h x b) = - sgn (ck_cmp h b x) \<and> cmp_tri (ck_cmp h x b) (ck_cmp h b c) (ck_cmp h x c)"
    if "x \<in> set xs" "plain b" "plain c" for x b c
    using CkOr that by (auto simp: list_all_iff)
  show ?case
    unfolding ck_cmp_lex
  proof (intro conjI lex_antisym lex_tri diff_laws)
    assume "ck_type (CkOr xs) - ck_type b = 0"
    then obtain ys where b: "b = CkOr ys" using same_type(2) by force
    then show "sgn (body_cmp h (CkOr xs) b) = - sgn (body_cmp h b (CkOr xs))"
      using list_cmp_laws(1)[where xs = xs and ys = ys and zs = ys, OF IH] CkOr.prems by simp
    assume "ck_type b - ck_type c = 0"
    then obtain zs where "c = CkOr zs" using same_type(2) b by force
    then show "cmp_tri (body_cmp h (CkOr xs) b) (body_cmp h b c) (body_cmp h (CkOr xs) c)"
      using list_cmp_laws(2)[where xs = xs and ys = ys and zs = zs, OF IH] CkOr.prems b by simp
  qed
qed (rule ck_cmp_leaf_laws; simp)+

subsection \<open>Sorted operands\<close>

lemma ck_cmps_zero:
  "(\<And>x b. x \<in> set xs \<Longrightarrow> plain b \<Longrightarrow> ck_cmp h x b = 0 \<longleftrightarrow> ck_equals x b) \<Longrightarrow> list_all plain ys \<Longrightarrow>
   length xs = length ys \<Longrightarrow> ck_cmps h xs ys = 0 \<longleftrightarrow> ck_equalss xs ys"
proof (induction xs arbitrary: ys)
  case (Cons x xs)
  then obtain y ys' where "ys = y # ys'" by (cases ys) auto
  then show ?case using Cons by (auto simp: ck_cmps_lex lexc_def)
qed simp

lemma list_cmp_zero:
  assumes "\<And>x b. x \<in> set xs \<Longrightarrow> plain b \<Longrightarrow> ck_cmp h x b = 0 \<longleftrightarrow> ck_equals x b" "list_all plain ys"
  shows "list_cmp h xs ys = 0 \<longleftrightarrow> length xs = length ys \<and> ck_equalss xs ys"
  using ck_cmps_zero[OF assms] by (auto simp: list_cmp_def lexc_def sgn_0_0)

lemma ck_equals_And: "ck_equals (CkAnd xs) b \<longleftrightarrow> (\<exists>ys. b = CkAnd ys \<and> length xs = length ys \<and> ck_equalss xs ys)"
  by (cases b; simp add: ck_equals.simps)

lemma ck_equals_Or: "ck_equals (CkOr xs) b \<longleftrightarrow> (\<exists>ys. b = CkOr ys \<and> length xs = length ys \<and> ck_equalss xs ys)"
  by (cases b; simp add: ck_equals.simps)

lemma ck_equals_leaf: "is_leaf a \<Longrightarrow> ck_equals a b \<longleftrightarrow> ck_type a = ck_type b \<and> leaf_equals a b"
  by (cases a) (auto simp: ck_equals.simps)

lemmas ck_equals_eq = ck_equals_And ck_equals_Or ck_equals_leaf

lemma leaf_cmp_zero:
  assumes "is_leaf a" "plain a" "plain b"
  shows "ck_cmp h a b = 0 \<longleftrightarrow> ck_equals a b"
proof (cases "ck_type a = ck_type b")
  case True
  then have p: "plain_leaf a" "plain_leaf b" using same_type(3)[OF assms(1)] assms ck_all_leaf by simp_all
  show ?thesis
    using True leaf_cmp_key[OF assms(1) p] leaf_equals_key[OF assms(1) p] key_cmp_laws(3) assms(1)
    by (simp add: ck_cmp_lex lexc_def ck_equals_eq(3))
qed (use assms in \<open>simp add: ck_cmp_lex lexc_def ck_equals_eq(3)\<close>)

lemma cmp_zero_equals: "plain a \<Longrightarrow> plain b \<Longrightarrow> ck_cmp h a b = 0 \<longleftrightarrow> ck_equals a b"
proof (induction a arbitrary: b)
  case (CkAnd xs)
  show ?case
  proof (cases "ck_type b = 6")
    case True
    then obtain ys where "b = CkAnd ys" using type_And by blast
    then show ?thesis using CkAnd list_cmp_zero[of xs h ys]
      by (auto simp: ck_cmp_lex lexc_def ck_equals_eq(1) list_all_iff)
  qed (auto simp: ck_cmp_lex lexc_def ck_equals_eq(1))
next
  case (CkOr xs)
  show ?case
  proof (cases "ck_type b = 9")
    case True
    then obtain ys where "b = CkOr ys" using type_Or by blast
    then show ?thesis using CkOr list_cmp_zero[of xs h ys]
      by (auto simp: ck_cmp_lex lexc_def ck_equals_eq(2) list_all_iff)
  qed (auto simp: ck_cmp_lex lexc_def ck_equals_eq(2))
qed (rule leaf_cmp_zero; simp)+

text \<open>The comparison as a comparator of all expressions, those with mixed values after the others.\<close>

definition plain_cmp :: "ck_host \<Rightarrow> ckexpr \<Rightarrow> ckexpr \<Rightarrow> int" where
  "plain_cmp h a b = (if plain a then (if plain b then ck_cmp h a b else - 1) else if plain b then 1 else 0)"

interpretation ck_order: comparator "plain_cmp h" for h
proof unfold_locales
  fix a b c
  show "sgn (plain_cmp h a b) = - sgn (plain_cmp h b a)"
    using ck_cmp_laws[of a b b h] by (auto simp: plain_cmp_def)
  show "plain_cmp h a b \<le> 0 \<Longrightarrow> plain_cmp h b c \<le> 0 \<Longrightarrow> plain_cmp h a c \<le> 0"
    using ck_cmp_laws[of a b c h] by (auto simp: plain_cmp_def cmp_tri_def split: if_splits)
qed

lemma plain_cmp_eq [simp]: "plain a \<Longrightarrow> plain b \<Longrightarrow> plain_cmp h a b = ck_cmp h a b"
  by (simp add: plain_cmp_def)

lemma plain_less_le: "plain a \<Longrightarrow> plain b \<Longrightarrow> plain c \<Longrightarrow> ck_cmp h a b < 0 \<Longrightarrow> ck_cmp h b c \<le> 0 \<Longrightarrow> ck_cmp h a c < 0"
  using ck_order.cmp_trans_less[of h a b c] by simp

lemma plain_le_less: "plain a \<Longrightarrow> plain b \<Longrightarrow> plain c \<Longrightarrow> ck_cmp h a b \<le> 0 \<Longrightarrow> ck_cmp h b c < 0 \<Longrightarrow> ck_cmp h a c < 0"
  using ck_order.cmp_trans_le_less[of h a b c] by simp

lemma plain_sym: "plain a \<Longrightarrow> plain b \<Longrightarrow> ck_cmp h a b > 0 \<longleftrightarrow> ck_cmp h b a < 0"
  using ck_order.cmp_pos_iff[of h a b] by simp

lemma plain_zero_sym: "plain a \<Longrightarrow> plain b \<Longrightarrow> ck_cmp h a b = 0 \<longleftrightarrow> ck_cmp h b a = 0"
  using plain_sym[of a b h] plain_sym[of b a h] by linarith

lemma insert_sorted_cong:
  "(\<And>e. e \<in> set es \<Longrightarrow> c x e = c' x e) \<Longrightarrow> insert_sorted c x es = insert_sorted c' x es"
  by (induction es) auto

lemma js_sort_cong:
  "(\<And>a b. a \<in> set es \<Longrightarrow> b \<in> set es \<Longrightarrow> c a b = c' a b) \<Longrightarrow> js_sort c es = js_sort c' es"
proof (induction es rule: rev_induct)
  case (snoc x es)
  then show ?case using insert_sorted_cong[of "js_sort c' es" c x c'] by (simp add: js_sort_snoc)
qed simp

definition strictly_sorted :: "ck_host \<Rightarrow> ckexpr list \<Rightarrow> bool" where
  "strictly_sorted h es = sorted_wrt (\<lambda>a b. ck_cmp h a b < 0) es"

lemma sorted_ck_sort:
  assumes "list_all plain es"
  shows "sorted_by (ck_cmp h) (ck_sort h es)"
proof -
  have "ck_sort h es = js_sort (plain_cmp h) es"
    unfolding ck_sort_def by (rule js_sort_cong) (use assms in \<open>simp add: list_all_iff\<close>)
  then have "sorted_by (plain_cmp h) (ck_sort h es)" using ck_order.sorted_js_sort[of h es] by simp
  then show ?thesis by (rule sorted_wrt_mono_rel[rotated]) (use assms in \<open>simp add: list_all_iff\<close>)
qed

lemma strictly_sorted_dedupe:
  "list_all plain es \<Longrightarrow> sorted_by (ck_cmp h) es \<Longrightarrow> strictly_sorted h (ck_dedupe es)"
proof (induction es rule: ck_dedupe.induct)
  case (1 x y zs)
  show ?case
  proof (cases "ck_equals x y")
    case False
    then have "ck_cmp h x y \<noteq> 0" using cmp_zero_equals[of x y h] 1(3) by simp
    then have xy: "ck_cmp h x y < 0" using 1(4) by simp
    have "ck_cmp h x z < 0" if "z \<in> set (ck_dedupe (y # zs))" for z
    proof -
      have "z = y \<or> z \<in> set zs" using that ck_dedupe_subset[of "y # zs"] by auto
      then show ?thesis using plain_less_le[of x y z h] xy 1(3,4) by (auto simp: list_all_iff)
    qed
    then show ?thesis using False 1 by (simp add: strictly_sorted_def)
  qed (use 1 in simp)
qed (simp_all add: strictly_sorted_def)

lemma strictly_sorted_or_unique:
  assumes "list_all plain (somes arr)"
  shows "strictly_sorted h (or_unique h arr)"
proof -
  have "list_all plain (or_flat arr)" by (rule flat_ok(1)[OF assms])
  then show ?thesis
    unfolding or_unique_def using strictly_sorted_dedupe[OF _ sorted_ck_sort[of "or_flat arr" h]] by (simp add: list_all_iff)
qed

lemma strictly_sorted_and_unique:
  assumes "list_all plain (somes arr)"
  shows "strictly_sorted h (and_unique h arr)"
proof -
  have "list_all plain (and_flat arr)" by (rule flat_ok(2)[OF assms])
  then show ?thesis
    unfolding and_unique_def using strictly_sorted_dedupe[OF _ sorted_ck_sort[of "and_flat arr" h]] by (simp add: list_all_iff)
qed

subsection \<open>Implication\<close>

lemma allElementsIncluded_sound:
  "allElementsIncluded h ps qs \<Longrightarrow> x \<in> set ps \<Longrightarrow> \<exists>y \<in> set qs. ck_cmp h x y = 0"
  by (induction h ps qs rule: allElementsIncluded.induct) (auto simp: Let_def split: if_splits)

lemma allElementsIncluded_complete:
  "list_all plain ps \<Longrightarrow> list_all plain qs \<Longrightarrow> strictly_sorted h ps \<Longrightarrow> strictly_sorted h qs \<Longrightarrow>
   \<forall>x \<in> set ps. \<exists>y \<in> set qs. ck_cmp h x y = 0 \<Longrightarrow> allElementsIncluded h ps qs"
proof (induction h ps qs rule: allElementsIncluded.induct)
  case (3 h p ps q qs)
  have pl: "plain p" "plain q" "\<And>x. x \<in> set ps \<Longrightarrow> plain x" "\<And>y. y \<in> set qs \<Longrightarrow> plain y"
    and less: "\<And>x. x \<in> set ps \<Longrightarrow> ck_cmp h p x < 0" "\<And>y. y \<in> set qs \<Longrightarrow> ck_cmp h q y < 0"
    using 3 by (auto simp: list_all_iff strictly_sorted_def)
  have rest: "list_all plain ps" "list_all plain qs" "strictly_sorted h ps" "strictly_sorted h qs"
    using 3 by (auto simp: strictly_sorted_def)
  consider "ck_cmp h p q < 0" | "ck_cmp h p q = 0" | "ck_cmp h p q > 0" by linarith
  then show ?case
  proof cases
    case 1
    obtain y where "y = q \<or> y \<in> set qs" "ck_cmp h p y = 0" using 3(7) by auto
    then have False using 1 plain_less_le[of p q y h] less pl by force
    then show ?thesis ..
  next
    case 2
    have "\<exists>y \<in> set qs. ck_cmp h x y = 0" if "x \<in> set ps" for x
    proof -
      have "ck_cmp h q p \<le> 0" using 2 plain_zero_sym[of p q h] pl by simp
      then have "ck_cmp h q x < 0" using plain_le_less[of q p x h] less that pl by simp
      then have "ck_cmp h x q \<noteq> 0" using plain_zero_sym[of x q h] pl that by simp
      then show ?thesis using 3(7) that by auto
    qed
    then show ?thesis using 3(1)[OF refl] 2 rest by simp
  next
    case 3
    have "\<exists>y \<in> set qs. ck_cmp h x y = 0" if "x \<in> set (p # ps)" for x
    proof -
      have qp: "ck_cmp h q p < 0" using 3 plain_sym[of p q h] pl by simp
      have "ck_cmp h q x < 0" using plain_less_le[of q p x h] less that pl qp by (cases "x = p") (auto simp: order_less_imp_le)
      then have "ck_cmp h x q \<noteq> 0" using plain_zero_sym[of x q h] pl that by auto
      then show ?thesis using "3.prems"(5) that by auto
    qed
    then show ?thesis using "3.IH"(2)[OF refl] 3 "3.prems" rest by simp
  qed
qed auto

lemma included_evaluate:
  assumes "allElementsIncluded h ps qs" "x \<in> set ps"
    and "list_all (ck_ok h env F) ps" "list_all (ck_ok h env F) qs" "list_all plain ps" "list_all plain qs"
  shows "\<exists>y \<in> set qs. ck_evaluate env x = ck_evaluate env y"
proof -
  obtain y where y: "y \<in> set qs" "ck_cmp h x y = 0" using allElementsIncluded_sound[OF assms(1,2)] by blast
  then have "ck_equals x y" using cmp_zero_equals[of x y h] assms by (simp add: list_all_iff)
  then show ?thesis using ck_equals_evaluate(1)[of x y h env F] y assms by (auto simp: list_all_iff)
qed

lemma implies_sound:
  "ck_implies h p q \<Longrightarrow> ck_ok h env F p \<Longrightarrow> plain p \<Longrightarrow> ck_ok h env F q \<Longrightarrow> plain q \<Longrightarrow>
   ck_evaluate env p \<Longrightarrow> ck_evaluate env q"
proof (induction h p q rule: ck_implies.induct)
  case (1 h p q)
  consider "p = CkFalse \<or> q = CkTrue" | ps where "p = CkOr ps" "q \<noteq> CkTrue"
    | qs where "\<nexists>ps. p = CkOr ps" "p \<noteq> CkFalse" "q = CkOr qs"
    | ps where "p = CkAnd ps" "\<nexists>qs. q = CkOr qs" "q \<noteq> CkTrue"
    | "is_leaf p" "p \<noteq> CkFalse" "\<nexists>qs. q = CkOr qs" "q \<noteq> CkTrue"
    by (cases p) auto
  then show ?case
  proof cases
    case (2 ps)
    then obtain qs where qs: "q = CkOr qs" "allElementsIncluded h ps qs"
      using 1(3) by (subst (asm) ck_implies.simps) (auto simp: operands_type(2) split: option.splits)
    then show ?thesis using included_evaluate[of h ps qs _ env F] 1 2 by (auto simp: list_ex_iff)
  next
    case (3 qs)
    have o: "or_operands p = None" using 3(1) operands_type(2) by (cases "or_operands p") auto
    then obtain e where e: "e \<in> set qs" "ck_implies h p e"
      using 1(3) 3 by (subst (asm) ck_implies.simps) (auto simp: list_ex_iff)
    then show ?thesis using "1.IH"(2)[OF _ o, of qs e] o 1 3 by (auto simp: list_all_iff list_ex_iff)
  next
    case (4 ps)
    have o: "or_operands q = None" using 4(2) operands_type(2) by (cases "or_operands q") auto
    show ?thesis
    proof (cases "and_operands q")
      case None
      then obtain e where e: "e \<in> set ps" "ck_implies h e q"
        using 1(3) 4 o by (subst (asm) ck_implies.simps) (auto simp: list_ex_iff)
      then show ?thesis using "1.IH"(1)[OF _ _ o _ None, of ps e] o None 1 4 by (auto simp: list_all_iff)
    next
      case (Some qs)
      then have qs: "q = CkAnd qs" "allElementsIncluded h qs ps"
        using 1(3) 4 by (subst (asm) ck_implies.simps, auto simp: operands_type(1))+
      then show ?thesis using included_evaluate[of h qs ps _ env F] 1 4 by (fastforce simp: list_all_iff)
    qed
  next
    case 5
    have "or_operands q = None" using 5(3) operands_type(2) by (cases "or_operands q") auto
    then have "ck_equals p q"
      using 1(3) 5 operands_type(3)[of p] by (subst (asm) ck_implies.simps) auto
    then show ?thesis using ck_equals_evaluate(1) 1 by metis
  qed (use 1 in auto)
qed

text \<open>
  C23. \<open>implies\<close> is sound: when it returns true, every context both expressions agree with that satisfies the
  first satisfies the second, provided \<open>==\<close> is used with strings and the comparisons with numbers. On two conjunctions
  with strictly sorted operands it is exact: it holds just when every operand of the second equals one of the first;
  likewise, the other way round, for disjunctions.
\<close>

theorem implies_correct:
  assumes "plain p" "plain q"
  shows "(ck_implies h p q \<longrightarrow> ck_ok h env F p \<longrightarrow> ck_ok h env F q \<longrightarrow> ck_evaluate env p \<longrightarrow> ck_evaluate env q) \<and>
         (\<forall>ps qs. p = CkAnd ps \<longrightarrow> q = CkAnd qs \<longrightarrow> strictly_sorted h ps \<longrightarrow> strictly_sorted h qs \<longrightarrow>
            ck_implies h p q = (\<forall>y \<in> set qs. \<exists>x \<in> set ps. ck_equals y x)) \<and>
         (\<forall>ps qs. p = CkOr ps \<longrightarrow> q = CkOr qs \<longrightarrow> strictly_sorted h ps \<longrightarrow> strictly_sorted h qs \<longrightarrow>
            ck_implies h p q = (\<forall>x \<in> set ps. \<exists>y \<in> set qs. ck_equals x y))"
proof -
  have inc: "allElementsIncluded h xs ys = (\<forall>x \<in> set xs. \<exists>y \<in> set ys. ck_equals x y)"
    if "list_all plain xs" "list_all plain ys" "strictly_sorted h xs" "strictly_sorted h ys" for xs ys
  proof -
    have "(\<forall>x \<in> set xs. \<exists>y \<in> set ys. ck_equals x y) = (\<forall>x \<in> set xs. \<exists>y \<in> set ys. ck_cmp h x y = 0)"
      using that cmp_zero_equals by (simp add: list_all_iff)
    then show ?thesis using allElementsIncluded_complete[OF that] allElementsIncluded_sound by blast
  qed
  show ?thesis
    using implies_sound[of h p q env F] assms inc by (auto simp: ck_implies.simps)
qed

theorem implies_correct_witness:
  "ck_implies plain_host (CkAnd [CkDefined [97], CkNot [98]]) (CkAnd [CkNot [98]])"
  using implies_correct[of "CkAnd [CkDefined [97], CkNot [98]]" "CkAnd [CkNot [98]]" plain_host "plain_env (\<lambda>k. NullC)" "\<lambda>_. []"]
  by (simp add: strictly_sorted_def ck_cmp.simps ck_equals.simps)

subsection \<open>Normal forms\<close>

text \<open>No disjunction; a disjunction at most at the top: what can be written without parentheses.\<close>

fun or_free :: "ckexpr \<Rightarrow> bool" where
  "or_free (CkAnd es) = list_all or_free es"
| "or_free (CkOr es) = False"
| "or_free e = True"

definition flat_dnf :: "ckexpr \<Rightarrow> bool" where
  "flat_dnf e = (case or_operands e of Some es \<Rightarrow> list_all or_free es | None \<Rightarrow> or_free e)"

lemma flat_dnf_simps [simp]: "flat_dnf (CkOr es) = list_all or_free es" "or_free e \<Longrightarrow> flat_dnf e"
  by (simp_all add: flat_dnf_def) (cases e; simp)

lemma flat_dnf_not_Or: "flat_dnf e \<Longrightarrow> ck_type e \<noteq> 9 \<Longrightarrow> or_free e"
  by (cases e) (auto simp: flat_dnf_def)

lemma flat_dnf_or_terms: "flat_dnf e \<Longrightarrow> x \<in> set (or_terms e) \<Longrightarrow> or_free x"
  by (cases e) (auto simp: flat_dnf_def list_all_iff)

lemma or_normalize_flat_dnf:
  assumes "list_all flat_dnf (somes arr)" "or_normalize h neg arr chk = Some r"
  shows "flat_dnf r"
proof -
  have u: "list_all or_free (or_unique h arr)"
    using or_unique_subset[of h arr] assms(1) flat_dnf_or_terms by (fastforce simp: list_all_iff)
  moreover have "or_unique h arr \<noteq> [] \<Longrightarrow> or_free (hd (or_unique h arr))"
    using u by (cases "or_unique h arr") auto
  ultimately show ?thesis using assms(2) by (auto simp: or_normalize_eq split: if_splits)
qed

abbreviation type_sorted :: "ckexpr list \<Rightarrow> bool" where
  "type_sorted \<equiv> sorted_wrt (\<lambda>a b. ck_type a \<le> ck_type b)"

lemma type_sorted_insert: "type_sorted es \<Longrightarrow> type_sorted (insert_sorted (ck_cmp h) x es)"
proof (induction es)
  case (Cons e es)
  have "ck_cmp h x e < 0 \<Longrightarrow> ck_type x \<le> ck_type e" "\<not> ck_cmp h x e < 0 \<Longrightarrow> ck_type e \<le> ck_type x"
    by (auto simp: ck_cmp_lex lexc_def split: if_splits)
  then show ?case using Cons by fastforce
qed simp

lemma type_sorted_ck_sort [simp]: "type_sorted (ck_sort h es)"
  unfolding ck_sort_def by (induction es rule: rev_induct) (auto simp: js_sort_snoc type_sorted_insert)

lemma type_sorted_dedupe: "type_sorted es \<Longrightarrow> type_sorted (ck_dedupe es)"
proof (induction es rule: ck_dedupe.induct)
  case (1 x y zs)
  then show ?case using ck_dedupe_subset[of "y # zs"] by (auto simp: subset_eq)
qed simp_all

lemma and_distribute_final:
  "length (and_distribute h ac oc expr) \<le> 1 \<or> (\<forall>os. last (and_distribute h ac oc expr) \<noteq> CkOr os)"
proof (induction expr rule: length_induct)
  case (1 expr)
  show ?case
  proof (cases expr rule: distribute_cases)
    case stop
    then show ?thesis by (simp add: and_distribute_stop)
  next
    case (step others s os)
    have "length (distribute_step h ac oc others s os) < length expr"
      using length_distribute_step[of h ac oc others s os] by (simp add: step)
    then show ?thesis unfolding step and_distribute_step using 1 step by blast
  qed
qed

definition simple_leaf :: "ckexpr \<Rightarrow> bool" where
  "simple_leaf e = (ck_type e < 9)"

lemma simple_type: "ck_all simple_leaf e \<Longrightarrow> ck_type e \<le> 9"
  by (cases e) (auto simp: simple_leaf_def)

lemma constants_allowed_simple [simp]: "constants_allowed simple_leaf"
  by (simp add: constants_allowed_def simple_leaf_def)

definition simple_terms :: "nat \<Rightarrow> ckexpr list \<Rightarrow> bool" where
  "simple_terms n es = (all_terms simple_leaf es \<and> list_all flat_dnf es \<and> type_sorted es \<and> depth_sum es \<le> n)"

lemma simple_terms_final:
  assumes "simple_terms n es" "length es \<le> 1 \<or> (\<forall>os. last es \<noteq> CkOr os)" "length es \<noteq> 1"
  shows "list_all or_free es"
proof -
  have e: "all_terms simple_leaf es" "list_all flat_dnf es" "type_sorted es" using assms(1) by (auto simp: simple_terms_def)
  have ne: "es \<noteq> []" using e by simp
  have l: "\<forall>os. last es \<noteq> CkOr os" using assms(2,3) ne by (cases es) auto
  have "ck_type (last es) \<le> 9" using e ne simple_type by (simp add: list_all_iff)
  then have "ck_type (last es) < 9" using l type_Or[of "last es"] by (cases "ck_type (last es) = 9") auto
  moreover have "ck_type x \<le> ck_type (last es)" if "x \<in> set es" for x
    using that e(3) ne by (cases es rule: rev_cases) (auto simp: sorted_wrt_append)
  ultimately show ?thesis using e(2) flat_dnf_not_Or by (fastforce simp: list_all_iff)
qed

lemma and_normalize_flat_dnf:
  "list_all flat_dnf (somes arr) \<Longrightarrow> list_all (ck_all simple_leaf) (somes arr) \<Longrightarrow> args_depth arr \<le> d \<Longrightarrow>
   and_normalize h neg d arr chk = Some r \<Longrightarrow> flat_dnf r"
proof (induction d arbitrary: arr r rule: less_induct)
  case (less d)
  show ?case
  proof (cases "CkFalse \<in> set (somes arr) \<or> and_flat arr = []")
    case False
    have terms: "flat_dnf x" if "flat_dnf e" "x \<in> set (and_terms e)" for e x
    proof (cases "\<exists>es. e = CkAnd es")
      case True
      then have "or_free x" using that by (auto simp: flat_dnf_def list_all_iff)
      then show ?thesis by simp
    qed (use that in \<open>cases e; auto\<close>)
    have u: "simple_terms (args_depth arr) (and_unique h arr)"
      unfolding simple_terms_def
    proof (intro conjI)
      show "list_all (ck_all simple_leaf) (and_unique h arr)"
        using flat_ok(2)[OF less.prems(2)] and_unique_subset[of h arr] by (auto simp: list_all_iff)
      show "list_all flat_dnf (and_unique h arr)"
        using and_unique_subset[of h arr] less.prems(1) terms by (fastforce simp: list_all_iff)
    qed (use False depth_sum_and_unique in \<open>simp_all add: and_unique_def type_sorted_dedupe\<close>)
    let ?D = "and_distributed h neg d arr chk"
    have D: "simple_terms (args_depth arr) ?D \<and> (length ?D \<le> 1 \<or> (\<forall>os. last ?D \<noteq> CkOr os))"
    proof (cases d)
      case 0
      then have "depth_sum (and_unique h arr) = 0" using depth_sum_and_unique[of h arr] less.prems(3) by simp
      then have "and_distribute h ac oc (and_unique h arr) = and_unique h arr" for ac oc by (rule and_distribute_no_or)
      then show ?thesis using u and_distribute_final[of h _ _ "and_unique h arr"] by (simp add: and_distributed_def 0)
    next
      case (Suc d')
      let ?ac = "\<lambda>a. and_normalize h neg d' a chk"
      have "simple_terms (args_depth arr) (and_distribute h ?ac (or_normalize h neg) (and_unique h arr))"
      proof (rule and_distribute_invariant[where I = "simple_terms (args_depth arr)", OF u])
        fix others s os
        assume "simple_terms (args_depth arr) (others @ [s, CkOr os])"
        then have a: "list_all (ck_all simple_leaf) (others @ [s, CkOr os])" "list_all flat_dnf (others @ [s, CkOr os])"
          "depth_sum (others @ [s, CkOr os]) \<le> args_depth arr"
          by (simp_all add: simple_terms_def)
        have ac: "\<exists>r. ?ac [Some a, Some b] = Some r \<and> ck_all simple_leaf r"
          if "ck_all simple_leaf a" "ck_all simple_leaf b" for a b
        proof -
          have l: "list_all (ck_all simple_leaf) (somes [Some a, Some b])" using that by simp
          then obtain r where "?ac [Some a, Some b] = Some r" using and_normalize_None[OF l, of h neg d' chk] by auto
          then show ?thesis using and_normalize_all[OF constants_allowed_simple l] by blast
        qed
        obtain rs r where rs: "map (\<lambda>el. ?ac [Some el, Some s]) os = map Some rs"
          "or_normalize h neg (map Some rs) (others = []) = Some r" "ck_all simple_leaf r"
          "distribute_step h ?ac (or_normalize h neg) others s os = ck_sort h (others @ [r])"
          using distribute_step_all[where P = simple_leaf and ac = ?ac and others = others and s = s and os = os
              and h = h and neg = neg, OF constants_allowed_simple a(1) ac] by blast
        have "flat_dnf x" if "x \<in> set rs" for x
        proof -
          have "Some x \<in> set (map (\<lambda>el. ?ac [Some el, Some s]) os)" using that unfolding rs(1) by simp
          then obtain el where el: "el \<in> set os" "?ac [Some el, Some s] = Some x" by auto
          have "args_depth [Some el, Some s] \<le> d'"
            using or_depth_less[OF el(1)] a(3) less.prems(3) Suc by (simp add: args_depth_somes)
          moreover have "list_all flat_dnf (somes [Some el, Some s])" "list_all (ck_all simple_leaf) (somes [Some el, Some s])"
            using a(1,2) el(1) by (auto simp: list_all_iff)
          ultimately show ?thesis using less.IH[of d' "[Some el, Some s]" x] el(2) Suc by simp
        qed
        then have "flat_dnf r" using or_normalize_flat_dnf[OF _ rs(2)] by (simp add: list_all_iff)
        moreover have "depth_sum (distribute_step h ?ac (or_normalize h neg) others s os) \<le> args_depth arr"
        proof -
          have dep: "or_depth r \<le> or_depth a + or_depth b" if "?ac [Some a, Some b] = Some r" for a b r
            using and_normalize_depth[OF that] by (simp add: args_depth_somes)
          show ?thesis using distribute_step_depth[of ?ac h neg others s os, OF dep] a(3) by linarith
        qed
        ultimately show "simple_terms (args_depth arr) (distribute_step h ?ac (or_normalize h neg) others s os)"
          using a(1,2) rs(3) unfolding rs(4) by (auto simp: simple_terms_def list_all_iff)
      qed
      then show ?thesis using and_distribute_final by (simp add: and_distributed_def Suc)
    qed
    then have hd: "?D \<noteq> []" "flat_dnf (hd ?D)" by (auto simp: simple_terms_def list_all_iff)
    have "flat_dnf (CkAnd ?D)" if "length ?D \<noteq> 1"
      using simple_terms_final[of "args_depth arr" ?D] D that by (auto intro!: flat_dnf_simps(2))
    then show ?thesis using less.prems(4) False hd(2) by (auto simp: and_normalize_eq split: if_splits)
  qed (use less.prems in \<open>auto simp: and_normalize_eq split: if_splits\<close>)
qed

text \<open>
  Operands that need no parentheses give a conjunction and a disjunction that need none: disjunctions
  are distributed, also those that the distribution makes. For a conjunction this needs that no
  operand tests \<open>in\<close>, \<open>not in\<close> or compares numbers. The operands of the disjunction are in strictly ascending order, so no
  two of them are equal.
\<close>

theorem create_normal_form:
  assumes "list_all flat_dnf (somes arr)"
  shows "(list_all (ck_all simple_leaf) (somes arr) \<longrightarrow>
            (case ContextKeyAndExpr_create h arr chk of None \<Rightarrow> True | Some r \<Rightarrow> flat_dnf r)) \<and>
         (case ContextKeyOrExpr_create h arr chk of
            None \<Rightarrow> True
          | Some r \<Rightarrow> flat_dnf r \<and>
              (\<forall>es. list_all plain (somes arr) \<longrightarrow> r = CkOr es \<longrightarrow> strictly_sorted h es))"
proof (intro conjI impI)
  assume "list_all (ck_all simple_leaf) (somes arr)"
  then show "case ContextKeyAndExpr_create h arr chk of None \<Rightarrow> True | Some r \<Rightarrow> flat_dnf r"
    using and_normalize_flat_dnf[OF assms _ order_refl] by (simp add: ContextKeyAndExpr_create_def split: option.split)
next
  have "or_free x" if "x \<in> set (or_unique h arr)" for x
  proof -
    have "x \<in> set (or_flat arr)" using that or_unique_subset by blast
    then obtain e where "e \<in> set (somes arr)" "x \<in> set (or_terms e)" by auto
    then show ?thesis using assms flat_dnf_or_terms[of e x] by (simp add: list_all_iff)
  qed
  then have nOr: "hd (or_unique h arr) \<noteq> CkOr es" if "or_flat arr \<noteq> []" for es
    using that or_unique_Nil[of h arr] by (metis hd_in_set or_free.simps(2))
  have "strictly_sorted h es"
    if "list_all plain (somes arr)" "or_normalize h neg arr chk = Some (CkOr es)" for es neg
    using strictly_sorted_or_unique[OF that(1), of h] that(2) nOr by (auto simp: or_normalize_eq simp del: concat_eq_Nil_conv split: if_splits)
  then show "case ContextKeyOrExpr_create h arr chk of
            None \<Rightarrow> True
          | Some r \<Rightarrow> flat_dnf r \<and>
              (\<forall>es. list_all plain (somes arr) \<longrightarrow> r = CkOr es \<longrightarrow> strictly_sorted h es)"
    using or_normalize_flat_dnf[OF assms] by (auto simp: ContextKeyOrExpr_create_def split: option.split)
qed

theorem create_normal_form_witness:
  "case ContextKeyAndExpr_create plain_host [Some (CkDefined [97]), Some (CkOr [CkNot [98], CkDefined [99]])] True of
     None \<Rightarrow> True | Some r \<Rightarrow> flat_dnf r"
  using create_normal_form[of "[Some (CkDefined [97]), Some (CkOr [CkNot [98], CkDefined [99]])]" plain_host True]
  by (simp add: simple_leaf_def)

section \<open>Behaviour on other expressions\<close>

text \<open>
  The comment on the distribution says a disjunction is at the end of the sorted operands. An operand
  that tests \<open>in\<close> or compares numbers comes after it, and then nothing is distributed: \<open>(a || b) && x > 5\<close> is kept as it is and
  written without its parentheses, as the different expression \<open>a || b && x > 5\<close> is.
\<close>

lemma distribution_misses_comparisons:
  "ContextKeyAndExpr_create plain_host [Some (CkOr [CkDefined [97], CkDefined [98]]), Some (CkGreater [120] (NumV 5))] True =
     Some (CkAnd [CkOr [CkDefined [97], CkDefined [98]], CkGreater [120] (NumV 5)]) \<and>
   ck_serialize plain_host (CkAnd [CkOr [CkDefined [97], CkDefined [98]], CkGreater [120] (NumV 5)]) =
     ck_serialize plain_host (CkOr [CkDefined [97], CkAnd [CkDefined [98], CkGreater [120] (NumV 5)]]) \<and>
   ck_evaluate (plain_env (\<lambda>k. NumberC 1)) (CkAnd [CkOr [CkDefined [97], CkDefined [98]], CkGreater [120] (NumV 5)]) \<noteq>
     ck_evaluate (plain_env (\<lambda>k. NumberC 1)) (CkOr [CkDefined [97], CkAnd [CkDefined [98], CkGreater [120] (NumV 5)]])"
proof (intro conjI)
  have s: "ck_sort plain_host [CkOr [CkDefined [97], CkDefined [98]], CkGreater [120] (NumV 5)] =
      [CkOr [CkDefined [97], CkDefined [98]], CkGreater [120] (NumV 5)]"
    by (simp add: ck_sort_def js_sort_def ck_cmp.simps)
  show "ContextKeyAndExpr_create plain_host [Some (CkOr [CkDefined [97], CkDefined [98]]), Some (CkGreater [120] (NumV 5))] True =
     Some (CkAnd [CkOr [CkDefined [97], CkDefined [98]], CkGreater [120] (NumV 5)])"
    unfolding ContextKeyAndExpr_create_def
    by (subst and_normalize.simps)
      (simp add: s ck_equals.simps args_depth_def and_distribute_stop ContextKey_negate_def ck_negate_Or
        or_normalize_eq or_unique_def ck_sort_def js_sort_def ck_cmp.simps leaf_negate_def Not_create_def plain_host_def
        or_negate_loop.simps and_normalize_eq and_distributed_def and_unique_def cmp1_def or_else_def getTerminals_def)
  show "ck_serialize plain_host (CkAnd [CkOr [CkDefined [97], CkDefined [98]], CkGreater [120] (NumV 5)]) =
     ck_serialize plain_host (CkOr [CkDefined [97], CkAnd [CkDefined [98], CkGreater [120] (NumV 5)]])"
    by simp
qed (simp add: plain_env_def compare_evaluate_def)

text \<open>
  A comparison and its negation are both false for a key that is no number, yet
  their disjunction is replaced by true.
\<close>

lemma comparison_complement:
  "ContextKeyOrExpr_create plain_host [Some (CkGreater [120] (NumV 5)), Some (CkSmallerEquals [120] (NumV 5))] True = Some CkTrue \<and>
   \<not> ck_evaluate (plain_env (\<lambda>k. UndefinedC)) (CkOr [CkGreater [120] (NumV 5), CkSmallerEquals [120] (NumV 5)])"
  by (simp add: ContextKeyOrExpr_create_def or_normalize_def ck_sort_def js_sort_def ck_cmp.simps ck_equals.simps
      ContextKey_negate_def leaf_negate_def SmallerEquals_create_def withFloatOrStr_def plain_env_def compare_evaluate_def)

text \<open>
  Two regular expressions with one source are equal whatever their flags, so one of them is dropped
  and the meaning changes.
\<close>

lemma regex_flags_ignored:
  "\<exists>env. ContextKeyOrExpr_create plain_host [Some (CkRegex [107] (Some \<lparr>rx_source = [97], rx_flags = []\<rparr>)),
           Some (CkRegex [107] (Some \<lparr>rx_source = [97], rx_flags = [105]\<rparr>))] True =
         Some (CkRegex [107] (Some \<lparr>rx_source = [97], rx_flags = []\<rparr>)) \<and>
       \<not> ck_evaluate env (CkRegex [107] (Some \<lparr>rx_source = [97], rx_flags = []\<rparr>)) \<and>
       ck_evaluate env (CkRegex [107] (Some \<lparr>rx_source = [97], rx_flags = [105]\<rparr>))"
proof (intro exI conjI)
  let ?env = "(plain_env (\<lambda>k. StringC [65]))\<lparr>ce_test := \<lambda>r v. rx_flags r = [105]\<rparr>"
  show "\<not> ck_evaluate ?env (CkRegex [107] (Some \<lparr>rx_source = [97], rx_flags = []\<rparr>))"
    "ck_evaluate ?env (CkRegex [107] (Some \<lparr>rx_source = [97], rx_flags = [105]\<rparr>))" by simp_all
qed (simp add: ContextKeyOrExpr_create_def or_normalize_def ck_sort_def js_sort_def ck_cmp.simps ck_equals.simps
    regex_cmp_def regex_source_def)

text \<open>A number and a string that is none compare as equal, so \<open>implies\<close> takes one test for the other.\<close>

lemma implies_mixed_values:
  "ck_implies plain_host (CkAnd [CkDefined [97], CkEquals [107] (NumV 1)]) (CkAnd [CkDefined [97], CkEquals [107] (StrV [120])]) \<and>
   ck_evaluate (plain_env (\<lambda>k. NumberC 1)) (CkAnd [CkDefined [97], CkEquals [107] (NumV 1)]) \<and>
   \<not> ck_evaluate (plain_env (\<lambda>k. NumberC 1)) (CkAnd [CkDefined [97], CkEquals [107] (StrV [120])])"
  by (simp add: ck_implies.simps ck_cmp.simps cmp1_def cmp2_def value_less_def plain_host_def plain_env_def)

end
