(* ===== verification/MemoryStore.thy ===== *)
theory MemoryStore
  imports JsStrings
begin

text \<open>
  The bounded memory of a profile, \<^verbatim>\<open>vs/latentRuntime/node/memory/memoryStore.ts\<close>: the entries of
  \<^verbatim>\<open>MEMORY.md\<close> and \<^verbatim>\<open>USER.md\<close>, the write operations with their guards, the staged changes, and the prompt.

  The state has the text of the two files and of \<^verbatim>\<open>pending.json\<close>. Writers of the runtime take the lock, so an operation is one
  step; a program that does not take it may change the file between the two reads of \<open>apply\<close> (the argument
  \<open>meanwhile\<close>). Files that are not valid UTF-8, the lock file and the directory of long entries are left out.
  The pattern list of \<^verbatim>\<open>memorySafety.ts\<close> is the parameter \<open>tc_patterns\<close>: it is a table of regular expressions applied after Unicode
  normalisation.
\<close>

section \<open>Settings and state\<close>

datatype mem_target = MemoryT | UserT | OtherT

datatype mem_action = AddA | ReplaceA | RemoveA | OtherA

record mem_operation =
  mp_action :: mem_action
  mp_content :: "jsstring option"
  mp_oldText :: "jsstring option"

record mem_write_op =
  mw_action :: mem_action
  mw_operations :: "mem_operation list option"
  mw_target :: mem_target
  mw_content :: "jsstring option"
  mw_oldText :: "jsstring option"

record pending_change =
  pc_id :: jsstring
  pc_summary :: jsstring
  pc_op :: mem_write_op

record mem_config =
  mc_memory_enabled :: "bool option"
  mc_user_profile_enabled :: "bool option"
  mc_write_approval :: "bool option"
  mc_memory_char_limit :: "int option"
  mc_user_char_limit :: "int option"
  mc_nudge_interval :: "int option"

record mem_options =
  mo_memory_enabled :: bool
  mo_user_profile_enabled :: bool
  mo_write_approval :: bool
  mo_memory_char_limit :: int
  mo_user_char_limit :: int
  mo_nudge_interval :: int

record mem_store =
  ms_memory :: jsstring
  ms_user :: jsstring
  ms_pending :: "pending_change list"

definition or_default :: "'a option \<Rightarrow> 'a \<Rightarrow> 'a" where
  "or_default x d = (case x of None \<Rightarrow> d | Some y \<Rightarrow> y)"

text \<open>\<open>None\<close> is a store made without \<open>readOptions\<close>. A configuration value is of its declared type.\<close>

definition memory_options :: "mem_config option \<Rightarrow> mem_options result" where
  "memory_options config =
     (let m = (case config of
                 None \<Rightarrow> \<lparr>mo_memory_enabled = True, mo_user_profile_enabled = True, mo_write_approval = True,
                          mo_memory_char_limit = 2200, mo_user_char_limit = 1375, mo_nudge_interval = 10\<rparr>
               | Some c \<Rightarrow>
                   \<lparr>mo_memory_enabled = or_default (mc_memory_enabled c) True,
                    mo_user_profile_enabled = or_default (mc_user_profile_enabled c) True,
                    mo_write_approval = or_default (mc_write_approval c) False,
                    mo_memory_char_limit = or_default (mc_memory_char_limit c) 2200,
                    mo_user_char_limit = or_default (mc_user_char_limit c) 1375,
                    mo_nudge_interval = or_default (mc_nudge_interval c) 10\<rparr>)
      in if mo_memory_char_limit m < 1 \<or> mo_user_char_limit m < 1 \<or> mo_nudge_interval m < 0 then Inl JsError
         else Inr m)"

definition fileFor :: "mem_target \<Rightarrow> mem_store \<Rightarrow> jsstring" where
  "fileFor target st = (if target = MemoryT then ms_memory st else ms_user st)"

definition writeFile :: "mem_target \<Rightarrow> jsstring \<Rightarrow> mem_store \<Rightarrow> mem_store" where
  "writeFile target content st = (if target = MemoryT then st\<lparr>ms_memory := content\<rparr> else st\<lparr>ms_user := content\<rparr>)"

definition mem_limit :: "mem_options \<Rightarrow> mem_target \<Rightarrow> int" where
  "mem_limit settings target =
     (if target = MemoryT then mo_memory_char_limit settings else mo_user_char_limit settings)"

section \<open>Entries\<close>

definition delimiter :: jsstring where
  "delimiter = [10, 167, 10]"

definition strip_bom :: "jsstring \<Rightarrow> jsstring" where
  "strip_bom raw = (case raw of c # rest \<Rightarrow> if c = 0xFEFF then rest else raw | [] \<Rightarrow> [])"

text \<open>\<open>/^# (Memory|User profile)/\<close>: what follows the title.\<close>

definition after_title :: "jsstring \<Rightarrow> jsstring option" where
  "after_title text =
     (if js_startsWith text (js_lit ''# Memory'') then Some (drop 8 text)
      else if js_startsWith text (js_lit ''# User profile'') then Some (drop 14 text)
      else None)"

text \<open>\<open>\s*(\n|$)\<close> after the title.\<close>

definition is_legacy :: "jsstring \<Rightarrow> bool" where
  "is_legacy text =
     (case after_title text of
        None \<Rightarrow> False
      | Some rest \<Rightarrow> dropWhile is_space rest = [] \<or> 10 \<in> set (takeWhile is_space rest))"

text \<open>\<open>split(/\n(?=- )/)\<close>.\<close>

fun split_bullets :: "jsstring \<Rightarrow> jsstring list" where
  "split_bullets [] = [[]]"
| "split_bullets (c # s) =
     (if c = 10 \<and> js_startsWith s (js_lit ''- '') then [] # split_bullets s
      else (c # hd (split_bullets s)) # tl (split_bullets s))"

definition strip_bullet :: "jsstring \<Rightarrow> jsstring" where
  "strip_bullet entry = (if js_startsWith entry (js_lit ''- '') then drop 2 entry else entry)"

definition mem_entries :: "jsstring \<Rightarrow> jsstring list" where
  "mem_entries raw =
     (let text = js_trim (strip_bom raw)
      in if is_legacy text
         then filter (\<lambda>e. e \<noteq> []) (map (\<lambda>e. js_trim (strip_bullet e))
                (split_bullets (dropWhile is_space (case after_title text of None \<Rightarrow> text | Some rest \<Rightarrow> rest))))
         else filter (\<lambda>e. e \<noteq> []) (map js_trim (js_split_text delimiter text)))"

text \<open>\<open>[...new Set(entries)]\<close>.\<close>

definition set_list :: "'a list \<Rightarrow> 'a list" where
  "set_list xs = rev (remdups (rev xs))"

definition join_entries :: "jsstring list \<Rightarrow> jsstring" where
  "join_entries es = join_with delimiter es"

section \<open>The threat check\<close>

record threat_check =
  tc_patterns :: "jsstring \<Rightarrow> jsstring option"

definition invisible :: "nat \<Rightarrow> bool" where
  "invisible c =
     (0x200B \<le> c \<and> c \<le> 0x200D \<or> c = 0x2060 \<or> 0x2062 \<le> c \<and> c \<le> 0x2064 \<or> c = 0xFEFF \<or>
      0x202A \<le> c \<and> c \<le> 0x202E \<or> 0x2066 \<le> c \<and> c \<le> 0x2069)"

definition memoryThreat :: "threat_check \<Rightarrow> jsstring \<Rightarrow> jsstring option" where
  "memoryThreat tc content =
     (let text = take 65536 content
      in if list_ex invisible text then Some (js_lit ''invisible_unicode'') else tc_patterns tc text)"

section \<open>Writing\<close>

datatype mem_refusal =
    InvalidTarget | StoreDisabled | OperationCount | UnknownAction | EmptyOrDelimited | BlockedContent jsstring
  | OldTextMissing | MultipleMatches | NoMatch | EmptiesMemory | OverLimit | ChangedOnDisk | UnknownStaged | Discarded

text \<open>\<open>AlreadyThere\<close> and \<open>Saved\<close> are \<open>applied: true\<close>.\<close>

datatype mem_outcome = Refused mem_refusal | Staged jsstring jsstring | AlreadyThere | Saved

definition applied :: "mem_outcome \<Rightarrow> bool" where
  "applied r = (r = AlreadyThere \<or> r = Saved)"

definition op_content :: "mem_operation \<Rightarrow> jsstring" where
  "op_content operation = (case mp_content operation of None \<Rightarrow> [] | Some t \<Rightarrow> js_trim t)"

definition op_old :: "mem_operation \<Rightarrow> jsstring" where
  "op_old operation = (case mp_oldText operation of None \<Rightarrow> [] | Some t \<Rightarrow> js_trim t)"

text \<open>\<open>entries.splice(entries.indexOf(match), 1, ...)\<close>.\<close>

fun splice_entry :: "jsstring \<Rightarrow> jsstring list \<Rightarrow> jsstring list \<Rightarrow> jsstring list" where
  "splice_entry match new [] = []"
| "splice_entry match new (e # es) = (if e = match then new @ es else e # splice_entry match new es)"

text \<open>The body of the loop over the operations, and the loop.\<close>

definition apply_operation ::
    "threat_check \<Rightarrow> mem_operation \<Rightarrow> jsstring list \<Rightarrow> mem_refusal + jsstring list" where
  "apply_operation tc operation entries =
     (let content = op_content operation; old = op_old operation
      in if mp_action operation = OtherA then Inl UnknownAction
         else if mp_action operation \<noteq> RemoveA \<and> (content = [] \<or> js_includes content delimiter) then Inl EmptyOrDelimited
         else if mp_action operation \<noteq> RemoveA \<and> memoryThreat tc content \<noteq> None
         then Inl (BlockedContent (the (memoryThreat tc content)))
         else if mp_action operation = AddA then
           Inr (if content \<in> set entries then entries else entries @ [content])
         else if old = [] then Inl OldTextMissing
         else
           (case filter (\<lambda>entry. js_includes entry old) entries of
              [] \<Rightarrow> Inl NoMatch
            | [match] \<Rightarrow> Inr (splice_entry match (if mp_action operation = ReplaceA then [content] else []) entries)
            | _ \<Rightarrow> Inl MultipleMatches))"

fun apply_operations ::
    "threat_check \<Rightarrow> mem_operation list \<Rightarrow> jsstring list \<Rightarrow> mem_refusal + jsstring list" where
  "apply_operations tc [] entries = Inr entries"
| "apply_operations tc (operation # operations) entries =
     (case apply_operation tc operation entries of
        Inl r \<Rightarrow> Inl r
      | Inr entries' \<Rightarrow> apply_operations tc operations entries')"

definition op_list :: "mem_write_op \<Rightarrow> mem_operation list" where
  "op_list op =
     (case mw_operations op of
        Some operations \<Rightarrow> operations
      | None \<Rightarrow> [\<lparr>mp_action = mw_action op, mp_content = mw_content op, mp_oldText = mw_oldText op\<rparr>])"

fun target_text :: "mem_target \<Rightarrow> jsstring" where
  "target_text MemoryT = js_lit ''memory''"
| "target_text UserT = js_lit ''user''"
| "target_text OtherT = []"

fun action_text :: "mem_action \<Rightarrow> jsstring" where
  "action_text AddA = js_lit ''add''"
| "action_text ReplaceA = js_lit ''replace''"
| "action_text RemoveA = js_lit ''remove''"
| "action_text OtherA = []"

definition change_summary :: "mem_write_op \<Rightarrow> jsstring" where
  "change_summary op =
     target_text (mw_target op) @ js_lit '': '' @
     join_with (js_lit ''; '')
       (map (\<lambda>operation. action_text (mp_action operation) @ js_lit '' '' @
               take 80 (case mp_oldText operation of
                          Some t \<Rightarrow> t
                        | None \<Rightarrow> (case mp_content operation of Some t \<Rightarrow> t | None \<Rightarrow> [])))
          (op_list op))"

text \<open>
  \<open>apply\<close>. \<open>fresh\<close> is the UUID a staged change gets; \<open>meanwhile\<close> is the text another program has
  written to the file since it was read, if one has.
\<close>

definition mem_apply ::
    "threat_check \<Rightarrow> mem_config option \<Rightarrow> jsstring \<Rightarrow> jsstring option \<Rightarrow> mem_write_op \<Rightarrow> bool \<Rightarrow> mem_store \<Rightarrow>
     (mem_outcome \<times> mem_store) result" where
  "mem_apply tc config fresh meanwhile op confirmed st =
     (let target = mw_target op
      in if target = OtherT then Inr (Refused InvalidTarget, st)
         else bindR (memory_options config) (\<lambda>settings.
           if \<not> mo_memory_enabled settings \<or> target = UserT \<and> \<not> mo_user_profile_enabled settings
           then Inr (Refused StoreDisabled, st)
           else
             let raw = fileFor target st;
                 original = mem_entries raw;
                 operations = op_list op
             in if operations = [] \<or> length operations > 50 then Inr (Refused OperationCount, st)
                else
                  (case apply_operations tc operations (set_list original) of
                     Inl r \<Rightarrow> Inr (Refused r, st)
                   | Inr entries \<Rightarrow>
                       let content = join_entries (set_list entries)
                       in if mw_operations op \<noteq> None \<and> original \<noteq> [] \<and> entries = [] then Inr (Refused EmptiesMemory, st)
                          else if int (length content) > mem_limit settings target \<and>
                                  length content \<ge> length (join_entries original)
                          then Inr (Refused OverLimit, st)
                          else if content = join_entries original then Inr (AlreadyThere, st)
                          else if mo_write_approval settings \<and>
                                  (config \<noteq> None \<or> list_ex (\<lambda>operation. mp_action operation \<noteq> AddA) operations) \<and>
                                  \<not> confirmed
                          then Inr (Staged fresh (change_summary op),
                                    st\<lparr>ms_pending := ms_pending st @
                                         [\<lparr>pc_id = fresh, pc_summary = change_summary op, pc_op = op\<rparr>]\<rparr>)
                          else
                            let st1 = (case meanwhile of None \<Rightarrow> st | Some foreign \<Rightarrow> writeFile target foreign st)
                            in if fileFor target st1 \<noteq> raw then Inr (Refused ChangedOnDisk, st1)
                               else Inr (Saved, writeFile target content st1))))"

text \<open>\<open>write\<close>, and \<open>confirmStaged\<close> with the operation it hands to \<open>onApplied\<close>.\<close>

definition mem_write ::
    "threat_check \<Rightarrow> mem_config option \<Rightarrow> jsstring \<Rightarrow> jsstring option \<Rightarrow> mem_write_op \<Rightarrow> bool \<Rightarrow> mem_store \<Rightarrow>
     (mem_outcome \<times> mem_store) result" where
  "mem_write = mem_apply"

definition confirmStaged ::
    "threat_check \<Rightarrow> mem_config option \<Rightarrow> jsstring \<Rightarrow> jsstring option \<Rightarrow> jsstring \<Rightarrow> bool \<Rightarrow> mem_store \<Rightarrow>
     (mem_outcome \<times> mem_write_op option \<times> mem_store) result" where
  "confirmStaged tc config fresh meanwhile i accept st =
     (let pending = ms_pending st
      in case find (\<lambda>change. pc_id change = i) pending of
           None \<Rightarrow> Inr (Refused UnknownStaged, None, st)
         | Some change \<Rightarrow>
             bindR (if accept then mem_apply tc config fresh meanwhile (pc_op change) True st
                    else Inr (Refused Discarded, st))
               (\<lambda>(r, st1).
                  Inr (r, if applied r then Some (pc_op change) else None,
                       if \<not> accept \<or> applied r
                       then st1\<lparr>ms_pending := filter (\<lambda>change. pc_id change \<noteq> i) pending\<rparr>
                       else st1)))"

section \<open>The prompt\<close>

definition blocked_text :: jsstring where
  "blocked_text = js_lit ''[BLOCKED: unsafe memory entry; review the original memory file.]''"

definition safe_entry :: "threat_check \<Rightarrow> jsstring \<Rightarrow> jsstring" where
  "safe_entry tc entry = (if memoryThreat tc entry \<noteq> None then blocked_text else entry)"

definition prompt_block :: "threat_check \<Rightarrow> mem_options \<Rightarrow> mem_store \<Rightarrow> mem_target \<Rightarrow> jsstring" where
  "prompt_block tc settings st target =
     (if target = UserT \<and> \<not> mo_user_profile_enabled settings then []
      else
        let entries = mem_entries (fileFor target st)
        in if entries = [] then []
           else
             let safe = join_entries (map (safe_entry tc) entries)
             in (if target = MemoryT then js_lit ''MEMORY (your personal notes)'' else js_lit ''USER PROFILE (who the user is)'') @
                js_lit '' ['' @ int_text (int (length safe)) @ js_lit ''/'' @ int_text (mem_limit settings target) @
                js_lit '' chars]'' @ [10] @ safe)"

definition mem_prompt :: "threat_check \<Rightarrow> mem_config option \<Rightarrow> mem_store \<Rightarrow> jsstring result" where
  "mem_prompt tc config st =
     bindR (memory_options config) (\<lambda>settings.
       Inr (if \<not> mo_memory_enabled settings then []
            else join_with [10, 10] (filter (\<lambda>b. b \<noteq> []) (map (prompt_block tc settings st) [MemoryT, UserT]))))"

section \<open>Splitting and joining\<close>

lemma js_split_text_not_Nil [simp]: "js_split_text d s \<noteq> []"
  by (cases s) auto

lemma js_split_text_append:
  assumes "d \<noteq> []" "\<And>i. i < length p \<Longrightarrow> \<not> js_startsWith (drop i (p @ d @ s)) d"
  shows "js_split_text d (p @ d @ s) = p # js_split_text d s"
  using assms(2)
proof (induction p)
  case Nil
  obtain c d' where "d = c # d'" using assms(1) by (cases d) auto
  then show ?case by (simp add: js_startsWith_def)
next
  case (Cons c p)
  have "\<not> js_startsWith (drop i (p @ d @ s)) d" if "i < length p" for i
    using Cons.prems[of "Suc i"] that by simp
  then have "js_split_text d (p @ d @ s) = p # js_split_text d s" by (rule Cons.IH)
  moreover have "\<not> js_startsWith (c # p @ d @ s) d" using Cons.prems[of 0] by simp
  ultimately show ?case by simp
qed

lemma js_split_text_single:
  assumes "\<And>i. i < length p \<Longrightarrow> \<not> js_startsWith (drop i p) d"
  shows "js_split_text d p = [p]"
  using assms
proof (induction p)
  case (Cons c p)
  have "\<not> js_startsWith (drop i p) d" if "i < length p" for i
    using Cons.prems[of "Suc i"] that by simp
  then show ?case using Cons.IH Cons.prems[of 0] by simp
qed simp

lemma includes_drop: "js_startsWith (drop i p) d \<Longrightarrow> js_includes p d"
  by (metis append_take_drop_id js_includes_iff js_startsWith_iff)

text \<open>An entry that is read back from among others: trimmed, without the delimiter or the start of one at its end, no title.\<close>

definition good_entry :: "jsstring \<Rightarrow> bool" where
  "good_entry e =
     (e \<noteq> [] \<and> js_trim e = e \<and> hd e \<noteq> 0xFEFF \<and> \<not> js_includes e delimiter \<and> \<not> js_endsWith e [10, 167] \<and> \<not> is_legacy e)"

lemma good_entry_no_delimiter:
  assumes "good_entry p" "i < length p"
  shows "\<not> js_startsWith (drop i (p @ delimiter @ s)) delimiter"
proof
  assume st: "js_startsWith (drop i (p @ delimiter @ s)) delimiter"
  let ?q = "drop i p"
  have q: "?q \<noteq> []" using assms(2) by simp
  have e: "take 3 (?q @ delimiter @ s) = [10, 167, 10]"
    using st assms(2) by (simp add: js_startsWith_def delimiter_def numeral_3_eq_3)
  obtain a q1 where q1: "?q = a # q1" using q by (cases ?q) auto
  show False
  proof (cases q1)
    case Nil
    then show False using e q1 by (simp add: delimiter_def)
  next
    case (Cons b q2)
    show False
    proof (cases q2)
      case Nil
      then have "?q = [10, 167]" using e q1 Cons by (simp add: delimiter_def)
      then have "js_endsWith p [10, 167]" by (metis append_take_drop_id js_endsWith_iff)
      then show False using assms(1) by (simp add: good_entry_def)
    next
      case (Cons c q3)
      then have "?q = delimiter @ q3" using e q1 \<open>q1 = b # q2\<close> by (simp add: delimiter_def)
      then have "js_includes p delimiter" by (metis append_take_drop_id js_includes_iff)
      then show False using assms(1) by (simp add: good_entry_def)
    qed
  qed
qed

lemma join_entries_simps [simp]:
  "join_entries [] = []" "join_entries [e] = e"
  "es \<noteq> [] \<Longrightarrow> join_entries (e # es) = e @ delimiter @ join_entries es"
  by (simp_all add: join_entries_def) (cases es; simp)

lemma split_join_entries:
  "es \<noteq> [] \<Longrightarrow> list_all good_entry es \<Longrightarrow> js_split_text delimiter (join_entries es) = es"
proof (induction es)
  case (Cons e es)
  have g: "good_entry e" using Cons.prems by simp
  show ?case
  proof (cases "es = []")
    case True
    have "\<not> js_startsWith (drop i e) delimiter" for i
      using g includes_drop[of i e delimiter] by (auto simp: good_entry_def)
    then show ?thesis using True by (simp add: js_split_text_single)
  next
    case False
    have "js_split_text delimiter (e @ delimiter @ join_entries es) = e # js_split_text delimiter (join_entries es)"
      by (rule js_split_text_append) (use good_entry_no_delimiter[OF g] in \<open>simp_all add: delimiter_def\<close>)
    then show ?thesis using Cons False by simp
  qed
qed simp

lemma join_entries_trimmed:
  "es \<noteq> [] \<Longrightarrow> list_all good_entry es \<Longrightarrow>
   join_entries es \<noteq> [] \<and> hd (join_entries es) = hd (hd es) \<and> last (join_entries es) = last (last es)"
proof (induction es)
  case (Cons e es)
  then show ?case by (cases "es = []") (auto simp: good_entry_def delimiter_def)
qed simp

lemma startsWith_before:
  "js_startsWith (e @ 10 # s) t \<Longrightarrow> 10 \<notin> set t \<Longrightarrow> js_startsWith e t"
proof (induction t arbitrary: e)
  case (Cons c t)
  show ?case
  proof (cases e)
    case Nil
    then show ?thesis using Cons.prems by (simp add: js_startsWith_def)
  next
    case (Cons d e')
    then have "js_startsWith (e' @ 10 # s) t" "c = d" using Cons.prems \<open>js_startsWith (e @ 10 # s) (c # t)\<close>
      by (simp_all add: js_startsWith_def)
    then show ?thesis using Cons.IH[of e'] Cons.prems(2) \<open>e = d # e'\<close> by (simp add: js_startsWith_def)
  qed
qed (simp add: js_startsWith_def)

lemma startsWith_append: "js_startsWith e t \<Longrightarrow> js_startsWith (e @ s) t"
  by (auto simp: js_startsWith_iff)

lemma startsWith_length: "js_startsWith e t \<Longrightarrow> length t \<le> length e"
  by (auto simp: js_startsWith_iff)

lemma after_title_append: "after_title (e @ 10 # s) = map_option (\<lambda>rest. rest @ 10 # s) (after_title e)"
proof -
  have t: "10 \<notin> set (js_lit ''# Memory'')" "10 \<notin> set (js_lit ''# User profile'')"
    "length (js_lit ''# Memory'') = 8" "length (js_lit ''# User profile'') = 14"
    by (simp_all add: js_lit_def)
  have "js_startsWith (e @ 10 # s) u \<longleftrightarrow> js_startsWith e u" if "10 \<notin> set u" for u
    using startsWith_before[of e s u] startsWith_append[of e u "10 # s"] that by blast
  then show ?thesis
    using t startsWith_length[of e "js_lit ''# Memory''"] startsWith_length[of e "js_lit ''# User profile''"]
    by (simp add: after_title_def)
qed

lemma is_legacy_append:
  assumes "js_trim e = e" "e \<noteq> []"
  shows "is_legacy (e @ 10 # s) = is_legacy e"
proof (cases "after_title e")
  case (Some rest)
  have "rest = [] \<or> \<not> is_space (last rest)"
  proof -
    have "\<exists>t. e = t @ rest"
      using Some by (auto simp: after_title_def split: if_splits) (metis append_take_drop_id)+
    then show ?thesis using assms by (auto simp: trimmed_iff)
  qed
  then show ?thesis
  proof
    assume "rest = []"
    then show ?thesis using Some by (simp add: is_legacy_def after_title_append is_space_def)
  next
    assume l: "\<not> is_space (last rest)"
    show ?thesis
    proof (cases "rest = []")
      case False
      have "\<exists>x \<in> set rest. \<not> is_space x" using False l by (meson last_in_set)
      then have "takeWhile is_space (rest @ 10 # s) = takeWhile is_space rest" "dropWhile is_space (rest @ 10 # s) \<noteq> []"
        "dropWhile is_space rest \<noteq> []"
        by (auto simp: takeWhile_append dropWhile_eq_Nil_conv)
      then show ?thesis using Some \<open>\<exists>x \<in> set rest. \<not> is_space x\<close>
        unfolding is_legacy_def after_title_append by (simp only: option.map option.case)
    qed (use Some in \<open>simp add: is_legacy_def after_title_append is_space_def\<close>)
  qed
qed (simp add: is_legacy_def after_title_append)

lemma mem_entries_join:
  assumes "list_all good_entry es"
  shows "mem_entries (join_entries es) = es"
proof (cases "es = []")
  case True
  have "\<not> is_legacy []" by (simp add: is_legacy_def after_title_def js_startsWith_def js_lit_def)
  then show ?thesis using True by (simp add: mem_entries_def strip_bom_def js_trim_def)
next
  case False
  let ?t = "join_entries es"
  have j: "?t \<noteq> []" "hd ?t = hd (hd es)" "last ?t = last (last es)" using join_entries_trimmed[OF False assms] by auto
  have g: "good_entry (hd es)" "good_entry (last es)" using assms False by (auto simp: list_all_iff)
  have bom: "strip_bom ?t = ?t" using j g by (cases ?t) (auto simp: strip_bom_def good_entry_def)
  have trim: "js_trim ?t = ?t" using j g by (simp add: trimmed_iff good_entry_def) (auto simp: trimmed_iff)
  have "is_legacy ?t = is_legacy (hd es)"
  proof (cases "tl es = []")
    case True
    then show ?thesis using False by (cases es) auto
  next
    case ne: False
    then have "?t = hd es @ 10 # [167, 10] @ join_entries (tl es)" using False by (cases es) (auto simp: delimiter_def)
    then show ?thesis using is_legacy_append[of "hd es"] g(1) by (simp add: good_entry_def)
  qed
  then have leg: "\<not> is_legacy ?t" using g(1) by (simp add: good_entry_def)
  have "map js_trim es = es" "filter (\<lambda>e. e \<noteq> []) es = es"
    using assms by (auto simp: list_all_iff good_entry_def map_idI filter_id_conv)
  then show ?thesis by (simp add: mem_entries_def bom trim leg split_join_entries[OF False assms] Let_def)
qed

section \<open>The operations\<close>

lemma set_list_props [simp]: "set (set_list xs) = set xs" "distinct (set_list xs)" "set_list xs = [] \<longleftrightarrow> xs = []"
  by (simp_all add: set_list_def)

lemma set_list_distinct: "distinct xs \<Longrightarrow> set_list xs = xs"
  by (simp add: set_list_def distinct_remdups_id)

lemma set_splice_entry: "set (splice_entry match new es) \<subseteq> set new \<union> set es"
  by (induction es) auto

text \<open>The entries after the operations are old ones or the texts that the operations bring, checked.\<close>

definition brings :: "threat_check \<Rightarrow> mem_operation list \<Rightarrow> jsstring \<Rightarrow> bool" where
  "brings tc operations e =
     (\<exists>operation \<in> set operations. mp_action operation \<in> {AddA, ReplaceA} \<and> e = op_content operation \<and>
        e \<noteq> [] \<and> \<not> js_includes e delimiter \<and> memoryThreat tc e = None)"

lemma apply_operation_entries:
  assumes "apply_operation tc operation entries = Inr entries'" "e \<in> set entries'"
  shows "e \<in> set entries \<or> brings tc [operation] e"
proof (cases "mp_action operation")
  case AddA
  then show ?thesis using assms by (auto simp: apply_operation_def brings_def Let_def split: if_splits)
next
  case ReplaceA
  then obtain m where "entries' = splice_entry m [op_content operation] entries"
    "op_content operation \<noteq> []" "\<not> js_includes (op_content operation) delimiter" "memoryThreat tc (op_content operation) = None"
    using assms(1) by (auto simp: apply_operation_def Let_def split: if_splits list.splits)
  then show ?thesis using ReplaceA assms(2) set_splice_entry[of m "[op_content operation]" entries] by (auto simp: brings_def)
next
  case RemoveA
  then obtain m where "entries' = splice_entry m [] entries"
    using assms(1) by (auto simp: apply_operation_def Let_def split: if_splits list.splits)
  then show ?thesis using assms(2) set_splice_entry[of m "[]" entries] by auto
qed (use assms in \<open>simp add: apply_operation_def Let_def\<close>)

lemma apply_operations_entries:
  "apply_operations tc operations entries = Inr entries' \<Longrightarrow> e \<in> set entries' \<Longrightarrow>
   e \<in> set entries \<or> brings tc operations e"
proof (induction operations arbitrary: entries)
  case (Cons operation operations)
  then obtain es where es: "apply_operation tc operation entries = Inr es" "apply_operations tc operations es = Inr entries'"
    by (auto split: sum.splits)
  then have "e \<in> set es \<or> brings tc operations e" using Cons by simp
  then show ?case using apply_operation_entries[OF es(1)] by (auto simp: brings_def)
qed simp

lemma fileFor_writeFile [simp]:
  "target \<noteq> OtherT \<Longrightarrow> other \<noteq> OtherT \<Longrightarrow>
   fileFor other (writeFile target content st) = (if other = target then content else fileFor other st)"
  by (cases target; cases other) (simp_all add: fileFor_def writeFile_def)

lemma ms_pending_writeFile [simp]: "ms_pending (writeFile target content st) = ms_pending st"
  by (simp add: writeFile_def)

lemma fileFor_pending [simp]: "fileFor target (st\<lparr>ms_pending := p\<rparr>) = fileFor target st"
  by (simp add: fileFor_def)

text \<open>The write that \<open>apply\<close> arrives at, when its guards let it.\<close>

definition needs_approval :: "mem_config option \<Rightarrow> mem_options \<Rightarrow> mem_write_op \<Rightarrow> bool" where
  "needs_approval config settings op =
     (mo_write_approval settings \<and> (config \<noteq> None \<or> list_ex (\<lambda>operation. mp_action operation \<noteq> AddA) (op_list op)))"

lemma mem_apply_cases:
  assumes "mem_apply tc config fresh meanwhile op confirmed st = Inr (r, st')"
  obtains (refused) w where "r = Refused w" "w \<noteq> ChangedOnDisk" "st' = st"
  | (changed) foreign where "r = Refused ChangedOnDisk" "meanwhile = Some foreign" "st' = writeFile (mw_target op) foreign st"
      "foreign \<noteq> fileFor (mw_target op) st" "mw_target op \<noteq> OtherT"
  | (there) "r = AlreadyThere" "st' = st"
  | (staged) settings where "memory_options config = Inr settings" "needs_approval config settings op" "\<not> confirmed"
      "r = Staged fresh (change_summary op)"
      "st' = st\<lparr>ms_pending := ms_pending st @ [\<lparr>pc_id = fresh, pc_summary = change_summary op, pc_op = op\<rparr>]\<rparr>"
  | (saved) settings entries where "r = Saved" "mw_target op \<noteq> OtherT" "memory_options config = Inr settings"
      "apply_operations tc (op_list op) (set_list (mem_entries (fileFor (mw_target op) st))) = Inr entries"
      "needs_approval config settings op \<longrightarrow> confirmed"
      "mw_operations op \<noteq> None \<longrightarrow> mem_entries (fileFor (mw_target op) st) \<noteq> [] \<longrightarrow> entries \<noteq> []"
      "int (length (join_entries (set_list entries))) \<le> mem_limit settings (mw_target op) \<or>
       length (join_entries (set_list entries)) < length (join_entries (mem_entries (fileFor (mw_target op) st)))"
      "meanwhile = None \<or> meanwhile = Some (fileFor (mw_target op) st)"
      "st' = writeFile (mw_target op) (join_entries (set_list entries)) st"
proof -
  let ?t = "mw_target op" and ?raw = "fileFor (mw_target op) st"
  show thesis
  proof (cases "?t = OtherT")
    case False
    then obtain settings where s: "memory_options config = Inr settings"
      using assms by (auto simp: mem_apply_def Let_def result_simps)
    show thesis
    proof (cases "(\<not> mo_memory_enabled settings \<or> ?t = UserT \<and> \<not> mo_user_profile_enabled settings) \<or>
                  op_list op = [] \<or> length (op_list op) > 50")
      case True
      then show thesis using assms False s that(1) by (auto simp: mem_apply_def Let_def split: if_splits)
    next
      case g: False
      show thesis
      proof (cases "apply_operations tc (op_list op) (set_list (mem_entries ?raw))")
        case (Inl w)
        then have "w \<noteq> ChangedOnDisk"
        proof (induction "op_list op" arbitrary: w)
          case Nil
          then show ?case by simp
        next
          case (Cons a x)
          have "apply_operation tc operation es = Inl w \<Longrightarrow> w \<noteq> ChangedOnDisk" for operation es w
            by (auto simp: apply_operation_def Let_def split: if_splits list.splits)
          moreover have "apply_operations tc ops es = Inl w \<Longrightarrow> \<exists>operation es. apply_operation tc operation es = Inl w" for ops es w
            by (induction ops arbitrary: es) (auto split: sum.splits)
          ultimately show ?case using Cons.prems by metis
        qed
        then show thesis using assms False s g Inl that(1) by (auto simp: mem_apply_def Let_def)
      next
        case (Inr entries)
        let ?c = "join_entries (set_list entries)" and ?o = "mem_entries ?raw"
        have eq: "mem_apply tc config fresh meanwhile op confirmed st =
          (if mw_operations op \<noteq> None \<and> ?o \<noteq> [] \<and> entries = [] then Inr (Refused EmptiesMemory, st)
           else if int (length ?c) > mem_limit settings ?t \<and> length ?c \<ge> length (join_entries ?o)
           then Inr (Refused OverLimit, st)
           else if ?c = join_entries ?o then Inr (AlreadyThere, st)
           else if needs_approval config settings op \<and> \<not> confirmed
           then Inr (Staged fresh (change_summary op),
                  st\<lparr>ms_pending := ms_pending st @ [\<lparr>pc_id = fresh, pc_summary = change_summary op, pc_op = op\<rparr>]\<rparr>)
           else let st1 = (case meanwhile of None \<Rightarrow> st | Some foreign \<Rightarrow> writeFile ?t foreign st)
                in if fileFor ?t st1 \<noteq> ?raw then Inr (Refused ChangedOnDisk, st1) else Inr (Saved, writeFile ?t ?c st1))"
        proof -
          have f: "(?t = OtherT) = False" "(\<not> mo_memory_enabled settings \<or> ?t = UserT \<and> \<not> mo_user_profile_enabled settings) = False"
            "(op_list op = [] \<or> length (op_list op) > 50) = False"
            using False g by blast+
          show ?thesis
            unfolding mem_apply_def Let_def s bindR.simps f if_False Inr sum.case needs_approval_def conj_assoc by (rule refl)
        qed
        have w: "writeFile ?t x (writeFile ?t y st) = writeFile ?t x st" for x y by (simp add: writeFile_def)
        consider (empties) "mw_operations op \<noteq> None \<and> ?o \<noteq> [] \<and> entries = []"
          | (over) "\<not> (mw_operations op \<noteq> None \<and> ?o \<noteq> [] \<and> entries = [])"
              "int (length ?c) > mem_limit settings ?t \<and> length ?c \<ge> length (join_entries ?o)"
          | (same) "\<not> (mw_operations op \<noteq> None \<and> ?o \<noteq> [] \<and> entries = [])"
              "\<not> (int (length ?c) > mem_limit settings ?t \<and> length ?c \<ge> length (join_entries ?o))"
              "?c = join_entries ?o"
          | (stage) "\<not> (mw_operations op \<noteq> None \<and> ?o \<noteq> [] \<and> entries = [])"
              "\<not> (int (length ?c) > mem_limit settings ?t \<and> length ?c \<ge> length (join_entries ?o))"
              "?c \<noteq> join_entries ?o" "needs_approval config settings op \<and> \<not> confirmed"
          | (store) "\<not> (mw_operations op \<noteq> None \<and> ?o \<noteq> [] \<and> entries = [])"
              "\<not> (int (length ?c) > mem_limit settings ?t \<and> length ?c \<ge> length (join_entries ?o))"
              "?c \<noteq> join_entries ?o" "\<not> (needs_approval config settings op \<and> \<not> confirmed)"
          by blast
        then show thesis
        proof cases
          case empties
          then show thesis using assms unfolding eq if_P[OF empties] by (intro that(1)[of EmptiesMemory]) simp_all
        next
          case over
          then show thesis using assms unfolding eq if_not_P[OF over(1)] if_P[OF over(2)] by (intro that(1)[of OverLimit]) simp_all
        next
          case same
          then show thesis
            using assms unfolding eq if_not_P[OF same(1)] if_not_P[OF same(2)] if_P[OF same(3)] by (intro that(3)) simp_all
        next
          case stage
          have "r = Staged fresh (change_summary op) \<and>
              st' = st\<lparr>ms_pending := ms_pending st @ [\<lparr>pc_id = fresh, pc_summary = change_summary op, pc_op = op\<rparr>]\<rparr>"
            using assms unfolding eq if_not_P[OF stage(1)] if_not_P[OF stage(2)] if_not_P[OF stage(3)] if_P[OF stage(4)]
            by simp
          then show thesis using that(4)[OF s] stage(4) by blast
        next
          case store
          show thesis
          proof (cases "meanwhile = None \<or> meanwhile = Some ?raw")
            case True
            then have "r = Saved \<and> st' = writeFile ?t ?c st"
              using assms unfolding eq if_not_P[OF store(1)] if_not_P[OF store(2)] if_not_P[OF store(3)] if_not_P[OF store(4)]
              using False w by (auto simp: Let_def)
            then show thesis using that(5)[OF _ False s Inr] store True by auto
          next
            case ne: False
            then obtain foreign where "meanwhile = Some foreign" "foreign \<noteq> ?raw" by (cases meanwhile) auto
            then show thesis
              using assms unfolding eq if_not_P[OF store(1)] if_not_P[OF store(2)] if_not_P[OF store(3)] if_not_P[OF store(4)]
              using False that(2) by (auto simp: Let_def)
          qed
        qed
      qed
    qed
  qed (use assms that(1) in \<open>auto simp: mem_apply_def\<close>)
qed

section \<open>Properties of the store\<close>

text \<open>
  C24. A write changes a file only when it reports that it saved. Then only the file of its target changes, and
  the new file consists of distinct entries, each an old entry or a checked text of one of the operations; it is within the limit of the
  target or shorter than before; a batch has not emptied a store that had entries; and the change
  was confirmed if the settings ask for it. In all other cases both files are as they were, but for an edit
  that another program has made meanwhile, which is kept; a change is staged by adding it to the list, and nothing else alters that list.
\<close>

theorem memory_write_guarded:
  assumes "mem_write tc config fresh meanwhile op confirmed st = Inr (r, st')"
  shows "(r \<noteq> Saved \<longrightarrow>
            (\<forall>target. target \<noteq> OtherT \<longrightarrow> fileFor target st' = fileFor target st \<or>
               r = Refused ChangedOnDisk \<and> target = mw_target op \<and> meanwhile = Some (fileFor target st'))) \<and>
         ms_pending st' = ms_pending st @
           (case r of Staged i summary \<Rightarrow> [\<lparr>pc_id = i, pc_summary = summary, pc_op = op\<rparr>] | _ \<Rightarrow> []) \<and>
         (r = Saved \<longrightarrow>
            (\<forall>target. target \<noteq> OtherT \<longrightarrow> target \<noteq> mw_target op \<longrightarrow> fileFor target st' = fileFor target st) \<and>
            (meanwhile = None \<or> meanwhile = Some (fileFor (mw_target op) st)) \<and>
            (\<exists>settings es.
               memory_options config = Inr settings \<and>
               fileFor (mw_target op) st' = join_entries es \<and> distinct es \<and>
               (\<forall>e \<in> set es. e \<in> set (mem_entries (fileFor (mw_target op) st)) \<or> brings tc (op_list op) e) \<and>
               (int (length (join_entries es)) \<le> mem_limit settings (mw_target op) \<or>
                length (join_entries es) < length (join_entries (mem_entries (fileFor (mw_target op) st)))) \<and>
               (mw_operations op \<noteq> None \<longrightarrow> mem_entries (fileFor (mw_target op) st) \<noteq> [] \<longrightarrow> es \<noteq> []) \<and>
               (needs_approval config settings op \<longrightarrow> confirmed)))"
  using assms unfolding mem_write_def
proof (cases rule: mem_apply_cases)
  case (saved settings entries)
  have "\<forall>e \<in> set (set_list entries). e \<in> set (mem_entries (fileFor (mw_target op) st)) \<or> brings tc (op_list op) e"
    using apply_operations_entries[OF saved(4)] by simp
  then have "\<exists>settings es. memory_options config = Inr settings \<and>
      fileFor (mw_target op) st' = join_entries es \<and> distinct es \<and>
      (\<forall>e \<in> set es. e \<in> set (mem_entries (fileFor (mw_target op) st)) \<or> brings tc (op_list op) e) \<and>
      (int (length (join_entries es)) \<le> mem_limit settings (mw_target op) \<or>
       length (join_entries es) < length (join_entries (mem_entries (fileFor (mw_target op) st)))) \<and>
      (mw_operations op \<noteq> None \<longrightarrow> mem_entries (fileFor (mw_target op) st) \<noteq> [] \<longrightarrow> es \<noteq> []) \<and>
      (needs_approval config settings op \<longrightarrow> confirmed)"
    using saved by (intro exI[of _ settings] exI[of _ "set_list entries"]) simp
  then show ?thesis using saved by simp
qed simp_all

definition plain_op :: "mem_action \<Rightarrow> jsstring \<Rightarrow> mem_write_op" where
  "plain_op action content =
     \<lparr>mw_action = action, mw_operations = None, mw_target = MemoryT, mw_content = Some content, mw_oldText = None\<rparr>"

definition no_config :: mem_config where
  "no_config =
     \<lparr>mc_memory_enabled = None, mc_user_profile_enabled = None, mc_write_approval = None, mc_memory_char_limit = None,
      mc_user_char_limit = None, mc_nudge_interval = None\<rparr>"

lemmas memory_eval =
  mem_write_def mem_apply_def plain_op_def no_config_def memory_options_def or_default_def fileFor_def writeFile_def
  mem_limit_def delimiter_def strip_bom_def after_title_def is_legacy_def mem_entries_def set_list_def op_content_def
  op_old_def apply_operation_def memoryThreat_def op_list_def js_trim_def js_startsWith_def js_lit_def is_space_def
  invisible_def strip_bullet_def Let_def

lemma mem_write_example:
  "mem_write \<lparr>tc_patterns = \<lambda>_. None\<rparr> (Some no_config) [49] None (plain_op AddA [98]) False
     \<lparr>ms_memory = [97], ms_user = [], ms_pending = []\<rparr> =
   Inr (Saved, \<lparr>ms_memory = [97, 10, 167, 10, 98], ms_user = [], ms_pending = []\<rparr>)"
  by (simp add: memory_eval join_entries_def)

theorem memory_write_guarded_witness:
  "\<exists>es. [97, 10, 167, 10, 98] = join_entries es \<and> distinct es"
  using memory_write_guarded[OF mem_write_example] by (auto simp: fileFor_def plain_op_def)

text \<open>
  C28. What is saved is read back: when the entries of a file and the texts the operations bring are good (trimmed, without
  the delimiter, not ending in the start of one, no title of the old format), the file written has exactly the entries the
  operations leave, without repetitions, and they are good again.
\<close>

theorem memory_reads_back:
  assumes "mem_write tc config fresh meanwhile op confirmed st = Inr (Saved, st')"
    and "list_all good_entry (mem_entries (fileFor (mw_target op) st))"
    and "\<forall>operation \<in> set (op_list op). mp_action operation \<noteq> RemoveA \<longrightarrow> good_entry (op_content operation)"
  shows "\<exists>es. apply_operations tc (op_list op) (set_list (mem_entries (fileFor (mw_target op) st))) = Inr es \<and>
              mem_entries (fileFor (mw_target op) st') = set_list es \<and>
              list_all good_entry (mem_entries (fileFor (mw_target op) st'))"
  using assms(1) unfolding mem_write_def
proof (cases rule: mem_apply_cases)
  case (saved settings entries)
  have "good_entry e" if "e \<in> set entries" for e
    using apply_operations_entries[OF saved(4) that] assms(2,3) by (auto simp: list_all_iff brings_def)
  then have g: "list_all good_entry (set_list entries)" by (simp add: list_all_iff)
  then have "mem_entries (fileFor (mw_target op) st') = set_list entries"
    using mem_entries_join[OF g] saved(2,9) by simp
  then show ?thesis using saved(4) g by simp
qed simp_all

theorem memory_reads_back_witness:
  "\<exists>st'. mem_write \<lparr>tc_patterns = \<lambda>_. None\<rparr> (Some no_config) [49] None (plain_op AddA [98]) False
     \<lparr>ms_memory = [97], ms_user = [], ms_pending = []\<rparr> = Inr (Saved, st') \<and> mem_entries (ms_memory st') = [[97], [98]]"
proof -
  have g: "good_entry [97]" "good_entry [98]"
    by (simp_all add: good_entry_def js_trim_def is_space_def delimiter_def js_startsWith_def js_endsWith_def
        is_legacy_def after_title_def js_lit_def)
  have e: "mem_entries [97] = [[97]]"
    using mem_entries_join[of "[[97]]"] g by simp
  show ?thesis
    using memory_reads_back[OF mem_write_example] g e mem_write_example
    by (auto simp: fileFor_def plain_op_def op_list_def op_content_def apply_operation_def memoryThreat_def invisible_def
        js_trim_def is_space_def delimiter_def js_startsWith_def set_list_def)
qed

lemma needs_approval_not_saved:
  assumes "mem_write tc config fresh meanwhile op False st = Inr (r, st')" "memory_options config = Inr settings"
    "needs_approval config settings op"
  shows "r \<noteq> Saved"
  using assms(1) unfolding mem_write_def by (cases rule: mem_apply_cases) (use assms(2,3) in auto)

text \<open>
  C27. The gate for changes that need a confirmation: with approval switched on, an unconfirmed write never
  saves. Rejecting a staged change drops it and changes no file; accepting it either applies it as a confirmed write and
  drops it, or leaves it staged. No other staged change is touched, and \<open>onApplied\<close> gets exactly the changes that were applied.
\<close>

theorem memory_staging:
  assumes "find (\<lambda>change. pc_id change = i) (ms_pending st) = Some change" "distinct (map pc_id (ms_pending st))"
    and "confirmStaged tc config fresh meanwhile i accept st = Inr (r, notified, st')"
  shows "(notified = (if applied r then Some (pc_op change) else None)) \<and>
         (\<not> accept \<longrightarrow> r = Refused Discarded \<and> (\<forall>target. fileFor target st' = fileFor target st)) \<and>
         (accept \<longrightarrow> (\<exists>st1. mem_write tc config fresh meanwhile (pc_op change) True st = Inr (r, st1) \<and>
            (\<forall>target. fileFor target st' = fileFor target st1))) \<and>
         set (ms_pending st') =
           (if \<not> accept \<or> applied r then set (ms_pending st) - {change} else set (ms_pending st)) \<and>
         (\<forall>settings op r1 st1. memory_options config = Inr settings \<longrightarrow> needs_approval config settings op \<longrightarrow>
            mem_write tc config fresh meanwhile op False st = Inr (r1, st1) \<longrightarrow> r1 \<noteq> Saved)"
proof -
  have ch: "change \<in> set (ms_pending st)" "pc_id change = i" using assms(1) by (auto simp: find_Some_iff)
  have uniq: "c = change" if "c \<in> set (ms_pending st)" "pc_id c = i" for c
    using assms(2) ch that by (auto simp: distinct_map dest: inj_onD)
  have drop: "set (filter (\<lambda>c. pc_id c \<noteq> i) (ms_pending st)) = set (ms_pending st) - {change}"
    unfolding set_filter using ch uniq by blast
  have never: "r1 \<noteq> Saved"
    if "memory_options config = Inr settings" "needs_approval config settings op"
      "mem_write tc config fresh meanwhile op False st = Inr (r1, st1)" for settings op r1 st1
    using needs_approval_not_saved[OF that(3,1,2)] .
  show ?thesis
  proof (cases accept)
    case False
    then have "r = Refused Discarded" "st' = st\<lparr>ms_pending := filter (\<lambda>c. pc_id c \<noteq> i) (ms_pending st)\<rparr>" "notified = None"
      using assms(1,3) by (auto simp: confirmStaged_def Let_def applied_def)
    then show ?thesis using False drop never by (simp add: applied_def)
  next
    case True
    then obtain st1 where st1: "mem_apply tc config fresh meanwhile (pc_op change) True st = Inr (r, st1)"
      "notified = (if applied r then Some (pc_op change) else None)"
      "st' = (if applied r then st1\<lparr>ms_pending := filter (\<lambda>c. pc_id c \<noteq> i) (ms_pending st)\<rparr> else st1)"
      using assms(1,3) by (auto simp: confirmStaged_def Let_def result_simps)
    have "ms_pending st1 = ms_pending st" by (cases rule: mem_apply_cases[OF st1(1)]) simp_all
    then show ?thesis using True st1 drop never by (auto simp: mem_write_def)
  qed
qed

theorem memory_staging_witness:
  "\<exists>r notified st'. confirmStaged \<lparr>tc_patterns = \<lambda>_. None\<rparr> (Some no_config) [50] None [49] False
     \<lparr>ms_memory = [97], ms_user = [], ms_pending = [\<lparr>pc_id = [49], pc_summary = [], pc_op = plain_op AddA [98]\<rparr>]\<rparr> =
       Inr (r, notified, st') \<and> ms_pending st' = [] \<and> fileFor MemoryT st' = [97]"
  using memory_staging[of "[49]" "\<lparr>ms_memory = [97], ms_user = [], ms_pending = [\<lparr>pc_id = [49], pc_summary = [], pc_op = plain_op AddA [98]\<rparr>]\<rparr>"
      "\<lparr>pc_id = [49], pc_summary = [], pc_op = plain_op AddA [98]\<rparr>" "\<lparr>tc_patterns = \<lambda>_. None\<rparr>" "Some no_config" "[50]" None False]
  by (simp add: confirmStaged_def Let_def applied_def fileFor_def)

subsection \<open>Entries that are not read back\<close>

text \<open>
  The guard against the delimiter inside an entry does not see one that arises when entries are joined: after
  an entry that ends in a line with only the section sign, the next entry is read back with that sign in front.
\<close>

lemma section_sign_at_end:
  "mem_write \<lparr>tc_patterns = \<lambda>_. None\<rparr> (Some no_config) [49] None (plain_op AddA [98]) False
     \<lparr>ms_memory = [97, 10, 167], ms_user = [], ms_pending = []\<rparr> =
   Inr (Saved, \<lparr>ms_memory = [97, 10, 167, 10, 167, 10, 98], ms_user = [], ms_pending = []\<rparr>) \<and>
   mem_entries [97, 10, 167] = [[97, 10, 167]] \<and>
   mem_entries [97, 10, 167, 10, 167, 10, 98] = [[97], [167, 10, 98]]"
  by (simp add: memory_eval join_entries_def)

text \<open>An entry that begins with a title of the old format makes the whole file be read in that format.\<close>

lemma title_entry:
  "mem_entries (join_entries [js_lit ''# Memory'', [97]]) = [[167, 10, 97]]"
  by (simp add: memory_eval join_entries_def)

end
