(* ===== verification/MemoryComparison.thy ===== *)
theory MemoryComparison
  imports MemoryStore "HOL-Library.Multiset" Complex_Main
begin

text \<open>
  The comparison of local memory with an adapter's copy, \<^verbatim>\<open>vs/latentRuntime/node/memory/memoryComparison.ts\<close>: the entries of
  a memory file, their keys and similarity, the matching, and the writes that settle an entry.

  SHA-256 and the split into lower case words (Unicode classes) are parameters. A score is an exact quotient. The
  \<open>Map\<close> of unmatched local entries is an association list in the order of insertion.
\<close>

record compare_env =
  cp_hash :: "jsstring \<Rightarrow> jsstring"
  cp_words :: "jsstring \<Rightarrow> jsstring list"

section \<open>Entries of a file\<close>

text \<open>\<open>/^\s*(#|- )/m\<close>: the pattern at the start of a line, and at the start of some line.\<close>

definition heading_at :: "jsstring \<Rightarrow> bool" where
  "heading_at s =
     (let r = dropWhile is_space s in js_startsWith r (js_lit ''#'') \<or> js_startsWith r (js_lit ''- ''))"

fun has_heading :: "bool \<Rightarrow> jsstring \<Rightarrow> bool" where
  "has_heading at_start [] = False"
| "has_heading at_start (c # s) = (at_start \<and> heading_at (c # s) \<or> has_heading (is_lineterm c) s)"

text \<open>\<open>split(/\r?\n/)\<close>.\<close>

fun split_lines :: "jsstring \<Rightarrow> jsstring list" where
  "split_lines [] = [[]]"
| "split_lines (c # s) =
     (if c = 10 then [] # split_lines s
      else if c = 13 \<and> s \<noteq> [] \<and> hd s = 10 then [] # split_lines (tl s)
      else (c # hd (split_lines s)) # tl (split_lines s))"

text \<open>\<open>/^\s*-\s+\S/\<close>, and what \<open>replace(/^\s*-\s+/, '')\<close> leaves.\<close>

definition is_bullet :: "jsstring \<Rightarrow> bool" where
  "is_bullet line =
     (case dropWhile is_space line of
        c # r \<Rightarrow> c = 45 \<and> takeWhile is_space r \<noteq> [] \<and> dropWhile is_space r \<noteq> []
      | [] \<Rightarrow> False)"

definition bullet_text :: "jsstring \<Rightarrow> jsstring" where
  "bullet_text line = dropWhile is_space (tl (dropWhile is_space line))"

definition memoryBullets :: "jsstring \<Rightarrow> jsstring list" where
  "memoryBullets markdown =
     (if js_trim markdown = [] then []
      else if js_includes markdown delimiter \<or> \<not> has_heading True markdown
      then filter (\<lambda>e. e \<noteq> []) (map js_trim (js_split_text delimiter markdown))
      else map (\<lambda>line. js_trim (bullet_text line)) (filter is_bullet (split_lines markdown)))"

section \<open>Keys and similarity\<close>

text \<open>\<open>replace(/\s+/g, ' ')\<close>.\<close>

fun squeeze_loop :: "bool \<Rightarrow> jsstring \<Rightarrow> jsstring" where
  "squeeze_loop in_space [] = []"
| "squeeze_loop in_space (c # s) =
     (if is_space c then (if in_space then squeeze_loop True s else 32 # squeeze_loop True s)
      else c # squeeze_loop False s)"

definition squeeze :: "jsstring \<Rightarrow> jsstring" where
  "squeeze s = squeeze_loop False s"

definition memoryEntryKey :: "compare_env \<Rightarrow> mem_target \<Rightarrow> jsstring \<Rightarrow> jsstring" where
  "memoryEntryKey env target content =
     take 24 (cp_hash env (target_text target @ [0] @ squeeze (js_trim content)))"

definition compare_words :: "compare_env \<Rightarrow> jsstring \<Rightarrow> jsstring list" where
  "compare_words env s = set_list (filter (\<lambda>w. length w > 1) (cp_words env s))"

definition memorySimilarity :: "compare_env \<Rightarrow> jsstring \<Rightarrow> jsstring \<Rightarrow> rat" where
  "memorySimilarity env a b =
     (let left = compare_words env a; right = compare_words env b
      in if left = [] \<and> right = [] then 1
         else let shared = length (filter (\<lambda>w. w \<in> set right) left)
              in of_nat shared / of_nat (length left + length right - shared))"

section \<open>Matching\<close>

record remote_entry =
  re_target :: mem_target
  re_content :: jsstring
  re_updatedAt :: "int option"

datatype compare_status = Same | LocalOnly | RemoteOnly | Conflict

record compare_entry =
  ce_target :: mem_target
  ce_key :: jsstring
  ce_local :: "jsstring option"
  ce_remote :: "jsstring option"
  ce_remoteUpdatedAt :: "int option"
  ce_status :: compare_status

type_synonym unmatched = "(jsstring \<times> jsstring) list"

definition unmatched_local :: "compare_env \<Rightarrow> mem_target \<Rightarrow> jsstring list \<Rightarrow> unmatched" where
  "unmatched_local env target contents =
     foldl (\<lambda>m content. AList.update (memoryEntryKey env target content) content m) [] contents"

text \<open>The first loop over the remote entries: those with the key of a local one.\<close>

fun match_same ::
    "compare_env \<Rightarrow> mem_target \<Rightarrow> remote_entry list \<Rightarrow> unmatched \<Rightarrow> compare_entry list \<times> unmatched \<times> remote_entry list" where
  "match_same env target [] locals = ([], locals, [])"
| "match_same env target (entry # entries) locals =
     (let key = memoryEntryKey env target (re_content entry)
      in case map_of locals key of
           Some localContent \<Rightarrow>
             let (result, locals', rest) = match_same env target entries (AList.delete key locals)
             in (\<lparr>ce_target = target, ce_key = key, ce_local = Some localContent, ce_remote = Some (re_content entry),
                  ce_remoteUpdatedAt = re_updatedAt entry, ce_status = Same\<rparr> # result, locals', rest)
         | None \<Rightarrow>
             let (result, locals', rest) = match_same env target entries locals
             in (result, locals', entry # rest))"

text \<open>The most similar local entry, the first one among equals.\<close>

fun best_match ::
    "compare_env \<Rightarrow> rat \<Rightarrow> jsstring \<Rightarrow> unmatched \<Rightarrow> (jsstring \<times> jsstring \<times> rat) option \<Rightarrow>
     (jsstring \<times> jsstring \<times> rat) option" where
  "best_match env threshold remote [] best = best"
| "best_match env threshold remote ((key, content) # locals) best =
     (let score = memorySimilarity env content remote
      in best_match env threshold remote locals
           (if score \<ge> threshold \<and> (case best of None \<Rightarrow> True | Some (_, _, s) \<Rightarrow> score > s)
            then Some (key, content, score) else best))"

text \<open>The second loop, over the remote entries left.\<close>

fun match_similar ::
    "compare_env \<Rightarrow> rat \<Rightarrow> mem_target \<Rightarrow> remote_entry list \<Rightarrow> unmatched \<Rightarrow> compare_entry list \<times> unmatched" where
  "match_similar env threshold target [] locals = ([], locals)"
| "match_similar env threshold target (entry # entries) locals =
     (case best_match env threshold (re_content entry) locals None of
        Some (key, content, _) \<Rightarrow>
          let (result, locals') = match_similar env threshold target entries (AList.delete key locals)
          in (\<lparr>ce_target = target, ce_key = key, ce_local = Some content, ce_remote = Some (re_content entry),
               ce_remoteUpdatedAt = re_updatedAt entry, ce_status = Conflict\<rparr> # result, locals')
      | None \<Rightarrow>
          let (result, locals') = match_similar env threshold target entries locals
          in (\<lparr>ce_target = target, ce_key = memoryEntryKey env target (re_content entry), ce_local = None,
               ce_remote = Some (re_content entry), ce_remoteUpdatedAt = re_updatedAt entry, ce_status = RemoteOnly\<rparr> # result,
              locals'))"

definition compare_target ::
    "compare_env \<Rightarrow> rat \<Rightarrow> mem_target \<Rightarrow> jsstring list \<Rightarrow> remote_entry list \<Rightarrow> compare_entry list" where
  "compare_target env threshold target contents remote =
     (let (same, locals, rest) =
            match_same env target (filter (\<lambda>entry. re_target entry = target) remote) (unmatched_local env target contents);
          (similar, locals') = match_similar env threshold target rest locals
      in same @ similar @
         map (\<lambda>(key, content). \<lparr>ce_target = target, ce_key = key, ce_local = Some content, ce_remote = None,
                                ce_remoteUpdatedAt = None, ce_status = LocalOnly\<rparr>) locals')"

definition compareMemory ::
    "compare_env \<Rightarrow> jsstring \<Rightarrow> jsstring \<Rightarrow> remote_entry list \<Rightarrow> rat \<Rightarrow> compare_entry list" where
  "compareMemory env memory user remote threshold =
     compare_target env threshold MemoryT (memoryBullets memory) remote @
     compare_target env threshold UserT (memoryBullets user) remote"

section \<open>Settling an entry\<close>

datatype compare_decision = KeepLocal | TakeRemote

definition memory_op :: "mem_action \<Rightarrow> mem_target \<Rightarrow> jsstring option \<Rightarrow> jsstring option \<Rightarrow> mem_write_op" where
  "memory_op action target old content =
     \<lparr>mw_action = action, mw_operations = None, mw_target = target, mw_content = content, mw_oldText = old\<rparr>"

text \<open>The write to local memory and the write to the adapter.\<close>

definition memoryResolutionWrites ::
    "compare_entry \<Rightarrow> compare_decision \<Rightarrow> mem_write_op option \<times> mem_write_op option" where
  "memoryResolutionWrites entry decision =
     (case decision of
        KeepLocal \<Rightarrow>
          (case (ce_local entry, ce_remote entry) of
             (Some l, Some r) \<Rightarrow>
               if l \<noteq> r then (None, Some (memory_op ReplaceA (ce_target entry) (Some r) (Some l))) else (None, None)
           | (Some l, None) \<Rightarrow> (None, Some (memory_op AddA (ce_target entry) None (Some l)))
           | (None, Some r) \<Rightarrow> (None, Some (memory_op RemoveA (ce_target entry) (Some r) None))
           | (None, None) \<Rightarrow> (None, None))
      | TakeRemote \<Rightarrow>
          (case (ce_local entry, ce_remote entry) of
             (Some l, Some r) \<Rightarrow>
               if l \<noteq> r then (Some (memory_op ReplaceA (ce_target entry) (Some l) (Some r)), None) else (None, None)
           | (None, Some r) \<Rightarrow> (Some (memory_op AddA (ce_target entry) None (Some r)), None)
           | (Some l, None) \<Rightarrow> (Some (memory_op RemoveA (ce_target entry) (Some l) None), None)
           | (None, None) \<Rightarrow> (None, None)))"


section \<open>The matching is a partition\<close>

definition remotes :: "compare_entry list \<Rightarrow> jsstring list" where
  "remotes es = concat (map (\<lambda>e. case ce_remote e of None \<Rightarrow> [] | Some r \<Rightarrow> [r]) es)"

definition locals_of :: "compare_entry list \<Rightarrow> unmatched" where
  "locals_of es = concat (map (\<lambda>e. case ce_local e of None \<Rightarrow> [] | Some l \<Rightarrow> [(ce_key e, l)]) es)"

lemma remotes_simps [simp]:
  "remotes [] = []" "remotes (e # es) = (case ce_remote e of None \<Rightarrow> [] | Some r \<Rightarrow> [r]) @ remotes es"
  "remotes (es @ fs) = remotes es @ remotes fs"
  by (simp_all add: remotes_def)

lemma locals_of_simps [simp]:
  "locals_of [] = []"
  "locals_of (e # es) = (case ce_local e of None \<Rightarrow> [] | Some l \<Rightarrow> [(ce_key e, l)]) @ locals_of es"
  "locals_of (es @ fs) = locals_of es @ locals_of fs"
  by (simp_all add: locals_of_def)

lemma mset_delete:
  "distinct (map fst m) \<Longrightarrow> map_of m k = Some v \<Longrightarrow> mset m = add_mset (k, v) (mset (AList.delete k m))"
proof (induction m)
  case (Cons a m)
  obtain l w where a: "a = (l, w)" by (cases a)
  show ?case
  proof (cases "l = k")
    case True
    then have "k \<notin> fst ` set m" using Cons.prems(1) a by auto
    then have "AList.delete k m = m" by (rule delete_id)
    then show ?thesis using Cons.prems(2) a True by simp
  qed (use Cons a in auto)
qed simp

text \<open>What an entry of the result says of its texts.\<close>

definition entry_ok :: "compare_env \<Rightarrow> rat \<Rightarrow> mem_target \<Rightarrow> compare_entry \<Rightarrow> bool" where
  "entry_ok env threshold target e =
     (ce_target e = target \<and>
      (case ce_status e of
         Same \<Rightarrow>
           (case (ce_local e, ce_remote e) of
              (Some l, Some r) \<Rightarrow> ce_key e = memoryEntryKey env target l \<and> ce_key e = memoryEntryKey env target r
            | _ \<Rightarrow> False)
       | Conflict \<Rightarrow>
           (case (ce_local e, ce_remote e) of
              (Some l, Some r) \<Rightarrow>
                ce_key e = memoryEntryKey env target l \<and> memorySimilarity env l r \<ge> threshold \<and>
                memoryEntryKey env target l \<noteq> memoryEntryKey env target r
            | _ \<Rightarrow> False)
       | RemoteOnly \<Rightarrow> ce_local e = None \<and> (\<exists>r. ce_remote e = Some r \<and> ce_key e = memoryEntryKey env target r)
       | LocalOnly \<Rightarrow> ce_remote e = None \<and> (\<exists>l. ce_local e = Some l \<and> ce_key e = memoryEntryKey env target l)))"

definition keyed :: "compare_env \<Rightarrow> mem_target \<Rightarrow> unmatched \<Rightarrow> bool" where
  "keyed env target m = (distinct (map fst m) \<and> (\<forall>(k, c) \<in> set m. k = memoryEntryKey env target c))"

lemma keyed_delete [simp]: "keyed env target m \<Longrightarrow> keyed env target (AList.delete k m)"
  using set_delete_subset[of k m] by (auto simp: keyed_def distinct_delete)

lemma keyed_unmatched: "keyed env target (unmatched_local env target contents) \<and>
  fst ` set (unmatched_local env target contents) = memoryEntryKey env target ` set contents"
proof -
  have "keyed env target (foldl (\<lambda>m c. AList.update (memoryEntryKey env target c) c m) m contents) \<and>
    fst ` set (foldl (\<lambda>m c. AList.update (memoryEntryKey env target c) c m) m contents) =
      fst ` set m \<union> memoryEntryKey env target ` set contents" if "keyed env target m" for m
    using that
  proof (induction contents arbitrary: m)
    case (Cons c contents)
    let ?m = "AList.update (memoryEntryKey env target c) c m"
    have "set ?m \<subseteq> insert (memoryEntryKey env target c, c) (set m)"
      by (rule set_update_subset)
    then have "keyed env target ?m" using Cons.prems by (auto simp: keyed_def distinct_update)
    moreover have "fst ` set ?m = insert (memoryEntryKey env target c) (fst ` set m)"
      by (rule keys_update)
    ultimately show ?case using Cons.IH[of ?m] by auto
  qed simp
  from this[of "[]"] show ?thesis by (simp add: unmatched_local_def keyed_def)
qed

lemma match_same_props:
  "match_same env target entries locals = (result, locals', rest) \<Longrightarrow> keyed env target locals \<Longrightarrow>
   mset (remotes result) + mset (map re_content rest) = mset (map re_content entries) \<and>
   mset (locals_of result) + mset locals' = mset locals \<and>
   keyed env target locals' \<and> (\<forall>e \<in> set result. entry_ok env threshold target e \<and> ce_status e = Same) \<and>
   (\<forall>r \<in> set rest. memoryEntryKey env target (re_content r) \<notin> fst ` set locals')"
proof (induction entries arbitrary: locals result locals' rest)
  case (Cons entry entries)
  let ?k = "memoryEntryKey env target (re_content entry)"
  show ?case
  proof (cases "map_of locals ?k")
    case None
    obtain rest1 where r: "match_same env target entries locals = (result, locals', rest1)" "rest = entry # rest1"
      using Cons.prems(1) None by (auto simp: Let_def split: prod.splits)
    have "set locals' \<subseteq> set locals"
      using Cons.IH[OF r(1) Cons.prems(2)] by (metis mset_subset_eq_add_right set_mset_mono set_mset_mset)
    then have "?k \<notin> fst ` set locals'" using None by (auto simp: map_of_eq_None_iff)
    then show ?thesis using Cons.IH[OF r(1) Cons.prems(2)] r(2) by simp
  next
    case (Some l)
    obtain result1 where r: "match_same env target entries (AList.delete ?k locals) = (result1, locals', rest)"
      "result = \<lparr>ce_target = target, ce_key = ?k, ce_local = Some l, ce_remote = Some (re_content entry),
                 ce_remoteUpdatedAt = re_updatedAt entry, ce_status = Same\<rparr> # result1"
      using Cons.prems(1) Some by (auto simp: Let_def split: prod.splits)
    have "(?k, l) \<in> set locals" using Some by (rule map_of_SomeD)
    then have "?k = memoryEntryKey env target l" using Cons.prems(2) by (auto simp: keyed_def)
    moreover have "mset locals = add_mset (?k, l) (mset (AList.delete ?k locals))"
      using mset_delete[OF _ Some] Cons.prems(2) by (simp add: keyed_def)
    ultimately show ?thesis
      using Cons.IH[OF r(1) keyed_delete[OF Cons.prems(2)]] r(2) by (auto simp: entry_ok_def)
  qed
qed simp

lemma best_match_props:
  "best_match env threshold remote locals best = Some (k, c, s) \<Longrightarrow>
   best = Some (k, c, s) \<or> (k, c) \<in> set locals \<and> s = memorySimilarity env c remote \<and> threshold \<le> s"
  by (induction env threshold remote locals best rule: best_match.induct) (auto simp: Let_def split: if_splits)

lemma best_match_None:
  "best_match env threshold remote locals best = None \<Longrightarrow>
   best = None \<and> (\<forall>(k, c) \<in> set locals. memorySimilarity env c remote < threshold)"
  by (induction env threshold remote locals best rule: best_match.induct)
    (auto simp: Let_def not_le split: if_splits option.splits)

lemma match_similar_props:
  "match_similar env threshold target entries locals = (result, locals') \<Longrightarrow> keyed env target locals \<Longrightarrow>
   \<forall>r \<in> set entries. memoryEntryKey env target (re_content r) \<notin> fst ` set locals \<Longrightarrow>
   mset (remotes result) = mset (map re_content entries) \<and>
   mset (locals_of result) + mset locals' = mset locals \<and>
   keyed env target locals' \<and>
   (\<forall>e \<in> set result. entry_ok env threshold target e \<and> (ce_status e = Conflict \<or> ce_status e = RemoteOnly)) \<and>
   (\<forall>e \<in> set result. \<forall>k c r. ce_status e = RemoteOnly \<longrightarrow> (k, c) \<in> set locals' \<longrightarrow> ce_remote e = Some r \<longrightarrow>
      memorySimilarity env c r < threshold \<and> k \<noteq> ce_key e)"
proof (induction entries arbitrary: locals result locals')
  case (Cons entry entries)
  let ?k = "memoryEntryKey env target (re_content entry)"
  show ?case
  proof (cases "best_match env threshold (re_content entry) locals None")
    case None
    obtain result1 where r: "match_similar env threshold target entries locals = (result1, locals')"
      "result = \<lparr>ce_target = target, ce_key = ?k, ce_local = None, ce_remote = Some (re_content entry),
                 ce_remoteUpdatedAt = re_updatedAt entry, ce_status = RemoteOnly\<rparr> # result1"
      using Cons.prems(1) None by (auto simp: Let_def split: prod.splits)
    have IH: "mset (remotes result1) = mset (map re_content entries)"
      "mset (locals_of result1) + mset locals' = mset locals" "keyed env target locals'"
      "\<forall>e \<in> set result1. entry_ok env threshold target e \<and> (ce_status e = Conflict \<or> ce_status e = RemoteOnly)"
      "\<forall>e \<in> set result1. \<forall>k c r. ce_status e = RemoteOnly \<longrightarrow> (k, c) \<in> set locals' \<longrightarrow> ce_remote e = Some r \<longrightarrow>
         memorySimilarity env c r < threshold \<and> k \<noteq> ce_key e"
      using Cons.IH[OF r(1) Cons.prems(2)] Cons.prems(3) by simp_all
    have sub: "set locals' \<subseteq> set locals"
      using IH(2) by (metis mset_subset_eq_add_right set_mset_mono set_mset_mset)
    have "\<forall>k c. (k, c) \<in> set locals' \<longrightarrow> memorySimilarity env c (re_content entry) < threshold \<and> k \<noteq> ?k"
      using best_match_None[OF None] sub Cons.prems(3) by force
    then show ?thesis using IH r(2) by (auto simp: entry_ok_def)
  next
    case (Some b)
    obtain k c s where b: "b = (k, c, s)" by (cases b)
    obtain result1 where r: "match_similar env threshold target entries (AList.delete k locals) = (result1, locals')"
      "result = \<lparr>ce_target = target, ce_key = k, ce_local = Some c, ce_remote = Some (re_content entry),
                 ce_remoteUpdatedAt = re_updatedAt entry, ce_status = Conflict\<rparr> # result1"
      using Cons.prems(1) Some b by (auto simp: Let_def split: prod.splits)
    have mem: "(k, c) \<in> set locals" "threshold \<le> memorySimilarity env c (re_content entry)"
      using best_match_props[of env threshold "re_content entry" locals None k c s] Some b by auto
    have d: "distinct (map fst locals)" using Cons.prems(2) by (simp add: keyed_def)
    have key: "k = memoryEntryKey env target c" using mem(1) Cons.prems(2) by (auto simp: keyed_def)
    have "k \<noteq> ?k" using mem(1) Cons.prems(3) by force
    then have ok: "entry_ok env threshold target (hd result)" using mem(2) key r(2) by (simp add: entry_ok_def)
    have del: "mset locals = add_mset (k, c) (mset (AList.delete k locals))"
      using mset_delete[OF d] mem(1) d by (simp add: map_of_is_SomeI)
    have "\<forall>r \<in> set entries. memoryEntryKey env target (re_content r) \<notin> fst ` set (AList.delete k locals)"
      using Cons.prems(3) set_delete_subset[of k locals] by auto
    note IH = Cons.IH[OF r(1) keyed_delete[OF Cons.prems(2)] this]
    show ?thesis using IH r(2) del ok by auto
  qed
qed simp

lemma compare_target_props:
  assumes "es = compare_target env threshold target contents remote"
  shows "mset (remotes es) = mset (map re_content (filter (\<lambda>r. re_target r = target) remote))"
    and "distinct (map fst (locals_of es))" "fst ` set (locals_of es) = memoryEntryKey env target ` set contents"
    and "\<forall>e \<in> set es. entry_ok env threshold target e"
    and "\<forall>e \<in> set es. \<forall>f \<in> set es. \<forall>l r. ce_status e = LocalOnly \<longrightarrow> ce_status f = RemoteOnly \<longrightarrow>
           ce_local e = Some l \<longrightarrow> ce_remote f = Some r \<longrightarrow> memorySimilarity env l r < threshold \<and> ce_key e \<noteq> ce_key f"
proof -
  let ?remote = "filter (\<lambda>r. re_target r = target) remote" and ?locals = "unmatched_local env target contents"
  obtain same l1 rest where m1: "match_same env target ?remote ?locals = (same, l1, rest)"
    using prod_cases3 by blast
  obtain similar l2 where m2: "match_similar env threshold target rest l1 = (similar, l2)" by force
  let ?only = "\<lambda>(k, c). \<lparr>ce_target = target, ce_key = k, ce_local = Some c, ce_remote = None,
                          ce_remoteUpdatedAt = None, ce_status = LocalOnly\<rparr>"
  have es: "es = same @ similar @ map ?only l2" using assms m1 m2 by (simp add: compare_target_def)
  note k = keyed_unmatched[of env target contents]
  have p1: "mset (remotes same) + mset (map re_content rest) = mset (map re_content ?remote)"
    "mset (locals_of same) + mset l1 = mset ?locals" "keyed env target l1"
    "\<forall>e \<in> set same. entry_ok env threshold target e \<and> ce_status e = Same"
    "\<forall>r \<in> set rest. memoryEntryKey env target (re_content r) \<notin> fst ` set l1"
    using match_same_props[OF m1 conjunct1[OF k], where threshold = threshold] by simp_all
  have p2: "mset (remotes similar) = mset (map re_content rest)" "mset (locals_of similar) + mset l2 = mset l1" "keyed env target l2"
    "\<forall>e \<in> set similar. entry_ok env threshold target e \<and> (ce_status e = Conflict \<or> ce_status e = RemoteOnly)"
    "\<forall>e \<in> set similar. \<forall>k c r. ce_status e = RemoteOnly \<longrightarrow> (k, c) \<in> set l2 \<longrightarrow> ce_remote e = Some r \<longrightarrow>
      memorySimilarity env c r < threshold \<and> k \<noteq> ce_key e"
    using match_similar_props[OF m2 p1(3,5)] by simp_all
  have only: "remotes (map ?only l2) = []" "locals_of (map ?only l2) = l2" by (induction l2) auto
  show "mset (remotes es) = mset (map re_content ?remote)" using p1(1) p2(1) only by (simp add: es)
  have locals: "mset (locals_of es) = mset ?locals" using p1(2) p2(2) only by (simp add: es add.assoc)
  then have "mset (map fst (locals_of es)) = mset (map fst ?locals)" by (simp only: mset_map)
  from mset_eq_imp_distinct_iff[OF this] show "distinct (map fst (locals_of es))"
    using k by (simp add: keyed_def)
  show "fst ` set (locals_of es) = memoryEntryKey env target ` set contents"
    using mset_eq_setD[OF locals] k by simp
  have "entry_ok env threshold target (?only p)" if "p \<in> set l2" for p
    using p2(3) that by (cases p) (auto simp: entry_ok_def keyed_def)
  then show "\<forall>e \<in> set es. entry_ok env threshold target e" using p1(4) p2(4) by (auto simp: es)
  show "\<forall>e \<in> set es. \<forall>f \<in> set es. \<forall>l r. ce_status e = LocalOnly \<longrightarrow> ce_status f = RemoteOnly \<longrightarrow>
      ce_local e = Some l \<longrightarrow> ce_remote f = Some r \<longrightarrow> memorySimilarity env l r < threshold \<and> ce_key e \<noteq> ce_key f"
  proof (intro ballI allI impI)
    fix e f l r assume e: "e \<in> set es" and f: "f \<in> set es" and st: "ce_status e = LocalOnly" "ce_status f = RemoteOnly"
      "ce_local e = Some l" "ce_remote f = Some r"
    have "e \<in> set (map ?only l2)" using e st(1) p1(4) p2(4) by (auto simp: es)
    then have "(ce_key e, l) \<in> set l2" using st(3) by auto
    moreover have "f \<in> set similar" using f st(2) p1(4) p2(4) by (auto simp: es)
    ultimately show "memorySimilarity env l r < threshold \<and> ce_key e \<noteq> ce_key f" using p2(5) st(2,4) by blast
  qed
qed

definition target_part :: "mem_target \<Rightarrow> compare_entry list \<Rightarrow> compare_entry list" where
  "target_part target es = filter (\<lambda>e. ce_target e = target) es"

lemma target_part_compareMemory:
  "target \<noteq> OtherT \<Longrightarrow> target_part target (compareMemory env memory user remote threshold) =
   compare_target env threshold target (memoryBullets (if target = MemoryT then memory else user)) remote"
  using compare_target_props(4)[OF refl, of env threshold MemoryT "memoryBullets memory" remote]
    compare_target_props(4)[OF refl, of env threshold UserT "memoryBullets user" remote]
  by (cases target) (auto simp: target_part_def compareMemory_def entry_ok_def filter_id_conv filter_empty_conv)

text \<open>
  C25. The comparison accounts for everything once. For each target the result has every remote entry exactly
  once, and every key of a local entry exactly once, with the status its texts deserve: the same key, a conflict
  of at least the threshold, or one side only. No local entry left alone would have matched a remote entry left alone.
\<close>

theorem compareMemory_partition:
  assumes "target \<noteq> OtherT" "es = target_part target (compareMemory env memory user remote threshold)"
  shows "mset (remotes es) = mset (map re_content (filter (\<lambda>r. re_target r = target) remote)) \<and>
         distinct (map fst (locals_of es)) \<and>
         fst ` set (locals_of es) =
           memoryEntryKey env target ` set (memoryBullets (if target = MemoryT then memory else user)) \<and>
         (\<forall>e \<in> set es. entry_ok env threshold target e) \<and>
         (\<forall>e \<in> set es. \<forall>f \<in> set es. \<forall>l r. ce_status e = LocalOnly \<longrightarrow> ce_status f = RemoteOnly \<longrightarrow>
            ce_local e = Some l \<longrightarrow> ce_remote f = Some r \<longrightarrow> memorySimilarity env l r < threshold \<and> ce_key e \<noteq> ce_key f)"
  using compare_target_props[OF assms(2)[unfolded target_part_compareMemory[OF assms(1)]]] by blast

definition plain_env :: compare_env where
  "plain_env = \<lparr>cp_hash = \<lambda>s. s, cp_words = \<lambda>s. [s]\<rparr>"

theorem compareMemory_partition_witness:
  "mset (remotes (target_part MemoryT (compareMemory plain_env [97, 97] []
      [\<lparr>re_target = MemoryT, re_content = [97, 97], re_updatedAt = None\<rparr>,
       \<lparr>re_target = UserT, re_content = [98], re_updatedAt = None\<rparr>] (1 / 2)))) = {#[97, 97]#}"
  using conjunct1[OF compareMemory_partition[of MemoryT _ plain_env "[97, 97]" "[]"
      "[\<lparr>re_target = MemoryT, re_content = [97, 97], re_updatedAt = None\<rparr>,
       \<lparr>re_target = UserT, re_content = [98], re_updatedAt = None\<rparr>]" "1 / 2", OF _ refl]]
  by simp

section \<open>Settling\<close>

definition settled_from :: "compare_entry \<Rightarrow> compare_decision \<Rightarrow> jsstring option" where
  "settled_from e d = (if d = KeepLocal then ce_remote e else ce_local e)"

definition settled_to :: "compare_entry \<Rightarrow> compare_decision \<Rightarrow> jsstring option" where
  "settled_to e d = (if d = KeepLocal then ce_local e else ce_remote e)"

text \<open>The write to the side that changes.\<close>

definition settling_write :: "compare_entry \<Rightarrow> compare_decision \<Rightarrow> mem_write_op option" where
  "settling_write e d = (let w = memoryResolutionWrites e d in if d = KeepLocal then snd w else fst w)"

definition other_write :: "compare_entry \<Rightarrow> compare_decision \<Rightarrow> mem_write_op option" where
  "other_write e d = (let w = memoryResolutionWrites e d in if d = KeepLocal then fst w else snd w)"

lemma settling_write_eq:
  "settling_write e d =
     (case (settled_from e d, settled_to e d) of
        (Some f, Some t) \<Rightarrow> if f \<noteq> t then Some (memory_op ReplaceA (ce_target e) (Some f) (Some t)) else None
      | (None, Some t) \<Rightarrow> Some (memory_op AddA (ce_target e) None (Some t))
      | (Some f, None) \<Rightarrow> Some (memory_op RemoveA (ce_target e) (Some f) None)
      | (None, None) \<Rightarrow> None)"
  "other_write e d = None"
  by (cases d; auto simp: settling_write_def other_write_def memoryResolutionWrites_def settled_from_def settled_to_def
        split: option.splits)+

definition found_in :: "jsstring \<Rightarrow> jsstring list \<Rightarrow> bool" where
  "found_in t es = (t \<in> set es \<and> t \<noteq> [] \<and> js_trim t = t \<and> (\<forall>e \<in> set es. js_includes e t \<longrightarrow> e = t))"

definition writable :: "threat_check \<Rightarrow> jsstring \<Rightarrow> bool" where
  "writable tc t = (t \<noteq> [] \<and> js_trim t = t \<and> \<not> js_includes t delimiter \<and> memoryThreat tc t = None)"

lemma js_includes_self [simp]: "js_includes t t"
  by (cases t) (simp_all add: js_startsWith_def)

lemma filter_unique: "distinct es \<Longrightarrow> t \<in> set es \<Longrightarrow> (\<And>e. e \<in> set es \<Longrightarrow> P e \<longleftrightarrow> e = t) \<Longrightarrow> filter P es = [t]"
proof (induction es)
  case (Cons e es)
  then show ?case by (cases "e = t") (auto simp: filter_empty_conv)
qed simp

lemma filter_found_in: "distinct es \<Longrightarrow> found_in t es \<Longrightarrow> filter (\<lambda>e. js_includes e t) es = [t]"
  by (rule filter_unique) (auto simp: found_in_def)

lemma set_splice_distinct: "distinct es \<Longrightarrow> t \<in> set es \<Longrightarrow> set (splice_entry t new es) = set es - {t} \<union> set new"
  by (induction es) auto

lemma settle_operations:
  assumes "distinct es" "\<forall>f. settled_from e d = Some f \<longrightarrow> found_in f es" "\<forall>t. settled_to e d = Some t \<longrightarrow> writable tc t"
    "settling_write e d = Some op"
  shows "mw_target op = ce_target e \<and> (\<exists>es'. apply_operations tc (op_list op) es = Inr es' \<and>
    set es' = set es - set_option (settled_from e d) \<union> set_option (settled_to e d))"
proof (cases "settled_from e d")
  case None
  then obtain t where t: "settled_to e d = Some t" "op = memory_op AddA (ce_target e) None (Some t)" "writable tc t"
    using assms(3,4) by (auto simp: settling_write_eq split: option.splits)
  then show ?thesis using None
    by (auto simp: memory_op_def op_list_def apply_operation_def op_content_def writable_def Let_def)
next
  case (Some f)
  then have f: "found_in f es" using assms(2) by simp
  note flt = filter_found_in[OF assms(1) f]
  have in_es: "f \<in> set es" "f \<noteq> []" "js_trim f = f" using f by (simp_all add: found_in_def)
  show ?thesis
  proof (cases "settled_to e d")
    case None
    then have "op = memory_op RemoveA (ce_target e) (Some f) None" using assms(4) Some by (simp add: settling_write_eq)
    then show ?thesis using Some None in_es flt set_splice_distinct[OF assms(1) in_es(1)]
      by (simp add: memory_op_def op_list_def apply_operation_def op_old_def Let_def)
  next
    case t: (Some t)
    then have "op = memory_op ReplaceA (ce_target e) (Some f) (Some t)" "writable tc t"
      using assms(3,4) Some by (auto simp: settling_write_eq split: if_splits)
    then show ?thesis using Some t in_es flt set_splice_distinct[OF assms(1) in_es(1), of "[t]"]
      by (simp add: memory_op_def op_list_def apply_operation_def op_old_def op_content_def writable_def Let_def)
  qed
qed


definition conflict_entry :: compare_entry where
  "conflict_entry =
     \<lparr>ce_target = MemoryT, ce_key = [], ce_local = Some [97], ce_remote = Some [98], ce_remoteUpdatedAt = None, ce_status = Conflict\<rparr>"


subsection \<open>Entries that cannot be settled, or take others with them\<close>

text \<open>An entry that is part of another entry cannot be settled: the store finds its text twice.\<close>

lemma settle_ambiguous:
  "memoryThreat tc [98] = None \<Longrightarrow> settling_write conflict_entry TakeRemote = Some op \<Longrightarrow>
   apply_operations tc (op_list op) [[97], [97, 99]] = Inl MultipleMatches"
  by (auto simp: settling_write_eq conflict_entry_def settled_from_def settled_to_def memory_op_def op_list_def
      apply_operation_def op_content_def op_old_def js_trim_def is_space_def js_startsWith_def delimiter_def)

text \<open>
  The comparison reads a file with bullets but without the delimiter as one entry per bullet, the store as one entry.
  Taking the adapter's side for a bullet it does not have removes the whole file.
\<close>

definition bullet_file :: jsstring where
  "bullet_file = [112, 10, 45, 32, 97]"

definition bullet_entry :: compare_entry where
  "bullet_entry =
     \<lparr>ce_target = MemoryT, ce_key = memoryEntryKey plain_env MemoryT [97], ce_local = Some [97],
      ce_remote = None, ce_remoteUpdatedAt = None, ce_status = LocalOnly\<rparr>"

lemma bullet_file_parts:
  "js_trim bullet_file = bullet_file" "has_heading True bullet_file" "\<not> js_includes bullet_file delimiter"
  "split_lines bullet_file = [[112], [45, 32, 97]]" "js_split_text delimiter bullet_file = [bullet_file]"
  "after_title bullet_file = None" "strip_bom bullet_file = bullet_file" "bullet_file \<noteq> []" "js_trim [97] = [97]"
  by (simp_all add: bullet_file_def js_trim_def is_space_def heading_at_def js_lit_def is_lineterm_def js_startsWith_def
      delimiter_def after_title_def strip_bom_def)

lemma bullet_file_read: "memoryBullets bullet_file = [[97]]" "mem_entries bullet_file = [bullet_file]"
  by (simp_all add: memoryBullets_def bullet_file_parts is_bullet_def is_space_def bullet_text_def mem_entries_def is_legacy_def)

lemma bullet_entry_compared: "compareMemory plain_env bullet_file [] [] threshold = [bullet_entry]"
  using bullet_file_read(1)
  by (simp add: compareMemory_def compare_target_def unmatched_local_def bullet_entry_def memoryBullets_def js_trim_def)

lemma bullet_removes_file:
  "memoryResolutionWrites bullet_entry TakeRemote = (Some (memory_op RemoveA MemoryT (Some [97]) None), None)"
  "mem_write tc (Some no_config) fresh None (memory_op RemoveA MemoryT (Some [97]) None) True
     \<lparr>ms_memory = bullet_file, ms_user = [], ms_pending = []\<rparr> =
   Inr (Saved, \<lparr>ms_memory = [], ms_user = [], ms_pending = []\<rparr>)"
proof -
  show "memoryResolutionWrites bullet_entry TakeRemote = (Some (memory_op RemoveA MemoryT (Some [97]) None), None)"
    by (simp add: memoryResolutionWrites_def bullet_entry_def)
  have "memory_options (Some no_config) \<noteq> Inl JsError" by (simp add: memory_options_def no_config_def or_default_def)
  then show "mem_write tc (Some no_config) fresh None (memory_op RemoveA MemoryT (Some [97]) None) True
     \<lparr>ms_memory = bullet_file, ms_user = [], ms_pending = []\<rparr> =
    Inr (Saved, \<lparr>ms_memory = [], ms_user = [], ms_pending = []\<rparr>)"
    using bullet_file_read(2)
    by (simp add: mem_write_def mem_apply_def memory_op_def op_list_def memory_options_def no_config_def or_default_def
        fileFor_def writeFile_def mem_limit_def set_list_def apply_operation_def op_old_def js_trim_def is_space_def
        js_startsWith_def bullet_file_def join_entries_def Let_def)
qed

end
