(* ===== verification/JsValues.thy ===== *)
theory JsValues
  imports JsStrings Complex_Main
begin

text \<open>
  The values of the standard library that schedules use: \<open>Number\<close> of a string, with exact values (the code only asks for
  integers), and the calendar of \<open>Date\<close>. The time zone of the machine (an offset for each UTC time and one for each local time)
  and \<open>Date.parse\<close>, whose format is left to the implementation, are the parameters \<open>sched_env\<close>.
\<close>

section \<open>Numbers in strings\<close>

definition lower_ascii :: "nat \<Rightarrow> nat" where
  "lower_ascii c = (if 65 \<le> c \<and> c \<le> 90 then c + 32 else c)"

definition pow10 :: "int \<Rightarrow> rat" where
  "pow10 k = (if k \<ge> 0 then 10 ^ nat k else 1 / 10 ^ nat (- k))"

text \<open>A decimal literal without a sign: digits, a fraction, an exponent.\<close>

definition exponent_value :: "jsstring \<Rightarrow> int option" where
  "exponent_value s =
     (let (sign, ds) = (case s of c # r \<Rightarrow> if c = 45 then (- 1, r) else if c = 43 then (1, r) else (1, s) | [] \<Rightarrow> (1, []))
      in if ds \<noteq> [] \<and> list_all is_digit ds then Some (sign * digits_value ds) else None)"

definition unsigned_decimal :: "jsstring \<Rightarrow> rat option" where
  "unsigned_decimal s =
     (let whole = takeWhile is_digit s;
          rest = dropWhile is_digit s;
          (fraction, rest) = (case rest of c # r \<Rightarrow> if c = 46 then (takeWhile is_digit r, dropWhile is_digit r) else ([], rest)
                              | [] \<Rightarrow> ([], []));
          value = of_int (digits_value (whole @ fraction)) / 10 ^ length fraction
      in if whole = [] \<and> fraction = [] then None
         else (case rest of
                 [] \<Rightarrow> Some value
               | c # r \<Rightarrow>
                   if lower_ascii c = 101 then map_option (\<lambda>k. value * pow10 k) (exponent_value r) else None))"

definition hex_value :: "nat \<Rightarrow> int option" where
  "hex_value c =
     (if is_digit c then Some (int c - 48)
      else if 97 \<le> lower_ascii c \<and> lower_ascii c \<le> 102 then Some (int (lower_ascii c) - 87)
      else None)"

definition radix_value :: "int \<Rightarrow> jsstring \<Rightarrow> rat option" where
  "radix_value base ds =
     (if ds \<noteq> [] \<and> list_all (\<lambda>c. case hex_value c of None \<Rightarrow> False | Some v \<Rightarrow> v < base) ds
      then Some (of_int (foldl (\<lambda>n c. base * n + the (hex_value c)) 0 ds)) else None)"

text \<open>\<open>Number(s)\<close> of a string, \<open>None\<close> for \<open>NaN\<close> and for the infinities.\<close>

definition js_number :: "jsstring \<Rightarrow> rat option" where
  "js_number s =
     (let t = js_trim s
      in case t of
           [] \<Rightarrow> Some 0
         | c # r \<Rightarrow>
             if c = 48 \<and> r \<noteq> [] \<and> lower_ascii (hd r) = 120 then radix_value 16 (tl r)
             else if c = 48 \<and> r \<noteq> [] \<and> lower_ascii (hd r) = 111 then radix_value 8 (tl r)
             else if c = 48 \<and> r \<noteq> [] \<and> lower_ascii (hd r) = 98 then radix_value 2 (tl r)
             else if c = 43 then unsigned_decimal r
             else if c = 45 then map_option uminus (unsigned_decimal r)
             else unsigned_decimal t)"

text \<open>\<open>Number(s)\<close> when \<open>Number.isInteger\<close> holds of it.\<close>

definition js_integer :: "jsstring \<Rightarrow> int option" where
  "js_integer s =
     (case js_number s of Some q \<Rightarrow> if of_int \<lfloor>q\<rfloor> = q then Some \<lfloor>q\<rfloor> else None | None \<Rightarrow> None)"

section \<open>The calendar of Date\<close>

record sched_env =
  sv_dateParse :: "jsstring \<Rightarrow> int option"
  sv_offset :: "int \<Rightarrow> int"
  sv_localOffset :: "int \<Rightarrow> int"

definition local_time :: "sched_env \<Rightarrow> int \<Rightarrow> int" where
  "local_time env t = t + sv_offset env t"

definition utc_time :: "sched_env \<Rightarrow> int \<Rightarrow> int" where
  "utc_time env l = l - sv_localOffset env l"

text \<open>Month (from 1) and day of the month of a day counted from the epoch, in the Gregorian calendar.\<close>

definition day_of_year :: "int \<Rightarrow> int" where
  "day_of_year day =
     (let z = (day + 719468) mod 146097;
          year = (z - z div 1460 + z div 36524 - z div 146096) div 365
      in z - (365 * year + year div 4 - year div 100))"

definition day_month :: "int \<Rightarrow> int" where
  "day_month day = (let m = (5 * day_of_year day + 2) div 153 in if m < 10 then m + 3 else m - 9)"

definition day_date :: "int \<Rightarrow> int" where
  "day_date day = (let n = day_of_year day; m = (5 * n + 2) div 153 in n - (153 * m + 2) div 5 + 1)"

definition day_weekday :: "int \<Rightarrow> int" where
  "day_weekday day = (day + 4) mod 7"

definition getMinutes :: "sched_env \<Rightarrow> int \<Rightarrow> int" where
  "getMinutes env t = local_time env t div 60000 mod 60"

definition getHours :: "sched_env \<Rightarrow> int \<Rightarrow> int" where
  "getHours env t = local_time env t div 3600000 mod 24"

definition getDate :: "sched_env \<Rightarrow> int \<Rightarrow> int" where
  "getDate env t = day_date (local_time env t div 86400000)"

definition getMonth :: "sched_env \<Rightarrow> int \<Rightarrow> int" where
  "getMonth env t = day_month (local_time env t div 86400000) - 1"

definition getDay :: "sched_env \<Rightarrow> int \<Rightarrow> int" where
  "getDay env t = day_weekday (local_time env t div 86400000)"

end
