(* ===== verification/Schedule.thy ===== *)
theory Schedule
  imports JsValues
begin

text \<open>
  The schedules of jobs, \<^verbatim>\<open>vs/latentRuntime/node/jobs/schedule.ts\<close>: the grammar of cron fields, intervals and time stamps, the
  next run, and the lateness of a run.

  \<open>Number\<close> and \<open>Date\<close> are those of \<^verbatim>\<open>JsValues\<close>; times are milliseconds since the epoch.
\<close>

section \<open>The grammar\<close>

datatype schedule = Cron "int list list" jsstring | Interval int | At int

definition ranges :: "(int \<times> int) list" where
  "ranges = [(0, 59), (0, 23), (1, 31), (1, 12), (0, 6)]"

text \<open>The loop \<open>for (let value = start; value <= end; value += step)\<close>; the step has been checked.\<close>

function for_values :: "int \<Rightarrow> int \<Rightarrow> int \<Rightarrow> int list" where
  "for_values val end_val step = (if val \<le> end_val \<and> 0 < step then val # for_values (val + step) end_val step else [])"
  by pat_completeness auto
termination
  by (relation "measure (\<lambda>(v, l, s). nat (l + 1 - v))") auto

declare for_values.simps [simp del]

definition parse_bounds :: "jsstring \<Rightarrow> bool \<Rightarrow> int \<times> int \<Rightarrow> (int \<times> int) result" where
  "parse_bounds base stepped limits =
     (if base = [42] then Inr limits
      else
        let texts = js_split 45 base;
            low = js_integer (hd texts);
            high = (case tl texts of t # _ \<Rightarrow> js_integer t | [] \<Rightarrow> if stepped then Some (snd limits) else low)
        in case (low, high) of
             (Some lo, Some hi) \<Rightarrow>
               if lo < fst limits \<or> hi > snd limits \<or> lo > hi then Inl JsError else Inr (lo, hi)
           | _ \<Rightarrow> Inl JsError)"

definition parse_part :: "int \<times> int \<Rightarrow> jsstring \<Rightarrow> int list result" where
  "parse_part limits part =
     (let texts = js_split 47 part;
          base = hd texts;
          stepText = (case tl texts of t # _ \<Rightarrow> t | [] \<Rightarrow> []);
          step = (if stepText \<noteq> [] then js_integer stepText else Some 1)
      in case step of
           None \<Rightarrow> Inl JsError
         | Some st \<Rightarrow>
             if st \<le> 0 then Inl JsError
             else bindR (parse_bounds base (stepText \<noteq> []) limits) (\<lambda>(lo, hi).
                    Inr (map (\<lambda>v. if v = 7 \<and> snd limits = 6 then 0 else v) (for_values lo hi st))))"

fun parse_parts :: "int \<times> int \<Rightarrow> jsstring list \<Rightarrow> int list result" where
  "parse_parts limits [] = Inr []"
| "parse_parts limits (part # parts) =
     bindR (parse_part limits part) (\<lambda>vs. bindR (parse_parts limits parts) (\<lambda>ws. Inr (vs @ ws)))"

definition parseField :: "int \<times> int \<Rightarrow> jsstring \<Rightarrow> int list result" where
  "parseField limits field = bindR (parse_parts limits (js_split 44 field)) (\<lambda>vs. Inr (sort (remdups vs)))"

fun parse_fields :: "(int \<times> int) list \<Rightarrow> jsstring list \<Rightarrow> int list list result" where
  "parse_fields (limits # ls) (field # fs) =
     bindR (parseField limits field) (\<lambda>vs. bindR (parse_fields ls fs) (\<lambda>vss. Inr (vs # vss)))"
| "parse_fields _ _ = Inr []"

text \<open>A prefix, without regard to case.\<close>

definition starts_ci :: "jsstring \<Rightarrow> jsstring \<Rightarrow> bool" where
  "starts_ci s p = (map lower_ascii (take (length p) s) = p)"

definition units :: "jsstring list" where
  "units = map js_lit [''m'', ''min'', ''minute'', ''minutes'', ''h'', ''hour'', ''hours'', ''d'', ''day'', ''days'']"

text \<open>\<open>/^every\s+(\d+)\s*(m|min|minutes?|h|hours?|d|days?)$/i\<close>: the number and the unit.\<close>

definition match_every :: "jsstring \<Rightarrow> (int \<times> jsstring) option" where
  "match_every text =
     (let r = drop 5 text;
          r1 = dropWhile is_space r;
          ds = takeWhile is_digit r1;
          unit = map lower_ascii (dropWhile is_space (dropWhile is_digit r1))
      in if starts_ci text (js_lit ''every'') \<and> takeWhile is_space r \<noteq> [] \<and> ds \<noteq> [] \<and> unit \<in> set units
         then Some (digits_value ds, unit) else None)"

text \<open>\<open>/^at\s+(.+)$/i\<close> on a trimmed text: the time stamp.\<close>

definition match_at :: "jsstring \<Rightarrow> jsstring option" where
  "match_at text =
     (let r = drop 2 text; stamp = dropWhile is_space r
      in if starts_ci text (js_lit ''at'') \<and> takeWhile is_space r \<noteq> [] \<and> stamp \<noteq> [] \<and> \<not> list_ex is_lineterm stamp
         then Some stamp else None)"

text \<open>\<open>split(/\s+/)\<close>; a run of white space is one separator.\<close>

fun split_spaces :: "bool \<Rightarrow> jsstring \<Rightarrow> jsstring list" where
  "split_spaces in_space [] = [[]]"
| "split_spaces in_space (c # s) =
     (if is_space c then (if in_space then split_spaces True s else [] # split_spaces True s)
      else (c # hd (split_spaces False s)) # tl (split_spaces False s))"

definition strip_cron :: "jsstring \<Rightarrow> jsstring" where
  "strip_cron text = (if starts_ci text (js_lit ''cron:'') then dropWhile is_space (drop 5 text) else text)"

definition parseSchedule :: "sched_env \<Rightarrow> jsstring \<Rightarrow> schedule result" where
  "parseSchedule env text =
     (let val = js_trim text
      in case match_every val of
           Some (amount, unit) \<Rightarrow>
             let minutes = (if js_startsWith unit (js_lit ''h'') then amount * 60
                            else if js_startsWith unit (js_lit ''d'') then amount * 1440 else amount)
             in if minutes \<le> 0 then Inl JsError else Inr (Interval minutes)
         | None \<Rightarrow>
             (case match_at val of
                Some stamp \<Rightarrow> (case sv_dateParse env stamp of None \<Rightarrow> Inl JsError | Some time \<Rightarrow> Inr (At time))
              | None \<Rightarrow>
                  let expression = strip_cron val; fs = split_spaces False expression
                  in if length fs \<noteq> 5 then Inl JsError
                     else bindR (parse_fields ranges fs) (\<lambda>vss. Inr (Cron vss expression))))"

section \<open>Stepping through the minutes\<close>

text \<open>\<open>setSeconds(0, 0)\<close> and \<open>setMinutes(getMinutes() + 1)\<close>.\<close>

definition clear_seconds :: "sched_env \<Rightarrow> int \<Rightarrow> int" where
  "clear_seconds env t = utc_time env (local_time env t - local_time env t mod 60000)"

definition next_minute :: "sched_env \<Rightarrow> int \<Rightarrow> int" where
  "next_minute env t = utc_time env (local_time env t + 60000)"

section \<open>The next run\<close>

definition cron_matches :: "sched_env \<Rightarrow> int list list \<Rightarrow> int \<Rightarrow> bool" where
  "cron_matches env fs cursor =
     (getMonth env cursor + 1 \<in> set (fs ! 3) \<and> getDate env cursor \<in> set (fs ! 2) \<and>
      getDay env cursor \<in> set (fs ! 4) \<and> getHours env cursor \<in> set (fs ! 1) \<and>
      getMinutes env cursor \<in> set (fs ! 0))"

fun cron_search :: "sched_env \<Rightarrow> int list list \<Rightarrow> nat \<Rightarrow> int \<Rightarrow> int option" where
  "cron_search env fs 0 cursor = None"
| "cron_search env fs (Suc n) cursor =
     (if cron_matches env fs cursor then Some cursor
      else cron_search env fs n (next_minute env cursor))"

definition search_minutes :: nat where
  "search_minutes = 366 * 24 * 60"

definition computeNextRun :: "sched_env \<Rightarrow> schedule \<Rightarrow> int \<Rightarrow> int option \<Rightarrow> int option" where
  "computeNextRun env sched from_time lastRunAt =
     (case sched of
        At time \<Rightarrow> (case lastRunAt of Some l \<Rightarrow> if l \<ge> time then None else Some time | None \<Rightarrow> Some time)
      | Interval minutes \<Rightarrow>
          let base = (case lastRunAt of Some l \<Rightarrow> l | None \<Rightarrow> from_time); next = base + minutes * 60000
          in if next > from_time then Some next else Some (from_time + minutes * 60000)
      | Cron fs _ \<Rightarrow> cron_search env fs search_minutes (next_minute env (clear_seconds env from_time)))"

definition cadenceSeconds :: "schedule \<Rightarrow> int option" where
  "cadenceSeconds sched =
     (case sched of Interval minutes \<Rightarrow> Some (minutes * 60) | Cron _ _ \<Rightarrow> Some 60 | At _ \<Rightarrow> None)"

datatype lateness = OnTime | Late | CatchUp

definition classifyLateness :: "int \<Rightarrow> int \<Rightarrow> int option \<Rightarrow> bool \<Rightarrow> lateness" where
  "classifyLateness scheduledAt now cadence wasOffline =
     (let grace = max 60 ((case cadence of Some c \<Rightarrow> c | None \<Rightarrow> 3600) div 2);
          latenessSeconds = of_int (now - scheduledAt) / 1000 :: rat
      in if latenessSeconds \<le> of_int grace then OnTime else if wasOffline then CatchUp else Late)"

section \<open>What a cron field means\<close>

lemma for_values_set: "0 < step \<Longrightarrow> set (for_values lo hi step) = {v. lo \<le> v \<and> v \<le> hi \<and> step dvd (v - lo)}"
proof (induction lo hi step rule: for_values.induct)
  case (1 lo hi step)
  show ?case
  proof (cases "lo \<le> hi")
    case True
    have shift: "step dvd (v - (lo + step)) \<longleftrightarrow> step dvd (v - lo)" for v
    proof -
      have "v - lo = (v - (lo + step)) + step" by simp
      then show ?thesis by (metis dvd_add_right_iff dvd_refl add.commute)
    qed
    have far: "v = lo \<or> lo + step \<le> v" if "lo \<le> v" "step dvd (v - lo)" for v
      using zdvd_imp_le[OF that(2)] that(1) by linarith
    have "{v. lo \<le> v \<and> v \<le> hi \<and> step dvd (v - lo)} =
        insert lo {v. lo + step \<le> v \<and> v \<le> hi \<and> step dvd (v - (lo + step))}"
      unfolding shift using True 1(2) far by (auto dest: far)
    then show ?thesis using 1 True by (simp add: for_values.simps[of lo])
  next
    case False
    then show ?thesis by (auto simp: for_values.simps[of lo])
  qed
qed

text \<open>The step of a part and its bounds, and the reading of the whole field.\<close>

definition part_step :: "jsstring \<Rightarrow> int option" where
  "part_step part =
     (case tl (js_split 47 part) of t # _ \<Rightarrow> if t \<noteq> [] then js_integer t else Some 1 | [] \<Rightarrow> Some 1)"

definition part_bounds :: "int \<times> int \<Rightarrow> jsstring \<Rightarrow> (int \<times> int) result" where
  "part_bounds limits part =
     parse_bounds (hd (js_split 47 part)) (case tl (js_split 47 part) of t # _ \<Rightarrow> t \<noteq> [] | [] \<Rightarrow> False) limits"

definition part_ok :: "int \<times> int \<Rightarrow> jsstring \<Rightarrow> bool" where
  "part_ok limits part = ((\<exists>st. part_step part = Some st \<and> 0 < st) \<and> (\<exists>b. part_bounds limits part = Inr b))"

definition part_admits :: "int \<times> int \<Rightarrow> jsstring \<Rightarrow> int \<Rightarrow> bool" where
  "part_admits limits part v =
     (\<exists>lo hi st. part_bounds limits part = Inr (lo, hi) \<and> part_step part = Some st \<and>
        lo \<le> v \<and> v \<le> hi \<and> st dvd (v - lo))"

lemma parse_bounds_within:
  "parse_bounds base stepped limits = Inr (lo, hi) \<Longrightarrow> fst limits \<le> snd limits \<Longrightarrow>
   fst limits \<le> lo \<and> lo \<le> hi \<and> hi \<le> snd limits"
  by (auto simp: parse_bounds_def Let_def split: if_splits option.splits)

lemma parse_bounds_error: "parse_bounds base stepped limits = Inl e \<Longrightarrow> e = JsError"
  by (auto simp: parse_bounds_def Let_def split: if_splits option.splits)

lemma parse_part_cases:
  "parse_part limits part =
     (if part_ok limits part
      then (let (lo, hi) = (case part_bounds limits part of Inr b \<Rightarrow> b | Inl _ \<Rightarrow> limits)
            in Inr (map (\<lambda>v. if v = 7 \<and> snd limits = 6 then 0 else v) (for_values lo hi (the (part_step part)))))
      else Inl JsError)"
proof -
  have pb: "e = JsError" if "part_bounds limits part = Inl e" for e
    using that unfolding part_bounds_def by (rule parse_bounds_error)
  show ?thesis
  proof (cases "tl (js_split 47 part)")
    case Nil
    then show ?thesis using pb
      by (cases "part_bounds limits part")
        (auto simp: parse_part_def part_ok_def part_step_def part_bounds_def Let_def result_simps)
  next
    case (Cons t ts)
    then show ?thesis using pb
      by (cases "part_bounds limits part"; cases "js_integer t"; cases "t = []")
        (auto simp: parse_part_def part_ok_def part_step_def part_bounds_def Let_def result_simps)
  qed
qed

lemma parse_part_set:
  assumes "fst limits \<le> snd limits" "parse_part limits part = Inr vs"
  shows "part_ok limits part" "set vs = {v. part_admits limits part v}" "\<forall>v \<in> set vs. fst limits \<le> v \<and> v \<le> snd limits"
    "vs \<noteq> []"
proof -
  show ok: "part_ok limits part" using assms(2) by (simp add: parse_part_cases split: if_splits)
  obtain lo hi st where b: "part_bounds limits part = Inr (lo, hi)" "part_step part = Some st" "0 < st"
    using ok by (auto simp: part_ok_def)
  have w: "fst limits \<le> lo" "lo \<le> hi" "hi \<le> snd limits"
    using parse_bounds_within[OF _ assms(1)] b(1) unfolding part_bounds_def by blast+
  have vs: "vs = map (\<lambda>v. if v = 7 \<and> snd limits = 6 then 0 else v) (for_values lo hi st)"
    using assms(2) ok b by (simp add: parse_part_cases)
  have "map (\<lambda>v. if v = 7 \<and> snd limits = 6 then 0 else v) (for_values lo hi st) = for_values lo hi st"
    using w(3) by (intro map_idI) (auto simp: for_values_set[OF b(3)])
  then have vs: "vs = for_values lo hi st" using vs by simp
  show "set vs = {v. part_admits limits part v}" using b for_values_set[OF b(3)] by (auto simp: vs part_admits_def)
  show "\<forall>v \<in> set vs. fst limits \<le> v \<and> v \<le> snd limits" using w for_values_set[OF b(3)] by (auto simp: vs)
  show "vs \<noteq> []" using w(2) b(3) by (simp add: vs for_values.simps[of lo])
qed

lemma parse_parts_set:
  assumes "fst limits \<le> snd limits"
  shows "case parse_parts limits parts of
      Inl e \<Rightarrow> e = JsError \<and> (\<exists>p \<in> set parts. \<not> part_ok limits p)
    | Inr vs \<Rightarrow> (\<forall>p \<in> set parts. part_ok limits p) \<and> (\<forall>v. v \<in> set vs \<longleftrightarrow> (\<exists>p \<in> set parts. part_admits limits p v)) \<and>
        (\<forall>v \<in> set vs. fst limits \<le> v \<and> v \<le> snd limits) \<and> (parts \<noteq> [] \<longrightarrow> vs \<noteq> [])"
proof (induction parts)
  case (Cons part parts)
  show ?case
  proof (cases "parse_part limits part")
    case (Inl e)
    then show ?thesis
      by (cases "part_bounds limits part") (auto simp: result_simps parse_part_cases split: if_splits prod.splits)
  next
    case (Inr vs)
    then show ?thesis using Cons parse_part_set[OF assms Inr]
      by (cases "parse_parts limits parts") (auto simp: result_simps)
  qed
qed simp

lemma sort_Nil: "sort xs = [] \<longleftrightarrow> xs = []"
  by (metis length_0_conv length_sort)



section \<open>The next run\<close>

lemma cron_search_matches: "cron_search env fs n c = Some t \<Longrightarrow> cron_matches env fs t"
  by (induction n arbitrary: c) (auto split: if_splits)

text \<open>A zone whose offset never changes.\<close>

definition fixed_zone :: "sched_env \<Rightarrow> bool" where
  "fixed_zone env = (\<forall>t. sv_localOffset env t = sv_offset env 0 \<and> sv_offset env t = sv_offset env 0)"

definition whole_minute :: "sched_env \<Rightarrow> int \<Rightarrow> bool" where
  "whole_minute env t = (local_time env t mod 60000 = 0)"

lemma fixed_zone_simps:
  assumes "fixed_zone env"
  shows "local_time env t = t + sv_offset env 0" "utc_time env l = l - sv_offset env 0" "next_minute env t = t + 60000"
  using assms by (simp_all add: fixed_zone_def local_time_def utc_time_def next_minute_def)

lemma cron_search_fixed:
  assumes "fixed_zone env"
  shows "case cron_search env fs n c of
      Some t \<Rightarrow> (\<exists>k < n. t = c + 60000 * int k \<and> cron_matches env fs t \<and> (\<forall>j < k. \<not> cron_matches env fs (c + 60000 * int j)))
    | None \<Rightarrow> (\<forall>k < n. \<not> cron_matches env fs (c + 60000 * int k))"
proof (induction n arbitrary: c)
  case (Suc n)
  show ?case
  proof (cases "cron_matches env fs c")
    case True
    then show ?thesis by (auto intro!: exI[of _ 0])
  next
    case False
    have IH: "case cron_search env fs n (c + 60000) of
        Some t \<Rightarrow> (\<exists>k < n. t = c + 60000 + 60000 * int k \<and> cron_matches env fs t \<and>
                     (\<forall>j < k. \<not> cron_matches env fs (c + 60000 + 60000 * int j)))
      | None \<Rightarrow> (\<forall>k < n. \<not> cron_matches env fs (c + 60000 + 60000 * int k))"
      by (rule Suc.IH)
    have shift: "c + 60000 + 60000 * int k = c + 60000 * int (Suc k)" for k by simp
    show ?thesis
    proof (cases "cron_search env fs n (c + 60000)")
      case None
      then have none: "\<forall>k < n. \<not> cron_matches env fs (c + 60000 * int (Suc k))" using IH unfolding shift by simp
      have "\<not> cron_matches env fs (c + 60000 * int k)" if "k < Suc n" for k
        using False none that by (cases k) simp_all
      then show ?thesis using False None assms by (simp add: fixed_zone_simps)
    next
      case (Some t)
      then obtain k where k: "k < n" "t = c + 60000 * int (Suc k)" "cron_matches env fs t"
        "\<forall>j < k. \<not> cron_matches env fs (c + 60000 * int (Suc j))"
        using IH unfolding shift by auto
      have "\<not> cron_matches env fs (c + 60000 * int j)" if "j < Suc k" for j
        using False k(4) that by (cases j) simp_all
      then have "\<exists>k' < Suc n. t = c + 60000 * int k' \<and> cron_matches env fs t \<and>
          (\<forall>j < k'. \<not> cron_matches env fs (c + 60000 * int j))"
        using k by (intro exI[of _ "Suc k"]) simp
      then show ?thesis using False Some assms by (simp add: fixed_zone_simps)
    qed
  qed
qed simp

lemma clear_seconds_fixed:
  assumes "fixed_zone env"
  shows "clear_seconds env t \<le> t" "t < clear_seconds env t + 60000" "whole_minute env (clear_seconds env t)"
proof -
  let ?l = "t + sv_offset env 0"
  have c: "clear_seconds env t = t - ?l mod 60000" using assms by (simp add: clear_seconds_def fixed_zone_simps)
  have m: "0 \<le> ?l mod 60000" "?l mod 60000 < 60000" by simp_all
  show "clear_seconds env t \<le> t" "t < clear_seconds env t + 60000" using c m by linarith+
  have "local_time env (clear_seconds env t) = 60000 * (?l div 60000)"
    using c by (simp add: fixed_zone_simps[OF assms] minus_mod_eq_mult_div[symmetric])
  then show "whole_minute env (clear_seconds env t)" by (simp add: whole_minute_def)
qed

lemma whole_minute_iff:
  assumes "fixed_zone env" "whole_minute env c"
  shows "whole_minute env u \<longleftrightarrow> (\<exists>k. u = c + 60000 * k)"
proof -
  let ?o = "sv_offset env 0"
  have c: "(c + ?o) mod 60000 = 0" using assms by (simp add: whole_minute_def fixed_zone_simps)
  have "(u + ?o) mod 60000 = 0 \<longleftrightarrow> (60000::int) dvd (u - c)"
    using c mod_eq_dvd_iff[of "u + ?o" 60000 "c + ?o"] by simp
  also have "\<dots> \<longleftrightarrow> (\<exists>k. u = c + 60000 * k)" by (auto simp: dvd_def algebra_simps)
  finally show ?thesis using assms(1) by (simp add: whole_minute_def fixed_zone_simps)
qed

lemma computeNextRun_spec:
  "(case sched of
      Interval minutes \<Rightarrow>
        minutes > 0 \<longrightarrow> (\<exists>t. computeNextRun env sched from_time lastRunAt = Some t \<and> t > from_time \<and>
          (t = from_time + minutes * 60000 \<or> (\<exists>l. lastRunAt = Some l \<and> t = l + minutes * 60000)))
    | At time \<Rightarrow> computeNextRun env sched from_time lastRunAt =
        (if \<exists>l. lastRunAt = Some l \<and> time \<le> l then None else Some time)
    | Cron fs _ \<Rightarrow>
        (\<forall>t. computeNextRun env sched from_time lastRunAt = Some t \<longrightarrow> cron_matches env fs t) \<and>
        (fixed_zone env \<longrightarrow>
           (case computeNextRun env sched from_time lastRunAt of
              Some t \<Rightarrow> from_time < t \<and> t \<le> from_time + 366 * 86400000 \<and> whole_minute env t \<and> cron_matches env fs t \<and>
                (\<forall>u. from_time < u \<longrightarrow> u < t \<longrightarrow> whole_minute env u \<longrightarrow> \<not> cron_matches env fs u)
            | None \<Rightarrow> (\<forall>u. from_time < u \<longrightarrow> u \<le> from_time + 366 * 86400000 \<longrightarrow> whole_minute env u \<longrightarrow> \<not> cron_matches env fs u))))"
proof (cases sched)
  case (At time)
  then show ?thesis by (auto simp: computeNextRun_def split: option.splits)
next
  case (Interval minutes)
  then show ?thesis by (auto simp: computeNextRun_def Let_def split: option.splits)
next
  case (Cron fs expression)
  let ?r = "computeNextRun env sched from_time lastRunAt"
  let ?c = "next_minute env (clear_seconds env from_time)"
  have r: "?r = cron_search env fs search_minutes ?c" by (simp add: computeNextRun_def Cron)
  have least: "case ?r of
        Some t \<Rightarrow> from_time < t \<and> t \<le> from_time + 366 * 86400000 \<and> whole_minute env t \<and> cron_matches env fs t \<and>
          (\<forall>u. from_time < u \<longrightarrow> u < t \<longrightarrow> whole_minute env u \<longrightarrow> \<not> cron_matches env fs u)
      | None \<Rightarrow> (\<forall>u. from_time < u \<longrightarrow> u \<le> from_time + 366 * 86400000 \<longrightarrow> whole_minute env u \<longrightarrow> \<not> cron_matches env fs u)"
    if fz: "fixed_zone env"
  proof -
    let ?s = "clear_seconds env from_time"
    note s = clear_seconds_fixed[OF fz, of from_time]
    have c: "?c = ?s + 60000" by (simp add: fixed_zone_simps[OF fz])
    have nth: "\<exists>k. u = ?c + 60000 * int k" if u: "from_time < u" "whole_minute env u" for u
    proof -
      obtain k where k: "u = ?s + 60000 * k" using u(2) whole_minute_iff[OF fz s(3)] by blast
      then have "0 < k" using u(1) s(1) by (smt (verit) mult_nonneg_nonpos)
      then show ?thesis using k c by (intro exI[of _ "nat (k - 1)"]) (simp add: algebra_simps)
    qed
    have n: "int search_minutes * 60000 = 366 * 86400000" by (simp add: search_minutes_def)
    show ?thesis
    proof (cases ?r)
      case None
      then have "\<forall>k < search_minutes. \<not> cron_matches env fs (?c + 60000 * int k)"
        using cron_search_fixed[OF fz, where fs = fs and n = search_minutes and c = ?c] r by simp
      moreover have "k < search_minutes" if "?c + 60000 * int k \<le> from_time + 366 * 86400000" for k
        using that s(2) c n by linarith
      ultimately have "\<not> cron_matches env fs u" if "from_time < u" "u \<le> from_time + 366 * 86400000" "whole_minute env u" for u
        using nth[OF that(1,3)] that(2) by blast
      then show ?thesis using None by simp
    next
      case (Some t)
      then obtain k where k: "k < search_minutes" "t = ?c + 60000 * int k" "cron_matches env fs t"
        "\<forall>j < k. \<not> cron_matches env fs (?c + 60000 * int j)"
        using cron_search_fixed[OF fz, where fs = fs and n = search_minutes and c = ?c] r by auto
      have "whole_minute env t"
        unfolding whole_minute_iff[OF fz s(3)] using k(2) c by (intro exI[of _ "int k + 1"]) simp
      moreover have "from_time < t" using k(2) c s(2) by simp
      moreover have "t \<le> from_time + 366 * 86400000" using k(1,2) c s(1) n by linarith
      moreover have "\<not> cron_matches env fs u" if "from_time < u" "u < t" "whole_minute env u" for u
        using nth[OF that(1,3)] that(2) k(2,4) by auto
      ultimately show ?thesis using Some k(3) by simp
    qed
  qed
  show ?thesis using least cron_search_matches r by (simp add: Cron)
qed

text \<open>With positive intervals, and in a zone without changes, the next run of a repeating schedule lies after \<open>from\<close>.\<close>

lemma computeNextRun_after:
  assumes "fixed_zone env" "computeNextRun env sched from_time lastRunAt = Some t"
    "\<forall>time. sched \<noteq> At time" "\<forall>minutes. sched = Interval minutes \<longrightarrow> minutes > 0"
  shows "from_time < t"
  using computeNextRun_spec[where sched = sched and env = env and from_time = from_time and lastRunAt = lastRunAt] assms by (cases sched) auto

lemma parseSchedule_interval: "parseSchedule env txt = Inr (Interval minutes) \<Longrightarrow> minutes > 0"
  by (auto simp: parseSchedule_def Let_def result_simps split: option.splits if_splits prod.splits sum.splits)


definition utc_env :: sched_env where
  "utc_env = \<lparr>sv_dateParse = \<lambda>_. None, sv_offset = \<lambda>_. 0, sv_localOffset = \<lambda>_. 0\<rparr>"

lemmas calendar_eval =
  cron_matches_def getMinutes_def getHours_def getDate_def getMonth_def getDay_def local_time_def utc_time_def
  day_of_year_def day_month_def day_date_def day_weekday_def Let_def


section \<open>Printed schedules are read back\<close>

lemma digits_parts:
  assumes "list_all is_digit ds"
  shows "takeWhile is_digit ds = ds" "dropWhile is_digit ds = []" "\<forall>c \<in> set ds. \<not> is_space c"
  using assms by (induction ds) (auto simp: is_digit_def is_space_def)

lemma js_integer_digits:
  assumes "ds \<noteq> []" "list_all is_digit ds"
  shows "js_integer ds = Some (digits_value ds)"
proof -
  obtain c r where ds: "ds = c # r" using assms(1) by (cases ds) auto
  have d: "\<forall>x \<in> set ds. is_digit x" using assms(2) by (simp add: list_all_iff)
  have "hd ds \<in> set ds" "last ds \<in> set ds" using assms(1) by simp_all
  then have "\<not> is_space (hd ds)" "\<not> is_space (last ds)" using d by (auto simp: is_digit_def is_space_def)
  then have t: "js_trim ds = ds" by (simp add: trimmed_iff)
  have c: "c \<noteq> 43" "c \<noteq> 45" using d ds by (auto simp: is_digit_def)
  have l: "lower_ascii (hd r) \<notin> {120, 111, 98}" if "r \<noteq> []"
  proof -
    have "is_digit (hd r)" using that d ds by simp
    then show ?thesis by (auto simp: is_digit_def lower_ascii_def)
  qed
  have u: "unsigned_decimal ds = Some (of_int (digits_value ds))"
    using assms(1) by (simp add: unsigned_decimal_def Let_def digits_parts(1,2)[OF assms(2)])
  have "js_number ds = Some (of_int (digits_value ds))"
    using t c l u by (auto simp: js_number_def ds Let_def)
  then show ?thesis by (simp add: js_integer_def)
qed

lemma js_integer_int_text: "0 \<le> v \<Longrightarrow> js_integer (int_text v) = Some v"
  using js_integer_digits int_text_digits by metis

lemma int_text_chars: "0 \<le> v \<Longrightarrow> c \<in> set (int_text v) \<Longrightarrow> is_digit c"
  using int_text_digits[of v] by (simp add: list_all_iff)

lemma int_text_no: "0 \<le> v \<Longrightarrow> \<not> is_digit c \<Longrightarrow> c \<notin> set (int_text v)"
  using int_text_chars by blast

lemma parse_part_int_text:
  assumes "0 \<le> fst limits" "fst limits \<le> v" "v \<le> snd limits"
  shows "parse_part limits (int_text v) = Inr [v]"
proof -
  have v: "0 \<le> v" using assms by simp
  have "47 \<notin> set (int_text v)" "45 \<notin> set (int_text v)"
    using int_text_no[OF v] by (simp_all add: is_digit_def)
  moreover have "int_text v \<noteq> [42]" using int_text_chars[OF v, of 42] by (auto simp: is_digit_def)
  moreover have "for_values v v 1 = [v]" by (simp add: for_values.simps)
  ultimately show ?thesis
    using assms js_integer_int_text[OF v]
    by (simp add: parse_part_def parse_bounds_def js_split_single Let_def result_simps)
qed

definition field_text :: "int list \<Rightarrow> jsstring" where
  "field_text vs = js_join 44 (map int_text vs)"

definition cron_text :: "int list list \<Rightarrow> jsstring" where
  "cron_text vss = js_join 32 (map field_text vss)"

lemma js_split_join:
  "ps \<noteq> [] \<Longrightarrow> \<forall>p \<in> set ps. d \<notin> set p \<Longrightarrow> js_split d (js_join d ps) = ps"
proof (induction ps)
  case (Cons p ps)
  then show ?case by (cases ps) (simp_all add: js_split_single js_split_append)
qed simp

lemma parseField_field_text:
  assumes "0 \<le> fst limits" "vs \<noteq> []" "\<forall>v \<in> set vs. fst limits \<le> v \<and> v \<le> snd limits"
  shows "parseField limits (field_text vs) = Inr (sort (remdups vs))"
proof -
  have "\<forall>p \<in> set (map int_text vs). 44 \<notin> set p"
    using assms(1,3) int_text_no[of _ 44] by (fastforce simp: is_digit_def)
  then have s: "js_split 44 (field_text vs) = map int_text vs"
    using assms(2) js_split_join[of "map int_text vs" 44] by (simp add: field_text_def)
  have "parse_parts limits (map int_text ws) = Inr ws" if "set ws \<subseteq> set vs" for ws
    using that parse_part_int_text[OF assms(1)] assms(3) by (induction ws) (auto simp: result_simps)
  then show ?thesis by (simp add: parseField_def s result_simps)
qed

lemma field_text_chars:
  assumes "\<forall>v \<in> set vs. 0 \<le> v" "c \<in> set (field_text vs)"
  shows "is_digit c \<or> c = 44"
  using assms unfolding field_text_def
proof (induction vs)
  case (Cons v vs)
  then show ?case using int_text_chars[of v c] by (cases vs) auto
qed simp

lemma field_text_shape:
  assumes "\<forall>v \<in> set vs. 0 \<le> v" "vs \<noteq> []"
  shows "field_text vs \<noteq> []" "is_digit (hd (field_text vs))"
proof -
  obtain v ws where vs: "vs = v # ws" using assms(2) by (cases vs) auto
  have v: "int_text v \<noteq> []" "list_all is_digit (int_text v)" using int_text_digits[of v] assms(1) vs by simp_all
  have "\<exists>t. field_text vs = int_text v @ t" by (cases ws) (simp_all add: field_text_def vs)
  then obtain t where t: "field_text vs = int_text v @ t" ..
  show "field_text vs \<noteq> []" using t v(1) by simp
  show "is_digit (hd (field_text vs))" using t v by (cases "int_text v") simp_all
qed

lemma split_spaces_word:
  "\<forall>c \<in> set w. \<not> is_space c \<Longrightarrow> w \<noteq> [] \<Longrightarrow> split_spaces b w = [w]"
proof (induction w arbitrary: b)
  case (Cons c w)
  then show ?case by (cases w) auto
qed simp

lemma split_spaces_append:
  "\<forall>c \<in> set w. \<not> is_space c \<Longrightarrow> w \<noteq> [] \<Longrightarrow> split_spaces b (w @ 32 # s) = w # split_spaces True s"
proof (induction w arbitrary: b)
  case (Cons c w)
  then show ?case by (cases w) (auto simp: is_space_def)
qed simp

lemma split_spaces_join:
  "ws \<noteq> [] \<Longrightarrow> \<forall>w \<in> set ws. w \<noteq> [] \<and> (\<forall>c \<in> set w. \<not> is_space c) \<Longrightarrow> split_spaces b (js_join 32 ws) = ws"
proof (induction ws arbitrary: b)
  case (Cons w ws)
  then show ?case by (cases ws) (simp_all add: split_spaces_word split_spaces_append)
qed simp

lemma js_join_last: "ps \<noteq> [] \<Longrightarrow> last ps \<noteq> [] \<Longrightarrow> js_join d ps \<noteq> [] \<and> last (js_join d ps) = last (last ps)"
proof (induction ps)
  case (Cons p ps)
  then show ?case by (cases ps) auto
qed simp

lemma parse_fields_texts:
  "length ls = length vss \<Longrightarrow>
   list_all2 (\<lambda>l vs. 0 \<le> fst l \<and> vs \<noteq> [] \<and> (\<forall>v \<in> set vs. fst l \<le> v \<and> v \<le> snd l)) ls vss \<Longrightarrow>
   parse_fields ls (map field_text vss) = Inr (map (\<lambda>vs. sort (remdups vs)) vss)"
proof (induction ls vss rule: list_induct2)
  case (Cons l ls vs vss)
  then show ?case using parseField_field_text[of l vs] by (simp add: result_simps)
qed simp

lemma starts_ci_digit: "s \<noteq> [] \<Longrightarrow> is_digit (hd s) \<Longrightarrow> p \<noteq> [] \<Longrightarrow> \<not> is_digit (hd p) \<Longrightarrow> \<not> starts_ci s p"
  by (cases s; cases p) (auto simp: starts_ci_def lower_ascii_def is_digit_def)

lemma match_every_printed:
  assumes "0 \<le> n" "u \<in> {109, 104, 100}"
  shows "match_every (js_lit ''every '' @ int_text n @ [u]) = Some (n, [u])"
    "js_trim (js_lit ''every '' @ int_text n @ [u]) = js_lit ''every '' @ int_text n @ [u]"
proof -
  have d: "int_text n \<noteq> []" "list_all is_digit (int_text n)" "digits_value (int_text n) = n"
    using int_text_digits[OF assms(1)] by simp_all
  obtain c r where c: "int_text n = c # r" "is_digit c" using d(1,2) by (cases "int_text n") auto
  have u: "\<not> is_digit u" "\<not> is_space u" "lower_ascii u = u" using assms(2) by (auto simp: is_digit_def is_space_def lower_ascii_def)
  have s: "\<not> is_space c" "is_space 32" using c(2) by (auto simp: is_digit_def is_space_def)
  have e: "js_lit ''every '' = [101, 118, 101, 114, 121, 32]" "js_lit ''every'' = [101, 118, 101, 114, 121]"
    by (simp_all add: js_lit_def)
  have m: "[u] \<in> set units" using assms(2) by (auto simp: units_def js_lit_def)
  have tw: "takeWhile is_digit (int_text n @ [u]) = int_text n" "dropWhile is_digit (int_text n @ [u]) = [u]"
    using d(2) u(1) by (simp_all add: list_all_iff)
  have dw: "dropWhile is_space (32 # int_text n @ [u]) = int_text n @ [u]" using s c(1) by simp
  show "match_every (js_lit ''every '' @ int_text n @ [u]) = Some (n, [u])"
    using tw dw u m d(1,3) s(2)
    by (simp add: match_every_def e starts_ci_def lower_ascii_def[of 101] lower_ascii_def[of 118] lower_ascii_def[of 114]
        lower_ascii_def[of 121] Let_def)
  show "js_trim (js_lit ''every '' @ int_text n @ [u]) = js_lit ''every '' @ int_text n @ [u]"
    unfolding trimmed_iff using u(2) by (simp add: e) (simp add: is_space_def)
qed

lemma every_printed:
  assumes "0 < n"
  shows "parseSchedule env (js_lit ''every '' @ int_text n @ js_lit ''m'') = Inr (Interval n)"
    "parseSchedule env (js_lit ''every '' @ int_text n @ js_lit ''h'') = Inr (Interval (n * 60))"
    "parseSchedule env (js_lit ''every '' @ int_text n @ js_lit ''d'') = Inr (Interval (n * 1440))"
proof -
  have u: "js_lit ''m'' = [109]" "js_lit ''h'' = [104]" "js_lit ''d'' = [100]" by (simp_all add: js_lit_def)
  note p = match_every_printed[of n, OF less_imp_le[OF assms]]
  show "parseSchedule env (js_lit ''every '' @ int_text n @ js_lit ''m'') = Inr (Interval n)"
    "parseSchedule env (js_lit ''every '' @ int_text n @ js_lit ''h'') = Inr (Interval (n * 60))"
    "parseSchedule env (js_lit ''every '' @ int_text n @ js_lit ''d'') = Inr (Interval (n * 1440))"
    using assms p[of 109] p[of 104] p[of 100] by (simp_all add: parseSchedule_def u js_startsWith_def Let_def)
qed

text \<open>
  C29. Schedules can be written down and are read back. Five lists of values within the limits of their fields,
  printed with commas and spaces, are read as the same values in order; a positive number of minutes, hours or days printed
  after \<open>every\<close> is read as that interval.
\<close>

theorem parseSchedule_printed:
  assumes "length vss = 5"
    and "list_all2 (\<lambda>l vs. vs \<noteq> [] \<and> (\<forall>v \<in> set vs. fst l \<le> v \<and> v \<le> snd l)) ranges vss" "0 < n"
  shows "parseSchedule env (cron_text vss) = Inr (Cron (map (\<lambda>vs. sort (remdups vs)) vss) (cron_text vss)) \<and>
         parseSchedule env (js_lit ''every '' @ int_text n @ js_lit ''m'') = Inr (Interval n) \<and>
         parseSchedule env (js_lit ''every '' @ int_text n @ js_lit ''h'') = Inr (Interval (n * 60)) \<and>
         parseSchedule env (js_lit ''every '' @ int_text n @ js_lit ''d'') = Inr (Interval (n * 1440))"
proof -
  have rng: "list_all2 (\<lambda>l vs. 0 \<le> fst l \<and> vs \<noteq> [] \<and> (\<forall>v \<in> set vs. fst l \<le> v \<and> v \<le> snd l)) ranges vss"
    using assms(2) by (auto simp: list_all2_conv_all_nth ranges_def nth_Cons split: nat.splits)
  have fields: "vs \<noteq> [] \<and> (\<forall>v \<in> set vs. 0 \<le> v)" if "vs \<in> set vss" for vs
  proof -
    obtain i where i: "i < length vss" "vs = vss ! i" using \<open>vs \<in> set vss\<close> by (auto simp: in_set_conv_nth)
    from list_all2_nthD2[OF rng i(1)] show ?thesis using i(2) by fastforce
  qed
  have word: "field_text vs \<noteq> [] \<and> is_digit (hd (field_text vs)) \<and> (\<forall>c \<in> set (field_text vs). is_digit c \<or> c = 44)"
    if "vs \<in> set vss" for vs
    using fields[OF that] field_text_shape[of vs] field_text_chars[of vs] by blast
  have sp: "\<not> is_space c" if "is_digit c \<or> c = 44" for c
    using that by (auto simp: is_digit_def is_space_def)
  let ?ws = "map field_text vss" and ?t = "cron_text vss"
  have ne: "?ws \<noteq> []" using assms(1) by auto
  have ws: "\<forall>w \<in> set ?ws. w \<noteq> [] \<and> (\<forall>c \<in> set w. \<not> is_space c)" using word sp by auto
  have split: "split_spaces False ?t = ?ws" unfolding cron_text_def by (rule split_spaces_join[OF ne ws])
  obtain w rest where cons: "?ws = w # rest" using ne by (cases ?ws) auto
  have hd: "?t \<noteq> []" "is_digit (hd ?t)"
  proof -
    have "\<exists>t. ?t = w @ t" using cons by (cases rest) (auto simp: cron_text_def)
    then obtain t where t: "?t = w @ t" ..
    have "w \<in> set ?ws" using cons by simp
    then have w: "w \<noteq> []" "is_digit (hd w)" using word by auto
    show "?t \<noteq> []" "is_digit (hd ?t)" unfolding t using w by simp_all
  qed
  have "last ?ws \<in> set ?ws" using ne by (rule last_in_set)
  then have l: "last ?ws \<noteq> []" "last (last ?ws) \<in> set (last ?ws)" using ws by auto
  then have "last ?t = last (last ?ws)" using js_join_last[OF ne l(1)] by (simp add: cron_text_def)
  then have "\<not> is_space (last ?t)" using \<open>last ?ws \<in> set ?ws\<close> l(2) ws by auto
  then have t: "js_trim ?t = ?t" using hd by (simp add: trimmed_iff sp)
  have no: "\<not> starts_ci ?t (js_lit ''every'')" "\<not> starts_ci ?t (js_lit ''at'')" "\<not> starts_ci ?t (js_lit ''cron:'')"
    by (rule starts_ci_digit[OF hd]; simp add: js_lit_def is_digit_def)+
  have "parse_fields ranges ?ws = Inr (map (\<lambda>vs. sort (remdups vs)) vss)"
    using parse_fields_texts[OF _ rng] assms(1) by (simp add: ranges_def)
  then have cron: "parseSchedule env ?t = Inr (Cron (map (\<lambda>vs. sort (remdups vs)) vss) ?t)"
    using t no split assms(1) by (simp add: parseSchedule_def match_every_def match_at_def strip_cron_def Let_def result_simps)
  show ?thesis using cron every_printed[OF assms(3)] by simp
qed

theorem parseSchedule_printed_witness:
  "parseSchedule utc_env (cron_text [[30, 0], [9], [1], [1], [5, 1]]) =
   Inr (Cron [[0, 30], [9], [1], [1], [1, 5]] (cron_text [[30, 0], [9], [1], [1], [5, 1]]))"
  using parseSchedule_printed[of "[[30, 0], [9], [1], [1], [5, 1]]" 1 utc_env] by (simp add: ranges_def)

section \<open>Corner cases\<close>

text \<open>The loop maps the weekday 7 to 0, but the check of the bounds refuses 7 before.\<close>

lemma sunday_seven_refused: "parseField (0, 6) [55] = Inl JsError"
proof -
  have "js_integer [55] = Some 7"
    using js_integer_digits[of "[55]"] by (simp add: is_digit_def digits_value_def)
  then show ?thesis by (simp add: parseField_def parse_part_def parse_bounds_def result_simps Let_def)
qed

text \<open>
  When clocks go back, the cursor of a search that starts in the repeated hour is set into its first pass: the
  \<open>next\<close> run lies before \<open>from\<close>.
\<close>

definition clocks_back :: sched_env where
  "clocks_back =
     \<lparr>sv_dateParse = \<lambda>_. None, sv_offset = \<lambda>t. if t < 0 then 3600000 else 0,
      sv_localOffset = \<lambda>l. if l < 3600000 then 3600000 else 0\<rparr>"

lemma next_run_in_the_past:
  "computeNextRun clocks_back (Cron [[31], [0], [1], [1], [4]] e) 1800000 lastRunAt = Some (- 1740000)"
proof -
  obtain n where n: "search_minutes = Suc n" by (cases search_minutes) (simp_all add: search_minutes_def)
  have c: "next_minute clocks_back (clear_seconds clocks_back 1800000) = - 1740000"
    by (simp add: next_minute_def clear_seconds_def local_time_def utc_time_def clocks_back_def)
  have "cron_matches clocks_back [[31], [0], [1], [1], [4]] (- 1740000)"
    by (simp add: calendar_eval clocks_back_def)
  then show ?thesis by (simp add: computeNextRun_def n c)
qed

text \<open>The search ends after 366 days, so a schedule for 29 February can have no next run.\<close>

lemma no_leap_day:
  assumes "20148 \<le> d" "d \<le> 20514"
  shows "\<not> (day_month d = 2 \<and> day_date d = 29)"
proof -
  let ?z = "(d + 719468) mod 146097"
  have "d + 719468 = (d - 11017) + 146097 * 5" by simp
  then have "?z = (d - 11017) mod 146097" by (simp only: mod_mult_self2)
  then have z: "?z = d - 11017" using assms by simp
  have q: "?z div 1460 = 6" "?z div 36524 = 0" "?z div 146096 = 0"
    unfolding z by (rule int_div_pos_eq[where r = "d - 11017 - 1460 * 6"]; use assms in linarith) (use assms in simp_all)
  consider "?z < 9496" | "9496 \<le> ?z" by linarith
  then have doy: "0 \<le> day_of_year d \<and> day_of_year d \<le> 364"
  proof cases
    case 1
    then have "(?z - 6) div 365 = 25" unfolding z
      by (intro int_div_pos_eq[where r = "d - 11017 - 6 - 365 * 25"]; use assms in linarith)
    then show ?thesis using 1 assms q z by (simp add: day_of_year_def)
  next
    case 2
    then have "(?z - 6) div 365 = 26" unfolding z
      by (intro int_div_pos_eq[where r = "d - 11017 - 6 - 365 * 26"]; use assms in linarith)
    then show ?thesis using 2 assms q z by (simp add: day_of_year_def)
  qed
  show ?thesis
  proof
    assume "day_month d = 2 \<and> day_date d = 29"
    then have m: "(5 * day_of_year d + 2) div 153 = 11"
      using doy by (auto simp: day_month_def Let_def split: if_splits)
    then have "day_date d = day_of_year d - 336" by (simp add: day_date_def Let_def)
    then show False using \<open>day_month d = 2 \<and> day_date d = 29\<close> doy by simp
  qed
qed

lemma leap_day_not_found:
  "computeNextRun utc_env (Cron [[0], [0], [29], [2], [0, 1, 2, 3, 4, 5, 6]] e) 1740787200000 lastRunAt = None"
proof -
  let ?fs = "[[0], [0], [29], [2], [0, 1, 2, 3, 4, 5, 6]]"
  have "\<not> cron_matches utc_env ?fs (1740787260000 + 60000 * int k)" if "k < search_minutes" for k
  proof -
    let ?d = "(1740787260000 + 60000 * int k) div 86400000"
    have k: "int k < 527040" using that by (simp add: search_minutes_def)
    have "20148 \<le> ?d" using zdiv_mono1[of 1740787260000 "1740787260000 + 60000 * int k" 86400000] by simp
    moreover have "?d \<le> 20514"
      using zdiv_mono1[of "1740787260000 + 60000 * int k" "1740787260000 + 60000 * 527040" 86400000] k by simp
    ultimately have "20148 \<le> ?d \<and> ?d \<le> 20514" ..
    then show ?thesis using no_leap_day[of ?d] by (auto simp: cron_matches_def getMonth_def getDate_def local_time_def utc_env_def)
  qed
  moreover have "fixed_zone utc_env" by (simp add: fixed_zone_def utc_env_def)
  moreover have "next_minute utc_env (clear_seconds utc_env 1740787200000) = 1740787260000"
    by (simp add: next_minute_def clear_seconds_def local_time_def utc_time_def utc_env_def)
  ultimately show ?thesis
    using cron_search_fixed[where env = utc_env and fs = ?fs and n = search_minutes and c = 1740787260000]
    by (auto simp: computeNextRun_def split: option.splits)
qed

end
