(* ===== verification/Scheduler.thy ===== *)
theory Scheduler
  imports Schedule
begin

text \<open>
  The ticker of scheduled jobs, \<^verbatim>\<open>vs/latentRuntime/node/jobs/scheduler.ts\<close>, over the list store of
  \<^verbatim>\<open>vs/latentRuntime/node/runtimeConfig.ts\<close>.

  Every call that waits for the database, the file system or the host is a frame of the state: a tick in its loop over the
  jobs, an execution in one of its phases. An action starts a call or lets the promise a frame waits for settle; between two
  actions the code runs without interruption, so each action is a function on the state. A statement of the database has its effect,
  and a file its text, when the promise resolves. UUIDs and the answers of the host are arguments of the actions.
\<close>

section \<open>The list store\<close>

datatype 'v file_read = NoFile | Unreadable | NotAList | ParsedList "'v list"

text \<open>
  \<open>upsert\<close> and \<open>remove\<close> here are what they do to the array; the entries are typed, so the validator of the store holds of them.
  \<open>load\<close>, with the number of reports it makes; \<open>validate\<close> gives the typed entry of a valid JSON value.\<close>

definition list_load :: "('v \<Rightarrow> 'a option) \<Rightarrow> 'v file_read \<Rightarrow> 'a list \<times> nat" where
  "list_load validate parsed =
     (case parsed of
        NoFile \<Rightarrow> ([], 0)
      | Unreadable \<Rightarrow> ([], 1)
      | NotAList \<Rightarrow> ([], 1)
      | ParsedList entries \<Rightarrow>
          (map (\<lambda>e. the (validate e)) (filter (\<lambda>e. validate e \<noteq> None) entries),
           length (filter (\<lambda>e. validate e = None) entries)))"

definition list_get :: "('a \<Rightarrow> jsstring) \<Rightarrow> jsstring \<Rightarrow> 'a list \<Rightarrow> 'a option" where
  "list_get ident i items = find (\<lambda>item. ident item = i) items"

fun list_upsert :: "('a \<Rightarrow> jsstring) \<Rightarrow> 'a \<Rightarrow> 'a list \<Rightarrow> 'a list" where
  "list_upsert ident item [] = [item]"
| "list_upsert ident item (x # xs) =
     (if ident x = ident item then item # xs else x # list_upsert ident item xs)"

definition list_remove :: "('a \<Rightarrow> jsstring) \<Rightarrow> jsstring \<Rightarrow> 'a list \<Rightarrow> 'a list" where
  "list_remove ident i items = filter (\<lambda>item. ident item \<noteq> i) items"

section \<open>Jobs, the ledger and the frames\<close>

datatype exec_status = Running | Succeeded | Failed | Skipped

record job =
  sj_id :: jsstring
  sj_name :: jsstring
  sj_botId :: jsstring
  sj_schedule :: jsstring
  sj_enabled :: bool
  sj_allowOverlap :: bool
  sj_lastRunAt :: "int option"
  sj_nextRunAt :: "int option"
  sj_lastStatus :: "exec_status option"

datatype exec_error = Message jsstring | BadSchedule

record execution =
  ex_id :: jsstring
  ex_jobId :: jsstring
  ex_startedAt :: int
  ex_finishedAt :: "int option"
  ex_status :: exec_status
  ex_lateness :: lateness
  ex_sessionId :: "jsstring option"
  ex_error :: "exec_error option"

text \<open>What an execution waits for. A save has the list that is being written.\<close>

datatype phase =
    SkipInsert | SkipSave "job list" | StartInsert | InJob | Finishing jsstring | Advancing "job list"
  | Failing exec_error | FailAdvancing "job list"

record run_frame =
  rn_id :: jsstring
  rn_job :: job
  rn_lateness :: lateness
  rn_startedAt :: int
  rn_phase :: phase
  rn_caller :: "nat option"

datatype tick_wait = Ready | OnRun jsstring | OnSave "job list"

text \<open>
  A tick has the time it read, and its place in the array of jobs: the array of the store (\<open>None\<close>), or the one
  the store had when a removal replaced it.
\<close>

record tick_frame =
  tk_id :: nat
  tk_now :: int
  tk_offline :: bool
  tk_index :: nat
  tk_items :: "job list option"
  tk_wait :: tick_wait

record scheduler =
  sc_jobs :: "job list"
  sc_file :: "job list"
  sc_ledger :: "execution list"
  sc_running :: "jsstring set"
  sc_startedAt :: int
  sc_lastTick :: int
  sc_clock :: int
  sc_runs :: "run_frame list"
  sc_ticks :: "tick_frame list"
  sc_nextTick :: nat
  sc_saves :: "job list list"
  sc_changes :: nat
  sc_logged :: "jsstring list"

text \<open>A new scheduler over the jobs that have been loaded.\<close>

definition JobScheduler_new :: "int \<Rightarrow> job list \<Rightarrow> scheduler" where
  "JobScheduler_new now jobs =
     \<lparr>sc_jobs = jobs, sc_file = jobs, sc_ledger = [], sc_running = {}, sc_startedAt = now, sc_lastTick = now,
      sc_clock = now, sc_runs = [], sc_ticks = [], sc_nextTick = 0, sc_saves = [], sc_changes = 0, sc_logged = []\<rparr>"

definition onChange :: "scheduler \<Rightarrow> scheduler" where
  "onChange st = st\<lparr>sc_changes := sc_changes st + 1\<rparr>"

definition jobs_upsert :: "job \<Rightarrow> scheduler \<Rightarrow> scheduler" where
  "jobs_upsert item st = st\<lparr>sc_jobs := list_upsert sj_id item (sc_jobs st)\<rparr>"

definition add_row :: "execution \<Rightarrow> scheduler \<Rightarrow> scheduler" where
  "add_row row st = st\<lparr>sc_ledger := sc_ledger st @ [row]\<rparr>"

definition update_row :: "jsstring \<Rightarrow> (execution \<Rightarrow> execution) \<Rightarrow> scheduler \<Rightarrow> scheduler" where
  "update_row i f st = st\<lparr>sc_ledger := map (\<lambda>row. if ex_id row = i then f row else row) (sc_ledger st)\<rparr>"

definition set_phase :: "jsstring \<Rightarrow> phase \<Rightarrow> scheduler \<Rightarrow> scheduler" where
  "set_phase i p st = st\<lparr>sc_runs := map (\<lambda>r. if rn_id r = i then r\<lparr>rn_phase := p\<rparr> else r) (sc_runs st)\<rparr>"

definition set_tick :: "nat \<Rightarrow> (tick_frame \<Rightarrow> tick_frame) \<Rightarrow> scheduler \<Rightarrow> scheduler" where
  "set_tick t f st = st\<lparr>sc_ticks := map (\<lambda>k. if tk_id k = t then f k else k) (sc_ticks st)\<rparr>"

definition drop_tick :: "nat \<Rightarrow> scheduler \<Rightarrow> scheduler" where
  "drop_tick t st = st\<lparr>sc_ticks := filter (\<lambda>k. tk_id k \<noteq> t) (sc_ticks st)\<rparr>"

section \<open>Executing a job\<close>

text \<open>\<open>advance\<close> up to its save, if it makes one: then the list that is written.\<close>

definition advance ::
    "sched_env \<Rightarrow> job \<Rightarrow> int \<Rightarrow> exec_status \<Rightarrow> scheduler \<Rightarrow> (scheduler \<times> job list option) result" where
  "advance env job ranAt status st =
     (case list_get sj_id (sj_id job) (sc_jobs st) of
        None \<Rightarrow> Inr (onChange st, None)
      | Some current \<Rightarrow>
          bindR (parseSchedule env (sj_schedule current)) (\<lambda>parsed.
            let next = (if sj_enabled current then computeNextRun env parsed (sc_clock st) (Some ranAt) else None);
                item = current\<lparr>sj_lastRunAt := Some ranAt, sj_lastStatus := Some status, sj_nextRunAt := next,
                               sj_enabled := (case parsed of At _ \<Rightarrow> False | _ \<Rightarrow> sj_enabled current)\<rparr>;
                st1 = jobs_upsert item st
            in Inr (st1, Some (sc_jobs st1))))"

text \<open>\<open>execute\<close> up to its first \<open>await\<close>.\<close>

definition execute ::
    "jsstring \<Rightarrow> bool \<Rightarrow> job \<Rightarrow> lateness \<Rightarrow> nat option \<Rightarrow> scheduler \<Rightarrow> scheduler" where
  "execute i botRunning job lateness caller st =
     (let frame = \<lparr>rn_id = i, rn_job = job, rn_lateness = lateness, rn_startedAt = sc_clock st,
                   rn_phase = StartInsert, rn_caller = caller\<rparr>
      in if (sj_id job \<in> sc_running st \<or> botRunning) \<and> \<not> sj_allowOverlap job
         then st\<lparr>sc_runs := sc_runs st @ [frame\<lparr>rn_phase := SkipInsert\<rparr>]\<rparr>
         else st\<lparr>sc_running := insert (sj_id job) (sc_running st), sc_runs := sc_runs st @ [frame]\<rparr>)"

text \<open>The end of \<open>execute\<close>: the tick that has called it goes on, or is rejected with it.\<close>

definition settle_caller :: "nat option \<Rightarrow> bool \<Rightarrow> scheduler \<Rightarrow> scheduler" where
  "settle_caller caller ok st =
     (case caller of
        None \<Rightarrow> st
      | Some t \<Rightarrow> if ok then set_tick t (\<lambda>k. k\<lparr>tk_wait := Ready\<rparr>) st else drop_tick t st)"

definition end_run :: "run_frame \<Rightarrow> bool \<Rightarrow> scheduler \<Rightarrow> scheduler" where
  "end_run r ok st = settle_caller (rn_caller r) ok (st\<lparr>sc_runs := filter (\<lambda>x. rn_id x \<noteq> rn_id r) (sc_runs st)\<rparr>)"

text \<open>The \<open>finally\<close> block.\<close>

definition end_started :: "run_frame \<Rightarrow> bool \<Rightarrow> scheduler \<Rightarrow> scheduler" where
  "end_started r ok st = end_run r ok (st\<lparr>sc_running := sc_running st - {sj_id (rn_job r)}\<rparr>)"

definition new_row :: "run_frame \<Rightarrow> execution" where
  "new_row r =
     \<lparr>ex_id = rn_id r, ex_jobId = sj_id (rn_job r), ex_startedAt = rn_startedAt r, ex_finishedAt = None,
      ex_status = Running, ex_lateness = rn_lateness r, ex_sessionId = None, ex_error = None\<rparr>"

datatype outcome = Resolved jsstring | Rejected jsstring

text \<open>The promise an execution waits for settles.\<close>

definition resume :: "sched_env \<Rightarrow> run_frame \<Rightarrow> outcome \<Rightarrow> scheduler \<Rightarrow> scheduler" where
  "resume env r outcome st =
     (let i = rn_id r in
      case (rn_phase r, outcome) of
        (SkipInsert, Resolved _) \<Rightarrow>
          (let st1 = add_row (new_row r\<lparr>ex_finishedAt := Some (rn_startedAt r), ex_status := Skipped\<rparr>) st
           in case advance env (rn_job r) (rn_startedAt r) Skipped st1 of
                Inl _ \<Rightarrow> end_run r False st1
              | Inr (st2, None) \<Rightarrow> end_run r True st2
              | Inr (st2, Some saved) \<Rightarrow> set_phase i (SkipSave saved) st2)
      | (SkipInsert, Rejected _) \<Rightarrow> end_run r False st
      | (SkipSave saved, Resolved _) \<Rightarrow> end_run r True (onChange (st\<lparr>sc_file := saved\<rparr>))
      | (SkipSave _, Rejected _) \<Rightarrow> end_run r False st
      | (StartInsert, Resolved _) \<Rightarrow> set_phase i InJob (add_row (new_row r) st)
      | (StartInsert, Rejected _) \<Rightarrow> end_run r False st
      | (InJob, Resolved session) \<Rightarrow> set_phase i (Finishing session) st
      | (InJob, Rejected e) \<Rightarrow> set_phase i (Failing (Message e)) st
      | (Finishing session, Resolved _) \<Rightarrow>
          (let st1 = update_row i (\<lambda>row. row\<lparr>ex_finishedAt := Some (sc_clock st), ex_status := Succeeded,
                                              ex_sessionId := Some session\<rparr>) st
           in case advance env (rn_job r) (rn_startedAt r) Succeeded st1 of
                Inl _ \<Rightarrow> set_phase i (Failing BadSchedule) st1
              | Inr (st2, None) \<Rightarrow> end_started r True st2
              | Inr (st2, Some saved) \<Rightarrow> set_phase i (Advancing saved) st2)
      | (Finishing _, Rejected e) \<Rightarrow> set_phase i (Failing (Message e)) st
      | (Advancing saved, Resolved _) \<Rightarrow> end_started r True (onChange (st\<lparr>sc_file := saved\<rparr>))
      | (Advancing _, Rejected e) \<Rightarrow> set_phase i (Failing (Message e)) st
      | (Failing e, Resolved _) \<Rightarrow>
          (let st1 = update_row i (\<lambda>row. row\<lparr>ex_finishedAt := Some (sc_clock st), ex_status := Failed,
                                              ex_error := Some e\<rparr>) st
           in case advance env (rn_job r) (rn_startedAt r) Failed st1 of
                Inl _ \<Rightarrow> end_started r False st1
              | Inr (st2, None) \<Rightarrow> end_started r True st2
              | Inr (st2, Some saved) \<Rightarrow> set_phase i (FailAdvancing saved) st2)
      | (Failing _, Rejected _) \<Rightarrow> end_started r False st
      | (FailAdvancing saved, Resolved _) \<Rightarrow> end_started r True (onChange (st\<lparr>sc_file := saved\<rparr>))
      | (FailAdvancing _, Rejected _) \<Rightarrow> end_started r False st)"

section \<open>The tick\<close>

datatype tick_action = TickDone | TickSave job | TickExecute job lateness

text \<open>
  The loop from one \<open>await\<close> to the next: how many entries it has gone past, the jobs whose schedule it has reported,
  and what it does then.
\<close>

fun tick_scan :: "sched_env \<Rightarrow> int \<Rightarrow> bool \<Rightarrow> job list \<Rightarrow> nat \<times> jsstring list \<times> tick_action" where
  "tick_scan env now offline [] = (0, [], TickDone)"
| "tick_scan env now offline (job # jobs) =
     (let (n, logged, action) = tick_scan env now offline jobs;
          go_on = (Suc n, logged, action)
      in if \<not> sj_enabled job then go_on
         else
           (case parseSchedule env (sj_schedule job) of
              Inl _ \<Rightarrow> (Suc n, sj_id job # logged, action)
            | Inr parsed \<Rightarrow>
                (case (case sj_nextRunAt job of
                         Some t \<Rightarrow> Some t
                       | None \<Rightarrow> computeNextRun env parsed (case sj_lastRunAt job of Some l \<Rightarrow> l | None \<Rightarrow> now - 1)
                                   (sj_lastRunAt job)) of
                   None \<Rightarrow> go_on
                 | Some due \<Rightarrow>
                     if due > now then
                       (if sj_nextRunAt job \<noteq> Some due then (1, [], TickSave (job\<lparr>sj_nextRunAt := Some due\<rparr>)) else go_on)
                     else (1, [], TickExecute job (classifyLateness due now (cadenceSeconds parsed) offline)))))"

text \<open>\<open>tick\<close> before its loop.\<close>

definition tick_new :: "scheduler \<Rightarrow> tick_frame" where
  "tick_new st =
     (let now = sc_clock st
      in \<lparr>tk_id = sc_nextTick st, tk_now = now,
          tk_offline = (now - sc_lastTick st > 120000 \<or> now - sc_startedAt st < 60000),
          tk_index = 0, tk_items = None, tk_wait = Ready\<rparr>)"

definition tick_start :: "scheduler \<Rightarrow> scheduler" where
  "tick_start st =
     st\<lparr>sc_lastTick := sc_clock st, sc_nextTick := sc_nextTick st + 1, sc_ticks := sc_ticks st @ [tick_new st]\<rparr>"

definition tick_continue :: "sched_env \<Rightarrow> tick_frame \<Rightarrow> jsstring \<Rightarrow> bool \<Rightarrow> scheduler \<Rightarrow> scheduler" where
  "tick_continue env k i botRunning st =
     (let items = (case tk_items k of None \<Rightarrow> sc_jobs st | Some xs \<Rightarrow> xs);
          (n, logged, action) = tick_scan env (tk_now k) (tk_offline k) (drop (tk_index k) items);
          st1 = st\<lparr>sc_logged := sc_logged st @ logged\<rparr>;
          place = (\<lambda>w k. k\<lparr>tk_index := tk_index k + n, tk_wait := w\<rparr>)
      in case action of
           TickDone \<Rightarrow> drop_tick (tk_id k) st1
         | TickSave item \<Rightarrow>
             let st2 = jobs_upsert item st1 in set_tick (tk_id k) (place (OnSave (sc_jobs st2))) st2
         | TickExecute job lateness \<Rightarrow>
             execute i botRunning job lateness (Some (tk_id k)) (set_tick (tk_id k) (place (OnRun i)) st1))"

section \<open>The actions\<close>

datatype action =
    Pass int | Tick jsstring bool | TickContinue nat jsstring bool | TickSaved nat bool | RunNow jsstring jsstring bool
  | Resume jsstring outcome | Upsert job | Remove jsstring | SaveDone bool

definition fresh_id :: "jsstring \<Rightarrow> scheduler \<Rightarrow> bool" where
  "fresh_id i st = (i \<notin> rn_id ` set (sc_runs st) \<and> i \<notin> ex_id ` set (sc_ledger st))"

text \<open>The removal replaces the array of the store, so the ticks under way go on over the old one.\<close>

definition JobScheduler_remove :: "jsstring \<Rightarrow> scheduler \<Rightarrow> scheduler" where
  "JobScheduler_remove i st =
     (let old = sc_jobs st; new = list_remove sj_id i old;
          st1 = st\<lparr>sc_jobs := new,
                   sc_ticks := map (\<lambda>k. if tk_items k = None then k\<lparr>tk_items := Some old\<rparr> else k) (sc_ticks st)\<rparr>
      in if length new \<noteq> length old then st1\<lparr>sc_saves := sc_saves st1 @ [new]\<rparr> else onChange st1)"

definition JobScheduler_upsert :: "sched_env \<Rightarrow> job \<Rightarrow> scheduler \<Rightarrow> scheduler result" where
  "JobScheduler_upsert env job st =
     bindR (parseSchedule env (sj_schedule job)) (\<lambda>parsed.
       let next = (if sj_enabled job then computeNextRun env parsed (sc_clock st) (sj_lastRunAt job) else None);
           st1 = jobs_upsert (job\<lparr>sj_nextRunAt := next\<rparr>) st
       in Inr (st1\<lparr>sc_saves := sc_saves st1 @ [sc_jobs st1]\<rparr>))"

text \<open>\<open>None\<close> when nothing waits for what the action settles.\<close>

fun act :: "sched_env \<Rightarrow> action \<Rightarrow> scheduler \<Rightarrow> scheduler option" where
  "act env (Pass d) st = (if 0 \<le> d then Some (st\<lparr>sc_clock := sc_clock st + d\<rparr>) else None)"
| "act env (Tick i botRunning) st =
     (if fresh_id i st then Some (tick_continue env (tick_new st) i botRunning (tick_start st)) else None)"
| "act env (TickContinue t i botRunning) st =
     (case find (\<lambda>k. tk_id k = t \<and> tk_wait k = Ready) (sc_ticks st) of
        Some k \<Rightarrow> if fresh_id i st then Some (tick_continue env k i botRunning st) else None
      | None \<Rightarrow> None)"
| "act env (TickSaved t ok) st =
     (case find (\<lambda>k. tk_id k = t) (sc_ticks st) of
        Some k \<Rightarrow>
          (case tk_wait k of
             OnSave saved \<Rightarrow>
               Some (if ok then set_tick t (\<lambda>k. k\<lparr>tk_wait := Ready\<rparr>) (st\<lparr>sc_file := saved\<rparr>) else drop_tick t st)
           | _ \<Rightarrow> None)
      | None \<Rightarrow> None)"
| "act env (RunNow jobId i botRunning) st =
     (case list_get sj_id jobId (sc_jobs st) of
        Some job \<Rightarrow> if fresh_id i st then Some (execute i botRunning job OnTime None st) else None
      | None \<Rightarrow> Some st)"
| "act env (Resume i outcome) st =
     (case find (\<lambda>r. rn_id r = i) (sc_runs st) of Some r \<Rightarrow> Some (resume env r outcome st) | None \<Rightarrow> None)"
| "act env (Upsert job) st = (case JobScheduler_upsert env job st of Inl _ \<Rightarrow> Some st | Inr st1 \<Rightarrow> Some st1)"
| "act env (Remove i) st = Some (JobScheduler_remove i st)"
| "act env (SaveDone ok) st =
     (case sc_saves st of
        saved # rest \<Rightarrow> Some (let st1 = st\<lparr>sc_saves := rest\<rparr> in if ok then onChange (st1\<lparr>sc_file := saved\<rparr>) else st1)
      | [] \<Rightarrow> None)"

section \<open>What the runtime shows\<close>

definition nextRuns :: "scheduler \<Rightarrow> (jsstring \<times> jsstring \<times> int) list" where
  "nextRuns st =
     take 10 (sort_key (\<lambda>(_, _, t). t) (map (\<lambda>job. (sj_id job, sj_name job, the (sj_nextRunAt job)))
       (filter (\<lambda>job. sj_enabled job \<and> sj_nextRunAt job \<noteq> None) (sc_jobs st))))"

definition executions :: "jsstring option \<Rightarrow> scheduler \<Rightarrow> execution list" where
  "executions jobId st =
     take 200 (sort_key (\<lambda>row. - ex_startedAt row)
       (filter (\<lambda>row. case jobId of None \<Rightarrow> True | Some j \<Rightarrow> j = [] \<or> ex_jobId row = j) (sc_ledger st)))"

section \<open>Lemmas on the list store and the frames\<close>

lemma list_get_SomeD: "list_get ident i items = Some x \<Longrightarrow> x \<in> set items \<and> ident x = i"
  by (auto simp: list_get_def find_Some_iff)

lemma set_list_upsert: "set (list_upsert ident item xs) \<subseteq> insert item (set xs)"
  by (induction xs) auto

lemma list_get_upsert:
  "list_get ident i (list_upsert ident item xs) = (if ident item = i then Some item else list_get ident i xs)"
  by (induction xs) (auto simp: list_get_def)

lemma list_get_remove: "list_get ident i (list_remove ident j xs) = (if i = j then None else list_get ident i xs)"
  by (induction xs) (auto simp: list_get_def list_remove_def)

definition started :: "run_frame \<Rightarrow> bool" where
  "started r = (case rn_phase r of SkipInsert \<Rightarrow> False | SkipSave _ \<Rightarrow> False | _ \<Rightarrow> True)"

definition started_phase :: "phase \<Rightarrow> bool" where
  "started_phase p = (case p of SkipInsert \<Rightarrow> False | SkipSave _ \<Rightarrow> False | _ \<Rightarrow> True)"

lemma started_eq: "started r = started_phase (rn_phase r)"
  by (simp add: started_def started_phase_def)

definition in_flight :: "jsstring \<Rightarrow> scheduler \<Rightarrow> run_frame list" where
  "in_flight j st = filter (\<lambda>r. started r \<and> sj_id (rn_job r) = j) (sc_runs st)"

text \<open>What the entries of a job may become: the fields that \<open>advance\<close> and the tick write.\<close>

definition same_job :: "job \<Rightarrow> job \<Rightarrow> bool" where
  "same_job a b = (sj_id a = sj_id b \<and> sj_schedule a = sj_schedule b \<and> sj_allowOverlap a = sj_allowOverlap b)"

definition jobs_follow :: "job list \<Rightarrow> job list \<Rightarrow> bool" where
  "jobs_follow old new = (\<forall>b \<in> set new. \<exists>a \<in> set old. same_job a b)"

lemma jobs_follow_refl [simp]: "jobs_follow xs xs"
  by (auto simp: jobs_follow_def same_job_def)

lemma jobs_follow_upsert: "a \<in> set xs \<Longrightarrow> same_job a b \<Longrightarrow> jobs_follow xs (list_upsert sj_id b xs)"
  using set_list_upsert[of sj_id b xs] by (auto simp: jobs_follow_def same_job_def dest!: subsetD)

definition tick_arrays :: "scheduler \<Rightarrow> job list set" where
  "tick_arrays st = {xs. \<exists>k \<in> set (sc_ticks st). tk_items k = Some xs}"

lemmas store_defs = onChange_def jobs_upsert_def add_row_def update_row_def

lemma settle_caller_simps [simp]:
  "sc_jobs (settle_caller c ok st) = sc_jobs st" "sc_runs (settle_caller c ok st) = sc_runs st"
  "sc_running (settle_caller c ok st) = sc_running st" "sc_ledger (settle_caller c ok st) = sc_ledger st"
  "sc_clock (settle_caller c ok st) = sc_clock st" "sc_file (settle_caller c ok st) = sc_file st"
  "sc_nextTick (settle_caller c ok st) = sc_nextTick st" "sc_saves (settle_caller c ok st) = sc_saves st"
  by (cases c; simp add: settle_caller_def set_tick_def drop_tick_def)+

lemma tick_arrays_settle: "tick_arrays (settle_caller c ok st) \<subseteq> tick_arrays st"
  by (cases c) (auto simp: settle_caller_def set_tick_def drop_tick_def tick_arrays_def split: if_splits)

text \<open>\<open>advance\<close> touches nothing but the stored job.\<close>

lemma advance_cases:
  assumes "advance env job ranAt status st = Inr (st', saved)"
  obtains (missing) "list_get sj_id (sj_id job) (sc_jobs st) = None" "st' = onChange st" "saved = None"
  | (stored) current parsed item where "list_get sj_id (sj_id job) (sc_jobs st) = Some current"
      "parseSchedule env (sj_schedule current) = Inr parsed"
      "item = current\<lparr>sj_lastRunAt := Some ranAt, sj_lastStatus := Some status,
                     sj_nextRunAt := (if sj_enabled current then computeNextRun env parsed (sc_clock st) (Some ranAt) else None),
                     sj_enabled := (case parsed of At _ \<Rightarrow> False | _ \<Rightarrow> sj_enabled current)\<rparr>"
      "st' = jobs_upsert item st" "saved = Some (sc_jobs st')"
proof (cases "list_get sj_id (sj_id job) (sc_jobs st)")
  case None
  then show thesis using assms missing by (simp add: advance_def)
next
  case (Some current)
  then obtain parsed where p: "parseSchedule env (sj_schedule current) = Inr parsed"
    using assms by (cases "parseSchedule env (sj_schedule current)") (auto simp: advance_def result_simps)
  show thesis
    by (rule stored[OF Some p refl]) (use assms Some p in \<open>auto simp: advance_def result_simps Let_def\<close>)
qed

lemma advance_frames:
  assumes "advance env job ranAt status st = Inr (st', saved)"
  shows "sc_runs st' = sc_runs st" "sc_running st' = sc_running st" "sc_ledger st' = sc_ledger st" "sc_ticks st' = sc_ticks st"
    "sc_clock st' = sc_clock st" "sc_nextTick st' = sc_nextTick st" "jobs_follow (sc_jobs st) (sc_jobs st')"
proof -
  have "sc_runs st' = sc_runs st \<and> sc_running st' = sc_running st \<and> sc_ledger st' = sc_ledger st \<and> sc_ticks st' = sc_ticks st \<and>
    sc_clock st' = sc_clock st \<and> sc_nextTick st' = sc_nextTick st \<and> jobs_follow (sc_jobs st) (sc_jobs st')"
    using assms
  proof (cases rule: advance_cases)
    case (stored current parsed item)
    have "jobs_follow (sc_jobs st) (list_upsert sj_id item (sc_jobs st))"
      using list_get_SomeD[OF stored(1)] by (intro jobs_follow_upsert[of current]) (simp_all add: stored(3) same_job_def)
    then show ?thesis by (simp add: stored(4) jobs_upsert_def)
  qed (simp add: onChange_def)
  then show "sc_runs st' = sc_runs st" "sc_running st' = sc_running st" "sc_ledger st' = sc_ledger st" "sc_ticks st' = sc_ticks st"
    "sc_clock st' = sc_clock st" "sc_nextTick st' = sc_nextTick st" "jobs_follow (sc_jobs st) (sc_jobs st')" by simp_all
qed

text \<open>
  What settling a promise does to the frames: the execution goes to another phase on the same side of the
  overlap check, or it ends; only at its end is its job taken from the set of running jobs.
\<close>

definition frames_after :: "run_frame \<Rightarrow> scheduler \<Rightarrow> scheduler \<Rightarrow> bool" where
  "frames_after r st st' =
     (((\<exists>p. started_phase p = started r \<and> sc_running st' = sc_running st \<and>
            sc_runs st' = map (\<lambda>x. if rn_id x = rn_id r then x\<lparr>rn_phase := p\<rparr> else x) (sc_runs st)) \<or>
       (sc_runs st' = filter (\<lambda>x. rn_id x \<noteq> rn_id r) (sc_runs st) \<and>
        (sc_running st' = sc_running st \<or> started r \<and> sc_running st' = sc_running st - {sj_id (rn_job r)}))) \<and>
      jobs_follow (sc_jobs st) (sc_jobs st') \<and> tick_arrays st' \<subseteq> tick_arrays st \<and> sc_clock st' = sc_clock st \<and>
      sc_nextTick st' = sc_nextTick st)"

lemma tick_arrays_cong: "sc_ticks st' = sc_ticks st \<Longrightarrow> tick_arrays st' = tick_arrays st"
  by (simp add: tick_arrays_def)

lemma frames_after_phase:
  assumes "started_phase p = started r" "sc_runs st1 = sc_runs st" "sc_running st1 = sc_running st" "sc_ticks st1 = sc_ticks st"
    "jobs_follow (sc_jobs st) (sc_jobs st1)" "sc_clock st1 = sc_clock st" "sc_nextTick st1 = sc_nextTick st"
  shows "frames_after r st (set_phase (rn_id r) p st1)"
  unfolding frames_after_def
  using assms tick_arrays_cong[of "set_phase (rn_id r) p st1" st] by (auto simp: set_phase_def)

lemma frames_after_end:
  assumes "sc_runs st1 = sc_runs st" "sc_running st1 = sc_running st" "sc_ticks st1 = sc_ticks st"
    "jobs_follow (sc_jobs st) (sc_jobs st1)" "sc_clock st1 = sc_clock st" "sc_nextTick st1 = sc_nextTick st"
  shows "frames_after r st (end_run r ok st1)" "started r \<Longrightarrow> frames_after r st (end_started r ok st1)"
proof -
  have t: "tick_arrays (settle_caller c ok (st1\<lparr>sc_running := R, sc_runs := X\<rparr>)) \<subseteq> tick_arrays st"
    "tick_arrays (settle_caller c ok (st1\<lparr>sc_runs := X\<rparr>)) \<subseteq> tick_arrays st" for c R X
    using tick_arrays_settle[of c ok "st1\<lparr>sc_running := R, sc_runs := X\<rparr>"] tick_arrays_settle[of c ok "st1\<lparr>sc_runs := X\<rparr>"]
      assms(3) by (auto simp: tick_arrays_def)
  show "frames_after r st (end_run r ok st1)" "started r \<Longrightarrow> frames_after r st (end_started r ok st1)"
    unfolding frames_after_def using assms t by (auto simp: end_run_def end_started_def)
qed

lemma advance_rule:
  assumes "P bad"
    and "\<And>st2 saved. sc_runs st2 = sc_runs st \<Longrightarrow> sc_running st2 = sc_running st \<Longrightarrow> sc_ledger st2 = sc_ledger st \<Longrightarrow>
      sc_ticks st2 = sc_ticks st \<Longrightarrow> sc_clock st2 = sc_clock st \<Longrightarrow> sc_nextTick st2 = sc_nextTick st \<Longrightarrow>
      jobs_follow (sc_jobs st) (sc_jobs st2) \<Longrightarrow> P (none st2) \<and> P (some st2 saved)"
  shows "P (case advance env job ranAt status st of
           Inl _ \<Rightarrow> bad | Inr (st2, None) \<Rightarrow> none st2 | Inr (st2, Some saved) \<Rightarrow> some st2 saved)"
proof (cases "advance env job ranAt status st")
  case (Inr a)
  obtain st2 saved where a: "a = (st2, saved)" by (cases a)
  note f = advance_frames[OF Inr[unfolded a]]
  have "P (none st2) \<and> P (some st2 saved)" for saved by (rule assms(2)[OF f])
  then show ?thesis using Inr a by (cases saved) simp_all
qed (use assms(1) in simp)

text \<open>The steps that go on with \<open>advance\<close>, and the others.\<close>

definition advances :: "run_frame \<Rightarrow> outcome \<Rightarrow> bool" where
  "advances r outcome =
     (\<exists>s. outcome = Resolved s \<and> (rn_phase r = SkipInsert \<or> (\<exists>x. rn_phase r = Finishing x) \<or> (\<exists>x. rn_phase r = Failing x)))"

lemma resume_frames: "frames_after r st (resume env r outcome st)"
proof -
  note rules = frames_after_end frames_after_phase
  have sp: "started r = started_phase (rn_phase r)" by (rule started_eq)
  show ?thesis
  proof (cases "advances r outcome")
    case True
    then show ?thesis unfolding advances_def
      by (elim exE conjE disjE) (simp only: resume_def Let_def prod.case phase.case outcome.case, rule advance_rule,
          auto intro!: rules simp: store_defs sp started_phase_def)+
  next
    case False
    then show ?thesis unfolding advances_def
      by (cases "rn_phase r"; cases outcome)
        (auto intro!: rules simp: resume_def store_defs sp started_phase_def)
  qed
qed

section \<open>Reachable states\<close>

text \<open>The states that actions of an allowed kind reach.\<close>

inductive sched_reach :: "sched_env \<Rightarrow> (action \<Rightarrow> scheduler \<Rightarrow> bool) \<Rightarrow> scheduler \<Rightarrow> scheduler \<Rightarrow> bool"
  for env allowed st0 where
  start: "sched_reach env allowed st0 st0"
| step: "sched_reach env allowed st0 st \<Longrightarrow> allowed a st \<Longrightarrow> act env a st = Some st' \<Longrightarrow> sched_reach env allowed st0 st'"

fun act_all :: "sched_env \<Rightarrow> action list \<Rightarrow> scheduler \<Rightarrow> scheduler option" where
  "act_all env [] st = Some st"
| "act_all env (a # as) st = (case act env a st of None \<Rightarrow> None | Some st1 \<Rightarrow> act_all env as st1)"

lemma act_all_reach:
  "act_all env as st = Some st' \<Longrightarrow> (\<And>a st. allowed a st) \<Longrightarrow> sched_reach env allowed st0 st \<Longrightarrow>
   sched_reach env allowed st0 st'"
  by (induction as arbitrary: st) (auto split: option.splits, metis sched_reach.step)

lemma tick_scan_job:
  "tick_scan env now offline items = (n, logged, TickExecute job l) \<Longrightarrow> job \<in> set items"
  "tick_scan env now offline items = (n, logged, TickSave item) \<Longrightarrow> \<exists>a \<in> set items. same_job a item"
  by (induction items arbitrary: n logged)
    (auto simp: Let_def same_job_def split: prod.splits if_splits sum.splits option.splits)

lemma find_idD: "find (\<lambda>r. rn_id r = i) rs = Some r \<Longrightarrow> r \<in> set rs \<and> rn_id r = i"
  by (auto simp: find_Some_iff)

text \<open>The array a tick goes on over.\<close>

definition tick_items :: "tick_frame \<Rightarrow> scheduler \<Rightarrow> job list" where
  "tick_items k st = (case tk_items k of None \<Rightarrow> sc_jobs st | Some xs \<Rightarrow> xs)"

text \<open>
  What going on with a tick does: it ends, or it stores the next run of a job, or it executes a job of its
  array; the arrays of the ticks stay.
\<close>

lemma tick_continue_cases:
  obtains (ends) lg where "tick_continue env k i busy st = drop_tick (tk_id k) (st\<lparr>sc_logged := lg\<rparr>)"
  | (saves) lg f item where "\<exists>a \<in> set (tick_items k st). same_job a item"
      "tick_continue env k i busy st = set_tick (tk_id k) f (jobs_upsert item (st\<lparr>sc_logged := lg\<rparr>))"
      "\<And>x. tk_items (f x) = tk_items x" "\<And>x. tk_id (f x) = tk_id x"
  | (executes) lg f job l where "job \<in> set (tick_items k st)"
      "tick_continue env k i busy st = execute i busy job l (Some (tk_id k)) (set_tick (tk_id k) f (st\<lparr>sc_logged := lg\<rparr>))"
      "\<And>x. tk_items (f x) = tk_items x" "\<And>x. tk_id (f x) = tk_id x"
proof -
  obtain n lg action where s: "tick_scan env (tk_now k) (tk_offline k) (drop (tk_index k) (tick_items k st)) = (n, lg, action)"
    using prod_cases3 by blast
  have sub: "set (drop (tk_index k) (tick_items k st)) \<subseteq> set (tick_items k st)" by (rule set_drop_subset)
  show thesis
  proof (cases action)
    case TickDone
    then show thesis using s by (intro ends) (simp add: tick_continue_def tick_items_def)
  next
    case (TickSave item)
    have "\<exists>a \<in> set (tick_items k st). same_job a item"
      using tick_scan_job(2)[OF s[unfolded TickSave]] sub by blast
    then show thesis
      by (rule saves[where lg = "sc_logged st @ lg" and
            f = "\<lambda>k. k\<lparr>tk_index := tk_index k + n, tk_wait := OnSave (list_upsert sj_id item (sc_jobs st))\<rparr>"])
        (use s TickSave in \<open>auto simp: tick_continue_def tick_items_def jobs_upsert_def Let_def\<close>)
  next
    case (TickExecute job l)
    have "job \<in> set (tick_items k st)" using tick_scan_job(1)[OF s[unfolded TickExecute]] sub by blast
    then show thesis
      by (rule executes[where lg = "sc_logged st @ lg" and f = "\<lambda>k. k\<lparr>tk_index := tk_index k + n, tk_wait := OnRun i\<rparr>"])
        (use s TickExecute in \<open>auto simp: tick_continue_def tick_items_def Let_def\<close>)
  qed
qed

section \<open>No overlap\<close>

definition no_overlap_job :: "jsstring \<Rightarrow> job \<Rightarrow> bool" where
  "no_overlap_job j job = (sj_id job = j \<longrightarrow> \<not> sj_allowOverlap job)"

definition overlap_inv :: "jsstring \<Rightarrow> scheduler \<Rightarrow> bool" where
  "overlap_inv j st =
     ((\<forall>job \<in> set (sc_jobs st). no_overlap_job j job) \<and> (\<forall>xs \<in> tick_arrays st. \<forall>job \<in> set xs. no_overlap_job j job) \<and>
      distinct (map rn_id (sc_runs st)) \<and> length (in_flight j st) \<le> 1 \<and> (in_flight j st \<noteq> [] \<longrightarrow> j \<in> sc_running st))"

lemma jobs_follow_no_overlap:
  "jobs_follow old new \<Longrightarrow> \<forall>job \<in> set old. no_overlap_job j job \<Longrightarrow> \<forall>job \<in> set new. no_overlap_job j job"
  by (fastforce simp: jobs_follow_def same_job_def no_overlap_job_def)

lemma overlap_inv_frames:
  assumes inv: "overlap_inv j st" and f: "frames_after r st st'" and r: "r \<in> set (sc_runs st)"
  shows "overlap_inv j st'"
proof -
  have d: "distinct (map rn_id (sc_runs st))" and l: "length (in_flight j st) \<le> 1" "in_flight j st \<noteq> [] \<longrightarrow> j \<in> sc_running st"
    using inv by (simp_all add: overlap_inv_def)
  have uniq: "x = r" if "x \<in> set (sc_runs st)" "rn_id x = rn_id r" for x
    using d r that by (auto simp: distinct_map dest: inj_onD)
  have jobs: "\<forall>job \<in> set (sc_jobs st'). no_overlap_job j job" "\<forall>xs \<in> tick_arrays st'. \<forall>job \<in> set xs. no_overlap_job j job"
    using inv f jobs_follow_no_overlap by (auto simp: overlap_inv_def frames_after_def)
  consider (phase) p where "started_phase p = started r" "sc_running st' = sc_running st"
      "sc_runs st' = map (\<lambda>x. if rn_id x = rn_id r then x\<lparr>rn_phase := p\<rparr> else x) (sc_runs st)"
    | (ended) "sc_runs st' = filter (\<lambda>x. rn_id x \<noteq> rn_id r) (sc_runs st)"
      "sc_running st' = sc_running st \<or> started r \<and> sc_running st' = sc_running st - {sj_id (rn_job r)}"
    using f by (auto simp: frames_after_def)
  then show ?thesis
  proof cases
    case phase
    let ?f = "\<lambda>x. if rn_id x = rn_id r then x\<lparr>rn_phase := p\<rparr> else x"
    have "started (?f x) = started x \<and> sj_id (rn_job (?f x)) = sj_id (rn_job x)" if "x \<in> set (sc_runs st)" for x
      using uniq[OF that] phase(1) by (auto simp: started_eq)
    then have "in_flight j st' = map ?f (in_flight j st)"
      unfolding in_flight_def phase(3) filter_map o_def by (intro arg_cong[where f = "map ?f"] filter_cong) simp_all
    moreover have "map rn_id (sc_runs st') = map rn_id (sc_runs st)" by (simp add: phase(3))
    ultimately show ?thesis using d l phase(2) jobs by (simp add: overlap_inv_def)
  next
    case ended
    have fl: "in_flight j st' = filter (\<lambda>x. rn_id x \<noteq> rn_id r) (in_flight j st)"
      by (simp add: in_flight_def ended(1) conj_commute conj_left_commute)
    have dd: "distinct (map rn_id (sc_runs st'))" unfolding ended(1) using d by (rule distinct_map_filter)
    have le: "length (in_flight j st') \<le> 1" using l(1) le_trans[OF length_filter_le] unfolding fl by blast
    have "j \<in> sc_running st'" if ne: "in_flight j st' \<noteq> []"
    proof (rule ccontr)
      assume no: "j \<notin> sc_running st'"
      have "in_flight j st \<noteq> []" using ne fl by auto
      then have st: "started r" "sj_id (rn_job r) = j" using no l(2) ended(2) by auto
      then have "r \<in> set (in_flight j st)" using r by (simp add: in_flight_def)
      then have "in_flight j st = [r]" using l(1) by (cases "in_flight j st") (auto simp: Suc_le_eq)
      then show False using ne fl by simp
    qed
    then show ?thesis using dd le jobs by (simp add: overlap_inv_def)
  qed
qed

lemma overlap_inv_execute:
  assumes "overlap_inv j st" "fresh_id i st" "no_overlap_job j job"
  shows "overlap_inv j (execute i busy job l c st)"
proof -
  have f: "i \<notin> rn_id ` set (sc_runs st)" using assms(2) by (simp add: fresh_id_def)
  have t: "tick_arrays (st\<lparr>sc_runs := x\<rparr>) = tick_arrays st" "tick_arrays (st\<lparr>sc_running := y, sc_runs := x\<rparr>) = tick_arrays st" for x y
    by (simp_all add: tick_arrays_def)
  show ?thesis
  proof (cases "(sj_id job \<in> sc_running st \<or> busy) \<and> \<not> sj_allowOverlap job")
    case True
    then show ?thesis using assms(1) f t
      by (simp add: overlap_inv_def execute_def Let_def in_flight_def started_def)
  next
    case False
    then have "sj_id job = j \<Longrightarrow> j \<notin> sc_running st" using assms(3) by (auto simp: no_overlap_job_def)
    then have "sj_id job = j \<Longrightarrow> in_flight j st = []" using assms(1) by (auto simp: overlap_inv_def)
    then show ?thesis using assms(1) f t False
      by (auto simp: overlap_inv_def execute_def Let_def in_flight_def started_def)
  qed
qed

lemma overlap_inv_cong:
  assumes "overlap_inv j st" "sc_runs st' = sc_runs st" "sc_running st' = sc_running st"
    "\<forall>job \<in> set (sc_jobs st'). no_overlap_job j job" "\<forall>xs \<in> tick_arrays st'. \<forall>job \<in> set xs. no_overlap_job j job"
  shows "overlap_inv j st'"
  using assms by (simp add: overlap_inv_def in_flight_def)

lemma tick_arrays_set_tick: "(\<And>x. tk_items (f x) = tk_items x) \<Longrightarrow> tick_arrays (set_tick t f st) = tick_arrays st"
proof -
  assume f: "\<And>x. tk_items (f x) = tk_items x"
  have "tick_arrays s = {xs. Some xs \<in> tk_items ` set (sc_ticks s)}" for s :: scheduler
    unfolding tick_arrays_def image_iff by (intro Collect_cong bex_cong[OF refl] eq_commute)
  moreover have "map tk_items (sc_ticks (set_tick t f st)) = map tk_items (sc_ticks st)"
    using f by (simp add: set_tick_def)
  then have "tk_items ` set (sc_ticks (set_tick t f st)) = tk_items ` set (sc_ticks st)"
    by (metis list.set_map)
  ultimately show ?thesis by simp
qed

lemma tick_arrays_drop_tick: "tick_arrays (drop_tick t st) \<subseteq> tick_arrays st"
  by (auto simp: tick_arrays_def drop_tick_def)

lemma overlap_inv_tick_continue:
  assumes inv: "overlap_inv j st" and f: "fresh_id i st" and k: "\<forall>xs. tk_items k = Some xs \<longrightarrow> xs \<in> tick_arrays st"
  shows "overlap_inv j (tick_continue env k i busy st)"
proof -
  have items: "\<forall>job \<in> set (tick_items k st). no_overlap_job j job"
    using inv k by (cases "tk_items k") (auto simp: tick_items_def overlap_inv_def)
  have logged: "tick_arrays (st\<lparr>sc_logged := lg\<rparr>) = tick_arrays st" for lg by (simp add: tick_arrays_def)
  show ?thesis
  proof (cases rule: tick_continue_cases[where env = env and k = k and i = i and busy = busy and st = st])
    case (ends lg)
    show ?thesis unfolding ends
      by (rule overlap_inv_cong[OF inv]) (use inv tick_arrays_drop_tick[of "tk_id k" "st\<lparr>sc_logged := lg\<rparr>"] logged in
          \<open>auto simp: drop_tick_def overlap_inv_def\<close>)
  next
    case (saves lg g item)
    have "no_overlap_job j item" using saves(1) items by (auto simp: same_job_def no_overlap_job_def)
    then have "\<forall>job \<in> set (list_upsert sj_id item (sc_jobs st)). no_overlap_job j job"
      using inv set_list_upsert[of sj_id item "sc_jobs st"] by (auto simp: overlap_inv_def)
    moreover have "tick_arrays (set_tick (tk_id k) g (jobs_upsert item (st\<lparr>sc_logged := lg\<rparr>))) = tick_arrays st"
      using saves(3) by (simp add: tick_arrays_set_tick) (simp add: tick_arrays_def jobs_upsert_def)
    ultimately show ?thesis unfolding saves(2)
      by (intro overlap_inv_cong[OF inv]) (use inv in \<open>simp_all add: set_tick_def jobs_upsert_def overlap_inv_def\<close>)
  next
    case (executes lg g job l)
    let ?st = "set_tick (tk_id k) g (st\<lparr>sc_logged := lg\<rparr>)"
    have "overlap_inv j ?st"
    proof (rule overlap_inv_cong[OF inv])
      show "\<forall>xs \<in> tick_arrays ?st. \<forall>job \<in> set xs. no_overlap_job j job"
        using inv by (simp add: tick_arrays_set_tick[OF executes(3)] logged overlap_inv_def)
    qed (use inv in \<open>simp_all add: set_tick_def overlap_inv_def\<close>)
    moreover have "fresh_id i ?st" using f by (simp add: fresh_id_def set_tick_def)
    ultimately show ?thesis unfolding executes(2) using items executes(1) by (intro overlap_inv_execute) simp_all
  qed
qed

text \<open>The action does not let the job overlap with itself from now on.\<close>

definition keeps_exclusive :: "jsstring \<Rightarrow> action \<Rightarrow> bool" where
  "keeps_exclusive j a = (case a of Upsert job \<Rightarrow> no_overlap_job j job | _ \<Rightarrow> True)"

lemma overlap_inv_act:
  assumes inv: "overlap_inv j st" and a: "keeps_exclusive j a" "act env a st = Some st'"
  shows "overlap_inv j st'"
proof -
  note cong = overlap_inv_cong[OF inv]
  have jobs: "\<forall>job \<in> set (sc_jobs st). no_overlap_job j job" "\<forall>xs \<in> tick_arrays st. \<forall>job \<in> set xs. no_overlap_job j job"
    using inv by (simp_all add: overlap_inv_def)
  show ?thesis
  proof (cases a)
    case (Pass d)
    then have st': "st' = st\<lparr>sc_clock := sc_clock st + d\<rparr>" using a(2) by (simp split: if_splits)
    have "tick_arrays st' = tick_arrays st" by (simp add: st' tick_arrays_def)
    then show ?thesis using jobs by (intro cong) (simp_all add: st')
  next
    case (Tick i busy)
    have "overlap_inv j (tick_start st)"
    proof (rule cong)
      have "tick_arrays (tick_start st) = tick_arrays st" by (auto simp: tick_arrays_def tick_start_def tick_new_def Let_def)
      then show "\<forall>xs \<in> tick_arrays (tick_start st). \<forall>job \<in> set xs. no_overlap_job j job" using jobs by simp
    qed (use jobs in \<open>simp_all add: tick_start_def\<close>)
    moreover have "fresh_id i st \<Longrightarrow> fresh_id i (tick_start st)" by (simp add: fresh_id_def tick_start_def)
    moreover have "tk_items (tick_new st) = None" by (simp add: tick_new_def Let_def)
    ultimately show ?thesis using a(2) Tick overlap_inv_tick_continue by (auto split: if_splits)
  next
    case (TickContinue t i busy)
    then obtain k where "find (\<lambda>k. tk_id k = t \<and> tk_wait k = Ready) (sc_ticks st) = Some k" "fresh_id i st"
      "st' = tick_continue env k i busy st"
      using a(2) by (auto split: option.splits if_splits)
    moreover have "k \<in> set (sc_ticks st)" using calculation(1) by (auto simp: find_Some_iff)
    moreover have "\<forall>xs. tk_items k = Some xs \<longrightarrow> xs \<in> tick_arrays st"
      using \<open>k \<in> set (sc_ticks st)\<close> unfolding tick_arrays_def by blast
    ultimately show ?thesis using overlap_inv_tick_continue[OF inv] by blast
  next
    case (TickSaved t ok)
    then obtain saved where st': "st' = (if ok then set_tick t (\<lambda>k. k\<lparr>tk_wait := Ready\<rparr>) (st\<lparr>sc_file := saved\<rparr>) else drop_tick t st)"
      using a(2) by (auto split: option.splits tick_wait.splits)
    have "tick_arrays st' \<subseteq> tick_arrays st"
      using tick_arrays_drop_tick[of t st] tick_arrays_set_tick[of "\<lambda>k. k\<lparr>tk_wait := Ready\<rparr>" t "st\<lparr>sc_file := saved\<rparr>"]
      by (auto simp: st' tick_arrays_def)
    then show ?thesis using jobs by (intro cong) (auto simp: st' set_tick_def drop_tick_def)
  next
    case (RunNow jobId i busy)
    show ?thesis
    proof (cases "list_get sj_id jobId (sc_jobs st)")
      case None
      then show ?thesis using a(2) RunNow inv by simp
    next
      case (Some job)
      then have "fresh_id i st" "st' = execute i busy job OnTime None st" using a(2) RunNow by (simp_all split: if_splits)
      moreover have "no_overlap_job j job" using list_get_SomeD[OF Some] jobs by simp
      ultimately show ?thesis using overlap_inv_execute[OF inv] by simp
    qed
  next
    case (Resume i outcome)
    then obtain r where "r \<in> set (sc_runs st)" "st' = resume env r outcome st"
      using a(2) find_idD by (auto split: option.splits)
    then show ?thesis using overlap_inv_frames[OF inv resume_frames] by simp
  next
    case (Upsert job)
    show ?thesis
    proof (cases "JobScheduler_upsert env job st")
      case (Inl e)
      then show ?thesis using a(2) Upsert inv by simp
    next
      case (Inr st1)
      then obtain nxt sv where st1: "st1 = jobs_upsert (job\<lparr>sj_nextRunAt := nxt\<rparr>) st\<lparr>sc_saves := sv\<rparr>"
        by (cases "parseSchedule env (sj_schedule job)") (auto simp: JobScheduler_upsert_def result_simps Let_def)
      have "no_overlap_job j (job\<lparr>sj_nextRunAt := nxt\<rparr>)" using a(1) Upsert by (simp add: keeps_exclusive_def no_overlap_job_def)
      then have "\<forall>x \<in> set (list_upsert sj_id (job\<lparr>sj_nextRunAt := nxt\<rparr>) (sc_jobs st)). no_overlap_job j x"
        using jobs(1) set_list_upsert[of sj_id "job\<lparr>sj_nextRunAt := nxt\<rparr>" "sc_jobs st"] by auto
      moreover have st': "st' = st\<lparr>sc_jobs := list_upsert sj_id (job\<lparr>sj_nextRunAt := nxt\<rparr>) (sc_jobs st), sc_saves := sv\<rparr>"
        using a(2) Upsert Inr st1 by (simp add: jobs_upsert_def)
      moreover have "tick_arrays st' = tick_arrays st" by (simp add: st' tick_arrays_def)
      ultimately show ?thesis using jobs by (intro cong) simp_all
    qed
  next
    case (Remove i)
    have "tick_arrays st' \<subseteq> insert (sc_jobs st) (tick_arrays st)"
      using a(2) Remove by (auto simp: JobScheduler_remove_def tick_arrays_def onChange_def Let_def split: if_splits)
    moreover have "set (sc_jobs st') \<subseteq> set (sc_jobs st)"
      using a(2) Remove by (auto simp: JobScheduler_remove_def list_remove_def onChange_def Let_def split: if_splits)
    ultimately show ?thesis using a(2) Remove jobs
      by (intro cong) (auto simp: JobScheduler_remove_def onChange_def Let_def split: if_splits)
  next
    case (SaveDone ok)
    have "tick_arrays st' = tick_arrays st" "sc_jobs st' = sc_jobs st" "sc_runs st' = sc_runs st" "sc_running st' = sc_running st"
      using a(2) SaveDone by (auto simp: onChange_def tick_arrays_def Let_def split: list.splits if_splits)
    then show ?thesis using jobs by (intro cong) simp_all
  qed
qed

lemma overlap_inv_new:
  "\<forall>job \<in> set jobs. no_overlap_job j job \<Longrightarrow> overlap_inv j (JobScheduler_new now jobs)"
  by (simp add: overlap_inv_def JobScheduler_new_def tick_arrays_def in_flight_def)

text \<open>
  C8. A job that must not overlap does not: in every state that a new scheduler reaches, whatever is
  interleaved, fails, is edited, removed or started by hand, at most one execution of it is in flight, and while it is, any attempt to execute the job
  only records that it was skipped. An attempt is also skipped while its Bot is running.
\<close>

theorem scheduler_no_overlap:
  assumes "\<forall>job \<in> set jobs. no_overlap_job j job"
    and "sched_reach env (\<lambda>a _. keeps_exclusive j a) (JobScheduler_new now jobs) st"
  shows "length (in_flight j st) \<le> 1 \<and>
         (\<forall>job i busy l c. sj_id job = j \<longrightarrow> \<not> sj_allowOverlap job \<longrightarrow> in_flight j st \<noteq> [] \<or> busy \<longrightarrow>
            sc_runs (execute i busy job l c st) = sc_runs st @
              [\<lparr>rn_id = i, rn_job = job, rn_lateness = l, rn_startedAt = sc_clock st, rn_phase = SkipInsert, rn_caller = c\<rparr>] \<and>
            in_flight j (execute i busy job l c st) = in_flight j st)"
proof -
  have inv: "overlap_inv j st" using assms(2)
  proof (induction rule: sched_reach.induct)
    case start
    then show ?case using assms(1) by (rule overlap_inv_new)
  next
    case (step st a st')
    then show ?case using overlap_inv_act by blast
  qed
  then show ?thesis
    by (auto simp: overlap_inv_def execute_def in_flight_def started_def Let_def)
qed

section \<open>The ledger\<close>

definition find_row :: "jsstring \<Rightarrow> execution list \<Rightarrow> execution option" where
  "find_row i rows = list_get ex_id i rows"

lemma find_row_snoc:
  "find_row i (rows @ [row]) = (case find_row i rows of Some x \<Rightarrow> Some x | None \<Rightarrow> if ex_id row = i then Some row else None)"
  by (induction rows) (auto simp: find_row_def list_get_def)

lemma find_row_map:
  "(\<And>row. ex_id (f row) = ex_id row) \<Longrightarrow>
   find_row i (map (\<lambda>row. if ex_id row = k then f row else row) rows) =
   (if i = k then map_option f (find_row i rows) else find_row i rows)"
  by (induction rows) (auto simp: find_row_def list_get_def)

lemma find_row_None: "find_row i rows = None \<longleftrightarrow> i \<notin> ex_id ` set rows"
  by (auto simp: find_row_def list_get_def find_None_iff)

lemma find_row_Some: "find_row i rows = Some row \<Longrightarrow> row \<in> set rows \<and> ex_id row = i"
  by (simp add: find_row_def list_get_SomeD)

text \<open>A row that can be read back.\<close>

definition row_ok :: "int \<Rightarrow> execution \<Rightarrow> bool" where
  "row_ok now row =
     (ex_startedAt row \<le> now \<and>
      (case ex_status row of
         Running \<Rightarrow> ex_finishedAt row = None
       | Skipped \<Rightarrow> ex_finishedAt row = Some (ex_startedAt row)
       | Succeeded \<Rightarrow> (\<exists>f. ex_finishedAt row = Some f \<and> ex_startedAt row \<le> f \<and> f \<le> now) \<and> ex_sessionId row \<noteq> None
       | Failed \<Rightarrow> (\<exists>f. ex_finishedAt row = Some f \<and> ex_startedAt row \<le> f \<and> f \<le> now) \<and> ex_error row \<noteq> None))"

definition phase_status :: "phase \<Rightarrow> exec_status set" where
  "phase_status p =
     (case p of
        SkipInsert \<Rightarrow> {} | StartInsert \<Rightarrow> {} | SkipSave _ \<Rightarrow> {Skipped} | InJob \<Rightarrow> {Running} | Finishing _ \<Rightarrow> {Running}
      | Advancing _ \<Rightarrow> {Succeeded} | Failing _ \<Rightarrow> {Running, Succeeded} | FailAdvancing _ \<Rightarrow> {Failed})"

text \<open>What the ledger has of an execution in one of its phases.\<close>

definition phase_row :: "run_frame \<Rightarrow> execution list \<Rightarrow> bool" where
  "phase_row r rows =
     (if rn_phase r = SkipInsert \<or> rn_phase r = StartInsert then find_row (rn_id r) rows = None
      else \<exists>row. find_row (rn_id r) rows = Some row \<and> ex_jobId row = sj_id (rn_job r) \<and>
             ex_startedAt row = rn_startedAt r \<and> ex_status row \<in> phase_status (rn_phase r))"

definition ledger_inv :: "scheduler \<Rightarrow> bool" where
  "ledger_inv st =
     (distinct (map rn_id (sc_runs st)) \<and> distinct (map ex_id (sc_ledger st)) \<and>
      (\<forall>r \<in> set (sc_runs st). rn_startedAt r \<le> sc_clock st \<and> phase_row r (sc_ledger st)) \<and>
      (\<forall>row \<in> set (sc_ledger st). row_ok (sc_clock st) row))"

definition busy_phase :: "phase \<Rightarrow> bool" where
  "busy_phase p = (case p of InJob \<Rightarrow> True | Finishing _ \<Rightarrow> True | Failing _ \<Rightarrow> True | _ \<Rightarrow> False)"

text \<open>Every row that says running has its execution, and every running flag too.\<close>

definition live_inv :: "scheduler \<Rightarrow> bool" where
  "live_inv st =
     ((\<forall>i row. find_row i (sc_ledger st) = Some row \<longrightarrow> ex_status row = Running \<longrightarrow>
         (\<exists>r \<in> set (sc_runs st). rn_id r = i \<and> busy_phase (rn_phase r))) \<and>
      (\<forall>j \<in> sc_running st. \<exists>r \<in> set (sc_runs st). started r \<and> sj_id (rn_job r) = j))"

definition ledger_step :: "jsstring \<Rightarrow> int \<Rightarrow> execution list \<Rightarrow> execution list \<Rightarrow> bool" where
  "ledger_step i now rows rows' =
     (distinct (map ex_id rows') \<and> (\<forall>row \<in> set rows'. row_ok now row) \<and> (\<forall>k. k \<noteq> i \<longrightarrow> find_row k rows' = find_row k rows))"

definition ends_row :: "jsstring \<Rightarrow> execution list \<Rightarrow> bool" where
  "ends_row i rows = (\<forall>row. find_row i rows = Some row \<longrightarrow> ex_status row \<noteq> Running)"

lemma phase_row_other:
  "ledger_step i now rows rows' \<Longrightarrow> rn_id x \<noteq> i \<Longrightarrow> phase_row x rows \<Longrightarrow> phase_row x rows'"
  by (simp add: ledger_step_def phase_row_def)

lemma distinct_runs_other:
  "ledger_inv st \<Longrightarrow> r \<in> set (sc_runs st) \<Longrightarrow> x \<in> set (sc_runs st) \<Longrightarrow> rn_id x = rn_id r \<Longrightarrow> x = r"
  by (auto simp: ledger_inv_def distinct_map dest: inj_onD)

text \<open>The two ways a step goes on: another phase, or the end.\<close>

definition goes_on :: "run_frame \<Rightarrow> scheduler \<Rightarrow> scheduler \<Rightarrow> bool" where
  "goes_on r st st1 =
     (ledger_inv st \<and> r \<in> set (sc_runs st) \<and> sc_runs st1 = sc_runs st \<and> sc_clock st1 = sc_clock st \<and>
      ledger_step (rn_id r) (sc_clock st) (sc_ledger st) (sc_ledger st1))"

lemma goes_onD:
  assumes "goes_on r st st1"
  shows "ledger_inv st" "r \<in> set (sc_runs st)" "sc_runs st1 = sc_runs st" "sc_clock st1 = sc_clock st"
    "ledger_step (rn_id r) (sc_clock st) (sc_ledger st) (sc_ledger st1)"
  using assms by (simp_all add: goes_on_def)

lemma runs_after: "goes_on r st st1 \<Longrightarrow> x \<in> set (sc_runs st) \<Longrightarrow> rn_id x \<noteq> rn_id r \<Longrightarrow> rn_startedAt x \<le> sc_clock st \<and> phase_row x (sc_ledger st1)"
proof -
  assume g: "goes_on r st st1" and x: "x \<in> set (sc_runs st)" "rn_id x \<noteq> rn_id r"
  have "rn_startedAt x \<le> sc_clock st" "phase_row x (sc_ledger st)"
    using goes_onD(1)[OF g] x(1) by (simp_all add: ledger_inv_def)
  then show ?thesis using phase_row_other[OF goes_onD(5)[OF g] x(2)] by blast
qed

lemma set_phase_simps [simp]:
  "sc_ledger (set_phase i p st) = sc_ledger st" "sc_clock (set_phase i p st) = sc_clock st"
  "sc_running (set_phase i p st) = sc_running st" "map rn_id (sc_runs (set_phase i p st)) = map rn_id (sc_runs st)"
  by (simp_all add: set_phase_def)

lemma set_phase_runs:
  assumes "goes_on r st st1"
  shows "set (sc_runs (set_phase (rn_id r) p st1)) =
         insert (r\<lparr>rn_phase := p\<rparr>) {x \<in> set (sc_runs st). rn_id x \<noteq> rn_id r}"
proof -
  have eq: "x = r" if "x \<in> set (sc_runs st)" "rn_id x = rn_id r" for x
    using distinct_runs_other[OF goes_onD(1,2)[OF assms] that] .
  then show ?thesis
    using goes_onD(2)[OF assms] by (auto simp: set_phase_def goes_onD(3)[OF assms] image_iff)
qed

lemma ledger_inv_phase:
  assumes "goes_on r st st1" "phase_row (r\<lparr>rn_phase := p\<rparr>) (sc_ledger st1)"
  shows "ledger_inv (set_phase (rn_id r) p st1)"
proof -
  let ?st = "set_phase (rn_id r) p st1"
  note inv = goes_onD(1)[OF assms(1)] and r = goes_onD(2)[OF assms(1)] and rows = goes_onD(5)[OF assms(1)]
  have "rn_startedAt x \<le> sc_clock st \<and> phase_row x (sc_ledger st1)" if "x \<in> set (sc_runs ?st)" for x
    using that runs_after[OF assms(1)] assms(2) r inv
    unfolding set_phase_runs[OF assms(1)] by (cases "x = r\<lparr>rn_phase := p\<rparr>") (auto simp: ledger_inv_def)
  moreover have "distinct (map rn_id (sc_runs ?st))" using inv goes_onD(3)[OF assms(1)] by (simp add: ledger_inv_def)
  ultimately show ?thesis
    using rows unfolding ledger_inv_def ledger_step_def by (simp add: goes_onD(4)[OF assms(1)])
qed

lemma ledger_inv_end:
  assumes "goes_on r st st1"
  shows "ledger_inv (end_run r ok st1)" "ledger_inv (end_started r ok st1)"
proof -
  note inv = goes_onD(1)[OF assms(1)] and r = goes_onD(2)[OF assms(1)] and runs = goes_onD(3)[OF assms(1)]
    and clock = goes_onD(4)[OF assms(1)] and rows = goes_onD(5)[OF assms(1)]
  have conj_all: "\<forall>x \<in> set (sc_runs st). rn_id x \<noteq> rn_id r \<longrightarrow> rn_startedAt x \<le> sc_clock st \<and> phase_row x (sc_ledger st1)"
    using runs_after[OF assms(1)] by blast
  have "distinct (map rn_id (filter (\<lambda>x. rn_id x \<noteq> rn_id r) (sc_runs st)))"
    using inv by (auto simp: ledger_inv_def intro: distinct_map_filter)
  then show "ledger_inv (end_run r ok st1)" "ledger_inv (end_started r ok st1)"
    using conj_all rows
    by (auto simp: ledger_inv_def end_run_def end_started_def runs clock ledger_step_def)
qed

lemma live_inv_phase:
  assumes "goes_on r st st1" "live_inv st" "sc_running st1 = sc_running st" "started_phase p = started r"
    "busy_phase p \<or> ends_row (rn_id r) (sc_ledger st1)"
  shows "live_inv (set_phase (rn_id r) p st1)"
  unfolding live_inv_def set_phase_runs[OF assms(1)] set_phase_simps
proof (intro conjI allI impI ballI)
  fix i row assume f: "find_row i (sc_ledger st1) = Some row" "ex_status row = Running"
  show "\<exists>x \<in> insert (r\<lparr>rn_phase := p\<rparr>) {x \<in> set (sc_runs st). rn_id x \<noteq> rn_id r}. rn_id x = i \<and> busy_phase (rn_phase x)"
  proof (cases "i = rn_id r")
    case True
    then show ?thesis using assms(5) f by (auto simp: ends_row_def)
  next
    case False
    then show ?thesis using f assms(2) goes_onD(5)[OF assms(1)] by (auto simp: ledger_step_def live_inv_def)
  qed
next
  fix j assume "j \<in> sc_running st1"
  then obtain x where x: "x \<in> set (sc_runs st)" "started x" "sj_id (rn_job x) = j"
    using assms(2,3) by (auto simp: live_inv_def)
  have "rn_id x = rn_id r \<Longrightarrow> x = r" using distinct_runs_other[OF goes_onD(1,2)[OF assms(1)] x(1)] .
  then show "\<exists>x \<in> insert (r\<lparr>rn_phase := p\<rparr>) {x \<in> set (sc_runs st). rn_id x \<noteq> rn_id r}. started x \<and> sj_id (rn_job x) = j"
    using x assms(4) by (auto simp: started_eq)
qed

lemma live_inv_end:
  assumes "goes_on r st st1" "live_inv st" "sc_running st1 = sc_running st" "ends_row (rn_id r) (sc_ledger st1)"
  shows "\<not> started r \<Longrightarrow> live_inv (end_run r ok st1)" "live_inv (end_started r ok st1)"
proof -
  note inv = goes_onD(1)[OF assms(1)] and r = goes_onD(2)[OF assms(1)] and runs = goes_onD(3)[OF assms(1)]
    and clock = goes_onD(4)[OF assms(1)] and rows = goes_onD(5)[OF assms(1)]
  have row: "\<exists>x \<in> set (sc_runs st). rn_id x \<noteq> rn_id r \<and> rn_id x = i \<and> busy_phase (rn_phase x)"
    if "find_row i (sc_ledger st1) = Some row" "ex_status row = Running" for i row
  proof -
    have "i \<noteq> rn_id r" using that assms(4) by (auto simp: ends_row_def)
    then show ?thesis using that assms(2) rows by (auto simp: ledger_step_def live_inv_def)
  qed
  have run: "\<exists>x \<in> set (sc_runs st). rn_id x \<noteq> rn_id r \<and> started x \<and> sj_id (rn_job x) = j"
    if j: "j \<in> sc_running st" "\<not> started r \<or> j \<noteq> sj_id (rn_job r)" for j
  proof -
    obtain x where x: "x \<in> set (sc_runs st)" "started x" "sj_id (rn_job x) = j" using assms(2) j(1) by (auto simp: live_inv_def)
    then have "rn_id x \<noteq> rn_id r" using distinct_runs_other[OF inv r x(1)] j(2) by auto
    then show ?thesis using x by blast
  qed
  show "\<not> started r \<Longrightarrow> live_inv (end_run r ok st1)" "live_inv (end_started r ok st1)"
    by (simp_all add: live_inv_def end_run_def end_started_def runs assms(3)) (use row run in blast)+
qed


lemma ledger_step_same: "ledger_inv st \<Longrightarrow> ledger_step i (sc_clock st) (sc_ledger st) (sc_ledger st)"
  by (simp add: ledger_step_def ledger_inv_def)

lemma ledger_step_snoc:
  assumes "ledger_inv st" "find_row (ex_id row) (sc_ledger st) = None" "row_ok (sc_clock st) row"
  shows "ledger_step (ex_id row) (sc_clock st) (sc_ledger st) (sc_ledger st @ [row])"
    "find_row (ex_id row) (sc_ledger st @ [row]) = Some row"
proof -
  have new: "ex_id row \<notin> ex_id ` set (sc_ledger st)" using assms(2) by (simp add: find_row_None)
  have "distinct (map ex_id (sc_ledger st @ [row]))" "\<forall>x \<in> set (sc_ledger st @ [row]). row_ok (sc_clock st) x"
    using assms(1,3) new by (simp_all add: ledger_inv_def)
  moreover have "find_row k (sc_ledger st @ [row]) = find_row k (sc_ledger st)" if "k \<noteq> ex_id row" for k
    using that by (simp add: find_row_snoc split: option.split)
  ultimately show "ledger_step (ex_id row) (sc_clock st) (sc_ledger st) (sc_ledger st @ [row])"
    unfolding ledger_step_def by blast
  show "find_row (ex_id row) (sc_ledger st @ [row]) = Some row" using assms(2) by (simp add: find_row_snoc)
qed

lemma ledger_step_map:
  assumes "ledger_inv st" "find_row i (sc_ledger st) = Some row" "row_ok (sc_clock st) (f row)" "\<And>row. ex_id (f row) = ex_id row"
  shows "ledger_step i (sc_clock st) (sc_ledger st) (map (\<lambda>row. if ex_id row = i then f row else row) (sc_ledger st))"
    "find_row i (map (\<lambda>row. if ex_id row = i then f row else row) (sc_ledger st)) = Some (f row)"
proof -
  let ?g = "\<lambda>row. if ex_id row = i then f row else row"
  have d: "distinct (map ex_id (sc_ledger st))" and ok: "\<forall>x \<in> set (sc_ledger st). row_ok (sc_clock st) x"
    using assms(1) by (simp_all add: ledger_inv_def)
  have ids: "map ex_id (map ?g (sc_ledger st)) = map ex_id (sc_ledger st)" using assms(4) by simp
  have "x = row" if "x \<in> set (sc_ledger st)" "ex_id x = i" for x
    using d that find_row_Some[OF assms(2)] by (auto simp: distinct_map dest: inj_onD)
  then have "\<forall>x \<in> set (map ?g (sc_ledger st)). row_ok (sc_clock st) x" using ok assms(3) by auto
  then show "ledger_step i (sc_clock st) (sc_ledger st) (map ?g (sc_ledger st))"
    unfolding ledger_step_def ids using d assms(4) by (simp add: find_row_map del: list.map_comp)
  show "find_row i (map ?g (sc_ledger st)) = Some (f row)" using assms(2,4) by (simp add: find_row_map)
qed

text \<open>The invariants together; the second one is claimed when the database has not failed at certain points.\<close>

definition ledger_good :: "bool \<Rightarrow> scheduler \<Rightarrow> bool" where
  "ledger_good c st = (ledger_inv st \<and> (c \<longrightarrow> live_inv st))"

lemma ledger_good_phase:
  assumes "goes_on r st st1" "c \<longrightarrow> live_inv st" "sc_running st1 = sc_running st" "started_phase p = started r"
    "phase_row (r\<lparr>rn_phase := p\<rparr>) (sc_ledger st1)" "busy_phase p \<or> ends_row (rn_id r) (sc_ledger st1)"
  shows "ledger_good c (set_phase (rn_id r) p st1)"
  using ledger_inv_phase[OF assms(1,5)] live_inv_phase[OF assms(1) _ assms(3,4,6)] assms(2) by (simp add: ledger_good_def)

lemma ledger_good_end:
  assumes "goes_on r st st1" "c \<longrightarrow> live_inv st" "sc_running st1 = sc_running st" "c \<longrightarrow> ends_row (rn_id r) (sc_ledger st1)"
  shows "c \<longrightarrow> \<not> started r \<Longrightarrow> ledger_good c (end_run r ok st1)" "ledger_good c (end_started r ok st1)"
  using ledger_inv_end[OF assms(1)] live_inv_end[OF assms(1) _ assms(3)] assms(2,4) by (auto simp: ledger_good_def)

text \<open>The database does what it is asked for, at the two points where the code does not provide for a failure.\<close>

definition database_ok :: "action \<Rightarrow> scheduler \<Rightarrow> bool" where
  "database_ok a st =
     (case a of
        Resume i (Rejected _) \<Rightarrow>
          (\<forall>r \<in> set (sc_runs st). rn_id r = i \<longrightarrow> rn_phase r \<noteq> StartInsert \<and> (\<forall>e. rn_phase r \<noteq> Failing e))
      | _ \<Rightarrow> True)"

lemma ledger_good_resume:
  assumes inv: "ledger_inv st" and live: "c \<longrightarrow> live_inv st" and r: "r \<in> set (sc_runs st)"
    and ok: "c \<longrightarrow> database_ok (Resume (rn_id r) outcome) st"
  shows "ledger_good c (resume env r outcome st)"
proof -
  let ?i = "rn_id r" and ?L = "sc_ledger st"
  have pr: "phase_row r ?L" and sa: "rn_startedAt r \<le> sc_clock st" using inv r by (simp_all add: ledger_inv_def)
  have go: "goes_on r st st1" if "sc_runs st1 = sc_runs st" "sc_clock st1 = sc_clock st"
      "ledger_step ?i (sc_clock st) ?L (sc_ledger st1)" for st1
    using inv r that by (simp add: goes_on_def)
  note same = ledger_step_same[OF inv, of ?i]
  note phase = ledger_good_phase[OF go live] and stop = ledger_good_end[OF go live]
  note simps = resume_def Let_def store_defs started_eq started_phase_def
  have upd: "ledger_good c (case advance env (rn_job r) (rn_startedAt r) status (update_row ?i f st) of
       Inl _ \<Rightarrow> bad (update_row ?i f st) | Inr (st2, None) \<Rightarrow> end_started r True st2
     | Inr (st2, Some saved) \<Rightarrow> set_phase ?i (p saved) st2)"
    if row: "find_row ?i ?L = Some row" "ex_jobId row = sj_id (rn_job r)" "ex_startedAt row = rn_startedAt r"
      and f: "row_ok (sc_clock st) (f row)" "\<And>row. ex_id (f row) = ex_id row \<and> ex_jobId (f row) = ex_jobId row \<and>
          ex_startedAt (f row) = ex_startedAt row" "ex_status (f row) \<noteq> Running"
      and p: "\<And>saved. started_phase (p saved) = started r" "\<And>saved. ex_status (f row) \<in> phase_status (p saved)"
        "\<And>saved. p saved \<noteq> SkipInsert \<and> p saved \<noteq> StartInsert"
      and bad: "ledger_step ?i (sc_clock st) ?L (sc_ledger (update_row ?i f st)) \<Longrightarrow>
        find_row ?i (sc_ledger (update_row ?i f st)) = Some (f row) \<Longrightarrow> ledger_good c (bad (update_row ?i f st))"
    for status f row bad p
  proof -
    have m: "ledger_step ?i (sc_clock st) ?L (sc_ledger (update_row ?i f st))"
      "find_row ?i (sc_ledger (update_row ?i f st)) = Some (f row)"
      using ledger_step_map[where f = f and row = row, OF inv row(1) f(1)] f(2) by (simp_all add: update_row_def)
    show ?thesis
    proof (rule advance_rule)
      show "ledger_good c (bad (update_row ?i f st))" using bad m by blast
    next
      fix st2 :: scheduler and saved
      assume a: "sc_runs st2 = sc_runs (update_row ?i f st)" "sc_running st2 = sc_running (update_row ?i f st)"
        "sc_ledger st2 = sc_ledger (update_row ?i f st)" "sc_clock st2 = sc_clock (update_row ?i f st)"
      have g: "sc_runs st2 = sc_runs st" "sc_clock st2 = sc_clock st" "ledger_step ?i (sc_clock st) ?L (sc_ledger st2)"
        "sc_running st2 = sc_running st" "find_row ?i (sc_ledger st2) = Some (f row)"
        using a m by (simp_all add: update_row_def)
      have e: "ends_row ?i (sc_ledger st2)" using g(5) f(3) by (simp add: ends_row_def)
      have "phase_row (r\<lparr>rn_phase := p saved\<rparr>) (sc_ledger st2)"
        using g(5) row f(2) p(2,3) by (simp add: phase_row_def)
      then show "ledger_good c (end_started r True st2) \<and> ledger_good c (set_phase ?i (p saved) st2)"
        using stop(2)[OF g(1-4)] phase[OF g(1-4) p(1)] e by blast
    qed
  qed
  show ?thesis
  proof (cases "rn_phase r")
    case SkipInsert
    then have none: "find_row ?i ?L = None" using pr by (simp add: phase_row_def)
    show ?thesis
    proof (cases outcome)
      case (Rejected e)
      then show ?thesis using SkipInsert none
        by (auto intro!: stop(1) same simp: simps ends_row_def)
    next
      case (Resolved s)
      let ?row = "new_row r\<lparr>ex_finishedAt := Some (rn_startedAt r), ex_status := Skipped\<rparr>"
      have rid: "ex_id ?row = ?i" by (simp add: new_row_def)
      have m: "ledger_step ?i (sc_clock st) ?L (?L @ [?row])" "find_row ?i (?L @ [?row]) = Some ?row"
        using ledger_step_snoc[OF inv, of ?row] none sa unfolding rid by (simp_all add: row_ok_def new_row_def)
      have e: "ends_row ?i (?L @ [?row])" using m(2) by (simp add: ends_row_def)
      have p: "phase_row (r\<lparr>rn_phase := SkipSave saved\<rparr>) (?L @ [?row])" for saved
        using m(2) by (simp add: phase_row_def phase_status_def new_row_def)
      have ns: "\<not> started r" using SkipInsert by (simp add: started_def)
      have "ledger_good c (case advance env (rn_job r) (rn_startedAt r) Skipped (add_row ?row st) of
          Inl _ \<Rightarrow> end_run r False (add_row ?row st) | Inr (st2, None) \<Rightarrow> end_run r True st2
        | Inr (st2, Some saved) \<Rightarrow> set_phase ?i (SkipSave saved) st2)"
      proof (rule advance_rule)
        show "ledger_good c (end_run r False (add_row ?row st))"
          using m e ns by (intro stop(1)) (simp_all add: add_row_def)
      next
        fix st2 :: scheduler and saved
        assume a: "sc_runs st2 = sc_runs (add_row ?row st)" "sc_running st2 = sc_running (add_row ?row st)"
          "sc_ledger st2 = sc_ledger (add_row ?row st)" "sc_clock st2 = sc_clock (add_row ?row st)"
        show "ledger_good c (end_run r True st2) \<and> ledger_good c (set_phase ?i (SkipSave saved) st2)"
          using a m e p[of saved] ns
          by (intro conjI stop(1) phase) (simp_all add: add_row_def started_phase_def)
      qed
      then show ?thesis using SkipInsert Resolved by (simp add: resume_def Let_def)
    qed
  next
    case (SkipSave x)
    then obtain row where row: "find_row ?i ?L = Some row" "ex_status row = Skipped"
      using pr by (auto simp: phase_row_def phase_status_def)
    then show ?thesis using SkipSave
      by (cases outcome) (auto intro!: stop(1) same simp: simps ends_row_def)
  next
    case StartInsert
    then have none: "find_row ?i ?L = None" using pr by (simp add: phase_row_def)
    show ?thesis
    proof (cases outcome)
      case (Rejected e)
      then have "\<not> c" using ok StartInsert r by (auto simp: database_ok_def)
      then have "ledger_good c (end_run r False st)" by (intro stop(1)) (simp_all add: same)
      then show ?thesis using StartInsert Rejected by (simp add: resume_def Let_def)
    next
      case (Resolved s)
      have rid: "ex_id (new_row r) = ?i" by (simp add: new_row_def)
      have m: "ledger_step ?i (sc_clock st) ?L (?L @ [new_row r])" "find_row ?i (?L @ [new_row r]) = Some (new_row r)"
        using ledger_step_snoc[OF inv, of "new_row r"] none sa unfolding rid by (simp_all add: row_ok_def new_row_def)
      have p: "phase_row (r\<lparr>rn_phase := InJob\<rparr>) (?L @ [new_row r])"
        using m(2) by (simp add: phase_row_def phase_status_def new_row_def)
      show ?thesis using StartInsert Resolved m p
        by (auto intro!: phase simp: simps busy_phase_def)
    qed
  next
    case InJob
    then obtain row where row: "find_row ?i ?L = Some row" "ex_jobId row = sj_id (rn_job r)" "ex_startedAt row = rn_startedAt r"
      "ex_status row = Running"
      using pr by (auto simp: phase_row_def phase_status_def)
    then show ?thesis using InJob
      by (cases outcome) (auto intro!: phase same simp: simps busy_phase_def phase_row_def phase_status_def)
  next
    case (Finishing session)
    then obtain row where row: "find_row ?i ?L = Some row" "ex_jobId row = sj_id (rn_job r)" "ex_startedAt row = rn_startedAt r"
      "ex_status row = Running"
      using pr by (auto simp: phase_row_def phase_status_def)
    show ?thesis
    proof (cases outcome)
      case (Rejected e)
      then show ?thesis using Finishing row
        by (auto intro!: phase same simp: simps busy_phase_def phase_row_def phase_status_def)
    next
      case (Resolved s)
      let ?f = "\<lambda>row. row\<lparr>ex_finishedAt := Some (sc_clock st), ex_status := Succeeded, ex_sessionId := Some session\<rparr>"
      have "ledger_good c (set_phase ?i (Failing BadSchedule) (update_row ?i ?f st))"
        if "ledger_step ?i (sc_clock st) ?L (sc_ledger (update_row ?i ?f st))"
          "find_row ?i (sc_ledger (update_row ?i ?f st)) = Some (?f row)"
        using that Finishing row
        by (intro phase) (auto simp: update_row_def started_eq started_phase_def busy_phase_def phase_row_def phase_status_def)
      then show ?thesis using Finishing Resolved
        unfolding resume_def Let_def
        by (simp, intro upd[OF row(1-3), where p = Advancing and bad = "set_phase ?i (Failing BadSchedule)"])
          (use sa row(3) in \<open>simp_all add: row_ok_def started_eq started_phase_def phase_status_def\<close>)
    qed
  next
    case (Advancing x)
    then obtain row where row: "find_row ?i ?L = Some row" "ex_jobId row = sj_id (rn_job r)" "ex_startedAt row = rn_startedAt r"
      "ex_status row = Succeeded"
      using pr by (auto simp: phase_row_def phase_status_def)
    then show ?thesis using Advancing
      by (cases outcome)
        (auto intro!: phase stop(2) same simp: simps ends_row_def busy_phase_def phase_row_def phase_status_def)
  next
    case (Failing err)
    then obtain row where row: "find_row ?i ?L = Some row" "ex_jobId row = sj_id (rn_job r)" "ex_startedAt row = rn_startedAt r"
      using pr by (auto simp: phase_row_def)
    show ?thesis
    proof (cases outcome)
      case (Rejected e)
      then have "\<not> c" using ok Failing r by (auto simp: database_ok_def)
      then have "ledger_good c (end_started r False st)" by (intro stop(2)) (simp_all add: same)
      then show ?thesis using Failing Rejected by (simp add: resume_def Let_def)
    next
      case (Resolved s)
      let ?f = "\<lambda>row. row\<lparr>ex_finishedAt := Some (sc_clock st), ex_status := Failed, ex_error := Some err\<rparr>"
      have "ledger_good c (end_started r False (update_row ?i ?f st))"
        if "ledger_step ?i (sc_clock st) ?L (sc_ledger (update_row ?i ?f st))"
          "find_row ?i (sc_ledger (update_row ?i ?f st)) = Some (?f row)"
        using that by (intro stop(2)) (auto simp: update_row_def ends_row_def)
      then show ?thesis using Failing Resolved
        unfolding resume_def Let_def
        by (simp, intro upd[OF row, where p = FailAdvancing and bad = "end_started r False"])
          (use sa row(3) in \<open>simp_all add: row_ok_def started_eq started_phase_def phase_status_def\<close>)
    qed
  next
    case (FailAdvancing x)
    then obtain row where row: "find_row ?i ?L = Some row" "ex_status row = Failed"
      using pr by (auto simp: phase_row_def phase_status_def)
    then show ?thesis using FailAdvancing
      by (cases outcome) (auto intro!: stop(2) same simp: simps ends_row_def)
  qed
qed

lemma ledger_good_cong:
  assumes "ledger_good c st" "sc_runs st' = sc_runs st" "sc_ledger st' = sc_ledger st" "sc_running st' = sc_running st"
    "sc_clock st \<le> sc_clock st'"
  shows "ledger_good c st'"
proof -
  have "row_ok (sc_clock st') row" if "row_ok (sc_clock st) row" for row
    using that assms(5) by (auto simp: row_ok_def split: exec_status.splits)
  then show ?thesis using assms by (fastforce simp: ledger_good_def ledger_inv_def live_inv_def)
qed

lemma ledger_good_execute:
  assumes "ledger_good c st" "fresh_id i st"
  shows "ledger_good c (execute i busy job l caller st)"
proof -
  have f: "i \<notin> rn_id ` set (sc_runs st)" "find_row i (sc_ledger st) = None"
    using assms(2) by (simp_all add: fresh_id_def find_row_None)
  show ?thesis
    using assms(1) f
    by (auto simp: ledger_good_def ledger_inv_def live_inv_def execute_def Let_def phase_row_def started_def)
qed

lemma ledger_good_tick_continue:
  assumes "ledger_good c st" "fresh_id i st"
  shows "ledger_good c (tick_continue env k i busy st)"
proof (cases rule: tick_continue_cases[where env = env and k = k and i = i and busy = busy and st = st])
  case (ends lg)
  then show ?thesis by (simp add: ledger_good_cong[OF assms(1)] drop_tick_def)
next
  case (saves lg f item)
  then show ?thesis by (simp add: ledger_good_cong[OF assms(1)] set_tick_def jobs_upsert_def)
next
  case (executes lg f job l)
  let ?st = "set_tick (tk_id k) f (st\<lparr>sc_logged := lg\<rparr>)"
  have "ledger_good c ?st" by (rule ledger_good_cong[OF assms(1)]) (simp_all add: set_tick_def)
  moreover have "fresh_id i ?st" using assms(2) by (simp add: fresh_id_def set_tick_def)
  ultimately show ?thesis unfolding executes(2) by (rule ledger_good_execute)
qed

lemma ledger_good_act:
  assumes good: "ledger_good c st" and ok: "c \<longrightarrow> database_ok a st" and a: "act env a st = Some st'"
  shows "ledger_good c st'"
proof (cases a)
  case (Tick i busy)
  have "ledger_good c (tick_start st)" by (rule ledger_good_cong[OF good]) (simp_all add: tick_start_def)
  moreover have "fresh_id i st \<Longrightarrow> fresh_id i (tick_start st)" by (simp add: fresh_id_def tick_start_def)
  ultimately show ?thesis using a Tick ledger_good_tick_continue by (auto split: if_splits)
next
  case (TickContinue t i busy)
  then show ?thesis using a ledger_good_tick_continue[OF good] by (auto split: option.splits if_splits)
next
  case (RunNow jobId i busy)
  then show ?thesis using a good ledger_good_execute[OF good] by (auto split: option.splits if_splits)
next
  case (Resume i outcome)
  then obtain r where "r \<in> set (sc_runs st)" "rn_id r = i" "st' = resume env r outcome st"
    using a find_idD by (auto split: option.splits)
  then show ?thesis using ledger_good_resume[of st c r outcome env] good ok Resume by (auto simp: ledger_good_def)
next
  case (Upsert job)
  then show ?thesis using a good
    by (cases "parseSchedule env (sj_schedule job)")
      (auto simp: JobScheduler_upsert_def result_simps Let_def jobs_upsert_def intro: ledger_good_cong[OF good])
next
  case (TickSaved t ok)
  then show ?thesis using a
    by (auto simp: set_tick_def drop_tick_def split: option.splits tick_wait.splits if_splits intro: ledger_good_cong[OF good])
next
  case (Remove i)
  then show ?thesis using a
    by (auto simp: JobScheduler_remove_def onChange_def Let_def split: if_splits intro: ledger_good_cong[OF good])
next
  case (SaveDone ok)
  then show ?thesis using a
    by (auto simp: onChange_def Let_def split: list.splits if_splits intro: ledger_good_cong[OF good])
next
  case (Pass d)
  then show ?thesis using a by (auto split: if_splits intro: ledger_good_cong[OF good])
qed

lemma ledger_good_reach:
  assumes "sched_reach env allowed (JobScheduler_new now jobs) st" "c \<Longrightarrow> allowed = database_ok"
  shows "ledger_good c st"
  using assms(1)
proof (induction rule: sched_reach.induct)
  case start
  show ?case by (simp add: ledger_good_def ledger_inv_def live_inv_def JobScheduler_new_def find_row_def list_get_def)
next
  case (step st a st')
  then show ?case using ledger_good_act assms(2) by blast
qed


section \<open>An execution comes to its end\<close>

definition stored_job :: "sched_env \<Rightarrow> schedule \<Rightarrow> int \<Rightarrow> int \<Rightarrow> exec_status \<Rightarrow> job \<Rightarrow> job" where
  "stored_job env parsed now ranAt status current =
     current\<lparr>sj_lastRunAt := Some ranAt, sj_lastStatus := Some status,
             sj_nextRunAt := (if sj_enabled current then computeNextRun env parsed now (Some ranAt) else None),
             sj_enabled := (case parsed of At _ \<Rightarrow> False | _ \<Rightarrow> sj_enabled current)\<rparr>"

lemma advance_stored:
  "list_get sj_id (sj_id job) (sc_jobs st) = Some current \<Longrightarrow> parseSchedule env (sj_schedule current) = Inr parsed \<Longrightarrow>
   advance env job ranAt status st =
     Inr (jobs_upsert (stored_job env parsed (sc_clock st) ranAt status current) st,
          Some (list_upsert sj_id (stored_job env parsed (sc_clock st) ranAt status current) (sc_jobs st)))"
  by (simp add: advance_def result_simps stored_job_def jobs_upsert_def Let_def)

lemma find_run_set_phase:
  "find (\<lambda>r. rn_id r = i) rs = Some r \<Longrightarrow>
   find (\<lambda>r. rn_id r = i) (map (\<lambda>x. if rn_id x = i then x\<lparr>rn_phase := p\<rparr> else x) rs) = Some (r\<lparr>rn_phase := p\<rparr>)"
  by (induction rs) auto

lemma act_resume:
  "find (\<lambda>r. rn_id r = i) (sc_runs st) = Some r \<Longrightarrow> act env (Resume i outcome) st = Some (resume env r outcome st)"
  by simp

lemma filter_set_phase:
  "filter (\<lambda>x. rn_id x \<noteq> i) (map (\<lambda>x. if rn_id x = i then x\<lparr>rn_phase := p\<rparr> else x) rs) = filter (\<lambda>x. rn_id x \<noteq> i) rs"
  by (induction rs) auto

definition run_result :: "outcome \<Rightarrow> exec_status" where
  "run_result outcome = (case outcome of Resolved _ \<Rightarrow> Succeeded | Rejected _ \<Rightarrow> Failed)"

definition finish_row :: "outcome \<Rightarrow> int \<Rightarrow> execution \<Rightarrow> execution" where
  "finish_row outcome now row =
     (case outcome of
        Resolved session \<Rightarrow> row\<lparr>ex_finishedAt := Some now, ex_status := Succeeded, ex_sessionId := Some session\<rparr>
      | Rejected e \<Rightarrow> row\<lparr>ex_finishedAt := Some now, ex_status := Failed, ex_error := Some (Message e)\<rparr>)"

lemma execution_steps:
  fixes outcome :: outcome
  assumes "find (\<lambda>r. rn_id r = i) (sc_runs st) = Some r" "rn_phase r = InJob"
    and "list_get sj_id (sj_id (rn_job r)) (sc_jobs st) = Some current" "parseSchedule env (sj_schedule current) = Inr parsed"
  defines "item \<equiv> stored_job env parsed (sc_clock st) (rn_startedAt r) (run_result outcome) current"
  shows "act_all env [Resume i outcome, Resume i (Resolved u), Resume i (Resolved v)] st =
    Some (settle_caller (rn_caller r) True
      (st\<lparr>sc_jobs := list_upsert sj_id item (sc_jobs st), sc_file := list_upsert sj_id item (sc_jobs st),
          sc_ledger := map (\<lambda>row. if ex_id row = i then finish_row outcome (sc_clock st) row else row) (sc_ledger st),
          sc_running := sc_running st - {sj_id (rn_job r)}, sc_runs := filter (\<lambda>x. rn_id x \<noteq> i) (sc_runs st),
          sc_changes := sc_changes st + 1\<rparr>))"
proof -
  have i: "rn_id r = i" using find_idD[OF assms(1)] by simp
  define p where "p = (case outcome of Resolved s \<Rightarrow> Finishing s | Rejected e \<Rightarrow> Failing (Message e))"
  define q where "q = (case outcome of Resolved s \<Rightarrow> Advancing (list_upsert sj_id item (sc_jobs st))
    | Rejected e \<Rightarrow> FailAdvancing (list_upsert sj_id item (sc_jobs st)))"
  let ?st1 = "set_phase i p st" and ?r1 = "r\<lparr>rn_phase := p\<rparr>" and ?r2 = "r\<lparr>rn_phase := q\<rparr>"
  let ?st2 = "set_phase i q (jobs_upsert item (update_row i (finish_row outcome (sc_clock st)) ?st1))"
  have a1: "act env (Resume i outcome) st = Some ?st1"
    unfolding act_resume[OF assms(1)] using assms(2) i by (cases outcome) (simp_all add: resume_def p_def)
  have f1: "find (\<lambda>r. rn_id r = i) (sc_runs ?st1) = Some ?r1"
    using find_run_set_phase[OF assms(1)] by (simp add: set_phase_def)
  have adv: "advance env (rn_job r) (rn_startedAt r) (run_result outcome) (update_row i f ?st1) =
      Inr (jobs_upsert item (update_row i f ?st1), Some (list_upsert sj_id item (sc_jobs st)))" for f
    using advance_stored[of "rn_job r" "update_row i f ?st1" current env parsed "rn_startedAt r" "run_result outcome"] assms(3,4)
    by (simp add: update_row_def set_phase_def item_def)
  have a2: "act env (Resume i (Resolved u)) ?st1 = Some ?st2"
    unfolding act_resume[OF f1] using adv i
    by (cases outcome) (simp_all add: resume_def p_def q_def Let_def run_result_def finish_row_def[abs_def])
  have f2: "find (\<lambda>r. rn_id r = i) (sc_runs ?st2) = Some ?r2"
    using find_run_set_phase[OF f1, of q] by (simp add: set_phase_def jobs_upsert_def update_row_def)
  have "act env (Resume i (Resolved v)) ?st2 =
      Some (end_started r True (onChange (?st2\<lparr>sc_file := list_upsert sj_id item (sc_jobs st)\<rparr>)))"
    unfolding act_resume[OF f2] using i
    by (cases outcome) (simp_all add: resume_def q_def Let_def end_started_def end_run_def)
  also have "\<dots> = Some (settle_caller (rn_caller r) True
      (st\<lparr>sc_jobs := list_upsert sj_id item (sc_jobs st), sc_file := list_upsert sj_id item (sc_jobs st),
          sc_ledger := map (\<lambda>row. if ex_id row = i then finish_row outcome (sc_clock st) row else row) (sc_ledger st),
          sc_running := sc_running st - {sj_id (rn_job r)}, sc_runs := filter (\<lambda>x. rn_id x \<noteq> i) (sc_runs st),
          sc_changes := sc_changes st + 1\<rparr>))"
    using i
    by (simp add: end_started_def end_run_def onChange_def set_phase_def jobs_upsert_def update_row_def filter_set_phase
        del: map_map)
      (rule arg_cong[where f = "settle_caller (rn_caller r) True"], rule scheduler.equality; simp)
  finally show ?thesis using a1 a2 by simp
qed

lemma list_get_upsert_other: "ident item = i \<Longrightarrow> k \<noteq> i \<Longrightarrow> list_get ident k (list_upsert ident item xs) = list_get ident k xs"
  by (simp add: list_get_upsert)

lemma stored_job_next:
  assumes "parseSchedule env s = Inr parsed" "fixed_zone env" "sj_enabled (stored_job env parsed now ranAt status current)"
    "sj_nextRunAt (stored_job env parsed now ranAt status current) = Some t"
  shows "now < t"
proof -
  have "\<forall>time. parsed \<noteq> At time" using assms(3) by (auto simp: stored_job_def)
  moreover have "sj_enabled current" using assms(3) by (auto simp: stored_job_def split: schedule.splits)
  then have "computeNextRun env parsed now (Some ranAt) = Some t" using assms(4) by (simp add: stored_job_def)
  ultimately show ?thesis using computeNextRun_after[OF assms(2)] parseSchedule_interval[of env s] assms(1) by blast
qed


section \<open>Runs of the scheduler\<close>

definition at_env :: sched_env where
  "at_env = \<lparr>sv_dateParse = \<lambda>_. Some 5, sv_offset = \<lambda>_. 0, sv_localOffset = \<lambda>_. 0\<rparr>"

definition at_job :: "jsstring \<Rightarrow> bool \<Rightarrow> job" where
  "at_job j overlap =
     \<lparr>sj_id = j, sj_name = [], sj_botId = [], sj_schedule = [97, 116, 32, 49], sj_enabled = True, sj_allowOverlap = overlap,
      sj_lastRunAt = None, sj_nextRunAt = None, sj_lastStatus = None\<rparr>"

lemma at_job_simps [simp]:
  "sj_id (at_job j overlap) = j" "sj_allowOverlap (at_job j overlap) = overlap" "sj_enabled (at_job j overlap)"
  "sj_lastRunAt (at_job j overlap) = None" "sj_nextRunAt (at_job j overlap) = None"
  "parseSchedule at_env (sj_schedule (at_job j overlap)) = Inr (At 5)"
  by (simp_all add: at_job_def at_env_def parseSchedule_def match_every_def match_at_def starts_ci_def js_lit_def js_trim_def
      is_space_def lower_ascii_def is_lineterm_def)

lemmas run_eval =
  JobScheduler_new_def execute_def tick_continue_def tick_new_def tick_start_def resume_def fresh_id_def list_get_def
  add_row_def new_row_def set_phase_def set_tick_def drop_tick_def end_run_def end_started_def settle_caller_def
  computeNextRun_def classifyLateness_def cadenceSeconds_def advance_def jobs_upsert_def onChange_def result_simps Let_def

lemma reach_trace:
  assumes "act_all env as (JobScheduler_new now jobs) = Some st'" "\<And>a st. allowed a st"
  shows "sched_reach env allowed (JobScheduler_new now jobs) st'"
  by (rule act_all_reach[OF assms(1)]) (simp_all add: assms(2) sched_reach.start)

theorem scheduler_no_overlap_witness:
  "\<exists>st. act_all at_env [RunNow [106] [49] False, Resume [49] (Resolved [])] (JobScheduler_new 0 [at_job [106] False]) = Some st \<and>
     in_flight [106] st \<noteq> [] \<and> length (in_flight [106] st) \<le> 1"
proof -
  obtain st1 where st1: "act at_env (RunNow [106] [49] False) (JobScheduler_new 0 [at_job [106] False]) = Some st1"
    "st1 = execute [49] False (at_job [106] False) OnTime None (JobScheduler_new 0 [at_job [106] False])"
    by (simp add: fresh_id_def JobScheduler_new_def list_get_def)
  obtain st2 where st2: "act at_env (Resume [49] (Resolved [])) st1 = Some st2" "in_flight [106] st2 \<noteq> []"
    unfolding st1(2) by (simp add: run_eval in_flight_def started_def)
  have "sched_reach at_env (\<lambda>a _. keeps_exclusive [106] a) (JobScheduler_new 0 [at_job [106] False]) st2"
    using sched_reach.step[OF sched_reach.step[OF sched_reach.start _ st1(1)] _ st2(1)] by (simp add: keeps_exclusive_def)
  then have "length (in_flight [106] st2) \<le> 1"
    using scheduler_no_overlap[of "[at_job [106] False]" "[106]" at_env 0 st2] by (simp add: no_overlap_job_def)
  then show ?thesis using st1(1) st2 by simp
qed

lemma run_reached:
  "\<exists>st. act_all at_env [RunNow [106] [49] False, Resume [49] (Resolved [])] (JobScheduler_new 0 [at_job [106] False]) = Some st \<and>
     sc_runs st = [\<lparr>rn_id = [49], rn_job = at_job [106] False, rn_lateness = OnTime, rn_startedAt = 0, rn_phase = InJob, rn_caller = None\<rparr>] \<and>
     sc_jobs st = [at_job [106] False] \<and>
     sched_reach at_env (\<lambda>_ _. True) (JobScheduler_new 0 [at_job [106] False]) st"
proof -
  obtain st where st: "act_all at_env [RunNow [106] [49] False, Resume [49] (Resolved [])] (JobScheduler_new 0 [at_job [106] False]) = Some st"
    "sc_runs st = [\<lparr>rn_id = [49], rn_job = at_job [106] False, rn_lateness = OnTime, rn_startedAt = 0, rn_phase = InJob, rn_caller = None\<rparr>]"
    "sc_jobs st = [at_job [106] False]"
    by (simp add: run_eval)
  then show ?thesis using reach_trace[OF st(1), where allowed = "\<lambda>_ _. True"] by blast
qed



subsection \<open>What can go wrong\<close>

text \<open>
  The job is marked as running before the row is inserted, outside of the \<open>try\<close>: when the insertion
  fails the mark stays, no execution is in flight, and from then on every attempt is skipped.
\<close>

lemma running_mark_leaks:
  "\<exists>st. act_all at_env [RunNow [106] [49] False, Resume [49] (Rejected [])] (JobScheduler_new 0 [at_job [106] False]) = Some st \<and>
     sc_runs st = [] \<and> sc_running st = {[106]} \<and>
     (\<forall>i busy l c. sc_running (execute i busy (at_job [106] False) l c st) = {[106]} \<and>
        map rn_phase (sc_runs (execute i busy (at_job [106] False) l c st)) = [SkipInsert])"
  by (simp add: run_eval)

text \<open>A one-shot job that falls due while its Bot is busy is skipped and disabled: it never runs.\<close>

lemma one_shot_skipped_for_ever:
  "\<exists>st. act_all at_env [Pass 10, Tick [49] True, Resume [49] (Resolved []), Resume [49] (Resolved [])]
       (JobScheduler_new 0 [at_job [106] False]) = Some st \<and>
     sc_runs st = [] \<and> map ex_status (sc_ledger st) = [Skipped] \<and> map sj_enabled (sc_jobs st) = [False]"
  by (simp add: run_eval)

text \<open>The next run is only moved when an execution ends: a job that may overlap is started again by the next tick for the same time.\<close>

lemma due_job_started_twice:
  "\<exists>st. act_all at_env [Pass 10, Tick [49] False, Resume [49] (Resolved []), Pass 30000, Tick [50] False]
       (JobScheduler_new 0 [at_job [106] True]) = Some st \<and>
     length (in_flight [106] st) = 2"
  by (simp add: run_eval in_flight_def started_def)

text \<open>A tick under way goes on over the array it started with: a job removed meanwhile is still executed.\<close>

lemma removed_job_executed:
  "\<exists>st. act_all at_env
       [Pass 10, Tick [49] False, Resume [49] (Resolved []), Remove [107], Resume [49] (Resolved []), Resume [49] (Resolved []),
        Resume [49] (Resolved []), TickContinue 0 [50] False]
       (JobScheduler_new 0 [at_job [106] False, at_job [107] False]) = Some st \<and>
     list_get sj_id [107] (sc_jobs st) = None \<and> map (\<lambda>r. sj_id (rn_job r)) (sc_runs st) = [[107]]"
  by (simp add: run_eval update_row_def JobScheduler_remove_def list_remove_def)

end
