(* ===== verification/Redaction.thy ===== *)
theory Redaction
  imports JsStrings
begin

text \<open>
  The regular expressions of \<^verbatim>\<open>vs/latentRuntime/node/memory/contextCompression.ts\<close>: \<open>redactSummary\<close>, which takes
  secrets out of a text that is going to a model or into a summary, the anchors \<open>compressContext\<close> keeps verbatim, and
  \<open>summaryFailure\<close>, which reads an error message. A pattern is a function that gives the length of its match at the head of a
  text, given the code unit before it (for \<open>\b\<close>); the greedy quantifiers of these patterns never have to
  give anything back, because what follows a class is outside the class.
\<close>

section \<open>Characters\<close>

definition is_word :: "nat \<Rightarrow> bool" where
  "is_word c = (48 \<le> c \<and> c \<le> 57 \<or> 65 \<le> c \<and> c \<le> 90 \<or> c = 95 \<or> 97 \<le> c \<and> c \<le> 122)"

text \<open>\<open>\b\<close> before a word character: the code unit before, when there is one, is not one.\<close>

definition no_word :: "nat option \<Rightarrow> bool" where
  "no_word prev = (case prev of None \<Rightarrow> True | Some c \<Rightarrow> \<not> is_word c)"

text \<open>The flag \<open>i\<close>, for a literal in lower case.\<close>

definition lower :: "nat \<Rightarrow> nat" where
  "lower c = (if 65 \<le> c \<and> c \<le> 90 then c + 32 else c)"

definition ci_startsWith :: "jsstring \<Rightarrow> jsstring \<Rightarrow> bool" where
  "ci_startsWith s p = (map lower (take (length p) s) = p)"

fun find_first :: "(jsstring \<Rightarrow> bool) \<Rightarrow> jsstring \<Rightarrow> nat option" where
  "find_first P [] = (if P [] then Some 0 else None)"
| "find_first P (c # s) = (if P (c # s) then Some 0 else map_option Suc (find_first P s))"

definition span :: "(nat \<Rightarrow> bool) \<Rightarrow> jsstring \<Rightarrow> nat" where
  "span P s = length (takeWhile P s)"

text \<open>
  \<open>text.replace(/p/g, r)\<close>: the pattern gives the length of the match, at least one, and what replaces it. \<open>text.match(/p/g)\<close>:
  the matched texts.
\<close>

type_synonym matcher = "nat option \<Rightarrow> jsstring \<Rightarrow> (nat \<times> jsstring) option"

function replace_all :: "matcher \<Rightarrow> nat option \<Rightarrow> jsstring \<Rightarrow> jsstring" where
  "replace_all m prev [] = []"
| "replace_all m prev (c # s) =
     (case m prev (c # s) of
        None \<Rightarrow> c # replace_all m (Some c) s
      | Some (n, out) \<Rightarrow> out @ replace_all m (Some ((c # s) ! (n - 1))) (drop (n - 1) s))"
  by pat_completeness auto
termination by (relation "measure (\<lambda>(m, prev, s). length s)") auto

function match_all :: "(nat option \<Rightarrow> jsstring \<Rightarrow> nat option) \<Rightarrow> nat option \<Rightarrow> jsstring \<Rightarrow> jsstring list" where
  "match_all m prev [] = []"
| "match_all m prev (c # s) =
     (case m prev (c # s) of
        None \<Rightarrow> match_all m (Some c) s
      | Some n \<Rightarrow> take n (c # s) # match_all m (Some ((c # s) ! (n - 1))) (drop (n - 1) s))"
  by pat_completeness auto
termination by (relation "measure (\<lambda>(m, prev, s). length s)") auto

definition redacted :: jsstring where
  "redacted = js_lit ''[REDACTED]''"

section \<open>The five replacements\<close>

text \<open>\<open>/<think\b[^>]*>[\s\S]*?<\/think>/gi\<close>\<close>

definition think_match :: matcher where
  "think_match prev s =
     (let r = drop 6 s; body = drop (Suc (span (\<lambda>c. c \<noteq> 62) r)) r
      in if ci_startsWith s (js_lit ''<think'') \<and> r \<noteq> [] \<and> \<not> is_word (hd r) \<and> 62 \<in> set r
         then map_option (\<lambda>k. (6 + Suc (span (\<lambda>c. c \<noteq> 62) r) + k + 8, []))
                (find_first (\<lambda>t. ci_startsWith t (js_lit ''</think>'')) body)
         else None)"

text \<open>\<open>/\b(Bearer\s+)[\w.+/=-]+/gi\<close>\<close>

definition bearer_char :: "nat \<Rightarrow> bool" where
  "bearer_char c = (is_word c \<or> c \<in> set (js_lit ''.+/=-''))"

definition bearer_match :: matcher where
  "bearer_match prev s =
     (let ws = span is_space (drop 6 s); val = span bearer_char (drop (6 + ws) s)
      in if no_word prev \<and> ci_startsWith s (js_lit ''bearer'') \<and> ws > 0 \<and> val > 0
         then Some (6 + ws + val, take (6 + ws) s @ redacted) else None)"

text \<open>
  \<open>/\b((?:api[_-]?key|password|secret|access[_-]?token|refresh[_-]?token)\s*[=:]\s*)["']?[^\s,"'}]+/gi\<close>
\<close>

definition two_words :: "jsstring \<Rightarrow> jsstring \<Rightarrow> jsstring \<Rightarrow> nat option" where
  "two_words a b s =
     (let r = drop (length a) s; k = (if r \<noteq> [] \<and> (hd r = 95 \<or> hd r = 45) then 1 else 0)
      in if ci_startsWith s a \<and> ci_startsWith (drop k r) b then Some (length a + k + length b) else None)"

definition secret_name :: "jsstring \<Rightarrow> nat option" where
  "secret_name s =
     (case two_words (js_lit ''api'') (js_lit ''key'') s of Some n \<Rightarrow> Some n | None \<Rightarrow>
        if ci_startsWith s (js_lit ''password'') then Some 8
        else if ci_startsWith s (js_lit ''secret'') then Some 6
        else case two_words (js_lit ''access'') (js_lit ''token'') s of Some n \<Rightarrow> Some n | None \<Rightarrow>
               two_words (js_lit ''refresh'') (js_lit ''token'') s)"

definition secret_char :: "nat \<Rightarrow> bool" where
  "secret_char c = (\<not> is_space c \<and> c \<notin> {44, 34, 39, 125})"

definition secret_match :: matcher where
  "secret_match prev s =
     (case (if no_word prev then secret_name s else None) of
        None \<Rightarrow> None
      | Some k \<Rightarrow>
          let w1 = span is_space (drop k s); r = drop (k + w1) s;
              w2 = span is_space (drop (k + w1 + 1) s); r2 = drop (k + w1 + 1 + w2) s;
              q = (if r2 \<noteq> [] \<and> (hd r2 = 34 \<or> hd r2 = 39) then 1 else 0);
              val = span secret_char (drop q r2)
          in if r \<noteq> [] \<and> (hd r = 61 \<or> hd r = 58) \<and> val > 0
             then Some (k + w1 + 1 + w2 + q + val, take (k + w1 + 1 + w2) s @ redacted) else None)"

text \<open>\<open>/\b(?:sk-|ghp_|github_pat_|xox[baprs]-)[\w-]{12,}/g\<close>\<close>

definition token_prefixes :: "jsstring list" where
  "token_prefixes = map js_lit [''sk-'', ''ghp_'', ''github_pat_'', ''xoxb-'', ''xoxa-'', ''xoxp-'', ''xoxr-'', ''xoxs-'']"

definition token_char :: "nat \<Rightarrow> bool" where
  "token_char c = (is_word c \<or> c = 45)"

definition token_match :: matcher where
  "token_match prev s =
     (case filter (js_startsWith s) token_prefixes of
        p # _ \<Rightarrow>
          if no_word prev \<and> span token_char (drop (length p) s) \<ge> 12
          then Some (length p + span token_char (drop (length p) s), redacted) else None
      | [] \<Rightarrow> None)"

text \<open>\<open>/(https?:\/\/)[^\s/@]+:[^\s/@]+@/g\<close>\<close>

definition scheme_len :: "jsstring \<Rightarrow> nat option" where
  "scheme_len s = (if js_startsWith s (js_lit ''http://'') then Some 7
                   else if js_startsWith s (js_lit ''https://'') then Some 8 else None)"

definition authority_char :: "nat \<Rightarrow> bool" where
  "authority_char c = (\<not> is_space c \<and> c \<noteq> 47 \<and> c \<noteq> 64)"

text \<open>The part before \<open>@\<close> has a colon that is neither its first nor its last code unit.\<close>

definition userinfo :: "jsstring \<Rightarrow> bool" where
  "userinfo a = (58 \<in> set (butlast (tl a)))"

definition url_match :: matcher where
  "url_match prev s =
     (case scheme_len s of
        None \<Rightarrow> None
      | Some k \<Rightarrow>
          let a = takeWhile authority_char (drop k s); r = drop (k + length a) s
          in if userinfo a \<and> r \<noteq> [] \<and> hd r = 64 then Some (k + length a + 1, take k s @ redacted @ [64]) else None)"

definition redactSummary :: "jsstring \<Rightarrow> jsstring" where
  "redactSummary s =
     replace_all url_match None (replace_all token_match None (replace_all secret_match None
       (replace_all bearer_match None (replace_all think_match None s))))"

section \<open>Recovery anchors\<close>

text \<open>
  \<open>/(?:[A-Za-z]:)?(?:\/[\w.@+-]+){2,}|\b[0-9a-f]{12,64}\b|https?:\/\/[^\s)]+/g\<close>. \<open>path_run\<close> gives the number of segments and
  their length together.
\<close>

definition segment_char :: "nat \<Rightarrow> bool" where
  "segment_char c = (is_word c \<or> c \<in> set (js_lit ''.@+-''))"

function path_run :: "jsstring \<Rightarrow> nat \<times> nat" where
  "path_run [] = (0, 0)"
| "path_run (c # s) =
     (let n = span segment_char s
      in if c = 47 \<and> n > 0 then (case path_run (drop n s) of (k, l) \<Rightarrow> (Suc k, Suc n + l)) else (0, 0))"
  by pat_completeness auto
termination by (relation "measure length") auto

definition path_len :: "jsstring \<Rightarrow> nat option" where
  "path_len s = (case path_run s of (k, l) \<Rightarrow> if k \<ge> 2 then Some l else None)"

definition is_letter :: "nat \<Rightarrow> bool" where
  "is_letter c = (65 \<le> c \<and> c \<le> 90 \<or> 97 \<le> c \<and> c \<le> 122)"

definition is_hex :: "nat \<Rightarrow> bool" where
  "is_hex c = (48 \<le> c \<and> c \<le> 57 \<or> 97 \<le> c \<and> c \<le> 102)"

definition drive_path_len :: "jsstring \<Rightarrow> nat option" where
  "drive_path_len s =
     (case s of
        c # d # t \<Rightarrow> if is_letter c \<and> d = 58 then (case path_len t of Some l \<Rightarrow> Some (2 + l) | None \<Rightarrow> path_len s) else path_len s
      | _ \<Rightarrow> path_len s)"

definition hex_len :: "nat option \<Rightarrow> jsstring \<Rightarrow> nat option" where
  "hex_len prev s =
     (let n = span is_hex s; r = drop n s
      in if no_word prev \<and> 12 \<le> n \<and> n \<le> 64 \<and> (r = [] \<or> \<not> is_word (hd r)) then Some n else None)"

definition link_len :: "jsstring \<Rightarrow> nat option" where
  "link_len s =
     (case scheme_len s of
        None \<Rightarrow> None
      | Some k \<Rightarrow> let n = span (\<lambda>c. \<not> is_space c \<and> c \<noteq> 41) (drop k s) in if n > 0 then Some (k + n) else None)"

definition anchor_match :: "nat option \<Rightarrow> jsstring \<Rightarrow> nat option" where
  "anchor_match prev s =
     (case drive_path_len s of
        Some n \<Rightarrow> Some n
      | None \<Rightarrow> (case hex_len prev s of Some n \<Rightarrow> Some n | None \<Rightarrow> link_len s))"

text \<open>A \<open>Set\<close> of the matches, in the order they are found.\<close>

definition recovery_anchors :: "jsstring \<Rightarrow> jsstring list" where
  "recovery_anchors s = rev (remdups (rev (match_all anchor_match None s)))"

section \<open>Reading an error\<close>

text \<open>
  A pattern under the flag \<open>i\<close>: \<open>Lit\<close> a literal in lower case, \<open>Any\<close> the dot, \<open>Star\<close> the dot with a star in front of the rest,
  whose first part the text has to have before the line ends.
\<close>

datatype piece = Lit jsstring | Any | Star

fun here :: "piece list \<Rightarrow> jsstring \<Rightarrow> bool" where
  "here [] s = True"
| "here (Lit p # ps) s = (ci_startsWith s p \<and> here ps (drop (length p) s))"
| "here (Any # ps) s = (s \<noteq> [] \<and> \<not> is_lineterm (hd s) \<and> here ps (tl s))"
| "here (Star # ps) s = list_ex (\<lambda>n. here ps (drop n s)) [0..<Suc (span (\<lambda>c. \<not> is_lineterm c) s)]"

definition regex_test :: "piece list list \<Rightarrow> jsstring \<Rightarrow> bool" where
  "regex_test alts s = (find_first (\<lambda>t. list_ex (\<lambda>ps. here ps t) alts) s \<noteq> None)"

definition lits :: "string list \<Rightarrow> piece list list" where
  "lits ws = map (\<lambda>w. [Lit (js_lit w)]) ws"

datatype failure_kind = Access | Network | TruncatedF | EmptyF | Overload | Timeout | OtherF

definition summaryFailure :: "jsstring \<Rightarrow> failure_kind" where
  "summaryFailure text =
     (if regex_test ([[Lit (js_lit ''insufficient''), Any, Lit (js_lit ''quota'')], [Lit (js_lit ''credit''), Any, Lit (js_lit ''balance'')]] @
          lits [''401'', ''403'', ''permission'', ''unauthorized'', ''authentication'']) text then Access
      else if regex_test ([[Lit (js_lit ''finish_reason''), Star, Lit (js_lit ''length'')]] @ lits [''truncat'', ''token cap'']) text
      then TruncatedF
      else if regex_test (lits [''empty'', ''no usable response'']) text then EmptyF
      else if regex_test (lits [''overload'', ''at capacity'', ''over capacity'']) text then Overload
      else if regex_test (lits [''timeout'', ''timed out'', ''408'', ''429'', ''502'', ''504'']) text then Timeout
      else if regex_test ([[Lit (js_lit ''stream''), Star, Lit (js_lit ''ended'')], [Lit (js_lit ''stream''), Star, Lit (js_lit ''closed'')]] @
                lits [''network'', ''fetch failed'', ''offline'', ''connection'', ''econn'', ''enotfound'']) text then Network
      else OtherF)"

section \<open>What is left of secrets\<close>

text \<open>
  An API token in a text: one of the prefixes where a word begins, and at least twelve characters behind it. The credentials of a
  URL: a user and a password in front of the host.
\<close>

definition is_token :: "jsstring \<Rightarrow> bool" where
  "is_token q = (\<exists>p \<in> set token_prefixes. \<exists>r. q = p @ r \<and> length r \<ge> 12 \<and> list_all token_char r)"

definition exposes_token :: "jsstring \<Rightarrow> bool" where
  "exposes_token s = (\<exists>u q v. s = u @ q @ v \<and> (u = [] \<or> \<not> is_word (last u)) \<and> is_token q)"

definition exposes_password :: "jsstring \<Rightarrow> bool" where
  "exposes_password s =
     (\<exists>u h a v. s = u @ h @ a @ 64 # v \<and> h \<in> {js_lit ''http://'', js_lit ''https://''} \<and> list_all authority_char a \<and>
        (\<exists>x y. a = x @ 58 # y \<and> x \<noteq> [] \<and> y \<noteq> []))"

fun occurs :: "matcher \<Rightarrow> nat option \<Rightarrow> jsstring \<Rightarrow> bool" where
  "occurs m prev [] = False"
| "occurs m prev (c # s) = (m prev (c # s) \<noteq> None \<or> occurs m (Some c) s)"

lemma occurs_iff:
  "occurs m prev s \<longleftrightarrow> (\<exists>u t. s = u @ t \<and> t \<noteq> [] \<and> m (if u = [] then prev else Some (last u)) t \<noteq> None)" (is "_ = ?R prev s")
proof (induction s arbitrary: prev)
  case (Cons c s)
  have "?R prev (c # s) \<longleftrightarrow> m prev (c # s) \<noteq> None \<or> ?R (Some c) s"
  proof
    assume "?R prev (c # s)"
    then obtain u t where u: "c # s = u @ t" "t \<noteq> []" "m (if u = [] then prev else Some (last u)) t \<noteq> None" by blast
    show "m prev (c # s) \<noteq> None \<or> ?R (Some c) s"
    proof (cases u)
      case (Cons d u')
      then have "s = u' @ t" "m (if u' = [] then Some c else Some (last u')) t \<noteq> None" using u by (auto split: if_splits)
      then show ?thesis using u(2) by blast
    qed (use u in auto)
  next
    assume "m prev (c # s) \<noteq> None \<or> ?R (Some c) s"
    then show "?R prev (c # s)"
    proof
      assume "m prev (c # s) \<noteq> None"
      then show ?thesis by (intro exI[of _ "[]"] exI[of _ "c # s"]) simp
    next
      assume "?R (Some c) s"
      then obtain u t where "s = u @ t" "t \<noteq> []" "m (if u = [] then Some c else Some (last u)) t \<noteq> None" by blast
      then show ?thesis by (intro exI[of _ "c # u"] exI[of _ t]) (auto split: if_splits)
    qed
  qed
  then show ?case using Cons by simp
qed simp

lemma occurs_append: "u \<noteq> [] \<Longrightarrow> occurs m (Some (last u)) v \<Longrightarrow> occurs m prev (u @ v)"
  by (induction u arbitrary: prev) (auto split: if_splits)

text \<open>A token at the head of a text is seen in the token characters the text begins with.\<close>

definition token_head :: "jsstring \<Rightarrow> bool" where
  "token_head s = (\<exists>q v. s = q @ v \<and> is_token q)"

lemma token_prefixes_disjoint: "\<forall>p \<in> set token_prefixes. \<forall>q \<in> set token_prefixes. p = q \<or> \<not> js_startsWith p q"
  by code_simp

lemma token_prefixes_chars: "\<forall>p \<in> set token_prefixes. list_all token_char p \<and> p \<noteq> [] \<and> hd p \<in> {103, 115, 120}"
  by code_simp

lemma token_prefix_unique:
  assumes "p \<in> set token_prefixes" "q \<in> set token_prefixes" "js_startsWith s p" "js_startsWith s q"
  shows "p = q"
proof -
  obtain a where a: "s = p @ a" using assms(3) by (auto simp: js_startsWith_iff)
  obtain b where b: "s = q @ b" using assms(4) by (auto simp: js_startsWith_iff)
  have "p @ a = q @ b" using a b by simp
  then have "(\<exists>c. p = q @ c) \<or> (\<exists>c. q = p @ c)" by (auto simp: append_eq_append_conv2)
  then have "js_startsWith p q \<or> js_startsWith q p" by (auto simp: js_startsWith_iff)
  then show ?thesis
    using token_prefixes_disjoint[rule_format, OF assms(1,2)] token_prefixes_disjoint[rule_format, OF assms(2,1)] by auto
qed

lemma filter_hd: "filter P xs = y # ys \<Longrightarrow> y \<in> set xs \<and> P y"
proof -
  assume "filter P xs = y # ys"
  then have "y \<in> set (filter P xs)" by simp
  then show ?thesis by simp
qed

lemma span_append: "list_all P r \<Longrightarrow> span P (r @ v) = length r + span P v"
  by (simp add: span_def list_all_iff)

lemma token_match_iff: "token_match prev s \<noteq> None \<longleftrightarrow> no_word prev \<and> token_head s"
proof
  assume m: "token_match prev s \<noteq> None"
  then obtain p ps where f: "filter (js_startsWith s) token_prefixes = p # ps" by (auto simp: token_match_def split: list.splits)
  then have p: "p \<in> set token_prefixes" "js_startsWith s p" using filter_hd[OF f] by simp_all
  have w: "no_word prev" "span token_char (drop (length p) s) \<ge> 12" using m f by (auto simp: token_match_def split: if_splits)
  let ?r = "takeWhile token_char (drop (length p) s)"
  obtain t where t: "s = p @ t" using p by (auto simp: js_startsWith_iff)
  then have "s = (p @ ?r) @ dropWhile token_char t" by simp
  moreover have "is_token (p @ ?r)" unfolding is_token_def using p(1) w(2) by (auto simp: span_def list_all_iff dest: set_takeWhileD)
  ultimately show "no_word prev \<and> token_head s" using w(1) unfolding token_head_def by blast
next
  assume a: "no_word prev \<and> token_head s"
  then obtain p r v where s: "s = p @ r @ v" "p \<in> set token_prefixes" "length r \<ge> 12" "list_all token_char r"
    by (auto simp: token_head_def is_token_def)
  have sp: "js_startsWith s p" using s by (auto simp: js_startsWith_iff)
  obtain p' ps where f: "filter (js_startsWith s) token_prefixes = p' # ps"
    using sp s(2) by (cases "filter (js_startsWith s) token_prefixes") (auto simp: filter_empty_conv)
  then have "p' \<in> set token_prefixes" "js_startsWith s p'" using filter_hd[OF f] by simp_all
  then have "p' = p" using token_prefix_unique s(2) sp by blast
  moreover have "span token_char (drop (length p) s) \<ge> 12" using s by (simp add: span_append)
  ultimately show "token_match prev s \<noteq> None" using a f by (simp add: token_match_def)
qed

lemma exposes_token_iff: "exposes_token s \<longleftrightarrow> occurs token_match None s"
proof -
  have e: "exposes_token s \<longleftrightarrow> (\<exists>u t. s = u @ t \<and> (u = [] \<or> \<not> is_word (last u)) \<and> token_head t)"
    unfolding exposes_token_def token_head_def by blast
  have ne: "token_head t \<Longrightarrow> t \<noteq> []" for t by (auto simp: token_head_def is_token_def)
  have nw: "no_word (if u = [] then None else Some (last u)) \<longleftrightarrow> u = [] \<or> \<not> is_word (last u)" for u :: jsstring
    by (simp add: no_word_def)
  have "occurs token_match None s \<longleftrightarrow> (\<exists>u t. s = u @ t \<and> t \<noteq> [] \<and> (u = [] \<or> \<not> is_word (last u)) \<and> token_head t)"
    unfolding occurs_iff token_match_iff nw by simp
  then show ?thesis unfolding e using ne by blast
qed

lemma token_head_takeWhile: "token_head s \<longleftrightarrow> token_head (takeWhile token_char s)"
proof
  assume "token_head s"
  then obtain q v where q: "s = q @ v" "is_token q" by (auto simp: token_head_def)
  then have "list_all token_char q" using token_prefixes_chars by (auto simp: is_token_def)
  then have "takeWhile token_char s = q @ takeWhile token_char v" using q(1) by (simp add: list_all_iff)
  then show "token_head (takeWhile token_char s)" using q(2) unfolding token_head_def by blast
qed (metis append.assoc takeWhile_dropWhile_id token_head_def)

lemma token_head_mono: "token_head s \<Longrightarrow> token_head (s @ t)"
  unfolding token_head_def by (metis append.assoc)

lemma token_head_hd: "token_head (c # s) \<Longrightarrow> c \<in> {103, 115, 120}"
proof -
  assume "token_head (c # s)"
  then obtain p r where p: "c # s = p @ r" "p \<in> set token_prefixes" by (auto simp: token_head_def is_token_def)
  then show ?thesis using token_prefixes_chars by (cases p) auto
qed

text \<open>The pass that replaces tokens leaves no token.\<close>

lemma token_match_Some:
  assumes "token_match prev (c # s) = Some (n, out)"
  shows "out = redacted" "0 < n" "n \<le> length (c # s)" "c \<in> {103, 115, 120}" "token_char ((c # s) ! (n - 1))"
    "drop (n - 1) s = [] \<or> \<not> token_char (hd (drop (n - 1) s))"
proof -
  have "token_match prev (c # s) \<noteq> None" using assms by simp
  then have "token_head (c # s)" using token_match_iff by blast
  then show "c \<in> {103, 115, 120}" by (rule token_head_hd)
  obtain p ps where f: "filter (js_startsWith (c # s)) token_prefixes = p # ps"
    using assms by (auto simp: token_match_def split: list.splits)
  then have "js_startsWith (c # s) p" using filter_hd[OF f] by simp
  then obtain t where t: "c # s = p @ t" by (auto simp: js_startsWith_iff)
  let ?k = "span token_char t"
  have n: "n = length p + ?k" "out = redacted" "12 \<le> ?k" using assms f t by (auto simp: token_match_def split: if_splits)
  then show "out = redacted" by simp
  show "0 < n" using n by simp
  have k: "?k \<le> length t" by (simp add: span_def length_takeWhile_le)
  then show "n \<le> length (c # s)" using n t by (metis add_left_mono length_append)
  have "length p + ?k - 1 = length p + (?k - 1)" using n(3) by simp
  then have "(c # s) ! (n - 1) = t ! (?k - 1)" unfolding t n(1) by (simp only: nth_append_length_plus)
  also have "\<dots> = takeWhile token_char t ! (?k - 1)" using n(3) by (simp add: span_def takeWhile_nth)
  finally show "token_char ((c # s) ! (n - 1))"
    using n(3) nth_mem[of "?k - 1" "takeWhile token_char t"] set_takeWhileD[of _ token_char t] by (simp add: span_def)
  have "drop (n - 1) s = drop n (c # s)" using \<open>0 < n\<close> by (cases n) simp_all
  also have "\<dots> = dropWhile token_char t" unfolding t n(1) by (simp add: span_def dropWhile_eq_drop)
  finally show "drop (n - 1) s = [] \<or> \<not> token_char (hd (drop (n - 1) s))" using hd_dropWhile by metis
qed

lemma redacted_chars: "redacted \<noteq> []" "hd redacted = 91" "last redacted = 93" "\<forall>c \<in> set redacted. c \<notin> {103, 115, 120}"
  by code_simp+

lemma tokens_takeWhile:
  "\<exists>w. takeWhile token_char s = takeWhile token_char (replace_all token_match prev s) @ w"
proof (induction token_match prev s rule: replace_all.induct)
  case (2 prev c s)
  show ?case
  proof (cases "token_match prev (c # s)")
    case None
    then show ?thesis using 2(1)[OF None] by auto
  next
    case (Some r)
    then obtain n out where r: "r = (n, out)" by (cases r)
    have "out = redacted" using token_match_Some(1) Some r by blast
    then have "hd out = 91" "out \<noteq> []" using redacted_chars by simp_all
    then have "takeWhile token_char (replace_all token_match prev (c # s)) = []"
      using Some r by (cases out) (auto simp: token_char_def is_word_def)
    then show ?thesis by simp
  qed
qed simp

lemma token_head_replaced: "token_head (c # replace_all token_match (Some c) s) \<Longrightarrow> token_head (c # s)"
proof -
  assume h: "token_head (c # replace_all token_match (Some c) s)"
  obtain w where w: "takeWhile token_char s = takeWhile token_char (replace_all token_match (Some c) s) @ w"
    using tokens_takeWhile by blast
  have "token_head (takeWhile token_char (c # replace_all token_match (Some c) s))" using h token_head_takeWhile by blast
  then have "token_head (takeWhile token_char (c # s))" using w token_head_mono[of "c # _" w] by (auto split: if_splits)
  then show ?thesis using token_head_takeWhile by blast
qed

lemma occurs_token_skip: "\<forall>c \<in> set u. c \<notin> {103, 115, 120} \<Longrightarrow> u \<noteq> [] \<Longrightarrow>
    occurs token_match prev (u @ v) = occurs token_match (Some (last u)) v"
proof (induction u arbitrary: prev)
  case (Cons c u)
  have "token_match prev (c # u @ v) = None" using token_match_iff token_head_hd Cons.prems(1) by (metis list.set_intros(1))
  then show ?case using Cons by (cases u) auto
qed simp

lemma replace_tokens_clean: "\<not> occurs token_match prev (replace_all token_match prev s)"
proof (induction token_match prev s rule: replace_all.induct)
  case (2 prev c s)
  show ?case
  proof (cases "token_match prev (c # s)")
    case None
    then have "token_match prev (c # replace_all token_match (Some c) s) = None"
      using token_match_iff token_head_replaced by metis
    then show ?thesis using None 2(1)[OF None] by simp
  next
    case (Some r)
    then obtain n out where r: "r = (n, out)" by (cases r)
    note m = token_match_Some[OF Some[unfolded r]]
    let ?s = "drop (n - 1) s" and ?p = "Some ((c # s) ! (n - 1))"
    have IH: "\<not> occurs token_match ?p (replace_all token_match ?p ?s)" using 2(2)[OF Some r[symmetric]] by simp
    have "\<not> occurs token_match (Some 93) (replace_all token_match ?p ?s)"
    proof (cases ?s)
      case (Cons d t)
      then have d: "\<not> token_char d" using m(6) by simp
      then have "d \<notin> {103, 115, 120}" by (auto simp: token_char_def is_word_def)
      then have no: "token_match q (d # y) = None" for q y using token_match_iff token_head_hd[of d y] by blast
      show ?thesis using IH Cons no by simp
    qed simp
    then show ?thesis using Some r m(1) redacted_chars by (simp add: occurs_token_skip)
  qed
qed simp

text \<open>The pass that replaces the credentials of URLs exposes no token, and leaves no such credentials.\<close>

lemma length_js_lit: "length (js_lit s) = length s"
  by (simp add: js_lit_def)

lemma url_match_Some:
  assumes "url_match prev (c # s) = Some (n, out)"
  shows "\<exists>h a v. h \<in> {js_lit ''http://'', js_lit ''https://''} \<and> c # s = h @ a @ 64 # v \<and> list_all authority_char a \<and> userinfo a \<and>
           out = h @ redacted @ [64] \<and> n = length h + length a + 1 \<and> drop (n - 1) s = v \<and> (c # s) ! (n - 1) = 64"
proof -
  obtain k where k: "scheme_len (c # s) = Some k" using assms by (auto simp: url_match_def split: option.splits)
  have "\<exists>h \<in> {js_lit ''http://'', js_lit ''https://''}. js_startsWith (c # s) h \<and> k = length h"
    using k by (cases "js_startsWith (c # s) (js_lit ''http://'')") (simp_all add: scheme_len_def length_js_lit split: if_splits)
  then obtain h where h: "h \<in> {js_lit ''http://'', js_lit ''https://''}" "js_startsWith (c # s) h" "k = length h" by blast
  then obtain t where t: "c # s = h @ t" by (auto simp: js_startsWith_iff)
  let ?a = "takeWhile authority_char t" and ?r = "dropWhile authority_char t"
  have d: "drop (length ?a) t = ?r" by (simp add: dropWhile_eq_drop)
  have e: "length t \<le> length ?a \<longleftrightarrow> ?r = []" using d by (metis drop_eq_Nil)
  have u: "userinfo ?a" "?r \<noteq> []" "hd ?r = 64" "n = length h + length ?a + 1" "out = h @ redacted @ [64]"
    using assms k h(3) unfolding t by (auto simp: url_match_def Let_def d e simp del: dropWhile_eq_Nil_conv split: if_splits)
  obtain v where v: "?r = 64 # v" using u(2,3) by (cases ?r) auto
  have split: "c # s = (h @ ?a) @ 64 # v" using t v by (metis append.assoc takeWhile_dropWhile_id)
  have len: "n - 1 = length (h @ ?a)" using u(4) by simp
  have "drop (n - 1) s = drop n (c # s)" using u(4) by simp
  also have "\<dots> = v" unfolding split using u(4) by simp
  finally have "drop (n - 1) s = v" .
  moreover have "(c # s) ! (n - 1) = 64" unfolding split len by (rule nth_append_length)
  moreover have "list_all authority_char ?a" by (auto simp: list_all_iff dest: set_takeWhileD)
  ultimately show ?thesis using h(1) split u v by (intro exI[of _ h] exI[of _ ?a] exI[of _ v]) simp
qed

lemma urls_takeWhile:
  "takeWhile token_char (replace_all url_match prev s) = takeWhile token_char s"
proof (induction url_match prev s rule: replace_all.induct)
  case (2 prev c s)
  show ?case
  proof (cases "url_match prev (c # s)")
    case None
    then show ?thesis using 2(1)[OF None] by simp
  next
    case (Some r)
    then obtain n out where r: "r = (n, out)" by (cases r)
    obtain h a v where u: "h \<in> {js_lit ''http://'', js_lit ''https://''}" "c # s = h @ a @ 64 # v" "out = h @ redacted @ [64]"
      using url_match_Some[OF Some[unfolded r]] by blast
    have "takeWhile token_char (h @ x) = takeWhile token_char (h @ y)" for x y
      using u(1) by (auto simp: js_lit_def token_char_def is_word_def)
    moreover have "replace_all url_match prev (c # s) = h @ redacted @ 64 # replace_all url_match (Some ((c # s) ! (n - 1))) (drop (n - 1) s)"
      using Some r u(3) by simp
    ultimately show ?thesis unfolding u(2) by metis
  qed
qed simp

lemma occurs_token_scheme:
  assumes "h \<in> {js_lit ''http://'', js_lit ''https://''}"
  shows "occurs token_match prev (h @ redacted @ 64 # v) = occurs token_match (Some 64) v"
proof -
  have s: "token_match prev (115 # 58 # x) = None" for prev x
  proof -
    have "\<not> token_head (takeWhile token_char (115 # 58 # x))"
      using token_prefixes_chars by (auto simp: token_char_def is_word_def token_head_def is_token_def Cons_eq_append_conv)
    then show ?thesis using token_match_iff token_head_takeWhile by blast
  qed
  have n: "token_match prev (d # x) = None" if "d \<notin> {103, 115, 120}" for d prev x
    using that token_match_iff token_head_hd by blast
  have "occurs token_match prev (h @ x) = occurs token_match (Some 47) x" for x
    using assms by (auto simp: js_lit_def s n)
  moreover have "occurs token_match (Some 47) ((redacted @ [64]) @ v) = occurs token_match (Some (last (redacted @ [64]))) v"
    by (rule occurs_token_skip) (use redacted_chars in auto)
  ultimately show ?thesis by simp
qed

lemma replace_urls_tokens: "occurs token_match prev (replace_all url_match prev s) \<Longrightarrow> occurs token_match prev s"
proof (induction url_match prev s rule: replace_all.induct)
  case (2 prev c s)
  show ?case
  proof (cases "url_match prev (c # s)")
    case None
    have "token_head (c # replace_all url_match (Some c) s) \<longleftrightarrow> token_head (c # s)"
      using token_head_takeWhile urls_takeWhile by (metis takeWhile.simps(2))
    then have "token_match prev (c # replace_all url_match (Some c) s) \<noteq> None \<longleftrightarrow> token_match prev (c # s) \<noteq> None"
      unfolding token_match_iff by blast
    then show ?thesis using None 2(1)[OF None] 2(3) by auto
  next
    case (Some r)
    then obtain n out where r: "r = (n, out)" by (cases r)
    obtain h a v where u: "h \<in> {js_lit ''http://'', js_lit ''https://''}" "c # s = h @ a @ 64 # v" "out = h @ redacted @ [64]"
      "drop (n - 1) s = v" "(c # s) ! (n - 1) = 64"
      using url_match_Some[OF Some[unfolded r]] by blast
    have "occurs token_match (Some 64) (replace_all url_match (Some 64) v)"
      using 2(3) Some r u(3,4,5) occurs_token_scheme[OF u(1)] by simp
    then have "occurs token_match (Some 64) v" using 2(2)[OF Some r[symmetric]] u(4,5) by simp
    then have "occurs token_match prev ((h @ a @ [64]) @ v)" by (intro occurs_append) simp_all
    then show ?thesis using u(2) by simp
  qed
qed simp

lemma userinfo_iff: "userinfo a \<longleftrightarrow> (\<exists>x y. a = x @ 58 # y \<and> x \<noteq> [] \<and> y \<noteq> [])"
proof
  assume "userinfo a"
  then have u: "58 \<in> set (butlast (tl a))" by (simp add: userinfo_def)
  then obtain c b where a: "a = c # b" by (cases a) auto
  then have b: "b \<noteq> []" "58 \<in> set (butlast b)" using u by auto
  obtain x y where "butlast b = x @ 58 # y" using split_list[OF b(2)] by blast
  then have "a = (c # x) @ 58 # (y @ [last b])" using a b(1) by (metis append_Cons append_assoc append_butlast_last_id)
  then show "\<exists>x y. a = x @ 58 # y \<and> x \<noteq> [] \<and> y \<noteq> []" by blast
next
  assume "\<exists>x y. a = x @ 58 # y \<and> x \<noteq> [] \<and> y \<noteq> []"
  then obtain x y where "a = x @ 58 # y" "x \<noteq> []" "y \<noteq> []" by blast
  then show "userinfo a" by (cases x) (auto simp: userinfo_def butlast_append)
qed

definition url_head :: "jsstring \<Rightarrow> bool" where
  "url_head s = (\<exists>h a v. h \<in> {js_lit ''http://'', js_lit ''https://''} \<and> s = h @ a @ 64 # v \<and> list_all authority_char a \<and> userinfo a)"

lemma takeWhile_authority: "list_all authority_char a \<Longrightarrow> takeWhile authority_char (a @ 64 # v) = a"
  by (induction a) (auto simp: authority_char_def)

lemma url_match_iff: "url_match prev (c # s) \<noteq> None \<longleftrightarrow> url_head (c # s)"
proof
  assume "url_match prev (c # s) \<noteq> None"
  then obtain n out where "url_match prev (c # s) = Some (n, out)" by auto
  from url_match_Some[OF this] show "url_head (c # s)" unfolding url_head_def by metis
next
  assume "url_head (c # s)"
  then obtain h a v where u: "h \<in> {js_lit ''http://'', js_lit ''https://''}" "c # s = h @ a @ 64 # v"
    "list_all authority_char a" "userinfo a" unfolding url_head_def by blast
  have "scheme_len (h @ x) = Some (length h)" for x using u(1) by (auto simp: scheme_len_def js_startsWith_def js_lit_def)
  then show "url_match prev (c # s) \<noteq> None" unfolding u(2) by (simp add: url_match_def takeWhile_authority u(3,4))
qed

lemma url_head_Nil: "\<not> url_head []"
  by (simp add: url_head_def)

lemma url_head_hd: "url_head (c # s) \<Longrightarrow> c = 104"
  by (auto simp: url_head_def js_lit_def)

lemma exposes_password_iff: "exposes_password s \<longleftrightarrow> occurs url_match None s"
proof -
  have "occurs url_match None s \<longleftrightarrow> (\<exists>u t. s = u @ t \<and> url_head t)" unfolding occurs_iff
    by (metis list.exhaust url_head_Nil url_match_iff)
  then show ?thesis unfolding exposes_password_def url_head_def userinfo_iff by blast
qed

lemma replace_urls_head:
  assumes "replace_all url_match prev s = d # x" "d \<noteq> 104"
  shows "\<exists>s' p. s = d # s' \<and> x = replace_all url_match p s'"
proof (cases s)
  case (Cons c t)
  show ?thesis
  proof (cases "url_match prev (c # t)")
    case None
    then show ?thesis using assms Cons by auto
  next
    case (Some r)
    then obtain n out where r: "r = (n, out)" by (cases r)
    obtain h where "h \<in> {js_lit ''http://'', js_lit ''https://''}" "out = h @ redacted @ [64]"
      using url_match_Some[OF Some[unfolded r]] by blast
    then have "d = 104" using assms(1) Cons Some r by (auto simp: js_lit_def)
    then show ?thesis using assms(2) by simp
  qed
qed (use assms in simp)

lemma replace_urls_prefix: "replace_all url_match prev s = w @ x \<Longrightarrow> 104 \<notin> set w \<Longrightarrow> \<exists>s' p. s = w @ s' \<and> x = replace_all url_match p s'"
proof (induction w arbitrary: prev s)
  case (Cons d w)
  obtain s' p where s': "s = d # s'" "w @ x = replace_all url_match p s'"
    using replace_urls_head[of prev s d "w @ x"] Cons.prems by auto
  obtain s2 p2 where "s' = w @ s2" "x = replace_all url_match p2 s2" using Cons.IH[of p s'] s'(2) Cons.prems(2) by auto
  then show ?case using s'(1) by auto
qed (simp, blast)

lemma replace_urls_authority:
  "replace_all url_match prev s = a @ 64 # v \<Longrightarrow> list_all authority_char a \<Longrightarrow> \<exists>v'. s = a @ 64 # v'"
proof (induction url_match prev s arbitrary: a rule: replace_all.induct)
  case (2 prev c s)
  show ?case
  proof (cases "url_match prev (c # s)")
    case None
    then have out: "c # replace_all url_match (Some c) s = a @ 64 # v" using 2(3) by simp
    show ?thesis
    proof (cases a)
      case (Cons d b)
      have cd: "c = d" "replace_all url_match (Some c) s = b @ 64 # v" "list_all authority_char b" using out 2(4) Cons by auto
      then show ?thesis using 2(1)[OF None cd(2,3)] Cons by auto
    qed (use out in auto)
  next
    case (Some r)
    then obtain n out where r: "r = (n, out)" by (cases r)
    obtain h where h: "h \<in> {js_lit ''http://'', js_lit ''https://''}" "out = h @ redacted @ [64]"
      using url_match_Some[OF Some[unfolded r]] by blast
    have "hd (dropWhile authority_char (h @ x)) = 47" for x
      using h(1) by (auto simp: js_lit_def authority_char_def is_space_def)
    moreover have "a @ 64 # v = h @ redacted @ 64 # replace_all url_match (Some ((c # s) ! (n - 1))) (drop (n - 1) s)"
      using 2(3) Some r h(2) by simp
    ultimately have "hd (dropWhile authority_char (a @ 64 # v)) = 47" by simp
    moreover have "dropWhile authority_char (a @ 64 # v) = 64 # v"
      using 2(4) by (induction a) (auto simp: authority_char_def)
    ultimately show ?thesis by simp
  qed
qed simp

lemma redacted_authority: "list_all authority_char redacted" "\<not> userinfo redacted"
  by (simp_all add: redacted_def js_lit_def authority_char_def is_space_def userinfo_def)

lemma replace_urls_clean: "\<not> occurs url_match prev (replace_all url_match prev s)"
proof (induction url_match prev s rule: replace_all.induct)
  case (2 prev c s)
  show ?case
  proof (cases "url_match prev (c # s)")
    case None
    have "\<not> url_head (c # replace_all url_match (Some c) s)"
    proof
      assume "url_head (c # replace_all url_match (Some c) s)"
      then obtain h a v where u: "h \<in> {js_lit ''http://'', js_lit ''https://''}"
        "c # replace_all url_match (Some c) s = h @ a @ 64 # v" "list_all authority_char a" "userinfo a" unfolding url_head_def by blast
      obtain w where w: "h = c # w" "104 \<notin> set w" using u(1,2) by (auto simp: js_lit_def)
      then have "replace_all url_match (Some c) s = w @ a @ 64 # v" using u(2) by simp
      then obtain s' p where s': "s = w @ s'" "a @ 64 # v = replace_all url_match p s'"
        using replace_urls_prefix w(2) by blast
      obtain v' where "s' = a @ 64 # v'" using replace_urls_authority[OF s'(2)[symmetric] u(3)] by blast
      then have "url_head (c # s)" unfolding url_head_def using u s'(1) w(1) by (metis append_Cons)
      then show False using None url_match_iff by blast
    qed
    then have "url_match prev (c # replace_all url_match (Some c) s) = None" using url_match_iff by blast
    then show ?thesis using None 2(1)[OF None] by simp
  next
    case (Some r)
    then obtain n out where r: "r = (n, out)" by (cases r)
    obtain h a v where u: "h \<in> {js_lit ''http://'', js_lit ''https://''}" "out = h @ redacted @ [64]"
      "drop (n - 1) s = v" "(c # s) ! (n - 1) = 64"
      using url_match_Some[OF Some[unfolded r]] by blast
    let ?z = "replace_all url_match (Some 64) v"
    have z: "\<not> occurs url_match (Some 64) ?z" using 2(2)[OF Some r[symmetric]] u(3,4) by simp
    have skip: "url_match q (d # x) = None" if "d \<noteq> 104" for q d x using that url_match_iff url_head_hd by blast
    have sk: "occurs url_match q (w @ x) = occurs url_match (Some (last w)) x" if "104 \<notin> set w" "w \<noteq> []" for q w x
      using that by (induction w arbitrary: q) (auto simp: skip split: if_splits)
    have "\<not> url_head (h @ redacted @ 64 # ?z)"
    proof
      assume "url_head (h @ redacted @ 64 # ?z)"
      then obtain h' b y where b: "h' \<in> {js_lit ''http://'', js_lit ''https://''}" "h @ redacted @ 64 # ?z = h' @ b @ 64 # y"
        "list_all authority_char b" "userinfo b" unfolding url_head_def by blast
      have "h' = h" using u(1) b(1,2) by (auto simp: js_lit_def)
      then have eq: "redacted @ 64 # ?z = b @ 64 # y" using b(2) by simp
      have tw: "takeWhile authority_char (redacted @ 64 # ?z) = redacted" by (rule takeWhile_authority[OF redacted_authority(1)])
      have "b = redacted" using takeWhile_authority[OF b(3), of y] unfolding eq[symmetric] tw by (rule sym)
      then show False using b(4) redacted_authority(2) by simp
    qed
    moreover obtain w where w: "h = 104 # w" "104 \<notin> set w" using u(1) by (auto simp: js_lit_def)
    moreover have "\<not> occurs url_match (Some 104) (w @ redacted @ 64 # ?z)"
    proof -
      have "104 \<notin> set (w @ redacted @ [64])" using w(2) by (simp add: redacted_def js_lit_def)
      then have "occurs url_match (Some 104) ((w @ redacted @ [64]) @ ?z) = occurs url_match (Some 64) ?z"
        by (subst sk) simp_all
      then show ?thesis using z by simp
    qed
    ultimately have "\<not> occurs url_match prev (h @ redacted @ 64 # ?z)" 
      using url_match_iff[of prev 104 "w @ redacted @ 64 # ?z"] by simp
    then show ?thesis using Some r u by simp
  qed
qed simp

lemma redacted_clean: "\<not> exposes_token (redactSummary s)" "\<not> exposes_password (redactSummary s)"
  unfolding exposes_token_iff exposes_password_iff redactSummary_def
  using replace_urls_clean replace_tokens_clean replace_urls_tokens by blast+


text \<open>
  What it lets through: a name in quotes, which is how a secret looks in the JSON text of a tool call, and a name with a word in front.
\<close>

lemmas redact_eval =
  redactSummary_def redacted_def js_lit_def think_match_def bearer_match_def bearer_char_def secret_match_def secret_name_def
  two_words_def secret_char_def token_match_def token_prefixes_def token_char_def url_match_def scheme_len_def ci_startsWith_def
  js_startsWith_def lower_def is_word_def is_space_def no_word_def span_def Let_def

theorem redactSummary_leaks:
  "redactSummary (js_lit ''{\"password\":\"hunter2\"}'') = js_lit ''{\"password\":\"hunter2\"}'' \<and>
   redactSummary (js_lit ''DB_PASSWORD=hunter2'') = js_lit ''DB_PASSWORD=hunter2'' \<and>
   redactSummary (js_lit ''password = \"hunter2\"'') = js_lit ''password = [REDACTED]\"'' \<and>
   redactSummary (js_lit ''Bearer abc.def'') = js_lit ''Bearer [REDACTED]'' \<and>
   redactSummary (js_lit ''<think>a</think>b'') = js_lit ''b''"
  by (simp add: redact_eval)

lemma anchors_sample:
  "recovery_anchors (js_lit ''user: [image_url attachment]'' @ [10, 10] @ js_lit ''assistant: [image_url attachment]'') = []"
  by (simp add: recovery_anchors_def js_lit_def anchor_match_def drive_path_len_def path_len_def hex_len_def link_len_def scheme_len_def
      span_def segment_char_def is_letter_def is_hex_def is_word_def no_word_def js_startsWith_def is_space_def)

lemma anchors_password: "recovery_anchors (js_lit ''tool: http://u:p@h'') = [js_lit ''http://u:p@h'']"
  by (simp add: recovery_anchors_def js_lit_def anchor_match_def drive_path_len_def path_len_def hex_len_def link_len_def scheme_len_def
      span_def segment_char_def is_letter_def is_hex_def is_word_def no_word_def js_startsWith_def is_space_def)

end
