(* ===== verification/Spec2Isabelle.thy ===== *)
theory Spec2Isabelle
  imports
    Comparators ArraysFind SortedArrays ArrayUtils
    Position TextRange TextSelection
    IntervalSets OffsetRanges LineRanges
    BaseEdits StringEdits LengthEdits
    PrefixSums FoldingRegions
    JsStrings BotAuthorization PendingRequests Approvals Questions
    ComposerModel Drafts TabDrafts
    ContextKeys ContextKeyForms ContextKeyNegation ContextKeyTheorems
    MemoryStore MemoryComparison
    JsValues Schedule Scheduler
    Redaction ContextCompression ContextMaintenance
begin

text \<open>
  A verification development for the Latent fork of VS Code. The program is an editor: a text model with positions, ranges,
  edits and folding, built on array and string helpers, and around it, in this fork, a composer for prompts,
  drafts kept per tab, and a local runtime that lets Bots call tools. Modelled here are the parts with logic of their own,
  each in a theory that follows its source file: records for the classes and interfaces, one definition per
  function or method, in the order of the file. All paths below are under \<^verbatim>\<open>src/src/vs\<close>.

  \<^bold>\<open>Conventions\<close> (\<^verbatim>\<open>Prelude\<close>, \<^verbatim>\<open>JsStrings\<close>). A throw is \<open>Inl\<close> of an error, \<open>undefined\<close> is \<open>None\<close>; numbers used as lines,
  columns, offsets and times are integers, narrowed explicitly where the code narrows them
  (\<open>toInt32\<close>, \<open>uint32\<close>); a string is the list of its UTF-16 units. A \<^verbatim>\<open>Map\<close> whose order shows is an association list. A loop is a
  structural recursion or a \<open>function\<close> with a measure; the one loop that can run for ever (the walk to the parent in
  \<open>findRange\<close>) is a \<open>partial_function\<close> into \<open>option\<close>, and that it returns is proved. Only the context keys use a bound. An \<open>await\<close> splits a method
  into what runs before and what runs after it, and the interleavings in between are steps of an inductive relation.

  \<^bold>\<open>Base\<close> (\<^verbatim>\<open>base/common\<close>). \<^verbatim>\<open>Comparators\<close>, \<^verbatim>\<open>SortedArrays\<close> and \<^verbatim>\<open>ArrayUtils\<close> model \<^verbatim>\<open>arrays.ts\<close>; the locale \<open>comparator\<close> is the contract
  of a comparison function, interpreted for \<open>numberComparator\<close>, \<open>booleanComparator\<close> and the order of attachments, and
  carries the lemmas on sorting, \<open>top\<close>, \<open>sortedDiff\<close> and \<open>delta\<close>. \<^verbatim>\<open>ArraysFind\<close> models \<^verbatim>\<open>arraysFind.ts\<close>: the binary
  searches find what the linear ones find, and the stateful \<open>MonotonousArray\<close> agrees with a scan over any sequence of
  queries. \<open>ArrayQueue\<close> refines a double-ended queue.

  \<^bold>\<open>Text\<close> (\<^verbatim>\<open>editor/common/core\<close>). \<^verbatim>\<open>Position\<close>, \<^verbatim>\<open>TextRange\<close>, \<^verbatim>\<open>TextSelection\<close> model \<^verbatim>\<open>position.ts\<close>, \<^verbatim>\<open>range.ts\<close>, \<^verbatim>\<open>selection.ts\<close>.
  \<^verbatim>\<open>OffsetRanges\<close> and \<^verbatim>\<open>LineRanges\<close> model \<^verbatim>\<open>ranges/\<close>: sorted lists of disjoint intervals; the locale \<open>interval_set\<close> (\<^verbatim>\<open>IntervalSets\<close>) is
  interpreted for both, and adding a range, union, intersection and difference are shown to be those of the sets
  of offsets or lines. \<^verbatim>\<open>BaseEdits\<close>, \<^verbatim>\<open>StringEdits\<close>, \<^verbatim>\<open>LengthEdits\<close> model \<^verbatim>\<open>edits/\<close>: the generic
  algebra of \<open>BaseEdit\<close> over the locales \<open>replacement\<close> and \<open>invertible_replacement\<close>, interpreted for string, annotated,
  length and array replacements. Composition is sequential application, the inverse undoes, normalisation and
  minimisation keep the meaning, rebasing converges, offsets are mapped consistently with the text.

  \<^bold>\<open>Models on text\<close>. \<^verbatim>\<open>PrefixSums\<close> models \<^verbatim>\<open>editor/common/model/prefixSumComputer.ts\<close> over 32-bit unsigned arrays; both computers
  interpret the locale \<open>prefix_sums\<close> and agree with each other. \<^verbatim>\<open>FoldingRegions\<close> models
  \<^verbatim>\<open>editor/contrib/folding/browser/foldingRanges.ts\<close> with its packed arrays and bit fields: merging two lists of regions yields
  well nested ones, and \<open>findRange\<close> returns the innermost.

  \<^bold>\<open>Bot runtime\<close> (\<^verbatim>\<open>latentRuntime/node/bots\<close>). \<^verbatim>\<open>BotAuthorization\<close> models \<^verbatim>\<open>authorization.ts\<close> and \<open>resolveInside\<close> of \<^verbatim>\<open>tools.ts\<close>: an
  authorized call is within its scope, and together the two checks keep a file tool inside its root. The URL parser
  is a parameter without hypotheses. \<^verbatim>\<open>PendingRequests\<close> is the host the next two run on (timers, abort signals, promises, a
  clock) with the locale \<open>request_service\<close>; \<^verbatim>\<open>Approvals\<close> and \<^verbatim>\<open>Questions\<close> model \<^verbatim>\<open>approvals.ts\<close> and
  \<^verbatim>\<open>questions.ts\<close> and interpret it: in every interleaving a request is settled exactly once, and none stays open past its time.

  \<^bold>\<open>Context keys\<close> (\<^verbatim>\<open>platform/contextkey/common/contextkey.ts\<close>). \<^verbatim>\<open>ContextKeys\<close> models the expressions of \<open>when\<close> clauses;
  \<^verbatim>\<open>ContextKeyForms\<close> and \<^verbatim>\<open>ContextKeyNegation\<close> hold the lemmas on normalisation and negation, \<^verbatim>\<open>ContextKeyTheorems\<close> the properties:
  \<open>and\<close>, \<open>or\<close>, \<open>negate\<close> and constant substitution keep the meaning, \<open>implies\<close> is sound, results need no parentheses. The comparison
  of expressions interprets \<open>comparator\<close>. Normalisation and negation call each other; the model bounds the nesting of the
  redundancy check by 1 and the depth of the distribution by the nesting of disjunctions, and \<open>negate_bound\<close> and
  \<open>and_normalize_bound\<close> show that larger bounds give the same. The coercions and the regular expression engine are parameters.

  \<^bold>\<open>Composer and drafts\<close> (\<^verbatim>\<open>workbench/contrib/latent\<close>). \<^verbatim>\<open>ComposerModel\<close> models \<^verbatim>\<open>common/composer/composerModel.ts\<close>: one
  submission at a time, and no edit made during it is lost. \<^verbatim>\<open>Drafts\<close> models \<^verbatim>\<open>common/drafts.ts\<close>: the regular expression for \<open>#n\<close>
  references as the matcher it denotes, printing and finding, renumbering. \<^verbatim>\<open>TabDrafts\<close> models
  \<^verbatim>\<open>browser/drafts/tabDraftService.ts\<close> with \<^verbatim>\<open>common/tabKey.ts\<close>: attachment numbers stay unique, drafts survive a restart. The JSON codec is a
  parameter, assumed to read back what it wrote (\<open>codec_ok\<close>); the witnesses instantiate it.

  \<^bold>\<open>Memory\<close> (\<^verbatim>\<open>latentRuntime/node/memory\<close>). \<^verbatim>\<open>MemoryStore\<close> models \<^verbatim>\<open>memoryStore.ts\<close>: a write changes a file only through its guards, what
  is saved is read back, changes that need a confirmation wait for it. \<^verbatim>\<open>MemoryComparison\<close> models \<^verbatim>\<open>memoryComparison.ts\<close>: the comparison with
  an adapter's copy accounts for every entry once, and the writes that settle an entry make both sides agree.

  \<^bold>\<open>Scheduler\<close> (\<^verbatim>\<open>latentRuntime/node/jobs\<close>). \<^verbatim>\<open>Schedule\<close> models \<^verbatim>\<open>schedule.ts\<close> over the numbers and the calendar of \<^verbatim>\<open>JsValues\<close>: cron
  fields mean what they say, printed schedules are read back, the next run is the first matching minute. \<^verbatim>\<open>Scheduler\<close> models
  \<^verbatim>\<open>scheduler.ts\<close> with the list store of \<^verbatim>\<open>runtimeConfig.ts\<close>: ticks and executions are frames, an action runs the code from one \<open>await\<close>
  to the next, and the properties hold in every state that any interleaving with any failures reaches (\<open>sched_reach\<close>).

  \<^bold>\<open>Conversation contexts\<close> (\<^verbatim>\<open>latentRuntime/node/memory\<close>). \<^verbatim>\<open>Redaction\<close> and \<^verbatim>\<open>ContextCompression\<close> model \<^verbatim>\<open>contextCompression.ts\<close>: the regular
  expressions as the matchers they denote, the estimate on the JSON text, the partition, and \<open>compressContext\<close> as a function of the answers of its host that
  returns its calls. A redacted text holds no API token of the known forms; a partition keeps tool groups and the
  latest request; a candidate is well formed, cheaper, stored before it replaces anything, and given up on abort. \<^verbatim>\<open>ContextMaintenance\<close> models
  \<^verbatim>\<open>contextMaintenance.ts\<close>: what compressing by hand, pruning and the rolling summary keep, and that a conversation has one idle job.
  The hash of messages and the re-encoding of arguments are parameters without hypotheses; the caller leaves the context alone meanwhile.

  \<^bold>\<open>How the parts interact\<close>. Folding and the interval sets search with \<^verbatim>\<open>ArraysFind\<close>; the edits use offset ranges; the composer
  and the drafts sort with \<^verbatim>\<open>SortedArrays\<close>; drafts block the composer through diagnostics; the runtime asks for an approval
  when the authorization refuses; the rolling summary and the manual command partition and redact with the compression.

  \<^bold>\<open>Not modelled\<close>, and why. Rendering, the workbench, the extension host and the agent host are wiring of external APIs.
  The piece tree, the diff algorithms and the parser of context-key expressions are logic that is left, as are SHA-1 in \<^verbatim>\<open>hash.ts\<close> and the hidden ranges of
  folding. Asynchronous and random array helpers, \<open>toString\<close> methods and type guards on untyped values are left out of the modelled files.
\<close>

end
